(* ===== verification/Prelude.thy ===== *)
theory Prelude
  imports Main "HOL-Library.Word"
begin

text \<open>
  Shared vocabulary of the development.

  \<^item> The fixed-width integer types of \<^verbatim>\<open>kernel/types.h\<close> as words.
  \<^item> Machine memory as a function from addresses to bytes, with little-endian loads and
    stores: every static table, heap block and stack frame of the kernel lives in the
    identity map that \<^verbatim>\<open>boot.s\<close> sets up, so an address is a natural number and a
    pointer field is its 64-bit encoding.
  \<^item> The collections \<open>mem_simps\<close> (reads after writes) and generic facts on words, lists and
    counting that several components use.
\<close>

unbundle bit_operations_syntax

named_theorems mem_simps \<open>loads after stores\<close>

type_synonym u8 = "8 word"
type_synonym u16 = "16 word"
type_synonym u32 = "32 word"
type_synonym u64 = "64 word"
type_synonym addr = nat
type_synonym mem = "nat \<Rightarrow> u8"

section \<open>Bytes in memory\<close>

text \<open>The little-endian bytes of a word and the word of a little-endian byte list.\<close>

fun le_bytes :: "nat \<Rightarrow> 'a::len word \<Rightarrow> u8 list" where
  "le_bytes 0 w = []"
| "le_bytes (Suc n) w = ucast w # le_bytes n (drop_bit 8 w)"

fun le_word :: "u8 list \<Rightarrow> 'a::len word" where
  "le_word [] = 0"
| "le_word (b # bs) = ucast b OR push_bit 8 (le_word bs)"

definition load_bytes :: "mem \<Rightarrow> addr \<Rightarrow> nat \<Rightarrow> u8 list" where
  "load_bytes m a n = map (\<lambda>i. m (a + i)) [0..<n]"

definition store_bytes :: "mem \<Rightarrow> addr \<Rightarrow> u8 list \<Rightarrow> mem" where
  "store_bytes m a bs = (\<lambda>x. if a \<le> x \<and> x < a + length bs then bs ! (x - a) else m x)"

definition load32 :: "mem \<Rightarrow> addr \<Rightarrow> u32" where
  "load32 m a = le_word (load_bytes m a 4)"

definition load64 :: "mem \<Rightarrow> addr \<Rightarrow> u64" where
  "load64 m a = le_word (load_bytes m a 8)"

definition store32 :: "mem \<Rightarrow> addr \<Rightarrow> u32 \<Rightarrow> mem" where
  "store32 m a v = store_bytes m a (le_bytes 4 v)"

definition store64 :: "mem \<Rightarrow> addr \<Rightarrow> u64 \<Rightarrow> mem" where
  "store64 m a v = store_bytes m a (le_bytes 8 v)"

text \<open>The range update that a \<^verbatim>\<open>memset\<close> performs.\<close>

definition fill :: "mem \<Rightarrow> addr \<Rightarrow> nat \<Rightarrow> u8 \<Rightarrow> mem" where
  "fill m a n v = (\<lambda>x. if a \<le> x \<and> x < a + n then v else m x)"

section \<open>Lemmas on bytes\<close>

lemma length_le_bytes [simp]: "length (le_bytes n w) = n"
  by (induction n w rule: le_bytes.induct) auto

lemma length_load_bytes [simp]: "length (load_bytes m a n) = n"
  by (simp add: load_bytes_def)

lemma bit_le_word_le_bytes:
  fixes w :: "'a::len word"
  shows "bit (le_word (le_bytes n w) :: 'a word) i \<longleftrightarrow> i < 8 * n \<and> bit w i"
proof (induction n w arbitrary: i rule: le_bytes.induct)
  case (1 w)
  then show ?case by simp
next
  case (2 n w)
  show ?case
  proof (cases "i < 8")
    case True
    then show ?thesis
      by (auto simp: bit_simps dest: bit_imp_le_length)
  next
    case False
    then have "bit (le_word (le_bytes (Suc n) w) :: 'a word) i
        \<longleftrightarrow> i < LENGTH('a) \<and> bit (le_word (le_bytes n (drop_bit 8 w)) :: 'a word) (i - 8)"
      by (auto simp: bit_simps dest: bit_imp_le_length)
    also have "\<dots> \<longleftrightarrow> i < 8 * Suc n \<and> bit w i"
      using False by (auto simp: 2 bit_simps dest: bit_imp_le_length)
    finally show ?thesis .
  qed
qed

lemma le_word_le_bytes:
  fixes w :: "'a::len word"
  assumes "LENGTH('a) \<le> 8 * n"
  shows "le_word (le_bytes n w) = w"
  by (rule bit_word_eqI) (use assms in \<open>auto simp: bit_le_word_le_bytes\<close>)

lemma load_store_bytes_same [simp]:
  "length bs = n \<Longrightarrow> load_bytes (store_bytes m a bs) a n = bs"
  by (auto simp: load_bytes_def store_bytes_def intro: nth_equalityI)

lemma load_bytes_cong:
  "(\<And>i. i < n \<Longrightarrow> m (a + i) = m' (a + i)) \<Longrightarrow> load_bytes m a n = load_bytes m' a n"
  by (auto simp: load_bytes_def)

lemma store_bytes_other:
  "x < a \<or> a + length bs \<le> x \<Longrightarrow> store_bytes m a bs x = m x"
  by (auto simp: store_bytes_def)

lemma fill_other: "x < a \<or> a + n \<le> x \<Longrightarrow> fill m a n v x = m x"
  by (auto simp: fill_def)

lemma fill_in: "a \<le> x \<Longrightarrow> x < a + n \<Longrightarrow> fill m a n v x = v"
  by (auto simp: fill_def)

lemma load_store_bytes_disjoint:
  "b + n \<le> a \<or> a + length bs \<le> b \<Longrightarrow> load_bytes (store_bytes m a bs) b n = load_bytes m b n"
  by (rule load_bytes_cong) (auto intro!: store_bytes_other)

lemma load_fill_disjoint:
  "b + k \<le> a \<or> a + n \<le> b \<Longrightarrow> load_bytes (fill m a n v) b k = load_bytes m b k"
  by (rule load_bytes_cong) (auto intro!: fill_other)

lemma load32_store32_same [simp, mem_simps]: "load32 (store32 m a v) a = v"
  by (simp add: load32_def store32_def le_word_le_bytes)

lemma load64_store64_same [simp, mem_simps]: "load64 (store64 m a v) a = v"
  by (simp add: load64_def store64_def le_word_le_bytes)

lemma load32_store32_other [mem_simps]:
  "b + 4 \<le> a \<or> a + 4 \<le> b \<Longrightarrow> load32 (store32 m a v) b = load32 m b"
  by (simp add: load32_def store32_def load_store_bytes_disjoint)

lemma load32_store64_other [mem_simps]:
  "b + 4 \<le> a \<or> a + 8 \<le> b \<Longrightarrow> load32 (store64 m a v) b = load32 m b"
  by (simp add: load32_def store64_def load_store_bytes_disjoint)

lemma load64_store32_other [mem_simps]:
  "b + 8 \<le> a \<or> a + 4 \<le> b \<Longrightarrow> load64 (store32 m a v) b = load64 m b"
  by (simp add: load64_def store32_def load_store_bytes_disjoint)

lemma load64_store64_other [mem_simps]:
  "b + 8 \<le> a \<or> a + 8 \<le> b \<Longrightarrow> load64 (store64 m a v) b = load64 m b"
  by (simp add: load64_def store64_def load_store_bytes_disjoint)

lemma load32_fill_other [mem_simps]:
  "b + 4 \<le> a \<or> a + n \<le> b \<Longrightarrow> load32 (fill m a n v) b = load32 m b"
  by (simp add: load32_def load_fill_disjoint)

lemma load64_fill_other [mem_simps]:
  "b + 8 \<le> a \<or> a + n \<le> b \<Longrightarrow> load64 (fill m a n v) b = load64 m b"
  by (simp add: load64_def load_fill_disjoint)

lemma store32_other: "x < a \<or> a + 4 \<le> x \<Longrightarrow> store32 m a v x = m x"
  by (auto simp: store32_def intro!: store_bytes_other)

lemma store64_other: "x < a \<or> a + 8 \<le> x \<Longrightarrow> store64 m a v x = m x"
  by (auto simp: store64_def intro!: store_bytes_other)

lemmas mem_other = store32_other store64_other fill_other store_bytes_other

lemma load32_cong: "(\<And>i. i < 4 \<Longrightarrow> m (a + i) = m' (a + i)) \<Longrightarrow> load32 m a = load32 m' a"
  unfolding load32_def by (metis load_bytes_cong)

lemma load64_cong: "(\<And>i. i < 8 \<Longrightarrow> m (a + i) = m' (a + i)) \<Longrightarrow> load64 m a = load64 m' a"
  unfolding load64_def by (metis load_bytes_cong)

section \<open>Words and naturals\<close>

lemma unat_of_nat64 [simp]: "n < 2 ^ 64 \<Longrightarrow> unat (of_nat n :: u64) = n"
  by (simp add: unat_of_nat take_bit_nat_eq_self)

lemma unat_of_nat32: "n < 2 ^ 32 \<Longrightarrow> unat (of_nat n :: u32) = n"
  by (simp add: unat_of_nat take_bit_nat_eq_self)

lemma unat_add32_no_wrap:
  "unat (a :: u32) + unat b < 2 ^ 32 \<Longrightarrow> unat (a + b) = unat a + unat b"
  by (simp add: unat_word_ariths)

lemma unat_less32 [simp]: "unat (x :: u32) < 4294967296"
proof -
  have "unat x < 2 ^ LENGTH(32)" by (rule unsigned_less)
  then show ?thesis by simp
qed

lemma sint_small32: "unat (x :: u32) \<le> 65536 \<Longrightarrow> sint x = int (unat x)"
proof -
  assume "unat x \<le> 65536"
  then have "int (unat x) \<le> 65536" by linarith
  then have "0 \<le> uint x" "uint x < 2 ^ 31" by simp_all
  then have "signed_take_bit 31 (uint x) = uint x"
    by (intro signed_take_bit_int_eq_self) (auto intro: order_trans[of _ 0])
  then show ?thesis by (simp add: sint_uint)
qed

lemma unat_inc32: "unat (a :: u32) + 1 < 2 ^ 32 \<Longrightarrow> unat (a + 1) = unat a + 1"
  by (simp add: unat_word_ariths)

lemma unat_dec32: "(a :: u32) \<noteq> 0 \<Longrightarrow> unat (a - 1) = unat a - 1"
  by (simp add: unat_minus_one)

lemma unat_take_bit_word: "unat (take_bit n (x :: 'a::len word)) = unat x mod 2 ^ n"
  by (metis unsigned_take_bit_eq take_bit_eq_mod)

lemma unat_ucast_32_64 [simp]: "unat (ucast (x :: u64) :: u32) = unat x mod 2 ^ 32"
  by (simp add: unsigned_ucast_eq take_bit_eq_mod)

lemma unat_ucast_64_32 [simp]: "unat (ucast (x :: u32) :: u64) = unat x"
proof -
  have "unat x < 2 ^ LENGTH(32)" by (rule unsigned_less)
  then have "unat x < 2 ^ 64" by (rule less_le_trans) simp
  then show ?thesis by (simp add: unsigned_ucast_eq take_bit_nat_eq_self)
qed

text \<open>Rounding down to a power of two, the idiom \<^verbatim>\<open>x & ~(2^n - 1)\<close>.\<close>

lemma and_not_mask_eq_diff: "(x :: 'a::len word) AND NOT (mask n) = x - take_bit n x"
proof -
  have "NOT x AND take_bit n x = 0"
    by (rule bit_word_eqI) (auto simp: bit_simps)
  then have "x - take_bit n x = x AND NOT (take_bit n x)"
    by (rule disjunctive_diff_eq_and_not)
  also have "\<dots> = x AND NOT (mask n)"
    by (rule bit_word_eqI) (auto simp: bit_simps)
  finally show ?thesis by simp
qed

lemma unat_and_not_mask: "unat ((x :: 'a::len word) AND NOT (mask n)) = unat x - unat x mod 2 ^ n"
proof -
  have "unat (take_bit n x) \<le> unat x"
    by (simp add: unat_take_bit_word)
  then have "unat (x - take_bit n x) = unat x - unat (take_bit n x)"
    by (intro unat_sub) (simp add: word_le_nat_alt)
  then show ?thesis by (simp add: and_not_mask_eq_diff unat_take_bit_word)
qed

text \<open>The same idiom with a 32-bit mask on a 64-bit value, where the mask also clears the high half.\<close>

lemma unat_and_mask32:
  fixes a c :: u64
  assumes "unat a < 2 ^ 32" and "c = mask 32 AND NOT (mask n)"
  shows "unat (a AND c) = unat a - unat a mod 2 ^ n"
proof -
  have "a AND c = take_bit 32 a AND NOT (mask n)"
    using assms(2) by (simp add: take_bit_eq_mask and.assoc)
  then show ?thesis using assms(1) by (simp add: unat_and_not_mask unat_take_bit_word)
qed

section \<open>Lists\<close>

lemma nth_list_update_if:
  "i < length xs \<Longrightarrow> xs[i := v] ! j = (if i = j then v else xs ! j)"
  by (simp add: nth_list_update)

lemma set_list_update_subset:
  "set (xs[i := v]) \<subseteq> insert v (set xs)"
  by (rule set_update_subset_insert)

lemma find_cong: "(\<And>x. x \<in> set xs \<Longrightarrow> P x = Q x) \<Longrightarrow> List.find P xs = List.find Q xs"
  by (induction xs) auto

lemma find_upt_lowest:
  "List.find P [a..<b] = Some i \<longleftrightarrow> a \<le> i \<and> i < b \<and> P i \<and> (\<forall>j. a \<le> j \<and> j < i \<longrightarrow> \<not> P j)"
proof (induction "b - a" arbitrary: a)
  case 0
  then show ?case by auto
next
  case (Suc n)
  then have "[a..<b] = a # [Suc a..<b]" by (simp add: upt_conv_Cons)
  with Suc.hyps(1)[of "Suc a"] Suc.hyps(2) show ?case
    by (auto simp: Suc_le_eq) (metis le_neq_implies_less)+
qed

lemma find_map: "List.find P (map f xs) = map_option f (List.find (P \<circ> f) xs)"
  by (induction xs) auto

end
