(* ===== verification/Limits.thy ===== *)
theory Limits
  imports Prelude
begin

text \<open>
  The resource limits of \<^verbatim>\<open>kernel/limits.c\<close> that other components consult: the record
  \<^verbatim>\<open>g_limits\<close>, the allocation gate used by \<^verbatim>\<open>kmalloc\<close>, and the volume and brightness
  setters. The accounting that reads the heap and the page allocator is in \<open>Pressure\<close>.
\<close>

definition MEM_WARN_PCT :: u32 where "MEM_WARN_PCT = 80"
definition MEM_DENY_PCT :: u32 where "MEM_DENY_PCT = 90"
definition VOL_WARN_PCT :: u32 where "VOL_WARN_PCT = 100"
definition BRIGHTNESS_MAX :: u32 where "BRIGHTNESS_MAX = 100"

record system_limits =
  mem_total_kb :: u32
  mem_used_kb :: u32
  mem_warn_threshold_kb :: u32
  mem_deny_threshold_kb :: u32
  mem_warn_active :: bool
  mem_deny_active :: bool
  swap_active :: bool
  volume_pct :: u32
  brightness_pct :: u32

definition g_limits :: system_limits where
  "g_limits = \<lparr>mem_total_kb = 0, mem_used_kb = 0, mem_warn_threshold_kb = 0,
     mem_deny_threshold_kb = 0, mem_warn_active = False, mem_deny_active = False,
     swap_active = False, volume_pct = 100, brightness_pct = 100\<rparr>"

definition limits_allow_alloc :: "system_limits \<Rightarrow> u64 \<Rightarrow> bool" where
  "limits_allow_alloc lim sz \<longleftrightarrow>
     (if \<not> mem_deny_active lim then True else if sz \<le> 64 then True else False)"

text \<open>The result is the return code, the text printed on the console and the new limits.\<close>

definition limits_set_volume :: "system_limits \<Rightarrow> u32 \<Rightarrow> int \<times> string list \<times> system_limits" where
  "limits_set_volume lim pct =
     (if 200 < pct then (-1, [''Volume: hard limit is 200%. Denied.''], lim)
      else (0, (if VOL_WARN_PCT < pct
                then [''Warning: volume above 100% may cause audio distortion.''] else []),
            lim\<lparr>volume_pct := pct\<rparr>))"

definition limits_get_volume :: "system_limits \<Rightarrow> u32" where
  "limits_get_volume lim = volume_pct lim"

definition limits_set_brightness :: "system_limits \<Rightarrow> u32 \<Rightarrow> int \<times> system_limits" where
  "limits_set_brightness lim pct =
     (let pct1 = (if BRIGHTNESS_MAX < pct then BRIGHTNESS_MAX else pct)
      in (0, lim\<lparr>brightness_pct := pct1\<rparr>))"

text \<open>Both settings stay within their limits whatever is requested.\<close>

definition levels_ok :: "system_limits \<Rightarrow> bool" where
  "levels_ok lim \<longleftrightarrow> volume_pct lim \<le> 200 \<and> brightness_pct lim \<le> BRIGHTNESS_MAX"

lemma levels_ok_initial: "levels_ok g_limits"
  by (simp add: levels_ok_def g_limits_def BRIGHTNESS_MAX_def)

lemma levels_ok_set_volume: "levels_ok lim \<Longrightarrow> levels_ok (snd (snd (limits_set_volume lim pct)))"
  by (auto simp: levels_ok_def limits_set_volume_def not_less)

lemma levels_ok_set_brightness: "levels_ok lim \<Longrightarrow> levels_ok (snd (limits_set_brightness lim pct))"
  by (auto simp: levels_ok_def limits_set_brightness_def Let_def not_less)

end
