(* ===== verification/Pmm.thy ===== *)
theory Pmm
  imports Prelude
begin

text \<open>
  The bitmap physical page allocator of \<^verbatim>\<open>kernel/mm/pmm.c\<close>: one bit per 4 KB page, 1 = used.
  The static array \<^verbatim>\<open>bitmap[WORDS]\<close> is a function from word indices; every access of the
  code is below \<open>WORDS\<close> because every page it touches is below \<open>MAX_PAGES\<close>.
  The abstract view of the state is the set \<open>free_set\<close> of free page numbers, and the
  interface \<open>page_pool\<close> states what the rest of the kernel may rely on.
\<close>

section \<open>State and operations\<close>

definition MAX_PAGES :: nat where "MAX_PAGES = 1024 * 1024"
definition WORDS :: nat where "WORDS = MAX_PAGES div 32"
definition PAGE_SIZE :: nat where "PAGE_SIZE = 4096"

record pmm =
  bitmap :: "nat \<Rightarrow> u32"
  total_pages :: u32
  total_memory :: u64
  free_count :: u32

definition set_bit_pmm :: "pmm \<Rightarrow> u32 \<Rightarrow> pmm" where
  "set_bit_pmm st page = st\<lparr>bitmap := (bitmap st)(unat page div 32 :=
     bitmap st (unat page div 32) OR push_bit (unat page mod 32) 1)\<rparr>"

definition clr_bit :: "pmm \<Rightarrow> u32 \<Rightarrow> pmm" where
  "clr_bit st page = st\<lparr>bitmap := (bitmap st)(unat page div 32 :=
     bitmap st (unat page div 32) AND NOT (push_bit (unat page mod 32) 1))\<rparr>"

definition tst_bit :: "pmm \<Rightarrow> u32 \<Rightarrow> bool" where
  "tst_bit st page \<longleftrightarrow>
     drop_bit (unat page mod 32) (bitmap st (unat page div 32)) AND 1 \<noteq> 0"

text \<open>The body of the loop of \<^verbatim>\<open>pmm_mark_used\<close>, and the loop for \<open>i < npages\<close>.\<close>

definition mark_used_page :: "u32 \<Rightarrow> pmm \<Rightarrow> pmm" where
  "mark_used_page pg st =
     (if unat pg < MAX_PAGES \<and> \<not> tst_bit st pg
      then let st1 = set_bit_pmm st pg
           in if free_count st1 \<noteq> 0 then st1\<lparr>free_count := free_count st1 - 1\<rparr> else st1
      else st)"

function mark_used_loop :: "u32 \<Rightarrow> nat \<Rightarrow> nat \<Rightarrow> pmm \<Rightarrow> pmm" where
  "mark_used_loop start_pg i npages st =
     (if i < npages
      then mark_used_loop start_pg (Suc i) npages (mark_used_page (start_pg + of_nat i) st)
      else st)"
  by pat_completeness auto
termination
  by (relation "measure (\<lambda>(_, i, n, _). n - i)") auto

definition pmm_mark_used :: "u64 \<Rightarrow> u64 \<Rightarrow> pmm \<Rightarrow> pmm" where
  "pmm_mark_used addr sz st =
     (let start_pg = ucast (addr div 4096) :: u32;
          npages = ucast ((sz + 4096 - 1) div 4096) :: u32
      in mark_used_loop start_pg 0 (unat npages) st)"

text \<open>The \<^verbatim>\<open>while\<close> loop of \<^verbatim>\<open>mark_free\<close>; \<open>start\<close> stays below 4 GB while it runs.\<close>

function mark_free_loop :: "nat \<Rightarrow> nat \<Rightarrow> pmm \<Rightarrow> pmm" where
  "mark_free_loop start stop st =
     (if start < stop \<and> start < MAX_PAGES * PAGE_SIZE
      then let st1 = clr_bit st (of_nat (start div PAGE_SIZE))
           in mark_free_loop (start + PAGE_SIZE) stop (st1\<lparr>free_count := free_count st1 + 1\<rparr>)
      else st)"
  by pat_completeness auto
termination
  by (relation "measure (\<lambda>(s, e, _). e - s)") (auto simp: PAGE_SIZE_def)

definition mark_free :: "u64 \<Rightarrow> u64 \<Rightarrow> pmm \<Rightarrow> pmm" where
  "mark_free addr len st =
     (let start = (addr + 4096 - 1) AND NOT (4096 - 1);
          stop = (addr + len) AND NOT (4096 - 1)
      in mark_free_loop (unat start) (unat stop) st)"

text \<open>
  The Multiboot2 information block is read from memory. A tag whose rounded size is 0
  would keep the walk of \<^verbatim>\<open>pmm_init\<close> in place for ever, and an \<^verbatim>\<open>entry_sz\<close> of 0
  divides by zero; both are \<open>None\<close> here.
\<close>

fun mmap_entries :: "mem \<Rightarrow> nat \<Rightarrow> u32 \<Rightarrow> nat \<Rightarrow> nat \<Rightarrow> pmm \<Rightarrow> pmm" where
  "mmap_entries m base esz i 0 st = st"
| "mmap_entries m base esz i (Suc k) st =
     (let e = base + unat (of_nat i * esz);
          addr = load64 m e; len = load64 m (e + 8); ty = load32 m (e + 16);
          st1 = (if ty = 1
                 then mark_free addr len (st\<lparr>total_memory := total_memory st + len\<rparr>) else st)
      in mmap_entries m base esz (Suc i) k st1)"

partial_function (option) mb2_walk :: "mem \<Rightarrow> nat \<Rightarrow> pmm \<Rightarrow> pmm option" where
  "mb2_walk m tag st =
     (if load32 m tag = 0 then Some st
      else if load32 m tag = 6 \<and> load32 m (tag + 8) = 0 then None
      else let sz = (load32 m (tag + 4) + 7) AND NOT 7;
               n = (load32 m (tag + 4) - 16) div load32 m (tag + 8);
               st1 = (if load32 m tag = 6
                      then mmap_entries m (tag + 16) (load32 m (tag + 8)) 0 (unat n) st
                      else st)
           in mb2_walk m (tag + unat sz) st1)"

declare mb2_walk.simps [code]

definition pmm_reset :: "pmm \<Rightarrow> pmm" where
  "pmm_reset st = st\<lparr>bitmap := (\<lambda>_. 0xFFFFFFFF), free_count := 0,
     total_pages := 0, total_memory := 0\<rparr>"

definition pmm_init :: "mem \<Rightarrow> u64 \<Rightarrow> u64 \<Rightarrow> pmm \<Rightarrow> pmm option" where
  "pmm_init m kernel_end mbi_addr st =
     (let st0 = pmm_reset st
      in if mbi_addr = 0 then Some st0
         else (case mb2_walk m (unat (mbi_addr + 8)) st0 of
             None \<Rightarrow> None
           | Some st1 \<Rightarrow>
               let st2 = st1\<lparr>total_pages := ucast (total_memory st1 div 4096)\<rparr>;
                   st3 = pmm_mark_used 0 0x100000 st2;
                   st4 = pmm_mark_used 0x100000 (kernel_end - 0x100000) st3
               in Some (pmm_mark_used (mbi_addr AND 0xFFFFF000) (4096 * 16) st4)))"

text \<open>\<^verbatim>\<open>pmm_alloc\<close>: the scan over the 32 bits of one word, the scan over the words, the result.\<close>

function alloc_bit :: "u32 \<Rightarrow> nat \<Rightarrow> nat option" where
  "alloc_bit w b =
     (if b < 32 then (if drop_bit b w AND 1 = 0 then Some b else alloc_bit w (Suc b)) else None)"
  by pat_completeness auto
termination
  by (relation "measure (\<lambda>(_, b). 32 - b)") auto

function alloc_scan :: "pmm \<Rightarrow> nat \<Rightarrow> nat option" where
  "alloc_scan st w =
     (if w < WORDS
      then (if bitmap st w = 0xFFFFFFFF then alloc_scan st (Suc w)
            else (case alloc_bit (bitmap st w) 0 of
                Some b \<Rightarrow> Some (w * 32 + b)
              | None \<Rightarrow> alloc_scan st (Suc w)))
      else None)"
  by pat_completeness auto
termination
  by (relation "measure (\<lambda>(_, w). WORDS - w)") auto

definition pmm_alloc :: "pmm \<Rightarrow> u64 \<times> pmm" where
  "pmm_alloc st =
     (case alloc_scan st 0 of
        None \<Rightarrow> (0, st)
      | Some n \<Rightarrow>
          let pg = of_nat n :: u32
          in if MAX_PAGES \<le> unat pg then (0, st)
             else let st1 = set_bit_pmm st pg;
                      st2 = (if free_count st1 \<noteq> 0
                             then st1\<lparr>free_count := free_count st1 - 1\<rparr> else st1)
                  in (ucast (pg * 4096), st2))"

definition pmm_free :: "u64 \<Rightarrow> pmm \<Rightarrow> pmm" where
  "pmm_free addr st =
     (let pg = ucast (addr div 4096) :: u32
      in if unat pg < MAX_PAGES \<and> tst_bit st pg
         then let st1 = clr_bit st pg in st1\<lparr>free_count := free_count st1 + 1\<rparr>
         else st)"

definition pmm_total_bytes :: "pmm \<Rightarrow> u64" where "pmm_total_bytes st = total_memory st"
definition pmm_free_pages :: "pmm \<Rightarrow> u32" where "pmm_free_pages st = free_count st"
definition pmm_used_pages :: "pmm \<Rightarrow> u32" where
  "pmm_used_pages st = total_pages st - free_count st"


section \<open>The abstract view\<close>

definition page_bit :: "pmm \<Rightarrow> nat \<Rightarrow> bool" where
  "page_bit st n \<longleftrightarrow> bit (bitmap st (n div 32)) (n mod 32)"

definition free_set :: "pmm \<Rightarrow> nat set" where
  "free_set st = {n. n < MAX_PAGES \<and> \<not> page_bit st n}"

text \<open>The counter agrees with the bitmap, and page 0 is never free (0 is the failure value).\<close>

definition pmm_inv :: "pmm \<Rightarrow> bool" where
  "pmm_inv st \<longleftrightarrow> unat (free_count st) = card (free_set st)"

definition pmm_ok :: "pmm \<Rightarrow> bool" where
  "pmm_ok st \<longleftrightarrow> pmm_inv st \<and> 0 \<notin> free_set st"

text \<open>The pages a half-open byte range \<open>[a, b)\<close> with page-aligned \<open>a\<close> covers.\<close>

definition pages_between :: "nat \<Rightarrow> nat \<Rightarrow> nat set" where
  "pages_between a b = {n. n < MAX_PAGES \<and> a \<le> n * PAGE_SIZE \<and> n * PAGE_SIZE < b}"

definition region_pages :: "u64 \<times> u64 \<Rightarrow> nat set" where
  "region_pages r = pages_between (unat ((fst r + 4096 - 1) AND NOT (4096 - 1)))
     (unat ((fst r + snd r) AND NOT (4096 - 1)))"

text \<open>The available regions that the walk over a Multiboot2 block finds, in order.\<close>

fun mmap_avail :: "mem \<Rightarrow> nat \<Rightarrow> u32 \<Rightarrow> nat \<Rightarrow> nat \<Rightarrow> (u64 \<times> u64) list" where
  "mmap_avail m base esz i 0 = []"
| "mmap_avail m base esz i (Suc k) =
     (let e = base + unat (of_nat i * esz)
      in (if load32 m (e + 16) = 1 then [(load64 m e, load64 m (e + 8))] else [])
         @ mmap_avail m base esz (Suc i) k)"

definition next_tag :: "mem \<Rightarrow> nat \<Rightarrow> nat" where
  "next_tag m tag = tag + unat ((load32 m (tag + 4) + 7) AND NOT 7)"

definition mmap_count :: "mem \<Rightarrow> nat \<Rightarrow> nat" where
  "mmap_count m tag = unat ((load32 m (tag + 4) - 16) div load32 m (tag + 8))"

inductive mbi_regions :: "mem \<Rightarrow> nat \<Rightarrow> (u64 \<times> u64) list \<Rightarrow> bool" for m where
  tag_end: "load32 m tag = 0 \<Longrightarrow> mbi_regions m tag []"
| tag_other: "load32 m tag \<noteq> 0 \<Longrightarrow> load32 m tag \<noteq> 6 \<Longrightarrow> mbi_regions m (next_tag m tag) rs
     \<Longrightarrow> mbi_regions m tag rs"
| tag_mmap: "load32 m tag = 6 \<Longrightarrow> load32 m (tag + 8) \<noteq> 0 \<Longrightarrow> mbi_regions m (next_tag m tag) rs
     \<Longrightarrow> mbi_regions m tag
          (mmap_avail m (tag + 16) (load32 m (tag + 8)) 0 (mmap_count m tag) @ rs)"

section \<open>Bits and the free set\<close>

lemma MAX_PAGES_num: "MAX_PAGES = 1048576"
  by (simp add: MAX_PAGES_def)

lemma WORDS_num: "WORDS = 32768"
  by (simp add: WORDS_def MAX_PAGES_def)

lemma finite_free_set [simp]: "finite (free_set st)"
  by (simp add: free_set_def)

lemma free_set_bound: "n \<in> free_set st \<Longrightarrow> n < MAX_PAGES"
  by (simp add: free_set_def)

lemma card_free_set_le: "card (free_set st) \<le> MAX_PAGES"
proof -
  have "free_set st \<subseteq> {..<MAX_PAGES}" by (auto simp: free_set_def)
  then show ?thesis by (metis card_lessThan card_mono finite_lessThan)
qed

lemma drop_bit_and_1: "drop_bit k (w :: 'a::len word) AND 1 \<noteq> 0 \<longleftrightarrow> bit w k"
  by (simp add: and_one_eq bit_iff_odd_drop_bit odd_iff_mod_2_eq_one)

lemma tst_bit_iff: "tst_bit st pg \<longleftrightarrow> page_bit st (unat pg)"
  by (simp only: tst_bit_def page_bit_def drop_bit_and_1)

lemma div_mod_32_eq: "(n :: nat) div 32 = k div 32 \<Longrightarrow> n mod 32 = k mod 32 \<Longrightarrow> n = k"
  by (metis div_mult_mod_eq)

lemma page_bit_set_bit: "page_bit (set_bit_pmm st pg) n \<longleftrightarrow> n = unat pg \<or> page_bit st n"
  by (auto simp: page_bit_def set_bit_pmm_def bit_simps dest: div_mod_32_eq)

lemma page_bit_clr_bit: "page_bit (clr_bit st pg) n \<longleftrightarrow> n \<noteq> unat pg \<and> page_bit st n"
  by (auto simp: page_bit_def clr_bit_def bit_simps dest: div_mod_32_eq)

lemma page_bit_upd [simp]:
  "page_bit (st\<lparr>free_count := c\<rparr>) = page_bit st"
  "page_bit (st\<lparr>total_pages := t\<rparr>) = page_bit st"
  "page_bit (st\<lparr>total_memory := y\<rparr>) = page_bit st"
  by (simp_all add: page_bit_def fun_eq_iff)

lemma free_set_upd [simp]:
  "free_set (st\<lparr>free_count := c\<rparr>) = free_set st"
  "free_set (st\<lparr>total_pages := t\<rparr>) = free_set st"
  "free_set (st\<lparr>total_memory := y\<rparr>) = free_set st"
  by (simp_all add: free_set_def)

lemma free_set_set_bit_pmm: "free_set (set_bit_pmm st pg) = free_set st - {unat pg}"
  by (auto simp: free_set_def page_bit_set_bit)

lemma free_set_clr_bit:
  "unat pg < MAX_PAGES \<Longrightarrow> free_set (clr_bit st pg) = insert (unat pg) (free_set st)"
  by (auto simp: free_set_def page_bit_clr_bit)

lemma bit_ops_frame [simp]:
  "free_count (set_bit_pmm st pg) = free_count st" "free_count (clr_bit st pg) = free_count st"
  "total_memory (set_bit_pmm st pg) = total_memory st" "total_memory (clr_bit st pg) = total_memory st"
  "total_pages (set_bit_pmm st pg) = total_pages st" "total_pages (clr_bit st pg) = total_pages st"
  by (simp_all add: set_bit_pmm_def clr_bit_def)

lemma in_free_set_iff: "unat pg < MAX_PAGES \<Longrightarrow> unat pg \<in> free_set st \<longleftrightarrow> \<not> tst_bit st pg"
  by (simp add: free_set_def tst_bit_iff)

text \<open>Taking a free page out and putting a used page back keep the counter exact.\<close>

lemma pmm_inv_take:
  assumes "pmm_inv st" and "unat pg \<in> free_set st"
  shows "free_count st \<noteq> 0" "pmm_inv (set_bit_pmm st pg\<lparr>free_count := free_count st - 1\<rparr>)"
proof -
  have pos: "0 < card (free_set st)" using assms(2) by (auto simp: card_gt_0_iff)
  then show nz: "free_count st \<noteq> 0" using assms(1) by (auto simp: pmm_inv_def)
  show "pmm_inv (set_bit_pmm st pg\<lparr>free_count := free_count st - 1\<rparr>)"
    using assms nz by (simp add: pmm_inv_def free_set_set_bit_pmm unat_dec32)
qed

lemma pmm_inv_put:
  assumes "pmm_inv st" and "unat pg < MAX_PAGES" and "unat pg \<notin> free_set st"
  shows "pmm_inv (clr_bit st pg\<lparr>free_count := free_count st + 1\<rparr>)"
proof -
  have "unat (free_count st) \<le> MAX_PAGES"
    using assms(1) card_free_set_le[of st] by (simp add: pmm_inv_def)
  then have "unat (free_count st + 1) = unat (free_count st) + 1"
    by (intro unat_inc32) (simp add: MAX_PAGES_num)
  then show ?thesis
    using assms by (simp add: pmm_inv_def free_set_clr_bit)
qed

section \<open>Allocation is first fit\<close>

declare alloc_bit.simps [simp del] alloc_scan.simps [simp del]
  mark_used_loop.simps [simp del] mark_free_loop.simps [simp del]

lemma alloc_bit_None: "alloc_bit w b = None \<longleftrightarrow> (\<forall>i. b \<le> i \<and> i < 32 \<longrightarrow> bit w i)"
proof (induction w b rule: alloc_bit.induct)
  case (1 w b)
  show ?case
  proof (cases "b < 32 \<and> bit w b")
    case True
    then have "alloc_bit w b = alloc_bit w (Suc b)"
      using drop_bit_and_1[of b w] by (subst alloc_bit.simps) simp
    with 1 True show ?thesis
      using drop_bit_and_1[of b w] by (metis Suc_leI le_neq_implies_less le_Suc_eq Suc_leD)
  next
    case False
    then show ?thesis
      using drop_bit_and_1[of b w] by (subst alloc_bit.simps) (auto dest: le_less_trans)
  qed
qed

lemma alloc_bit_Some:
  "alloc_bit w b = Some i \<Longrightarrow> b \<le> i \<and> i < 32 \<and> \<not> bit w i \<and> (\<forall>j. b \<le> j \<and> j < i \<longrightarrow> bit w j)"
proof (induction w b rule: alloc_bit.induct)
  case (1 w b)
  show ?case
  proof (cases "b < 32 \<and> bit w b")
    case True
    then have "alloc_bit w (Suc b) = Some i"
      using "1.prems" drop_bit_and_1[of b w] by (subst (asm) alloc_bit.simps) simp
    with 1 True show ?thesis
      using drop_bit_and_1[of b w] by (metis Suc_leI le_neq_implies_less Suc_leD)
  next
    case False
    with "1.prems" show ?thesis
      using drop_bit_and_1[of b w] by (subst (asm) alloc_bit.simps) (auto split: if_splits)
  qed
qed

lemma all_ones_bit: "i < 32 \<Longrightarrow> bit (0xFFFFFFFF :: u32) i"
proof -
  assume "i < 32"
  have ones: "(0xFFFFFFFF :: u32) = -1" by simp
  show ?thesis unfolding ones using \<open>i < 32\<close> by simp
qed

lemma alloc_scan_spec:
  "case alloc_scan st w of
     None \<Rightarrow> (\<forall>n. w * 32 \<le> n \<and> n < MAX_PAGES \<longrightarrow> page_bit st n)
   | Some k \<Rightarrow> w * 32 \<le> k \<and> k < MAX_PAGES \<and> \<not> page_bit st k
       \<and> (\<forall>n. w * 32 \<le> n \<and> n < k \<longrightarrow> page_bit st n)"
proof (induction st w rule: alloc_scan.induct)
  case (1 st w)
  have word_used: "page_bit st n" if "\<forall>i<32. bit (bitmap st w) i" "n div 32 = w" for n
    using that by (auto simp: page_bit_def)
  have in_word: "n div 32 = w \<or> Suc w * 32 \<le> n" if "w * 32 \<le> n" for n
    using that by auto
  consider (out) "\<not> w < WORDS" | (skip) "w < WORDS" "alloc_scan st w = alloc_scan st (Suc w)"
      "\<forall>i<32. bit (bitmap st w) i"
    | (hit) b where "w < WORDS" "bitmap st w \<noteq> 0xFFFFFFFF" "alloc_bit (bitmap st w) 0 = Some b"
    using all_ones_bit alloc_bit_None[of "bitmap st w" 0]
    by (cases "alloc_bit (bitmap st w) 0"; cases "bitmap st w = 0xFFFFFFFF"; cases "w < WORDS")
      (auto simp: alloc_scan.simps[of st w])
  then show ?case
  proof cases
    case out
    then show ?thesis
      by (auto simp: alloc_scan.simps[of st w] WORDS_num MAX_PAGES_num)
  next
    case skip
    have IH: "case alloc_scan st (Suc w) of
       None \<Rightarrow> (\<forall>n. Suc w * 32 \<le> n \<and> n < MAX_PAGES \<longrightarrow> page_bit st n)
     | Some k \<Rightarrow> Suc w * 32 \<le> k \<and> k < MAX_PAGES \<and> \<not> page_bit st k
       \<and> (\<forall>n. Suc w * 32 \<le> n \<and> n < k \<longrightarrow> page_bit st n)"
      using 1 skip(1) alloc_bit_None[of "bitmap st w" 0] skip(3)
      by (cases "bitmap st w = 0xFFFFFFFF") auto
    with skip in_word word_used show ?thesis
      by (fastforce split: option.splits)
  next
    case hit
    note b = alloc_bit_Some[OF hit(3)]
    have "alloc_scan st w = Some (w * 32 + b)"
      using hit by (simp add: alloc_scan.simps[of st w])
    moreover have "\<not> page_bit st (w * 32 + b)"
      using b by (simp add: page_bit_def)
    moreover have "page_bit st n" if ge: "w * 32 \<le> n" and lt: "n < w * 32 + b" for n
    proof -
      obtain j where j: "n = w * 32 + j" using le_Suc_ex[OF ge] by blast
      then have "j < b" using lt by simp
      then show ?thesis using b j by (simp add: page_bit_def)
    qed
    ultimately show ?thesis
      using b hit(1) by (auto simp: WORDS_num MAX_PAGES_num)
  qed
qed

lemma alloc_scan_eq:
  "alloc_scan st 0 = (if free_set st = {} then None else Some (Min (free_set st)))"
proof (cases "alloc_scan st 0")
  case None
  then have "free_set st = {}"
    using alloc_scan_spec[where st = st and w = 0] by (auto simp: free_set_def)
  with None show ?thesis by simp
next
  case (Some k)
  then have k: "k \<in> free_set st" "\<forall>n\<in>free_set st. k \<le> n"
    using alloc_scan_spec[where st = st and w = 0] by (auto simp: free_set_def not_less)
  then have "Min (free_set st) = k" by (intro Min_eqI) auto
  with Some k show ?thesis by auto
qed

text \<open>The result and the new state of \<^verbatim>\<open>pmm_alloc\<close>, in terms of the free set.\<close>

lemma page_addr: "n < MAX_PAGES \<Longrightarrow> (ucast (of_nat n * 4096 :: u32) :: u64) = of_nat (n * PAGE_SIZE)"
proof -
  assume "n < MAX_PAGES"
  then have "unat (of_nat n * 4096 :: u32) = n * 4096"
    by (simp add: unat_word_ariths unat_of_nat take_bit_nat_eq_self MAX_PAGES_num)
  moreover have "n * PAGE_SIZE < 2 ^ 64"
    using \<open>n < MAX_PAGES\<close> by (simp add: PAGE_SIZE_def MAX_PAGES_num)
  ultimately show ?thesis
    by (metis PAGE_SIZE_def of_nat_unat)
qed

lemma pmm_alloc_none: "free_set st = {} \<Longrightarrow> pmm_alloc st = (0, st)"
  by (simp add: pmm_alloc_def alloc_scan_eq)

lemma pmm_alloc_some:
  assumes "pmm_inv st" and "free_set st \<noteq> {}"
  shows "pmm_alloc st = (of_nat (Min (free_set st) * PAGE_SIZE),
     set_bit_pmm st (of_nat (Min (free_set st)))\<lparr>free_count := free_count st - 1\<rparr>)"
proof -
  define n where "n = Min (free_set st)"
  have n: "n \<in> free_set st" using assms(2) by (simp add: n_def)
  then have lt: "n < MAX_PAGES" by (rule free_set_bound)
  then have u: "unat (of_nat n :: u32) = n"
    by (intro unat_of_nat32) (simp add: MAX_PAGES_num)
  then have nz: "free_count st \<noteq> 0" using pmm_inv_take(1)[of st "of_nat n"] assms(1) n by simp
  have "alloc_scan st 0 = Some n" using assms(2) by (simp add: alloc_scan_eq n_def)
  then show ?thesis
    using lt u nz unfolding n_def[symmetric]
    by (simp add: pmm_alloc_def Let_def page_addr)
qed

lemma pmm_alloc_free_set:
  assumes "pmm_inv st"
  shows "free_set (snd (pmm_alloc st)) = free_set st - {Min (free_set st)}"
    and "pmm_inv (snd (pmm_alloc st))"
proof -
  have u: "free_set st \<noteq> {} \<Longrightarrow> unat (of_nat (Min (free_set st)) :: u32) = Min (free_set st)"
    using free_set_bound[of "Min (free_set st)" st]
    by (intro unat_of_nat32) (simp add: MAX_PAGES_num)
  show "free_set (snd (pmm_alloc st)) = free_set st - {Min (free_set st)}"
    using assms u by (cases "free_set st = {}")
      (simp_all add: pmm_alloc_none pmm_alloc_some free_set_set_bit_pmm)
  show "pmm_inv (snd (pmm_alloc st))"
    using assms u pmm_inv_take(2)[of st "of_nat (Min (free_set st))"]
    by (cases "free_set st = {}") (simp_all add: pmm_alloc_none pmm_alloc_some)
qed


section \<open>Marking regions\<close>

lemma mark_used_page_free_set:
  "free_set (mark_used_page pg st) = free_set st - {unat pg}"
  by (auto simp: mark_used_page_def Let_def free_set_set_bit_pmm in_free_set_iff)
    (auto simp: free_set_def tst_bit_iff)

lemma mark_used_page_inv: "pmm_inv st \<Longrightarrow> pmm_inv (mark_used_page pg st)"
  using pmm_inv_take[of st pg]
  by (auto simp: mark_used_page_def Let_def in_free_set_iff)

lemma mark_used_loop_inv: "pmm_inv st \<Longrightarrow> pmm_inv (mark_used_loop pg i n st)"
proof (induction pg i n st rule: mark_used_loop.induct)
  case (1 pg i n st)
  then show ?case
    by (subst mark_used_loop.simps) (auto intro: mark_used_page_inv)
qed

lemma mark_used_loop_free_set:
  "free_set (mark_used_loop pg i n st)
     = free_set st - {unat (pg + of_nat j) | j. i \<le> j \<and> j < n}"
proof (induction pg i n st rule: mark_used_loop.induct)
  case (1 pg i n st)
  show ?case
  proof (cases "i < n")
    case True
    then have split: "{unat (pg + of_nat j) | j. i \<le> j \<and> j < n}
        = insert (unat (pg + of_nat i)) {unat (pg + of_nat j) | j. Suc i \<le> j \<and> j < n}"
      by (auto simp: Suc_le_eq le_less)
    have "mark_used_loop pg i n st
        = mark_used_loop pg (Suc i) n (mark_used_page (pg + of_nat i) st)"
      using True by (simp add: mark_used_loop.simps[of pg i n st])
    then show ?thesis
      using 1[OF True] by (simp add: split mark_used_page_free_set) blast
  next
    case False
    then show ?thesis by (auto simp: mark_used_loop.simps[of pg i n st])
  qed
qed

lemma mark_free_loop_spec:
  assumes "pmm_inv st" and "start mod PAGE_SIZE = 0"
    and "pages_between start stop \<inter> free_set st = {}"
  shows "pmm_inv (mark_free_loop start stop st)"
    and "free_set (mark_free_loop start stop st) = free_set st \<union> pages_between start stop"
proof -
  have "pmm_inv (mark_free_loop start stop st)
      \<and> free_set (mark_free_loop start stop st) = free_set st \<union> pages_between start stop"
    using assms
  proof (induction start stop st rule: mark_free_loop.induct)
    case (1 start stop st)
    show ?case
    proof (cases "start < stop \<and> start < MAX_PAGES * PAGE_SIZE")
      case True
      define pg where "pg = start div PAGE_SIZE"
      have start: "start = pg * PAGE_SIZE"
        using "1.prems"(2) by (metis pg_def div_mult_mod_eq add.right_neutral)
      have pg: "pg < MAX_PAGES"
        using True by (simp add: start PAGE_SIZE_def)
      then have u: "unat (of_nat pg :: u32) = pg"
        by (intro unat_of_nat32) (simp add: MAX_PAGES_num)
      have pages: "pages_between start stop = insert pg (pages_between (start + PAGE_SIZE) stop)"
        using True pg by (auto simp: pages_between_def start PAGE_SIZE_def)
      have new: "pg \<notin> pages_between (start + PAGE_SIZE) stop"
        by (simp add: pages_between_def start PAGE_SIZE_def)
      let ?st1 = "clr_bit st (of_nat pg)\<lparr>free_count := free_count st + 1\<rparr>"
      have inv1: "pmm_inv ?st1"
        using "1.prems"(1,3) pages pg u by (intro pmm_inv_put) auto
      have fs1: "free_set ?st1 = insert pg (free_set st)"
        using pg u by (simp add: free_set_clr_bit)
      have "mark_free_loop start stop st = mark_free_loop (start + PAGE_SIZE) stop ?st1"
        using True by (simp add: mark_free_loop.simps[of start stop st] Let_def pg_def)
      moreover have "pmm_inv (mark_free_loop (start + PAGE_SIZE) stop ?st1) \<and>
          free_set (mark_free_loop (start + PAGE_SIZE) stop ?st1)
            = free_set ?st1 \<union> pages_between (start + PAGE_SIZE) stop"
        using "1.IH"[OF True refl] inv1 fs1 "1.prems" pages new
        by (simp add: pg_def[symmetric])
      ultimately show ?thesis using fs1 pages by simp
    next
      case False
      then have "mark_free_loop start stop st = st"
        by (subst mark_free_loop.simps) auto
      moreover have "pages_between start stop = {}"
        using False by (auto simp: pages_between_def PAGE_SIZE_def MAX_PAGES_num)
      ultimately show ?thesis
        using "1.prems" by simp
    qed
  qed
  then show "pmm_inv (mark_free_loop start stop st)"
    and "free_set (mark_free_loop start stop st) = free_set st \<union> pages_between start stop"
    by auto
qed

lemma mask12_64: "unat ((x :: u64) AND NOT (4096 - 1)) = unat x - unat x mod 4096"
proof -
  have mask: "(4096 - 1 :: u64) = mask 12" by (simp add: mask_eq_exp_minus_1)
  show ?thesis unfolding mask by (simp add: unat_and_not_mask)
qed

text \<open>
  \<^verbatim>\<open>mark_free\<close> rounds the region inwards; when none of its pages was free before, the counter
  stays exact. (It counts every page it clears, so a page that is already free is counted twice.)
\<close>

lemma mark_free_spec:
  fixes a len :: u64
  defines "start \<equiv> unat ((a + 4096 - 1) AND NOT (4096 - 1))"
    and "stop \<equiv> unat ((a + len) AND NOT (4096 - 1))"
  assumes "pmm_inv st" and "pages_between start stop \<inter> free_set st = {}"
  shows "pmm_inv (mark_free a len st)"
    and "free_set (mark_free a len st) = free_set st \<union> pages_between start stop"
proof -
  have "start mod PAGE_SIZE = 0"
    unfolding start_def mask12_64 PAGE_SIZE_def by (simp add: minus_mod_eq_mult_div)
  from mark_free_loop_spec[OF assms(3) this assms(4)]
  show "pmm_inv (mark_free a len st)"
    and "free_set (mark_free a len st) = free_set st \<union> pages_between start stop"
    by (simp_all add: mark_free_def Let_def start_def stop_def)
qed

lemma word_range_unat:
  assumes "unat (pg :: u32) + n \<le> 2 ^ 32"
  shows "{unat (pg + of_nat j) | j. 0 \<le> j \<and> j < n} = {unat pg ..< unat pg + n}"
proof -
  have eq: "unat (pg + of_nat j) = unat pg + j" if "j < n" for j
    using assms that by (subst unat_add32_no_wrap) (simp_all add: unat_of_nat32)
  show ?thesis
  proof (intro set_eqI iffI)
    fix x assume "x \<in> {unat pg ..< unat pg + n}"
    then have lt: "x - unat pg < n" and "unat pg \<le> x" by auto
    with eq[OF lt] have "x = unat (pg + of_nat (x - unat pg))" by simp
    with lt show "x \<in> {unat (pg + of_nat j) | j. 0 \<le> j \<and> j < n}" by blast
  qed (auto simp: eq)
qed

lemma pmm_mark_used_pages:
  assumes "unat a div 4096 + (unat sz + 4095) div 4096 \<le> 2 ^ 32" and "unat sz < 2 ^ 43"
    and "unat a < 2 ^ 43"
  shows "free_set (pmm_mark_used a sz st)
     = free_set st - {unat a div 4096 ..< unat a div 4096 + (unat sz + 4095) div 4096}"
proof -
  have "unat (sz + 4096 - 1) = unat sz + 4095"
    using assms(2) by (simp add: unat_word_ariths)
  then have n: "unat (ucast ((sz + 4096 - 1) div 4096) :: u32) = (unat sz + 4095) div 4096"
    using assms(2) by (simp add: unat_div)
  define pg :: u32 where "pg = ucast (a div 4096)"
  have p: "unat pg = unat a div 4096"
    using assms(3) by (simp add: unat_div pg_def)
  have "{unat (pg + of_nat j) | j. 0 \<le> j \<and> j < (unat sz + 4095) div 4096}
      = {unat a div 4096 ..< unat a div 4096 + (unat sz + 4095) div 4096}"
    using word_range_unat[of pg "(unat sz + 4095) div 4096"] assms(1) by (simp add: p)
  then show ?thesis
    unfolding pmm_mark_used_def Let_def mark_used_loop_free_set n pg_def by simp
qed

lemma pmm_mark_used_inv: "pmm_inv st \<Longrightarrow> pmm_inv (pmm_mark_used a sz st)"
  by (simp add: pmm_mark_used_def mark_used_loop_inv)


section \<open>Initialisation from the memory map\<close>

definition add_region :: "pmm \<Rightarrow> u64 \<times> u64 \<Rightarrow> pmm" where
  "add_region st r = mark_free (fst r) (snd r) (st\<lparr>total_memory := total_memory st + snd r\<rparr>)"

lemma mmap_entries_eq:
  "mmap_entries m base esz i k st = foldl add_region st (mmap_avail m base esz i k)"
  by (induction m base esz i k st rule: mmap_entries.induct) (simp_all add: Let_def add_region_def)

lemma mb2_walk_eq: "mbi_regions m tag rs \<Longrightarrow> mb2_walk m tag st = Some (foldl add_region st rs)"
proof (induction arbitrary: st rule: mbi_regions.induct)
  case (tag_end tag)
  then show ?case by (simp add: mb2_walk.simps)
next
  case (tag_other tag rs)
  then show ?case by (simp add: mb2_walk.simps[of m tag] next_tag_def Let_def)
next
  case (tag_mmap tag rs)
  then show ?case
    by (simp add: mb2_walk.simps[of m tag] next_tag_def mmap_count_def Let_def mmap_entries_eq)
qed

lemma add_regions_spec:
  assumes "pmm_inv st"
    and "sorted_wrt (\<lambda>r q. region_pages r \<inter> region_pages q = {}) rs"
    and "\<forall>r \<in> set rs. region_pages r \<inter> free_set st = {}"
  shows "pmm_inv (foldl add_region st rs)"
    and "free_set (foldl add_region st rs) = free_set st \<union> (\<Union>r \<in> set rs. region_pages r)"
proof -
  have "pmm_inv (foldl add_region st rs)
      \<and> free_set (foldl add_region st rs) = free_set st \<union> (\<Union>r \<in> set rs. region_pages r)"
    using assms
  proof (induction rs arbitrary: st)
    case Nil
    then show ?case by simp
  next
    case (Cons r rs)
    have inv: "pmm_inv (st\<lparr>total_memory := total_memory st + snd r\<rparr>)"
      using Cons.prems(1) by (simp add: pmm_inv_def)
    have "pmm_inv (add_region st r)"
      "free_set (add_region st r) = free_set st \<union> region_pages r"
      using mark_free_spec[OF inv, of "fst r" "snd r"] Cons.prems(3)
      by (simp_all add: add_region_def region_pages_def)
    with Cons.IH[of "add_region st r"] Cons.prems show ?case
      by (auto simp: Int_Un_distrib Int_commute)
  qed
  then show "pmm_inv (foldl add_region st rs)"
    and "free_set (foldl add_region st rs) = free_set st \<union> (\<Union>r \<in> set rs. region_pages r)"
    by auto
qed

lemma pmm_reset_free: "free_set (pmm_reset st) = {}" "pmm_inv (pmm_reset st)"
proof -
  have "page_bit (pmm_reset st) n" for n
  proof -
    have "bit (0xFFFFFFFF :: u32) (n mod 32)" by (rule all_ones_bit) simp
    moreover have "bitmap (pmm_reset st) (n div 32) = 0xFFFFFFFF" by (simp add: pmm_reset_def)
    ultimately show ?thesis by (metis page_bit_def)
  qed
  then show "free_set (pmm_reset st) = {}"
    by (simp add: free_set_def)
  then show "pmm_inv (pmm_reset st)" by (simp add: pmm_inv_def) (simp add: pmm_reset_def)
qed

lemma mbi_page: "unat (a :: u64) < 2 ^ 32 \<Longrightarrow> unat (a AND 0xFFFFF000) div 4096 = unat a div 4096"
  using unat_and_mask32[of a "0xFFFFF000" 12] by (simp add: mask_eq_exp_minus_1 minus_mod_eq_mult_div)

section \<open>The interface other components use\<close>

text \<open>
  A page pool hands out page addresses and takes them back. Address 0 means that no page is
  left, so page 0 is never in the pool. The lemmas of the interface are proved from its laws
  alone; the interpretation below discharges the laws for the bitmap allocator.
\<close>

lemma page_number_inj:
  assumes "n < 1048576" and "k < 1048576" and "(of_nat (n * 4096) :: u64) = of_nat (k * 4096)"
  shows "n = k"
proof -
  have "unat (of_nat (n * 4096) :: u64) = n * 4096" "unat (of_nat (k * 4096) :: u64) = k * 4096"
    using assms(1,2) by (intro unat_of_nat64; simp)+
  with assms(3) show ?thesis by simp
qed

lemma page_number_zero: "n < 1048576 \<Longrightarrow> (of_nat (n * 4096) :: u64) = 0 \<longleftrightarrow> n = 0"
  using page_number_inj[of n 0] by (auto simp del: of_nat_mult)

fun alloc_n :: "('s \<Rightarrow> u64 \<times> 's) \<Rightarrow> nat \<Rightarrow> 's \<Rightarrow> u64 list \<times> 's" where
  "alloc_n alloc 0 s = ([], s)"
| "alloc_n alloc (Suc k) s =
     (let (a, s1) = alloc s; (as, s2) = alloc_n alloc k s1 in (a # as, s2))"

locale page_pool =
  fixes alloc :: "'s \<Rightarrow> u64 \<times> 's"
    and release :: "u64 \<Rightarrow> 's \<Rightarrow> 's"
    and avail :: "'s \<Rightarrow> nat set"
    and ok :: "'s \<Rightarrow> bool"
  assumes avail_pages: "ok s \<Longrightarrow> avail s \<subseteq> {1 ..< 1048576}"
    and alloc_empty: "ok s \<Longrightarrow> avail s = {} \<Longrightarrow> alloc s = (0, s)"
    and alloc_page: "ok s \<Longrightarrow> avail s \<noteq> {} \<Longrightarrow>
      \<exists>n \<in> avail s. fst (alloc s) = of_nat (n * 4096) \<and> avail (snd (alloc s)) = avail s - {n}"
    and alloc_ok: "ok s \<Longrightarrow> ok (snd (alloc s))"
    and release_page: "ok s \<Longrightarrow> n \<in> {1 ..< 1048576} \<Longrightarrow>
      ok (release (of_nat (n * 4096)) s) \<and> avail (release (of_nat (n * 4096)) s) = insert n (avail s)"
begin

lemma finite_avail: "ok s \<Longrightarrow> finite (avail s)"
  using avail_pages by (metis finite_atLeastLessThan finite_subset)

text \<open>Success is the same as a non-zero result.\<close>

lemma alloc_zero_iff: "ok s \<Longrightarrow> fst (alloc s) = 0 \<longleftrightarrow> avail s = {}"
proof
  assume ok: "ok s" and zero: "fst (alloc s) = 0"
  show "avail s = {}"
  proof (rule ccontr)
    assume "avail s \<noteq> {}"
    then obtain n where n: "n \<in> avail s" "fst (alloc s) = of_nat (n * 4096)"
      using alloc_page[OF ok] by blast
    with avail_pages[OF ok] have "0 < n" "n < 1048576" by auto
    moreover have "n = 0"
      using page_number_zero zero n(2) \<open>n < 1048576\<close> by metis
    ultimately show False by simp
  qed
qed (simp add: alloc_empty)

text \<open>Pages handed out one after the other are distinct, and they leave the pool.\<close>

lemma alloc_n_pages:
  assumes "ok s" and "k \<le> card (avail s)"
  shows "\<exists>ns. distinct ns \<and> length ns = k \<and> set ns \<subseteq> avail s
    \<and> fst (alloc_n alloc k s) = map (\<lambda>n. of_nat (n * 4096)) ns
    \<and> avail (snd (alloc_n alloc k s)) = avail s - set ns
    \<and> ok (snd (alloc_n alloc k s))"
  using assms
proof (induction k arbitrary: s)
  case 0
  then show ?case by simp
next
  case (Suc k)
  then have "avail s \<noteq> {}" by auto
  then obtain n where n: "n \<in> avail s" "fst (alloc s) = of_nat (n * 4096)"
      "avail (snd (alloc s)) = avail s - {n}"
    using alloc_page[OF Suc.prems(1)] by blast
  have "k \<le> card (avail (snd (alloc s)))"
    using Suc.prems n finite_avail by (simp add: card_Diff_singleton)
  from Suc.IH[OF alloc_ok[OF Suc.prems(1)] this] obtain ns where ns: "distinct ns"
      "length ns = k" "set ns \<subseteq> avail s - {n}"
      "fst (alloc_n alloc k (snd (alloc s))) = map (\<lambda>n. of_nat (n * 4096)) ns"
      "avail (snd (alloc_n alloc k (snd (alloc s)))) = avail s - {n} - set ns"
      "ok (snd (alloc_n alloc k (snd (alloc s))))"
    using n(3) by auto
  then show ?case
    using n by (intro exI[of _ "n # ns"]) (auto simp: split_beta Let_def)
qed

lemma alloc_n_distinct:
  assumes "ok s" and "k \<le> card (avail s)"
  shows "distinct (fst (alloc_n alloc k s))" and "0 \<notin> set (fst (alloc_n alloc k s))"
proof -
  obtain ns where ns: "distinct ns" "set ns \<subseteq> avail s"
      "fst (alloc_n alloc k s) = map (\<lambda>n. of_nat (n * 4096)) ns"
    using alloc_n_pages[OF assms] by blast
  have range: "n \<in> set ns \<Longrightarrow> 0 < n \<and> n < 1048576" for n
    using ns(2) avail_pages[OF assms(1)] by auto
  show "distinct (fst (alloc_n alloc k s))"
    using ns range page_number_inj by (auto simp: distinct_map inj_on_def)
  show "0 \<notin> set (fst (alloc_n alloc k s))"
    using ns(3) range page_number_zero by (auto simp del: of_nat_mult) (metis less_irrefl)
qed

end


lemma pmm_free_spec:
  assumes "pmm_inv st" and "n < MAX_PAGES"
  shows "pmm_inv (pmm_free (of_nat (n * PAGE_SIZE)) st)"
    and "free_set (pmm_free (of_nat (n * PAGE_SIZE)) st) = insert n (free_set st)"
proof -
  define pg :: u32 where "pg = ucast ((of_nat (n * 4096) :: u64) div 4096)"
  have "unat (of_nat (n * 4096) :: u64) = n * 4096"
    using assms(2) by (intro unat_of_nat64) (simp add: MAX_PAGES_num)
  then have u: "unat pg = n"
    using assms(2) by (simp add: pg_def unat_div MAX_PAGES_num del: of_nat_mult)
  have eq: "pmm_free (of_nat (n * PAGE_SIZE)) st
      = (if n \<in> free_set st then st else clr_bit st pg\<lparr>free_count := free_count st + 1\<rparr>)"
    unfolding pmm_free_def Let_def PAGE_SIZE_def pg_def[symmetric]
    using assms(2) u by (simp add: in_free_set_iff[of pg, unfolded u])
  show "pmm_inv (pmm_free (of_nat (n * PAGE_SIZE)) st)"
    unfolding eq using assms pmm_inv_put[of st pg] by (simp add: u)
  show "free_set (pmm_free (of_nat (n * PAGE_SIZE)) st) = insert n (free_set st)"
    unfolding eq using assms(2) by (auto simp: u free_set_clr_bit)
qed

interpretation bitmap_pool: page_pool pmm_alloc pmm_free free_set pmm_ok
proof unfold_locales
  fix s n assume ok: "pmm_ok s"
  then have inv: "pmm_inv s" by (simp add: pmm_ok_def)
  show "free_set s \<subseteq> {1 ..< 1048576}"
  proof
    fix k assume k: "k \<in> free_set s"
    with ok have "k \<noteq> 0" by (metis pmm_ok_def)
    with free_set_bound[OF k] show "k \<in> {1 ..< 1048576}" by (simp add: MAX_PAGES_num)
  qed
  show "pmm_ok (snd (pmm_alloc s))"
    using ok pmm_alloc_free_set[OF inv] by (simp add: pmm_ok_def)
  show "free_set s = {} \<Longrightarrow> pmm_alloc s = (0, s)"
    by (rule pmm_alloc_none)
  show "\<exists>n\<in>free_set s. fst (pmm_alloc s) = of_nat (n * 4096)
      \<and> free_set (snd (pmm_alloc s)) = free_set s - {n}" if "free_set s \<noteq> {}"
    using that pmm_alloc_some[OF inv that] pmm_alloc_free_set(1)[OF inv]
    by (intro bexI[of _ "Min (free_set s)"]) (auto simp: PAGE_SIZE_def)
  show "pmm_ok (pmm_free (of_nat (n * 4096)) s)
      \<and> free_set (pmm_free (of_nat (n * 4096)) s) = insert n (free_set s)"
    if "n \<in> {1 ..< 1048576}"
    using that ok pmm_free_spec[OF inv, of n]
    by (auto simp: pmm_ok_def MAX_PAGES_num PAGE_SIZE_def)
qed


text \<open>A concrete allocator state with the single free page 32, and a concrete memory map.\<close>

definition pmm_zero :: pmm where
  "pmm_zero = \<lparr>bitmap = (\<lambda>_. 0), total_pages = 0, total_memory = 0, free_count = 0\<rparr>"

definition one_page :: pmm where
  "one_page = pmm_free (of_nat (32 * PAGE_SIZE)) (pmm_reset pmm_zero)"

definition demo_mbi :: mem where
  "demo_mbi = store32 (store64 (store64 (store32 (store32 (store32 (\<lambda>_. 0)
     0x9008 6) 0x900C 40) 0x9010 24) 0x9018 0x100000) 0x9020 0x200000) 0x9028 1"

lemma one_page_ok: "pmm_ok one_page" "free_set one_page = {32}"
  using pmm_free_spec[OF pmm_reset_free(2), of 32] unfolding one_page_def pmm_ok_def
  by (simp_all add: pmm_reset_free MAX_PAGES_num)

lemma demo_mbi_regions: "mbi_regions demo_mbi 0x9008 [(0x100000, 0x200000)]"
proof -
  have tag: "load32 demo_mbi 0x9008 = 6" "load32 demo_mbi 0x900C = 40" "load32 demo_mbi 0x9010 = 24"
    and entry: "load64 demo_mbi 0x9018 = 0x100000" "load64 demo_mbi 0x9020 = 0x200000"
      "load32 demo_mbi 0x9028 = 1"
    by (simp_all add: demo_mbi_def mem_simps)
  have stop: "load32 demo_mbi 0x9030 = 0"
    by (simp add: demo_mbi_def mem_simps) (simp add: load32_def load_bytes_def upt_rec)
  have "next_tag demo_mbi 0x9008 = 0x9030" "mmap_count demo_mbi 0x9008 = 1"
    by (simp_all add: next_tag_def mmap_count_def tag)
  moreover have "mmap_avail demo_mbi 0x9018 24 0 (Suc 0) = [(0x100000, 0x200000)]"
    by (simp add: entry)
  ultimately show ?thesis
    using mbi_regions.tag_mmap[of demo_mbi "0x9008" "[]"] mbi_regions.tag_end[OF stop] tag
    by simp
qed

section \<open>Properties\<close>

text \<open>
  C1. \<^verbatim>\<open>pmm_alloc\<close> is first fit and exact: with no free page it returns 0 and changes nothing,
  otherwise it returns the address of the lowest free page, takes exactly that page, and keeps
  the counter equal to the number of free bits.
\<close>

theorem pmm_alloc_first_fit:
  assumes "pmm_inv st"
  shows "(free_set st = {} \<longrightarrow> pmm_alloc st = (0, st)) \<and>
    (free_set st \<noteq> {} \<longrightarrow>
       fst (pmm_alloc st) = of_nat (Min (free_set st) * PAGE_SIZE) \<and>
       free_set (snd (pmm_alloc st)) = free_set st - {Min (free_set st)}) \<and>
    pmm_inv (snd (pmm_alloc st))"
  using assms pmm_alloc_none pmm_alloc_some pmm_alloc_free_set by (metis fst_conv)

theorem pmm_alloc_first_fit_witness:
  "pmm_inv one_page \<and> fst (pmm_alloc one_page) = of_nat (32 * PAGE_SIZE)
    \<and> free_set (snd (pmm_alloc one_page)) = {}"
proof -
  have inv: "pmm_inv one_page" using one_page_ok by (simp add: pmm_ok_def)
  show ?thesis using inv pmm_alloc_first_fit[OF inv] one_page_ok by simp
qed


text \<open>
  C2. After \<^verbatim>\<open>pmm_init\<close> on a well-formed Multiboot2 block whose available regions do not
  overlap: the walk ends, the free counter equals the number of free bits, the free pages are
  exactly the whole pages of the available regions without the first megabyte, the kernel image
  and the 64 KB reserved for the block, and page 0 is not among them.
\<close>

theorem pmm_init_correct:
  fixes kernel_end mbi :: u64
  assumes "mbi_regions m (unat (mbi + 8)) rs"
    and "sorted_wrt (\<lambda>r q. region_pages r \<inter> region_pages q = {}) rs"
    and "mbi \<noteq> 0" and "unat mbi < 2 ^ 32"
    and "0x100000 \<le> unat kernel_end" and "unat kernel_end < 2 ^ 32"
  shows "\<exists>st'. pmm_init m kernel_end mbi st = Some st' \<and> pmm_ok st'
     \<and> free_set st' = (\<Union>r \<in> set rs. region_pages r)
         - {0 ..< (unat kernel_end + 4095) div 4096}
         - {unat mbi div 4096 ..< unat mbi div 4096 + 16}"
proof -
  define st1 where "st1 = foldl add_region (pmm_reset st) rs"
  have walk: "mb2_walk m (unat (mbi + 8)) (pmm_reset st) = Some st1"
    unfolding st1_def by (rule mb2_walk_eq[OF assms(1)])
  have st1: "pmm_inv st1" "free_set st1 = (\<Union>r \<in> set rs. region_pages r)"
    using add_regions_spec[OF pmm_reset_free(2) assms(2)] by (simp_all add: st1_def pmm_reset_free)
  define st2 where "st2 = st1\<lparr>total_pages := ucast (total_memory st1 div 4096)\<rparr>"
  define st3 where "st3 = pmm_mark_used 0 0x100000 st2"
  define st4 where "st4 = pmm_mark_used 0x100000 (kernel_end - 0x100000) st3"
  define st5 where "st5 = pmm_mark_used (mbi AND 0xFFFFF000) (4096 * 16) st4"
  have init: "pmm_init m kernel_end mbi st = Some st5"
    using assms(3) by (simp add: pmm_init_def walk Let_def st2_def st3_def st4_def st5_def)
  have inv: "pmm_inv st5"
    using st1(1) unfolding st5_def st4_def st3_def st2_def
    by (intro pmm_mark_used_inv) (simp add: pmm_inv_def)
  have fs3: "free_set st3 = free_set st1 - {0 ..< 256}"
    unfolding st3_def by (subst pmm_mark_used_pages) (simp_all add: st2_def)
  have ksz: "unat (kernel_end - 0x100000) = unat kernel_end - 0x100000"
    using assms(5) by (subst unat_sub) (simp_all add: word_le_nat_alt)
  have fs4: "free_set st4 = free_set st3 - {256 ..< 256 + (unat kernel_end - 0x100000 + 4095) div 4096}"
    unfolding st4_def using assms(5,6)
    by (subst pmm_mark_used_pages) (simp_all add: ksz)
  have "256 + (unat kernel_end - 0x100000 + 4095) div 4096 = (unat kernel_end + 4095) div 4096"
    using assms(5) by simp
  with fs3 fs4 have fs34: "free_set st4 = free_set st1 - {0 ..< (unat kernel_end + 4095) div 4096}"
    using assms(5) by auto
  have mask: "unat (mbi AND 0xFFFFF000) \<le> unat mbi"
    using word_and_le2[of mbi "0xFFFFF000"] by (simp add: word_le_nat_alt and.commute)
  have fs5: "free_set st5 = free_set st4 - {unat mbi div 4096 ..< unat mbi div 4096 + 16}"
    unfolding st5_def using assms(4) mask
    by (subst pmm_mark_used_pages) (simp_all add: mbi_page)
  have zero: "0 \<notin> free_set st5"
    using fs5 fs34 assms(5) by auto
  show ?thesis
    using init inv zero fs5 fs34 st1(2) by (auto simp: pmm_ok_def)
qed

theorem pmm_init_correct_witness:
  "\<exists>st'. pmm_init demo_mbi 0x180000 0x9000 pmm_zero = Some st' \<and> pmm_ok st'
    \<and> 0x200 \<in> free_set st' \<and> 0x150 \<notin> free_set st'"
proof -
  have regs: "mbi_regions demo_mbi (unat (0x9000 + 8 :: u64)) [(0x100000, 0x200000)]"
    using demo_mbi_regions by simp
  have "0x200 \<in> region_pages (0x100000, 0x200000)"
    by (simp add: region_pages_def pages_between_def MAX_PAGES_num PAGE_SIZE_def)
  then show ?thesis
    using pmm_init_correct[OF regs, of "0x180000" pmm_zero] by auto
qed

text \<open>
  Any number of pages allocated one after the other, up to the number of free pages, are
  pairwise distinct and never 0, so no page is handed out twice and success is never mistaken
  for exhaustion.
\<close>

lemma pmm_alloc_n_distinct:
  assumes "pmm_ok st" and "k \<le> card (free_set st)"
  shows "distinct (fst (alloc_n pmm_alloc k st)) \<and> 0 \<notin> set (fst (alloc_n pmm_alloc k st))"
  using bitmap_pool.alloc_n_distinct[OF assms] by blast


text \<open>
  Freeing the page that was just allocated restores the allocator state exactly: bitmap,
  counter and totals.
\<close>

lemma pmm_alloc_free_roundtrip:
  assumes "pmm_inv st" and "free_set st \<noteq> {}"
  shows "pmm_free (fst (pmm_alloc st)) (snd (pmm_alloc st)) = st"
proof -
  define n where "n = Min (free_set st)"
  have n: "n \<in> free_set st" using assms(2) by (simp add: n_def)
  then have lt: "n < MAX_PAGES" by (rule free_set_bound)
  have u: "unat (of_nat n :: u32) = n"
    using lt by (intro unat_of_nat32) (simp add: MAX_PAGES_num)
  have "unat (of_nat (n * 4096) :: u64) = n * 4096"
    using lt by (intro unat_of_nat64) (simp add: MAX_PAGES_num)
  then have "unat (ucast ((of_nat (n * 4096) :: u64) div 4096) :: u32) = n"
    using lt by (simp add: unat_div MAX_PAGES_num del: of_nat_mult)
  then have pg: "(ucast ((of_nat (n * 4096) :: u64) div 4096) :: u32) = of_nat n"
    by (intro unsigned_word_eqI[where ?'a = nat]) (simp only: u)
  have clear: "\<not> bit (bitmap st (n div 32)) (n mod 32)"
    using n by (simp add: free_set_def page_bit_def)
  have word: "(bitmap st (n div 32) OR push_bit (n mod 32) 1) AND NOT (push_bit (n mod 32) 1)
      = bitmap st (n div 32)"
    by (rule bit_word_eqI) (use clear in \<open>auto simp: bit_simps\<close>)
  have "clr_bit (set_bit_pmm st (of_nat n)\<lparr>free_count := free_count st - 1\<rparr>) (of_nat n)
      \<lparr>free_count := free_count st\<rparr> = st"
    by (simp add: clr_bit_def set_bit_pmm_def u word[simplified])
  moreover have "tst_bit (set_bit_pmm st (of_nat n)\<lparr>free_count := free_count st - 1\<rparr>) (of_nat n)"
    by (simp add: tst_bit_iff page_bit_set_bit)
  ultimately show ?thesis
    unfolding pmm_alloc_some[OF assms] n_def[symmetric] fst_conv snd_conv pmm_free_def Let_def
      PAGE_SIZE_def pg
    using lt by (simp add: u clr_bit_def)
qed

end
