(* ===== verification/Heap.thy ===== *)
theory Heap
  imports Limits Pmm
begin

text \<open>
  The kernel heap of \<^verbatim>\<open>kernel/mm/vmm.c\<close> at the level of bytes in memory: an explicit free
  list with first fit, block splitting, tail canaries and immediate coalescing. A header is the
  24 bytes \<^verbatim>\<open>size, magic, prev, next_free\<close> at the start of a block, read and written with
  the little-endian accesses of \<open>Prelude\<close>; a pointer is its address and 0 is \<^verbatim>\<open>NULL\<close>.
  The loops that follow the free list or the block chain end only on a well-formed heap, so the
  operations return \<open>None\<close> when such a loop does not end. \<^verbatim>\<open>kmalloc\<close> and \<^verbatim>\<open>kfree\<close> mask
  interrupts around their work, so each call is one step.
\<close>

section \<open>Constants and state\<close>

definition HEAP_SIZE :: u32 where "HEAP_SIZE = 32 * 1024 * 1024"
definition HDR_SIZE :: u32 where "HDR_SIZE = 32"
definition MIN_BLOCK :: u32 where "MIN_BLOCK = 32"
definition SPLIT_THRESH :: u32 where "SPLIT_THRESH = 64"
definition ALLOC_MAGIC :: u32 where "ALLOC_MAGIC = 0xDEADC0DE"
definition FREE_MAGIC :: u32 where "FREE_MAGIC = 0xFEEEFEEE"
definition TAIL_MAGIC :: u32 where "TAIL_MAGIC = 0xCAFEBABE"
definition POISON_BYTE :: u8 where "POISON_BYTE = 0xCC"
definition CANARY_SZ :: u32 where "CANARY_SZ = 4"

text \<open>\<^verbatim>\<open>ALIGN16\<close> on a \<^verbatim>\<open>size_t\<close>: the mask \<^verbatim>\<open>~15u\<close> is 32 bits wide.\<close>

definition ALIGN16 :: "u64 \<Rightarrow> u64" where "ALIGN16 n = (n + 15) AND 0xFFFFFFF0"

text \<open>What the error paths report on the kernel log.\<close>

datatype heap_msg =
    AllocDenied u64
  | HeapExhausted u32
  | FreeOutOfRange addr
  | DoubleFree addr
  | BadMagic u32 addr
  | Overflow addr
  | BadSize addr u32

record heap =
  hmem :: mem
  heap_start :: addr
  heap_end :: addr
  free_list_head :: addr
  g_alloc_count :: u32
  g_total_allocs :: u32
  g_total_frees :: u32
  g_peak_used_bytes :: u32
  g_current_used_bytes :: u32
  hlog :: "heap_msg list"

text \<open>The fields of a block header.\<close>

definition blk_size :: "mem \<Rightarrow> addr \<Rightarrow> u32" where "blk_size m h = load32 m h"
definition blk_magic :: "mem \<Rightarrow> addr \<Rightarrow> u32" where "blk_magic m h = load32 m (h + 4)"
definition blk_prev :: "mem \<Rightarrow> addr \<Rightarrow> addr" where "blk_prev m h = unat (load64 m (h + 8))"
definition blk_next_free :: "mem \<Rightarrow> addr \<Rightarrow> addr" where
  "blk_next_free m h = unat (load64 m (h + 16))"

definition set_blk_size :: "addr \<Rightarrow> u32 \<Rightarrow> mem \<Rightarrow> mem" where
  "set_blk_size h v m = store32 m h v"
definition set_blk_magic :: "addr \<Rightarrow> u32 \<Rightarrow> mem \<Rightarrow> mem" where
  "set_blk_magic h v m = store32 m (h + 4) v"
definition set_blk_prev :: "addr \<Rightarrow> addr \<Rightarrow> mem \<Rightarrow> mem" where
  "set_blk_prev h p m = store64 m (h + 8) (of_nat p)"
definition set_blk_next_free :: "addr \<Rightarrow> addr \<Rightarrow> mem \<Rightarrow> mem" where
  "set_blk_next_free h p m = store64 m (h + 16) (of_nat p)"

section \<open>Helpers\<close>

definition tail_canary_ptr :: "mem \<Rightarrow> addr \<Rightarrow> addr" where
  "tail_canary_ptr m h = h + unat (blk_size m h) - unat CANARY_SZ"

definition tail_write :: "addr \<Rightarrow> mem \<Rightarrow> mem" where
  "tail_write h m =
     (if HDR_SIZE + CANARY_SZ < blk_size m h then store32 m (tail_canary_ptr m h) TAIL_MAGIC else m)"

definition tail_ok :: "mem \<Rightarrow> addr \<Rightarrow> bool" where
  "tail_ok m h \<longleftrightarrow>
     (if blk_size m h \<le> HDR_SIZE + CANARY_SZ then True
      else load32 m (tail_canary_ptr m h) = TAIL_MAGIC)"

definition next_blk :: "mem \<Rightarrow> addr \<Rightarrow> addr" where "next_blk m h = h + unat (blk_size m h)"
definition payload :: "addr \<Rightarrow> addr" where "payload h = h + unat HDR_SIZE"
definition hdr_of :: "addr \<Rightarrow> addr" where "hdr_of ptr = ptr - unat HDR_SIZE"

text \<open>
  \<^verbatim>\<open>fl_remove\<close> walks with a pointer to a pointer: it points at \<^verbatim>\<open>free_list_head\<close> or at
  the \<^verbatim>\<open>next_free\<close> field of a block.
\<close>

datatype link = Head | NextFree addr

definition deref :: "heap \<Rightarrow> link \<Rightarrow> addr" where
  "deref st pp = (case pp of Head \<Rightarrow> free_list_head st | NextFree b \<Rightarrow> blk_next_free (hmem st) b)"

definition assign :: "heap \<Rightarrow> link \<Rightarrow> addr \<Rightarrow> heap" where
  "assign st pp v =
     (case pp of Head \<Rightarrow> st\<lparr>free_list_head := v\<rparr>
      | NextFree b \<Rightarrow> st\<lparr>hmem := set_blk_next_free b v (hmem st)\<rparr>)"

partial_function (option) fl_find :: "heap \<Rightarrow> link \<Rightarrow> addr \<Rightarrow> link option" where
  "fl_find st pp h =
     (if deref st pp \<noteq> 0 \<and> deref st pp \<noteq> h then fl_find st (NextFree (deref st pp)) h
      else Some pp)"

declare fl_find.simps [code]

definition fl_remove :: "addr \<Rightarrow> heap \<Rightarrow> heap option" where
  "fl_remove h st =
     (case fl_find st Head h of None \<Rightarrow> None
      | Some pp \<Rightarrow>
          let st1 = (if deref st pp \<noteq> 0 then assign st pp (blk_next_free (hmem st) h) else st)
          in Some (st1\<lparr>hmem := set_blk_next_free h 0 (hmem st1)\<rparr>))"

definition fl_prepend :: "addr \<Rightarrow> heap \<Rightarrow> heap" where
  "fl_prepend h st =
     st\<lparr>hmem := set_blk_next_free h (free_list_head st) (hmem st), free_list_head := h\<rparr>"

definition fix_prev :: "addr \<Rightarrow> addr \<Rightarrow> heap \<Rightarrow> heap" where
  "fix_prev after p st =
     (if after < heap_end st then st\<lparr>hmem := set_blk_prev after p (hmem st)\<rparr> else st)"

text \<open>The merge step that \<^verbatim>\<open>coalesce_next\<close>, \<^verbatim>\<open>kfree\<close> and \<^verbatim>\<open>krealloc\<close> share, and the split step that \<^verbatim>\<open>kmalloc\<close> and \<^verbatim>\<open>krealloc\<close> share.\<close>

definition absorb_next :: "addr \<Rightarrow> addr \<Rightarrow> heap \<Rightarrow> heap option" where
  "absorb_next h nx st =
     (case fl_remove nx st of None \<Rightarrow> None
      | Some st1 \<Rightarrow>
          let m = set_blk_size h (blk_size (hmem st1) h + blk_size (hmem st1) nx) (hmem st1)
          in Some (fix_prev (next_blk m h) h (st1\<lparr>hmem := m\<rparr>)))"

definition coalesce_next :: "addr \<Rightarrow> heap \<Rightarrow> heap option" where
  "coalesce_next h st =
     (let nx = next_blk (hmem st) h
      in if heap_end st \<le> nx then Some st
         else if blk_magic (hmem st) nx \<noteq> FREE_MAGIC then Some st
         else absorb_next h nx st)"

definition split_blk :: "addr \<Rightarrow> u32 \<Rightarrow> heap \<Rightarrow> heap" where
  "split_blk cur need st =
     (if need + SPLIT_THRESH \<le> blk_size (hmem st) cur
      then let rem = cur + unat need;
               m1 = set_blk_size rem (blk_size (hmem st) cur - need) (hmem st);
               m2 = set_blk_next_free rem 0 (set_blk_prev rem cur (set_blk_magic rem FREE_MAGIC m1));
               st1 = fix_prev (next_blk m2 rem) rem (st\<lparr>hmem := m2\<rparr>);
               st2 = fl_prepend rem st1
           in st2\<lparr>hmem := set_blk_size cur need (hmem st2)\<rparr>
      else st)"

section \<open>Operations\<close>

definition vmm_init :: "u64 \<Rightarrow> heap \<Rightarrow> pmm \<Rightarrow> heap \<times> pmm" where
  "vmm_init kernel_end st p =
     (let start = unat ((kernel_end + 4096 - 1) AND 0xFFFFF000);
          m1 = set_blk_next_free start 0 (set_blk_prev start 0
                 (set_blk_magic start FREE_MAGIC (set_blk_size start HEAP_SIZE (hmem st))))
      in (st\<lparr>hmem := m1, heap_start := start, heap_end := start + unat HEAP_SIZE,
             free_list_head := start\<rparr>,
          pmm_mark_used (of_nat start) (ucast HEAP_SIZE) p))"

text \<open>The zero-initialised statics, over whatever memory holds at boot.\<close>

definition heap_boot :: "mem \<Rightarrow> heap" where
  "heap_boot m = \<lparr>hmem = m, heap_start = 0, heap_end = 0, free_list_head = 0,
     g_alloc_count = 0, g_total_allocs = 0, g_total_frees = 0,
     g_peak_used_bytes = 0, g_current_used_bytes = 0, hlog = []\<rparr>"

definition kmalloc_need :: "u64 \<Rightarrow> u32" where
  "kmalloc_need sz =
     (let need = ucast (ALIGN16 (sz + ucast CANARY_SZ)) + HDR_SIZE
      in if need < MIN_BLOCK then MIN_BLOCK else need)"

partial_function (option) first_fit :: "mem \<Rightarrow> u32 \<Rightarrow> addr \<Rightarrow> addr option" where
  "first_fit m need cur =
     (if cur = 0 then Some 0
      else if need \<le> blk_size m cur then Some cur
      else first_fit m need (blk_next_free m cur))"

declare first_fit.simps [code]

definition payload_sz :: "u32 \<Rightarrow> u32" where
  "payload_sz sz = (if HDR_SIZE + CANARY_SZ < sz then sz - HDR_SIZE - CANARY_SZ else 0)"

definition track_alloc :: "u32 \<Rightarrow> heap \<Rightarrow> heap" where
  "track_alloc sz st =
     (let used = g_current_used_bytes st + payload_sz sz
      in st\<lparr>g_alloc_count := g_alloc_count st + 1, g_total_allocs := g_total_allocs st + 1,
            g_current_used_bytes := used,
            g_peak_used_bytes := (if g_peak_used_bytes st < used then used
                                  else g_peak_used_bytes st)\<rparr>)"

definition kmalloc :: "system_limits \<Rightarrow> u64 \<Rightarrow> heap \<Rightarrow> (addr \<times> heap) option" where
  "kmalloc lim sz st =
     (if sz = 0 then Some (0, st)
      else let need = kmalloc_need sz
           in if \<not> limits_allow_alloc lim sz then Some (0, st\<lparr>hlog := AllocDenied sz # hlog st\<rparr>)
              else case first_fit (hmem st) need (free_list_head st) of None \<Rightarrow> None
                | Some cur \<Rightarrow>
                    if cur = 0 then Some (0, st\<lparr>hlog := HeapExhausted need # hlog st\<rparr>)
                    else (case fl_remove cur st of None \<Rightarrow> None
                      | Some st1 \<Rightarrow>
                          let st2 = split_blk cur need st1;
                              m = tail_write cur (set_blk_magic cur ALLOC_MAGIC (hmem st2))
                          in Some (payload cur, track_alloc (blk_size m cur) (st2\<lparr>hmem := m\<rparr>))))"

definition kzalloc :: "system_limits \<Rightarrow> u64 \<Rightarrow> heap \<Rightarrow> (addr \<times> heap) option" where
  "kzalloc lim sz st =
     (case kmalloc lim sz st of None \<Rightarrow> None
      | Some (p, st1) \<Rightarrow>
          Some (p, if p \<noteq> 0 then st1\<lparr>hmem := fill (hmem st1) p (unat sz) 0\<rparr> else st1))"

definition coalesce_prev :: "addr \<Rightarrow> heap \<Rightarrow> heap option" where
  "coalesce_prev h st =
     (let pr = blk_prev (hmem st) h
      in if pr \<noteq> 0 \<and> blk_magic (hmem st) pr = FREE_MAGIC then absorb_next pr h st
         else Some st)"

definition track_free :: "u32 \<Rightarrow> heap \<Rightarrow> heap" where
  "track_free sz st =
     st\<lparr>g_current_used_bytes := (if payload_sz sz \<le> g_current_used_bytes st
                                 then g_current_used_bytes st - payload_sz sz
                                 else g_current_used_bytes st),
        g_alloc_count := g_alloc_count st - 1, g_total_frees := g_total_frees st + 1\<rparr>"

definition poison :: "addr \<Rightarrow> u32 \<Rightarrow> mem \<Rightarrow> mem" where
  "poison ptr sz m =
     (let full = (if HDR_SIZE < sz then sz - HDR_SIZE else 0)
      in if 0 < full then fill m ptr (unat full) POISON_BYTE else m)"

definition kfree :: "addr \<Rightarrow> heap \<Rightarrow> heap option" where
  "kfree ptr st =
     (if ptr = 0 then Some st
      else let h = hdr_of ptr
           in if ptr < unat HDR_SIZE \<or> h < heap_start st \<or> heap_end st \<le> h
              then Some (st\<lparr>hlog := FreeOutOfRange ptr # hlog st\<rparr>)
              else if blk_magic (hmem st) h = FREE_MAGIC
              then Some (st\<lparr>hlog := DoubleFree ptr # hlog st\<rparr>)
              else if blk_magic (hmem st) h \<noteq> ALLOC_MAGIC
              then Some (st\<lparr>hlog := BadMagic (blk_magic (hmem st) h) ptr # hlog st\<rparr>)
              else let st1 = (if tail_ok (hmem st) h then st
                              else st\<lparr>hlog := Overflow ptr # hlog st\<rparr>);
                       sz = blk_size (hmem st) h;
                       st2 = track_free sz st1;
                       st3 = st2\<lparr>hmem := set_blk_magic h FREE_MAGIC (poison ptr sz (hmem st2))\<rparr>
                   in (case coalesce_next h (fl_prepend h st3) of None \<Rightarrow> None
                     | Some st4 \<Rightarrow> coalesce_prev h st4))"

text \<open>The copy of \<^verbatim>\<open>memcpy\<close> between two disjoint buffers.\<close>

definition copy_bytes :: "mem \<Rightarrow> addr \<Rightarrow> addr \<Rightarrow> nat \<Rightarrow> mem" where
  "copy_bytes m dst src n = (\<lambda>x. if dst \<le> x \<and> x < dst + n then m (src + (x - dst)) else m x)"

definition krealloc_need :: "u64 \<Rightarrow> u32" where
  "krealloc_need sz =
     (let need = ucast (ALIGN16 sz) + HDR_SIZE in if need < MIN_BLOCK then MIN_BLOCK else need)"

definition krealloc :: "system_limits \<Rightarrow> addr \<Rightarrow> u64 \<Rightarrow> heap \<Rightarrow> (addr \<times> heap) option" where
  "krealloc lim ptr new_size st =
     (if ptr = 0 then kmalloc lim new_size st
      else if new_size = 0 then map_option (\<lambda>s. (0, s)) (kfree ptr st)
      else let h = hdr_of ptr; need = krealloc_need new_size; m = hmem st; nx = next_blk m h
           in if need \<le> blk_size m h then Some (ptr, st)
              else if nx < heap_end st \<and> blk_magic m nx = FREE_MAGIC
                   \<and> need \<le> blk_size m h + blk_size m nx
              then (case absorb_next h nx st of None \<Rightarrow> None
                | Some st1 \<Rightarrow> Some (payload h, split_blk h need st1))
              else (case kmalloc lim new_size st of None \<Rightarrow> None
                | Some (np, st1) \<Rightarrow>
                    if np = 0 then Some (0, st1)
                    else let old_data = ucast (blk_size (hmem st1) h - HDR_SIZE) :: u64;
                             n = (if old_data < new_size then old_data else new_size);
                             st2 = st1\<lparr>hmem := copy_bytes (hmem st1) np ptr (unat n)\<rparr>
                         in map_option (\<lambda>s. (np, s)) (kfree ptr st2)))"

text \<open>The walks over the block chain, from \<^verbatim>\<open>heap_start\<close> by block size.\<close>

partial_function (option) heap_sum :: "u32 \<Rightarrow> mem \<Rightarrow> addr \<Rightarrow> addr \<Rightarrow> u64 \<Rightarrow> u64 option" where
  "heap_sum magic m stop cur acc =
     (if cur < stop
      then let acc1 = (if blk_magic m cur = magic then acc + ucast (blk_size m cur - HDR_SIZE) else acc)
           in if blk_size m cur = 0 then Some acc1
              else heap_sum magic m stop (cur + unat (blk_size m cur)) acc1
      else Some acc)"

declare heap_sum.simps [code]

definition vmm_heap_used :: "heap \<Rightarrow> u64 option" where
  "vmm_heap_used st = heap_sum ALLOC_MAGIC (hmem st) (heap_end st) (heap_start st) 0"

definition vmm_heap_reserved :: "heap \<Rightarrow> u64 option" where
  "vmm_heap_reserved st = heap_sum FREE_MAGIC (hmem st) (heap_end st) (heap_start st) 0"

definition vmm_alloc_count :: "heap \<Rightarrow> u32" where "vmm_alloc_count st = g_alloc_count st"
definition vmm_total_allocs :: "heap \<Rightarrow> u32" where "vmm_total_allocs st = g_total_allocs st"
definition vmm_total_frees :: "heap \<Rightarrow> u32" where "vmm_total_frees st = g_total_frees st"
definition vmm_peak_bytes :: "heap \<Rightarrow> u32" where "vmm_peak_bytes st = g_peak_used_bytes st"

text \<open>
  \<^verbatim>\<open>mem_check\<close> accumulates its messages; the number of errors it returns is their number.
\<close>

definition check_blk :: "mem \<Rightarrow> addr \<Rightarrow> heap_msg list" where
  "check_blk m cur =
     (if blk_magic m cur = ALLOC_MAGIC then (if tail_ok m cur then [] else [Overflow cur])
      else if blk_magic m cur = FREE_MAGIC then []
      else [BadMagic (blk_magic m cur) cur])"

partial_function (option) mem_check_walk ::
    "mem \<Rightarrow> addr \<Rightarrow> addr \<Rightarrow> heap_msg list \<Rightarrow> heap_msg list option" where
  "mem_check_walk m stop cur errs =
     (if cur < stop
      then if blk_size m cur = 0 \<or> HEAP_SIZE < blk_size m cur
           then Some (BadSize cur (blk_size m cur) # errs)
           else mem_check_walk m stop (cur + unat (blk_size m cur)) (check_blk m cur @ errs)
      else Some errs)"

declare mem_check_walk.simps [code]

definition mem_check :: "heap \<Rightarrow> nat option" where
  "mem_check st =
     map_option length (mem_check_walk (hmem st) (heap_end st) (heap_start st) [])"

definition heap_check_all :: "heap \<Rightarrow> nat option" where "heap_check_all st = mem_check st"

end
