(* ===== verification/Heap_Rep.thy ===== *)
theory Heap_Rep
  imports Heap
begin

text \<open>
  The abstract view of the heap: the list of blocks in address order (address, size, free?) and
  the free list as a list of addresses. \<open>core\<close> relates a byte-level state to them, and the
  lemmas of this theory say what each primitive step of the allocator does to the two lists and
  which bytes it leaves alone.
\<close>

type_synonym blk = "addr \<times> nat \<times> bool"

definition apart :: "addr \<Rightarrow> addr \<Rightarrow> bool" where
  "apart a b \<longleftrightarrow> a + 32 \<le> b \<or> b + 32 \<le> a"

fun tiles :: "addr \<Rightarrow> blk list \<Rightarrow> addr \<Rightarrow> bool" where
  "tiles a [] e \<longleftrightarrow> a = e"
| "tiles a ((b, sz, fr) # bs) e \<longleftrightarrow> b = a \<and> 48 \<le> sz \<and> 16 dvd sz \<and> tiles (a + sz) bs e"

fun hdrs :: "mem \<Rightarrow> addr \<Rightarrow> blk list \<Rightarrow> bool" where
  "hdrs m p [] \<longleftrightarrow> True"
| "hdrs m p ((b, sz, fr) # bs) \<longleftrightarrow>
     unat (blk_size m b) = sz \<and> blk_magic m b = (if fr then FREE_MAGIC else ALLOC_MAGIC)
     \<and> blk_prev m b = p \<and> hdrs m b bs"

fun fl_seg :: "mem \<Rightarrow> addr \<Rightarrow> addr list \<Rightarrow> addr \<Rightarrow> bool" where
  "fl_seg m h [] e \<longleftrightarrow> h = e"
| "fl_seg m h (x # xs) e \<longleftrightarrow> h = x \<and> x \<noteq> 0 \<and> fl_seg m (blk_next_free m x) xs e"

definition last_addr :: "addr \<Rightarrow> blk list \<Rightarrow> addr" where
  "last_addr p bs = (if bs = [] then p else fst (last bs))"

definition addrs :: "blk list \<Rightarrow> addr set" where "addrs bs = fst ` set bs"

definition heap_bounds :: "heap \<Rightarrow> bool" where
  "heap_bounds st \<longleftrightarrow> 0 < heap_start st \<and> 16 dvd heap_start st \<and> heap_end st < 2 ^ 63
     \<and> heap_end st = heap_start st + unat HEAP_SIZE"

definition core :: "heap \<Rightarrow> blk list \<Rightarrow> addr list \<Rightarrow> bool" where
  "core st bs fl \<longleftrightarrow> heap_bounds st
     \<and> tiles (heap_start st) bs (heap_end st) \<and> hdrs (hmem st) 0 bs
     \<and> fl_seg (hmem st) (free_list_head st) fl 0 \<and> distinct fl \<and> set fl \<subseteq> addrs bs"

text \<open>The bytes after the header of the given blocks are the same in both memories.\<close>

definition keeps :: "mem \<Rightarrow> mem \<Rightarrow> (addr \<times> nat) set \<Rightarrow> bool" where
  "keeps m m' B \<longleftrightarrow> (\<forall>(b, sz) \<in> B. \<forall>y. b + 24 \<le> y \<and> y < b + sz \<longrightarrow> m' y = m y)"

definition extents :: "blk list \<Rightarrow> (addr \<times> nat) set" where
  "extents bs = (\<lambda>(b, sz, fr). (b, sz)) ` set bs"

section \<open>Header fields\<close>

named_theorems fields \<open>reads of header fields after writes of header fields\<close>

lemma apart_sym: "apart a b \<Longrightarrow> apart b a"
  by (auto simp: apart_def)

lemma field_same [fields, simp]:
  "blk_size (set_blk_size h v m) h = v" "blk_size (set_blk_magic h w m) h = blk_size m h"
  "blk_size (set_blk_prev h p m) h = blk_size m h"
  "blk_size (set_blk_next_free h p m) h = blk_size m h"
  "blk_magic (set_blk_size h v m) h = blk_magic m h" "blk_magic (set_blk_magic h w m) h = w"
  "blk_magic (set_blk_prev h p m) h = blk_magic m h"
  "blk_magic (set_blk_next_free h p m) h = blk_magic m h"
  "blk_prev (set_blk_size h v m) h = blk_prev m h" "blk_prev (set_blk_magic h w m) h = blk_prev m h"
  "p < 2 ^ 64 \<Longrightarrow> blk_prev (set_blk_prev h p m) h = p"
  "blk_prev (set_blk_next_free h p m) h = blk_prev m h"
  "blk_next_free (set_blk_size h v m) h = blk_next_free m h"
  "blk_next_free (set_blk_magic h w m) h = blk_next_free m h"
  "blk_next_free (set_blk_prev h p m) h = blk_next_free m h"
  "p < 2 ^ 64 \<Longrightarrow> blk_next_free (set_blk_next_free h p m) h = p"
  by (simp_all add: blk_size_def blk_magic_def blk_prev_def blk_next_free_def set_blk_size_def
      set_blk_magic_def set_blk_prev_def set_blk_next_free_def mem_simps)

lemma field_apart [fields]:
  assumes "apart a b"
  shows "blk_size (set_blk_size a v m) b = blk_size m b" "blk_size (set_blk_magic a v m) b = blk_size m b"
    "blk_size (set_blk_prev a p m) b = blk_size m b" "blk_size (set_blk_next_free a p m) b = blk_size m b"
    "blk_magic (set_blk_size a v m) b = blk_magic m b" "blk_magic (set_blk_magic a v m) b = blk_magic m b"
    "blk_magic (set_blk_prev a p m) b = blk_magic m b"
    "blk_magic (set_blk_next_free a p m) b = blk_magic m b"
    "blk_prev (set_blk_size a v m) b = blk_prev m b" "blk_prev (set_blk_magic a v m) b = blk_prev m b"
    "blk_prev (set_blk_prev a p m) b = blk_prev m b"
    "blk_prev (set_blk_next_free a p m) b = blk_prev m b"
    "blk_next_free (set_blk_size a v m) b = blk_next_free m b"
    "blk_next_free (set_blk_magic a v m) b = blk_next_free m b"
    "blk_next_free (set_blk_prev a p m) b = blk_next_free m b"
    "blk_next_free (set_blk_next_free a p m) b = blk_next_free m b"
  using assms by (auto simp: apart_def blk_size_def blk_magic_def blk_prev_def blk_next_free_def
      set_blk_size_def set_blk_magic_def set_blk_prev_def set_blk_next_free_def mem_simps)

lemma set_field_other:
  "y < h \<or> h + 24 \<le> y \<Longrightarrow> set_blk_size h v m y = m y"
  "y < h \<or> h + 24 \<le> y \<Longrightarrow> set_blk_magic h v m y = m y"
  "y < h \<or> h + 24 \<le> y \<Longrightarrow> set_blk_prev h p m y = m y"
  "y < h \<or> h + 24 \<le> y \<Longrightarrow> set_blk_next_free h p m y = m y"
  by (auto simp: set_blk_size_def set_blk_magic_def set_blk_prev_def set_blk_next_free_def
      intro!: store32_other store64_other)

lemma field_cong:
  assumes "\<And>y. b \<le> y \<Longrightarrow> y < b + 24 \<Longrightarrow> m y = m' y"
  shows "blk_size m b = blk_size m' b" "blk_magic m b = blk_magic m' b"
    "blk_prev m b = blk_prev m' b" "blk_next_free m b = blk_next_free m' b"
  unfolding blk_size_def blk_magic_def blk_prev_def blk_next_free_def
  by (intro load32_cong load64_cong arg_cong[where f = unat]; use assms in simp)+

lemma blk_next_free_less: "blk_next_free m x < 2 ^ 64" "blk_prev m x < 2 ^ 64"
proof -
  have "unat (v :: u64) < 2 ^ 64" for v using unsigned_less[of v] by simp
  then show "blk_next_free m x < 2 ^ 64" "blk_prev m x < 2 ^ 64"
    by (auto simp: blk_next_free_def blk_prev_def)
qed

section \<open>Geometry\<close>

lemma tiles_append:
  "tiles a (us @ vs) e \<longleftrightarrow> (\<exists>c. tiles a us c \<and> tiles c vs e)"
  by (induction us arbitrary: a) (auto)

lemma tiles_le: "tiles a bs e \<Longrightarrow> a \<le> e"
  by (induction a bs e rule: tiles.induct) auto

lemma tiles_member: "tiles a bs e \<Longrightarrow> (b, sz, fr) \<in> set bs \<Longrightarrow> a \<le> b \<and> b + sz \<le> e \<and> 48 \<le> sz \<and> 16 dvd sz"
  by (induction a bs e rule: tiles.induct) (fastforce dest: tiles_le)+

lemma tiles_aligned: "tiles a bs e \<Longrightarrow> 16 dvd a \<Longrightarrow> (b, sz, fr) \<in> set bs \<Longrightarrow> 16 dvd b"
  by (induction a bs e rule: tiles.induct) auto

lemma addrs_simps [simp]:
  "addrs [] = {}" "addrs ((b, sz, fr) # bs) = insert b (addrs bs)" "addrs (us @ vs) = addrs us \<union> addrs vs"
  by (auto simp: addrs_def)

lemma addrs_iff: "b \<in> addrs bs \<longleftrightarrow> (\<exists>sz fr. (b, sz, fr) \<in> set bs)"
  by (force simp: addrs_def)

lemma tiles_addrs: "tiles a bs e \<Longrightarrow> b \<in> addrs bs \<Longrightarrow> a \<le> b \<and> b + 48 \<le> e"
  by (metis addrs_iff tiles_member add_le_mono le_trans nat_add_left_cancel_le)

text \<open>Two members of a tiling are the same block or do not overlap.\<close>

lemma tiles_disjoint:
  assumes "tiles a bs e" and "(b, sz, fr) \<in> set bs" and "(c, tz, gr) \<in> set bs"
  shows "(b, sz, fr) = (c, tz, gr) \<or> b + sz \<le> c \<or> c + tz \<le> b"
  using assms
proof (induction a bs e rule: tiles.induct)
  case (2 a d dz fr' bs e)
  then show ?case by (fastforce dest: tiles_member)
qed simp

lemma tiles_apart:
  assumes "tiles a bs e" and "b \<in> addrs bs" and "c \<in> addrs bs" and "b \<noteq> c"
  shows "apart b c"
proof -
  obtain sz fr tz gr where "(b, sz, fr) \<in> set bs" "(c, tz, gr) \<in> set bs"
    using assms(2,3) by (auto simp: addrs_iff)
  with tiles_disjoint[OF assms(1) this] assms(4) tiles_member[OF assms(1)] show ?thesis
    by (fastforce simp: apart_def)
qed

lemma tiles_unique:
  "tiles a bs e \<Longrightarrow> (b, sz, fr) \<in> set bs \<Longrightarrow> (b, tz, gr) \<in> set bs \<Longrightarrow> sz = tz \<and> fr = gr"
  using tiles_disjoint[of a bs e b sz fr b tz gr] tiles_member[of a bs e] by fastforce

lemma last_addr_simps [simp]:
  "last_addr p [] = p" "last_addr p (us @ [(b, sz, fr)]) = b" "last_addr p ((b, sz, fr) # us) = last_addr b us"
  by (auto simp: last_addr_def)

section \<open>Headers\<close>

lemma hdrs_append: "hdrs m p (us @ vs) \<longleftrightarrow> hdrs m p us \<and> hdrs m (last_addr p us) vs"
  by (induction m p us rule: hdrs.induct) auto

lemma hdrs_cong:
  assumes "\<And>b. b \<in> addrs bs \<Longrightarrow>
    blk_size m' b = blk_size m b \<and> blk_magic m' b = blk_magic m b \<and> blk_prev m' b = blk_prev m b"
  shows "hdrs m' p bs = hdrs m p bs"
  using assms by (induction m p bs rule: hdrs.induct) auto

lemma hdrs_member:
  "hdrs m p bs \<Longrightarrow> (b, sz, fr) \<in> set bs \<Longrightarrow>
     unat (blk_size m b) = sz \<and> blk_magic m b = (if fr then FREE_MAGIC else ALLOC_MAGIC)"
  by (induction m p bs rule: hdrs.induct) auto

section \<open>The free list\<close>

lemma fl_seg_append: "fl_seg m h (xs @ ys) e \<longleftrightarrow> (\<exists>c. fl_seg m h xs c \<and> fl_seg m c ys e)"
  by (induction m h xs e rule: fl_seg.induct) auto

lemma fl_seg_cong:
  "(\<And>x. x \<in> set xs \<Longrightarrow> blk_next_free m' x = blk_next_free m x) \<Longrightarrow> fl_seg m' h xs e = fl_seg m h xs e"
  by (induction xs arbitrary: h) auto

lemma fl_seg_nonzero: "fl_seg m h xs e \<Longrightarrow> 0 \<notin> set xs"
  by (induction xs arbitrary: h) auto

lemma fl_seg_redirect:
  assumes "fl_seg m h (xs @ [l]) c" and "\<forall>a \<in> set xs. apart l a" and "d < 2 ^ 64"
  shows "fl_seg (set_blk_next_free l d m) h (xs @ [l]) d"
  using assms by (induction xs arbitrary: h) (auto simp: field_apart)

lemma fl_find_eq:
  "fl_seg (hmem st) (deref st pp) (xs @ x # ys) 0 \<Longrightarrow> x \<notin> set xs \<Longrightarrow>
     fl_find st pp x = Some (if xs = [] then pp else NextFree (last xs))"
proof (induction xs arbitrary: pp)
  case Nil
  then show ?case by (subst fl_find.simps) simp
next
  case (Cons y xs)
  then have "fl_find st pp x = fl_find st (NextFree y) x"
    by (subst fl_find.simps) auto
  moreover have "fl_seg (hmem st) (deref st (NextFree y)) (xs @ x # ys) 0"
    using Cons.prems by (simp add: deref_def)
  ultimately show ?case
    using Cons.IH[of "NextFree y"] Cons.prems by auto
qed

text \<open>Only \<^verbatim>\<open>next_free\<close> fields of the given blocks differ.\<close>

definition only_links :: "mem \<Rightarrow> mem \<Rightarrow> addr set \<Rightarrow> bool" where
  "only_links m m' F \<longleftrightarrow> (\<forall>y. (\<forall>b \<in> F. y < b + 16 \<or> b + 24 \<le> y) \<longrightarrow> m' y = m y)"

lemma set_next_free_bytes:
  "y < b + 16 \<or> b + 24 \<le> y \<Longrightarrow> set_blk_next_free b v m y = m y"
  by (auto simp: set_blk_next_free_def intro!: store64_other)

lemma only_links_refl [simp]: "only_links m m F"
  by (simp add: only_links_def)

lemma only_links_set: "only_links m m' F \<Longrightarrow> b \<in> F \<Longrightarrow> only_links m (set_blk_next_free b v m') F"
  by (auto simp: only_links_def set_next_free_bytes)

lemma only_links_fields:
  assumes "only_links m m' F" and "\<forall>b \<in> F. b = c \<or> apart b c"
  shows "blk_size m' c = blk_size m c" "blk_magic m' c = blk_magic m c" "blk_prev m' c = blk_prev m c"
proof -
  have "m' y = m y" if "c \<le> y" "y < c + 16" for y
    using assms that by (fastforce simp: only_links_def apart_def)
  then show "blk_size m' c = blk_size m c" "blk_magic m' c = blk_magic m c" "blk_prev m' c = blk_prev m c"
    unfolding blk_size_def blk_magic_def blk_prev_def
    by (intro load32_cong load64_cong arg_cong[where f = unat]; simp)+
qed

lemma fl_remove_spec:
  assumes seg: "fl_seg (hmem st) (free_list_head st) fl 0" and "distinct fl" and x: "x \<in> set fl"
    and sep: "\<And>a b. a \<in> set fl \<Longrightarrow> b \<in> set fl \<Longrightarrow> a \<noteq> b \<Longrightarrow> apart a b"
  obtains m' h' where "fl_remove x st = Some (st\<lparr>hmem := m', free_list_head := h'\<rparr>)"
    and "fl_seg m' h' (remove1 x fl) 0" and "only_links (hmem st) m' (set fl)"
proof -
  obtain xs ys where fl: "fl = xs @ x # ys" and nx: "x \<notin> set xs"
    using split_list_first[OF x] by blast
  have rm: "remove1 x fl = xs @ ys" using fl nx by (simp add: remove1_append)
  let ?m = "hmem st" and ?n = "blk_next_free (hmem st) x"
  have find: "fl_find st Head x = Some (if xs = [] then Head else NextFree (last xs))"
    using fl_find_eq[of st Head xs x ys] seg nx fl by (simp add: deref_def)
  have ys: "fl_seg ?m ?n ys 0" "x \<noteq> 0" using seg fl by (auto simp: fl_seg_append)
  have sepx: "apart x a" if "a \<in> set xs \<union> set ys" for a
    using that sep[of x a] \<open>distinct fl\<close> nx unfolding fl by fastforce
  show thesis
  proof (cases "xs = []")
    case True
    then have "fl_remove x st = Some (st\<lparr>hmem := set_blk_next_free x 0 ?m, free_list_head := ?n\<rparr>)"
      using find seg fl ys(2) by (simp add: fl_remove_def deref_def assign_def)
    moreover have "fl_seg (set_blk_next_free x 0 ?m) ?n (xs @ ys) 0"
      using ys(1) sepx True by (subst fl_seg_cong[of _ _ ?m]) (auto simp: field_apart)
    ultimately show thesis
      using that x by (simp add: rm only_links_set)
  next
    case False
    define l where "l = last xs"
    define m1 where "m1 = set_blk_next_free l ?n ?m"
    obtain us where us: "xs = us @ [l]" using False by (metis l_def append_butlast_last_id)
    have "deref st (NextFree l) = x"
      using seg us fl by (auto simp: fl_seg_append deref_def)
    then have rem: "fl_remove x st = Some (st\<lparr>hmem := set_blk_next_free x 0 m1, free_list_head := free_list_head st\<rparr>)"
      using find False ys(2) by (simp add: fl_remove_def assign_def l_def[symmetric] m1_def)
    have apl: "\<forall>a \<in> set us. apart l a" "\<forall>a \<in> set ys. apart l a"
      using sep \<open>distinct fl\<close> unfolding fl us by auto
    have "fl_seg ?m (free_list_head st) (us @ [l]) x" using seg fl us by (auto simp: fl_seg_append)
    then have "fl_seg m1 (free_list_head st) xs ?n"
      unfolding m1_def us by (rule fl_seg_redirect[OF _ apl(1) blk_next_free_less(1)])
    moreover have "fl_seg m1 ?n ys 0"
      using ys(1) apl(2) unfolding m1_def by (subst fl_seg_cong[of _ _ ?m]) (auto simp: field_apart)
    ultimately have "fl_seg m1 (free_list_head st) (xs @ ys) 0" by (auto simp: fl_seg_append)
    then have "fl_seg (set_blk_next_free x 0 m1) (free_list_head st) (xs @ ys) 0"
      using sepx by (subst fl_seg_cong[of _ _ m1]) (auto simp: field_apart)
    moreover have "only_links ?m (set_blk_next_free x 0 m1) (set fl)"
      using x us fl unfolding m1_def by (intro only_links_set) auto
    ultimately show thesis using that[OF rem] by (simp only: rm)
  qed
qed

lemma first_fit_eq:
  "fl_seg m h fl 0 \<Longrightarrow> first_fit m need h =
     Some (case List.find (\<lambda>x. need \<le> blk_size m x) fl of None \<Rightarrow> 0 | Some x \<Rightarrow> x)"
  by (induction fl arbitrary: h) (subst first_fit.simps, simp)+


section \<open>Steps on the core\<close>

lemma heap_bounds_upd [simp]:
  "heap_bounds (st\<lparr>hmem := m\<rparr>) = heap_bounds st" "heap_bounds (st\<lparr>free_list_head := h\<rparr>) = heap_bounds st"
  by (simp_all add: heap_bounds_def)

text \<open>
  What every step leaves alone: the bounds and counters, the bytes outside the heap, and the
  bytes after the header of the blocks in \<open>B\<close>.
\<close>

definition steady :: "(addr \<times> nat) set \<Rightarrow> heap \<Rightarrow> heap \<Rightarrow> bool" where
  "steady B st st' \<longleftrightarrow>
     st' = st\<lparr>hmem := hmem st', free_list_head := free_list_head st'\<rparr>
     \<and> keeps (hmem st) (hmem st') B
     \<and> (\<forall>y. y < heap_start st \<or> heap_end st \<le> y \<longrightarrow> hmem st' y = hmem st y)"

lemma keeps_trans: "keeps m1 m2 B \<Longrightarrow> keeps m2 m3 B \<Longrightarrow> keeps m1 m3 B"
  by (fastforce simp: keeps_def)

lemma steady_refl [simp]: "steady B st st"
  by (simp add: steady_def keeps_def)

lemma steady_mono: "steady B st st' \<Longrightarrow> C \<subseteq> B \<Longrightarrow> steady C st st'"
  by (fastforce simp: steady_def keeps_def)

lemma steady_bounds:
  assumes "steady B st st'"
  shows "heap_start st' = heap_start st" "heap_end st' = heap_end st"
  using assms unfolding steady_def by (metis heap.select_convs heap.surjective heap.update_convs)+

lemma steady_trans:
  assumes "steady B s1 s2" and "steady B s2 s3"
  shows "steady B s1 s3"
proof -
  have "s3 = s1\<lparr>hmem := hmem s3, free_list_head := free_list_head s3\<rparr>"
    using assms unfolding steady_def by (cases s1; cases s2; cases s3) simp
  then show ?thesis
    using assms keeps_trans steady_bounds[OF assms(1)] by (simp add: steady_def) blast
qed

lemma extents_simps [simp]:
  "extents [] = {}" "extents ((b, sz, fr) # bs) = insert (b, sz) (extents bs)"
  "extents (us @ vs) = extents us \<union> extents vs"
  by (simp_all add: extents_def image_Un)

lemma extents_tiles: "tiles a bs e \<Longrightarrow> (b, sz) \<in> extents bs \<Longrightarrow> a \<le> b \<and> b + sz \<le> e \<and> 48 \<le> sz"
  by (auto simp: extents_def dest: tiles_member)

lemma core_apart:
  "core st bs fl \<Longrightarrow> a \<in> addrs bs \<Longrightarrow> b \<in> addrs bs \<Longrightarrow> a \<noteq> b \<Longrightarrow> apart a b"
  unfolding core_def by (blast intro: tiles_apart)

text \<open>Bytes of block headers lie outside every other block and inside the heap.\<close>

lemma header_outside:
  assumes "tiles a bs e" and "(b, sz) \<in> extents bs" and "c \<in> addrs bs"
    and "b + 24 \<le> y" and "y < b + sz"
  shows "y < c \<or> c + 24 \<le> y"
proof -
  obtain fr tz gr where "(b, sz, fr) \<in> set bs" "(c, tz, gr) \<in> set bs"
    using assms(2,3) by (auto simp: extents_def addrs_iff)
  then show ?thesis
    using tiles_disjoint[OF assms(1), of b sz fr c tz gr] tiles_member[OF assms(1)] assms(4,5) by fastforce
qed

lemma steady_headers:
  assumes "tiles (heap_start st) bs (heap_end st)"
    and "\<And>y. (\<forall>c \<in> addrs bs. y < c \<or> c + 24 \<le> y) \<Longrightarrow> m' y = hmem st y"
  shows "steady (extents bs) st (st\<lparr>hmem := m', free_list_head := h'\<rparr>)"
proof -
  have "keeps (hmem st) m' (extents bs)"
    unfolding keeps_def using header_outside[OF assms(1)] assms(2) by blast
  moreover have "m' y = hmem st y" if "y < heap_start st \<or> heap_end st \<le> y" for y
    using that tiles_addrs[OF assms(1)] by (intro assms(2)) fastforce
  ultimately show ?thesis by (auto simp: steady_def)
qed

lemma core_fl_remove:
  assumes "core st bs fl" and "x \<in> set fl"
  obtains st' where "fl_remove x st = Some st'" and "core st' bs (remove1 x fl)"
    and "steady (extents bs) st st'"
proof -
  note c = assms(1)[unfolded core_def]
  have sep: "apart a b" if "a \<in> addrs bs" "b \<in> addrs bs" "a \<noteq> b" for a b
    using core_apart[OF assms(1)] that by blast
  have seg0: "fl_seg (hmem st) (free_list_head st) fl 0" and dist: "distinct fl"
    and sub: "set fl \<subseteq> addrs bs" and til: "tiles (heap_start st) bs (heap_end st)"
    using c by simp_all
  have sepf: "apart a b" if "a \<in> set fl" "b \<in> set fl" "a \<noteq> b" for a b
    using that sub by (meson sep subsetD)
  obtain m' h' where st': "fl_remove x st = Some (st\<lparr>hmem := m', free_list_head := h'\<rparr>)"
    and seg: "fl_seg m' h' (remove1 x fl) 0" and ol: "only_links (hmem st) m' (set fl)"
    by (rule fl_remove_spec[OF seg0 dist assms(2) sepf])
  have "\<forall>b \<in> set fl. b = a \<or> apart b a" if "a \<in> addrs bs" for a
    using sub sep that by (meson subsetD)
  then have "hdrs m' 0 bs = hdrs (hmem st) 0 bs"
    using only_links_fields[OF ol] by (intro hdrs_cong) blast
  then have "core (st\<lparr>hmem := m', free_list_head := h'\<rparr>) bs (remove1 x fl)"
    using c seg set_remove1_subset[of x fl] by (auto simp: core_def)
  moreover have "steady (extents bs) st (st\<lparr>hmem := m', free_list_head := h'\<rparr>)"
  proof (rule steady_headers)
    show "tiles (heap_start st) bs (heap_end st)" by (rule til)
    show "m' y = hmem st y" if "\<forall>c\<in>addrs bs. y < c \<or> c + 24 \<le> y" for y
    proof -
      have "\<forall>b \<in> set fl. y < b + 16 \<or> b + 24 \<le> y" using that sub by fastforce
      with ol show ?thesis by (simp add: only_links_def)
    qed
  qed
  ultimately show thesis using that st' by blast
qed

lemma core_fl_prepend:
  assumes "core st bs fl" and "x \<in> addrs bs" and "x \<notin> set fl"
  shows "core (fl_prepend x st) bs (x # fl)" and "steady (extents bs) st (fl_prepend x st)"
proof -
  note c = assms(1)[unfolded core_def]
  let ?m = "set_blk_next_free x (free_list_head st) (hmem st)"
  have lt: "free_list_head st < 2 ^ 64"
    using c tiles_addrs[of "heap_start st" bs "heap_end st" "free_list_head st"]
    by (cases fl) (auto simp: heap_bounds_def)
  have "x \<noteq> 0" using tiles_addrs c assms(2) by (fastforce simp: heap_bounds_def)
  have sep: "apart x a" if "a \<in> addrs bs" "a \<noteq> x" for a
    using core_apart[OF assms(1)] assms(2) that by blast
  have "fl_seg ?m (free_list_head st) fl 0"
    using c assms(3) sep by (subst fl_seg_cong[of _ _ "hmem st"]) (auto intro!: field_apart)
  then have "fl_seg ?m x (x # fl) 0" using lt \<open>x \<noteq> 0\<close> by simp
  moreover have "hdrs ?m 0 bs = hdrs (hmem st) 0 bs"
    by (rule hdrs_cong) (metis sep field_apart(3,4,8,12) field_same(4,8,12))
  ultimately show "core (fl_prepend x st) bs (x # fl)"
    using c assms by (simp add: core_def fl_prepend_def)
  show "steady (extents bs) st (fl_prepend x st)"
    unfolding fl_prepend_def using c assms(2)
    by (intro steady_headers) (auto intro: set_field_other)
qed

lemma core_set_magic:
  assumes "core st (us @ (x, sz, f) # vs) fl"
    and v: "v = (if g then FREE_MAGIC else ALLOC_MAGIC)"
  shows "core (st\<lparr>hmem := set_blk_magic x v (hmem st)\<rparr>) (us @ (x, sz, g) # vs) fl"
    and "steady (extents (us @ (x, sz, f) # vs)) st (st\<lparr>hmem := set_blk_magic x v (hmem st)\<rparr>)"
proof -
  let ?bs = "us @ (x, sz, f) # vs" and ?m = "set_blk_magic x v (hmem st)"
  note c = assms(1)[unfolded core_def]
  have tiles: "tiles (heap_start st) (us @ (x, sz, g) # vs) (heap_end st)"
    using c by (auto simp: tiles_append)
  have nx: "x \<notin> addrs us" "x \<notin> addrs vs"
    using tiles tiles_member by (fastforce simp: tiles_append addrs_iff)+
  have sep: "apart x a" if "a \<in> addrs us \<union> addrs vs" for a
    using core_apart[OF assms(1), of x a] nx that by auto
  have "hdrs ?m p us = hdrs (hmem st) p us" "hdrs ?m p vs = hdrs (hmem st) p vs" for p
    by (rule hdrs_cong; simp add: sep field_apart)+
  then have "hdrs ?m 0 (us @ (x, sz, g) # vs)"
    using c by (simp add: hdrs_append v)
  moreover have "fl_seg ?m (free_list_head st) fl 0"
  proof (subst fl_seg_cong[of _ _ "hmem st"])
    show "blk_next_free ?m a = blk_next_free (hmem st) a" if "a \<in> set fl" for a
      using that c sep by (cases "a = x") (auto simp: field_apart)
  qed (use c in simp)
  ultimately show "core (st\<lparr>hmem := ?m\<rparr>) (us @ (x, sz, g) # vs) fl"
    using c tiles by (auto simp: core_def)
  show "steady (extents ?bs) st (st\<lparr>hmem := ?m\<rparr>)"
    using steady_headers[of st ?bs ?m "free_list_head st"] c by (simp add: set_field_other)
qed

text \<open>A write confined to bytes after the headers does not disturb the core.\<close>

lemma core_payload_write:
  assumes "core st bs fl" and "\<And>y. (\<exists>c \<in> addrs bs. c \<le> y \<and> y < c + 24) \<Longrightarrow> m' y = hmem st y"
  shows "core (st\<lparr>hmem := m'\<rparr>) bs fl"
proof -
  have same: "blk_size m' c = blk_size (hmem st) c \<and> blk_magic m' c = blk_magic (hmem st) c
      \<and> blk_prev m' c = blk_prev (hmem st) c \<and> blk_next_free m' c = blk_next_free (hmem st) c"
    if "c \<in> addrs bs" for c
    using field_cong[of c m' "hmem st"] assms(2) that by blast
  have "hdrs m' 0 bs = hdrs (hmem st) 0 bs" using same by (intro hdrs_cong) blast
  moreover have "fl_seg m' h fl 0 = fl_seg (hmem st) h fl 0" for h
    using same assms(1) unfolding core_def by (intro fl_seg_cong) blast
  ultimately show ?thesis using assms(1) by (simp add: core_def)
qed

end
