(* ===== verification/Heap_Steps.thy ===== *)
theory Heap_Steps
  imports Heap_Rep
begin

text \<open>
  Splitting a block and absorbing the next one, on the block list: the two steps that change the
  tiling of the heap.
\<close>

lemma hdrs_reprev:
  assumes "hdrs m p vs"
    and "\<And>b. b \<in> addrs vs \<Longrightarrow> blk_size m' b = blk_size m b \<and> blk_magic m' b = blk_magic m b"
    and "\<And>b sz fr ws. vs = (b, sz, fr) # ws \<Longrightarrow> blk_prev m' b = q"
    and "\<And>b c sz fr ws. vs = (c, sz, fr) # ws \<Longrightarrow> b \<in> addrs ws \<Longrightarrow> blk_prev m' b = blk_prev m b"
  shows "hdrs m' q vs"
proof (cases vs)
  case (Cons v ws)
  obtain b sz fr where v: "v = (b, sz, fr)" by (cases v)
  have "hdrs m' b ws = hdrs m b ws"
    using assms(2,4) Cons v by (intro hdrs_cong) auto
  then show ?thesis using assms(1,2,3) Cons v by simp
qed simp

text \<open>The block after the last byte of \<open>(x, sz, f)\<close> is the next in the list, or there is none.\<close>

lemma tiles_next:
  assumes "tiles a (us @ (x, sz, f) # vs) e"
  shows "(vs = [] \<and> x + sz = e) \<or> (\<exists>tz g ws. vs = (x + sz, tz, g) # ws \<and> x + sz < e)"
proof (cases vs)
  case Nil
  then show ?thesis using assms by (auto simp: tiles_append)
next
  case (Cons v ws)
  obtain b tz g where v: "v = (b, tz, g)" by (cases v)
  have "b = x + sz" "48 \<le> tz" "tiles (x + sz + tz) ws e"
    using assms Cons v by (auto simp: tiles_append)
  with Cons v tiles_le show ?thesis by fastforce
qed

lemma tiles_fresh:
  assumes "tiles a (us @ (x, sz, f) # vs) e"
  shows "x \<notin> addrs us" "x \<notin> addrs vs" "x + sz \<notin> addrs us" "x + sz \<in> addrs vs \<longleftrightarrow> x + sz < e"
    "\<And>c tz g ws. vs = (c, tz, g) # ws \<Longrightarrow> c \<notin> addrs ws"
proof -
  obtain "tiles a us x" "48 \<le> sz" "tiles (x + sz) vs e" using assms by (auto simp: tiles_append)
  then show "x \<notin> addrs us" "x \<notin> addrs vs" "x + sz \<notin> addrs us"
    using tiles_addrs by fastforce+
  show "x + sz \<in> addrs vs \<longleftrightarrow> x + sz < e" using tiles_next[OF assms] by auto
  show "\<And>c tz g ws. vs = (c, tz, g) # ws \<Longrightarrow> c \<notin> addrs ws"
    using \<open>tiles (x + sz) vs e\<close> tiles_addrs by fastforce
qed

lemma fix_prev_fields:
  assumes "after < heap_end st \<Longrightarrow> after = b \<or> apart after b" and "p < 2 ^ 64"
  shows "blk_size (hmem (fix_prev after p st)) b = blk_size (hmem st) b"
    "blk_magic (hmem (fix_prev after p st)) b = blk_magic (hmem st) b"
    "blk_next_free (hmem (fix_prev after p st)) b = blk_next_free (hmem st) b"
    "blk_prev (hmem (fix_prev after p st)) b
       = (if b = after \<and> after < heap_end st then p else blk_prev (hmem st) b)"
  using assms by (auto simp: fix_prev_def fields)

lemma fix_prev_frame [simp]:
  "free_list_head (fix_prev after p st) = free_list_head st"
  "heap_end (fix_prev after p st) = heap_end st" "heap_start (fix_prev after p st) = heap_start st"
  "heap_bounds (fix_prev after p st) = heap_bounds st"
  by (simp_all add: fix_prev_def)

lemma fix_prev_state: "fix_prev after p st = st\<lparr>hmem := hmem (fix_prev after p st)\<rparr>"
  by (simp add: fix_prev_def)

lemma fix_prev_other:
  "(after < heap_end st \<Longrightarrow> y < after \<or> after + 24 \<le> y) \<Longrightarrow> hmem (fix_prev after p st) y = hmem st y"
  by (auto simp: fix_prev_def set_field_other)

lemma apart_cases:
  "tiles a bs e \<Longrightarrow> b \<in> addrs bs \<Longrightarrow> c \<in> addrs bs \<Longrightarrow> b = c \<or> apart b c"
  using tiles_apart by blast

text \<open>
  Replacing the blocks between \<open>us\<close> and \<open>vs\<close>: the headers of \<open>us\<close> and \<open>vs\<close> keep their
  contents, except that the first block of \<open>vs\<close> gets a new predecessor.
\<close>

lemma core_retile:
  assumes core: "core st (us @ old @ vs) fl"
    and til: "tiles (heap_start st) (us @ mid @ vs) (heap_end st)" and til_vs: "tiles after vs (heap_end st)"
    and mid: "hdrs m' (last_addr 0 us) mid"
    and same: "\<And>b. b \<in> addrs us \<union> addrs vs \<Longrightarrow> blk_size m' b = blk_size (hmem st) b
      \<and> blk_magic m' b = blk_magic (hmem st) b
      \<and> blk_prev m' b = (if b = after \<and> after < heap_end st then last_addr 0 (us @ mid) else blk_prev (hmem st) b)"
    and nf: "\<And>b. b \<in> set fl \<Longrightarrow> blk_next_free m' b = blk_next_free (hmem st) b"
    and sub: "set fl \<subseteq> addrs (us @ mid @ vs)"
  shows "core (st\<lparr>hmem := m'\<rparr>) (us @ mid @ vs) fl"
proof -
  have hd: "hdrs (hmem st) 0 (us @ old @ vs)" using core by (simp add: core_def)
  have last: "last_addr p (xs @ ys) = last_addr (last_addr p xs) ys" for p xs ys
    by (simp add: last_addr_def)
  obtain c where "tiles (heap_start st) us c" "tiles c (mid @ vs) (heap_end st)"
    using til by (auto simp: tiles_append)
  moreover have "c \<le> after" if "vs \<noteq> []"
    using calculation(2) til_vs that by (cases vs) (auto simp: tiles_append dest: tiles_le)
  moreover have "vs = [] \<Longrightarrow> after = heap_end st" using til_vs by simp
  ultimately have "after \<notin> addrs us" if "after < heap_end st"
    using that tiles_addrs[of "heap_start st" us c after] by fastforce
  then have "hdrs m' 0 us" using hd same
    by (subst hdrs_cong[of us m' "hmem st"]) (auto simp: hdrs_append)
  moreover have "hdrs m' (last_addr 0 (us @ mid)) vs"
  proof (rule hdrs_reprev)
    show "hdrs (hmem st) (last_addr 0 (us @ old)) vs" using hd by (simp add: hdrs_append last)
    show "blk_size m' b = blk_size (hmem st) b \<and> blk_magic m' b = blk_magic (hmem st) b"
      if "b \<in> addrs vs" for b using same that by blast
    show "blk_prev m' b = last_addr 0 (us @ mid)" if "vs = (b, sz, fr) # ws" for b sz fr ws
      using same[of b] til_vs that tiles_le[of "after + sz" ws "heap_end st"] by auto
    show "blk_prev m' b = blk_prev (hmem st) b" if "vs = (d, sz, fr) # ws" "b \<in> addrs ws" for b d sz fr ws
      using same[of b] til_vs that tiles_addrs[of "after + sz" ws "heap_end st" b] by auto
  qed
  ultimately have "hdrs m' 0 (us @ mid @ vs)" using mid by (simp add: hdrs_append last)
  moreover have "fl_seg m' (free_list_head st) fl 0"
    using core nf by (subst fl_seg_cong[of _ _ "hmem st"]) (auto simp: core_def)
  ultimately show ?thesis using core til sub by (simp add: core_def)
qed

lemma core_addr:
  "core st bs fl \<Longrightarrow> b \<in> addrs bs \<Longrightarrow> 0 < b \<and> b < 2 ^ 64"
  using tiles_addrs[of "heap_start st" bs "heap_end st" b] by (auto simp: core_def heap_bounds_def)

lemma core_head:
  "core st bs fl \<Longrightarrow> free_list_head st < 2 ^ 64"
  using core_addr[of st bs fl "free_list_head st"] by (cases fl) (auto simp: core_def)

lemma core_size:
  assumes "core st bs fl" and "(b, sz, fr) \<in> set bs"
  shows "unat (blk_size (hmem st) b) = sz" "sz \<le> 2 ^ 25"
  using assms hdrs_member tiles_member[of "heap_start st" bs "heap_end st"]
  by (fastforce simp: core_def heap_bounds_def HEAP_SIZE_def)+

lemma core_push:
  assumes "core st bs fl" and "x \<in> addrs bs" and "x \<notin> set fl" and "blk_next_free (hmem st) x = free_list_head st"
  shows "core (st\<lparr>free_list_head := x\<rparr>) bs (x # fl)"
  using assms core_addr[OF assms(1,2)] by (simp add: core_def)

section \<open>Absorbing the next block\<close>

lemma core_merge:
  assumes core: "core st (us @ (h, s1, f) # (n, s2, g) # vs) fl" and nfl: "n \<notin> set fl"
  defines "m \<equiv> set_blk_size h (blk_size (hmem st) h + blk_size (hmem st) n) (hmem st)"
  defines "st' \<equiv> fix_prev (next_blk m h) h (st\<lparr>hmem := m\<rparr>)"
  shows "core st' (us @ (h, s1 + s2, f) # vs) fl"
    and "steady (extents (us @ (h, s1, f) # (n, s2, g) # vs)) st st'"
proof -
  let ?bs = "us @ (h, s1, f) # (n, s2, g) # vs" and ?cs = "us @ (h, s1 + s2, f) # vs"
  have til: "tiles (heap_start st) ?bs (heap_end st)" and hd: "hdrs (hmem st) 0 ?bs"
    using core by (simp_all add: core_def)
  have til': "tiles (heap_start st) ?cs (heap_end st)"
    using til by (auto simp: tiles_append algebra_simps)
  define after where "after = h + (s1 + s2)"
  have til_vs: "tiles after vs (heap_end st)"
    using til' by (auto simp: tiles_append after_def)
  have "unat (blk_size (hmem st) h) + unat (blk_size (hmem st) n) < 2 ^ 32"
    using core_size[OF core, of h s1 f] core_size[OF core, of n s2 g] by simp
  then have sz: "unat (blk_size (hmem st) h + blk_size (hmem st) n) = s1 + s2"
    using core_size[OF core, of h s1 f] core_size[OF core, of n s2 g] by (simp add: unat_add32_no_wrap)
  have "next_blk m h = after" by (simp add: next_blk_def m_def sz after_def)
  then have st': "st' = fix_prev after h (st\<lparr>hmem := m\<rparr>)" by (simp add: st'_def)
  have aft: "after \<in> addrs ?cs" if "after < heap_end st"
    using that tiles_fresh(4)[OF til'] by (simp add: after_def)
  have F: "blk_size (hmem st') b = (if b = h then blk_size (hmem st) h + blk_size (hmem st) n else blk_size (hmem st) b)"
    "blk_magic (hmem st') b = blk_magic (hmem st) b"
    "blk_next_free (hmem st') b = blk_next_free (hmem st) b"
    "blk_prev (hmem st') b = (if b = after \<and> after < heap_end st then h else blk_prev (hmem st) b)"
    if "b \<in> addrs ?cs" for b
    using fix_prev_fields[of after "st\<lparr>hmem := m\<rparr>" b h] apart_cases[OF til' aft that]
      apart_cases[OF til' _ that, of h] core_addr[OF core, of h]
    unfolding st' m_def by (auto simp: fields)
  have upd: "st' = st\<lparr>hmem := hmem st'\<rparr>" unfolding st' by (subst fix_prev_state) simp
  have "core (st\<lparr>hmem := hmem st'\<rparr>) (us @ [(h, s1 + s2, f)] @ vs) fl"
  proof (rule core_retile[where old = "[(h, s1, f), (n, s2, g)]" and after = after])
    show "hdrs (hmem st') (last_addr 0 us) [(h, s1 + s2, f)]"
      using hd F[of h] sz til by (auto simp: hdrs_append after_def tiles_append)
    show "set fl \<subseteq> addrs (us @ [(h, s1 + s2, f)] @ vs)"
      using core nfl by (auto simp: core_def)
    then show "blk_next_free (hmem st') b = blk_next_free (hmem st) b" if "b \<in> set fl" for b
      using F(3) that by fastforce
    show "blk_size (hmem st') b = blk_size (hmem st) b \<and> blk_magic (hmem st') b = blk_magic (hmem st) b
      \<and> blk_prev (hmem st') b = (if b = after \<and> after < heap_end st then last_addr 0 (us @ [(h, s1 + s2, f)])
          else blk_prev (hmem st) b)" if "b \<in> addrs us \<union> addrs vs" for b
      using F[of b] that tiles_fresh(1,2)[OF til'] by auto
  qed (use core til' til_vs in simp_all)
  with upd show "core st' ?cs fl" by simp
  have "steady (extents ?bs) st (st\<lparr>hmem := hmem st', free_list_head := free_list_head st\<rparr>)"
  proof (rule steady_headers[OF til])
    fix y assume y: "\<forall>c\<in>addrs ?bs. y < c \<or> c + 24 \<le> y"
    have "hmem st' y = m y" unfolding st' using y aft by (subst fix_prev_other) auto
    then show "hmem st' y = hmem st y" using y by (simp add: m_def set_field_other)
  qed
  then have "steady (extents ?bs) st (st\<lparr>hmem := hmem st'\<rparr>)" by simp
  then show "steady (extents ?bs) st st'" using upd by (simp only:)
qed

lemma core_absorb_next:
  assumes core: "core st (us @ (h, s1, f) # (n, s2, g) # vs) fl" and n: "n \<in> set fl"
  obtains st' where "absorb_next h n st = Some st'"
    and "core st' (us @ (h, s1 + s2, f) # vs) (remove1 n fl)"
    and "steady (extents (us @ (h, s1, f) # (n, s2, g) # vs)) st st'"
proof -
  obtain st1 where st1: "fl_remove n st = Some st1"
    and c1: "core st1 (us @ (h, s1, f) # (n, s2, g) # vs) (remove1 n fl)"
    and k1: "steady (extents (us @ (h, s1, f) # (n, s2, g) # vs)) st st1"
    by (rule core_fl_remove[OF core n])
  have "n \<notin> set (remove1 n fl)" using core by (simp add: core_def)
  note merged = core_merge[OF c1 this]
  from steady_trans[OF k1 merged(2)] merged(1) show thesis
    by (intro that) (simp_all add: absorb_next_def st1 Let_def)
qed

text \<open>The header that is absorbed keeps its magic number.\<close>

lemma absorb_keeps_magic:
  assumes core: "core st (us @ (h, s1, f) # (n, s2, g) # vs) fl" and n: "n \<in> set fl" and ab: "absorb_next h n st = Some st'"
  shows "blk_magic (hmem st') n = (if g then FREE_MAGIC else ALLOC_MAGIC)"
proof -
  let ?bs = "us @ (h, s1, f) # (n, s2, g) # vs"
  obtain st1 where st1: "fl_remove n st = Some st1" and c1: "core st1 ?bs (remove1 n fl)"
    by (rule core_fl_remove[OF core n])
  have til: "n = h + s1" "48 \<le> s1" "48 \<le> s2" using c1 by (auto simp: core_def tiles_append)
  define m where "m = set_blk_size h (blk_size (hmem st1) h + blk_size (hmem st1) n) (hmem st1)"
  have "unat (blk_size (hmem st1) h + blk_size (hmem st1) n) = s1 + s2"
    using core_size[OF c1, of h s1 f] core_size[OF c1, of n s2 g] by (simp add: unat_add32_no_wrap)
  then have after: "next_blk m h = h + (s1 + s2)" by (simp add: next_blk_def m_def)
  have "st' = fix_prev (next_blk m h) h (st1\<lparr>hmem := m\<rparr>)" using ab by (simp add: absorb_next_def st1 Let_def m_def)
  then have "blk_magic (hmem st') n = blk_magic m n"
    using fix_prev_fields(2)[of "next_blk m h" "st1\<lparr>hmem := m\<rparr>" n h] core_addr[OF c1, of h] til after by (simp add: apart_def)
  also have "\<dots> = blk_magic (hmem st1) n" unfolding m_def by (rule field_apart) (use til in \<open>simp add: apart_def\<close>)
  also have "\<dots> = (if g then FREE_MAGIC else ALLOC_MAGIC)" using c1 by (auto simp: core_def hdrs_append)
  finally show ?thesis .
qed

section \<open>Splitting\<close>

definition split_mem :: "addr \<Rightarrow> u32 \<Rightarrow> heap \<Rightarrow> mem" where
  "split_mem x need st =
     (let rm = x + unat need; after = x + unat (blk_size (hmem st) x);
          m2 = set_blk_next_free rm 0 (set_blk_prev rm x (set_blk_magic rm FREE_MAGIC
                 (set_blk_size rm (blk_size (hmem st) x - need) (hmem st))))
      in set_blk_size x need (set_blk_next_free rm (free_list_head st)
           (hmem (fix_prev after rm (st\<lparr>hmem := m2\<rparr>)))))"

lemma split_blk_state:
  assumes "unat need + 64 \<le> unat (blk_size (hmem st) x)"
  shows "split_blk x need st = st\<lparr>hmem := split_mem x need st, free_list_head := x + unat need\<rparr>"
proof -
  have "unat need + 64 < 4294967296" using assms unat_less32[of "blk_size (hmem st) x"] by linarith
  then have "unat (need + 64) = unat need + 64" by (subst unat_add32_no_wrap) auto
  then have "need + SPLIT_THRESH \<le> blk_size (hmem st) x"
    using assms by (simp add: SPLIT_THRESH_def word_le_nat_alt)
  moreover have "unat (blk_size (hmem st) x - need) = unat (blk_size (hmem st) x) - unat need"
    using assms by (subst unat_sub) (simp_all add: word_le_nat_alt)
  ultimately show ?thesis
    using assms by (simp add: split_blk_def split_mem_def Let_def next_blk_def fl_prepend_def fix_prev_def)
qed

lemma split_mem_fields:
  assumes "unat need + 64 \<le> unat (blk_size (hmem st) x)" and "48 \<le> unat need" and "x < 2 ^ 63"
    and "free_list_head st < 2 ^ 64"
  defines "rm \<equiv> x + unat need" and "after \<equiv> x + unat (blk_size (hmem st) x)" and "m \<equiv> split_mem x need st"
  shows "unat (blk_size m rm) = unat (blk_size (hmem st) x) - unat need" "blk_magic m rm = FREE_MAGIC"
    "blk_next_free m rm = free_list_head st" "blk_prev m rm = x"
    and "apart rm b \<Longrightarrow> b = x \<or> apart x b \<Longrightarrow> (after < heap_end st \<Longrightarrow> after = b \<or> apart after b) \<Longrightarrow>
      blk_size m b = (if b = x then need else blk_size (hmem st) b) \<and> blk_magic m b = blk_magic (hmem st) b
      \<and> blk_next_free m b = blk_next_free (hmem st) b
      \<and> blk_prev m b = (if b = after \<and> after < heap_end st then rm else blk_prev (hmem st) b)"
proof -
  have "rm < 9223372036854775808 + 4294967296" unfolding rm_def
    using assms(3)[simplified] unat_less32[of need] by linarith
  then have rm: "apart x rm" "apart after rm" "rm \<noteq> after" "rm < 2 ^ 64"
    using assms(1,2) by (auto simp: rm_def after_def apart_def)
  have rsz: "unat (blk_size (hmem st) x - need) = unat (blk_size (hmem st) x) - unat need"
    using assms(1) by (subst unat_sub) (simp_all add: word_le_nat_alt)
  show "unat (blk_size m rm) = unat (blk_size (hmem st) x) - unat need" "blk_magic m rm = FREE_MAGIC"
    "blk_next_free m rm = free_list_head st" "blk_prev m rm = x"
    using rm rsz assms(3,4) unfolding m_def split_mem_def Let_def rm_def[symmetric] after_def[symmetric]
    by (simp_all add: fix_prev_fields fields)
  show "blk_size m b = (if b = x then need else blk_size (hmem st) b) \<and> blk_magic m b = blk_magic (hmem st) b
      \<and> blk_next_free m b = blk_next_free (hmem st) b
      \<and> blk_prev m b = (if b = after \<and> after < heap_end st then rm else blk_prev (hmem st) b)"
    if "apart rm b" "b = x \<or> apart x b" "after < heap_end st \<Longrightarrow> after = b \<or> apart after b"
    using that rm(4) unfolding m_def split_mem_def Let_def rm_def[symmetric] after_def[symmetric]
    by (cases "after < heap_end st"; cases "b = x"; cases "b = after"; auto simp: fix_prev_def fields)
qed

lemma core_split_blk:
  assumes core: "core st (us @ (x, sz, f) # vs) fl"
    and need: "48 \<le> unat need" "16 dvd unat need" "unat need + 64 \<le> sz"
  defines "rm \<equiv> x + unat need"
  defines "cs \<equiv> us @ (x, unat need, f) # (rm, sz - unat need, True) # vs"
  shows "core (split_blk x need st) cs (rm # fl)" 
    and "steady (extents (us @ (x, unat need, f) # vs)) st (split_blk x need st)"
proof -
  let ?bs = "us @ (x, sz, f) # vs" and ?mid = "[(x, unat need, f), (rm, sz - unat need, True)]"
  define after m where "after = x + sz" and "m = split_mem x need st"
  have til: "tiles (heap_start st) ?bs (heap_end st)" and hd: "hdrs (hmem st) 0 ?bs"
    using core by (simp_all add: core_def)
  have til': "tiles (heap_start st) cs (heap_end st)"
    using til need unfolding cs_def rm_def by (auto simp: tiles_append intro: dvd_diff_nat)
  have til2: "tiles (heap_start st) ((us @ [(x, unat need, f)]) @ (rm, sz - unat need, True) # vs) (heap_end st)"
    using til' by (simp add: cs_def)
  have til_vs: "tiles after vs (heap_end st)" using til by (auto simp: tiles_append after_def)
  have sz: "unat (blk_size (hmem st) x) = sz" using core_size(1)[OF core, of x sz f] by simp
  have x63: "x < 2 ^ 63" using core tiles_addrs[OF til, of x] by (auto simp: core_def heap_bounds_def)
  note S = split_mem_fields[OF need(3)[folded sz] need(1) x63 core_head[OF core], unfolded sz,
      folded rm_def after_def m_def]
  have in_cs: "x \<in> addrs cs" "rm \<in> addrs cs" "addrs vs \<subseteq> addrs cs" "addrs us \<subseteq> addrs cs"
    by (auto simp: cs_def)
  have aft: "after \<in> addrs cs" if "after < heap_end st"
    using that tiles_fresh(4)[OF til] in_cs by (auto simp: after_def)
  have F: "blk_size m b = (if b = x then need else blk_size (hmem st) b) \<and> blk_magic m b = blk_magic (hmem st) b
      \<and> blk_next_free m b = blk_next_free (hmem st) b
      \<and> blk_prev m b = (if b = after \<and> after < heap_end st then rm else blk_prev (hmem st) b)"
    if "b \<in> addrs cs" "b \<noteq> rm" for b
    using apart_cases[OF til' in_cs(2) that(1)] apart_cases[OF til' in_cs(1) that(1)]
      apart_cases[OF til' aft that(1)] that(2) by (intro S(5)) auto
  have neq: "x \<noteq> rm" "x \<noteq> after" using need by (auto simp: rm_def after_def)
  have rm: "rm \<notin> addrs us" "rm \<notin> addrs vs" using tiles_fresh(1,2)[OF til2] by auto
  then have fls: "set fl \<subseteq> addrs cs" "rm \<notin> set fl" using core neq by (auto simp: core_def cs_def)
  have "core (st\<lparr>hmem := m\<rparr>) (us @ ?mid @ vs) fl"
  proof (rule core_retile[where old = "[(x, sz, f)]" and after = after])
    show "hdrs m (last_addr 0 us) ?mid"
      using hd F[OF in_cs(1) neq(1)] S(1-4) neq by (auto simp: hdrs_append)
    show "blk_next_free m b = blk_next_free (hmem st) b" if "b \<in> set fl" for b
      using F[of b] fls that by auto
    show "blk_size m b = blk_size (hmem st) b \<and> blk_magic m b = blk_magic (hmem st) b
      \<and> blk_prev m b = (if b = after \<and> after < heap_end st then last_addr 0 (us @ ?mid)
          else blk_prev (hmem st) b)" if b: "b \<in> addrs us \<union> addrs vs" for b
    proof -
      have "b \<in> addrs cs" "b \<noteq> rm" "b \<noteq> x" using b rm in_cs tiles_fresh(1,2)[OF til] by auto
      then show ?thesis using F[of b] by (simp add: last_addr_def)
    qed
  qed (use core til' til_vs fls in \<open>simp_all add: cs_def\<close>)
  from core_push[OF this, of rm] S(3) fls
  show "core (split_blk x need st) cs (rm # fl)"
    using split_blk_state[of need st x] need sz by (simp add: cs_def m_def rm_def)
  have "steady (extents cs) st (st\<lparr>hmem := m, free_list_head := rm\<rparr>)"
  proof (rule steady_headers[OF til'])
    fix y assume y: "\<forall>c\<in>addrs cs. y < c \<or> c + 24 \<le> y"
    show "m y = hmem st y" unfolding m_def split_mem_def Let_def sz rm_def[symmetric] after_def[symmetric]
      using y aft in_cs by (cases "after < heap_end st") (simp_all add: set_field_other fix_prev_def)
  qed
  then show "steady (extents (us @ (x, unat need, f) # vs)) st (split_blk x need st)"
    using split_blk_state[of need st x] need sz by (auto simp: cs_def m_def rm_def elim: steady_mono)
qed

lemma split_blk_skip:
  assumes "unat (blk_size (hmem st) x) < unat need + 64" and "unat need + 64 < 2 ^ 32"
  shows "split_blk x need st = st"
proof -
  have "unat (need + 64) = unat need + 64" using assms(2) by (subst unat_add32_no_wrap) auto
  then show ?thesis using assms(1) by (simp add: split_blk_def SPLIT_THRESH_def word_le_nat_alt)
qed

end
