(* ===== verification/Heap_Ops.thy ===== *)
theory Heap_Ops
  imports Heap_Steps
begin

text \<open>
  What the heap promises, on the abstract view. \<open>heap_rep\<close> is the full invariant: the core, a
  free list that holds exactly the free blocks, and no two adjacent free blocks. Allocation
  carves a block out of the first free block of the free list that fits; freeing marks the block
  free and merges all runs of free blocks.
\<close>

section \<open>Abstract specification\<close>

definition free_addrs :: "blk list \<Rightarrow> addr set" where
  "free_addrs bs = {b. \<exists>sz. (b, sz, True) \<in> set bs}"

definition coalesced :: "blk list \<Rightarrow> bool" where
  "coalesced = successively (\<lambda>x y. \<not> (snd (snd x) \<and> snd (snd y)))"

definition heap_rep :: "heap \<Rightarrow> blk list \<Rightarrow> addr list \<Rightarrow> bool" where
  "heap_rep st bs fl \<longleftrightarrow> core st bs fl \<and> set fl = free_addrs bs \<and> coalesced bs"

text \<open>The first block of the free list with at least \<open>n\<close> bytes.\<close>

definition fits :: "blk list \<Rightarrow> nat \<Rightarrow> addr \<Rightarrow> bool" where
  "fits bs n x \<longleftrightarrow> (\<exists>(b, sz, fr) \<in> set bs. b = x \<and> n \<le> sz)"

fun carve :: "nat \<Rightarrow> addr \<Rightarrow> blk list \<Rightarrow> blk list" where
  "carve n x [] = []"
| "carve n x ((b, sz, fr) # bs) =
     (if b = x then (if n + 64 \<le> sz then (b, n, False) # (b + n, sz - n, True) # bs
                     else (b, sz, False) # bs)
      else (b, sz, fr) # carve n x bs)"

text \<open>Marking a block free and merging runs of free blocks.\<close>

fun release :: "addr \<Rightarrow> blk list \<Rightarrow> blk list" where
  "release x [] = []"
| "release x ((b, sz, fr) # bs) = (if b = x then (b, sz, True) # bs else (b, sz, fr) # release x bs)"

fun glue :: "blk \<Rightarrow> blk list \<Rightarrow> blk list" where
  "glue x [] = [x]"
| "glue (a, s, f) ((b, t, g) # bs) =
     (if f \<and> g then (a, s + t, True) # bs else (a, s, f) # (b, t, g) # bs)"

definition merge_runs :: "blk list \<Rightarrow> blk list" where
  "merge_runs bs = foldr glue bs []"

section \<open>Lemmas on the abstract operations\<close>

lemma coalesced_simps [simp]:
  "coalesced []" "coalesced [x]"
  "coalesced (x # y # bs) \<longleftrightarrow> \<not> (snd (snd x) \<and> snd (snd y)) \<and> coalesced (y # bs)"
  by (auto simp: coalesced_def)

lemma coalesced_append:
  "coalesced (us @ vs) \<longleftrightarrow> coalesced us \<and> coalesced vs
     \<and> (us = [] \<or> vs = [] \<or> \<not> (snd (snd (last us)) \<and> snd (snd (hd vs))))"
  by (auto simp: coalesced_def successively_append_iff)

lemma free_addrs_simps [simp]:
  "free_addrs [] = {}"
  "free_addrs ((b, sz, fr) # bs) = (if fr then insert b (free_addrs bs) else free_addrs bs)"
  "free_addrs (us @ vs) = free_addrs us \<union> free_addrs vs"
  by (auto simp: free_addrs_def)

lemma free_addrs_subset: "free_addrs bs \<subseteq> addrs bs"
  unfolding free_addrs_def addrs_iff subset_iff by blast

lemma carve_append:
  "x \<notin> addrs us \<Longrightarrow> carve n x (us @ (x, sz, fr) # vs) =
     us @ (if n + 64 \<le> sz then (x, n, False) # (x + n, sz - n, True) # vs else (x, sz, False) # vs)"
  by (induction us) auto

lemma release_append:
  "x \<notin> addrs us \<Longrightarrow> release x (us @ (x, sz, fr) # vs) = us @ (x, sz, True) # vs"
  by (induction us) auto

lemma merge_runs_simps [simp]: "merge_runs [] = []" "merge_runs (x # bs) = glue x (merge_runs bs)"
  by (simp_all add: merge_runs_def)

lemma coalesced_glue: "coalesced cs \<Longrightarrow> coalesced (glue x cs)"
  by (induction x cs rule: glue.induct) (auto simp: coalesced_def successively_Cons)

lemma coalesced_merge_runs: "coalesced (merge_runs bs)"
  by (induction bs) (auto intro: coalesced_glue)

lemma glue_coalesced: "coalesced (x # cs) \<Longrightarrow> glue x cs = x # cs"
  by (induction x cs rule: glue.induct) auto

lemma coalesced_ConsD: "coalesced (x # bs) \<Longrightarrow> coalesced bs"
  by (cases bs) auto

lemma merge_runs_coalesced: "coalesced bs \<Longrightarrow> merge_runs bs = bs"
proof (induction bs)
  case (Cons x bs)
  then show ?case using coalesced_ConsD[OF Cons.prems] glue_coalesced[OF Cons.prems] by simp
qed simp

lemma merge_runs_append_live:
  assumes "coalesced us" and "us = [] \<or> \<not> snd (snd (last us))"
  shows "merge_runs (us @ vs) = us @ merge_runs vs"
  using assms
proof (induction us)
  case (Cons u us)
  obtain a s f where u: "u = (a, s, f)" by (cases u)
  show ?case
  proof (cases us)
    case Nil
    then show ?thesis using Cons.prems u by (cases "merge_runs vs") auto
  next
    case (Cons w ws)
    then have "merge_runs (us @ vs) = us @ merge_runs vs"
      using Cons.IH Cons.prems by auto
    then show ?thesis using Cons Cons.prems u by (cases w) auto
  qed
qed simp

text \<open>A run that starts after a coalesced list merges with the last block of that list at most.\<close>

lemma merge_runs_at:
  assumes "coalesced us" and "merge_runs vs = (x, t, True) # ws"
  shows "us = [] \<or> \<not> snd (snd (last us)) \<Longrightarrow> merge_runs (us @ vs) = us @ (x, t, True) # ws"
    and "us = rs @ [(p, r, True)] \<Longrightarrow> merge_runs (us @ vs) = rs @ (p, r + t, True) # ws"
proof -
  show "us = [] \<or> \<not> snd (snd (last us)) \<Longrightarrow> merge_runs (us @ vs) = us @ (x, t, True) # ws"
    using merge_runs_append_live assms by simp
  have "merge_runs (rs @ (p, r, True) # vs) = rs @ merge_runs ((p, r, True) # vs)"
    if "us = rs @ [(p, r, True)]"
    using assms(1) that by (intro merge_runs_append_live) (auto simp: coalesced_append)
  then show "us = rs @ [(p, r, True)] \<Longrightarrow> merge_runs (us @ vs) = rs @ (p, r + t, True) # ws"
    using assms(2) by simp
qed

lemma merge_runs_glue:
  "coalesced (x # vs) \<Longrightarrow> merge_runs (y # vs) = glue y vs"
  by (metis coalesced_ConsD merge_runs_coalesced merge_runs_simps(2))

lemma glue_free:
  obtains t ws where "glue (x, s, True) vs = (x, t, True) # ws" and "\<And>b z. (b, z, False) \<in> set ws \<longleftrightarrow> (b, z, False) \<in> set vs"
proof (cases vs)
  case (Cons v vs')
  obtain a b c where "v = (a, b, c)" by (cases v)
  then show thesis using that Cons by (cases c) auto
qed (use that in auto)

section \<open>Block sizes of a request\<close>

lemma ALIGN16_nat: "unat n + 15 < 2 ^ 32 \<Longrightarrow> unat (ALIGN16 n) = (unat n + 15) div 16 * 16"
proof -
  assume lt: "unat n + 15 < 2 ^ 32"
  then have "unat (n + 15) = unat n + 15" by (simp add: unat_word_ariths)
  then show ?thesis
    using unat_and_mask32[of "n + 15" "0xFFFFFFF0" 4] lt
    by (simp add: ALIGN16_def mask_eq_exp_minus_1 minus_mod_eq_div_mult)
qed

definition blk_need :: "nat \<Rightarrow> nat" where "blk_need n = (n + 15) div 16 * 16 + 32"

lemma blk_need_bounds: "0 < n \<Longrightarrow> 48 \<le> blk_need n" "16 dvd blk_need n" "n + 32 \<le> blk_need n" "blk_need n \<le> n + 47"
  by (auto simp: blk_need_def)

lemma need_nat:
  assumes "unat sz \<le> 2 ^ 31"
  shows "unat (kmalloc_need sz) = blk_need (unat sz + 4)" and "unat (krealloc_need sz) = blk_need (unat sz)"
proof -
  have a: "unat (sz + 4) = unat sz + 4" using assms by (simp add: unat_word_ariths)
  have "unat (ucast (ALIGN16 n) + HDR_SIZE :: u32) = blk_need (unat n)" if "unat n \<le> 2 ^ 31 + 4" for n
  proof -
    have "unat (ALIGN16 n) = (unat n + 15) div 16 * 16" using that by (intro ALIGN16_nat) simp
    moreover have "(unat n + 15) div 16 * 16 \<le> unat n + 15" by simp
    ultimately show ?thesis using that
      by (subst unat_add32_no_wrap) (simp_all add: HDR_SIZE_def blk_need_def)
  qed
  from this[of "sz + 4"] this[of sz]
  show "unat (kmalloc_need sz) = blk_need (unat sz + 4)" "unat (krealloc_need sz) = blk_need (unat sz)"
    using assms a by (auto simp: kmalloc_need_def krealloc_need_def Let_def CANARY_SZ_def MIN_BLOCK_def
        word_less_nat_alt blk_need_def)
qed


section \<open>Frames\<close>

text \<open>
  A heap operation keeps the bounds, the bytes outside the heap and the bytes of the blocks in
  \<open>B\<close>; unlike \<open>steady\<close> it may change counters and the log.
\<close>

definition preserves :: "(addr \<times> nat) set \<Rightarrow> heap \<Rightarrow> heap \<Rightarrow> bool" where
  "preserves B st st' \<longleftrightarrow> heap_start st' = heap_start st \<and> heap_end st' = heap_end st
     \<and> keeps (hmem st) (hmem st') B
     \<and> (\<forall>y. y < heap_start st \<or> heap_end st \<le> y \<longrightarrow> hmem st' y = hmem st y)"

lemma steady_preserves: "steady B st st' \<Longrightarrow> preserves B st st'"
  using steady_bounds[of B st st'] by (simp add: preserves_def steady_def)

lemma preserves_trans: "preserves B s1 s2 \<Longrightarrow> preserves B s2 s3 \<Longrightarrow> preserves B s1 s3"
  using keeps_trans[of "hmem s1" "hmem s2" B "hmem s3"] by (simp add: preserves_def)

lemma preserves_mono: "preserves B st st' \<Longrightarrow> C \<subseteq> B \<Longrightarrow> preserves C st st'"
  by (fastforce simp: preserves_def keeps_def)

definition others :: "addr \<Rightarrow> blk list \<Rightarrow> (addr \<times> nat) set" where
  "others x bs = {(b, sz) \<in> extents bs. b \<noteq> x}"

lemma others_split:
  assumes "tiles a (us @ (x, sz, f) # vs) e"
  shows "others x (us @ (x, sz, f) # vs) = extents us \<union> extents vs"
proof -
  have "b \<in> addrs ws" if "(b, tz) \<in> extents ws" for b tz ws
    using that by (auto simp: extents_def addrs_iff)
  with tiles_fresh(1,2)[OF assms] show ?thesis by (auto simp: others_def)
qed

lemma core_cong:
  "hmem st' = hmem st \<Longrightarrow> heap_start st' = heap_start st \<Longrightarrow> heap_end st' = heap_end st \<Longrightarrow>
     free_list_head st' = free_list_head st \<Longrightarrow> core st' bs fl = core st bs fl"
  by (simp add: core_def heap_bounds_def)

lemma core_log [simp]: "core (st\<lparr>hlog := l\<rparr>) bs fl = core st bs fl"
  by (rule core_cong) simp_all

lemma heap_rep_log [simp]: "heap_rep (st\<lparr>hlog := l\<rparr>) bs fl = heap_rep st bs fl"
  by (simp add: heap_rep_def)

lemma track_frame [simp]:
  "hmem (track_alloc n st) = hmem st" "hmem (track_free n st) = hmem st"
  "heap_start (track_alloc n st) = heap_start st" "heap_start (track_free n st) = heap_start st"
  "heap_end (track_alloc n st) = heap_end st" "heap_end (track_free n st) = heap_end st"
  "free_list_head (track_alloc n st) = free_list_head st"
  "free_list_head (track_free n st) = free_list_head st"
  by (simp_all add: track_alloc_def track_free_def Let_def)

lemma core_track [simp]:
  "core (track_alloc n st) bs fl = core st bs fl" "core (track_free n st) bs fl = core st bs fl"
  by (rule core_cong; simp)+

text \<open>Writes after the header of one block, such as canaries, poison and the owner's own data.\<close>

lemma payload_write:
  assumes "core st bs fl" and "(x, sz, f) \<in> set bs"
    and out: "\<And>y. y < x + 24 \<or> x + sz \<le> y \<Longrightarrow> m' y = hmem st y"
  shows "core (st\<lparr>hmem := m'\<rparr>) bs fl" and "preserves (others x bs) st (st\<lparr>hmem := m'\<rparr>)"
proof -
  have til: "tiles (heap_start st) bs (heap_end st)" using assms(1) by (simp add: core_def)
  have mem: "heap_start st \<le> x" "x + sz \<le> heap_end st" using tiles_member[OF til assms(2)] by auto
  show "core (st\<lparr>hmem := m'\<rparr>) bs fl"
  proof (rule core_payload_write[OF assms(1)])
    fix y assume "\<exists>c\<in>addrs bs. c \<le> y \<and> y < c + 24"
    then obtain c where c: "c \<in> addrs bs" "c \<le> y" "y < c + 24" by blast
    have "(x, sz) \<in> extents bs" using assms(2) by (force simp: extents_def)
    from header_outside[OF til this c(1)] c(2,3) show "m' y = hmem st y"
      by (intro out) (meson leD not_le_imp_less)
  qed
  have "m' y = hmem st y" if o: "(b, tz) \<in> others x bs" and y: "b + 24 \<le> y" "y < b + tz" for b tz y
  proof (rule out)
    obtain g where "(b, tz, g) \<in> set bs" "b \<noteq> x" using o by (auto simp: others_def extents_def)
    with tiles_disjoint[OF til this(1) assms(2)] y show "y < x + 24 \<or> x + sz \<le> y" by auto
  qed
  then show "preserves (others x bs) st (st\<lparr>hmem := m'\<rparr>)"
    using out mem by (auto simp: preserves_def keeps_def)
qed

lemma tail_write_eq:
  assumes "unat (blk_size m x) = sz" and "48 \<le> sz"
  shows "tail_write x m = store32 m (x + sz - 4) TAIL_MAGIC"
  using assms by (simp add: tail_write_def tail_canary_ptr_def HDR_SIZE_def CANARY_SZ_def word_less_nat_alt)

lemma tail_ok_iff:
  assumes "unat (blk_size m x) = sz" and "48 \<le> sz"
  shows "tail_ok m x \<longleftrightarrow> load32 m (x + sz - 4) = TAIL_MAGIC"
  using assms by (simp add: tail_ok_def tail_canary_ptr_def HDR_SIZE_def CANARY_SZ_def word_le_nat_alt)

section \<open>Allocation\<close>

lemma fits_iff:
  assumes "core st bs fl" and "x \<in> addrs bs"
  shows "fits bs (unat need) x \<longleftrightarrow> need \<le> blk_size (hmem st) x"
proof -
  obtain sz fr where m: "(x, sz, fr) \<in> set bs" using assms(2) by (auto simp: addrs_iff)
  have "tiles (heap_start st) bs (heap_end st)" using assms(1) by (simp add: core_def)
  from tiles_unique[OF this m] m have "fits bs (unat need) x \<longleftrightarrow> unat need \<le> sz"
    unfolding fits_def by blast
  then show ?thesis using core_size(1)[OF assms(1) m] by (simp add: word_le_nat_alt)
qed

lemma first_fit_rep:
  assumes "core st bs fl"
  shows "first_fit (hmem st) need (free_list_head st) =
    Some (case List.find (fits bs (unat need)) fl of None \<Rightarrow> 0 | Some x \<Rightarrow> x)"
proof -
  have "fl_seg (hmem st) (free_list_head st) fl 0" "set fl \<subseteq> addrs bs" using assms by (auto simp: core_def)
  moreover from this have "List.find (\<lambda>x. need \<le> blk_size (hmem st) x) fl = List.find (fits bs (unat need)) fl"
    using fits_iff[OF assms] by (intro find_cong) blast
  ultimately show ?thesis by (simp add: first_fit_eq)
qed

lemma kmalloc_exhausted:
  assumes "core st bs fl" and "sz \<noteq> 0" and "limits_allow_alloc lim sz"
    and "List.find (fits bs (unat (kmalloc_need sz))) fl = None"
  shows "kmalloc lim sz st = Some (0, st\<lparr>hlog := HeapExhausted (kmalloc_need sz) # hlog st\<rparr>)"
  using assms by (simp add: kmalloc_def first_fit_rep)

text \<open>The block that a request of \<open>n\<close> bytes gets out of a free block of \<open>sz\<close> bytes.\<close>

definition got :: "nat \<Rightarrow> nat \<Rightarrow> nat" where "got n sz = (if n + 64 \<le> sz then n else sz)"

lemma split_step:
  assumes core: "core st (us @ (x, sz, f) # vs) fl" and "unat need \<le> sz"
    and need: "48 \<le> unat need" "16 dvd unat need"
  defines "cs \<equiv> (if unat need + 64 \<le> sz then (x + unat need, sz - unat need, True) # vs else vs)"
  shows "core (split_blk x need st) (us @ (x, got (unat need) sz, f) # cs)
      (if unat need + 64 \<le> sz then (x + unat need) # fl else fl)
    \<and> steady (insert (x, got (unat need) sz) (extents us \<union> extents vs)) st (split_blk x need st)"
proof (cases "unat need + 64 \<le> sz")
  case True
  then show ?thesis
    using core_split_blk[OF core need True] by (simp add: got_def cs_def)
next
  case False
  have "split_blk x need st = st"
    using False assms(2) core_size[OF core, of x sz f] by (intro split_blk_skip) auto
  then show ?thesis using False core by (simp add: got_def cs_def)
qed

text \<open>Taking over a block: the magic number and the canary.\<close>

lemma claim_step:
  assumes core: "core st (us @ (x, sz, f) # vs) fl"
  defines "m \<equiv> tail_write x (set_blk_magic x ALLOC_MAGIC (hmem st))"
  shows "core (st\<lparr>hmem := m\<rparr>) (us @ (x, sz, False) # vs) fl"
    and "preserves (extents us \<union> extents vs) st (st\<lparr>hmem := m\<rparr>)"
    and "tail_ok m x" and "unat (blk_size m x) = sz"
proof -
  let ?bs = "us @ (x, sz, False) # vs" and ?m1 = "set_blk_magic x ALLOC_MAGIC (hmem st)"
  let ?st1 = "st\<lparr>hmem := ?m1\<rparr>"
  have til: "tiles (heap_start st) (us @ (x, sz, f) # vs) (heap_end st)"
    using core by (simp add: core_def)
  have sz48: "48 \<le> sz" using tiles_member[OF til, of x sz f] by simp
  note c1 = core_set_magic[OF core, of ALLOC_MAGIC False, simplified]
  have s1: "unat (blk_size ?m1 x) = sz" using core_size(1)[OF c1(1), of x sz False] by simp
  have m: "m = store32 ?m1 (x + sz - 4) TAIL_MAGIC"
    unfolding m_def using tail_write_eq[OF s1 sz48] .
  have out: "m y = hmem ?st1 y" if "y < x + 24 \<or> x + sz \<le> y" for y
    unfolding m using that sz48 by (auto intro!: store32_other)
  have til1: "tiles (heap_start st) ?bs (heap_end st)" using c1(1) by (simp add: core_def)
  note w = payload_write[OF c1(1) _ out, of x sz False, simplified]
  show "core (st\<lparr>hmem := m\<rparr>) ?bs fl" using w(1) by simp
  have "preserves (extents us \<union> extents vs) st ?st1"
    using c1(2) by (intro steady_preserves) (auto elim: steady_mono)
  moreover have "preserves (extents us \<union> extents vs) ?st1 (st\<lparr>hmem := m\<rparr>)"
    using w(2) others_split[OF til1] by simp
  ultimately show "preserves (extents us \<union> extents vs) st (st\<lparr>hmem := m\<rparr>)"
    by (rule preserves_trans)
  show "unat (blk_size m x) = sz" using core_size(1)[OF w(1), of x sz False] by simp
  then show "tail_ok m x" using sz48 by (subst tail_ok_iff) (auto simp: m)
qed


text \<open>
  A successful allocation: the first block of the free list that fits is carved, the new block
  carries a valid canary, and every other block keeps its bytes.
\<close>

lemma kmalloc_carves:
  assumes rep: "heap_rep st bs fl" and sz: "sz \<noteq> 0" "unat sz \<le> 2 ^ 31" and lim: "limits_allow_alloc lim sz"
    and find: "List.find (fits bs (blk_need (unat sz + 4))) fl = Some x"
  obtains st' fl' s where "kmalloc lim sz st = Some (x + 32, st')"
    and "heap_rep st' (carve (blk_need (unat sz + 4)) x bs) fl'"
    and "preserves (others x bs) st st'" and "tail_ok (hmem st') x"
    and "(x, s, True) \<in> set bs" and "blk_need (unat sz + 4) \<le> s"
    and "\<exists>m h. st' = track_alloc (of_nat (got (blk_need (unat sz + 4)) s)) (st\<lparr>hmem := m, free_list_head := h\<rparr>)"
proof -
  define need n where "need = kmalloc_need sz" and "n = blk_need (unat sz + 4)"
  have n: "unat need = n" using need_nat(1)[OF sz(2)] by (simp add: need_def n_def)
  have nb: "48 \<le> unat need" "16 dvd unat need" using n blk_need_bounds[of "unat sz + 4"] by (simp_all add: n_def)
  have core: "core st bs fl" and free: "set fl = free_addrs bs" and co: "coalesced bs"
    using rep by (auto simp: heap_rep_def)
  have x: "x \<in> set fl" "fits bs n x" using find by (auto simp: find_Some_iff n_def[symmetric])
  then obtain s where s: "(x, s, True) \<in> set bs" using free by (auto simp: free_addrs_def)
  then obtain us vs where bs: "bs = us @ (x, s, True) # vs" by (metis split_list)
  have til: "tiles (heap_start st) (us @ (x, s, True) # vs) (heap_end st)"
    using core bs by (simp add: core_def)
  have ns: "unat need \<le> s"
  proof -
    have "x \<in> addrs bs" by (simp add: bs)
    from fits_iff[OF core this, of need] x(2) n core_size(1)[OF core s] show ?thesis
      by (simp add: word_le_nat_alt)
  qed
  obtain st1 where st1: "fl_remove x st = Some st1" and c1: "core st1 bs (remove1 x fl)"
    and k1: "steady (extents bs) st st1" by (rule core_fl_remove[OF core x(1)])
  define st2 where "st2 = split_blk x need st1"
  define cs where "cs = (if n + 64 \<le> s then (x + n, s - n, True) # vs else vs)"
  define fl2 where "fl2 = (if n + 64 \<le> s then (x + n) # remove1 x fl else remove1 x fl)"
  have c2: "core st2 (us @ (x, got n s, True) # cs) fl2" and k2: "steady (insert (x, got n s) (extents us \<union> extents vs)) st1 st2"
    using split_step[OF c1[unfolded bs] ns nb, unfolded n, folded st2_def cs_def fl2_def] by blast+
  define m where "m = tail_write x (set_blk_magic x ALLOC_MAGIC (hmem st2))"
  note c3 = claim_step[OF c2, folded m_def]
  have k: "steady (extents us \<union> extents vs) st st2"
    by (rule steady_trans[OF steady_mono[OF k1] steady_mono[OF k2]]) (auto simp: bs)
  have carve: "carve n x bs = us @ (x, got n s, False) # cs"
    using tiles_fresh(1)[OF til] by (simp add: bs carve_append got_def cs_def)
  define st' where "st' = track_alloc (blk_size m x) (st2\<lparr>hmem := m\<rparr>)"
  have "kmalloc lim sz st = Some (x + 32, st')"
  proof -
    have "x \<noteq> 0" using core_addr[OF core, of x] by (auto simp: bs)
    moreover have "first_fit (hmem st) need (free_list_head st) = Some x"
      using find by (simp add: first_fit_rep[OF core] n n_def)
    ultimately show ?thesis
      using sz lim st1 by (simp add: kmalloc_def need_def[symmetric] Let_def st2_def m_def st'_def
          payload_def HDR_SIZE_def)
  qed
  moreover have "heap_rep st' (carve n x bs) fl2"
  proof -
    have "x \<notin> free_addrs us" "x \<notin> free_addrs vs"
      using tiles_fresh(1,2)[OF til] free_addrs_subset by blast+
    moreover have "set (remove1 x fl) = set fl - {x}" using core by (simp add: core_def)
    ultimately have "set fl2 = free_addrs (us @ (x, got n s, False) # cs)"
      using free by (auto simp: fl2_def cs_def bs)
    moreover have "coalesced (us @ (x, got n s, False) # cs)"
      using co unfolding bs cs_def by (cases vs) (auto simp: coalesced_append)
    ultimately show ?thesis using c3(1) by (simp add: heap_rep_def carve st'_def)
  qed
  moreover have "preserves (others x bs) st st'"
  proof -
    have "extents us \<union> extents vs \<subseteq> extents us \<union> extents cs" by (auto simp: cs_def)
    from preserves_trans[OF steady_preserves[OF k] preserves_mono[OF c3(2) this]]
    have "preserves (extents us \<union> extents vs) st (st2\<lparr>hmem := m\<rparr>)" .
    then show ?thesis using others_split[OF til] by (simp add: bs st'_def preserves_def)
  qed
  moreover have "tail_ok (hmem st') x" using c3(3) by (simp add: st'_def)
  moreover have "\<exists>m h. st' = track_alloc (of_nat (got n s)) (st\<lparr>hmem := m, free_list_head := h\<rparr>)"
  proof -
    have "blk_size m x = of_nat (got n s)" using c3(4) by (metis of_nat_unat ucast_id)
    moreover have "st2\<lparr>hmem := m\<rparr> = st\<lparr>hmem := m, free_list_head := free_list_head st2\<rparr>"
      using k unfolding steady_def by (cases st; cases st2) simp
    ultimately show ?thesis unfolding st'_def by metis
  qed
  ultimately show thesis using that s ns by (simp add: n n_def)
qed


section \<open>Freeing\<close>

definition live :: "blk list \<Rightarrow> (addr \<times> nat) set" where
  "live bs = {(b, sz). (b, sz, False) \<in> set bs}"

lemma live_simps [simp]:
  "live [] = {}" "live ((b, sz, fr) # bs) = (if fr then live bs else insert (b, sz) (live bs))"
  "live (us @ vs) = live us \<union> live vs"
  by (auto simp: live_def)

lemma live_extents: "live bs \<subseteq> extents bs"
  by (force simp: live_def extents_def)

lemma live_member: "(b, sz) \<in> live bs \<longleftrightarrow> (b, sz, False) \<in> set bs"
  by (simp add: live_def)

lemma FREE_neq_ALLOC [simp]: "FREE_MAGIC \<noteq> ALLOC_MAGIC" "ALLOC_MAGIC \<noteq> FREE_MAGIC"
  by (simp_all add: FREE_MAGIC_def ALLOC_MAGIC_def)

lemma core_magic:
  "core st bs fl \<Longrightarrow> (b, sz, fr) \<in> set bs \<Longrightarrow> blk_magic (hmem st) b = (if fr then FREE_MAGIC else ALLOC_MAGIC)"
  using hdrs_member by (fastforce simp: core_def)

lemma core_free_remove:
  assumes "core st (us @ (h, s1, f) # (n, s2, True) # vs) fl"
    and "set fl = free_addrs (us @ (h, s1, f) # (n, s2, True) # vs)"
  shows "n \<in> set fl" and "set (remove1 n fl) = free_addrs (us @ (h, s1 + s2, f) # vs)"
proof -
  have til: "tiles (heap_start st) (us @ (h, s1, f) # (n, s2, True) # vs) (heap_end st)"
    and dist: "distinct fl" using assms(1) by (auto simp: core_def)
  then have "tiles (heap_start st) ((us @ [(h, s1, f)]) @ (n, s2, True) # vs) (heap_end st)" by simp
  from tiles_fresh(1,2)[OF this] have "n \<noteq> h" "n \<notin> free_addrs us" "n \<notin> free_addrs vs"
    using free_addrs_subset by auto
  then show "n \<in> set fl" "set (remove1 n fl) = free_addrs (us @ (h, s1 + s2, f) # vs)"
    using assms(2) dist by auto
qed

lemma coalesce_next_step:
  assumes core: "core st (us @ (x, s, True) # vs) fl" and fl: "set fl = free_addrs (us @ (x, s, True) # vs)"
  obtains st' fl' where "coalesce_next x st = Some st'" and "core st' (us @ glue (x, s, True) vs) fl'"
    and "set fl' = free_addrs (us @ glue (x, s, True) vs)" and "steady (live us \<union> live vs) st st'"
proof -
  have til: "tiles (heap_start st) (us @ (x, s, True) # vs) (heap_end st)" using core by (simp add: core_def)
  have nb: "next_blk (hmem st) x = x + s" using core_size(1)[OF core, of x s True] by (simp add: next_blk_def)
  show thesis
  proof (cases "\<exists>n t ws. vs = (n, t, True) # ws")
    case True
    then obtain n t ws where vs: "vs = (n, t, True) # ws" by blast
    have n: "n = x + s" "n < heap_end st" using tiles_next[OF til] vs by auto
    have mg: "blk_magic (hmem st) n = FREE_MAGIC" using core_magic[OF core, of n t True] vs by simp
    note rm = core_free_remove[OF core[unfolded vs] fl[unfolded vs]]
    obtain st' where "absorb_next x n st = Some st'" "core st' (us @ (x, s + t, True) # ws) (remove1 n fl)"
      "steady (extents (us @ (x, s, True) # (n, t, True) # ws)) st st'"
      by (rule core_absorb_next[OF core[unfolded vs] rm(1)])
    moreover have "live us \<union> live vs \<subseteq> extents (us @ (x, s, True) # (n, t, True) # ws)"
      using live_extents vs by fastforce
    ultimately show thesis
      using that[of st' "remove1 n fl"] rm(2) n nb mg vs
      by (simp add: coalesce_next_def steady_mono)
  next
    case False
    then have glue: "glue (x, s, True) vs = (x, s, True) # vs" by (cases vs) auto
    have "coalesce_next x st = Some st"
    proof (cases vs)
      case Nil
      then show ?thesis using tiles_next[OF til] nb by (simp add: coalesce_next_def)
    next
      case (Cons v ws)
      obtain n t g where v: "v = (n, t, g)" by (cases v)
      have "\<not> g" "n = x + s" using False tiles_next[OF til] Cons v by auto
      then show ?thesis using core_magic[OF core, of n t g] Cons v nb by (simp add: coalesce_next_def Let_def)
    qed
    then show thesis using that[of st fl] core fl glue by simp
  qed
qed

lemma coalesce_prev_step:
  assumes core: "core st (us @ (x, s, True) # vs) fl" and fl: "set fl = free_addrs (us @ (x, s, True) # vs)"
  obtains st' fl' cs where "coalesce_prev x st = Some st'" and "core st' cs fl'" and "set fl' = free_addrs cs"
    and "steady (live us \<union> live vs) st st'"
    and "\<forall>rs p r. us = rs @ [(p, r, True)] \<longrightarrow> cs = rs @ (p, r + s, True) # vs"
    and "us = [] \<or> \<not> snd (snd (last us)) \<longrightarrow> cs = us @ (x, s, True) # vs"
    and "blk_magic (hmem st') x = FREE_MAGIC"
proof -
  have pr: "blk_prev (hmem st) x = last_addr 0 us" using core by (simp add: core_def hdrs_append)
  show thesis
  proof (cases "\<exists>rs p r. us = rs @ [(p, r, True)]")
    case True
    then obtain rs p r where us: "us = rs @ [(p, r, True)]" by blast
    have core': "core st (rs @ (p, r, True) # (x, s, True) # vs) fl" using core us by simp
    have p: "p \<noteq> 0" "blk_magic (hmem st) p = FREE_MAGIC"
      using core_addr[OF core', of p] core_magic[OF core', of p r True] by auto
    have fl': "set fl = free_addrs (rs @ (p, r, True) # (x, s, True) # vs)" using fl us by simp
    note rm = core_free_remove[OF core' fl']
    obtain st' where st': "absorb_next p x st = Some st'" "core st' (rs @ (p, r + s, True) # vs) (remove1 x fl)"
      "steady (extents (rs @ (p, r, True) # (x, s, True) # vs)) st st'"
      by (rule core_absorb_next[OF core' rm(1)])
    have sub: "live us \<union> live vs \<subseteq> extents (rs @ (p, r, True) # (x, s, True) # vs)"
      using live_extents us by fastforce
    show thesis
    proof (rule that)
      show "coalesce_prev x st = Some st'" using p pr us st'(1) by (simp add: coalesce_prev_def Let_def)
      show "steady (live us \<union> live vs) st st'" using st'(3) sub by (rule steady_mono)
      show "blk_magic (hmem st') x = FREE_MAGIC" using absorb_keeps_magic[OF core' rm(1) st'(1)] by simp
    qed (use st'(2) rm(2) us in auto)
  next
    case False
    have "coalesce_prev x st = Some st"
    proof (cases us rule: rev_exhaust)
      case (snoc rs u)
      obtain p r g where u: "u = (p, r, g)" by (cases u)
      then have "\<not> g" using False snoc by blast
      then show ?thesis using core_magic[OF core, of p r g] snoc u pr by (simp add: coalesce_prev_def Let_def)
    qed (simp add: coalesce_prev_def pr)
    moreover have "blk_magic (hmem st) x = FREE_MAGIC" using core_magic[OF core, of x s True] by simp
    ultimately show thesis using False by (intro that[OF _ core fl]) auto
  qed
qed

end
