(* ===== verification/Heap_Correct.thy ===== *)
theory Heap_Correct
  imports Heap_Ops
begin

text \<open>
  Correctness of the heap operations: freeing, reallocation, the consistency walk and the
  accounting, and the properties of the allocator as its callers see it.
\<close>

section \<open>Freeing a live block\<close>

lemma poison_eq:
  "32 < unat sz \<Longrightarrow> poison p sz m = fill m p (unat sz - 32) POISON_BYTE"
  by (auto simp: poison_def HDR_SIZE_def Let_def word_less_nat_alt unat_sub word_le_nat_alt)

text \<open>The state after the accounting, the poisoning and the magic number.\<close>

definition marked_free :: "addr \<Rightarrow> heap \<Rightarrow> heap" where
  "marked_free x st =
     (let st1 = (if tail_ok (hmem st) x then st else st\<lparr>hlog := Overflow (x + 32) # hlog st\<rparr>);
          sz = blk_size (hmem st) x;
          st2 = track_free sz st1
      in st2\<lparr>hmem := set_blk_magic x FREE_MAGIC (poison (x + 32) sz (hmem st2))\<rparr>)"

lemma kfree_live_unfold:
  assumes "core st bs fl" and "(x, s, False) \<in> set bs"
  shows "kfree (x + 32) st =
    (case coalesce_next x (fl_prepend x (marked_free x st)) of None \<Rightarrow> None | Some st4 \<Rightarrow> coalesce_prev x st4)"
proof -
  have "tiles (heap_start st) bs (heap_end st)" using assms(1) by (simp add: core_def)
  then have "heap_start st \<le> x" "x < heap_end st" using tiles_member[OF _ assms(2)] by fastforce+
  then show ?thesis
    using core_magic[OF assms]
    by (simp add: kfree_def hdr_of_def HDR_SIZE_def marked_free_def Let_def)
qed

lemma core_marked_free:
  assumes core: "core st (us @ (x, s, False) # vs) fl"
  shows "core (marked_free x st) (us @ (x, s, True) # vs) fl"
    and "preserves (extents us \<union> extents vs) st (marked_free x st)"
proof -
  let ?bs = "us @ (x, s, False) # vs"
  have til: "tiles (heap_start st) ?bs (heap_end st)" using core by (simp add: core_def)
  have s48: "48 \<le> s" using tiles_member[OF til, of x s False] by simp
  have sz: "unat (blk_size (hmem st) x) = s" using core_size(1)[OF core, of x s False] by simp
  let ?m = "fill (hmem st) (x + 32) (s - 32) POISON_BYTE"
  have pz: "poison (x + 32) (blk_size (hmem st) x) (hmem st) = ?m"
    using poison_eq[of "blk_size (hmem st) x" "x + 32" "hmem st"] sz s48 by simp
  have out: "?m y = hmem st y" if "y < x + 24 \<or> x + s \<le> y" for y
    using that s48 by (auto intro!: fill_other)
  note w = payload_write[OF core _ out, of x s False, simplified]
  note c = core_set_magic[OF w(1), of FREE_MAGIC True, simplified]
  have mem: "hmem (marked_free x st) = set_blk_magic x FREE_MAGIC ?m"
    by (simp add: marked_free_def Let_def pz)
  have fr: "heap_start (marked_free x st) = heap_start st" "heap_end (marked_free x st) = heap_end st"
    "free_list_head (marked_free x st) = free_list_head st"
    by (simp_all add: marked_free_def Let_def)
  show "core (marked_free x st) (us @ (x, s, True) # vs) fl"
    using c(1) by (subst core_cong[where st = "st\<lparr>hmem := set_blk_magic x FREE_MAGIC ?m\<rparr>"]) (simp_all add: mem fr)
  have "preserves (extents us \<union> extents vs) st (st\<lparr>hmem := ?m\<rparr>)"
    using w(2) others_split[OF til] by simp
  moreover have "preserves (extents us \<union> extents vs) (st\<lparr>hmem := ?m\<rparr>) (st\<lparr>hmem := set_blk_magic x FREE_MAGIC ?m\<rparr>)"
    using steady_preserves[OF c(2)] by (rule preserves_mono) auto
  ultimately have "preserves (extents us \<union> extents vs) st (st\<lparr>hmem := set_blk_magic x FREE_MAGIC ?m\<rparr>)"
    by (rule preserves_trans)
  then show "preserves (extents us \<union> extents vs) st (marked_free x st)"
    by (simp add: preserves_def mem fr)
qed

lemma kfree_releases:
  assumes rep: "heap_rep st bs fl" and x: "(x, s, False) \<in> set bs"
  obtains st' fl' where "kfree (x + 32) st = Some st'"
    and "heap_rep st' (merge_runs (release x bs)) fl'"
    and "preserves (live bs - {(x, s)}) st st'"
    and "\<exists>m h. st' = marked_free x st\<lparr>hmem := m, free_list_head := h\<rparr>"
    and "blk_magic (hmem st') x = FREE_MAGIC"
proof -
  have core: "core st bs fl" and free: "set fl = free_addrs bs" and co: "coalesced bs"
    using rep by (auto simp: heap_rep_def)
  obtain us vs where bs: "bs = us @ (x, s, False) # vs" using x by (metis split_list)
  have til: "tiles (heap_start st) (us @ (x, s, False) # vs) (heap_end st)"
    using core bs by (simp add: core_def)
  note fresh = tiles_fresh(1,2)[OF til]
  have nfl: "x \<notin> set fl" using fresh free_addrs_subset free bs by auto
  have lv: "live bs - {(x, s)} \<subseteq> live us \<union> live vs" by (auto simp: bs)
  note c1 = core_marked_free[OF core[unfolded bs]]
  have "x \<in> addrs (us @ (x, s, True) # vs)" by simp
  note c2 = core_fl_prepend[OF c1(1) this nfl]
  have "set (x # fl) = free_addrs (us @ (x, s, True) # vs)" using free by (auto simp: bs)
  note next_step = coalesce_next_step[OF c2(1) this]
  obtain st4 fl4 where
    st4: "coalesce_next x (fl_prepend x (marked_free x st)) = Some st4"
    and c4: "core st4 (us @ glue (x, s, True) vs) fl4" "set fl4 = free_addrs (us @ glue (x, s, True) vs)"
    and k4: "steady (live us \<union> live vs) (fl_prepend x (marked_free x st)) st4" by (rule next_step)
  obtain t ws where gl: "glue (x, s, True) vs = (x, t, True) # ws" and ws: "live ws = live vs"
    by (rule glue_free[of x s vs]) (auto simp: live_def)
  obtain st5 fl5 cs where
    st5: "coalesce_prev x st4 = Some st5" and c5: "core st5 cs fl5" "set fl5 = free_addrs cs"
    and k5: "steady (live us \<union> live ws) st4 st5"
    and cs: "\<forall>rs p r. us = rs @ [(p, r, True)] \<longrightarrow> cs = rs @ (p, r + t, True) # ws"
      "us = [] \<or> \<not> snd (snd (last us)) \<longrightarrow> cs = us @ (x, t, True) # ws"
    and mg: "blk_magic (hmem st5) x = FREE_MAGIC"
    by (rule coalesce_prev_step[OF c4(1)[unfolded gl] c4(2)[unfolded gl]])
  have mr: "merge_runs ((x, s, True) # vs) = (x, t, True) # ws"
    using merge_runs_glue[of "(x, s, False)" vs] co gl by (auto simp: bs coalesced_append)
  have "coalesced us" using co by (simp add: bs coalesced_append)
  note at = merge_runs_at[OF this mr]
  have "cs = merge_runs (us @ (x, s, True) # vs)"
  proof (cases "us = [] \<or> \<not> snd (snd (last us))")
    case True
    then show ?thesis using at(1) cs(2) by simp
  next
    case False
    then obtain rs p r where "us = rs @ [(p, r, True)]" by (cases us rule: rev_exhaust) auto
    then show ?thesis using at(2) cs(1) by simp
  qed
  then have "cs = merge_runs (release x bs)" using fresh(1) by (simp add: bs release_append)
  then have rep5: "heap_rep st5 (merge_runs (release x bs)) fl5"
    using c5 coalesced_merge_runs by (simp add: heap_rep_def)
  have kf: "kfree (x + 32) st = Some st5"
    using kfree_live_unfold[OF core x] st4 st5 by simp
  have k: "steady (live us \<union> live vs) (fl_prepend x (marked_free x st)) st5"
    using k4 k5 ws by (metis steady_trans)
  have pres: "preserves (live bs - {(x, s)}) st st5"
  proof -
    have sub: "live us \<union> live vs \<subseteq> extents us \<union> extents vs" using live_extents by blast
    then have "live us \<union> live vs \<subseteq> extents (us @ (x, s, True) # vs)" by auto
    from preserves_trans[OF preserves_mono[OF c1(2) sub] preserves_mono[OF steady_preserves[OF c2(2)] this]]
    have "preserves (live us \<union> live vs) st (fl_prepend x (marked_free x st))" .
    from preserves_mono[OF preserves_trans[OF this steady_preserves[OF k]] lv] show ?thesis .
  qed
  have "st5 = marked_free x st\<lparr>hmem := hmem st5, free_list_head := free_list_head st5\<rparr>"
    using k unfolding steady_def fl_prepend_def by (cases st5; cases "marked_free x st") simp
  then show thesis by (intro that[OF kf rep5 pres _ mg] exI)
qed

section \<open>Refused frees\<close>

text \<open>Every other pointer is reported and changes nothing but the log.\<close>

lemma kfree_refused:
  assumes "p \<noteq> 0" and "p < 32 \<or> hdr_of p < heap_start st \<or> heap_end st \<le> hdr_of p
      \<or> blk_magic (hmem st) (hdr_of p) \<noteq> ALLOC_MAGIC"
  shows "kfree p st = Some (st\<lparr>hlog :=
    (if p < 32 \<or> hdr_of p < heap_start st \<or> heap_end st \<le> hdr_of p then FreeOutOfRange p
     else if blk_magic (hmem st) (hdr_of p) = FREE_MAGIC then DoubleFree p
     else BadMagic (blk_magic (hmem st) (hdr_of p)) p) # hlog st\<rparr>)"
  using assms by (auto simp: kfree_def Let_def HDR_SIZE_def)

end
