(* ===== verification/Heap_Walk.thy ===== *)
theory Heap_Walk
  imports Heap_Correct
begin

text \<open>
  The walks over the block chain: the two byte counts and the consistency check. On a
  well-formed heap they end, and they return exactly what the block list says.
\<close>

definition used_bytes :: "blk list \<Rightarrow> nat" where
  "used_bytes bs = (\<Sum>(b, sz, fr) \<leftarrow> bs. if fr then 0 else sz - 32)"

definition free_bytes :: "blk list \<Rightarrow> nat" where
  "free_bytes bs = (\<Sum>(b, sz, fr) \<leftarrow> bs. if fr then sz - 32 else 0)"

text \<open>The live blocks whose canary is damaged.\<close>

definition corrupt :: "mem \<Rightarrow> blk list \<Rightarrow> blk list" where
  "corrupt m bs = filter (\<lambda>(b, sz, fr). \<not> fr \<and> load32 m (b + sz - 4) \<noteq> TAIL_MAGIC) bs"

definition canaries :: "mem \<Rightarrow> blk list \<Rightarrow> bool" where
  "canaries m bs \<longleftrightarrow> (\<forall>(b, sz) \<in> live bs. load32 m (b + sz - 4) = TAIL_MAGIC)"

lemma corrupt_empty_iff: "corrupt m bs = [] \<longleftrightarrow> canaries m bs"
  by (auto simp: corrupt_def canaries_def live_def filter_empty_conv)

lemma hdr_sub: "48 \<le> unat w \<Longrightarrow> (ucast (w - HDR_SIZE) :: u64) = of_nat (unat w - 32)"
proof -
  assume "48 \<le> unat w"
  then have "unat (w - HDR_SIZE) = unat w - 32"
    by (subst unat_sub) (simp_all add: HDR_SIZE_def word_le_nat_alt)
  then show ?thesis by (metis unat_ucast_64_32 of_nat_unat ucast_id)
qed

lemma heap_sum_eq:
  assumes "tiles a bs e" and "hdrs m p bs"
  shows "heap_sum magic m e a acc = Some (acc + of_nat (\<Sum>(b, sz, fr) \<leftarrow> bs.
     if magic = (if fr then FREE_MAGIC else ALLOC_MAGIC) then sz - 32 else 0))"
  using assms
proof (induction a bs e arbitrary: p acc rule: tiles.induct)
  case (1 a e)
  then show ?case by (subst heap_sum.simps) simp
next
  case (2 a b sz fr bs e)
  then have lt: "a < e" and sz: "unat (blk_size m a) = sz" "48 \<le> sz" using tiles_le by fastforce+
  then have "blk_size m a \<noteq> 0" by auto
  then have "heap_sum magic m e a acc = heap_sum magic m e (a + sz)
      (if blk_magic m a = magic then acc + of_nat (sz - 32) else acc)"
    using lt sz hdr_sub[of "blk_size m a"] by (subst heap_sum.simps) (simp add: Let_def)
  with 2 show ?case by (auto simp: algebra_simps)
qed

lemma if_magic [simp]:
  "(if ALLOC_MAGIC = (if fr then FREE_MAGIC else ALLOC_MAGIC) then x else y) = (if fr then y else x)"
  "(if FREE_MAGIC = (if fr then FREE_MAGIC else ALLOC_MAGIC) then x else y) = (if fr then x else y)"
  by simp_all

lemma vmm_heap_used_eq: "core st bs fl \<Longrightarrow> vmm_heap_used st = Some (of_nat (used_bytes bs))"
  unfolding vmm_heap_used_def used_bytes_def core_def
  by (subst heap_sum_eq[where bs = bs and p = 0]) simp_all

lemma vmm_heap_reserved_eq: "core st bs fl \<Longrightarrow> vmm_heap_reserved st = Some (of_nat (free_bytes bs))"
  unfolding vmm_heap_reserved_def free_bytes_def core_def
  by (subst heap_sum_eq[where bs = bs and p = 0]) simp_all

lemma bytes_total:
  "tiles a bs e \<Longrightarrow> a + used_bytes bs + free_bytes bs + 32 * length bs = e"
  by (induction a bs e rule: tiles.induct) (auto simp: used_bytes_def free_bytes_def)

lemma mem_check_walk_eq:
  assumes "tiles a bs e" and "hdrs m p bs" and "e \<le> a + 33554432"
  shows "\<exists>msgs. mem_check_walk m e a errs = Some msgs \<and> length msgs = length errs + length (corrupt m bs)"
  using assms
proof (induction a bs e arbitrary: p errs rule: tiles.induct)
  case (1 a e)
  then show ?case by (subst mem_check_walk.simps) (simp add: corrupt_def)
next
  case (2 a b sz fr bs e)
  then have le: "a + sz \<le> e" and sz: "unat (blk_size m a) = sz" "48 \<le> sz" using tiles_le by fastforce+
  have ok: "blk_size m a \<noteq> 0" "\<not> HEAP_SIZE < blk_size m a"
    using sz le 2(4) by (auto simp: HEAP_SIZE_def word_less_nat_alt)
  have one: "length (check_blk m a) = length (corrupt m [(a, sz, fr)])"
    using 2 sz tail_ok_iff[OF sz] by (auto simp: check_blk_def corrupt_def)
  have "mem_check_walk m e a errs = mem_check_walk m e (a + sz) (check_blk m a @ errs)"
    using le sz ok by (subst mem_check_walk.simps) simp
  moreover obtain msgs where "mem_check_walk m e (a + sz) (check_blk m a @ errs) = Some msgs"
    "length msgs = length (check_blk m a @ errs) + length (corrupt m bs)"
    using 2 by fastforce
  ultimately show ?case using one 2(2) by (auto simp: corrupt_def)
qed

lemma mem_check_eq: "core st bs fl \<Longrightarrow> mem_check st = Some (length (corrupt (hmem st) bs))"
  using mem_check_walk_eq[of "heap_start st" bs "heap_end st" "hmem st" 0 "[]"]
  by (auto simp: core_def mem_check_def heap_bounds_def HEAP_SIZE_def)

section \<open>Initialisation\<close>

lemma heap_rep_init:
  fixes p :: pmm and st0 :: heap
  assumes "0 < unat kernel_end" and "unat kernel_end + 4096 < 2 ^ 32"
  defines "st \<equiv> fst (vmm_init kernel_end st0 p)"
  shows "heap_rep st [(heap_start st, 33554432, True)] [heap_start st]"
    and "heap_start st = (unat kernel_end + 4095) div 4096 * 4096"
proof -
  have "unat (kernel_end + 4095) = unat kernel_end + 4095" using assms(2) by (simp add: unat_word_ariths)
  moreover have "kernel_end + 4096 - 1 = kernel_end + 4095" by simp
  ultimately show start: "heap_start st = (unat kernel_end + 4095) div 4096 * 4096"
    using unat_and_mask32[of "kernel_end + 4095" "0xFFFFF000" 12] assms(2)
    unfolding st_def vmm_init_def Let_def
    by (simp add: mask_eq_exp_minus_1 minus_mod_eq_div_mult add.commute)
  have le: "(unat kernel_end + 4095) div 4096 * 4096 \<le> unat kernel_end + 4095" by simp
  have bnd: "heap_bounds st"
  proof -
    have "heap_end st = heap_start st + unat HEAP_SIZE" by (simp add: st_def vmm_init_def Let_def)
    moreover have "16 dvd heap_start st" unfolding start by (rule dvd_mult) simp
    moreover have "0 < heap_start st" using start assms(1) by (simp add: div_greater_zero_iff)
    moreover have "heap_start st < 2 ^ 32" using start le assms(2) by linarith
    ultimately show ?thesis by (simp add: heap_bounds_def HEAP_SIZE_def)
  qed
  have mem: "hmem st = set_blk_next_free (heap_start st) 0 (set_blk_prev (heap_start st) 0
      (set_blk_magic (heap_start st) FREE_MAGIC (set_blk_size (heap_start st) HEAP_SIZE (hmem st0))))"
    and hd: "free_list_head st = heap_start st"
    by (simp_all add: st_def vmm_init_def Let_def)
  have e: "heap_end st = heap_start st + 33554432" "0 < heap_start st"
    using bnd by (simp_all add: heap_bounds_def HEAP_SIZE_def)
  show "heap_rep st [(heap_start st, 33554432, True)] [heap_start st]"
    using bnd e unfolding heap_rep_def core_def mem hd by (simp add: HEAP_SIZE_def)
qed

end
