(* ===== verification/Heap_Client.thy ===== *)
theory Heap_Client
  imports Heap_Walk
begin

text \<open>
  The heap as its callers see it. \<open>heap_ok\<close> adds the canaries and the exact accounting to the
  structural invariant; \<open>heap_inv\<close> relates a heap to the blocks its callers own. The interface
  \<open>allocator\<close> states the contract of an allocator in terms of owned blocks, with the facts
  that hold of every sequence of operations proved from the contract alone.
\<close>

section \<open>Accounting and canaries\<close>

definition live_count :: "blk list \<Rightarrow> nat" where
  "live_count bs = (\<Sum>(b, sz, fr) \<leftarrow> bs. if fr then 0 else 1)"

definition live_payload :: "blk list \<Rightarrow> nat" where
  "live_payload bs = (\<Sum>(b, sz, fr) \<leftarrow> bs. if fr then 0 else sz - 36)"

definition acct :: "heap \<Rightarrow> blk list \<Rightarrow> bool" where
  "acct st bs \<longleftrightarrow> g_alloc_count st = of_nat (live_count bs)
     \<and> g_current_used_bytes st = of_nat (live_payload bs)
     \<and> g_alloc_count st = g_total_allocs st - g_total_frees st
     \<and> g_current_used_bytes st \<le> g_peak_used_bytes st"

definition heap_ok :: "heap \<Rightarrow> blk list \<Rightarrow> addr list \<Rightarrow> bool" where
  "heap_ok st bs fl \<longleftrightarrow> heap_rep st bs fl \<and> canaries (hmem st) bs \<and> acct st bs"

lemma sums_simps [simp]:
  "live_count [] = 0" "live_count ((b, sz, fr) # bs) = (if fr then 0 else 1) + live_count bs"
  "live_count (us @ vs) = live_count us + live_count vs"
  "live_payload [] = 0" "live_payload ((b, sz, fr) # bs) = (if fr then 0 else sz - 36) + live_payload bs"
  "live_payload (us @ vs) = live_payload us + live_payload vs"
  by (simp_all add: live_count_def live_payload_def)

lemma glue_live [simp]:
  "live (glue x bs) = live (x # bs)" "live_count (glue x bs) = live_count (x # bs)"
  "live_payload (glue x bs) = live_payload (x # bs)"
  by (induction x bs rule: glue.induct; simp)+

lemma merge_runs_live [simp]:
  "live (merge_runs bs) = live bs" "live_count (merge_runs bs) = live_count bs"
  "live_payload (merge_runs bs) = live_payload bs"
proof (induction bs)
  case (Cons x bs)
  { case 1 then show ?case using Cons by (cases x) simp }
  { case 2 then show ?case using Cons by (cases x) simp }
  { case 3 then show ?case using Cons by (cases x) simp }
qed simp_all

lemma live_payload_le: "tiles a bs e \<Longrightarrow> a + live_payload bs \<le> e"
  by (induction a bs e rule: tiles.induct) auto

lemma carve_live:
  assumes "tiles a bs e" and "(x, s, True) \<in> set bs"
  shows "live (carve n x bs) = insert (x, got n s) (live bs)"
    and "live_count (carve n x bs) = live_count bs + 1"
    and "live_payload (carve n x bs) = live_payload bs + (got n s - 36)"
proof -
  obtain us vs where bs: "bs = us @ (x, s, True) # vs" using assms(2) by (metis split_list)
  have "x \<notin> addrs us" using tiles_fresh(1) assms(1) unfolding bs by blast
  then show "live (carve n x bs) = insert (x, got n s) (live bs)"
    "live_count (carve n x bs) = live_count bs + 1"
    "live_payload (carve n x bs) = live_payload bs + (got n s - 36)"
    by (auto simp: bs carve_append got_def)
qed

lemma release_live:
  assumes "tiles a bs e" and "(x, s, False) \<in> set bs"
  shows "live (release x bs) = live bs - {(x, s)}"
    and "live_count bs = live_count (release x bs) + 1"
    and "live_payload bs = live_payload (release x bs) + (s - 36)"
proof -
  obtain us vs where bs: "bs = us @ (x, s, False) # vs" using assms(2) by (metis split_list)
  have x: "x \<notin> addrs us" "x \<notin> addrs vs" using tiles_fresh(1,2) assms(1) unfolding bs by blast+
  then have "(x, s) \<notin> live us" "(x, s) \<notin> live vs" by (auto simp: live_def addrs_iff)
  with x show "live (release x bs) = live bs - {(x, s)}"
    "live_count bs = live_count (release x bs) + 1"
    "live_payload bs = live_payload (release x bs) + (s - 36)"
    by (auto simp: bs release_append)
qed

lemma keeps_tail:
  assumes "keeps m m' B" and "(b, sz) \<in> B" and "48 \<le> sz"
  shows "load32 m' (b + sz - 4) = load32 m (b + sz - 4)"
proof (rule load32_cong)
  fix i :: nat assume "i < 4"
  then have "b + 24 \<le> b + sz - 4 + i" "b + sz - 4 + i < b + sz" using assms(3) by auto
  then show "m' (b + sz - 4 + i) = m (b + sz - 4 + i)"
    using assms(1,2) unfolding keeps_def by blast
qed

lemma core_live: "core st bs fl \<Longrightarrow> (b, sz) \<in> live bs \<Longrightarrow>
    heap_start st \<le> b \<and> b + sz \<le> heap_end st \<and> 48 \<le> sz \<and> 16 dvd b"
  using tiles_member tiles_aligned by (fastforce simp: core_def live_def heap_bounds_def)

lemma unat_payload_sz: "48 \<le> unat sz \<Longrightarrow> unat (payload_sz sz) = unat sz - 36"
  by (auto simp: payload_sz_def HDR_SIZE_def CANARY_SZ_def word_less_nat_alt unat_sub word_le_nat_alt
      diff_diff_eq)

lemma acct_alloc:
  assumes "acct st bs" and "live_count bs' = live_count bs + 1"
    and "live_payload bs' = live_payload bs + (k - 36)" and "48 \<le> k" and "k < 2 ^ 32"
  shows "acct (track_alloc (of_nat k) (st\<lparr>hmem := m, free_list_head := h\<rparr>)) bs'"
proof -
  have "unat (payload_sz (of_nat k)) = k - 36"
    using assms(4,5) unat_payload_sz[of "of_nat k"] by (simp add: unat_of_nat32)
  then have "payload_sz (of_nat k) = of_nat (k - 36)" by (metis of_nat_unat ucast_id)
  then show ?thesis using assms by (auto simp: acct_def track_alloc_def Let_def algebra_simps)
qed


lemma acct_free:
  assumes "acct st bs" and "live_count bs = live_count bs' + 1"
    and "live_payload bs = live_payload bs' + (k - 36)" and "48 \<le> k"
    and "unat (blk_size (hmem st) x) = k" and "live_payload bs < 2 ^ 32"
  shows "acct (marked_free x st\<lparr>hmem := m, free_list_head := h\<rparr>) bs'"
proof -
  have "unat (payload_sz (blk_size (hmem st) x)) = k - 36"
    using assms(4,5) unat_payload_sz by auto
  then have pz: "payload_sz (blk_size (hmem st) x) = of_nat (k - 36)" by (metis of_nat_unat ucast_id)
  have le: "(of_nat (k - 36) :: u32) \<le> of_nat (live_payload bs)"
    unfolding word_le_nat_alt using assms(3,6) unat_of_nat32[of "k - 36"] unat_of_nat32[of "live_payload bs"]
    by linarith
  have "g_current_used_bytes st - of_nat (k - 36) \<le> g_current_used_bytes st"
    using assms(1) le by (simp add: acct_def word_sub_le)
  then have pk: "g_current_used_bytes st - of_nat (k - 36) \<le> g_peak_used_bytes st"
    using assms(1) by (auto simp: acct_def)
  have "(of_nat (live_payload bs) :: u32) - of_nat (k - 36) = of_nat (live_payload bs')"
    "(of_nat (live_count bs) :: u32) - 1 = of_nat (live_count bs')"
    using assms(2,3) by simp_all
  with assms(1) pz le pk show ?thesis
    by (auto simp: acct_def marked_free_def track_free_def Let_def)
qed

lemma acct_same:
  "g_alloc_count st' = g_alloc_count st \<Longrightarrow> g_current_used_bytes st' = g_current_used_bytes st \<Longrightarrow>
   g_total_allocs st' = g_total_allocs st \<Longrightarrow> g_total_frees st' = g_total_frees st \<Longrightarrow>
   g_peak_used_bytes st' = g_peak_used_bytes st \<Longrightarrow> acct st' bs = acct st bs"
  by (simp add: acct_def)

lemma heap_ok_log [simp]: "heap_ok (st\<lparr>hlog := l\<rparr>) bs fl = heap_ok st bs fl"
  by (simp add: heap_ok_def acct_def)

section \<open>The two operations on a consistent heap\<close>

lemma live_others: "core st bs fl \<Longrightarrow> (x, s, True) \<in> set bs \<Longrightarrow> live bs \<subseteq> others x bs"
  using tiles_unique live_extents by (fastforce simp: core_def others_def live_def)

lemma kmalloc_ok:
  assumes ok: "heap_ok st bs fl" and sz: "sz \<noteq> 0" "unat sz \<le> 2 ^ 31" and lim: "limits_allow_alloc lim sz"
    and find: "List.find (fits bs (blk_need (unat sz + 4))) fl = Some x"
  obtains st' fl' s where "kmalloc lim sz st = Some (x + 32, st')"
    and "heap_ok st' (carve (blk_need (unat sz + 4)) x bs) fl'" and "preserves (live bs) st st'"
    and "(x, s, True) \<in> set bs" and "blk_need (unat sz + 4) \<le> s"
proof -
  define n where "n = blk_need (unat sz + 4)"
  have rep: "heap_rep st bs fl" and can: "canaries (hmem st) bs" and ac: "acct st bs"
    using ok by (auto simp: heap_ok_def)
  have core: "core st bs fl" using rep by (simp add: heap_rep_def)
  then have til: "tiles (heap_start st) bs (heap_end st)" by (simp add: core_def)
  obtain st' fl' s where km: "kmalloc lim sz st = Some (x + 32, st')" and rep': "heap_rep st' (carve n x bs) fl'"
    and pr: "preserves (others x bs) st st'" and tail: "tail_ok (hmem st') x"
    and s: "(x, s, True) \<in> set bs" "n \<le> s"
    and ex: "\<exists>m h. st' = track_alloc (of_nat (got n s)) (st\<lparr>hmem := m, free_list_head := h\<rparr>)"
    by (rule kmalloc_carves[OF rep sz lim find, folded n_def])
  have n48: "48 \<le> n" using blk_need_bounds(1)[of "unat sz + 4"] by (simp add: n_def)
  have g: "48 \<le> got n s" "got n s < 2 ^ 32"
    using s(2) n48 core_size(2)[OF core s(1)] by (auto simp: got_def)
  note cl = carve_live[OF til s(1), of n]
  have pl: "preserves (live bs) st st'" using pr live_others[OF core s(1)] by (rule preserves_mono)
  have "canaries (hmem st') (carve n x bs)"
  proof -
    have "(x, got n s, False) \<in> set (carve n x bs)" using cl(1) by (simp add: live_member[symmetric])
    then have "unat (blk_size (hmem st') x) = got n s"
      using rep' core_size(1) by (auto simp: heap_rep_def)
    then have "load32 (hmem st') (x + got n s - 4) = TAIL_MAGIC"
      using tail tail_ok_iff g(1) by blast
    moreover have "load32 (hmem st') (b + z - 4) = TAIL_MAGIC" if "(b, z) \<in> live bs" for b z
      using keeps_tail[of "hmem st" "hmem st'" "live bs" b z] pl can core_live[OF core that] that
      by (auto simp: preserves_def canaries_def)
    ultimately show ?thesis by (auto simp: canaries_def cl(1))
  qed
  moreover have "acct st' (carve n x bs)"
    using ex acct_alloc[OF ac cl(2,3) g] by metis
  ultimately have "heap_ok st' (carve n x bs) fl'" using rep' by (simp add: heap_ok_def)
  from that[OF km this[unfolded n_def] pl s[unfolded n_def]] show thesis .
qed

lemma kfree_ok:
  assumes ok: "heap_ok st bs fl" and x: "(x, s) \<in> live bs"
  obtains st' fl' where "kfree (x + 32) st = Some st'"
    and "heap_ok st' (merge_runs (release x bs)) fl'" and "preserves (live bs - {(x, s)}) st st'"
    and "blk_magic (hmem st') x = FREE_MAGIC"
proof -
  have rep: "heap_rep st bs fl" and can: "canaries (hmem st) bs" and ac: "acct st bs"
    using ok by (auto simp: heap_ok_def)
  have core: "core st bs fl" using rep by (simp add: heap_rep_def)
  then have til: "tiles (heap_start st) bs (heap_end st)" by (simp add: core_def)
  have x': "(x, s, False) \<in> set bs" using x by (simp add: live_member)
  obtain st' fl' where kf: "kfree (x + 32) st = Some st'" and rep': "heap_rep st' (merge_runs (release x bs)) fl'"
    and pr: "preserves (live bs - {(x, s)}) st st'"
    and ex: "\<exists>m h. st' = marked_free x st\<lparr>hmem := m, free_list_head := h\<rparr>"
    and mg: "blk_magic (hmem st') x = FREE_MAGIC"
    by (rule kfree_releases[OF rep x'])
  note rl = release_live[OF til x']
  have "load32 (hmem st') (b + z - 4) = TAIL_MAGIC" if "(b, z) \<in> live bs - {(x, s)}" for b z
    using keeps_tail[of "hmem st" "hmem st'" "live bs - {(x, s)}" b z] pr can core_live[OF core, of b z] that
    by (auto simp: preserves_def canaries_def)
  then have "canaries (hmem st') (merge_runs (release x bs))" by (auto simp: canaries_def rl(1))
  moreover have "acct st' (merge_runs (release x bs))"
  proof -
    have "live_payload bs < 2 ^ 32"
      using live_payload_le[OF til] core by (simp add: core_def heap_bounds_def HEAP_SIZE_def)
    then have "acct (marked_free x st\<lparr>hmem := m, free_list_head := h\<rparr>) (merge_runs (release x bs))" for m h
      using core_size(1)[OF core x'] core_live[OF core x] rl(2,3)
      by (intro acct_free[OF ac]) simp_all
    then show ?thesis using ex by metis
  qed
  ultimately show thesis using that[OF kf _ pr mg] rep' by (simp add: heap_ok_def)
qed


section \<open>The allocator interface\<close>

text \<open>
  A caller's program allocates and frees; \<open>ow\<close> maps each pointer it owns to the size it asked
  for. A program is well behaved when it frees only what it owns.
\<close>

type_synonym owned = "addr \<rightharpoonup> nat"

datatype heap_op = OpAlloc nat | OpFree addr

fun run_ops :: "('s \<Rightarrow> nat \<Rightarrow> (addr \<times> 's) option) \<Rightarrow> ('s \<Rightarrow> addr \<Rightarrow> 's option)
    \<Rightarrow> heap_op list \<Rightarrow> 's \<Rightarrow> owned \<Rightarrow> ('s \<times> owned) option" where
  "run_ops al fr [] s ow = Some (s, ow)"
| "run_ops al fr (OpAlloc n # ops) s ow =
     (case al s n of None \<Rightarrow> None
      | Some (p, s') \<Rightarrow> run_ops al fr ops s' (if p = 0 then ow else ow(p \<mapsto> n)))"
| "run_ops al fr (OpFree p # ops) s ow =
     (case fr s p of None \<Rightarrow> None | Some s' \<Rightarrow> run_ops al fr ops s' (ow(p := None)))"

fun well_behaved :: "('s \<Rightarrow> nat \<Rightarrow> (addr \<times> 's) option) \<Rightarrow> ('s \<Rightarrow> addr \<Rightarrow> 's option)
    \<Rightarrow> (nat \<Rightarrow> bool) \<Rightarrow> heap_op list \<Rightarrow> 's \<Rightarrow> owned \<Rightarrow> bool" where
  "well_behaved al fr ok [] s ow \<longleftrightarrow> True"
| "well_behaved al fr ok (OpAlloc n # ops) s ow \<longleftrightarrow> ok n
     \<and> (case al s n of None \<Rightarrow> True
        | Some (p, s') \<Rightarrow> well_behaved al fr ok ops s' (if p = 0 then ow else ow(p \<mapsto> n)))"
| "well_behaved al fr ok (OpFree p # ops) s ow \<longleftrightarrow> ow p \<noteq> None
     \<and> (case fr s p of None \<Rightarrow> True | Some s' \<Rightarrow> well_behaved al fr ok ops s' (ow(p := None)))"

definition same_data :: "('s \<Rightarrow> addr \<Rightarrow> u8) \<Rightarrow> 's \<Rightarrow> 's \<Rightarrow> owned \<Rightarrow> bool" where
  "same_data rd s s' ow \<longleftrightarrow> (\<forall>p n y. ow p = Some n \<and> p \<le> y \<and> y < p + n \<longrightarrow> rd s' y = rd s y)"

locale allocator =
  fixes al :: "'s \<Rightarrow> nat \<Rightarrow> (addr \<times> 's) option"
    and fr :: "'s \<Rightarrow> addr \<Rightarrow> 's option"
    and rd :: "'s \<Rightarrow> addr \<Rightarrow> u8"
    and inv :: "'s \<Rightarrow> owned \<Rightarrow> bool"
    and ok :: "nat \<Rightarrow> bool"
  assumes alloc_law: "inv s ow \<Longrightarrow> ok n \<Longrightarrow> \<exists>p s'. al s n = Some (p, s')
      \<and> (p = 0 \<longrightarrow> inv s' ow) \<and> (p \<noteq> 0 \<longrightarrow> ow p = None \<and> inv s' (ow(p \<mapsto> n))) \<and> same_data rd s s' ow"
    and free_law: "inv s ow \<Longrightarrow> ow p = Some n \<Longrightarrow> \<exists>s'. fr s p = Some s' \<and> inv s' (ow(p := None))
      \<and> same_data rd s s' (ow(p := None))"
    and owned_disjoint: "inv s ow \<Longrightarrow> ow p = Some n \<Longrightarrow> ow q = Some k \<Longrightarrow> p \<noteq> q \<Longrightarrow> p + n \<le> q \<or> q + k \<le> p"
begin

lemma run_ops_safe:
  "inv s ow \<Longrightarrow> well_behaved al fr ok ops s ow \<Longrightarrow>
     \<exists>s' ow'. run_ops al fr ops s ow = Some (s', ow') \<and> inv s' ow'
       \<and> (\<forall>p n. ow p = Some n \<and> OpFree p \<notin> set ops \<longrightarrow> ow' p = Some n
            \<and> (\<forall>y. p \<le> y \<and> y < p + n \<longrightarrow> rd s' y = rd s y))"
proof (induction ops arbitrary: s ow)
  case (Cons c ops)
  show ?case
  proof (cases c)
    case (OpAlloc n)
    with Cons.prems obtain p s1 where al: "al s n = Some (p, s1)"
      and i: "p = 0 \<longrightarrow> inv s1 ow" "p \<noteq> 0 \<longrightarrow> ow p = None \<and> inv s1 (ow(p \<mapsto> n))"
      and sd: "same_data rd s s1 ow" using alloc_law by fastforce
    define ow1 where "ow1 = (if p = 0 then ow else ow(p \<mapsto> n))"
    have "inv s1 ow1" "well_behaved al fr ok ops s1 ow1"
      using i Cons.prems OpAlloc al by (auto simp: ow1_def)
    from Cons.IH[OF this] obtain s' ow' where r: "run_ops al fr ops s1 ow1 = Some (s', ow')" "inv s' ow'"
      and k: "\<And>q k. ow1 q = Some k \<Longrightarrow> OpFree q \<notin> set ops \<Longrightarrow> ow' q = Some k
            \<and> (\<forall>y. q \<le> y \<and> y < q + k \<longrightarrow> rd s' y = rd s1 y)" by blast
    have "ow' q = Some k \<and> (\<forall>y. q \<le> y \<and> y < q + k \<longrightarrow> rd s' y = rd s y)"
      if q: "ow q = Some k" "OpFree q \<notin> set (c # ops)" for q k
    proof -
      have o: "ow1 q = Some k" using q i by (auto simp: ow1_def)
      then show ?thesis using k[OF o] q sd unfolding same_data_def by (metis list.set_intros(2))
    qed
    moreover have "run_ops al fr (c # ops) s ow = Some (s', ow')"
      using r OpAlloc al by (simp add: ow1_def)
    ultimately show ?thesis using r(2) by blast
  next
    case (OpFree p)
    with Cons.prems obtain n where "ow p = Some n" by auto
    from free_law[OF Cons.prems(1) this] obtain s1 where fr: "fr s p = Some s1"
      and i: "inv s1 (ow(p := None))" and sd: "same_data rd s s1 (ow(p := None))" by blast
    have "well_behaved al fr ok ops s1 (ow(p := None))" using Cons.prems OpFree fr by simp
    from Cons.IH[OF i this] obtain s' ow' where
      r: "run_ops al fr ops s1 (ow(p := None)) = Some (s', ow')" "inv s' ow'"
      and k: "\<And>q k. (ow(p := None)) q = Some k \<Longrightarrow> OpFree q \<notin> set ops \<Longrightarrow> ow' q = Some k
            \<and> (\<forall>y. q \<le> y \<and> y < q + k \<longrightarrow> rd s' y = rd s1 y)" by blast
    have "ow' q = Some k \<and> (\<forall>y. q \<le> y \<and> y < q + k \<longrightarrow> rd s' y = rd s y)"
      if q: "ow q = Some k" "OpFree q \<notin> set (c # ops)" for q k
    proof -
      have o: "(ow(p := None)) q = Some k" using q OpFree by auto
      then show ?thesis using k[OF o] q(2) sd unfolding same_data_def by (metis list.set_intros(2))
    qed
    moreover have "run_ops al fr (c # ops) s ow = Some (s', ow')" using r OpFree fr by simp
    ultimately show ?thesis using r(2) by blast
  qed
qed simp

end

section \<open>The kernel heap is an allocator\<close>

text \<open>A heap whose live blocks are exactly the owned ones, each large enough for its request.\<close>

definition owns :: "(addr \<times> nat) set \<Rightarrow> owned \<Rightarrow> bool" where
  "owns L ow \<longleftrightarrow> (\<forall>p n. ow p = Some n \<longrightarrow> (\<exists>b sz. (b, sz) \<in> L \<and> p = b + 32 \<and> n + 36 \<le> sz))
     \<and> (\<forall>b sz. (b, sz) \<in> L \<longrightarrow> ow (b + 32) \<noteq> None)"

definition heap_inv :: "heap \<Rightarrow> owned \<Rightarrow> bool" where
  "heap_inv st ow \<longleftrightarrow> (\<exists>bs fl. heap_ok st bs fl \<and> owns (live bs) ow)"

definition ok_request :: "nat \<Rightarrow> bool" where "ok_request n \<longleftrightarrow> n \<le> 2 ^ 31"

lemma heap_invI: "heap_ok st bs fl \<Longrightarrow> owns (live bs) ow \<Longrightarrow> heap_inv st ow"
  unfolding heap_inv_def by blast

lemma heap_inv_log [simp]: "heap_inv (st\<lparr>hlog := l\<rparr>) ow = heap_inv st ow"
  by (simp add: heap_inv_def)

lemma ownsD: "owns L ow \<Longrightarrow> ow p = Some n \<Longrightarrow> \<exists>b sz. (b, sz) \<in> L \<and> p = b + 32 \<and> n + 36 \<le> sz"
  by (simp add: owns_def)

lemma owns_insert:
  assumes "owns L ow" and "n + 36 \<le> sz"
  shows "owns (insert (x, sz) L) (ow(x + 32 \<mapsto> n))"
  unfolding owns_def
proof (intro conjI allI impI)
  show "\<exists>b tz. (b, tz) \<in> insert (x, sz) L \<and> p = b + 32 \<and> k + 36 \<le> tz"
    if "(ow(x + 32 \<mapsto> n)) p = Some k" for p k
    using that ownsD[OF assms(1), of p k] assms(2) by (cases "p = x + 32") auto
  show "(ow(x + 32 \<mapsto> n)) (b + 32) \<noteq> None" if "(b, tz) \<in> insert (x, sz) L" for b tz
    using that assms(1) by (auto simp: owns_def)
qed

lemma owns_remove:
  assumes "owns L ow" and "\<And>b sz. (b, sz) \<in> L' \<longleftrightarrow> (b, sz) \<in> L \<and> b \<noteq> x"
  shows "owns L' (ow(x + 32 := None))"
  unfolding owns_def
proof (intro conjI allI impI)
  show "\<exists>b tz. (b, tz) \<in> L' \<and> p = b + 32 \<and> k + 36 \<le> tz"
    if "(ow(x + 32 := None)) p = Some k" for p k
    using that ownsD[OF assms(1), of p k] assms(2) by (cases "p = x + 32") auto
  show "(ow(x + 32 := None)) (b + 32) \<noteq> None" if "(b, tz) \<in> L'" for b tz
    using that assms by (auto simp: owns_def)
qed

lemma preserves_data:
  assumes "preserves L st st'" and "owns L ow"
  shows "same_data hmem st st' ow"
proof -
  have "hmem st' y = hmem st y" if o: "ow p = Some n" and y: "p \<le> y" "y < p + n" for p n y
  proof -
    obtain b sz where "(b, sz) \<in> L" "p = b + 32" "n + 36 \<le> sz" using ownsD[OF assms(2) o] by blast
    then show ?thesis using assms(1) y unfolding preserves_def keeps_def by fastforce
  qed
  then show ?thesis by (auto simp: same_data_def)
qed

lemma live_unique: "core st bs fl \<Longrightarrow> (b, sz) \<in> live bs \<Longrightarrow> (b, tz) \<in> live bs \<Longrightarrow> sz = tz"
  using tiles_unique by (fastforce simp: core_def live_def)

lemma heap_inv_free:
  assumes "heap_inv st ow" and p: "ow p = Some n"
  shows "\<exists>st'. kfree p st = Some st' \<and> heap_inv st' (ow(p := None)) \<and> same_data hmem st st' (ow(p := None))"
proof -
  obtain bs fl where ok: "heap_ok st bs fl" and ow: "owns (live bs) ow"
    using assms(1) unfolding heap_inv_def by blast
  obtain x s where x: "(x, s) \<in> live bs" "p = x + 32" using ownsD[OF ow p] by blast
  have core: "core st bs fl" using ok by (simp add: heap_ok_def heap_rep_def)
  obtain st' fl' where kf: "kfree (x + 32) st = Some st'"
    and ok': "heap_ok st' (merge_runs (release x bs)) fl'" and pr: "preserves (live bs - {(x, s)}) st st'"
    by (rule kfree_ok[OF ok x(1)])
  have lv: "live (merge_runs (release x bs)) = live bs - {(x, s)}"
    using release_live(1)[of "heap_start st" bs "heap_end st" x s] core x(1) by (simp add: core_def live_member)
  have ow': "owns (live bs - {(x, s)}) (ow(p := None))"
    unfolding x(2) by (rule owns_remove[OF ow]) (use live_unique[OF core x(1)] in blast)
  have "heap_inv st' (ow(p := None))"
    by (rule heap_invI[OF ok']) (simp only: lv ow')
  then show ?thesis
    using kf x(2) preserves_data[OF pr ow'] by (intro exI[of _ st']) (simp only: simp_thms)
qed

lemma heap_ok_carve_fresh:
  assumes "core st bs fl" and "(x, s, True) \<in> set bs" and "owns (live bs) ow"
  shows "ow (x + 32) = None"
proof (rule ccontr)
  assume "ow (x + 32) \<noteq> None"
  then obtain b sz where "(b, sz) \<in> live bs" "x = b" using ownsD[OF assms(3)] by fastforce
  then show False using tiles_unique assms(1,2) by (fastforce simp: core_def live_def)
qed

lemma heap_inv_alloc:
  assumes "heap_inv st ow" and "ok_request n"
  shows "\<exists>p st'. kmalloc lim (of_nat n) st = Some (p, st') \<and> (p = 0 \<longrightarrow> heap_inv st' ow)
     \<and> (p \<noteq> 0 \<longrightarrow> ow p = None \<and> heap_inv st' (ow(p \<mapsto> n))) \<and> same_data hmem st st' ow"
proof -
  obtain bs fl where ok: "heap_ok st bs fl" and ow: "owns (live bs) ow"
    using assms(1) unfolding heap_inv_def by blast
  have core: "core st bs fl" using ok by (simp add: heap_ok_def heap_rep_def)
  have n: "unat (of_nat n :: u64) = n" using assms(2) by (simp add: ok_request_def)
  then have n31: "unat (of_nat n :: u64) \<le> 2 ^ 31" using assms(2) by (simp add: ok_request_def)
  have logged: ?thesis if "kmalloc lim (of_nat n) st = Some (0, st\<lparr>hlog := l\<rparr>)" for l
    using that assms(1) by (simp add: same_data_def)
  consider "n = 0" | "\<not> limits_allow_alloc lim (of_nat n)"
    | "n \<noteq> 0" "limits_allow_alloc lim (of_nat n)" "List.find (fits bs (unat (kmalloc_need (of_nat n)))) fl = None"
    | x where "n \<noteq> 0" "limits_allow_alloc lim (of_nat n)"
        "List.find (fits bs (blk_need (unat (of_nat n :: u64) + 4))) fl = Some x"
    using need_nat(1)[OF n31] by (cases "List.find (fits bs (blk_need (unat (of_nat n :: u64) + 4))) fl") auto
  then show ?thesis
  proof cases
    case 1
    then show ?thesis using logged[of "hlog st"] by (simp add: kmalloc_def)
  next
    case 2
    then show ?thesis using logged
      by (cases "(of_nat n :: u64) = 0") (auto simp: kmalloc_def limits_allow_alloc_def split: if_splits)
  next
    case 3
    have "(of_nat n :: u64) \<noteq> 0" using n 3(1) by (metis unat_0)
    from kmalloc_exhausted[OF core this 3(2,3)] show ?thesis by (rule logged)
  next
    case 4
    have "(of_nat n :: u64) \<noteq> 0" using n 4(1) by (metis unat_0)
    then obtain st' fl' s where km: "kmalloc lim (of_nat n) st = Some (x + 32, st')"
      and ok': "heap_ok st' (carve (blk_need (n + 4)) x bs) fl'" and pr: "preserves (live bs) st st'"
      and s: "(x, s, True) \<in> set bs" "blk_need (n + 4) \<le> s"
      using kmalloc_ok[OF ok _ n31 4(2,3)] n by metis
    have "n + 36 \<le> got (blk_need (n + 4)) s"
      using blk_need_bounds(3)[of "n + 4"] s(2) by (auto simp: got_def)
    then have "owns (live (carve (blk_need (n + 4)) x bs)) (ow(x + 32 \<mapsto> n))"
      using carve_live(1)[of "heap_start st" bs "heap_end st" x s] core s(1) owns_insert[OF ow]
      by (simp add: core_def)
    with ok' have "heap_inv st' (ow(x + 32 \<mapsto> n))" by (rule heap_invI)
    moreover have "ow (x + 32) = None" by (rule heap_ok_carve_fresh[OF core s(1) ow])
    ultimately show ?thesis using km preserves_data[OF pr ow] by auto
  qed
qed

lemma heap_inv_disjoint:
  assumes "heap_inv st ow" and "ow p = Some n" and "ow q = Some k" and "p \<noteq> q"
  shows "p + n \<le> q \<or> q + k \<le> p"
proof -
  obtain bs fl where ok: "heap_ok st bs fl" and ow: "owns (live bs) ow"
    using assms(1) unfolding heap_inv_def by blast
  have til: "tiles (heap_start st) bs (heap_end st)"
    using ok by (simp add: heap_ok_def heap_rep_def core_def)
  obtain b sz c tz where "(b, sz) \<in> live bs" "p = b + 32" "n + 36 \<le> sz"
    "(c, tz) \<in> live bs" "q = c + 32" "k + 36 \<le> tz"
    using ownsD[OF ow assms(2)] ownsD[OF ow assms(3)] by blast
  then show ?thesis
    using tiles_disjoint[OF til, of b sz False c tz False] assms(4) by (auto simp: live_member)
qed

text \<open>The owner of a block may write to all of it without disturbing the heap.\<close>

lemma heap_ok_write:
  assumes ok: "heap_ok st bs fl" and x: "(x, s) \<in> live bs" and out: "\<And>y. y < x + 32 \<or> x + s - 4 \<le> y \<Longrightarrow> m' y = hmem st y"
  shows "heap_ok (st\<lparr>hmem := m'\<rparr>) bs fl"
proof -
  have core: "core st bs fl" and can: "canaries (hmem st) bs" using ok by (auto simp: heap_ok_def heap_rep_def)
  have mem: "(x, s, False) \<in> set bs" using x by (simp add: live_member)
  have out': "m' y = hmem st y" if "y < x + 24 \<or> x + s \<le> y" for y using that by (intro out) auto
  note w = payload_write[OF core mem out']
  have tail: "load32 m' (b + z - 4) = load32 (hmem st) (b + z - 4)" if b: "(b, z) \<in> live bs" for b z
  proof (cases "b = x")
    case True
    then have "z = s" using live_unique[OF core x] b by simp
    then show ?thesis using True by (intro load32_cong out) auto
  next
    case False
    then have "(b, z) \<in> others x bs" using b live_extents by (auto simp: others_def)
    then show ?thesis using w(2) core_live[OF core b] by (intro keeps_tail) (auto simp: preserves_def)
  qed
  show ?thesis
    unfolding heap_ok_def
  proof (intro conjI)
    show "heap_rep (st\<lparr>hmem := m'\<rparr>) bs fl" using ok w(1) by (simp add: heap_ok_def heap_rep_def)
    show "canaries (hmem (st\<lparr>hmem := m'\<rparr>)) bs" using can tail by (auto simp: canaries_def)
    show "acct (st\<lparr>hmem := m'\<rparr>) bs" using ok by (auto simp: heap_ok_def acct_def)
  qed
qed

lemma heap_inv_write:
  assumes "heap_inv st ow" and "ow p = Some n" and out: "\<And>y. y < p \<or> p + n \<le> y \<Longrightarrow> m' y = hmem st y"
  shows "heap_inv (st\<lparr>hmem := m'\<rparr>) ow"
proof -
  obtain bs fl where ok: "heap_ok st bs fl" and ow: "owns (live bs) ow"
    using assms(1) unfolding heap_inv_def by blast
  obtain x s where x: "(x, s) \<in> live bs" "p = x + 32" "n + 36 \<le> s" using ownsD[OF ow assms(2)] by blast
  have "heap_ok (st\<lparr>hmem := m'\<rparr>) bs fl" by (rule heap_ok_write[OF ok x(1)], rule out) (use x(2,3) in auto)
  then show ?thesis using ow by (rule heap_invI)
qed

text \<open>Writes outside the heap do not disturb it either.\<close>

lemma heap_inv_off_heap:
  assumes "heap_inv st ow" "\<And>y. heap_start st \<le> y \<Longrightarrow> y < heap_end st \<Longrightarrow> m' y = hmem st y"
  shows "heap_inv (st\<lparr>hmem := m'\<rparr>) ow"
proof -
  obtain bs fl where ok: "heap_ok st bs fl" and ow: "owns (live bs) ow" using assms(1) unfolding heap_inv_def by blast
  have core: "core st bs fl" and til: "tiles (heap_start st) bs (heap_end st)" and can: "canaries (hmem st) bs"
    using ok by (auto simp: heap_ok_def heap_rep_def core_def)
  have lo: "heap_start st \<le> b" "b + z \<le> heap_end st" "48 \<le> z" if "(b, z, f) \<in> set bs" for b z f using tiles_member[OF til that] by simp_all
  have "core (st\<lparr>hmem := m'\<rparr>) bs fl"
  proof (rule core_payload_write[OF core])
    fix y assume "\<exists>c\<in>addrs bs. c \<le> y \<and> y < c + 24"
    then obtain c z f where "(c, z, f) \<in> set bs" "c \<le> y" "y < c + 24" by (auto simp: addrs_iff)
    then show "m' y = hmem st y" using lo[of c z f] by (intro assms(2)) linarith+
  qed
  moreover have "load32 m' (b + z - 4) = load32 (hmem st) (b + z - 4)" if "(b, z) \<in> live bs" for b z
    by (rule load32_cong, rule assms(2)) (use lo[of b z False] that in \<open>auto simp: live_member\<close>)
  then have "canaries m' bs" using can by (auto simp: canaries_def)
  moreover have "acct (st\<lparr>hmem := m'\<rparr>) bs" using ok by (auto simp: heap_ok_def acct_def)
  ultimately have "heap_ok (st\<lparr>hmem := m'\<rparr>) bs fl" using ok by (auto simp: heap_ok_def heap_rep_def)
  then show ?thesis using ow by (rule heap_invI)
qed

lemma heap_inv_outside:
  "heap_inv st ow \<Longrightarrow> (\<And>y. heap_start st \<le> y \<Longrightarrow> m' y = hmem st y) \<Longrightarrow> heap_inv (st\<lparr>hmem := m'\<rparr>) ow"
  by (rule heap_inv_off_heap)

interpretation kheap: allocator "\<lambda>st n. kmalloc lim (of_nat n) st" "\<lambda>st p. kfree p st" hmem heap_inv ok_request
  for lim :: system_limits
  by unfold_locales (fact heap_inv_alloc heap_inv_free heap_inv_disjoint)+

section \<open>Calls in a row\<close>

lemma same_data_refl [simp]: "same_data rd s s ow"
  by (simp add: same_data_def)

lemma same_data_trans:
  "same_data rd s s1 ow \<Longrightarrow> same_data rd s1 s2 ow' \<Longrightarrow> ow \<subseteq>\<^sub>m ow' \<Longrightarrow> same_data rd s s2 ow"
  unfolding same_data_def map_le_def by (metis domI)

lemma malloc_cases:
  assumes "heap_inv hp ow" "n \<le> 2 ^ 31"
  obtains hp' where "kmalloc lim (of_nat n) hp = Some (0, hp')" "heap_inv hp' ow" "same_data hmem hp hp' ow"
  | p hp' where "kmalloc lim (of_nat n) hp = Some (p, hp')" "p \<noteq> 0" "ow p = None" "heap_inv hp' (ow(p \<mapsto> n))" "same_data hmem hp hp' ow"
  using heap_inv_alloc[OF assms(1), of n lim] assms(2) by (auto simp: ok_request_def)

lemma free_last:
  assumes "heap_inv hp (ow(p \<mapsto> n))" "ow p = None"
  obtains hp' where "kfree p hp = Some hp'" "heap_inv hp' ow" "same_data hmem hp hp' ow"
proof -
  have "(ow(p \<mapsto> n))(p := None) = ow" using assms(2) by (auto simp: fun_eq_iff)
  then show thesis using heap_inv_free[OF assms(1), of p n] that by auto
qed

end
