(* ===== verification/Heap_Realloc.thy ===== *)
theory Heap_Realloc
  imports Heap_Client
begin

text \<open>
  \<^verbatim>\<open>krealloc\<close>: the structural invariant is kept, the data moves with the block, and a failed
  reallocation leaves the old block alone. The canary and the byte counters are not maintained
  by the in-place path, so the full invariant \<open>heap_ok\<close> is not.
\<close>

text \<open>What a reallocation of block \<open>(x, s)\<close> to \<open>n\<close> bytes at block \<open>x'\<close> guarantees.\<close>

definition moved :: "heap \<Rightarrow> blk list \<Rightarrow> addr \<Rightarrow> nat \<Rightarrow> nat \<Rightarrow> addr \<Rightarrow> heap \<Rightarrow> bool" where
  "moved st bs x s n x' st' \<longleftrightarrow> (\<exists>bs' fl' s'. heap_rep st' bs' fl' \<and> (x', s') \<in> live bs' \<and> n + 32 \<le> s'
     \<and> live bs' - {(x', s')} = live bs - {(x, s)}
     \<and> (\<forall>i < min (s - 32) n. hmem st' (x' + 32 + i) = hmem st (x + 32 + i))
     \<and> preserves (live bs - {(x, s)}) st st')"

lemma krealloc_unfold:
  assumes "core st bs fl" and "(x, s, False) \<in> set bs" and "new \<noteq> 0" and "unat new \<le> 2 ^ 31"
  shows "krealloc lim (x + 32) new st =
    (if blk_need (unat new) \<le> s then Some (x + 32, st)
     else if x + s < heap_end st \<and> blk_magic (hmem st) (x + s) = FREE_MAGIC
        \<and> krealloc_need new \<le> blk_size (hmem st) x + blk_size (hmem st) (x + s)
     then (case absorb_next x (x + s) st of None \<Rightarrow> None
       | Some st1 \<Rightarrow> Some (x + 32, split_blk x (krealloc_need new) st1))
     else (case kmalloc lim new st of None \<Rightarrow> None
       | Some (np, st1) \<Rightarrow>
           if np = 0 then Some (0, st1)
           else let old_data = ucast (blk_size (hmem st1) x - HDR_SIZE) :: u64;
                    k = (if old_data < new then old_data else new);
                    st2 = st1\<lparr>hmem := copy_bytes (hmem st1) np (x + 32) (unat k)\<rparr>
                in map_option (\<lambda>s. (np, s)) (kfree (x + 32) st2)))"
proof -
  have h: "hdr_of (x + 32) = x" "payload x = x + 32" by (simp_all add: hdr_of_def payload_def HDR_SIZE_def)
  moreover have "krealloc_need new \<le> blk_size (hmem st) x \<longleftrightarrow> blk_need (unat new) \<le> s"
    using core_size(1)[OF assms(1,2)] need_nat(2)[OF assms(4)] by (simp add: word_le_nat_alt)
  moreover have "next_blk (hmem st) x = x + s"
    using core_size(1)[OF assms(1,2)] by (simp add: next_blk_def)
  ultimately show ?thesis using assms(3) unfolding krealloc_def Let_def h by simp
qed

lemma krealloc_grow:
  assumes rep: "heap_rep st (us @ (x, s, False) # (n, t, True) # ws) fl"
    and new: "0 < unat new" "unat new \<le> 2 ^ 31" and big: "s < blk_need (unat new)" "blk_need (unat new) \<le> s + t"
  obtains st' where "krealloc lim (x + 32) new st = Some (x + 32, st')"
    and "moved st (us @ (x, s, False) # (n, t, True) # ws) x s (unat new) x st'"
proof -
  let ?bs = "us @ (x, s, False) # (n, t, True) # ws"
  define need where "need = krealloc_need new"
  have need: "unat need = blk_need (unat new)" using need_nat(2)[OF new(2)] by (simp add: need_def)
  have nb: "48 \<le> unat need" "16 dvd unat need" "unat new + 32 \<le> unat need"
    unfolding need using blk_need_bounds new(1) by auto
  have core: "core st ?bs fl" and free: "set fl = free_addrs ?bs" and co: "coalesced ?bs"
    using rep by (auto simp: heap_rep_def)
  have til: "tiles (heap_start st) ?bs (heap_end st)" using core by (simp add: core_def)
  have n: "n = x + s" "n < heap_end st" using tiles_next[OF til] by auto
  note rm = core_free_remove[OF core free]
  obtain st1 where st1: "absorb_next x n st = Some st1"
    and c1: "core st1 (us @ (x, s + t, False) # ws) (remove1 n fl)"
    and k1: "steady (extents ?bs) st st1"
    by (rule core_absorb_next[OF core rm(1)])
  have ns: "unat need \<le> s + t" using big need by simp
  define st' cs fl2 where "st' = split_blk x need st1"
    and "cs = (if unat need + 64 \<le> s + t then (x + unat need, s + t - unat need, True) # ws else ws)"
    and "fl2 = (if unat need + 64 \<le> s + t then (x + unat need) # remove1 n fl else remove1 n fl)"
  define g where "g = got (unat need) (s + t)"
  have c2: "core st' (us @ (x, g, False) # cs) fl2"
    and k2: "steady (insert (x, g) (extents us \<union> extents ws)) st1 st'"
    using split_step[OF c1 ns nb(1,2), folded st'_def cs_def fl2_def g_def] by blast+
  have "krealloc lim (x + 32) new st = Some (x + 32, st')"
  proof -
    have "unat (blk_size (hmem st) x + blk_size (hmem st) n) = s + t"
      using core_size[OF core, of x s False] core_size[OF core, of n t True]
      by (subst unat_add32_no_wrap) simp_all
    then have "need \<le> blk_size (hmem st) x + blk_size (hmem st) n" using ns by (simp add: word_le_nat_alt)
    moreover have "blk_magic (hmem st) n = FREE_MAGIC" using core_magic[OF core, of n t True] by simp
    moreover have "new \<noteq> 0" using new(1) by auto
    ultimately show ?thesis
      using krealloc_unfold[OF core _ _ new(2), of x s lim] n st1 big(1)
      by (simp add: need_def st'_def)
  qed
  moreover have "moved st ?bs x s (unat new) x st'"
    unfolding moved_def
  proof (intro exI conjI)
    have "set fl2 = free_addrs (us @ (x, g, False) # cs)"
      using rm(2) by (auto simp: fl2_def cs_def)
    moreover have "coalesced (us @ (x, g, False) # cs)"
      using co unfolding cs_def by (cases ws) (auto simp: coalesced_append)
    ultimately show "heap_rep st' (us @ (x, g, False) # cs) fl2" using c2 by (simp add: heap_rep_def)
    show "(x, g) \<in> live (us @ (x, g, False) # cs)" by simp
    have g: "unat new + 32 \<le> g" "s \<le> g"
      using nb(3) ns big(1) need by (auto simp: g_def got_def)
    then show "unat new + 32 \<le> g" by simp
    have "(x, z) \<notin> live us" "(x, z) \<notin> live ws" for z
      using tiles_fresh(1,2)[OF til] by (auto simp: live_def addrs_iff)
    then show "live (us @ (x, g, False) # cs) - {(x, g)} = live ?bs - {(x, s)}" by (auto simp: cs_def)
    show "\<forall>i < min (s - 32) (unat new). hmem st' (x + 32 + i) = hmem st (x + 32 + i)"
    proof (intro allI impI)
      fix i assume i: "i < min (s - 32) (unat new)"
      have "hmem st1 (x + 32 + i) = hmem st (x + 32 + i)" using k1 i by (auto simp: steady_def keeps_def)
      moreover have "hmem st' (x + 32 + i) = hmem st1 (x + 32 + i)"
        using k2 i g(2) by (auto simp: steady_def keeps_def)
      ultimately show "hmem st' (x + 32 + i) = hmem st (x + 32 + i)" by simp
    qed
    have "live ?bs - {(x, s)} \<subseteq> extents us \<union> extents ws" using live_extents by fastforce
    then have "steady (live ?bs - {(x, s)}) st st'"
      by (intro steady_trans[OF steady_mono[OF k1] steady_mono[OF k2]]) auto
    then show "preserves (live ?bs - {(x, s)}) st st'" by (rule steady_preserves)
  qed
  ultimately show thesis by (rule that)
qed

lemma preserves_byte:
  "preserves B st st' \<Longrightarrow> (b, z) \<in> B \<Longrightarrow> b + 24 \<le> y \<Longrightarrow> y < b + z \<Longrightarrow> hmem st' y = hmem st y"
  by (auto simp: preserves_def keeps_def)

lemma heap_rep_payload:
  assumes "heap_rep st bs fl" and "(x, sz, f) \<in> set bs"
    and "\<And>y. y < x + 24 \<or> x + sz \<le> y \<Longrightarrow> m' y = hmem st y"
  shows "heap_rep (st\<lparr>hmem := m'\<rparr>) bs fl" and "preserves (others x bs) st (st\<lparr>hmem := m'\<rparr>)"
  using payload_write[OF _ assms(2,3)] assms(1) by (auto simp: heap_rep_def)

lemma krealloc_move:
  assumes rep: "heap_rep st bs fl" and x: "(x, s, False) \<in> set bs"
    and new: "new \<noteq> 0" "unat new \<le> 2 ^ 31" and lim: "limits_allow_alloc lim new"
    and find: "List.find (fits bs (blk_need (unat new + 4))) fl = Some x'"
    and big: "s < blk_need (unat new)"
    and no_grow: "\<not> (x + s < heap_end st \<and> blk_magic (hmem st) (x + s) = FREE_MAGIC
        \<and> krealloc_need new \<le> blk_size (hmem st) x + blk_size (hmem st) (x + s))"
  obtains st' where "krealloc lim (x + 32) new st = Some (x' + 32, st')"
    and "moved st bs x s (unat new) x' st'"
proof -
  define n where "n = blk_need (unat new + 4)"
  have core: "core st bs fl" using rep by (simp add: heap_rep_def)
  then have til: "tiles (heap_start st) bs (heap_end st)" by (simp add: core_def)
  obtain st1 fl1 t where km: "kmalloc lim new st = Some (x' + 32, st1)" and rep1: "heap_rep st1 (carve n x' bs) fl1"
    and pr1: "preserves (others x' bs) st st1" and t: "(x', t, True) \<in> set bs" "n \<le> t"
    by (rule kmalloc_carves[OF rep new lim find, folded n_def])
  define bs1 g where "bs1 = carve n x' bs" and "g = got n t"
  have lv1: "live bs1 = insert (x', g) (live bs)" unfolding bs1_def g_def by (rule carve_live(1)[OF til t(1)])
  have core1: "core st1 bs1 fl1" using rep1 by (simp add: heap_rep_def bs1_def)
  have xl: "(x, s) \<in> live bs" using x by (simp add: live_member)
  have neq: "x' \<noteq> x" using tiles_unique[OF til t(1)] x by auto
  have x1: "(x, s, False) \<in> set bs1" "(x', g, False) \<in> set bs1" using lv1 xl by (auto simp: live_member[symmetric])
  have g: "unat new + 36 \<le> g" using t(2) blk_need_bounds(3)[of "unat new + 4"] by (auto simp: g_def got_def n_def)
  have s48: "48 \<le> s" using tiles_member[OF til x] by simp
  define k where "k = min (s - 32) (unat new)"
  define st2 where "st2 = st1\<lparr>hmem := copy_bytes (hmem st1) (x' + 32) (x + 32) k\<rparr>"
  have out: "copy_bytes (hmem st1) (x' + 32) (x + 32) k y = hmem st1 y" if "y < x' + 24 \<or> x' + g \<le> y" for y
    using that g by (auto simp: copy_bytes_def k_def)
  note w = heap_rep_payload[OF rep1[folded bs1_def] x1(2) out, folded st2_def]
  obtain st3 fl3 where kf: "kfree (x + 32) st2 = Some st3" and rep3: "heap_rep st3 (merge_runs (release x bs1)) fl3"
    and pr3: "preserves (live bs1 - {(x, s)}) st2 st3"
    by (rule kfree_releases[OF w(1) x1(1)])
  have "krealloc lim (x + 32) new st = Some (x' + 32, st3)"
  proof -
    have "unat (blk_size (hmem st1) x) = s" using core_size(1)[OF core1 x1(1)] .
    then have "unat (ucast (blk_size (hmem st1) x - HDR_SIZE) :: u64) = s - 32"
      using hdr_sub[of "blk_size (hmem st1) x"] s48 core_size(2)[OF core1 x1(1)]
      by (simp only: unat_of_nat64) (simp add: unat_of_nat64[of "s - 32"] del: of_nat_diff)
    then have "unat (if (ucast (blk_size (hmem st1) x - HDR_SIZE) :: u64) < new
        then ucast (blk_size (hmem st1) x - HDR_SIZE) else new) = k"
      by (simp add: k_def word_less_nat_alt min_def)
    then show ?thesis
      using krealloc_unfold[OF core x new(1,2), of lim] big no_grow km kf by (simp add: Let_def st2_def)
  qed
  moreover have "moved st bs x s (unat new) x' st3"
  proof -
    have fresh: "(x', z) \<notin> live bs" for z using tiles_unique[OF til t(1)] by (auto simp: live_member)
    have lv3: "live (merge_runs (release x bs1)) = live bs1 - {(x, s)}"
      using release_live(1)[of "heap_start st1" bs1 "heap_end st1", OF _ x1(1)] core1 by (simp add: core_def)
    show ?thesis
      unfolding moved_def
    proof (intro exI conjI)
      show "heap_rep st3 (merge_runs (release x bs1)) fl3" by (rule rep3)
      show "(x', g) \<in> live (merge_runs (release x bs1))" unfolding lv3 lv1 using neq by simp
      show "unat new + 32 \<le> g" using g by simp
      show "live (merge_runs (release x bs1)) - {(x', g)} = live bs - {(x, s)}"
        unfolding lv3 lv1 using neq fresh by blast
      show "\<forall>i < min (s - 32) (unat new). hmem st3 (x' + 32 + i) = hmem st (x + 32 + i)"
      proof (intro allI impI)
        fix i assume i: "i < min (s - 32) (unat new)"
        have "(x', g) \<in> live bs1 - {(x, s)}" using lv1 neq by simp
        then have "hmem st3 (x' + 32 + i) = hmem st2 (x' + 32 + i)"
          using i g by (intro preserves_byte[OF pr3]) auto
        also have "\<dots> = hmem st1 (x + 32 + i)" using i by (simp add: st2_def copy_bytes_def k_def)
        also have "\<dots> = hmem st (x + 32 + i)"
          using live_others[OF core t(1)] xl i by (intro preserves_byte[OF pr1, of x s]) auto
        finally show "hmem st3 (x' + 32 + i) = hmem st (x + 32 + i)" .
      qed
      have "live bs \<subseteq> live bs1" using lv1 by blast
      then have "live bs \<subseteq> others x' bs1" using fresh live_extents[of bs1] by (auto simp: others_def)
      then have "preserves (live bs) st st2"
        using preserves_trans[OF preserves_mono[OF pr1 live_others[OF core t(1)]] preserves_mono[OF w(2)]] by simp
      moreover have "live bs - {(x, s)} \<subseteq> live bs1 - {(x, s)}" using lv1 by blast
      ultimately show "preserves (live bs - {(x, s)}) st st3"
        using preserves_trans[OF preserves_mono preserves_mono[OF pr3]] by (meson Diff_subset)
    qed
  qed
  ultimately show thesis by (rule that)
qed

end
