(* ===== verification/Heap_Props.thy ===== *)
theory Heap_Props
  imports Heap_Realloc
begin

text \<open>
  The properties of the kernel heap: allocation and freeing refine their specification on the
  block list, well-behaved programs never corrupt each other, the consistency check reports
  exactly the damaged blocks, and memory that is freed comes back whole.
\<close>

section \<open>A heap right after boot\<close>

definition boot_heap :: heap where
  "boot_heap = fst (vmm_init 0x200000 (heap_boot (\<lambda>_. 0)) pmm_zero)"

lemma boot_heap_ok:
  "heap_ok boot_heap [(0x200000, 33554432, True)] [0x200000]"
proof -
  have "heap_start boot_heap = 0x200000"
    using heap_rep_init(2)[of "0x200000" "heap_boot (\<lambda>_. 0)" pmm_zero] by (simp add: boot_heap_def)
  then have "heap_rep boot_heap [(0x200000, 33554432, True)] [0x200000]"
    using heap_rep_init(1)[of "0x200000" "heap_boot (\<lambda>_. 0)" pmm_zero] by (simp add: boot_heap_def)
  moreover have "acct boot_heap [(0x200000, 33554432, True)]"
    by (simp add: acct_def boot_heap_def vmm_init_def heap_boot_def Let_def)
  ultimately show ?thesis by (simp add: heap_ok_def canaries_def)
qed

lemma boot_heap_inv: "heap_inv boot_heap Map.empty"
  by (rule heap_invI[OF boot_heap_ok]) (simp add: owns_def)

definition open_limits :: system_limits where "open_limits = g_limits"

lemma open_limits_allow [simp]: "limits_allow_alloc open_limits sz"
  by (simp add: limits_allow_alloc_def open_limits_def g_limits_def)

lemma boot_find: "List.find (fits [(0x200000, 33554432, True)] (blk_need (unat (100 :: u64) + 4))) [0x200000] = Some 0x200000"
  by (simp add: fits_def blk_need_def)

lemma boot_alloc:
  obtains st fl where "kmalloc open_limits 100 boot_heap = Some (0x200020, st)"
    and "heap_ok st [(0x200000, 144, False), (0x200090, 33554288, True)] fl"
proof -
  have sz: "(100 :: u64) \<noteq> 0" "unat (100 :: u64) \<le> 2 ^ 31" by simp_all
  have c: "carve (blk_need (unat (100 :: u64) + 4)) 0x200000 [(0x200000, 33554432, True)]
      = [(0x200000, 144, False), (0x200090, 33554288, True)]" by (simp add: blk_need_def)
  show thesis
    by (rule kmalloc_ok[OF boot_heap_ok sz open_limits_allow boot_find], unfold c) (rule that, simp_all)
qed

text \<open>A free block that is large enough makes an allocation succeed.\<close>

lemma kmalloc_succeeds:
  assumes "heap_ok h bs fl" "(x, s, True) \<in> set bs" "blk_need (n + 4) \<le> s" "0 < n" "n \<le> 2 ^ 31"
  shows "\<exists>y h' fl'. kmalloc open_limits (of_nat n) h = Some (y + 32, h') \<and> heap_ok h' (carve (blk_need (n + 4)) y bs) fl' \<and> y \<in> set fl"
proof -
  have u: "unat (of_nat n :: u64) = n" using assms(5) by simp
  then have nz: "(of_nat n :: u64) \<noteq> 0" using assms(4) by (metis less_irrefl unat_0)
  have "x \<in> set fl" using assms(1,2) by (force simp: heap_ok_def heap_rep_def free_addrs_def)
  moreover have "fits bs (blk_need (n + 4)) x" using assms(2,3) by (auto simp: fits_def intro!: bexI[of _ "(x, s, True)"])
  ultimately have "List.find (fits bs (blk_need (n + 4))) fl \<noteq> None" by (auto simp: find_None_iff)
  then obtain y where y: "List.find (fits bs (blk_need (n + 4))) fl = Some y" by blast
  then have "y \<in> set fl" by (auto simp: find_Some_iff)
  then show ?thesis using kmalloc_ok[OF assms(1) nz _ open_limits_allow, of y] y assms(5) unfolding u by metis
qed

section \<open>Allocation\<close>

text \<open>
  C5. \<^verbatim>\<open>kmalloc\<close> refines first fit on the block list: a request that the memory limits refuse,
  or that no free block can hold, returns \<^verbatim>\<open>NULL\<close> and only logs; otherwise the first block of
  the free list that fits is carved, the invariant with canaries and accounting holds again, and
  no byte of a live block or outside the heap changes.
\<close>

theorem kmalloc_refines:
  assumes "heap_ok st bs fl" and "sz \<noteq> 0" and "unat sz \<le> 2 ^ 31"
  shows "(\<not> limits_allow_alloc lim sz \<longrightarrow>
        kmalloc lim sz st = Some (0, st\<lparr>hlog := AllocDenied sz # hlog st\<rparr>))
    \<and> (limits_allow_alloc lim sz \<longrightarrow> List.find (fits bs (blk_need (unat sz + 4))) fl = None \<longrightarrow>
        kmalloc lim sz st = Some (0, st\<lparr>hlog := HeapExhausted (kmalloc_need sz) # hlog st\<rparr>))
    \<and> (limits_allow_alloc lim sz \<longrightarrow> (\<forall>x. List.find (fits bs (blk_need (unat sz + 4))) fl = Some x \<longrightarrow>
        (\<exists>st' fl'. kmalloc lim sz st = Some (x + 32, st')
           \<and> heap_ok st' (carve (blk_need (unat sz + 4)) x bs) fl' \<and> preserves (live bs) st st')))"
proof (intro conjI impI allI)
  have core: "core st bs fl" using assms(1) by (simp add: heap_ok_def heap_rep_def)
  show "kmalloc lim sz st = Some (0, st\<lparr>hlog := AllocDenied sz # hlog st\<rparr>)"
    if "\<not> limits_allow_alloc lim sz"
    using that assms(2) by (simp add: kmalloc_def Let_def)
  show "kmalloc lim sz st = Some (0, st\<lparr>hlog := HeapExhausted (kmalloc_need sz) # hlog st\<rparr>)"
    if "limits_allow_alloc lim sz" "List.find (fits bs (blk_need (unat sz + 4))) fl = None"
    using kmalloc_exhausted[OF core assms(2) that(1)] that(2) need_nat(1)[OF assms(3)] by simp
  show "\<exists>st' fl'. kmalloc lim sz st = Some (x + 32, st')
       \<and> heap_ok st' (carve (blk_need (unat sz + 4)) x bs) fl' \<and> preserves (live bs) st st'"
    if "limits_allow_alloc lim sz" "List.find (fits bs (blk_need (unat sz + 4))) fl = Some x" for x
    by (rule kmalloc_ok[OF assms(1,2,3) that]) blast
qed

theorem kmalloc_refines_witness:
  "\<exists>st' fl'. kmalloc open_limits 100 boot_heap = Some (0x200020, st')
     \<and> heap_ok st' [(0x200000, 144, False), (0x200090, 33554288, True)] fl'"
proof -
  have "\<exists>st' fl'. kmalloc open_limits 100 boot_heap = Some (0x200000 + 32, st')
     \<and> heap_ok st' (carve (blk_need (unat (100 :: u64) + 4)) 0x200000 [(0x200000, 33554432, True)]) fl'"
    using kmalloc_refines[OF boot_heap_ok, of 100 open_limits] boot_find by auto
  then show ?thesis by (simp add: blk_need_def)
qed

text \<open>
  The memory a successful \<^verbatim>\<open>kmalloc\<close> returns is 16-byte aligned, lies inside the heap with
  room for the request and its canary, and overlaps no live block, header included.
\<close>

lemma kmalloc_fresh_block:
  assumes "heap_ok st bs fl" and "unat sz \<le> 2 ^ 31" and "kmalloc lim sz st = Some (p, st')" and "p \<noteq> 0"
  shows "16 dvd p \<and> heap_start st + 32 \<le> p \<and> p + unat sz + 4 \<le> heap_end st
    \<and> (\<forall>(b, z) \<in> live bs. p + unat sz + 4 \<le> b \<or> b + z + 32 \<le> p)"
proof -
  have core: "core st bs fl" using assms(1) by (simp add: heap_ok_def heap_rep_def)
  have sz: "sz \<noteq> 0" and lim: "limits_allow_alloc lim sz"
    using assms(3,4) by (auto simp: kmalloc_def Let_def split: if_splits)
  have "List.find (fits bs (blk_need (unat sz + 4))) fl \<noteq> None"
    using kmalloc_exhausted[OF core sz lim] need_nat(1)[OF assms(2)] assms(3,4) by auto
  then obtain x where "List.find (fits bs (blk_need (unat sz + 4))) fl = Some x" by blast
  then obtain s where p: "p = x + 32" and x: "(x, s, True) \<in> set bs" "blk_need (unat sz + 4) \<le> s"
    using kmalloc_ok[OF assms(1) sz assms(2) lim, of x] assms(3) by (metis Pair_inject option.inject)
  have til: "tiles (heap_start st) bs (heap_end st)" "16 dvd heap_start st"
    using core by (auto simp: core_def heap_bounds_def)
  have big: "unat sz + 36 \<le> s" using x(2) blk_need_bounds(3)[of "unat sz + 4"] by simp
  have "p + unat sz + 4 \<le> b \<or> b + z + 32 \<le> p" if "(b, z) \<in> live bs" for b z
    using tiles_disjoint[OF til(1), of b z False x s True] that x(1) big p by (auto simp: live_member)
  then show ?thesis
    using tiles_member[OF til(1) x(1)] tiles_aligned[OF til x(1)] big p by (auto simp: dvd_add)
qed


section \<open>Freeing\<close>

text \<open>
  C7. \<^verbatim>\<open>kfree\<close> of a live block refines marking it free and merging all runs of free blocks;
  the invariant holds again and no byte of another live block or outside the heap changes.
\<close>

theorem kfree_refines:
  assumes "heap_ok st bs fl" and "(x, s) \<in> live bs"
  shows "\<exists>st' fl'. kfree (x + 32) st = Some st' \<and> heap_ok st' (merge_runs (release x bs)) fl'
    \<and> preserves (live bs - {(x, s)}) st st'"
  by (rule kfree_ok[OF assms]) blast

theorem kfree_refines_witness:
  "\<exists>st st'. kmalloc open_limits 100 boot_heap = Some (0x200020, st) \<and> kfree 0x200020 st = Some st'
    \<and> (\<exists>fl'. heap_ok st' [(0x200000, 33554432, True)] fl')"
proof -
  obtain st fl where st: "kmalloc open_limits 100 boot_heap = Some (0x200020, st)"
      "heap_ok st [(0x200000, 144, False), (0x200090, 33554288, True)] fl" by (rule boot_alloc)
  then show ?thesis using kfree_refines[OF st(2), of "0x200000" 144] by auto
qed

text \<open>
  C8. A double free is harmless: after a live block has been freed, whether or not it was merged with its neighbours, a
  second \<^verbatim>\<open>kfree\<close> of the same pointer is recognised as a double free, reported on the log, and changes nothing else;
  the heap is consistent after both calls.
\<close>

theorem double_free_refused:
  assumes "heap_ok st bs fl" and "(x, s) \<in> live bs"
  shows "\<exists>st' fl'. kfree (x + 32) st = Some st' \<and> heap_ok st' (merge_runs (release x bs)) fl'
    \<and> kfree (x + 32) st' = Some (st'\<lparr>hlog := DoubleFree (x + 32) # hlog st'\<rparr>)"
proof -
  obtain st' fl' where k: "kfree (x + 32) st = Some st'" "heap_ok st' (merge_runs (release x bs)) fl'"
    "preserves (live bs - {(x, s)}) st st'" "blk_magic (hmem st') x = FREE_MAGIC" by (rule kfree_ok[OF assms])
  have core: "core st bs fl" using assms(1) by (simp add: heap_ok_def heap_rep_def)
  then have "heap_start st \<le> x" "x < heap_end st"
    using tiles_member[of "heap_start st" bs "heap_end st" x s False] assms(2) by (auto simp: core_def live_member)
  then show ?thesis
    using k kfree_refused[of "x + 32" st'] by (auto simp: preserves_def hdr_of_def HDR_SIZE_def)
qed

theorem double_free_refused_witness:
  "\<exists>st st'. kmalloc open_limits 100 boot_heap = Some (0x200020, st) \<and> kfree 0x200020 st = Some st'
    \<and> kfree 0x200020 st' = Some (st'\<lparr>hlog := DoubleFree 0x200020 # hlog st'\<rparr>)"
proof -
  obtain st fl where st: "kmalloc open_limits 100 boot_heap = Some (0x200020, st)"
      "heap_ok st [(0x200000, 144, False), (0x200090, 33554288, True)] fl" by (rule boot_alloc)
  then show ?thesis using double_free_refused[OF st(2), of "0x200000" 144] by auto
qed

lemma coalesced_all_free: "coalesced bs \<Longrightarrow> live bs = {} \<Longrightarrow> length bs \<le> 1"
proof (induction bs)
  case (Cons x bs)
  obtain a z f where x: "x = (a, z, f)" by (cases x)
  show ?case
  proof (cases bs)
    case (Cons y ys)
    then show ?thesis using Cons.prems x by (cases y) (auto split: if_splits)
  qed simp
qed simp

text \<open>A consistent heap without live blocks is a single free block.\<close>

lemma all_free_heap:
  assumes "heap_ok st bs fl" and "live bs = {}"
  shows "bs = [(heap_start st, 33554432, True)]
    \<and> (\<forall>sz. sz \<noteq> 0 \<and> unat sz \<le> 33554396 \<and> limits_allow_alloc lim sz \<longrightarrow>
         (\<exists>st'. kmalloc lim sz st = Some (heap_start st + 32, st')))"
proof -
  have core: "core st bs fl" and fl: "set fl = free_addrs bs" and co: "coalesced bs"
    using assms(1) by (auto simp: heap_ok_def heap_rep_def)
  have e: "tiles (heap_start st) bs (heap_start st + 33554432)"
    using core by (auto simp: core_def heap_bounds_def HEAP_SIZE_def)
  have "length bs \<le> 1" by (rule coalesced_all_free[OF co assms(2)])
  moreover have "bs \<noteq> []" using e by auto
  ultimately obtain b z f where "bs = [(b, z, f)]" by (cases bs) auto
  with e assms(2) have bs: "bs = [(heap_start st, 33554432, True)]" by (cases f) auto
  have fl1: "fl = [heap_start st]"
    using fl core bs by (cases fl; cases "tl fl") (auto simp: core_def)
  have "\<exists>st'. kmalloc lim sz st = Some (heap_start st + 32, st')"
    if "sz \<noteq> 0" "unat sz \<le> 33554396" "limits_allow_alloc lim sz" for sz
  proof -
    have "blk_need (unat sz + 4) \<le> 33554432" using that(2) by (simp add: blk_need_def)
    then have "List.find (fits bs (blk_need (unat sz + 4))) fl = Some (heap_start st)"
      by (simp add: bs fl1 fits_def)
    from kmalloc_ok[OF assms(1) that(1) _ that(3) this] that(2) show ?thesis by auto
  qed
  with bs show ?thesis by blast
qed

section \<open>Programs\<close>

text \<open>The heap that \<^verbatim>\<open>vmm_init\<close> sets up has no live block, and a heap without live blocks is as new.\<close>

lemma boot_inv:
  assumes "0 < unat kernel_end" "unat kernel_end + 4096 < 2 ^ 32"
  shows "heap_inv (fst (vmm_init kernel_end (heap_boot m) pm)) Map.empty"
proof -
  let ?st = "fst (vmm_init kernel_end (heap_boot m) pm)"
  have "heap_rep ?st [(heap_start ?st, 33554432, True)] [heap_start ?st]" by (rule heap_rep_init(1)[OF assms])
  moreover have "acct ?st [(heap_start ?st, 33554432, True)]"
    by (simp add: acct_def vmm_init_def heap_boot_def Let_def)
  ultimately have "heap_ok ?st [(heap_start ?st, 33554432, True)] [heap_start ?st]" by (simp add: heap_ok_def canaries_def)
  then show ?thesis by (rule heap_invI) (simp add: owns_def)
qed

lemma drained_state:
  assumes "heap_inv st Map.empty"
  shows "free_list_head st = heap_start st \<and> blk_size (hmem st) (heap_start st) = HEAP_SIZE
    \<and> blk_magic (hmem st) (heap_start st) = FREE_MAGIC \<and> blk_next_free (hmem st) (heap_start st) = 0
    \<and> vmm_heap_used st = Some 0 \<and> vmm_alloc_count st = 0
    \<and> (\<forall>lim sz. sz \<noteq> 0 \<and> unat sz \<le> 33554396 \<and> limits_allow_alloc lim sz \<longrightarrow>
         (\<exists>st'. kmalloc lim sz st = Some (heap_start st + 32, st')))"
proof -
  obtain bs fl where ok: "heap_ok st bs fl" "owns (live bs) Map.empty" using assms by (auto simp: heap_inv_def)
  have lv: "live bs = {}" using ok(2) by (auto simp: owns_def)
  note d = all_free_heap[OF ok(1) lv]
  have bs: "bs = [(heap_start st, 33554432, True)]" using d by blast
  have core: "core st bs fl" "set fl = free_addrs bs" "acct st bs" using ok(1) by (auto simp: heap_ok_def heap_rep_def)
  have fl: "fl = [heap_start st]" using core(1,2) bs by (cases fl; cases "tl fl") (auto simp: core_def)
  have h: "unat (blk_size (hmem st) (heap_start st)) = 33554432" "blk_magic (hmem st) (heap_start st) = FREE_MAGIC"
    "free_list_head st = heap_start st" "blk_next_free (hmem st) (heap_start st) = 0"
    using core(1) by (auto simp: core_def bs fl)
  have "blk_size (hmem st) (heap_start st) = HEAP_SIZE"
    using h(1) by (simp add: word_unat_eq_iff HEAP_SIZE_def)
  moreover have "vmm_heap_used st = Some 0" using vmm_heap_used_eq[OF core(1)] by (simp add: bs used_bytes_def)
  moreover have "vmm_alloc_count st = 0" using core(3) by (simp add: acct_def vmm_alloc_count_def bs live_count_def)
  ultimately show ?thesis using h(2-4) d by blast
qed

text \<open>
  C10. Isolation: from any consistent heap, every program that frees only what it owns runs to
  its end, the heap stays consistent with the blocks it owns, and every block it does not free
  keeps its address and its bytes, whatever else is allocated and freed in between.
\<close>

theorem heap_runs_safe:
  assumes "heap_inv st ow"
    and "well_behaved (\<lambda>s n. kmalloc lim (of_nat n) s) (\<lambda>s p. kfree p s) ok_request ops st ow"
  shows "\<exists>st' ow'. run_ops (\<lambda>s n. kmalloc lim (of_nat n) s) (\<lambda>s p. kfree p s) ops st ow = Some (st', ow')
    \<and> heap_inv st' ow'
    \<and> (\<forall>p n. ow p = Some n \<and> OpFree p \<notin> set ops \<longrightarrow> ow' p = Some n
         \<and> (\<forall>y. p \<le> y \<and> y < p + n \<longrightarrow> hmem st' y = hmem st y))"
  by (rule kheap.run_ops_safe[OF assms])

theorem heap_runs_safe_witness:
  "\<exists>st' ow'. run_ops (\<lambda>s n. kmalloc open_limits (of_nat n) s) (\<lambda>s p. kfree p s)
      [OpAlloc 100, OpFree 0x200020] boot_heap Map.empty = Some (st', ow') \<and> heap_inv st' ow'"
proof -
  obtain st fl where "kmalloc open_limits 100 boot_heap = Some (0x200020, st)" by (rule boot_alloc)
  then have "well_behaved (\<lambda>s n. kmalloc open_limits (of_nat n) s) (\<lambda>s p. kfree p s) ok_request
      [OpAlloc 100, OpFree 0x200020] boot_heap Map.empty"
    by (simp add: ok_request_def split: option.splits)
  from heap_runs_safe[OF boot_heap_inv this] show ?thesis by blast
qed

text \<open>
  C9. Freeing leaves no fragmentation behind: from the heap that \<^verbatim>\<open>vmm_init\<close> sets up behind the kernel, every program
  of allocations and frees that frees only what it owns runs to its end, and when it has freed everything, whatever the
  order, the heap is one free block of 32 MB again, no byte counts as used, and any request that fits the heap is served
  from its start. Requests have at most 2 GB and the kernel ends below 4 GB.
\<close>

theorem heap_drained:
  assumes "0 < unat kernel_end" "unat kernel_end + 4096 < 2 ^ 32"
    and "well_behaved (\<lambda>s n. kmalloc lim (of_nat n) s) (\<lambda>s p. kfree p s) ok_request ops
      (fst (vmm_init kernel_end (heap_boot m) pm)) Map.empty"
  shows "\<exists>st ow. run_ops (\<lambda>s n. kmalloc lim (of_nat n) s) (\<lambda>s p. kfree p s) ops
        (fst (vmm_init kernel_end (heap_boot m) pm)) Map.empty = Some (st, ow)
    \<and> (ow = Map.empty \<longrightarrow> free_list_head st = heap_start st \<and> blk_size (hmem st) (heap_start st) = HEAP_SIZE
         \<and> blk_magic (hmem st) (heap_start st) = FREE_MAGIC \<and> blk_next_free (hmem st) (heap_start st) = 0
         \<and> vmm_heap_used st = Some 0 \<and> vmm_alloc_count st = 0
         \<and> (\<forall>lim' sz. sz \<noteq> 0 \<and> unat sz \<le> 33554396 \<and> limits_allow_alloc lim' sz \<longrightarrow>
              (\<exists>st'. kmalloc lim' sz st = Some (heap_start st + 32, st'))))"
proof -
  obtain st ow where run: "run_ops (\<lambda>s n. kmalloc lim (of_nat n) s) (\<lambda>s p. kfree p s) ops
      (fst (vmm_init kernel_end (heap_boot m) pm)) Map.empty = Some (st, ow)" "heap_inv st ow"
    using kheap.run_ops_safe[OF boot_inv[OF assms(1,2)] assms(3)] by blast
  moreover have "free_list_head st = heap_start st \<and> blk_size (hmem st) (heap_start st) = HEAP_SIZE
      \<and> blk_magic (hmem st) (heap_start st) = FREE_MAGIC \<and> blk_next_free (hmem st) (heap_start st) = 0
      \<and> vmm_heap_used st = Some 0 \<and> vmm_alloc_count st = 0
      \<and> (\<forall>lim' sz. sz \<noteq> 0 \<and> unat sz \<le> 33554396 \<and> limits_allow_alloc lim' sz \<longrightarrow>
           (\<exists>st'. kmalloc lim' sz st = Some (heap_start st + 32, st')))" if "ow = Map.empty"
    using drained_state run(2) that by blast
  ultimately show ?thesis by blast
qed

theorem heap_drained_witness:
  "\<exists>st. run_ops (\<lambda>s n. kmalloc open_limits (of_nat n) s) (\<lambda>s p. kfree p s) [OpAlloc 100, OpFree 0x200020]
      boot_heap Map.empty = Some (st, Map.empty) \<and> (\<exists>st'. kmalloc open_limits 33554396 st = Some (heap_start st + 32, st'))"
proof -
  obtain st1 fl1 where a: "kmalloc open_limits 100 boot_heap = Some (0x200020, st1)"
      "heap_ok st1 [(0x200000, 144, False), (0x200090, 33554288, True)] fl1" by (rule boot_alloc)
  obtain st2 fl2 where f: "kfree (0x200000 + 32) st1 = Some st2" by (rule kfree_ok[OF a(2), of "0x200000" 144]) simp
  have r: "run_ops (\<lambda>s n. kmalloc open_limits (of_nat n) s) (\<lambda>s p. kfree p s) [OpAlloc 100, OpFree 0x200020]
      boot_heap Map.empty = Some (st2, Map.empty)" using a(1) f by simp
  have "well_behaved (\<lambda>s n. kmalloc open_limits (of_nat n) s) (\<lambda>s p. kfree p s) ok_request
      [OpAlloc 100, OpFree 0x200020] boot_heap Map.empty"
    using a(1) by (simp add: ok_request_def split: option.splits)
  then have "\<exists>st'. kmalloc open_limits 33554396 st2 = Some (heap_start st2 + 32, st')"
    using heap_drained[of "0x200000" open_limits "[OpAlloc 100, OpFree 0x200020]" "\<lambda>_. 0" pmm_zero] r
    unfolding boot_heap_def by simp
  with r show ?thesis by blast
qed

section \<open>The consistency check and the byte counts\<close>

text \<open>
  C11. \<^verbatim>\<open>mem_check\<close> ends and returns the number of live blocks whose canary was overwritten:
  no false alarm and no missed overflow of a block's end.
\<close>

theorem mem_check_exact:
  assumes "heap_rep st bs fl"
  shows "mem_check st = Some (length (corrupt (hmem st) bs))
    \<and> (mem_check st = Some 0 \<longleftrightarrow> canaries (hmem st) bs)"
  using mem_check_eq[of st bs fl] assms corrupt_empty_iff[of "hmem st" bs] by (simp add: heap_rep_def)

theorem mem_check_exact_witness: "mem_check boot_heap = Some 0"
  using mem_check_exact[of boot_heap "[(0x200000, 33554432, True)]" "[0x200000]"] boot_heap_ok
  by (simp add: heap_ok_def corrupt_def)

text \<open>
  The two byte counts partition the heap: used bytes, free bytes and one 32-byte header per
  block add up to 32 MB, so neither count can overflow.
\<close>

lemma heap_bytes_partition:
  assumes "heap_rep st bs fl"
  shows "\<exists>u f. vmm_heap_used st = Some u \<and> vmm_heap_reserved st = Some f
    \<and> unat u + unat f + 32 * length bs = unat HEAP_SIZE"
proof -
  have core: "core st bs fl" using assms by (simp add: heap_rep_def)
  then have "heap_start st + used_bytes bs + free_bytes bs + 32 * length bs = heap_end st"
    using bytes_total by (auto simp: core_def)
  then have sum: "used_bytes bs + free_bytes bs + 32 * length bs = 33554432" "unat HEAP_SIZE = 33554432"
    using core by (auto simp: core_def heap_bounds_def HEAP_SIZE_def)
  then have "unat (of_nat (used_bytes bs) :: u64) = used_bytes bs"
    "unat (of_nat (free_bytes bs) :: u64) = free_bytes bs"
    by (auto intro!: unat_of_nat64)
  then show ?thesis
    using sum vmm_heap_used_eq[OF core] vmm_heap_reserved_eq[OF core] by auto
qed


section \<open>Reallocation\<close>

lemma krealloc_cases:
  assumes rep: "heap_rep st bs fl" and x: "(x, s) \<in> live bs" and new: "new \<noteq> 0" "unat new \<le> 2 ^ 31"
  shows "(\<exists>l. krealloc lim (x + 32) new st = Some (0, st\<lparr>hlog := l\<rparr>))
    \<or> (\<exists>x' st'. krealloc lim (x + 32) new st = Some (x' + 32, st') \<and> moved st bs x s (unat new) x' st')"
proof -
  have x': "(x, s, False) \<in> set bs" using x by (simp add: live_member)
  have core: "core st bs fl" using rep by (simp add: heap_rep_def)
  have til: "tiles (heap_start st) bs (heap_end st)" using core by (simp add: core_def)
  have new0: "0 < unat new" using new(1) by (simp add: unat_gt_0)
  note unf = krealloc_unfold[OF core x' new, of lim]
  let ?g = "x + s < heap_end st \<and> blk_magic (hmem st) (x + s) = FREE_MAGIC
      \<and> krealloc_need new \<le> blk_size (hmem st) x + blk_size (hmem st) (x + s)"
  consider "blk_need (unat new) \<le> s" | "s < blk_need (unat new)" ?g | "s < blk_need (unat new)" "\<not> ?g" by linarith
  then show ?thesis
  proof cases
    case 1
    have "unat new + 32 \<le> s" using 1 blk_need_bounds(3)[of "unat new"] by simp
    then have "moved st bs x s (unat new) x st"
      unfolding moved_def using rep x by (intro exI[of _ bs] exI[of _ fl] exI[of _ s]) (simp add: preserves_def keeps_def)
    then show ?thesis using unf 1 by auto
  next
    case 2
    obtain us vs where bs: "bs = us @ (x, s, False) # vs" using x' by (metis split_list)
    obtain t g ws where vs: "vs = (x + s, t, g) # ws" using tiles_next[OF til[unfolded bs]] 2(2) by auto
    have mem: "(x + s, t, g) \<in> set bs" by (simp add: bs vs)
    have g: g using core_magic[OF core mem] 2(2) by (auto split: if_splits)
    have "unat (blk_size (hmem st) x + blk_size (hmem st) (x + s)) = s + t"
      using core_size[OF core x'] core_size[OF core mem] by (subst unat_add32_no_wrap) simp_all
    then have "blk_need (unat new) \<le> s + t" using 2(2) need_nat(2)[OF new(2)] by (simp add: word_le_nat_alt)
    from krealloc_grow[OF rep[unfolded bs vs, simplified g] new0 new(2) 2(1) this, of lim]
    show ?thesis using bs vs g by (metis (full_types))
  next
    case 3
    have fail: ?thesis if "kmalloc lim new st = Some (0, st\<lparr>hlog := l\<rparr>)" for l
      using unf 3 that by auto
    show ?thesis
    proof (cases "limits_allow_alloc lim new")
      case False
      then show ?thesis using fail new(1) by (simp add: kmalloc_def Let_def)
    next
      case lim: True
      show ?thesis
      proof (cases "List.find (fits bs (blk_need (unat new + 4))) fl")
        case None
        then show ?thesis
          using fail kmalloc_exhausted[OF core new(1) lim] need_nat(1)[OF new(2)] by simp
      next
        case (Some x1)
        from krealloc_move[OF rep x' new lim Some 3] show ?thesis by blast
      qed
    qed
  qed
qed

text \<open>
  C13. \<^verbatim>\<open>krealloc\<close> of a live block either fails and changes nothing but the log, or returns a
  live block with room for the new size that holds the old contents up to the smaller of the two
  sizes; the structure of the heap and the bytes of all other live blocks are kept. The new block
  is the old one when it is large enough or its free successor makes it so.
\<close>

theorem krealloc_correct:
  assumes "heap_rep st bs fl" and "(x, s) \<in> live bs" and "new \<noteq> 0" and "unat new \<le> 2 ^ 31"
  shows "\<exists>p st'. krealloc lim (x + 32) new st = Some (p, st')
    \<and> (p = 0 \<longrightarrow> (\<exists>l. st' = st\<lparr>hlog := l\<rparr>)) \<and> (p \<noteq> 0 \<longrightarrow> 32 \<le> p \<and> moved st bs x s (unat new) (p - 32) st')"
  using krealloc_cases[OF assms, of lim] by fastforce

theorem krealloc_correct_witness:
  "\<exists>st. kmalloc open_limits 100 boot_heap = Some (0x200020, st)
    \<and> (\<exists>p st'. krealloc open_limits 0x200020 4000 st = Some (p, st') \<and> p \<noteq> 0)"
proof -
  let ?bs = "[(0x200000, 144, False), (0x200090, 33554288, True)] :: blk list"
  obtain st fl where st: "kmalloc open_limits 100 boot_heap = Some (0x200020, st)"
      "heap_ok st ?bs fl" by (rule boot_alloc)
  then have rep: "heap_rep st ?bs fl" by (simp add: heap_ok_def)
  have ok: "(0x200000, 144) \<in> live ?bs" "(4000 :: u64) \<noteq> 0" "unat (4000 :: u64) \<le> 2 ^ 31" by simp_all
  have "\<exists>st'. krealloc open_limits (0x200000 + 32) 4000 st = Some (0x200000 + 32, st')"
    using krealloc_grow[of st "[]" "0x200000" 144 "0x200090" 33554288 "[]" fl 4000 open_limits] rep
    by (simp add: blk_need_def) blast
  with krealloc_correct[OF rep ok, of open_limits] st(1) show ?thesis by auto
qed

text \<open>
  A request just below 4 GB wraps the 32-bit block size: on every consistent heap whose
  first free block has 96 bytes or more, \<^verbatim>\<open>kmalloc(0xFFFFFFFC)\<close> succeeds and returns a block of
  32 bytes, a header with no payload at all.
\<close>

lemma kmalloc_wraps_at_4G:
  assumes "core st bs (x # fl)" and "(x, s, True) \<in> set bs" and "96 \<le> s" and "limits_allow_alloc lim 0xFFFFFFFC"
  shows "\<exists>st'. kmalloc lim 0xFFFFFFFC st = Some (x + 32, st') \<and> blk_size (hmem st') x = 32"
proof -
  have need: "kmalloc_need 0xFFFFFFFC = 32"
    by (simp add: kmalloc_need_def ALIGN16_def CANARY_SZ_def HDR_SIZE_def MIN_BLOCK_def)
  have x: "x \<in> addrs bs" "x \<noteq> 0" using assms(1,2) core_addr by (auto simp: addrs_iff) (metis core_addr assms(1) addrs_iff less_irrefl)
  have "fits bs 32 x" unfolding fits_def using assms(2,3) by (intro bexI[of _ "(x, s, True)"]) auto
  then have ff: "first_fit (hmem st) 32 (free_list_head st) = Some x"
    using first_fit_rep[OF assms(1), of 32] by simp
  obtain st1 where st1: "fl_remove x st = Some st1" "core st1 bs (remove1 x (x # fl))"
    by (rule core_fl_remove[OF assms(1)]) auto
  have "unat (blk_size (hmem st1) x) = s" by (rule core_size(1)[OF st1(2) assms(2)])
  then have "(32 :: u32) + SPLIT_THRESH \<le> blk_size (hmem st1) x"
    using assms(3) by (simp add: SPLIT_THRESH_def word_le_nat_alt)
  then have "blk_size (hmem (split_blk x 32 st1)) x = 32" by (simp add: split_blk_def Let_def)
  then have "blk_size (tail_write x (set_blk_magic x ALLOC_MAGIC (hmem (split_blk x 32 st1)))) x = 32"
    by (simp add: tail_write_def HDR_SIZE_def CANARY_SZ_def)
  then show ?thesis
    using need ff st1 x assms(4) by (simp add: kmalloc_def Let_def payload_def HDR_SIZE_def)
qed

lemma kmalloc_wraps_at_boot:
  "\<exists>st'. kmalloc open_limits 0xFFFFFFFC boot_heap = Some (0x200020, st') \<and> blk_size (hmem st') 0x200000 = 32"
  using kmalloc_wraps_at_4G[of boot_heap "[(0x200000, 33554432, True)]" "0x200000" "[]" 33554432 open_limits]
    boot_heap_ok by (simp add: heap_ok_def heap_rep_def)

end
