(* ===== verification/Pressure.thy ===== *)
theory Pressure
  imports Heap_Props
begin

text \<open>
  The accounting half of \<^verbatim>\<open>kernel/limits.c\<close>: the thresholds computed at boot and the periodic
  update that reads the heap and the page allocator and sets the warn and deny flags, which
  \<^verbatim>\<open>kmalloc\<close> consults through \<open>limits_allow_alloc\<close>.
\<close>

datatype pressure_msg = HeapCritical u32 | PressureCleared u32 | HeapWarning u32

definition limits_init :: "pmm \<Rightarrow> system_limits \<Rightarrow> system_limits" where
  "limits_init p lim =
     (let total = ucast (pmm_total_bytes p div 1024) :: u32
      in lim\<lparr>mem_total_kb := total,
             mem_warn_threshold_kb := (total * MEM_WARN_PCT) div 100,
             mem_deny_threshold_kb := (total * MEM_DENY_PCT) div 100\<rparr>)"

definition heap_total_kb :: u32 where "heap_total_kb = 32768"

definition limits_update :: "pmm \<Rightarrow> heap \<Rightarrow> system_limits \<Rightarrow> (system_limits \<times> pressure_msg list) option" where
  "limits_update p st lim =
     (case (vmm_heap_used st, vmm_heap_reserved st) of
        (Some used, Some reserved) \<Rightarrow>
          let used0 = ucast (used div 1024) :: u32;
              heap_used_kb = (if heap_total_kb < used0 then heap_total_kb else used0);
              free_kb = pmm_free_pages p * 4;
              raw_used_kb = (if free_kb < mem_total_kb lim then mem_total_kb lim - free_kb else 0);
              heap_reserved = ucast (reserved div 1024) :: u32;
              warn_kb = (heap_total_kb * MEM_WARN_PCT) div 100;
              deny_kb = (heap_total_kb * MEM_DENY_PCT) div 100;
              was_warn = mem_warn_active lim; was_deny = mem_deny_active lim;
              lim1 = lim\<lparr>mem_used_kb := (if heap_reserved < raw_used_kb
                                          then raw_used_kb - heap_reserved else heap_used_kb),
                         mem_warn_active := warn_kb \<le> heap_used_kb,
                         mem_deny_active := deny_kb \<le> heap_used_kb\<rparr>
          in Some (if mem_deny_active lim1 \<and> \<not> was_deny then (lim1, [HeapCritical heap_used_kb])
                   else if \<not> mem_deny_active lim1 \<and> was_deny
                   then (lim1\<lparr>mem_deny_active := False\<rparr>, [PressureCleared heap_used_kb])
                   else if mem_warn_active lim1 \<and> \<not> was_warn then (lim1, [HeapWarning heap_used_kb])
                   else (lim1, []))
      | _ \<Rightarrow> None)"

text \<open>The thresholds in kilobytes: 80 and 90 percent of the heap window, rounded down.\<close>

lemma thresholds: "(heap_total_kb * MEM_WARN_PCT) div 100 = 26214" "(heap_total_kb * MEM_DENY_PCT) div 100 = 29491"
  by (simp_all add: heap_total_kb_def MEM_WARN_PCT_def MEM_DENY_PCT_def)

lemma limits_update_flags:
  assumes "heap_rep st bs fl"
  shows "\<exists>lim' msgs. limits_update p st lim = Some (lim', msgs)
    \<and> (mem_warn_active lim' \<longleftrightarrow> 26214 \<le> used_bytes bs div 1024)
    \<and> (mem_deny_active lim' \<longleftrightarrow> 29491 \<le> used_bytes bs div 1024)"
proof -
  have core: "core st bs fl" using assms(1) by (simp add: heap_rep_def)
  have "heap_start st + used_bytes bs + free_bytes bs + 32 * length bs = heap_end st"
    using core bytes_total by (auto simp: core_def)
  then have le: "used_bytes bs \<le> 33554432"
    using core by (auto simp: core_def heap_bounds_def HEAP_SIZE_def)
  define kb where "kb = (ucast ((of_nat (used_bytes bs) :: u64) div 1024) :: u32)"
  have "unat (of_nat (used_bytes bs) :: u64) = used_bytes bs" using le by (intro unat_of_nat64) simp
  then have k: "unat kb = used_bytes bs div 1024"
    using le by (simp add: unat_div kb_def)
  have small: "\<not> heap_total_kb < kb"
    using le k by (simp add: word_less_nat_alt heap_total_kb_def)
  have "26214 \<le> kb \<longleftrightarrow> 26214 \<le> used_bytes bs div 1024" "29491 \<le> kb \<longleftrightarrow> 29491 \<le> used_bytes bs div 1024"
    by (simp_all add: word_le_nat_alt k)
  then show ?thesis
    using vmm_heap_used_eq[OF core] vmm_heap_reserved_eq[OF core] small
    unfolding limits_update_def Let_def thresholds
    by (simp add: kb_def[symmetric])
qed

text \<open>
  The rule of the header \<^verbatim>\<open>limits.h\<close>: an allocation is denied when it would push the use of the heap above 90 percent.
\<close>

definition over_limit :: "nat \<Rightarrow> nat \<Rightarrow> bool" where
  "over_limit used sz \<longleftrightarrow> 90 * unat HEAP_SIZE < 100 * (used + sz)"

text \<open>
  C15. Memory pressure on a well-formed heap, in the cases where the gate and the rule of the header agree. A sample of the use always
  succeeds. Right after it, \<^verbatim>\<open>kmalloc\<close> passes the gate for every request that leaves the use within the threshold, the
  whole kilobytes below 90 percent of the heap. Once the threshold has been reached, every request of more than 64 bytes
  that is over the limit is refused: \<^verbatim>\<open>kmalloc\<close> returns null and leaves the heap as it is, with one message in the log. In the other cases the
  code does not follow the header: it never adds the request to the sampled use, and it never refuses 64 bytes or less.
\<close>

theorem pressure_gate:
  assumes "heap_rep st bs fl"
  shows "\<exists>lim' msgs. limits_update p st lim = Some (lim', msgs)
    \<and> (used_bytes bs + unat sz < 29491 * 1024 \<longrightarrow> \<not> over_limit (used_bytes bs) (unat sz) \<and> limits_allow_alloc lim' sz)
    \<and> (29491 * 1024 \<le> used_bytes bs \<and> 64 < sz \<and> over_limit (used_bytes bs) (unat sz) \<longrightarrow> kmalloc lim' sz st = Some (0, st\<lparr>hlog := AllocDenied sz # hlog st\<rparr>))"
proof -
  obtain lim' msgs where u: "limits_update p st lim = Some (lim', msgs)"
    and d: "mem_deny_active lim' \<longleftrightarrow> 29491 \<le> used_bytes bs div 1024"
    using limits_update_flags[OF assms, of p lim] by blast
  have "29491 \<le> used_bytes bs div 1024 \<longleftrightarrow> 29491 * 1024 \<le> used_bytes bs"
    by (simp add: less_eq_div_iff_mult_less_eq)
  then show ?thesis using u d
    by (auto simp: limits_allow_alloc_def kmalloc_def Let_def over_limit_def HEAP_SIZE_def not_le)
qed

theorem pressure_gate_witness:
  "\<exists>lim' msgs. limits_update pmm_zero boot_heap g_limits = Some (lim', msgs) \<and> limits_allow_alloc lim' 5000"
proof -
  have "heap_rep boot_heap [(0x200000, 33554432, True)] [0x200000]"
    using boot_heap_ok by (simp add: heap_ok_def)
  from pressure_gate[OF this, of pmm_zero g_limits 5000] show ?thesis by (auto simp: used_bytes_def)
qed

end
