(* ===== verification/Input_Router.thy ===== *)
theory Input_Router
  imports Prelude
begin

text \<open>
  The per-task keyboard queues of \<^verbatim>\<open>kernel/drivers/ps2/input_router.c\<close>: a ring of 64 bytes per
  task slot, filled by the keyboard interrupt through the focused task and drained by its owner.
  Each ring refines a bounded first-in first-out queue of at most 63 characters; the interface
  \<open>bounded_fifo\<close> states that contract and what follows for every interleaving of the producer
  and the consumer.
\<close>

section \<open>State and operations\<close>

definition TASK_MAX :: nat where "TASK_MAX = 32"
definition IR_QUEUE_SIZE :: nat where "IR_QUEUE_SIZE = 64"

record ir_queue =
  qbuf :: "nat \<Rightarrow> u8"
  qhead :: nat
  qtail :: nat

record router =
  g_queues :: "nat \<Rightarrow> ir_queue"
  g_focused :: int
  g_desktop_task :: int

text \<open>\<^verbatim>\<open>(i + 1) & IR_QUEUE_MASK\<close>: the mask is \<open>IR_QUEUE_SIZE - 1\<close> and the index is not negative.\<close>

definition ir_next :: "nat \<Rightarrow> nat" where "ir_next i = (i + 1) mod IR_QUEUE_SIZE"

definition valid_slot :: "int \<Rightarrow> bool" where "valid_slot i \<longleftrightarrow> 0 \<le> i \<and> i < int TASK_MAX"

definition ir_put :: "u8 \<Rightarrow> ir_queue \<Rightarrow> ir_queue" where
  "ir_put c q =
     (if ir_next (qtail q) = qhead q then q
      else q\<lparr>qbuf := (qbuf q)(qtail q := c), qtail := ir_next (qtail q)\<rparr>)"

definition ir_get :: "ir_queue \<Rightarrow> u8 option \<times> ir_queue" where
  "ir_get q =
     (if qhead q = qtail q then (None, q)
      else (Some (qbuf q (qhead q)), q\<lparr>qhead := ir_next (qhead q)\<rparr>))"

definition set_queue :: "int \<Rightarrow> ir_queue \<Rightarrow> router \<Rightarrow> router" where
  "set_queue i q r = r\<lparr>g_queues := (g_queues r)(nat i := q)\<rparr>"

definition queue_at :: "router \<Rightarrow> int \<Rightarrow> ir_queue" where "queue_at r i = g_queues r (nat i)"

definition input_router_set_desktop_task :: "int \<Rightarrow> router \<Rightarrow> router" where
  "input_router_set_desktop_task i r = (if valid_slot i then r\<lparr>g_desktop_task := i\<rparr> else r)"

definition input_router_init :: "router \<Rightarrow> router" where
  "input_router_init r =
     r\<lparr>g_queues := (\<lambda>i. if i < TASK_MAX then (g_queues r i)\<lparr>qhead := 0, qtail := 0\<rparr> else g_queues r i),
       g_focused := 0\<rparr>"

definition input_router_set_focus :: "int \<Rightarrow> router \<Rightarrow> router" where
  "input_router_set_focus i r =
     (if \<not> valid_slot i then r else if g_focused r \<noteq> i then r\<lparr>g_focused := i\<rparr> else r)"

definition input_router_get_focus :: "router \<Rightarrow> int" where "input_router_get_focus r = g_focused r"

definition input_router_push :: "u8 \<Rightarrow> router \<Rightarrow> router" where
  "input_router_push c r =
     (let i = g_focused r
      in if \<not> valid_slot i then r else set_queue i (ir_put c (queue_at r i)) r)"

definition input_router_push_to :: "int \<Rightarrow> u8 \<Rightarrow> router \<Rightarrow> router" where
  "input_router_push_to i c r =
     (if \<not> valid_slot i then r else set_queue i (ir_put c (queue_at r i)) r)"

text \<open>The result is the character as \<^verbatim>\<open>unsigned char\<close>, or -1.\<close>

definition input_router_getchar :: "int \<Rightarrow> router \<Rightarrow> int \<times> router" where
  "input_router_getchar i r =
     (if \<not> valid_slot i then (-1, r)
      else (case ir_get (queue_at r i) of
          (None, q) \<Rightarrow> (-1, r)
        | (Some c, q) \<Rightarrow> (int (unat c), set_queue i q r)))"

text \<open>
  The blocking read polls and yields. What the rest of the system does during the \<open>k\<close>-th yield is
  the parameter \<open>env k\<close>; the loop does not return while no character arrives.
\<close>

partial_function (option) input_router_getchar_wait ::
    "(nat \<Rightarrow> router \<Rightarrow> router) \<Rightarrow> nat \<Rightarrow> int \<Rightarrow> router \<Rightarrow> (u8 \<times> router) option" where
  "input_router_getchar_wait env k i r =
     (let (c, r') = input_router_getchar i r
      in if c < 0 then input_router_getchar_wait env (Suc k) i (env k r')
         else Some (word_of_int c, r'))"

declare input_router_getchar_wait.simps [code]

definition input_router_flush :: "int \<Rightarrow> router \<Rightarrow> router" where
  "input_router_flush i r =
     (if \<not> valid_slot i then r
      else set_queue i ((queue_at r i)\<lparr>qhead := qtail (queue_at r i)\<rparr>) r)"

definition input_router_task_exit :: "int \<Rightarrow> router \<Rightarrow> router" where
  "input_router_task_exit i r =
     (let r1 = input_router_flush i r
      in if g_focused r1 = i then r1\<lparr>g_focused := g_desktop_task r1\<rparr> else r1)"

section \<open>A ring is a bounded queue\<close>

definition ir_count :: "ir_queue \<Rightarrow> nat" where
  "ir_count q = (qtail q + IR_QUEUE_SIZE - qhead q) mod IR_QUEUE_SIZE"

definition ir_contents :: "ir_queue \<Rightarrow> u8 list" where
  "ir_contents q = map (\<lambda>k. qbuf q ((qhead q + k) mod IR_QUEUE_SIZE)) [0..<ir_count q]"

definition ir_inv :: "ir_queue \<Rightarrow> bool" where
  "ir_inv q \<longleftrightarrow> qhead q < IR_QUEUE_SIZE \<and> qtail q < IR_QUEUE_SIZE"

lemma ir_length [simp]: "length (ir_contents q) = ir_count q"
  by (simp add: ir_contents_def)

lemma ir_count_less: "ir_count q < 64"
  by (simp add: ir_count_def IR_QUEUE_SIZE_def)

text \<open>The modular arithmetic of the indices as case distinctions.\<close>

lemma mod64_if: "(i :: nat) < 128 \<Longrightarrow> i mod 64 = (if i < 64 then i else i - 64)"
  by (simp add: le_mod_geq)

lemma ir_count_if:
  "ir_inv q \<Longrightarrow> ir_count q = (if qhead q \<le> qtail q then qtail q - qhead q else qtail q + 64 - qhead q)"
  unfolding ir_count_def ir_inv_def IR_QUEUE_SIZE_def by (subst mod64_if) auto

lemma ir_next_if: "i < 64 \<Longrightarrow> ir_next i = (if i = 63 then 0 else i + 1)"
  by (simp add: ir_next_def IR_QUEUE_SIZE_def)

lemma ir_next_less: "ir_next i < IR_QUEUE_SIZE"
  by (simp add: ir_next_def IR_QUEUE_SIZE_def)

lemma ir_full_iff: "ir_inv q \<Longrightarrow> ir_next (qtail q) = qhead q \<longleftrightarrow> ir_count q = 63"
  by (auto simp: ir_count_if ir_next_if ir_inv_def IR_QUEUE_SIZE_def)

lemma ir_empty_iff: "ir_inv q \<Longrightarrow> qhead q = qtail q \<longleftrightarrow> ir_count q = 0"
  by (auto simp: ir_count_if ir_inv_def IR_QUEUE_SIZE_def)

lemma ir_put_spec:
  assumes "ir_inv q"
  shows "ir_inv (ir_put c q)"
    and "ir_contents (ir_put c q) = (if length (ir_contents q) < 63 then ir_contents q @ [c] else ir_contents q)"
proof -
  show "ir_inv (ir_put c q)"
    using assms by (simp add: ir_put_def ir_inv_def ir_next_def IR_QUEUE_SIZE_def)
  show "ir_contents (ir_put c q) = (if length (ir_contents q) < 63 then ir_contents q @ [c] else ir_contents q)"
  proof (cases "ir_count q = 63")
    case True
    then show ?thesis using ir_full_iff[OF assms] by (simp add: ir_put_def)
  next
    case False
    then have put: "ir_put c q = q\<lparr>qbuf := (qbuf q)(qtail q := c), qtail := ir_next (qtail q)\<rparr>"
      using ir_full_iff[OF assms] by (simp add: ir_put_def)
    have lt: "ir_count q < 63" using False ir_count_less[of q] by simp
    have "ir_inv (ir_put c q)" using assms ir_next_less by (simp add: put ir_inv_def)
    then have cnt: "ir_count (ir_put c q) = ir_count q + 1"
      using lt assms by (auto simp: ir_count_if put ir_next_if ir_inv_def IR_QUEUE_SIZE_def split: if_splits)
    have pos: "(qhead q + k) mod 64 = qtail q \<longleftrightarrow> k = ir_count q" if "k \<le> ir_count q" for k
      using that lt assms by (auto simp: ir_count_if mod64_if ir_inv_def IR_QUEUE_SIZE_def split: if_splits)
    have "ir_contents (ir_put c q)
        = map (\<lambda>k. if k = ir_count q then c else qbuf q ((qhead q + k) mod 64)) [0..<ir_count q + 1]"
      using pos unfolding ir_contents_def cnt by (auto simp: put IR_QUEUE_SIZE_def)
    then show ?thesis using lt by (simp add: ir_contents_def IR_QUEUE_SIZE_def)
  qed
qed

lemma ir_get_spec:
  assumes "ir_inv q"
  shows "ir_inv (snd (ir_get q))"
    and "ir_contents q = [] \<Longrightarrow> ir_get q = (None, q)"
    and "ir_contents q = c # cs \<Longrightarrow> fst (ir_get q) = Some c \<and> ir_contents (snd (ir_get q)) = cs"
proof -
  show "ir_inv (snd (ir_get q))"
    using assms by (simp add: ir_get_def ir_inv_def ir_next_def IR_QUEUE_SIZE_def)
  show "ir_contents q = [] \<Longrightarrow> ir_get q = (None, q)"
    using ir_empty_iff[OF assms] by (simp add: ir_get_def ir_contents_def)
  show "fst (ir_get q) = Some c \<and> ir_contents (snd (ir_get q)) = cs" if cs: "ir_contents q = c # cs"
  proof -
    have "0 < ir_count q" using cs ir_length[of q] by simp
    then obtain n where n: "ir_count q = Suc n" by (cases "ir_count q") auto
    then have ne: "qhead q \<noteq> qtail q" using ir_empty_iff[OF assms] by simp
    have split: "ir_contents q = qbuf q (qhead q) # map (\<lambda>k. qbuf q ((qhead q + Suc k) mod 64)) [0..<n]"
      using assms by (simp add: ir_contents_def n map_upt_Suc ir_inv_def IR_QUEUE_SIZE_def del: upt_Suc)
    have "ir_inv (q\<lparr>qhead := ir_next (qhead q)\<rparr>)" using assms ir_next_less by (simp add: ir_inv_def)
    then have "ir_count (q\<lparr>qhead := ir_next (qhead q)\<rparr>) = n"
      using n assms by (auto simp: ir_count_if ir_next_if ir_inv_def IR_QUEUE_SIZE_def split: if_splits)
    then have "ir_contents (q\<lparr>qhead := ir_next (qhead q)\<rparr>) = map (\<lambda>k. qbuf q ((qhead q + Suc k) mod 64)) [0..<n]"
      by (simp add: ir_contents_def ir_next_def IR_QUEUE_SIZE_def mod_add_left_eq)
    then show ?thesis using ne split cs by (simp add: ir_get_def)
  qed
qed


section \<open>The interface of a bounded queue\<close>

datatype 'c fifo_op = Put 'c | Get

fun fifo_run :: "('c \<Rightarrow> 'q \<Rightarrow> 'q) \<Rightarrow> ('q \<Rightarrow> 'c option \<times> 'q) \<Rightarrow> 'c fifo_op list \<Rightarrow> 'q \<Rightarrow> 'c list \<times> 'q" where
  "fifo_run put get [] q = ([], q)"
| "fifo_run put get (Put c # ops) q = fifo_run put get ops (put c q)"
| "fifo_run put get (Get # ops) q =
     (case get q of (None, q') \<Rightarrow> fifo_run put get ops q'
      | (Some c, q') \<Rightarrow> (case fifo_run put get ops q' of (cs, q'') \<Rightarrow> (c # cs, q'')))"

text \<open>The characters that found room, in order.\<close>

fun accepted :: "nat \<Rightarrow> 'c fifo_op list \<Rightarrow> nat \<Rightarrow> 'c list" where
  "accepted cap [] n = []"
| "accepted cap (Put c # ops) n =
     (if n < cap then c # accepted cap ops (n + 1) else accepted cap ops n)"
| "accepted cap (Get # ops) n = accepted cap ops (n - 1)"

locale bounded_fifo =
  fixes put :: "'c \<Rightarrow> 'q \<Rightarrow> 'q"
    and get :: "'q \<Rightarrow> 'c option \<times> 'q"
    and contents :: "'q \<Rightarrow> 'c list"
    and inv :: "'q \<Rightarrow> bool"
    and cap :: nat
  assumes put_law: "inv q \<Longrightarrow> inv (put c q)
      \<and> contents (put c q) = (if length (contents q) < cap then contents q @ [c] else contents q)"
    and get_law: "inv q \<Longrightarrow> inv (snd (get q)) \<and> (contents q = [] \<longrightarrow> get q = (None, q))
      \<and> (\<forall>c cs. contents q = c # cs \<longrightarrow> fst (get q) = Some c \<and> contents (snd (get q)) = cs)"
begin

lemma run_fifo:
  "inv q \<Longrightarrow> inv (snd (fifo_run put get ops q))
    \<and> fst (fifo_run put get ops q) @ contents (snd (fifo_run put get ops q))
      = contents q @ accepted cap ops (length (contents q))"
proof (induction ops arbitrary: q)
  case (Cons e ops)
  show ?case
  proof (cases e)
    case (Put c)
    have p: "inv (put c q)"
      "contents (put c q) = (if length (contents q) < cap then contents q @ [c] else contents q)"
      using put_law[OF Cons.prems] by blast+
    show ?thesis using Cons.IH[OF p(1)] by (simp add: Put p(2))
  next
    case Get
    have g: "inv (snd (get q))" using get_law[OF Cons.prems] by blast
    show ?thesis
    proof (cases "contents q")
      case Nil
      then have "get q = (None, q)" using get_law[OF Cons.prems] by blast
      then show ?thesis using Cons.IH[OF Cons.prems] Get Nil by simp
    next
      case cs: (Cons c cs)
      then obtain q' where q': "get q = (Some c, q')" "contents q' = cs"
        using get_law[OF Cons.prems] by (cases "get q") auto
      then show ?thesis using Cons.IH[of q'] g Get cs by (auto split: prod.splits)
    qed
  qed
qed simp

end

text \<open>Reading through the router, with -1 as the absence of a character.\<close>

definition router_get :: "int \<Rightarrow> router \<Rightarrow> u8 option \<times> router" where
  "router_get i r = (case input_router_getchar i r of
     (c, r') \<Rightarrow> (if c < 0 then None else Some (word_of_int c), r'))"

definition slot_ok :: "int \<Rightarrow> router \<Rightarrow> bool" where
  "slot_ok i r \<longleftrightarrow> valid_slot i \<and> ir_inv (queue_at r i)"

definition slot_chars :: "int \<Rightarrow> router \<Rightarrow> u8 list" where
  "slot_chars i r = ir_contents (queue_at r i)"

lemma queue_at_set [simp]: "valid_slot i \<Longrightarrow> valid_slot j \<Longrightarrow>
    queue_at (set_queue i q r) j = (if i = j then q else queue_at r j)"
  by (auto simp: queue_at_def set_queue_def valid_slot_def)

lemma push_to_spec:
  assumes "slot_ok i r"
  shows "slot_ok i (input_router_push_to i c r)"
    and "slot_chars i (input_router_push_to i c r)
      = (if length (slot_chars i r) < 63 then slot_chars i r @ [c] else slot_chars i r)"
  using assms ir_put_spec[of "queue_at r i" c]
  by (auto simp: slot_ok_def slot_chars_def input_router_push_to_def)

lemma getchar_spec:
  assumes "slot_ok i r"
  shows "slot_ok i (snd (input_router_getchar i r))"
    and "slot_chars i r = [] \<Longrightarrow> input_router_getchar i r = (-1, r)"
    and "slot_chars i r = c # cs \<Longrightarrow> fst (input_router_getchar i r) = int (unat c)
      \<and> slot_chars i (snd (input_router_getchar i r)) = cs"
  using assms ir_get_spec[of "queue_at r i"] unfolding slot_ok_def slot_chars_def input_router_getchar_def
  by (auto split: prod.splits option.splits)

interpretation router_fifo: bounded_fifo "input_router_push_to i" "router_get i" "slot_chars i" "slot_ok i" 63
  for i :: int
proof
  fix r :: router and c :: u8 assume ok: "slot_ok i r"
  show "slot_ok i (input_router_push_to i c r) \<and> slot_chars i (input_router_push_to i c r)
      = (if length (slot_chars i r) < 63 then slot_chars i r @ [c] else slot_chars i r)"
    using push_to_spec[OF ok] by blast
  show "slot_ok i (snd (router_get i r)) \<and> (slot_chars i r = [] \<longrightarrow> router_get i r = (None, r))
      \<and> (\<forall>c cs. slot_chars i r = c # cs \<longrightarrow> fst (router_get i r) = Some c \<and> slot_chars i (snd (router_get i r)) = cs)"
    using getchar_spec[OF ok] unfolding router_get_def by (auto split: prod.splits)
qed

text \<open>Leaving a task: its queue is empty and the focus is not left on it.\<close>

definition router_inv :: "router \<Rightarrow> bool" where
  "router_inv r \<longleftrightarrow> valid_slot (g_focused r) \<and> valid_slot (g_desktop_task r)
     \<and> (\<forall>i < TASK_MAX. ir_inv (g_queues r i))"

lemma task_exit_spec:
  assumes "router_inv r" and "valid_slot i"
  shows "router_inv (input_router_task_exit i r)" and "slot_chars i (input_router_task_exit i r) = []"
    and "g_desktop_task r \<noteq> i \<Longrightarrow> g_focused (input_router_task_exit i r) \<noteq> i"
    and "valid_slot j \<Longrightarrow> j \<noteq> i \<Longrightarrow> slot_chars j (input_router_task_exit i r) = slot_chars j r"
proof -
  have i: "ir_inv (queue_at r i)"
    using assms by (auto simp: router_inv_def queue_at_def valid_slot_def)
  then show "router_inv (input_router_task_exit i r)"
    using assms by (auto simp: router_inv_def input_router_task_exit_def input_router_flush_def Let_def
        set_queue_def ir_inv_def)
  have "ir_contents (q\<lparr>qhead := qtail q\<rparr>) = []" for q by (simp add: ir_contents_def ir_count_def)
  then show "slot_chars i (input_router_task_exit i r) = []"
    using assms(2) by (auto simp: slot_chars_def input_router_task_exit_def input_router_flush_def Let_def
        queue_at_def set_queue_def)
  show "g_desktop_task r \<noteq> i \<Longrightarrow> g_focused (input_router_task_exit i r) \<noteq> i"
    using assms(2) by (auto simp: input_router_task_exit_def input_router_flush_def Let_def set_queue_def)
  show "valid_slot j \<Longrightarrow> j \<noteq> i \<Longrightarrow> slot_chars j (input_router_task_exit i r) = slot_chars j r"
    using assms(2) by (auto simp: slot_chars_def input_router_task_exit_def input_router_flush_def Let_def
        queue_at_def set_queue_def valid_slot_def)
qed

section \<open>Properties\<close>

definition router_zero :: router where
  "router_zero = input_router_init
     \<lparr>g_queues = (\<lambda>_. \<lparr>qbuf = (\<lambda>_. 0), qhead = 0, qtail = 0\<rparr>), g_focused = 0, g_desktop_task = 0\<rparr>"

lemma router_zero_ok: "valid_slot i \<Longrightarrow> slot_ok i router_zero" "slot_chars i router_zero = []"
  by (simp_all add: slot_ok_def slot_chars_def router_zero_def input_router_init_def ir_inv_def
      queue_at_def IR_QUEUE_SIZE_def ir_contents_def ir_count_def)

text \<open>
  C16. However pushes into a task's queue and reads from it interleave, the characters read
  followed by those still queued are the characters queued at the start followed by those that
  found room, in order: nothing is duplicated, reordered or lost except by a full queue.
\<close>

theorem router_is_fifo:
  assumes "slot_ok i r"
  shows "fst (fifo_run (input_router_push_to i) (router_get i) ops r)
      @ slot_chars i (snd (fifo_run (input_router_push_to i) (router_get i) ops r))
    = slot_chars i r @ accepted 63 ops (length (slot_chars i r))"
  using router_fifo.run_fifo[OF assms] by blast

theorem router_is_fifo_witness:
  "fst (fifo_run (input_router_push_to 3) (router_get 3) [Put 65, Put 66, Get, Put 67, Get] router_zero)
    @ slot_chars 3 (snd (fifo_run (input_router_push_to 3) (router_get 3)
        [Put 65, Put 66, Get, Put 67, Get] router_zero)) = [65, 66, 67]"
  using router_is_fifo[OF router_zero_ok(1), of 3 "[Put 65, Put 66, Get, Put 67, Get]"]
  by (simp add: router_zero_ok valid_slot_def TASK_MAX_def)

fun env_run :: "(nat \<Rightarrow> router \<Rightarrow> router) \<Rightarrow> nat \<Rightarrow> nat \<Rightarrow> router \<Rightarrow> router" where
  "env_run env k 0 r = r"
| "env_run env k (Suc n) r = env_run env (Suc k) n (env k r)"

lemma getchar_wait_first:
  assumes "\<And>m. m \<le> n \<Longrightarrow> slot_ok i (env_run env k m r)"
    and "\<And>m. m < n \<Longrightarrow> slot_chars i (env_run env k m r) = []"
    and "slot_chars i (env_run env k n r) = c # cs"
  shows "input_router_getchar_wait env k i r = Some (c, snd (input_router_getchar i (env_run env k n r)))"
  using assms
proof (induction n arbitrary: k r)
  case 0
  have "slot_ok i r" using 0(1)[of 0] by simp
  then have "fst (input_router_getchar i r) = int (unat c)" using getchar_spec(3) 0(3) by simp
  then show ?case
    by (subst input_router_getchar_wait.simps) (auto simp: Let_def split: prod.splits)
next
  case (Suc n)
  have "slot_ok i r" "slot_chars i r = []" using Suc.prems(1)[of 0] Suc.prems(2)[of 0] by simp_all
  then have "input_router_getchar i r = (-1, r)" by (rule getchar_spec(2))
  then have "input_router_getchar_wait env k i r = input_router_getchar_wait env (Suc k) i (env k r)"
    by (subst input_router_getchar_wait.simps) simp
  then show ?case
    using Suc.IH[of "Suc k" "env k r"] Suc.prems(1)[of "Suc _"] Suc.prems(2)[of "Suc _"] Suc.prems(3) by simp
qed

text \<open>
  C17. The blocking read returns as soon as a character reaches the queue: if after some number
  of yields the queue is not empty, it returns the first character of the first such queue, and
  takes exactly that one.
\<close>

theorem getchar_wait_returns:
  assumes "\<forall>m. slot_ok i (env_run env 0 m r)" and "slot_chars i (env_run env 0 n r) \<noteq> []"
  shows "\<exists>m c cs r'. m \<le> n \<and> slot_chars i (env_run env 0 m r) = c # cs
    \<and> input_router_getchar_wait env 0 i r = Some (c, r') \<and> slot_chars i r' = cs"
proof -
  define m where "m = (LEAST m. slot_chars i (env_run env 0 m r) \<noteq> [])"
  have ne: "slot_chars i (env_run env 0 m r) \<noteq> []" unfolding m_def by (rule LeastI[of _ n]) (rule assms(2))
  have less: "slot_chars i (env_run env 0 k r) = []" if "k < m" for k
    using that not_less_Least[of k "\<lambda>m. slot_chars i (env_run env 0 m r) \<noteq> []"] by (auto simp: m_def)
  have "m \<le> n" unfolding m_def by (rule Least_le) (rule assms(2))
  obtain c cs where c: "slot_chars i (env_run env 0 m r) = c # cs" using ne by (cases "slot_chars i (env_run env 0 m r)") auto
  have "input_router_getchar_wait env 0 i r = Some (c, snd (input_router_getchar i (env_run env 0 m r)))"
    using assms(1) less c by (intro getchar_wait_first) auto
  moreover have "slot_chars i (snd (input_router_getchar i (env_run env 0 m r))) = cs"
    using getchar_spec(3) assms(1) c by blast
  ultimately show ?thesis using c \<open>m \<le> n\<close> by blast
qed

theorem getchar_wait_returns_witness:
  "\<exists>c r'. input_router_getchar_wait (\<lambda>_. input_router_push_to 3 65) 0 3 router_zero = Some (c, r')"
proof -
  have v: "valid_slot 3" by (simp add: valid_slot_def TASK_MAX_def)
  have ok: "slot_ok 3 (env_run (\<lambda>_. input_router_push_to 3 65) k m r)" if "slot_ok 3 r" for k m r
    using that by (induction m arbitrary: k r) (auto intro: push_to_spec)
  have "slot_chars 3 (env_run (\<lambda>_. input_router_push_to 3 65) 0 1 router_zero) \<noteq> []"
    using push_to_spec(2)[OF router_zero_ok(1)[OF v], of 65] by (simp add: router_zero_ok)
  then show ?thesis
    using getchar_wait_returns[of 3 "\<lambda>_. input_router_push_to 3 65" router_zero 1] ok router_zero_ok(1)[OF v] by blast
qed

end
