(* ===== verification/Signal.thy ===== *)
theory Signal
  imports Prelude
begin

text \<open>
  The per-task signal state of \<^verbatim>\<open>kernel/ipc/signal.c\<close>: pending and blocked masks and the handler
  table. Sending, notifying and dispatching involve the task table and the scheduler and are in
  \<open>Sched\<close>. A handler is the address of a function; 0 is \<^verbatim>\<open>SIG_DFL\<close> and 1 is \<^verbatim>\<open>SIG_IGN\<close>.
\<close>

section \<open>State and operations\<close>

definition NSIG :: nat where "NSIG = 32"
definition SIGKILL :: nat where "SIGKILL = 9"
definition SIGCHLD :: nat where "SIGCHLD = 17"
definition SIGSTOP :: nat where "SIGSTOP = 19"
definition SIG_DFL :: u64 where "SIG_DFL = 0"
definition SIG_IGN :: u64 where "SIG_IGN = 1"

datatype sig_action = DA_TERM | DA_IGN | DA_STOP | DA_CONT

definition default_action :: "sig_action list" where
  "default_action =
     [DA_TERM, DA_TERM, DA_TERM, DA_TERM, DA_TERM, DA_TERM, DA_TERM, DA_TERM,
      DA_TERM, DA_TERM, DA_TERM, DA_TERM, DA_TERM, DA_TERM, DA_TERM, DA_TERM,
      DA_TERM, DA_IGN, DA_CONT, DA_STOP, DA_STOP, DA_STOP, DA_STOP, DA_IGN,
      DA_TERM, DA_TERM, DA_TERM, DA_TERM, DA_IGN, DA_TERM, DA_TERM, DA_TERM]"

record signal_state =
  pending :: u32
  blocked :: u32
  handlers :: "nat \<Rightarrow> u64"
  exit_signal :: int

definition sig_bit :: "nat \<Rightarrow> u32" where "sig_bit s = push_bit s 1"

definition UNCATCHABLE_MASK :: u32 where "UNCATCHABLE_MASK = sig_bit SIGKILL OR sig_bit SIGSTOP"

definition signal_init :: "signal_state \<Rightarrow> signal_state" where
  "signal_init ss = ss\<lparr>pending := 0, blocked := 0, exit_signal := 0,
     handlers := (\<lambda>i. if i < NSIG then SIG_DFL else handlers ss i)\<rparr>"

text \<open>The part of \<^verbatim>\<open>signal_send\<close> that acts on the signal state of a live target.\<close>

definition signal_post :: "nat \<Rightarrow> signal_state \<Rightarrow> signal_state" where
  "signal_post s ss =
     (if sig_bit s AND UNCATCHABLE_MASK \<noteq> 0 then ss\<lparr>pending := pending ss OR sig_bit s\<rparr>
      else if blocked ss AND sig_bit s = 0 then ss\<lparr>pending := pending ss OR sig_bit s\<rparr>
      else ss)"

definition signal_set_handler :: "int \<Rightarrow> u64 \<Rightarrow> signal_state \<Rightarrow> u64 \<times> signal_state" where
  "signal_set_handler s h ss =
     (if s \<le> 0 \<or> int NSIG \<le> s then (SIG_DFL, ss)
      else if sig_bit (nat s) AND UNCATCHABLE_MASK \<noteq> 0 then (SIG_DFL, ss)
      else (handlers ss (nat s), ss\<lparr>handlers := (handlers ss)(nat s := h)\<rparr>))"

definition signal_block :: "u32 \<Rightarrow> signal_state \<Rightarrow> signal_state" where
  "signal_block m ss = ss\<lparr>blocked := blocked ss OR (m AND NOT UNCATCHABLE_MASK)\<rparr>"

definition signal_unblock :: "u32 \<Rightarrow> signal_state \<Rightarrow> signal_state" where
  "signal_unblock m ss = ss\<lparr>blocked := blocked ss AND NOT m\<rparr>"

text \<open>The scan of \<^verbatim>\<open>signal_dispatch\<close> for the lowest deliverable signal; 0 when there is none.\<close>

definition lowest_signal :: "u32 \<Rightarrow> nat" where
  "lowest_signal d = (case List.find (\<lambda>i. d AND sig_bit i \<noteq> 0) [1..<NSIG] of None \<Rightarrow> 0 | Some i \<Rightarrow> i)"

section \<open>Signals that cannot be blocked or caught\<close>

text \<open>What holds of every signal state that was initialised and then only changed by the API.\<close>

definition signal_inv :: "signal_state \<Rightarrow> bool" where
  "signal_inv ss \<longleftrightarrow> blocked ss AND UNCATCHABLE_MASK = 0
     \<and> handlers ss SIGKILL = SIG_DFL \<and> handlers ss SIGSTOP = SIG_DFL"

lemma bit_sig_bit: "bit (sig_bit s) i \<longleftrightarrow> i = s \<and> i < 32"
  by (auto simp: sig_bit_def bit_simps)

lemma and_sig_bit: "s < 32 \<Longrightarrow> (d :: u32) AND sig_bit s \<noteq> 0 \<longleftrightarrow> bit d s"
proof -
  assume s: "s < 32"
  have "d AND sig_bit s = (if bit d s then sig_bit s else 0)"
    by (rule bit_word_eqI) (auto simp: bit_sig_bit bit_and_iff)
  moreover have "sig_bit s \<noteq> 0" using s bit_sig_bit[of s s] by auto
  ultimately show ?thesis by simp
qed

lemma bit_uncatchable: "bit UNCATCHABLE_MASK i \<longleftrightarrow> i = SIGKILL \<or> i = SIGSTOP"
  by (auto simp: UNCATCHABLE_MASK_def bit_or_iff bit_sig_bit SIGKILL_def SIGSTOP_def)

lemma sig_uncatchable: "s < 32 \<Longrightarrow> sig_bit s AND UNCATCHABLE_MASK \<noteq> 0 \<longleftrightarrow> s = SIGKILL \<or> s = SIGSTOP"
  using and_sig_bit[of s UNCATCHABLE_MASK] by (simp add: and.commute bit_uncatchable)

lemma uncatchable_zero: "(b :: u32) AND UNCATCHABLE_MASK = 0 \<longleftrightarrow> \<not> bit b SIGKILL \<and> \<not> bit b SIGSTOP"
proof
  assume z: "b AND UNCATCHABLE_MASK = 0"
  have "bit (b AND UNCATCHABLE_MASK) i \<longleftrightarrow> bit b i \<and> (i = SIGKILL \<or> i = SIGSTOP)" for i
    by (simp add: bit_and_iff bit_uncatchable)
  then show "\<not> bit b SIGKILL \<and> \<not> bit b SIGSTOP" unfolding z by (metis bit_0_eq bot_apply bot_bool_def)
next
  assume "\<not> bit b SIGKILL \<and> \<not> bit b SIGSTOP"
  then show "b AND UNCATCHABLE_MASK = 0"
    by (intro bit_word_eqI) (auto simp: bit_and_iff bit_uncatchable)
qed

lemma signal_inv_ops:
  "signal_inv (signal_init ss)"
  "signal_inv ss \<Longrightarrow> signal_inv (signal_post s ss)"
  "signal_inv ss \<Longrightarrow> signal_inv (snd (signal_set_handler i h ss))"
  "signal_inv ss \<Longrightarrow> signal_inv (signal_block m ss)"
  "signal_inv ss \<Longrightarrow> signal_inv (signal_unblock m ss)"
proof -
  show "signal_inv (signal_init ss)" by (simp add: signal_inv_def signal_init_def SIGKILL_def SIGSTOP_def NSIG_def)
  show "signal_inv ss \<Longrightarrow> signal_inv (signal_post s ss)" by (simp add: signal_inv_def signal_post_def)
  show "signal_inv ss \<Longrightarrow> signal_inv (signal_block m ss)" "signal_inv ss \<Longrightarrow> signal_inv (signal_unblock m ss)"
    by (auto simp: signal_inv_def signal_block_def signal_unblock_def uncatchable_zero bit_simps bit_uncatchable)
  show "signal_inv ss \<Longrightarrow> signal_inv (snd (signal_set_handler i h ss))"
  proof (cases "i \<le> 0 \<or> 32 \<le> i \<or> sig_bit (nat i) AND UNCATCHABLE_MASK \<noteq> 0")
    case True
    then show "signal_inv ss \<Longrightarrow> signal_inv (snd (signal_set_handler i h ss))"
      by (auto simp: signal_set_handler_def NSIG_def)
  next
    case False
    then have "nat i \<noteq> SIGKILL" "nat i \<noteq> SIGSTOP" using sig_uncatchable[of "nat i"] by (auto simp: SIGKILL_def SIGSTOP_def)
    then show "signal_inv ss \<Longrightarrow> signal_inv (snd (signal_set_handler i h ss))"
      by (auto simp: signal_inv_def signal_set_handler_def)
  qed
qed

lemma lowest_signal_iff:
  "s \<noteq> 0 \<Longrightarrow> lowest_signal d = s \<longleftrightarrow> s < 32 \<and> bit d s \<and> (\<forall>j. 0 < j \<and> j < s \<longrightarrow> \<not> bit d j)"
proof -
  assume s: "s \<noteq> 0"
  have "List.find (\<lambda>i. d AND sig_bit i \<noteq> 0) [1..<32] = List.find (bit d) [1..<32]"
    by (rule find_cong) (simp add: and_sig_bit)
  then have "lowest_signal d = s \<longleftrightarrow> List.find (bit d) [1..<32] = Some s"
    using s by (auto simp: lowest_signal_def NSIG_def split: option.splits)
  then show ?thesis using s find_upt_lowest[of "bit d" 1 32 s] by (auto simp: Suc_le_eq)
qed

end
