(* ===== verification/Sched.thy ===== *)
theory Sched
  imports Heap_Client Input_Router Signal
begin

text \<open>
  The scheduler of \<^verbatim>\<open>kernel/sched/sched.c\<close> with the task structure of \<^verbatim>\<open>task.h\<close> and the part of
  \<^verbatim>\<open>kernel/ipc/signal.c\<close> that works on the task table. The state \<open>kern\<close> holds the task table,
  the tick counter of \<^verbatim>\<open>pic.c\<close>, the heap that stacks come from and the input router.
  \<^verbatim>\<open>ctx_switch\<close> and the tail of \<^verbatim>\<open>sched_exit\<close> are assembly: the model keeps what they do to the
  stack pointers. A call that never returns to its caller is \<open>NoReturn\<close>. Signal handlers are
  arbitrary kernel functions and enter as the parameter \<open>run\<close>.
\<close>

section \<open>Constants and state\<close>

definition TASK_STACK_SZ :: nat where "TASK_STACK_SZ = 65536"
definition TASK_NAME_LEN :: nat where "TASK_NAME_LEN = 32"
definition PRIO_IDLE :: u8 where "PRIO_IDLE = 0"
definition PRIO_LOW :: u8 where "PRIO_LOW = 1"
definition PRIO_NORMAL :: u8 where "PRIO_NORMAL = 2"
definition PRIO_HIGH :: u8 where "PRIO_HIGH = 3"
definition PRIO_REALTIME :: u8 where "PRIO_REALTIME = 4"
definition SCHED_AGING_TICKS :: u64 where "SCHED_AGING_TICKS = 50"
definition WATCHDOG_STRIKE_MAX :: int where "WATCHDOG_STRIKE_MAX = 3"
definition SLOW_SYSTEM_STRIKE_THRESHOLD :: int where "SLOW_SYSTEM_STRIKE_THRESHOLD = 6"

datatype task_state = TASK_EMPTY | TASK_READY | TASK_RUNNING | TASK_SLEEPING | TASK_DEAD

record task =
  rsp :: u64
  tid :: u32
  tstate :: task_state
  tname :: string
  stack :: addr
  sleep_until :: u64
  priority :: u8
  base_priority :: u8
  timeslice :: u16
  last_run_tick :: u64
  total_ticks :: u64
  heartbeat :: u64
  last_heartbeat :: u64
  watchdog_strikes :: int
  pid :: u32
  ppid :: u32
  alloc_count :: u32
  total_allocs :: u32
  signals :: signal_state

record kern =
  tasks :: "task list"
  cur :: nat
  ntasks :: int
  sched_ready :: bool
  ticks :: u32
  kheap :: heap
  klimits :: system_limits
  krouter :: router
  pending_stack :: addr
  g_recent_strikes :: int
  cpu_rsp :: u64
  halted :: bool

datatype 'a flow = Returns 'a | NoReturn

definition tk :: "kern \<Rightarrow> nat \<Rightarrow> task" where "tk k i = tasks k ! i"

definition upd :: "nat \<Rightarrow> (task \<Rightarrow> task) \<Rightarrow> kern \<Rightarrow> kern" where
  "upd i f k = k\<lparr>tasks := (tasks k)[i := f (tasks k ! i)]\<rparr>"

definition pit_ticks :: "kern \<Rightarrow> u64" where "pit_ticks k = ucast (ticks k)"
definition pit_tick :: "kern \<Rightarrow> kern" where "pit_tick k = k\<lparr>ticks := ticks k + 1\<rparr>"

definition vacant :: "task \<Rightarrow> bool" where
  "vacant t \<longleftrightarrow> tstate t = TASK_EMPTY \<or> tstate t = TASK_DEAD"

section \<open>Creation\<close>

definition priority_timeslice :: "u8 \<Rightarrow> u16" where
  "priority_timeslice p =
     (if p = PRIO_REALTIME then 16 else if p = PRIO_HIGH then 8
      else if p = PRIO_NORMAL then 4 else if p = PRIO_LOW then 2 else 1)"

text \<open>\<^verbatim>\<open>*--sp = v\<close> for each value, from the top of the stack down.\<close>

fun push_frame :: "u64 list \<Rightarrow> addr \<Rightarrow> mem \<Rightarrow> mem \<times> addr" where
  "push_frame [] sp m = (m, sp)"
| "push_frame (v # vs) sp m = push_frame vs (sp - 8) (store64 m (sp - 8) v)"

definition spawn_task :: "nat \<Rightarrow> addr \<Rightarrow> addr \<Rightarrow> string option \<Rightarrow> u64 \<Rightarrow> task \<Rightarrow> task" where
  "spawn_task i sp stk name now t =
     t\<lparr>rsp := of_nat sp, tid := of_nat i, tstate := TASK_READY, stack := stk, sleep_until := 0,
       priority := PRIO_NORMAL, base_priority := PRIO_NORMAL, timeslice := 4,
       last_run_tick := now, total_ticks := 0, heartbeat := 0, last_heartbeat := 0,
       watchdog_strikes := 0, alloc_count := 0, total_allocs := 0,
       tname := take (TASK_NAME_LEN - 1) (case name of None \<Rightarrow> ''task'' | Some n \<Rightarrow> n),
       signals := signal_init (signals t)\<rparr>"

text \<open>
  Spawning is one step here. The code does not mask interrupts between its search for a slot and the marking of the
  slot as ready, so this covers spawns that no other spawn or exit interrupts.
\<close>

definition sched_spawn :: "u64 \<Rightarrow> string option \<Rightarrow> kern \<Rightarrow> (int \<times> kern) option" where
  "sched_spawn fn name k =
     (case List.find (\<lambda>i. vacant (tk k i)) [0..<TASK_MAX] of
        None \<Rightarrow> Some (-1, k)
      | Some i \<Rightarrow>
          (case kmalloc (klimits k) (of_nat TASK_STACK_SZ) (kheap k) of None \<Rightarrow> None
           | Some (stk, h) \<Rightarrow>
               if stk = 0 then Some (-1, k\<lparr>kheap := h\<rparr>)
               else let (m, sp) = push_frame [fn, 0, 0, 0, 0, 0, 0] (stk + TASK_STACK_SZ) (hmem h);
                        k1 = upd i (spawn_task i sp stk name (pit_ticks k)) (k\<lparr>kheap := h\<lparr>hmem := m\<rparr>\<rparr>)
                    in Some (int i, k1\<lparr>ntasks := ntasks k1 + 1\<rparr>)))"

section \<open>Selection and switching\<close>

definition age_task :: "u64 \<Rightarrow> task \<Rightarrow> task" where
  "age_task now t =
     (if tstate t \<noteq> TASK_READY then t
      else if PRIO_REALTIME \<le> priority t then t
      else if SCHED_AGING_TICKS \<le> now - last_run_tick t
      then (if priority t < PRIO_HIGH then t\<lparr>priority := priority t + 1\<rparr> else t)
      else t)"

definition wake_task :: "u64 \<Rightarrow> task \<Rightarrow> task" where
  "wake_task now t =
     (if tstate t = TASK_SLEEPING \<and> sleep_until t \<le> now then t\<lparr>tstate := TASK_READY\<rparr> else t)"

definition pick :: "task list \<Rightarrow> nat \<Rightarrow> int \<times> nat \<Rightarrow> nat \<Rightarrow> int \<times> nat" where
  "pick ts c best ps =
     (let i = (c + 1 + ps) mod TASK_MAX
      in if tstate (ts ! i) \<noteq> TASK_READY then best
         else if fst best < int (unat (priority (ts ! i))) then (int (unat (priority (ts ! i))), i)
         else best)"

definition best_ready :: "task list \<Rightarrow> nat \<Rightarrow> int \<times> nat" where
  "best_ready ts c = foldl (pick ts c) (-1, c) [0..<TASK_MAX]"

definition next_ready :: "kern \<Rightarrow> nat \<times> kern" where
  "next_ready k =
     (let now = pit_ticks k;
          ts = map (wake_task now) (map (age_task now) (tasks k));
          (bp, b) = best_ready ts (cur k);
          t = ts ! cur k
      in (if tstate t = TASK_RUNNING \<and> (bp < 0 \<or> bp \<le> int (unat (priority t))) \<and> 0 < timeslice t
          then cur k else if 0 \<le> bp then b else cur k,
          k\<lparr>tasks := ts\<rparr>))"

text \<open>The stack pointers across the assembly of \<^verbatim>\<open>ctx_switch\<close>: six pushes, the swap, six pops.\<close>

definition ctx_switch :: "nat \<Rightarrow> nat \<Rightarrow> kern \<Rightarrow> kern" where
  "ctx_switch prev nxt k =
     (let new_sp = rsp (tk k nxt)
      in (upd prev (rsp_update (\<lambda>_. cpu_rsp k - 48)) k)\<lparr>cpu_rsp := new_sp + 48\<rparr>)"

definition switch_to :: "nat \<Rightarrow> kern \<Rightarrow> kern" where
  "switch_to nxt k =
     (if nxt = cur k
      then (if 0 < timeslice (tk k (cur k)) then upd (cur k) (timeslice_update (\<lambda>v. v - 1)) k else k)
      else let prev = cur k;
               k1 = (if tstate (tk k prev) = TASK_RUNNING
                     then upd prev (tstate_update (\<lambda>_. TASK_READY)) k else k);
               k2 = upd prev (\<lambda>t. t\<lparr>priority := base_priority t\<rparr>) k1;
               k3 = upd nxt (\<lambda>t. t\<lparr>tstate := TASK_RUNNING, last_run_tick := pit_ticks k2,
                        total_ticks := total_ticks t + 1,
                        timeslice := priority_timeslice (priority t)\<rparr>) k2
           in ctx_switch prev nxt (k3\<lparr>cur := nxt\<rparr>))"

definition reschedule :: "kern \<Rightarrow> kern" where
  "reschedule k = (let (n, k1) = next_ready k in switch_to n k1)"

definition sched_yield :: "kern \<Rightarrow> kern" where
  "sched_yield k = reschedule (upd (cur k) (heartbeat_update (\<lambda>h. h + 1)) k)"

definition sched_sleep :: "u64 \<Rightarrow> kern \<Rightarrow> kern" where
  "sched_sleep ms k =
     (let k1 = upd (cur k) (heartbeat_update (\<lambda>h. h + 1)) k;
          wake = pit_ticks k1 + ms div 10
      in sched_yield (upd (cur k) (\<lambda>t. t\<lparr>sleep_until := wake, tstate := TASK_SLEEPING\<rparr>) k1))"

section \<open>Termination of tasks\<close>

text \<open>
  \<^verbatim>\<open>sched_exit\<close> does not return. The state it leaves is the one the next task resumes in, or the
  halted machine when no task is ready.
\<close>

definition free_stack :: "addr \<Rightarrow> kern \<Rightarrow> kern option" where
  "free_stack p k =
     (if p \<noteq> 0 then map_option (\<lambda>h. k\<lparr>kheap := h\<rparr>) (kfree p (kheap k)) else Some k)"

definition sched_exit :: "kern \<Rightarrow> kern option" where
  "sched_exit k =
     (let dying = stack (tk k (cur k));
          k1 = upd (cur k) (stack_update (\<lambda>_. 0)) k;
          k2 = k1\<lparr>krouter := input_router_task_exit (int (cur k)) (krouter k1)\<rparr>;
          k3 = (upd (cur k) (tstate_update (\<lambda>_. TASK_EMPTY)) k2)\<lparr>ntasks := ntasks k2 - 1\<rparr>;
          (n, k4) = next_ready k3
      in if n = cur k then map_option (\<lambda>k5. k5\<lparr>halted := True\<rparr>) (free_stack dying k4)
         else map_option (\<lambda>k5.
             let k6 = upd n (tstate_update (\<lambda>_. TASK_RUNNING)) (k5\<lparr>pending_stack := dying\<rparr>)
             in k6\<lparr>cur := n, cpu_rsp := rsp (tk k6 n) + 56\<rparr>)
           (free_stack (pending_stack k4) k4))"

definition sched_kill :: "int \<Rightarrow> kern \<Rightarrow> (int flow \<times> kern) option" where
  "sched_kill i k =
     (if i < 0 \<or> int TASK_MAX \<le> i then Some (Returns (-1), k)
      else if vacant (tk k (nat i)) then Some (Returns (-1), k)
      else if i = 0 then Some (Returns (-1), k)
      else let n = nat i
           in case (if n \<noteq> cur k \<and> stack (tk k n) \<noteq> 0
                    then map_option (upd n (stack_update (\<lambda>_. 0))) (free_stack (stack (tk k n)) k)
                    else Some k) of None \<Rightarrow> None
              | Some k1 \<Rightarrow>
                  let k2 = k1\<lparr>krouter := input_router_task_exit i (krouter k1)\<rparr>;
                      k3 = (upd n (tstate_update (\<lambda>_. TASK_DEAD)) k2)\<lparr>ntasks := ntasks k2 - 1\<rparr>
                  in if n = cur k3 then map_option (\<lambda>k4. (NoReturn, k4)) (sched_exit k3)
                     else Some (Returns 0, k3))"

section \<open>Signals\<close>

definition signal_send :: "int \<Rightarrow> int \<Rightarrow> kern \<Rightarrow> int \<times> kern" where
  "signal_send i s k =
     (if s \<le> 0 \<or> int NSIG \<le> s then (-1, k)
      else if i < 0 \<or> int TASK_MAX \<le> i then (-1, k)
      else if vacant (tk k (nat i)) then (-1, k)
      else (0, upd (nat i) (signals_update (signal_post (nat s))) k))"

definition signal_notify_parent :: "int \<Rightarrow> int \<Rightarrow> int \<Rightarrow> kern \<Rightarrow> kern" where
  "signal_notify_parent pp child code k =
     (if pp \<le> 0 then k
      else if pp < 0 \<or> int TASK_MAX \<le> pp then k
      else snd (signal_send pp (int SIGCHLD) k))"

text \<open>The \<^verbatim>\<open>DA_STOP\<close>, \<^verbatim>\<open>DA_TERM\<close> and \<^verbatim>\<open>default\<close> branches of \<^verbatim>\<open>signal_dispatch\<close>.\<close>

definition signal_terminate :: "int \<Rightarrow> nat \<Rightarrow> kern \<Rightarrow> (int flow \<times> kern) option" where
  "signal_terminate i s k =
     (let n = nat i;
          k2 = upd n (signals_update (exit_signal_update (\<lambda>_. int s))) k;
          k3 = signal_notify_parent (sint (ppid (tk k2 n))) i (- int s) k2
      in if i = sint (tid (tk k3 (cur k3)))
         then map_option (\<lambda>k4. (NoReturn, k4)) (sched_exit k3)
         else Some (Returns 1, upd n (tstate_update (\<lambda>_. TASK_DEAD)) k3))"

definition signal_dispatch ::
    "(u64 \<Rightarrow> nat \<Rightarrow> kern \<Rightarrow> kern) \<Rightarrow> int \<Rightarrow> kern \<Rightarrow> (int flow \<times> kern) option" where
  "signal_dispatch run i k =
     (if i < 0 \<or> int TASK_MAX \<le> i then Some (Returns 0, k)
      else let n = nat i; ss = signals (tk k n);
               deliverable = pending ss AND NOT (blocked ss);
               s = lowest_signal deliverable
           in if deliverable = 0 then Some (Returns 0, k)
              else if s = 0 then Some (Returns 0, k)
              else let k1 = upd n (signals_update (pending_update (\<lambda>p. p AND NOT (sig_bit s)))) k;
                       h = handlers ss s
                   in if h = SIG_IGN then Some (Returns 0, k1)
                      else if h \<noteq> SIG_DFL then Some (Returns 0, run h s k1)
                      else (case (if s < NSIG then default_action ! s else DA_TERM) of
                          DA_IGN \<Rightarrow> Some (Returns 0, k1)
                        | DA_CONT \<Rightarrow> Some (Returns 0,
                            if tstate (tk k1 n) = TASK_SLEEPING
                            then upd n (tstate_update (\<lambda>_. TASK_READY)) k1 else k1)
                        | _ \<Rightarrow> signal_terminate i s k1))"

definition sched_tick :: "(u64 \<Rightarrow> nat \<Rightarrow> kern \<Rightarrow> kern) \<Rightarrow> kern \<Rightarrow> kern option" where
  "sched_tick run k =
     (let k1 = pit_tick k
      in if \<not> sched_ready k1 then Some k1
         else case signal_dispatch run (int (cur k1)) k1 of None \<Rightarrow> None
           | Some (NoReturn, k2) \<Rightarrow> Some k2
           | Some (Returns _, k2) \<Rightarrow>
               let k3 = (if 0 < timeslice (tk k2 (cur k2))
                         then upd (cur k2) (timeslice_update (\<lambda>v. v - 1)) k2 else k2)
               in Some (if timeslice (tk k3 (cur k3)) = 0 then reschedule k3 else k3))"

section \<open>Initialisation, priorities and the watchdog\<close>

definition sched_init :: "kern \<Rightarrow> kern" where
  "sched_init k =
     (upd 0 (\<lambda>t. t\<lparr>tid := 0, tstate := TASK_RUNNING, stack := 0, tname := ''kmain''\<rparr>) k)
       \<lparr>cur := 0, ntasks := 1, sched_ready := True\<rparr>"

definition sched_task_count :: "kern \<Rightarrow> int" where "sched_task_count k = ntasks k"
definition sched_current_id :: "kern \<Rightarrow> int" where "sched_current_id k = int (cur k)"
definition sched_get_pid :: "kern \<Rightarrow> int" where "sched_get_pid k = sint (pid (tk k (cur k)))"

definition sched_task_at :: "kern \<Rightarrow> int \<Rightarrow> task option" where
  "sched_task_at k i = (if 0 \<le> i \<and> i < int TASK_MAX then Some (tk k (nat i)) else None)"

definition sched_set_priority :: "int \<Rightarrow> u8 \<Rightarrow> kern \<Rightarrow> kern" where
  "sched_set_priority i p k =
     (if i < 0 \<or> int TASK_MAX \<le> i then k
      else let p1 = (if PRIO_REALTIME < p then PRIO_REALTIME else p)
           in upd (nat i) (\<lambda>t. t\<lparr>priority := p1, base_priority := p1,
                timeslice := priority_timeslice p1\<rparr>) k)"

definition sched_get_priority :: "int \<Rightarrow> kern \<Rightarrow> u8" where
  "sched_get_priority i k = (if i < 0 \<or> int TASK_MAX \<le> i then PRIO_NORMAL else priority (tk k (nat i)))"

definition sched_is_system_slow :: "kern \<Rightarrow> bool" where
  "sched_is_system_slow k \<longleftrightarrow> SLOW_SYSTEM_STRIKE_THRESHOLD \<le> g_recent_strikes k"

text \<open>One iteration of the watchdog loop: whether a strike was given, and whether it returns.\<close>

definition watchdog_task :: "nat \<Rightarrow> kern \<Rightarrow> (int flow \<times> kern) option" where
  "watchdog_task i k =
     (let t = tk k i; keep = upd i (\<lambda>t. t\<lparr>last_heartbeat := heartbeat t\<rparr>)
      in if vacant t then Some (Returns 0, k)
         else if tstate t = TASK_SLEEPING then Some (Returns 0, upd i (watchdog_strikes_update (\<lambda>_. 0)) k)
         else if priority t = PRIO_REALTIME \<or> priority t = PRIO_IDLE then Some (Returns 0, k)
         else if heartbeat t = last_heartbeat t
         then let k1 = upd i (watchdog_strikes_update (\<lambda>s. s + 1)) k
              in if WATCHDOG_STRIKE_MAX \<le> watchdog_strikes (tk k1 i)
                 then (case sched_kill (int i) k1 of None \<Rightarrow> None
                   | Some (NoReturn, k2) \<Rightarrow> Some (NoReturn, k2)
                   | Some (Returns _, k2) \<Rightarrow> Some (Returns 1, keep k2))
                 else Some (Returns 1, keep k1)
         else Some (Returns 0, keep (upd i (watchdog_strikes_update (\<lambda>_. 0)) k)))"

fun watchdog_loop :: "nat list \<Rightarrow> int \<Rightarrow> kern \<Rightarrow> (int flow \<times> kern) option" where
  "watchdog_loop [] n k = Some (Returns n, k)"
| "watchdog_loop (i # is) n k =
     (case watchdog_task i k of None \<Rightarrow> None
      | Some (NoReturn, k1) \<Rightarrow> Some (NoReturn, k1)
      | Some (Returns s, k1) \<Rightarrow> watchdog_loop is (n + s) k1)"

definition sched_watchdog_check :: "kern \<Rightarrow> (unit flow \<times> kern) option" where
  "sched_watchdog_check k =
     (case watchdog_loop [0..<TASK_MAX] 0 k of None \<Rightarrow> None
      | Some (NoReturn, k1) \<Rightarrow> Some (NoReturn, k1)
      | Some (Returns n, k1) \<Rightarrow>
          Some (Returns (), k1\<lparr>g_recent_strikes :=
            (if 0 < n then g_recent_strikes k1 + n
             else if 0 < g_recent_strikes k1 then g_recent_strikes k1 div 2
             else g_recent_strikes k1)\<rparr>))"

end
