(* ===== verification/Sched_Select.thy ===== *)
theory Sched_Select
  imports Sched
begin

text \<open>
  Selection: which task \<^verbatim>\<open>next_ready\<close> picks, and what it does to the task table. The search
  visits the slots in round-robin order after the current one, so the first slot with the highest
  priority wins.
\<close>

section \<open>Updates of the task table\<close>

named_theorems kern_simps \<open>reads of the kernel state after updates\<close>

lemma upd_frame [simp]:
  "length (tasks (upd i f k)) = length (tasks k)" "cur (upd i f k) = cur k"
  "ntasks (upd i f k) = ntasks k" "sched_ready (upd i f k) = sched_ready k"
  "ticks (upd i f k) = ticks k" "kheap (upd i f k) = kheap k" "klimits (upd i f k) = klimits k"
  "krouter (upd i f k) = krouter k" "pending_stack (upd i f k) = pending_stack k"
  "g_recent_strikes (upd i f k) = g_recent_strikes k" "cpu_rsp (upd i f k) = cpu_rsp k"
  "halted (upd i f k) = halted k" "pit_ticks (upd i f k) = pit_ticks k"
  by (simp_all add: upd_def pit_ticks_def)

lemma tk_upd [kern_simps]:
  "i < length (tasks k) \<Longrightarrow> tk (upd i f k) j = (if i = j then f (tk k j) else tk k j)"
  by (auto simp: tk_def upd_def nth_list_update)

lemma tk_frame [simp]:
  "tk (k\<lparr>cur := c\<rparr>) i = tk k i" "tk (k\<lparr>ntasks := n\<rparr>) i = tk k i" "tk (k\<lparr>kheap := h\<rparr>) i = tk k i"
  "tk (k\<lparr>krouter := r\<rparr>) i = tk k i" "tk (k\<lparr>pending_stack := p\<rparr>) i = tk k i"
  "tk (k\<lparr>cpu_rsp := v\<rparr>) i = tk k i" "tk (k\<lparr>halted := b\<rparr>) i = tk k i" "tk (k\<lparr>ticks := t\<rparr>) i = tk k i"
  "tk (k\<lparr>g_recent_strikes := g\<rparr>) i = tk k i" "tk (k\<lparr>sched_ready := b\<rparr>) i = tk k i"
  by (simp_all add: tk_def)

section \<open>The search\<close>

definition rr_slot :: "nat \<Rightarrow> nat \<Rightarrow> nat" where "rr_slot c p = (c + 1 + p) mod TASK_MAX"

definition prio_at :: "task list \<Rightarrow> nat \<Rightarrow> int" where "prio_at ts i = int (unat (priority (ts ! i)))"

definition ready_at :: "task list \<Rightarrow> nat \<Rightarrow> bool" where "ready_at ts i \<longleftrightarrow> tstate (ts ! i) = TASK_READY"

lemma prio_at_nonneg: "0 \<le> prio_at ts i"
  by (simp add: prio_at_def)

lemma pick_eq:
  "pick ts c best p = (if ready_at ts (rr_slot c p) \<and> fst best < prio_at ts (rr_slot c p)
     then (prio_at ts (rr_slot c p), rr_slot c p) else best)"
  by (auto simp: pick_def rr_slot_def prio_at_def ready_at_def Let_def)

text \<open>The result of searching the first \<open>n\<close> slots.\<close>

definition best_of :: "task list \<Rightarrow> nat \<Rightarrow> nat \<Rightarrow> int \<times> nat \<Rightarrow> bool" where
  "best_of ts c n r \<longleftrightarrow>
     (r = (-1, c) \<and> (\<forall>q < n. \<not> ready_at ts (rr_slot c q)))
     \<or> (\<exists>p < n. r = (prio_at ts (rr_slot c p), rr_slot c p) \<and> ready_at ts (rr_slot c p)
        \<and> (\<forall>q < n. ready_at ts (rr_slot c q) \<longrightarrow> prio_at ts (rr_slot c q) \<le> prio_at ts (rr_slot c p)
              \<and> (prio_at ts (rr_slot c q) = prio_at ts (rr_slot c p) \<longrightarrow> p \<le> q)))"

lemma best_of_pick:
  assumes "best_of ts c n r"
  shows "best_of ts c (Suc n) (pick ts c r n)"
proof (cases "ready_at ts (rr_slot c n) \<and> fst r < prio_at ts (rr_slot c n)")
  case True
  have "prio_at ts (rr_slot c q) < prio_at ts (rr_slot c n)" if "q < n" "ready_at ts (rr_slot c q)" for q
    using assms True that by (fastforce simp: best_of_def)
  then have "\<forall>q < Suc n. ready_at ts (rr_slot c q) \<longrightarrow> prio_at ts (rr_slot c q) \<le> prio_at ts (rr_slot c n)
      \<and> (prio_at ts (rr_slot c q) = prio_at ts (rr_slot c n) \<longrightarrow> n \<le> q)"
    by (fastforce simp: less_Suc_eq)
  with True show ?thesis
    unfolding best_of_def pick_eq by (intro disjI2 exI[of _ n]) simp
next
  case False
  have pos: "-1 < prio_at ts (rr_slot c n)" using prio_at_nonneg[of ts "rr_slot c n"] by simp
  have r: "pick ts c r n = r" unfolding pick_eq using False by (simp only: if_False)
  from assms show ?thesis
    unfolding r best_of_def
  proof (elim disjE exE conjE)
    assume "r = (-1, c)" "\<forall>q < n. \<not> ready_at ts (rr_slot c q)"
    with False pos show "(r = (-1, c) \<and> (\<forall>q < Suc n. \<not> ready_at ts (rr_slot c q)))
       \<or> (\<exists>p < Suc n. r = (prio_at ts (rr_slot c p), rr_slot c p) \<and> ready_at ts (rr_slot c p)
        \<and> (\<forall>q < Suc n. ready_at ts (rr_slot c q) \<longrightarrow> prio_at ts (rr_slot c q) \<le> prio_at ts (rr_slot c p)
              \<and> (prio_at ts (rr_slot c q) = prio_at ts (rr_slot c p) \<longrightarrow> p \<le> q)))"
      by (auto simp: less_Suc_eq)
  next
    fix p assume "p < n" "r = (prio_at ts (rr_slot c p), rr_slot c p)" "ready_at ts (rr_slot c p)"
      "\<forall>q < n. ready_at ts (rr_slot c q) \<longrightarrow> prio_at ts (rr_slot c q) \<le> prio_at ts (rr_slot c p)
              \<and> (prio_at ts (rr_slot c q) = prio_at ts (rr_slot c p) \<longrightarrow> p \<le> q)"
    with False show "(r = (-1, c) \<and> (\<forall>q < Suc n. \<not> ready_at ts (rr_slot c q)))
       \<or> (\<exists>p < Suc n. r = (prio_at ts (rr_slot c p), rr_slot c p) \<and> ready_at ts (rr_slot c p)
        \<and> (\<forall>q < Suc n. ready_at ts (rr_slot c q) \<longrightarrow> prio_at ts (rr_slot c q) \<le> prio_at ts (rr_slot c p)
              \<and> (prio_at ts (rr_slot c q) = prio_at ts (rr_slot c p) \<longrightarrow> p \<le> q)))"
      by (intro disjI2 exI[of _ p]) (auto simp: less_Suc_eq)
  qed
qed

lemma best_of_fold: "best_of ts c n (foldl (pick ts c) (-1, c) [0..<n])"
proof (induction n)
  case 0
  then show ?case by (simp add: best_of_def)
next
  case (Suc n)
  then show ?case using best_of_pick by simp
qed

lemma rr_slot_cover: "c < 32 \<Longrightarrow> i < 32 \<Longrightarrow> \<exists>p < 32. rr_slot c p = i"
proof (cases "c < i")
  case True
  assume "c < 32" "i < 32"
  with True show ?thesis by (intro exI[of _ "i - c - 1"]) (simp add: rr_slot_def TASK_MAX_def)
next
  case False
  assume "c < 32" "i < 32"
  moreover from this False have "c + 1 + (i + 31 - c) = i + 32" by simp
  ultimately show ?thesis using False
    by (intro exI[of _ "i + 31 - c"]) (simp add: rr_slot_def TASK_MAX_def)
qed

lemma rr_slot_less: "rr_slot c p < 32"
  by (simp add: rr_slot_def TASK_MAX_def)

text \<open>The distance of a slot from the current one in round-robin order.\<close>

definition rr_dist :: "nat \<Rightarrow> nat \<Rightarrow> nat" where "rr_dist c i = (i + 31 - c) mod 32"

lemma rr_dist_slot: "c < 32 \<Longrightarrow> p < 32 \<Longrightarrow> rr_dist c (rr_slot c p) = p"
proof -
  assume c: "c < 32" and p: "p < 32"
  show ?thesis
  proof (cases "c + 1 + p < 32")
    case True
    then show ?thesis using c p by (simp add: rr_dist_def rr_slot_def TASK_MAX_def)
  next
    case False
    then have "rr_slot c p = c + 1 + p - 32" using c p by (simp add: rr_slot_def TASK_MAX_def le_mod_geq)
    moreover have "c + 1 + p - 32 + 31 - c = p" using False by simp
    ultimately show ?thesis using p by (simp add: rr_dist_def)
  qed
qed

lemma best_ready_spec:
  assumes "c < 32"
  shows "(best_ready ts c = (-1, c) \<and> (\<forall>i < 32. \<not> ready_at ts i))
    \<or> (\<exists>n < 32. best_ready ts c = (prio_at ts n, n) \<and> ready_at ts n
        \<and> (\<forall>i < 32. ready_at ts i \<longrightarrow> prio_at ts i \<le> prio_at ts n
              \<and> (prio_at ts i = prio_at ts n \<longrightarrow> rr_dist c n \<le> rr_dist c i)))"
proof -
  have cover: "P i" if "\<And>q. q < 32 \<Longrightarrow> P (rr_slot c q)" "i < 32" for P i
    using rr_slot_cover[OF assms that(2)] that(1) by blast
  have "best_of ts c 32 (best_ready ts c)"
    unfolding best_ready_def TASK_MAX_def by (rule best_of_fold)
  then show ?thesis
    unfolding best_of_def
  proof (elim disjE exE conjE)
    assume b: "best_ready ts c = (-1, c)" "\<forall>q < 32. \<not> ready_at ts (rr_slot c q)"
    have "\<not> ready_at ts i" if "i < 32" for i by (rule cover[OF _ that]) (use b(2) in blast)
    with b(1) show ?thesis by blast
  next
    fix p assume p: "p < 32" "best_ready ts c = (prio_at ts (rr_slot c p), rr_slot c p)"
      "ready_at ts (rr_slot c p)"
      "\<forall>q < 32. ready_at ts (rr_slot c q) \<longrightarrow> prio_at ts (rr_slot c q) \<le> prio_at ts (rr_slot c p)
              \<and> (prio_at ts (rr_slot c q) = prio_at ts (rr_slot c p) \<longrightarrow> p \<le> q)"
    have "ready_at ts i \<longrightarrow> prio_at ts i \<le> prio_at ts (rr_slot c p)
        \<and> (prio_at ts i = prio_at ts (rr_slot c p) \<longrightarrow> rr_dist c (rr_slot c p) \<le> rr_dist c i)" if "i < 32" for i
      by (rule cover[OF _ that]) (use p(1,4) rr_dist_slot[OF assms] in simp)
    with p(2,3) rr_slot_less[of c p] show ?thesis by blast
  qed
qed

section \<open>The choice\<close>

definition sched_wf :: "kern \<Rightarrow> bool" where
  "sched_wf k \<longleftrightarrow> length (tasks k) = 32 \<and> cur k < 32
     \<and> (\<forall>i < 32. tstate (tk k i) = TASK_RUNNING \<longrightarrow> i = cur k)
     \<and> (\<forall>i < 32. priority (tk k i) \<le> PRIO_REALTIME \<and> base_priority (tk k i) \<le> PRIO_REALTIME)"

lemma next_ready_frame:
  "length (tasks k) = 32 \<Longrightarrow> i < 32 \<Longrightarrow>
     tk (snd (next_ready k)) i = wake_task (pit_ticks k) (age_task (pit_ticks k) (tk k i))"
  "snd (next_ready k) = k\<lparr>tasks := tasks (snd (next_ready k))\<rparr>"
  "length (tasks (snd (next_ready k))) = length (tasks k)"
  by (auto simp: next_ready_def Let_def tk_def split: prod.splits)

lemma age_wake_fields [simp]:
  "stack (wake_task n t) = stack t" "stack (age_task n t) = stack t"
  "base_priority (wake_task n t) = base_priority t" "base_priority (age_task n t) = base_priority t"
  "priority (wake_task n t) = priority t" "tstate (age_task n t) = tstate t"
  "signals (wake_task n t) = signals t" "signals (age_task n t) = signals t"
  "timeslice (wake_task n t) = timeslice t" "timeslice (age_task n t) = timeslice t"
  "tid (wake_task n t) = tid t" "tid (age_task n t) = tid t"
  by (simp_all add: wake_task_def age_task_def)

lemma wake_state: "tstate (wake_task n t) = (if tstate t = TASK_SLEEPING \<and> sleep_until t \<le> n then TASK_READY else tstate t)"
  by (simp add: wake_task_def)

lemma age_prio: "priority t \<le> PRIO_REALTIME \<Longrightarrow> priority (age_task n t) \<le> PRIO_REALTIME"
proof -
  assume "priority t \<le> PRIO_REALTIME"
  moreover have "priority t + 1 \<le> PRIO_REALTIME" if "priority t < PRIO_HIGH"
  proof -
    have "unat (priority t) < 3" using that by (simp add: PRIO_HIGH_def word_less_nat_alt)
    moreover have "unat (priority t + 1) = unat (priority t) + 1"
      using calculation by (simp add: unat_word_ariths)
    ultimately show ?thesis by (simp add: PRIO_REALTIME_def word_le_nat_alt)
  qed
  ultimately show ?thesis by (simp add: age_task_def)
qed

lemma next_ready_cases:
  assumes "sched_wf k"
  defines "n \<equiv> fst (next_ready k)" and "k' \<equiv> snd (next_ready k)"
  shows "n < 32"
    and "(\<forall>i < 32. tstate (tk k' i) \<noteq> TASK_READY) \<longrightarrow> n = cur k"
    and "(\<exists>i < 32. tstate (tk k' i) = TASK_READY) \<longrightarrow>
      (n = cur k \<and> tstate (tk k' n) = TASK_RUNNING \<and> 0 < timeslice (tk k' n)
         \<and> (\<forall>i < 32. tstate (tk k' i) = TASK_READY \<longrightarrow> priority (tk k' i) \<le> priority (tk k' n)))
      \<or> (tstate (tk k' n) = TASK_READY
         \<and> (\<forall>i < 32. tstate (tk k' i) = TASK_READY \<longrightarrow> priority (tk k' i) \<le> priority (tk k' n)
              \<and> (priority (tk k' i) = priority (tk k' n) \<longrightarrow> rr_dist (cur k) n \<le> rr_dist (cur k) i)))"
    and "tstate (tk k' (cur k)) = TASK_RUNNING \<and> 0 < timeslice (tk k' (cur k))
      \<and> (\<forall>i < 32. tstate (tk k' i) = TASK_READY \<longrightarrow> priority (tk k' i) \<le> priority (tk k' (cur k))) \<longrightarrow> n = cur k"
proof -
  let ?ts = "tasks k'"
  have c: "cur k < 32" and len: "length (tasks k) = 32" using assms(1) by (auto simp: sched_wf_def)
  have ts: "?ts = map (wake_task (pit_ticks k)) (map (age_task (pit_ticks k)) (tasks k))"
    by (simp add: k'_def next_ready_def Let_def split: prod.splits)
  define run where "run \<longleftrightarrow> tstate (?ts ! cur k) = TASK_RUNNING
    \<and> (fst (best_ready ?ts (cur k)) < 0 \<or> fst (best_ready ?ts (cur k)) \<le> prio_at ?ts (cur k)) \<and> 0 < timeslice (?ts ! cur k)"
  have n: "n = (if run then cur k else if 0 \<le> fst (best_ready ?ts (cur k)) then snd (best_ready ?ts (cur k)) else cur k)"
    unfolding n_def run_def ts next_ready_def Let_def prio_at_def by (auto split: prod.splits)
  have tk: "tk k' i = ?ts ! i" for i by (simp add: tk_def)
  have pr: "priority (tk k' i) \<le> priority (tk k' j) \<longleftrightarrow> prio_at ?ts i \<le> prio_at ?ts j"
    "priority (tk k' i) = priority (tk k' j) \<longleftrightarrow> prio_at ?ts i = prio_at ?ts j" for i j
    unfolding prio_at_def tk of_nat_le_iff of_nat_eq_iff word_le_nat_alt by (auto intro: unsigned_word_eqI)
  have rd: "tstate (tk k' i) = TASK_READY \<longleftrightarrow> ready_at ?ts i" for i by (simp add: ready_at_def tk)
  note pos = prio_at_nonneg[of ?ts]
  note bs = best_ready_spec[OF c, of ?ts]
  show "n < 32" using bs n c by auto
  show "(\<forall>i < 32. tstate (tk k' i) \<noteq> TASK_READY) \<longrightarrow> n = cur k" using bs n unfolding rd by auto
  show "tstate (tk k' (cur k)) = TASK_RUNNING \<and> 0 < timeslice (tk k' (cur k))
      \<and> (\<forall>i < 32. tstate (tk k' i) = TASK_READY \<longrightarrow> priority (tk k' i) \<le> priority (tk k' (cur k))) \<longrightarrow> n = cur k"
  proof (intro impI)
    assume keep: "tstate (tk k' (cur k)) = TASK_RUNNING \<and> 0 < timeslice (tk k' (cur k))
      \<and> (\<forall>i < 32. tstate (tk k' i) = TASK_READY \<longrightarrow> priority (tk k' i) \<le> priority (tk k' (cur k)))"
    then have "\<forall>i < 32. ready_at ?ts i \<longrightarrow> prio_at ?ts i \<le> prio_at ?ts (cur k)" unfolding rd pr by blast
    then have "fst (best_ready ?ts (cur k)) < 0 \<or> fst (best_ready ?ts (cur k)) \<le> prio_at ?ts (cur k)" using bs by auto
    then have run using keep by (simp add: run_def tk)
    then show "n = cur k" using n by simp
  qed
  show "(\<exists>i < 32. tstate (tk k' i) = TASK_READY) \<longrightarrow>
      (n = cur k \<and> tstate (tk k' n) = TASK_RUNNING \<and> 0 < timeslice (tk k' n)
         \<and> (\<forall>i < 32. tstate (tk k' i) = TASK_READY \<longrightarrow> priority (tk k' i) \<le> priority (tk k' n)))
      \<or> (tstate (tk k' n) = TASK_READY
         \<and> (\<forall>i < 32. tstate (tk k' i) = TASK_READY \<longrightarrow> priority (tk k' i) \<le> priority (tk k' n)
              \<and> (priority (tk k' i) = priority (tk k' n) \<longrightarrow> rr_dist (cur k) n \<le> rr_dist (cur k) i)))"
  proof (intro impI)
    assume "\<exists>i < 32. tstate (tk k' i) = TASK_READY"
    then obtain m where m: "best_ready ?ts (cur k) = (prio_at ?ts m, m)" "ready_at ?ts m"
      "\<forall>i < 32. ready_at ?ts i \<longrightarrow> prio_at ?ts i \<le> prio_at ?ts m
            \<and> (prio_at ?ts i = prio_at ?ts m \<longrightarrow> rr_dist (cur k) m \<le> rr_dist (cur k) i)"
      using bs unfolding rd by blast
    show "(n = cur k \<and> tstate (tk k' n) = TASK_RUNNING \<and> 0 < timeslice (tk k' n)
         \<and> (\<forall>i < 32. tstate (tk k' i) = TASK_READY \<longrightarrow> priority (tk k' i) \<le> priority (tk k' n)))
      \<or> (tstate (tk k' n) = TASK_READY
         \<and> (\<forall>i < 32. tstate (tk k' i) = TASK_READY \<longrightarrow> priority (tk k' i) \<le> priority (tk k' n)
              \<and> (priority (tk k' i) = priority (tk k' n) \<longrightarrow> rr_dist (cur k) n \<le> rr_dist (cur k) i)))"
    proof (cases run)
      case True
      then have le: "prio_at ?ts m \<le> prio_at ?ts (cur k)" using m(1) pos[of m] by (auto simp: run_def)
      have "n = cur k" "tstate (tk k' n) = TASK_RUNNING" "0 < timeslice (tk k' n)"
        using True n unfolding run_def by (simp_all add: tk)
      moreover have "\<forall>i < 32. ready_at ?ts i \<longrightarrow> prio_at ?ts i \<le> prio_at ?ts (cur k)"
        using m(3) le by fastforce
      ultimately show ?thesis unfolding rd pr by blast
    next
      case False
      then have "n = m" using n m(1) pos[of m] by simp
      then show ?thesis using m(2,3) unfolding rd pr by blast
    qed
  qed
qed

end
