(* ===== verification/Sched_Inv.thy ===== *)
theory Sched_Inv
  imports Sched_Select
begin

text \<open>
  The invariant of the kernel state and that every scheduler operation returns and keeps it: at
  most one task is running and it is the current one, priorities are in range, and the stacks of
  the tasks and the stack waiting to be freed are distinct live heap blocks of 64 KB.
\<close>

section \<open>The invariant\<close>

definition stacks_owned :: "kern \<Rightarrow> owned \<Rightarrow> bool" where
  "stacks_owned k ow \<longleftrightarrow> heap_inv (kheap k) ow
     \<and> (\<forall>i < 32. stack (tk k i) \<noteq> 0 \<longrightarrow> ow (stack (tk k i)) = Some TASK_STACK_SZ \<and> stack (tk k i) \<noteq> pending_stack k)
     \<and> (\<forall>i < 32. \<forall>j < 32. i \<noteq> j \<and> stack (tk k i) \<noteq> 0 \<longrightarrow> stack (tk k i) \<noteq> stack (tk k j))
     \<and> (pending_stack k \<noteq> 0 \<longrightarrow> ow (pending_stack k) = Some TASK_STACK_SZ)"

definition kern_inv :: "kern \<Rightarrow> bool" where
  "kern_inv k \<longleftrightarrow> sched_wf k \<and> router_inv (krouter k) \<and> (\<exists>ow. stacks_owned k ow)"

section \<open>Single updates\<close>

lemma stacks_owned_cong:
  "(\<And>i. i < 32 \<Longrightarrow> stack (tk k' i) = stack (tk k i)) \<Longrightarrow> pending_stack k' = pending_stack k \<Longrightarrow> kheap k' = kheap k \<Longrightarrow>
     stacks_owned k' ow = stacks_owned k ow"
  by (simp add: stacks_owned_def)

lemma stack_upd: "(\<And>t. stack (f t) = stack t) \<Longrightarrow> stack (tk (upd i f k) j) = stack (tk k j)"
  by (cases "i < length (tasks k)") (simp add: tk_upd, simp add: tk_def upd_def list_update_beyond not_less)

lemma stacks_owned_upd: "(\<And>t. stack (f t) = stack t) \<Longrightarrow> stacks_owned (upd i f k) ow = stacks_owned k ow"
  by (rule stacks_owned_cong) (simp_all add: stack_upd)

lemma stacks_owned_frame [simp]:
  "stacks_owned (k\<lparr>cur := c\<rparr>) ow = stacks_owned k ow" "stacks_owned (k\<lparr>ntasks := n\<rparr>) ow = stacks_owned k ow"
  "stacks_owned (k\<lparr>krouter := r\<rparr>) ow = stacks_owned k ow" "stacks_owned (k\<lparr>cpu_rsp := v\<rparr>) ow = stacks_owned k ow"
  "stacks_owned (k\<lparr>halted := b\<rparr>) ow = stacks_owned k ow" "stacks_owned (k\<lparr>ticks := t\<rparr>) ow = stacks_owned k ow"
  "stacks_owned (k\<lparr>g_recent_strikes := g\<rparr>) ow = stacks_owned k ow"
  "stacks_owned (k\<lparr>sched_ready := b\<rparr>) ow = stacks_owned k ow"
  by (rule stacks_owned_cong; simp)+

lemma sched_wf_frame [simp]:
  "sched_wf (k\<lparr>ntasks := n\<rparr>) = sched_wf k" "sched_wf (k\<lparr>kheap := h\<rparr>) = sched_wf k"
  "sched_wf (k\<lparr>krouter := r\<rparr>) = sched_wf k" "sched_wf (k\<lparr>cpu_rsp := v\<rparr>) = sched_wf k"
  "sched_wf (k\<lparr>halted := b\<rparr>) = sched_wf k" "sched_wf (k\<lparr>ticks := t\<rparr>) = sched_wf k"
  "sched_wf (k\<lparr>pending_stack := p\<rparr>) = sched_wf k" "sched_wf (k\<lparr>g_recent_strikes := g\<rparr>) = sched_wf k"
  "sched_wf (k\<lparr>sched_ready := b\<rparr>) = sched_wf k"
  by (simp_all add: sched_wf_def)

lemma sched_wf_upd:
  assumes "sched_wf k" and "i < 32" and "tstate (f (tk k i)) = TASK_RUNNING \<Longrightarrow> i = cur k"
    and "priority (f (tk k i)) \<le> PRIO_REALTIME" and "base_priority (f (tk k i)) \<le> PRIO_REALTIME"
  shows "sched_wf (upd i f k)"
  using assms by (auto simp: sched_wf_def tk_upd)

lemma kern_inv_upd:
  assumes "kern_inv k" and "i < 32" and "tstate (f (tk k i)) = TASK_RUNNING \<Longrightarrow> i = cur k"
    and "priority (f (tk k i)) \<le> PRIO_REALTIME" and "base_priority (f (tk k i)) \<le> PRIO_REALTIME"
    and "\<And>t. stack (f t) = stack t"
  shows "kern_inv (upd i f k)"
  using assms sched_wf_upd[of k i f] stacks_owned_upd[of f i k] by (simp add: kern_inv_def)

lemma kern_inv_wf: "kern_inv k \<Longrightarrow> sched_wf k"
  by (simp add: kern_inv_def)

lemma sched_wfD:
  assumes "sched_wf k"
  shows "length (tasks k) = 32" "cur k < 32" "cur k < length (tasks k)"
    and "i < 32 \<Longrightarrow> priority (tk k i) \<le> PRIO_REALTIME" "i < 32 \<Longrightarrow> base_priority (tk k i) \<le> PRIO_REALTIME"
    and "i < 32 \<Longrightarrow> tstate (tk k i) = TASK_RUNNING \<Longrightarrow> i = cur k"
  using assms by (auto simp: sched_wf_def)

text \<open>Updates that touch neither state, priorities nor stack.\<close>

lemma kern_inv_plain:
  assumes "kern_inv k" and "i < 32"
    and "\<And>t. stack (f t) = stack t \<and> tstate (f t) = tstate t \<and> priority (f t) = priority t \<and> base_priority (f t) = base_priority t"
  shows "kern_inv (upd i f k)"
  using assms sched_wfD[OF kern_inv_wf[OF assms(1)]] by (intro kern_inv_upd) auto

section \<open>Selection and switching keep the invariant\<close>

lemma next_ready_stacks:
  assumes "length (tasks k) = 32"
  shows "stacks_owned (snd (next_ready k)) ow = stacks_owned k ow"
  using next_ready_frame(1)[OF assms]
  by (intro stacks_owned_cong) (simp, (subst next_ready_frame(2), simp)+)

lemma kern_inv_next_ready:
  assumes "kern_inv k"
  shows "kern_inv (snd (next_ready k))" and "fst (next_ready k) < 32"
proof -
  have wf: "sched_wf k" using assms by (rule kern_inv_wf)
  note D = sched_wfD[OF wf]
  let ?k = "snd (next_ready k)"
  have tk: "tk ?k i = wake_task (pit_ticks k) (age_task (pit_ticks k) (tk k i))" if "i < 32" for i
    using next_ready_frame(1)[OF D(1) that] .
  have c: "cur ?k = cur k" by (subst next_ready_frame(2)) simp
  have "sched_wf ?k"
    unfolding sched_wf_def c
  proof (intro conjI allI impI)
    show "length (tasks ?k) = 32" using D(1) by (simp add: next_ready_frame(3))
    show "cur k < 32" by (rule D(2))
    show "i = cur k" if "i < 32" "tstate (tk ?k i) = TASK_RUNNING" for i
      using that tk D(6) by (auto simp: wake_state split: if_splits)
    show "priority (tk ?k i) \<le> PRIO_REALTIME" "base_priority (tk ?k i) \<le> PRIO_REALTIME" if "i < 32" for i
      using that tk D(4,5) age_prio by simp_all
  qed
  moreover note next_ready_stacks[OF D(1)]
  moreover have "krouter ?k = krouter k" by (subst next_ready_frame(2)) simp
  ultimately show "kern_inv ?k" using assms by (simp add: kern_inv_def)
  show "fst (next_ready k) < 32" using next_ready_cases(1)[OF wf] .
qed

lemma next_ready_cur [simp]: "cur (snd (next_ready k)) = cur k" "kheap (snd (next_ready k)) = kheap k"
  "pending_stack (snd (next_ready k)) = pending_stack k" "ntasks (snd (next_ready k)) = ntasks k"
  "krouter (snd (next_ready k)) = krouter k"
  by (subst next_ready_frame(2), simp)+

lemma switch_to_fields:
  assumes "length (tasks k) = 32" and "cur k < 32" and "n < 32" and "n \<noteq> cur k"
  shows "length (tasks (switch_to n k)) = 32" "cur (switch_to n k) = n"
    "krouter (switch_to n k) = krouter k"
    "tstate (tk (switch_to n k) j) = (if j = n then TASK_RUNNING
       else if j = cur k \<and> tstate (tk k j) = TASK_RUNNING then TASK_READY else tstate (tk k j))"
    "priority (tk (switch_to n k) j) = (if j = cur k then base_priority (tk k j) else priority (tk k j))"
    "base_priority (tk (switch_to n k) j) = base_priority (tk k j)"
  using assms by (simp_all add: switch_to_def ctx_switch_def Let_def tk_upd)

lemma kern_inv_switch_to:
  assumes inv: "kern_inv k" and n: "n < 32"
  shows "kern_inv (switch_to n k)"
proof (cases "n = cur k")
  case True
  then show ?thesis using inv n by (auto simp: switch_to_def intro!: kern_inv_plain)
next
  case False
  note D = sched_wfD[OF kern_inv_wf[OF inv]]
  let ?k = "switch_to n k"
  have "sched_wf ?k"
    unfolding sched_wf_def using n D(4-6) switch_to_fields[OF D(1,2) n False] by (auto split: if_splits)
  moreover have "stacks_owned ?k ow = stacks_owned k ow" for ow
    using False by (auto simp: switch_to_def ctx_switch_def Let_def stacks_owned_upd)
  moreover have "krouter ?k = krouter k" using False by (simp add: switch_to_def ctx_switch_def Let_def)
  ultimately show ?thesis using inv by (simp add: kern_inv_def)
qed

lemma kern_inv_reschedule: "kern_inv k \<Longrightarrow> kern_inv (reschedule k)"
  by (simp add: reschedule_def case_prod_beta kern_inv_next_ready kern_inv_switch_to)

lemma kern_inv_yield: "kern_inv k \<Longrightarrow> kern_inv (sched_yield k)"
  using sched_wfD[OF kern_inv_wf] by (auto simp: sched_yield_def intro!: kern_inv_reschedule kern_inv_plain)

lemma kern_inv_sleep: "kern_inv k \<Longrightarrow> kern_inv (sched_sleep ms k)"
proof -
  assume inv: "kern_inv k"
  note D = sched_wfD[OF kern_inv_wf[OF inv]]
  let ?k1 = "upd (cur k) (heartbeat_update (\<lambda>h. h + 1)) k"
  have k1: "kern_inv ?k1" using inv D(2) by (intro kern_inv_plain) auto
  then have "kern_inv (upd (cur k) (\<lambda>t. t\<lparr>sleep_until := w, tstate := TASK_SLEEPING\<rparr>) ?k1)" for w
    using D(2) sched_wfD(4,5)[OF kern_inv_wf[OF k1]] by (intro kern_inv_upd[OF k1]) auto
  then show ?thesis by (simp add: sched_sleep_def Let_def kern_inv_yield)
qed


section \<open>Stacks\<close>

lemma free_stack_ok:
  assumes "stacks_owned k ow" and "p \<noteq> 0 \<Longrightarrow> ow p = Some TASK_STACK_SZ"
    and "p \<noteq> 0 \<Longrightarrow> pending_stack k \<noteq> p" and "\<And>i. i < 32 \<Longrightarrow> p \<noteq> 0 \<Longrightarrow> stack (tk k i) \<noteq> p"
  obtains h ow' where "free_stack p k = Some (k\<lparr>kheap := h\<rparr>)" and "stacks_owned (k\<lparr>kheap := h\<rparr>) ow'"
    and "\<forall>q. q \<noteq> p \<longrightarrow> ow' q = ow q"
proof (cases "p = 0")
  case True
  then show thesis using that[of "kheap k" ow] assms(1) by (simp add: free_stack_def)
next
  case False
  have "heap_inv (kheap k) ow" using assms(1) by (simp add: stacks_owned_def)
  from heap_inv_free[OF this assms(2)[OF False]] obtain h where
    h: "kfree p (kheap k) = Some h" "heap_inv h (ow(p := None))" by blast
  have "stacks_owned (k\<lparr>kheap := h\<rparr>) (ow(p := None))"
    using assms(1,3,4) False h(2) by (auto simp: stacks_owned_def)
  then show thesis using that[of h "ow(p := None)"] False h(1) by (simp add: free_stack_def)
qed

lemma free_stack_indep:
  assumes "kheap k' = kheap k" and "free_stack p k = Some (k\<lparr>kheap := h\<rparr>)"
  shows "free_stack p k' = Some (k'\<lparr>kheap := h\<rparr>)"
proof (cases "p = 0")
  case True
  with assms(2) have "k\<lparr>kheap := h\<rparr> = k" by (simp add: free_stack_def)
  then have "h = kheap k" by (metis kern.select_convs(6) kern.surjective kern.update_convs(6))
  then show ?thesis using True assms(1) by (simp add: free_stack_def)
next
  case False
  with assms(2) obtain h' where "kfree p (kheap k) = Some h'" "k\<lparr>kheap := h'\<rparr> = k\<lparr>kheap := h\<rparr>"
    by (auto simp: free_stack_def)
  moreover from this(2) have "h' = h" by (metis kern.select_convs(6) kern.surjective kern.update_convs(6))
  ultimately show ?thesis using False assms(1) by (simp add: free_stack_def)
qed

text \<open>A stack pointer taken out of the task table, and one put back as the pending stack.\<close>

lemma stacks_owned_take:
  assumes "stacks_owned k ow" and "length (tasks k) = 32" and "i < 32"
  defines "k' \<equiv> upd i (stack_update (\<lambda>_. 0)) k"
  shows "stacks_owned k' ow"
    and "stack (tk k i) \<noteq> 0 \<Longrightarrow> ow (stack (tk k i)) = Some TASK_STACK_SZ \<and> pending_stack k' \<noteq> stack (tk k i)"
    and "j < 32 \<Longrightarrow> stack (tk k i) \<noteq> 0 \<Longrightarrow> stack (tk k' j) \<noteq> stack (tk k i)"
proof -
  show "stacks_owned k' ow" using assms(1-3) unfolding k'_def stacks_owned_def by (auto simp: tk_upd)
  show "stack (tk k i) \<noteq> 0 \<Longrightarrow> ow (stack (tk k i)) = Some TASK_STACK_SZ \<and> pending_stack k' \<noteq> stack (tk k i)"
    using assms(1-3) unfolding k'_def stacks_owned_def by auto
  show "stack (tk k' j) \<noteq> stack (tk k i)" if "j < 32" "stack (tk k i) \<noteq> 0"
  proof -
    have "i \<noteq> j \<Longrightarrow> stack (tk k i) \<noteq> stack (tk k j)" using assms(1,3) that unfolding stacks_owned_def by blast
    then show ?thesis using that assms(2,3) by (auto simp: k'_def tk_upd)
  qed
qed

lemma stacks_owned_pending:
  assumes "stacks_owned k ow" and "p \<noteq> 0 \<Longrightarrow> ow p = Some TASK_STACK_SZ"
    and "\<And>j. j < 32 \<Longrightarrow> p \<noteq> 0 \<Longrightarrow> stack (tk k j) \<noteq> p"
  shows "stacks_owned (k\<lparr>pending_stack := p\<rparr>) ow"
  using assms by (auto simp: stacks_owned_def)

lemma push_frame_other:
  "8 * length vs \<le> sp \<Longrightarrow> y < sp - 8 * length vs \<or> sp \<le> y \<Longrightarrow> fst (push_frame vs sp m) y = m y"
proof (induction vs arbitrary: sp m)
  case (Cons v vs)
  then have "fst (push_frame vs (sp - 8) (store64 m (sp - 8) v)) y = store64 m (sp - 8) v y"
    by (intro Cons.IH) auto
  also have "\<dots> = m y" using Cons.prems by (intro store64_other) auto
  finally show ?case by simp
qed simp

lemma kern_inv_spawn:
  assumes inv: "kern_inv k"
  shows "\<exists>r k'. sched_spawn fn name k = Some (r, k') \<and> kern_inv k'"
proof (cases "List.find (\<lambda>i. vacant (tk k i)) [0..<TASK_MAX]")
  case None
  then show ?thesis using inv by (simp add: sched_spawn_def)
next
  case (Some i)
  then have i: "i < 32" "vacant (tk k i)" by (auto simp: find_upt_lowest TASK_MAX_def)
  note D = sched_wfD[OF kern_inv_wf[OF inv]]
  obtain ow where so: "stacks_owned k ow" using inv by (auto simp: kern_inv_def)
  then have hi: "heap_inv (kheap k) ow" by (simp add: stacks_owned_def)
  have "ok_request TASK_STACK_SZ" by (simp add: ok_request_def TASK_STACK_SZ_def)
  from heap_inv_alloc[OF hi this, of "klimits k"] obtain p h where
    al: "kmalloc (klimits k) (of_nat TASK_STACK_SZ) (kheap k) = Some (p, h)"
    and p0: "p = 0 \<longrightarrow> heap_inv h ow" and p1: "p \<noteq> 0 \<longrightarrow> ow p = None \<and> heap_inv h (ow(p \<mapsto> TASK_STACK_SZ))" by blast
  show ?thesis
  proof (cases "p = 0")
    case True
    have "stacks_owned (k\<lparr>kheap := h\<rparr>) ow" using so p0 True by (simp add: stacks_owned_def)
    then show ?thesis using inv Some al True by (auto simp: sched_spawn_def kern_inv_def)
  next
    case False
    let ?vs = "[fn, 0, 0, 0, 0, 0, 0]" and ?ow = "ow(p \<mapsto> TASK_STACK_SZ)"
    obtain m sp where ms: "push_frame ?vs (p + TASK_STACK_SZ) (hmem h) = (m, sp)" by fastforce
    have "heap_inv (h\<lparr>hmem := m\<rparr>) ?ow"
    proof (rule heap_inv_write)
      show "heap_inv h ?ow" using p1 False by blast
      show "?ow p = Some TASK_STACK_SZ" by simp
      show "m y = hmem h y" if "y < p \<or> p + TASK_STACK_SZ \<le> y" for y
        using push_frame_other[of ?vs "p + TASK_STACK_SZ" y "hmem h"] that ms
        by (auto simp: TASK_STACK_SZ_def simp del: push_frame.simps)
    qed
    moreover define k1 where "k1 = upd i (spawn_task i sp p name (pit_ticks k)) (k\<lparr>kheap := h\<lparr>hmem := m\<rparr>\<rparr>)"
    ultimately have "stacks_owned k1 ?ow"
      using so p1 False i(1) D(1) unfolding stacks_owned_def by (auto simp: k1_def tk_upd spawn_task_def)
    moreover have "sched_wf k1"
      unfolding k1_def using inv i(1) D by (intro sched_wf_upd)
        (auto simp: kern_inv_def spawn_task_def PRIO_NORMAL_def PRIO_REALTIME_def)
    ultimately have "kern_inv (k1\<lparr>ntasks := ntasks k1 + 1\<rparr>)"
      using inv by (auto simp: kern_inv_def k1_def)
    moreover have "sched_spawn fn name k = Some (int i, k1\<lparr>ntasks := ntasks k1 + 1\<rparr>)"
      using Some al False ms by (simp add: sched_spawn_def k1_def Let_def del: push_frame.simps)
    ultimately show ?thesis by blast
  qed
qed


section \<open>Ending tasks\<close>

lemma free_pending_ok:
  assumes "stacks_owned k ow"
  obtains h ow' where "free_stack (pending_stack k) k = Some (k\<lparr>kheap := h\<rparr>)"
    and "stacks_owned (k\<lparr>kheap := h, pending_stack := 0\<rparr>) ow'" and "\<forall>q. q \<noteq> pending_stack k \<longrightarrow> ow' q = ow q"
proof -
  have "stacks_owned (k\<lparr>pending_stack := 0\<rparr>) ow"
    using assms by (intro stacks_owned_pending) auto
  then obtain h ow' where
    h: "free_stack (pending_stack k) (k\<lparr>pending_stack := 0\<rparr>) = Some ((k\<lparr>pending_stack := 0\<rparr>)\<lparr>kheap := h\<rparr>)"
    and so: "stacks_owned ((k\<lparr>pending_stack := 0\<rparr>)\<lparr>kheap := h\<rparr>) ow'"
    and ow: "\<forall>q. q \<noteq> pending_stack k \<longrightarrow> ow' q = ow q"
  proof (rule free_stack_ok[of _ _ "pending_stack k"])
    show "pending_stack k \<noteq> 0 \<Longrightarrow> ow (pending_stack k) = Some TASK_STACK_SZ"
      using assms by (simp add: stacks_owned_def)
    show "stack (tk (k\<lparr>pending_stack := 0\<rparr>) i) \<noteq> pending_stack k" if "i < 32" "pending_stack k \<noteq> 0" for i
      using assms that by (auto simp: stacks_owned_def)
  qed simp_all
  show thesis
  proof (rule that)
    show "free_stack (pending_stack k) k = Some (k\<lparr>kheap := h\<rparr>)"
      using h by (rule free_stack_indep[rotated]) simp
    show "stacks_owned (k\<lparr>kheap := h, pending_stack := 0\<rparr>) ow'"
      using so by (subst stacks_owned_cong[where k = "k\<lparr>pending_stack := 0, kheap := h\<rparr>"]) simp_all
    show "\<forall>q. q \<noteq> pending_stack k \<longrightarrow> ow' q = ow q" by (rule ow)
  qed
qed

lemma sched_wf_resume:
  assumes "sched_wf k" and "tstate (tk k (cur k)) \<noteq> TASK_RUNNING" and "n < 32"
  shows "sched_wf ((upd n (tstate_update (\<lambda>_. TASK_RUNNING)) k)\<lparr>cur := n, cpu_rsp := v\<rparr>)"
  using assms by (auto simp: sched_wf_def tk_upd)

lemma kern_inv_exit:
  assumes inv: "kern_inv k"
  shows "\<exists>k'. sched_exit k = Some k' \<and> kern_inv k'"
proof -
  note D = sched_wfD[OF kern_inv_wf[OF inv]]
  obtain ow where so: "stacks_owned k ow" using inv by (auto simp: kern_inv_def)
  define dying where "dying = stack (tk k (cur k))"
  define k1 where "k1 = upd (cur k) (stack_update (\<lambda>_. 0)) k"
  define k3 where "k3 = (upd (cur k) (tstate_update (\<lambda>_. TASK_EMPTY))
      (k1\<lparr>krouter := input_router_task_exit (int (cur k)) (krouter k1)\<rparr>))\<lparr>ntasks := ntasks k1 - 1\<rparr>"
  define n k4 where "n = fst (next_ready k3)" and "k4 = snd (next_ready k3)"
  note take = stacks_owned_take[OF so D(1,2), folded k1_def dying_def]
  have so3: "stacks_owned k3 ow" using take(1) by (simp add: k3_def stacks_owned_upd)
  have wf1: "sched_wf k1" unfolding k1_def by (rule sched_wf_upd[OF kern_inv_wf[OF inv] D(2)]) (use D(2,4,5) in simp_all)
  have "sched_wf (upd (cur k) (tstate_update (\<lambda>_. TASK_EMPTY))
      (k1\<lparr>krouter := input_router_task_exit (int (cur k)) (krouter k1)\<rparr>))"
    by (rule sched_wf_upd) (use wf1 D(2) sched_wfD(4,5)[OF wf1] in simp_all)
  then have wf3: "sched_wf k3" by (simp add: k3_def)
  have v: "valid_slot (int (cur k))" using D(2) by (simp add: valid_slot_def TASK_MAX_def)
  have "router_inv (krouter k3)" using inv task_exit_spec(1)[OF _ v] by (simp add: kern_inv_def k3_def k1_def)
  then have inv3: "kern_inv k3" using wf3 so3 by (auto simp: kern_inv_def)
  have inv4: "kern_inv k4" and n: "n < 32" unfolding n_def k4_def using kern_inv_next_ready[OF inv3] by blast+
  have so4: "stacks_owned k4 ow" using so3 next_ready_stacks[of k3] sched_wfD(1)[OF wf3] by (simp add: k4_def)
  have stk: "stack (tk k4 j) = stack (tk k1 j)" if "j < 32" for j
    using next_ready_frame(1)[OF sched_wfD(1)[OF wf3] that] by (simp add: k4_def k3_def stack_upd)
  have c4: "cur k4 = cur k" by (simp add: k4_def k3_def k1_def)
  have st4: "tstate (tk k4 (cur k4)) \<noteq> TASK_RUNNING"
    using next_ready_frame(1)[OF sched_wfD(1)[OF wf3] D(2)] D(1,2) by (simp add: c4 k4_def k3_def k1_def tk_upd wake_state)
  have unf: "sched_exit k = (if n = cur k then map_option (\<lambda>k5. k5\<lparr>halted := True\<rparr>) (free_stack dying k4)
      else map_option (\<lambda>k5. let k6 = upd n (tstate_update (\<lambda>_. TASK_RUNNING)) (k5\<lparr>pending_stack := dying\<rparr>)
          in k6\<lparr>cur := n, cpu_rsp := rsp (tk k6 n) + 56\<rparr>) (free_stack (pending_stack k4) k4))"
    unfolding sched_exit_def Let_def case_prod_beta n_def k4_def k3_def k1_def dying_def by simp
  show ?thesis
  proof (cases "n = cur k")
    case True
    obtain h ow' where "free_stack dying k4 = Some (k4\<lparr>kheap := h\<rparr>)" "stacks_owned (k4\<lparr>kheap := h\<rparr>) ow'"
      by (rule free_stack_ok[OF so4, of dying]) (use take(2,3) stk in \<open>auto simp: k4_def k3_def k1_def\<close>)
    then show ?thesis using unf True inv4 by (auto simp: kern_inv_def)
  next
    case False
    obtain h ow' where fr: "free_stack (pending_stack k4) k4 = Some (k4\<lparr>kheap := h\<rparr>)"
      and so5: "stacks_owned (k4\<lparr>kheap := h, pending_stack := 0\<rparr>) ow'"
      and ow': "\<forall>q. q \<noteq> pending_stack k4 \<longrightarrow> ow' q = ow q" by (rule free_pending_ok[OF so4])
    have pend: "dying \<noteq> 0 \<Longrightarrow> dying \<noteq> pending_stack k4" using take(2) by (auto simp: k4_def k3_def k1_def)
    have so6: "stacks_owned (k4\<lparr>kheap := h, pending_stack := dying\<rparr>) ow'"
      using stacks_owned_pending[OF so5, of dying] take(2,3) stk ow' pend by simp
    let ?k5 = "k4\<lparr>kheap := h, pending_stack := dying\<rparr>"
    let ?k6 = "upd n (tstate_update (\<lambda>_. TASK_RUNNING)) ?k5"
    have "sched_wf (?k6\<lparr>cur := n, cpu_rsp := rsp (tk ?k6 n) + 56\<rparr>)"
      using inv4 st4 n by (intro sched_wf_resume) (simp_all add: kern_inv_def)
    moreover have "stacks_owned (?k6\<lparr>cur := n, cpu_rsp := rsp (tk ?k6 n) + 56\<rparr>) ow'"
      using so6 by (simp add: stacks_owned_upd)
    ultimately have "kern_inv (?k6\<lparr>cur := n, cpu_rsp := rsp (tk ?k6 n) + 56\<rparr>)"
      using inv4 by (auto simp: kern_inv_def)
    moreover have "sched_exit k = Some (?k6\<lparr>cur := n, cpu_rsp := rsp (tk ?k6 n) + 56\<rparr>)"
      using unf False fr by (simp add: Let_def)
    ultimately show ?thesis by blast
  qed
qed

lemma kern_inv_kill:
  assumes inv: "kern_inv k"
  shows "\<exists>r k'. sched_kill i k = Some (r, k') \<and> kern_inv k'"
proof (cases "i < 0 \<or> int TASK_MAX \<le> i \<or> vacant (tk k (nat i)) \<or> i = 0")
  case True
  then show ?thesis using inv by (auto simp: sched_kill_def)
next
  case False
  define n where "n = nat i"
  have n: "n < 32" "i = int n" using False by (auto simp: n_def TASK_MAX_def)
  note D = sched_wfD[OF kern_inv_wf[OF inv]]
  obtain ow where so: "stacks_owned k ow" using inv by (auto simp: kern_inv_def)
  obtain k1 where k1: "(if n \<noteq> cur k \<and> stack (tk k n) \<noteq> 0
        then map_option (upd n (stack_update (\<lambda>_. 0))) (free_stack (stack (tk k n)) k) else Some k) = Some k1"
    and inv1: "kern_inv k1" and c1: "cur k1 = cur k"
  proof (cases "n \<noteq> cur k \<and> stack (tk k n) \<noteq> 0")
    case True
    let ?z = "upd n (stack_update (\<lambda>_. 0))"
    note take = stacks_owned_take[OF so D(1) n(1)]
    obtain h ow' where h: "free_stack (stack (tk k n)) (?z k) = Some ((?z k)\<lparr>kheap := h\<rparr>)"
      and so': "stacks_owned ((?z k)\<lparr>kheap := h\<rparr>) ow'"
      by (rule free_stack_ok[OF take(1), of "stack (tk k n)"]) (use take(2,3) True in auto)
    have "free_stack (stack (tk k n)) k = Some (k\<lparr>kheap := h\<rparr>)"
      using h by (rule free_stack_indep[rotated]) simp
    moreover have "?z (k\<lparr>kheap := h\<rparr>) = (?z k)\<lparr>kheap := h\<rparr>" by (simp add: upd_def)
    moreover have "sched_wf (?z k)"
      by (rule sched_wf_upd[OF kern_inv_wf[OF inv] n(1)]) (use n(1) D(4,5) D(6)[OF n(1)] in simp_all)
    ultimately show thesis using that[of "(?z k)\<lparr>kheap := h\<rparr>"] True so' inv by (auto simp: kern_inv_def)
  next
    case False
    then show thesis using that[of k] inv by auto
  qed
  define k3 where "k3 = (upd n (tstate_update (\<lambda>_. TASK_DEAD))
      (k1\<lparr>krouter := input_router_task_exit i (krouter k1)\<rparr>))\<lparr>ntasks := ntasks k1 - 1\<rparr>"
  have v: "valid_slot i" using n by (simp add: valid_slot_def TASK_MAX_def)
  have "kern_inv (k1\<lparr>krouter := input_router_task_exit i (krouter k1)\<rparr>)"
    using inv1 task_exit_spec(1)[OF _ v] by (auto simp: kern_inv_def)
  then have "kern_inv (upd n (tstate_update (\<lambda>_. TASK_DEAD)) (k1\<lparr>krouter := input_router_task_exit i (krouter k1)\<rparr>))"
    by (rule kern_inv_upd) (use n(1) sched_wfD(4,5)[OF kern_inv_wf[OF inv1]] in simp_all)
  then have inv3: "kern_inv k3" by (simp add: k3_def kern_inv_def)
  have "sched_kill i k = (if n = cur k3 then map_option (\<lambda>k4. (NoReturn, k4)) (sched_exit k3) else Some (Returns 0, k3))"
    using False k1 by (simp add: sched_kill_def n_def[symmetric] k3_def Let_def)
  then show ?thesis using kern_inv_exit[OF inv3] inv3 by auto
qed


section \<open>Signals, ticks and the watchdog\<close>

lemma kern_inv_send: "kern_inv k \<Longrightarrow> kern_inv (snd (signal_send i s k))"
  by (auto simp: signal_send_def TASK_MAX_def intro!: kern_inv_plain)

lemma kern_inv_notify: "kern_inv k \<Longrightarrow> kern_inv (signal_notify_parent pp c e k)"
  by (simp add: signal_notify_parent_def kern_inv_send)

lemma kern_inv_state:
  assumes "kern_inv k" and "n < 32" and "s \<noteq> TASK_RUNNING"
  shows "kern_inv (upd n (tstate_update (\<lambda>_. s)) k)"
  by (rule kern_inv_upd[OF assms(1,2)]) (use assms sched_wfD(4,5)[OF kern_inv_wf[OF assms(1)]] in simp_all)

lemma kern_inv_terminate:
  assumes inv: "kern_inv k" and n: "nat i < 32"
  shows "\<exists>r k'. signal_terminate i s k = Some (r, k') \<and> kern_inv k'"
proof -
  let ?k2 = "upd (nat i) (signals_update (exit_signal_update (\<lambda>_. int s))) k"
  define k3 where "k3 = signal_notify_parent (sint (ppid (tk ?k2 (nat i)))) i (- int s) ?k2"
  have "kern_inv ?k2" using inv n by (intro kern_inv_plain) auto
  then have inv3: "kern_inv k3" unfolding k3_def by (rule kern_inv_notify)
  have "\<exists>r k'. (if i = sint (tid (tk k3 (cur k3))) then map_option (\<lambda>k4. (NoReturn, k4)) (sched_exit k3)
         else Some (Returns 1, upd (nat i) (tstate_update (\<lambda>_. TASK_DEAD)) k3)) = Some (r, k') \<and> kern_inv k'"
    using kern_inv_exit[OF inv3] kern_inv_state[OF inv3 n, of TASK_DEAD] by auto
  then show ?thesis unfolding k3_def Let_def signal_terminate_def .
qed

lemma kern_inv_dispatch:
  assumes inv: "kern_inv k" and run: "\<And>h s k. kern_inv k \<Longrightarrow> kern_inv (run h s k)"
  shows "\<exists>r k'. signal_dispatch run i k = Some (r, k') \<and> kern_inv k'"
proof (cases "i < 0 \<or> int TASK_MAX \<le> i")
  case True
  then show ?thesis using inv by (simp add: signal_dispatch_def)
next
  case False
  have n: "nat i < 32" using False by (auto simp: TASK_MAX_def)
  have k1: "kern_inv (upd (nat i) (signals_update (pending_update f)) k)" for f
    using inv n by (intro kern_inv_plain) auto
  show ?thesis
    unfolding signal_dispatch_def Let_def
    using False inv run k1 kern_inv_state[OF k1 n, of TASK_READY] kern_inv_terminate[OF k1 n]
    by (simp split: sig_action.split)
qed

lemma kern_inv_slice: "kern_inv k \<Longrightarrow> kern_inv (if c then upd (cur k) (timeslice_update f) k else k)"
  using sched_wfD[OF kern_inv_wf] by (auto intro!: kern_inv_plain)

lemma kern_inv_tick:
  assumes inv: "kern_inv k" and run: "\<And>h s k. kern_inv k \<Longrightarrow> kern_inv (run h s k)"
  shows "\<exists>k'. sched_tick run k = Some k' \<and> kern_inv k'"
proof -
  have inv1: "kern_inv (pit_tick k)" using inv by (simp add: kern_inv_def pit_tick_def)
  obtain r k2 where d: "signal_dispatch run (int (cur (pit_tick k))) (pit_tick k) = Some (r, k2)" and inv2: "kern_inv k2"
    using kern_inv_dispatch[OF inv1, of run] run by blast
  have "kern_inv (if c then upd (cur k2) (timeslice_update f) k2 else k2)" for c f
    by (rule kern_inv_slice[OF inv2])
  then show ?thesis
    using d inv1 inv2 kern_inv_reschedule by (cases r) (auto simp: sched_tick_def Let_def)
qed

lemma kern_inv_set_priority: "kern_inv k \<Longrightarrow> kern_inv (sched_set_priority i p k)"
  using sched_wfD(6)[OF kern_inv_wf[of k], of "nat i"]
  by (auto simp: sched_set_priority_def Let_def TASK_MAX_def intro!: kern_inv_upd)

lemma kern_inv_watchdog_task:
  assumes inv: "kern_inv k" and i: "i < 32"
  shows "\<exists>r k'. watchdog_task i k = Some (r, k') \<and> kern_inv k'"
proof -
  have keep: "kern_inv (upd i (\<lambda>t. t\<lparr>last_heartbeat := heartbeat t\<rparr>) k')" if "kern_inv k'" for k'
    using that i by (intro kern_inv_plain) auto
  have strikes: "kern_inv (upd i (watchdog_strikes_update f) k)" for f
    using inv i by (intro kern_inv_plain) auto
  obtain r k2 where "sched_kill (int i) (upd i (watchdog_strikes_update (\<lambda>s. s + 1)) k) = Some (r, k2)" "kern_inv k2"
    using kern_inv_kill[OF strikes] by blast
  then show ?thesis
    using inv keep strikes by (cases r) (auto simp: watchdog_task_def Let_def)
qed

lemma kern_inv_watchdog_loop:
  "kern_inv k \<Longrightarrow> \<forall>i \<in> set is. i < 32 \<Longrightarrow> \<exists>r k'. watchdog_loop is n k = Some (r, k') \<and> kern_inv k'"
proof (induction "is" arbitrary: n k)
  case (Cons i "is")
  then obtain r k1 where 1: "watchdog_task i k = Some (r, k1)" "kern_inv k1"
    using kern_inv_watchdog_task[of k i] by auto
  show ?case using 1 Cons.IH[OF 1(2)] Cons.prems(2) by (cases r) auto
qed simp

lemma kern_inv_watchdog:
  assumes "kern_inv k"
  shows "\<exists>r k'. sched_watchdog_check k = Some (r, k') \<and> kern_inv k'"
proof -
  obtain r k1 where 1: "watchdog_loop [0..<TASK_MAX] 0 k = Some (r, k1)" "kern_inv k1"
    using kern_inv_watchdog_loop[OF assms, of "[0..<TASK_MAX]" 0] by (auto simp: TASK_MAX_def)
  have "kern_inv (k1\<lparr>g_recent_strikes := g\<rparr>)" for g using 1(2) by (simp add: kern_inv_def)
  then show ?thesis using 1 by (cases r) (auto simp: sched_watchdog_check_def)
qed

end
