(* ===== verification/Sched_Props.thy ===== *)
theory Sched_Props
  imports Sched_Inv Heap_Props
begin

text \<open>
  The properties of the scheduler: what holds in every state a booted kernel can reach, which task
  is chosen, that no ready task starves, where a new task starts and what the watchdog does to each
  task.
\<close>

section \<open>Reachable states\<close>

text \<open>One step: an operation of the scheduler's interface, called by the current task or an interrupt.\<close>

inductive kstep :: "(u64 \<Rightarrow> nat \<Rightarrow> kern \<Rightarrow> kern) \<Rightarrow> kern \<Rightarrow> kern \<Rightarrow> bool" for run where
  step_spawn: "sched_spawn fn name k = Some (r, k') \<Longrightarrow> kstep run k k'"
| step_yield: "kstep run k (sched_yield k)"
| step_sleep: "kstep run k (sched_sleep ms k)"
| step_tick: "sched_tick run k = Some k' \<Longrightarrow> kstep run k k'"
| step_exit: "sched_exit k = Some k' \<Longrightarrow> kstep run k k'"
| step_kill: "sched_kill i k = Some (r, k') \<Longrightarrow> kstep run k k'"
| step_prio: "kstep run k (sched_set_priority i p k)"
| step_signal: "signal_send i s k = (e, k') \<Longrightarrow> kstep run k k'"
| step_block: "i < TASK_MAX \<Longrightarrow> kstep run k (upd i (signals_update (signal_block m)) k)"
| step_unblock: "i < TASK_MAX \<Longrightarrow> kstep run k (upd i (signals_update (signal_unblock m)) k)"
| step_handler: "i < TASK_MAX \<Longrightarrow> kstep run k (upd i (signals_update (\<lambda>ss. snd (signal_set_handler s h ss))) k)"
| step_watchdog: "sched_watchdog_check k = Some (u, k') \<Longrightarrow> kstep run k k'"

inductive kreach :: "(u64 \<Rightarrow> nat \<Rightarrow> kern \<Rightarrow> kern) \<Rightarrow> kern \<Rightarrow> kern \<Rightarrow> bool" for run k0 where
  reach_start: "kreach run k0 k0"
| reach_step: "kreach run k0 k \<Longrightarrow> kstep run k k' \<Longrightarrow> kreach run k0 k'"

definition handlers_ok :: "(u64 \<Rightarrow> nat \<Rightarrow> kern \<Rightarrow> kern) \<Rightarrow> bool" where
  "handlers_ok run \<longleftrightarrow> (\<forall>h s k. kern_inv k \<longrightarrow> kern_inv (run h s k))"

lemma kstep_inv: "kstep run k k' \<Longrightarrow> handlers_ok run \<Longrightarrow> kern_inv k \<Longrightarrow> kern_inv k'"
proof (induction rule: kstep.induct)
  case (step_spawn fn name k r k')
  then show ?case using kern_inv_spawn[of k fn name] by auto
next
  case (step_tick k k')
  then show ?case using kern_inv_tick[of k run] by (auto simp: handlers_ok_def)
next
  case (step_exit k k')
  then show ?case using kern_inv_exit[of k] by auto
next
  case (step_kill i k r k')
  then show ?case using kern_inv_kill[of k i] by auto
next
  case (step_signal i s k e k')
  then show ?case using kern_inv_send[of k i s] by simp
next
  case (step_watchdog k u k')
  then show ?case using kern_inv_watchdog[of k] by auto
qed (auto simp: kern_inv_yield kern_inv_sleep kern_inv_set_priority TASK_MAX_def intro!: kern_inv_plain)

lemma kreach_inv: "kreach run k0 k \<Longrightarrow> handlers_ok run \<Longrightarrow> kern_inv k0 \<Longrightarrow> kern_inv k"
  by (induction rule: kreach.induct) (auto intro: kstep_inv)

text \<open>The machine when \<^verbatim>\<open>sched_init\<close> is called: a zeroed task table, a consistent heap.\<close>

definition booted :: "kern \<Rightarrow> bool" where
  "booted k \<longleftrightarrow> length (tasks k) = 32 \<and> pending_stack k = 0 \<and> router_inv (krouter k)
     \<and> (\<forall>t \<in> set (tasks k). tstate t = TASK_EMPTY \<and> stack t = 0 \<and> priority t = 0 \<and> base_priority t = 0)
     \<and> (\<exists>ow. heap_inv (kheap k) ow)"

lemma kern_inv_init:
  assumes "booted k"
  shows "kern_inv (sched_init k)"
proof -
  have len: "length (tasks k) = 32" using assms by (simp add: booted_def)
  have t: "tstate (tk k i) = TASK_EMPTY" "stack (tk k i) = 0" "priority (tk k i) = 0" "base_priority (tk k i) = 0"
    if "i < 32" for i using assms that nth_mem[of i "tasks k"] by (auto simp: booted_def tk_def)
  obtain ow where "heap_inv (kheap k) ow" using assms by (auto simp: booted_def)
  then have "stacks_owned (sched_init k) ow"
    using assms len t(2) by (auto simp: stacks_owned_def sched_init_def tk_upd booted_def)
  moreover have "sched_wf (sched_init k)"
    using len t by (auto simp: sched_wf_def sched_init_def tk_upd)
  ultimately show ?thesis using assms by (auto simp: kern_inv_def booted_def sched_init_def)
qed

lemma kern_inv_stacks:
  assumes "kern_inv k"
  obtains ow where "heap_inv (kheap k) ow" "\<forall>i < 32. stack (tk k i) \<noteq> 0 \<longrightarrow> ow (stack (tk k i)) = Some 65536"
    "\<forall>i < 32. \<forall>j < 32. i \<noteq> j \<and> stack (tk k i) \<noteq> 0 \<and> stack (tk k j) \<noteq> 0 \<longrightarrow>
       stack (tk k i) + 65536 \<le> stack (tk k j) \<or> stack (tk k j) + 65536 \<le> stack (tk k i)"
proof -
  obtain ow where so: "stacks_owned k ow" using assms by (auto simp: kern_inv_def)
  then have hi: "heap_inv (kheap k) ow" by (simp add: stacks_owned_def)
  have o: "ow (stack (tk k i)) = Some 65536" if "i < 32" "stack (tk k i) \<noteq> 0" for i
    using so that by (simp add: stacks_owned_def TASK_STACK_SZ_def)
  have "stack (tk k i) + 65536 \<le> stack (tk k j) \<or> stack (tk k j) + 65536 \<le> stack (tk k i)"
    if "i < 32" "j < 32" "i \<noteq> j" "stack (tk k i) \<noteq> 0" "stack (tk k j) \<noteq> 0" for i j
    by (rule heap_inv_disjoint[OF hi o o]) (use so that in \<open>auto simp: stacks_owned_def\<close>)
  with hi o show thesis by (intro that) blast+
qed

text \<open>
  C18. In every state that a booted kernel reaches by any sequence of scheduler operations, timer
  ticks, signals, signal masks and handlers, kills and watchdog rounds, only the current task is running, the heap is
  consistent, every task's stack is a live 64 KB heap block, the stacks of two tasks never overlap
  and no operation gets stuck.
\<close>

theorem kernel_runs_safe:
  assumes "booted k0" and "handlers_ok run" and "kreach run (sched_init k0) k"
  shows "(\<forall>i < 32. tstate (tk k i) = TASK_RUNNING \<longrightarrow> i = cur k)
    \<and> (\<exists>ow. heap_inv (kheap k) ow \<and> (\<forall>i < 32. stack (tk k i) \<noteq> 0 \<longrightarrow> ow (stack (tk k i)) = Some 65536))
    \<and> (\<forall>i < 32. \<forall>j < 32. i \<noteq> j \<and> stack (tk k i) \<noteq> 0 \<and> stack (tk k j) \<noteq> 0 \<longrightarrow>
       stack (tk k i) + 65536 \<le> stack (tk k j) \<or> stack (tk k j) + 65536 \<le> stack (tk k i))
    \<and> sched_spawn fn name k \<noteq> None \<and> sched_exit k \<noteq> None \<and> sched_kill i k \<noteq> None
    \<and> sched_tick run k \<noteq> None \<and> sched_watchdog_check k \<noteq> None"
proof -
  have inv: "kern_inv k" using kreach_inv[OF assms(3,2) kern_inv_init[OF assms(1)]] .
  have run: "\<forall>i < 32. tstate (tk k i) = TASK_RUNNING \<longrightarrow> i = cur k" using sched_wfD(6)[OF kern_inv_wf[OF inv]] by blast
  have "sched_spawn fn name k \<noteq> None" "sched_exit k \<noteq> None" "sched_kill i k \<noteq> None"
       "sched_tick run k \<noteq> None" "sched_watchdog_check k \<noteq> None"
    using kern_inv_spawn[OF inv, of fn name] kern_inv_exit[OF inv] kern_inv_kill[OF inv, of i]
      kern_inv_tick[OF inv, of run] kern_inv_watchdog[OF inv] assms(2) by (auto simp: handlers_ok_def)
  with run show ?thesis by (intro conjI) (rule kern_inv_stacks[OF inv], blast)+
qed

definition zero_task :: task where
  "zero_task = \<lparr>rsp = 0, tid = 0, tstate = TASK_EMPTY, tname = [], stack = 0, sleep_until = 0,
     priority = 0, base_priority = 0, timeslice = 0, last_run_tick = 0, total_ticks = 0, heartbeat = 0,
     last_heartbeat = 0, watchdog_strikes = 0, pid = 0, ppid = 0, alloc_count = 0, total_allocs = 0,
     signals = \<lparr>pending = 0, blocked = 0, handlers = (\<lambda>_. 0), exit_signal = 0\<rparr>\<rparr>"

definition boot_kern :: kern where
  "boot_kern = \<lparr>tasks = replicate 32 zero_task, cur = 0, ntasks = 0, sched_ready = False, ticks = 0,
     kheap = boot_heap, klimits = open_limits, krouter = router_zero, pending_stack = 0,
     g_recent_strikes = 0, cpu_rsp = 0x7FF0, halted = False\<rparr>"

lemma boot_kern_booted: "booted boot_kern"
  using boot_heap_inv router_zero_ok(1)
  by (auto simp: booted_def boot_kern_def zero_task_def router_inv_def router_zero_def input_router_init_def
      valid_slot_def TASK_MAX_def ir_inv_def IR_QUEUE_SIZE_def)

theorem kernel_runs_safe_witness:
  "\<exists>k. kreach (\<lambda>h s k. k) (sched_init boot_kern) k \<and> sched_exit k \<noteq> None"
  using kernel_runs_safe[OF boot_kern_booted _ reach_start, of "\<lambda>h s k. k"] reach_start
  by (fastforce simp: handlers_ok_def)

section \<open>Selection\<close>

text \<open>The current task is running, has ticks left and no ready task has a higher priority.\<close>

definition holds_cpu :: "kern \<Rightarrow> bool" where
  "holds_cpu k \<longleftrightarrow> tstate (tk k (cur k)) = TASK_RUNNING \<and> 0 < timeslice (tk k (cur k))
     \<and> (\<forall>i < 32. tstate (tk k i) = TASK_READY \<longrightarrow> priority (tk k i) \<le> priority (tk k (cur k)))"

text \<open>The current task is a running real-time task and every ready task has a lower priority.\<close>

definition realtime_above :: "kern \<Rightarrow> bool" where
  "realtime_above k \<longleftrightarrow> tstate (tk k (cur k)) = TASK_RUNNING \<and> priority (tk k (cur k)) = PRIO_REALTIME
     \<and> (\<forall>i < 32. tstate (tk k i) = TASK_READY \<longrightarrow> priority (tk k i) < PRIO_REALTIME)"

text \<open>
  C19. The choice of \<^verbatim>\<open>next_ready\<close>, after ready tasks have aged and sleepers whose time has come are woken. With no ready
  task the current task stays. It also stays whenever it is running, has ticks left and no ready task has a higher
  priority. In every other case the choice is a ready task of the highest priority, the first of those in round-robin
  order after the current one. Left out is one case, where the code and the comment of \<^verbatim>\<open>PRIO_REALTIME\<close> (never preempted
  by lower priority) disagree: a running real-time task that has used up its slice while only lower tasks are ready.
\<close>

theorem next_ready_choice:
  assumes "sched_wf k" and "next_ready k = (n, k')"
  shows "n < 32 \<and> cur k' = cur k
    \<and> (\<forall>i < 32. tk k' i = wake_task (pit_ticks k) (age_task (pit_ticks k) (tk k i)))
    \<and> ((\<forall>i < 32. tstate (tk k' i) \<noteq> TASK_READY) \<longrightarrow> n = cur k)
    \<and> (holds_cpu k' \<longrightarrow> n = cur k)
    \<and> (\<not> holds_cpu k' \<and> \<not> realtime_above k' \<and> (\<exists>i < 32. tstate (tk k' i) = TASK_READY) \<longrightarrow>
        tstate (tk k' n) = TASK_READY
         \<and> (\<forall>i < 32. tstate (tk k' i) = TASK_READY \<longrightarrow> priority (tk k' i) \<le> priority (tk k' n)
              \<and> (priority (tk k' i) = priority (tk k' n) \<longrightarrow> rr_dist (cur k) n \<le> rr_dist (cur k) i)))"
proof -
  have 1: "n = fst (next_ready k)" "k' = snd (next_ready k)" using assms(2) by simp_all
  note c = next_ready_cases[OF assms(1), folded 1]
  have len: "length (tasks k) = 32" using assms(1) by (simp add: sched_wf_def)
  have cur: "cur k' = cur k" by (simp add: 1)
  show ?thesis
    using c(1,2,4) next_ready_frame(1)[OF len, folded 1(2)] cur
    by (intro conjI impI; (simp add: holds_cpu_def)?) (use c(3) in \<open>auto simp: holds_cpu_def cur\<close>)
qed

text \<open>The case that is left out: the real-time task is preempted by a lower one.\<close>

lemma realtime_preempted:
  assumes "sched_wf k" and "next_ready k = (n, k')" and "realtime_above k'" and "timeslice (tk k' (cur k)) = 0"
    and "\<exists>i < 32. tstate (tk k' i) = TASK_READY"
  shows "n \<noteq> cur k \<and> priority (tk k' n) < PRIO_REALTIME"
proof -
  have 1: "n = fst (next_ready k)" "k' = snd (next_ready k)" using assms(2) by simp_all
  note c = next_ready_cases[OF assms(1), folded 1]
  have cur: "cur k' = cur k" by (simp add: 1)
  show ?thesis using c(1,3) assms(3-5) by (auto simp: realtime_above_def cur)
qed

definition two_tasks :: kern where
  "two_tasks = (sched_init boot_kern)\<lparr>tasks := (tasks (sched_init boot_kern))[5 := zero_task\<lparr>tid := 5,
      tstate := TASK_READY, priority := PRIO_HIGH, base_priority := PRIO_LOW, timeslice := 2\<rparr>]\<rparr>"

lemma tk_two_tasks:
  "i < 32 \<Longrightarrow> tk two_tasks i = (if i = 5 then zero_task\<lparr>tid := 5, tstate := TASK_READY, priority := PRIO_HIGH,
        base_priority := PRIO_LOW, timeslice := 2\<rparr>
      else if i = 0 then zero_task\<lparr>tstate := TASK_RUNNING, tname := ''kmain''\<rparr> else zero_task)"
  by (auto simp: tk_def two_tasks_def sched_init_def boot_kern_def upd_def nth_list_update zero_task_def)

theorem next_ready_choice_witness: "\<exists>k'. next_ready two_tasks = (5, k')"
proof -
  obtain n k' where n: "next_ready two_tasks = (n, k')" by fastforce
  have c: "cur two_tasks = 0" "length (tasks two_tasks) = 32"
    by (simp_all add: two_tasks_def sched_init_def boot_kern_def upd_def)
  have wf: "sched_wf two_tasks"
    by (simp add: sched_wf_def c tk_two_tasks) (simp add: zero_task_def PRIO_HIGH_def PRIO_LOW_def PRIO_REALTIME_def)
  note ch = next_ready_choice[OF wf n]
  have tk: "tk k' i = wake_task (pit_ticks two_tasks) (age_task (pit_ticks two_tasks) (tk two_tasks i))" if "i < 32" for i
    using ch that by blast
  have rd: "tstate (tk k' i) = TASK_READY \<longleftrightarrow> i = 5" if "i < 32" for i
    using tk[OF that] tk_two_tasks[OF that] by (simp add: wake_state zero_task_def)
  have z: "timeslice (tk k' 0) = 0" using tk[of 0] tk_two_tasks[of 0] by (simp add: zero_task_def)
  have p: "priority (tk k' 0) \<noteq> PRIO_REALTIME"
    using tk[of 0] tk_two_tasks[of 0] by (simp add: zero_task_def age_task_def PRIO_REALTIME_def)
  have "cur k' = 0" using ch c by simp
  then have "\<not> holds_cpu k'" "\<not> realtime_above k'" using z p by (simp_all add: holds_cpu_def realtime_above_def)
  moreover have "\<exists>i < 32. tstate (tk k' i) = TASK_READY" using rd[of 5] by (intro exI[of _ 5]) simp
  ultimately have "n = 5" using ch rd by blast
  then show ?thesis using n by blast
qed

section \<open>No starvation\<close>

lemma rr_dist_cases: "c < 32 \<Longrightarrow> i < 32 \<Longrightarrow> rr_dist c i = (if c < i then i - c - 1 else i + 31 - c)"
  by (auto simp: rr_dist_def le_mod_geq not_less)

lemma rr_dist_closer:
  "c < 32 \<Longrightarrow> n < 32 \<Longrightarrow> t < 32 \<Longrightarrow> n \<noteq> t \<Longrightarrow> rr_dist c n \<le> rr_dist c t \<Longrightarrow> rr_dist n t < rr_dist c t"
  by (auto simp: rr_dist_cases split: if_splits)

lemma switch_to_more:
  assumes "length (tasks k) = 32" and "cur k < 32" and "n < 32" and "n \<noteq> cur k"
  shows "timeslice (tk (switch_to n k) n) = priority_timeslice (priority (tk k n))"
    "signals (tk (switch_to n k) j) = signals (tk k j)" "sched_ready (switch_to n k) = sched_ready k"
  using assms by (simp_all add: switch_to_def ctx_switch_def Let_def tk_upd)

lemma priority_timeslice_le: "priority_timeslice p \<le> 16"
  by (simp add: priority_timeslice_def)

lemma age_prio_high: "priority t \<le> PRIO_HIGH \<Longrightarrow> priority (age_task n t) \<le> PRIO_HIGH"
  by (auto simp: age_task_def PRIO_HIGH_def inc_le)

text \<open>No task is above \<^verbatim>\<open>PRIO_HIGH\<close>, no signal is pending, and slices are those the scheduler hands out.\<close>

definition fair_state :: "kern \<Rightarrow> bool" where
  "fair_state k \<longleftrightarrow> sched_wf k \<and> sched_ready k \<and> timeslice (tk k (cur k)) \<le> 16
     \<and> (\<forall>i < 32. priority (tk k i) \<le> PRIO_HIGH \<and> base_priority (tk k i) \<le> PRIO_HIGH \<and> pending (signals (tk k i)) = 0)"

definition waiting :: "nat \<Rightarrow> kern \<Rightarrow> bool" where
  "waiting t k \<longleftrightarrow> t < 32 \<and> t \<noteq> cur k \<and> tstate (tk k t) = TASK_READY \<and> priority (tk k t) = PRIO_HIGH"

fun tick_run :: "(u64 \<Rightarrow> nat \<Rightarrow> kern \<Rightarrow> kern) \<Rightarrow> nat \<Rightarrow> kern \<Rightarrow> kern option" where
  "tick_run run 0 k = Some k"
| "tick_run run (Suc n) k = (case sched_tick run k of None \<Rightarrow> None | Some k' \<Rightarrow> tick_run run n k')"

lemma tick_fair:
  assumes "fair_state k"
  defines "k3 \<equiv> if 0 < timeslice (tk k (cur k)) then upd (cur k) (timeslice_update (\<lambda>v. v - 1)) (pit_tick k) else pit_tick k"
  shows "sched_tick run k = Some (if timeslice (tk k3 (cur k)) = 0 then reschedule k3 else k3)"
    and "cur k3 = cur k"
proof -
  have [simp]: "tk (pit_tick k) i = tk k i" "cur (pit_tick k) = cur k" "sched_ready (pit_tick k) = sched_ready k" for i
    by (simp_all add: pit_tick_def)
  have c: "cur k < 32" "pending (signals (tk k (cur k))) = 0" "sched_ready k"
    using assms(1) by (auto simp: fair_state_def sched_wf_def)
  have "signal_dispatch run (int (cur k)) (pit_tick k) = Some (Returns 0, pit_tick k)"
    using c by (simp add: signal_dispatch_def)
  then show "sched_tick run k = Some (if timeslice (tk k3 (cur k)) = 0 then reschedule k3 else k3)"
    using c by (simp add: sched_tick_def k3_def Let_def)
  show "cur k3 = cur k" by (simp add: k3_def)
qed

lemma reschedule_fair:
  assumes f: "fair_state k" and w: "waiting t k" and z: "timeslice (tk k (cur k)) = 0"
  shows "(cur (reschedule k) = t \<and> tstate (tk (reschedule k) t) = TASK_RUNNING)
    \<or> (fair_state (reschedule k) \<and> waiting t (reschedule k) \<and> rr_dist (cur (reschedule k)) t < rr_dist (cur k) t)"
proof -
  have wf: "sched_wf k" using f by (simp add: fair_state_def)
  note D = sched_wfD[OF wf]
  define n k' where "n = fst (next_ready k)" and "k' = snd (next_ready k)"
  have tkk: "tk k' i = wake_task (pit_ticks k) (age_task (pit_ticks k) (tk k i))" if "i < 32" for i
    using next_ready_frame(1)[OF D(1) that] by (simp add: k'_def)
  have t: "t < 32" "t \<noteq> cur k" using w by (auto simp: waiting_def)
  have tr: "tstate (tk k' t) = TASK_READY" "priority (tk k' t) = PRIO_HIGH"
    using w tkk[OF t(1)] by (auto simp: waiting_def wake_state age_task_def PRIO_HIGH_def)
  have ph: "priority (tk k' i) \<le> PRIO_HIGH" if "i < 32" for i
    using f that tkk[OF that] age_prio_high by (simp add: fair_state_def)
  have "timeslice (tk k' (cur k)) = 0" using tkk[OF D(2)] z by simp
  then have no: "\<not> (n = cur k \<and> tstate (tk k' n) = TASK_RUNNING \<and> 0 < timeslice (tk k' n) \<and> P)" for P by auto
  have n: "n < 32" using next_ready_cases(1)[OF wf] by (simp add: n_def)
  have ex: "\<exists>i < 32. tstate (tk k' i) = TASK_READY" using tr t(1) by blast
  have all: "tstate (tk k' n) = TASK_READY \<and> (\<forall>i < 32. tstate (tk k' i) = TASK_READY \<longrightarrow> priority (tk k' i) \<le> priority (tk k' n)
      \<and> (priority (tk k' i) = priority (tk k' n) \<longrightarrow> rr_dist (cur k) n \<le> rr_dist (cur k) i))"
    using next_ready_cases(3)[OF wf, folded n_def k'_def, THEN mp, OF ex] no by blast
  have ch: "PRIO_HIGH \<le> priority (tk k' n)" "PRIO_HIGH = priority (tk k' n) \<longrightarrow> rr_dist (cur k) n \<le> rr_dist (cur k) t"
    using all t(1) tr by metis+
  have le: "rr_dist (cur k) n \<le> rr_dist (cur k) t" using ch(2) order_antisym[OF ch(1) ph[OF n]] by blast
  have "rr_dist (cur k) t < 31" using t D(2) by (auto simp: rr_dist_cases)
  then have nc: "n \<noteq> cur k" using le D(2) by (auto simp: rr_dist_cases)
  have k': "length (tasks k') = 32" "cur k' = cur k" "sched_ready k' = sched_ready k"
    using D(1) by (simp add: k'_def next_ready_frame(3), simp add: k'_def, (subst k'_def, subst next_ready_frame(2), simp))
  note S = switch_to_fields[OF k'(1) _ n, unfolded k'(2), OF D(2) nc] switch_to_more[OF k'(1) _ n, unfolded k'(2), OF D(2) nc]
  have re: "reschedule k = switch_to n k'" by (simp add: reschedule_def n_def k'_def case_prod_beta)
  show ?thesis
  proof (cases "n = t")
    case True
    then show ?thesis using S(2) S(4)[of t] re by simp
  next
    case False
    have sg: "signals (tk k' i) = signals (tk k i)" "base_priority (tk k' i) = base_priority (tk k i)" if "i < 32" for i
      using tkk[OF that] by simp_all
    have run: "tstate (tk k i) = TASK_RUNNING" if "i < 32" "tstate (tk k' i) = TASK_RUNNING" for i
      using that tkk[OF that(1)] by (simp add: wake_state split: if_splits)
    have P: "priority (tk (switch_to n k') i) \<le> PRIO_HIGH \<and> base_priority (tk (switch_to n k') i) \<le> PRIO_HIGH"
      if "i < 32" for i
      using S(5)[of i] S(6)[of i] ph[OF that] sg(2)[OF that] f that by (cases "i = cur k") (simp_all add: fair_state_def)
    have "sched_wf (switch_to n k')"
      unfolding sched_wf_def S(1,2)
    proof (intro conjI allI impI)
      fix i :: nat assume i: "i < 32"
      show "i = n" if "tstate (tk (switch_to n k') i) = TASK_RUNNING"
        using that S(4)[of i] run[OF i] D(6)[OF i] by (simp split: if_splits)
      show "priority (tk (switch_to n k') i) \<le> PRIO_REALTIME" "base_priority (tk (switch_to n k') i) \<le> PRIO_REALTIME"
        using P[OF i] order_trans[of _ PRIO_HIGH PRIO_REALTIME] by (simp_all add: PRIO_HIGH_def PRIO_REALTIME_def)
    qed (use n in simp_all)
    then have "fair_state (reschedule k)"
      using f P S(2,9) S(7) S(8) sg(1) k'(3) priority_timeslice_le unfolding re by (simp add: fair_state_def)
    moreover have "waiting t (reschedule k)"
      using S False t tr unfolding re by (simp add: waiting_def)
    moreover have "rr_dist (cur (reschedule k)) t < rr_dist (cur k) t"
      using S(2) rr_dist_closer[OF D(2) n t(1) False le] re by simp
    ultimately show ?thesis by blast
  qed
qed

lemma tick_step:
  assumes f: "fair_state k" and w: "waiting t k"
  shows "\<exists>k'. sched_tick run k = Some k' \<and>
    ((cur k' = t \<and> tstate (tk k' t) = TASK_RUNNING)
     \<or> (fair_state k' \<and> waiting t k'
        \<and> 17 * rr_dist (cur k') t + unat (timeslice (tk k' (cur k')))
            < 17 * rr_dist (cur k) t + unat (timeslice (tk k (cur k)))))"
proof -
  define s where "s = timeslice (tk k (cur k))"
  define k3 where "k3 = (if 0 < s then upd (cur k) (timeslice_update (\<lambda>v. v - 1)) (pit_tick k) else pit_tick k)"
  note T = tick_fair[OF f, folded s_def, folded k3_def]
  have wf: "sched_wf k" using f by (simp add: fair_state_def)
  note D = sched_wfD[OF wf]
  have [simp]: "tk (pit_tick k) i = tk k i" "length (tasks (pit_tick k)) = length (tasks k)" for i
    by (simp_all add: pit_tick_def)
  have tk3: "tk k3 i = (if i = cur k \<and> 0 < s then (tk k i)\<lparr>timeslice := s - 1\<rparr> else tk k i)" for i
    using D(1,2) by (auto simp: k3_def tk_upd s_def)
  have sl: "unat (timeslice (tk k3 (cur k))) = unat s - 1"
    using unat_minus_one[of s] by (auto simp: tk3 s_def[symmetric] word_gt_0)
  have s16: "s \<le> 16" using f by (simp add: fair_state_def s_def)
  have "timeslice (tk k3 (cur k)) \<le> 16" using sl s16 by (simp add: word_le_nat_alt)
  moreover have "length (tasks k3) = 32" "sched_ready k3"
    using D(1) f by (simp_all add: k3_def pit_tick_def fair_state_def)
  ultimately have f3: "fair_state k3"
    using f T(2) by (simp add: fair_state_def sched_wf_def) (simp add: tk3)
  have w3: "waiting t k3" using w T(2) by (simp add: waiting_def tk3)
  show ?thesis
  proof (cases "timeslice (tk k3 (cur k)) = 0")
    case True
    have r: "sched_tick run k = Some (reschedule k3)" using T(1) True by simp
    from reschedule_fair[OF f3 w3] True T(2) consider
      "cur (reschedule k3) = t \<and> tstate (tk (reschedule k3) t) = TASK_RUNNING"
      | "fair_state (reschedule k3)" "waiting t (reschedule k3)" "rr_dist (cur (reschedule k3)) t < rr_dist (cur k) t"
      by auto
    then show ?thesis
    proof cases
      case 2
      have "unat (timeslice (tk (reschedule k3) (cur (reschedule k3)))) \<le> 16"
        using 2(1) by (simp add: fair_state_def word_le_nat_alt)
      then show ?thesis using 2 r by simp
    qed (use r in simp)
  next
    case False
    then have "unat s - 1 < unat s" using sl by (auto simp: unat_eq_zero[symmetric] simp del: unat_eq_zero)
    then show ?thesis using T False f3 w3 sl by (simp add: s_def)
  qed
qed

lemma tick_reaches:
  "fair_state k \<Longrightarrow> waiting t k \<Longrightarrow> 17 * rr_dist (cur k) t + unat (timeslice (tk k (cur k))) \<le> b \<Longrightarrow>
     \<exists>n \<le> b + 1. \<exists>k'. tick_run run n k = Some k' \<and> cur k' = t \<and> tstate (tk k' t) = TASK_RUNNING"
proof (induction b arbitrary: k)
  case (0 k)
  then obtain k' where "sched_tick run k = Some k'" "cur k' = t" "tstate (tk k' t) = TASK_RUNNING"
    using tick_step[of k t run] by auto
  then show ?case by (intro exI[of _ 1]) auto
next
  case (Suc b k)
  then obtain k' where k': "sched_tick run k = Some k'"
    and c: "(cur k' = t \<and> tstate (tk k' t) = TASK_RUNNING) \<or> (fair_state k' \<and> waiting t k'
        \<and> 17 * rr_dist (cur k') t + unat (timeslice (tk k' (cur k'))) < 17 * rr_dist (cur k) t + unat (timeslice (tk k (cur k))))"
    using tick_step[of k t run] by blast
  from c show ?case
  proof
    assume "cur k' = t \<and> tstate (tk k' t) = TASK_RUNNING"
    then show ?thesis using k' by (intro exI[of _ 1]) auto
  next
    assume "fair_state k' \<and> waiting t k' \<and> 17 * rr_dist (cur k') t + unat (timeslice (tk k' (cur k')))
      < 17 * rr_dist (cur k) t + unat (timeslice (tk k (cur k)))"
    then obtain n k2 where "n \<le> b + 1" "tick_run run n k' = Some k2" "cur k2 = t" "tstate (tk k2 t) = TASK_RUNNING"
      using Suc.IH[of k'] Suc.prems(3) by fastforce
    then show ?thesis using k' by (intro exI[of _ "Suc n"]) auto
  qed
qed

text \<open>
  C20. No starvation: when no task has real-time priority and no signal is pending, a ready task
  that aging has raised to \<^verbatim>\<open>PRIO_HIGH\<close> is running after at most 544 timer ticks, whatever the
  other tasks' states and priorities are.
\<close>

theorem no_starvation:
  assumes "fair_state k" and "waiting t k"
  shows "\<exists>n \<le> 544. \<exists>k'. tick_run run n k = Some k' \<and> cur k' = t \<and> tstate (tk k' t) = TASK_RUNNING"
proof -
  have "rr_dist (cur k) t \<le> 31" by (simp add: rr_dist_def)
  moreover have "unat (timeslice (tk k (cur k))) \<le> 16"
    using assms(1) by (simp add: fair_state_def word_le_nat_alt)
  ultimately have "17 * rr_dist (cur k) t + unat (timeslice (tk k (cur k))) \<le> 543" by simp
  from tick_reaches[OF assms this, of run] show ?thesis by simp
qed

lemma two_tasks_fair: "fair_state two_tasks" "waiting 5 two_tasks"
proof -
  have "cur two_tasks = 0" "length (tasks two_tasks) = 32" "sched_ready two_tasks"
    by (simp_all add: two_tasks_def sched_init_def boot_kern_def upd_def)
  then show "fair_state two_tasks" "waiting 5 two_tasks"
    by (simp_all add: fair_state_def waiting_def sched_wf_def tk_two_tasks)
       (auto simp: zero_task_def PRIO_HIGH_def PRIO_LOW_def PRIO_REALTIME_def)
qed

theorem no_starvation_witness:
  "\<exists>n \<le> 544. \<exists>k'. tick_run (\<lambda>h s k. k) n two_tasks = Some k' \<and> cur k' = 5"
  using no_starvation[OF two_tasks_fair, of "\<lambda>h s k. k"] by blast

section \<open>A new task\<close>

lemma load64_push_frame:
  "8 * length vs \<le> sp \<Longrightarrow> sp \<le> a \<Longrightarrow> load64 (fst (push_frame vs sp m)) a = load64 m a"
proof (induction vs arbitrary: sp m)
  case (Cons v vs)
  then have "load64 (fst (push_frame vs (sp - 8) (store64 m (sp - 8) v))) a = load64 (store64 m (sp - 8) v) a"
    by (intro Cons.IH) auto
  also have "\<dots> = load64 m a" using Cons.prems by (intro load64_store64_other) auto
  finally show ?case by simp
qed simp

lemma push_frame_words:
  "8 * length vs \<le> sp \<Longrightarrow> j < length vs \<Longrightarrow> load64 (fst (push_frame vs sp m)) (sp - 8 * Suc j) = vs ! j"
proof (induction vs arbitrary: sp m j)
  case (Cons v vs)
  show ?case
  proof (cases j)
    case 0
    then show ?thesis using load64_push_frame[of vs "sp - 8" "sp - 8" "store64 m (sp - 8) v"] Cons.prems by simp
  next
    case (Suc i)
    then show ?thesis using Cons.IH[of "sp - 8" i "store64 m (sp - 8) v"] Cons.prems by simp
  qed
qed simp

lemma push_frame_sp: "8 * length vs \<le> sp \<Longrightarrow> snd (push_frame vs sp m) = sp - 8 * length vs"
  by (induction vs arbitrary: sp m) auto

lemma heap_inv_addr:
  assumes "heap_inv st ow" and "ow p = Some n"
  shows "p + n < 2 ^ 63"
proof -
  obtain bs fl where ok: "heap_ok st bs fl" and ow: "owns (live bs) ow" using assms(1) unfolding heap_inv_def by blast
  obtain b sz where b: "(b, sz) \<in> live bs" "p = b + 32" "n + 36 \<le> sz" using ownsD[OF ow assms(2)] by blast
  have "tiles (heap_start st) bs (heap_end st)" "heap_end st < 2 ^ 63"
    using ok unfolding heap_ok_def heap_rep_def core_def heap_bounds_def by blast+
  moreover have "b + sz \<le> heap_end st" using tiles_member[OF calculation(1)] b(1) by (simp add: live_member)
  ultimately show ?thesis using b by simp
qed

text \<open>
  C21. A spawned task: \<^verbatim>\<open>sched_spawn\<close> returns -1 with no task changed exactly when no slot is vacant or the stack cannot
  be allocated. Otherwise it takes the lowest vacant slot, makes it ready at normal priority and leaves every other task
  alone. Its saved stack pointer is 56 bytes below the top of its new stack; the six words there, which the first switch
  to it pops into its registers, are zero, and the seventh, on which the switch leaves the stack pointer, is the address
  of its function.
\<close>

theorem spawned_task_starts:
  assumes "kern_inv k" and "sched_spawn fn name k = Some (r, k')"
  shows "(r = -1 \<and> tasks k' = tasks k \<and> ((\<forall>i < 32. \<not> vacant (tk k i)) \<or> (\<exists>h. kmalloc (klimits k) 65536 (kheap k) = Some (0, h)))) \<or>
    (\<exists>i < 32. r = int i \<and> vacant (tk k i) \<and> (\<forall>j < i. \<not> vacant (tk k j))
      \<and> (\<exists>h. kmalloc (klimits k) 65536 (kheap k) = Some (stack (tk k' i), h)) \<and> stack (tk k' i) \<noteq> 0
      \<and> tstate (tk k' i) = TASK_READY \<and> priority (tk k' i) = PRIO_NORMAL \<and> base_priority (tk k' i) = PRIO_NORMAL
      \<and> timeslice (tk k' i) = 4 \<and> tid (tk k' i) = of_nat i
      \<and> (\<forall>j < 32. j \<noteq> i \<longrightarrow> tk k' j = tk k j)
      \<and> unat (rsp (tk k' i)) = stack (tk k' i) + 65480
      \<and> (\<forall>j < 6. load64 (hmem (kheap k')) (unat (rsp (tk k' i)) + 8 * j) = 0)
      \<and> (i \<noteq> cur k \<longrightarrow> load64 (hmem (kheap k')) (unat (cpu_rsp (switch_to i k'))) = fn
          \<and> unat (cpu_rsp (switch_to i k')) = stack (tk k' i) + 65536 - 8))"
proof (cases "List.find (\<lambda>i. vacant (tk k i)) [0..<TASK_MAX]")
  case None
  then have "\<forall>i < 32. \<not> vacant (tk k i)" by (auto simp: find_None_iff TASK_MAX_def)
  then show ?thesis using assms(2) None by (auto simp: sched_spawn_def)
next
  case (Some i)
  then have i: "i < 32" "vacant (tk k i)" "\<forall>j < i. \<not> vacant (tk k j)" by (auto simp: find_upt_lowest TASK_MAX_def)
  have wf: "sched_wf k" using assms(1) by (rule kern_inv_wf)
  note D = sched_wfD[OF wf]
  obtain ow where so: "stacks_owned k ow" using assms(1) by (auto simp: kern_inv_def)
  then have hi: "heap_inv (kheap k) ow" by (simp add: stacks_owned_def)
  have "ok_request TASK_STACK_SZ" by (simp add: ok_request_def TASK_STACK_SZ_def)
  from heap_inv_alloc[OF hi this, of "klimits k"] obtain p h where
    al: "kmalloc (klimits k) (of_nat TASK_STACK_SZ) (kheap k) = Some (p, h)"
    and p1: "p \<noteq> 0 \<longrightarrow> heap_inv h (ow(p \<mapsto> TASK_STACK_SZ))" by blast
  show ?thesis
  proof (cases "p = 0")
    case True
    then show ?thesis using assms(2) Some al by (auto simp: sched_spawn_def TASK_STACK_SZ_def)
  next
    case False
    let ?vs = "[fn, 0, 0, 0, 0, 0, 0] :: u64 list"
    define m where "m = fst (push_frame ?vs (p + 65536) (hmem h))"
    have pf: "push_frame ?vs (p + TASK_STACK_SZ) (hmem h) = (m, p + 65536 - 56)"
      using push_frame_sp[of ?vs "p + 65536" "hmem h"] unfolding m_def TASK_STACK_SZ_def
      by (simp add: prod_eq_iff del: push_frame.simps)
    have k': "r = int i" "k' = (upd i (spawn_task i (p + 65480) p name (pit_ticks k)) (k\<lparr>kheap := h\<lparr>hmem := m\<rparr>\<rparr>))\<lparr>ntasks := ntasks k + 1\<rparr>"
      using assms(2) Some al False pf by (auto simp: sched_spawn_def Let_def add.commute simp del: push_frame.simps)
    have bnd: "p + TASK_STACK_SZ < 2 ^ 63" by (rule heap_inv_addr[of h "ow(p \<mapsto> TASK_STACK_SZ)"]) (use p1 False in simp_all)
    then have u: "unat (of_nat (p + 65480) + 48 :: u64) = p + 65528"
      using unat_of_nat64[of "p + 65528"] by (simp add: TASK_STACK_SZ_def add.commute)
    have words: "load64 m (p + 65536 - 8 * Suc j) = ?vs ! j" if "j < 7" for j
      unfolding m_def by (rule push_frame_words) (use that in simp_all)
    have fnv: "load64 m (p + 65528) = fn" using words[of 0] by (simp add: add.commute)
    have zero: "load64 m (p + 65480 + 8 * j) = 0" if "j < 6" for j
    proof -
      have "p + 65480 + 8 * j = p + 65536 - 8 * Suc (6 - j)" using that by simp
      then show ?thesis using words[of "6 - j"] that by (auto simp: nth_Cons' simp del: mult_Suc_right)
    qed
    have spn: "unat (of_nat (p + 65480) :: u64) = p + 65480" using bnd unat_of_nat64[of "p + 65480"] by (simp add: TASK_STACK_SZ_def)
    have tk': "tk k' j = (if j = i then spawn_task i (p + 65480) p name (pit_ticks k) (tk k i) else tk k j)" for j
      using i(1) D(1) by (simp add: k'(2) tk_upd)
    have st: "i \<noteq> cur k \<longrightarrow> load64 (hmem (kheap k')) (unat (cpu_rsp (switch_to i k'))) = fn
          \<and> unat (cpu_rsp (switch_to i k')) = stack (tk k' i) + 65536 - 8"
    proof
      assume that: "i \<noteq> cur k"
      have "cpu_rsp (switch_to i k') = of_nat (p + 65480) + 48"
        using that i(1) D(1,2) by (simp add: switch_to_def ctx_switch_def Let_def tk_upd k'(2) spawn_task_def)
      then show "load64 (hmem (kheap k')) (unat (cpu_rsp (switch_to i k'))) = fn
          \<and> unat (cpu_rsp (switch_to i k')) = stack (tk k' i) + 65536 - 8"
        using u fnv tk' by (simp add: k'(2) spawn_task_def)
    qed
    have fr: "unat (rsp (tk k' i)) = stack (tk k' i) + 65480" "\<forall>j < 6. load64 (hmem (kheap k')) (unat (rsp (tk k' i)) + 8 * j) = 0"
      using tk' spn zero by (simp_all add: spawn_task_def k'(2))
    have suc: "\<exists>h. kmalloc (klimits k) 65536 (kheap k) = Some (stack (tk k' i), h)" "stack (tk k' i) \<noteq> 0"
      using al False tk' by (simp_all add: spawn_task_def TASK_STACK_SZ_def)
    have s: "tstate (tk k' i) = TASK_READY" "priority (tk k' i) = PRIO_NORMAL" "base_priority (tk k' i) = PRIO_NORMAL"
      "timeslice (tk k' i) = 4" "tid (tk k' i) = of_nat i" "\<forall>j < 32. j \<noteq> i \<longrightarrow> tk k' j = tk k j"
      using tk' by (simp_all add: spawn_task_def)
    show ?thesis using i k'(1) suc s fr st by blast
  qed
qed

theorem spawned_task_starts_witness:
  "\<exists>k'. sched_spawn 0x1000 None (sched_init boot_kern) = Some (1, k')
     \<and> load64 (hmem (kheap k')) (unat (cpu_rsp (switch_to 1 k'))) = 0x1000"
proof -
  let ?k = "sched_init boot_kern"
  have inv: "kern_inv ?k" by (rule kern_inv_init[OF boot_kern_booted])
  then obtain r k' where s: "sched_spawn 0x1000 None ?k = Some (r, k')" using kern_inv_spawn by blast
  have v: "vacant (tk ?k i) \<longleftrightarrow> i \<noteq> 0" if "i < 32" for i
    using that by (auto simp: vacant_def sched_init_def boot_kern_def tk_def upd_def zero_task_def nth_list_update)
  have h: "kheap ?k = boot_heap" "klimits ?k = open_limits" "cur ?k = 0" by (simp_all add: sched_init_def boot_kern_def)
  have "\<exists>y h'. kmalloc open_limits (of_nat 65536) boot_heap = Some (y + 32, h')"
    using kmalloc_succeeds[OF boot_heap_ok, of "0x200000" 33554432 65536] by (auto simp: blk_need_def)
  then have al: "\<not> (\<exists>h. kmalloc (klimits ?k) 65536 (kheap ?k) = Some (0, h))" by (auto simp: h)
  then obtain i where i: "i < 32" "r = int i" "vacant (tk ?k i)" "\<forall>j < i. \<not> vacant (tk ?k j)"
    "i \<noteq> cur ?k \<longrightarrow> load64 (hmem (kheap k')) (unat (cpu_rsp (switch_to i k'))) = 0x1000"
    using spawned_task_starts[OF inv s] v[of 1] by auto
  have "i \<noteq> 0" using v[OF i(1)] i(3) by simp
  moreover have "\<not> 1 < i" using i(4) v[of 1] by auto
  ultimately have "i = 1" by linarith
  then show ?thesis using s i h(3) by auto
qed

section \<open>The watchdog\<close>

text \<open>What one round does to the task in slot \<open>i\<close>.\<close>

definition watchdog_effect :: "nat \<Rightarrow> task \<Rightarrow> task" where
  "watchdog_effect i t =
     (if vacant t then t
      else if tstate t = TASK_SLEEPING then t\<lparr>watchdog_strikes := 0\<rparr>
      else if priority t = PRIO_REALTIME \<or> priority t = PRIO_IDLE then t
      else if heartbeat t \<noteq> last_heartbeat t
      then t\<lparr>watchdog_strikes := 0, last_heartbeat := heartbeat t\<rparr>
      else if i \<noteq> 0 \<and> 3 \<le> watchdog_strikes t + 1
      then t\<lparr>watchdog_strikes := watchdog_strikes t + 1, stack := 0, tstate := TASK_DEAD\<rparr>
      else t\<lparr>watchdog_strikes := watchdog_strikes t + 1\<rparr>)"

definition watched :: "task \<Rightarrow> bool" where
  "watched t \<longleftrightarrow> \<not> vacant t \<and> tstate t \<noteq> TASK_SLEEPING \<and> priority t \<noteq> PRIO_REALTIME \<and> priority t \<noteq> PRIO_IDLE"

lemma kill_other:
  assumes inv: "kern_inv k" and i: "i < 32" "i \<noteq> 0" "i \<noteq> cur k" and live: "\<not> vacant (tk k i)"
  obtains k' where "sched_kill (int i) k = Some (Returns 0, k')" "cur k' = cur k"
    "\<forall>j < 32. tk k' j = (if j = i then (tk k i)\<lparr>stack := 0, tstate := TASK_DEAD\<rparr> else tk k j)"
proof -
  note D = sched_wfD[OF kern_inv_wf[OF inv]]
  obtain r k' where k': "sched_kill (int i) k = Some (r, k')" using kern_inv_kill[OF inv] by blast
  define X where "X = (if i \<noteq> cur k \<and> stack (tk k i) \<noteq> 0
      then map_option (upd i (stack_update (\<lambda>_. 0))) (free_stack (stack (tk k i)) k) else Some k)"
  have kill: "sched_kill (int i) k = (case X of None \<Rightarrow> None | Some k1 \<Rightarrow>
      let k2 = k1\<lparr>krouter := input_router_task_exit (int i) (krouter k1)\<rparr>;
          k3 = (upd i (tstate_update (\<lambda>_. TASK_DEAD)) k2)\<lparr>ntasks := ntasks k2 - 1\<rparr>
      in if i = cur k3 then map_option (\<lambda>k4. (NoReturn, k4)) (sched_exit k3) else Some (Returns 0, k3))"
    using i live by (simp add: sched_kill_def X_def TASK_MAX_def)
  obtain k1 where k1: "X = Some k1" using k' kill by (cases X) auto
  have c1: "cur k1 = cur k" "length (tasks k1) = 32"
    and t1: "tk k1 j = (if j = i then (tk k i)\<lparr>stack := 0\<rparr> else tk k j)" for j
    using k1 D(1) i by (auto simp: X_def free_stack_def tk_upd split: if_splits)
  show thesis
    by (rule that[of "(upd i (tstate_update (\<lambda>_. TASK_DEAD)) (k1\<lparr>krouter := input_router_task_exit (int i) (krouter k1)\<rparr>))
        \<lparr>ntasks := ntasks k1 - 1\<rparr>"]) (use kill k1 c1 t1 i in \<open>auto simp: Let_def tk_upd\<close>)
qed

lemma same_heartbeat: "heartbeat t = last_heartbeat t \<Longrightarrow> t\<lparr>last_heartbeat := last_heartbeat t\<rparr> = t"
  by (cases t) simp

lemma watchdog_task_effect:
  assumes inv: "kern_inv k" and i: "i < 32"
    and c: "i = cur k \<longrightarrow> watched (tk k i) \<longrightarrow> heartbeat (tk k i) \<noteq> last_heartbeat (tk k i)"
  shows "\<exists>s k'. watchdog_task i k = Some (Returns s, k') \<and> cur k' = cur k
    \<and> (\<forall>j < 32. tk k' j = (if j = i then watchdog_effect i (tk k i) else tk k j))"
proof -
  note D = sched_wfD[OF kern_inv_wf[OF inv]]
  let ?t = "tk k i"
  let ?k1 = "upd i (watchdog_strikes_update (\<lambda>s. s + 1)) k"
  let ?keep = "upd i (\<lambda>t. t\<lparr>last_heartbeat := heartbeat t\<rparr>)"
  have t1: "tk ?k1 j = (if j = i then ?t\<lparr>watchdog_strikes := watchdog_strikes ?t + 1\<rparr> else tk k j)" for j
    using D(1) i by (simp add: tk_upd)
  consider "\<not> watched ?t" | "watched ?t" "heartbeat ?t \<noteq> last_heartbeat ?t"
    | "watched ?t" "heartbeat ?t = last_heartbeat ?t" "watchdog_strikes ?t + 1 < 3 \<or> i = 0"
    | "watched ?t" "heartbeat ?t = last_heartbeat ?t" "3 \<le> watchdog_strikes ?t + 1" "i \<noteq> 0" by linarith
  then show ?thesis
  proof cases
    case 1
    then show ?thesis using D(1) i by (auto simp: watchdog_task_def watchdog_effect_def watched_def tk_upd)
  next
    case 2
    then show ?thesis using D(1) i by (auto simp: watchdog_task_def watchdog_effect_def watched_def tk_upd)
  next
    case 3
    have "watchdog_task i k = Some (Returns 1, ?keep ?k1)"
      using 3 D(1) i by (auto simp: watchdog_task_def watched_def Let_def t1 sched_kill_def WATCHDOG_STRIKE_MAX_def)
    moreover have "tk (?keep ?k1) j = (if j = i then watchdog_effect i ?t else tk k j)" for j
      using 3 D(1) i by (auto simp: watchdog_effect_def watched_def tk_upd same_heartbeat)
    ultimately show ?thesis by auto
  next
    case 4
    have nc: "i \<noteq> cur k" using 4 c by blast
    have inv1: "kern_inv ?k1" using inv i by (intro kern_inv_plain) auto
    have live: "\<not> vacant (tk ?k1 i)" using 4(1) by (simp add: t1 watched_def vacant_def)
    obtain k' where k': "sched_kill (int i) ?k1 = Some (Returns 0, k')" "cur k' = cur ?k1"
      "\<forall>j < 32. tk k' j = (if j = i then (tk ?k1 i)\<lparr>stack := 0, tstate := TASK_DEAD\<rparr> else tk ?k1 j)"
      using kill_other[OF inv1 i 4(4) _ live] nc by auto
    have "kern_inv k'" using kern_inv_kill[OF inv1, of "int i"] k'(1) by auto
    then have len: "length (tasks k') = 32" using sched_wfD(1) kern_inv_wf by blast
    have "watchdog_task i k = Some (Returns 1, ?keep k')"
      using 4 k'(1) by (auto simp: watchdog_task_def watched_def Let_def t1 WATCHDOG_STRIKE_MAX_def)
    moreover have "\<forall>j < 32. tk (?keep k') j = (if j = i then watchdog_effect i ?t else tk k j)"
      using 4 i len k'(3) by (auto simp: watchdog_effect_def watched_def tk_upd t1 same_heartbeat)
    ultimately show ?thesis using k'(2) by auto
  qed
qed

lemma watchdog_loop_effect:
  assumes "kern_inv k" and "distinct is" and "\<forall>i \<in> set is. i < 32"
    and "watched (tk k (cur k)) \<longrightarrow> cur k \<in> set is \<longrightarrow> heartbeat (tk k (cur k)) \<noteq> last_heartbeat (tk k (cur k))"
  shows "\<exists>s k'. watchdog_loop is n k = Some (Returns s, k') \<and> cur k' = cur k
    \<and> (\<forall>j < 32. tk k' j = (if j \<in> set is then watchdog_effect j (tk k j) else tk k j))"
  using assms
proof (induction "is" arbitrary: n k)
  case (Cons i "is")
  have c: "cur k < 32" using sched_wfD(2)[OF kern_inv_wf[OF Cons.prems(1)]] .
  obtain s k1 where k1: "watchdog_task i k = Some (Returns s, k1)" "cur k1 = cur k"
    "\<forall>j < 32. tk k1 j = (if j = i then watchdog_effect i (tk k i) else tk k j)"
    using watchdog_task_effect[OF Cons.prems(1), of i] Cons.prems(3,4) by auto
  have inv1: "kern_inv k1" using kern_inv_watchdog_task[OF Cons.prems(1), of i] k1(1) Cons.prems(3) by auto
  have "watched (tk k1 (cur k1)) \<longrightarrow> cur k1 \<in> set is \<longrightarrow> heartbeat (tk k1 (cur k1)) \<noteq> last_heartbeat (tk k1 (cur k1))"
    using Cons.prems(2,4) k1(2,3) c by auto
  then obtain s' k' where "watchdog_loop is (n + s) k1 = Some (Returns s', k')" "cur k' = cur k1"
    "\<forall>j < 32. tk k' j = (if j \<in> set is then watchdog_effect j (tk k1 j) else tk k1 j)"
    using Cons.IH[OF inv1, of "n + s"] Cons.prems(2,3) by auto
  then show ?case using k1 Cons.prems(2) by auto
qed simp

text \<open>
  C22. One watchdog round, called by a task that is itself alive, returns and acts on every task
  by the rule the header states: a task that missed its heartbeat gets a strike and is killed with
  its third, one whose heartbeat moved or that sleeps is cleared, and vacant, real-time and idle
  slots are untouched. Slot 0 is never killed.
\<close>

theorem watchdog_round:
  assumes "kern_inv k"
    and "watched (tk k (cur k)) \<longrightarrow> heartbeat (tk k (cur k)) \<noteq> last_heartbeat (tk k (cur k))"
  shows "\<exists>k'. sched_watchdog_check k = Some (Returns (), k') \<and> cur k' = cur k
    \<and> (\<forall>j < 32. tk k' j = watchdog_effect j (tk k j))"
proof -
  obtain s k1 where "watchdog_loop [0..<TASK_MAX] 0 k = Some (Returns s, k1)" "cur k1 = cur k"
    "\<forall>j < 32. tk k1 j = watchdog_effect j (tk k j)"
    using watchdog_loop_effect[of k "[0..<TASK_MAX]" 0] assms by (auto simp: TASK_MAX_def)
  then show ?thesis by (auto simp: sched_watchdog_check_def)
qed

theorem watchdog_round_witness:
  "\<exists>k'. sched_watchdog_check (sched_init boot_kern) = Some (Returns (), k')"
proof -
  have "\<not> watched (tk (sched_init boot_kern) (cur (sched_init boot_kern)))"
    by (simp add: sched_init_def boot_kern_def tk_def upd_def zero_task_def watched_def PRIO_IDLE_def)
  then show ?thesis using watchdog_round[OF kern_inv_init[OF boot_kern_booted]] by blast
qed

section \<open>The range of the tick counter\<close>

text \<open>The tick counter has 32 bits: a sleep that ends past its range never ends.\<close>

lemma sleep_past_wrap:
  assumes "2 ^ 32 \<le> unat (sleep_until t)" and "tstate t = TASK_SLEEPING"
  shows "wake_task (pit_ticks k) t = t"
proof -
  have "unat (pit_ticks k) < 2 ^ 32" unfolding pit_ticks_def by (simp add: unsigned_ucast_eq take_bit_eq_mod)
  then show ?thesis using assms by (simp add: wake_task_def word_le_nat_alt)
qed

end
