(* ===== verification/Sched_Signals.thy ===== *)
theory Sched_Signals
  imports Sched_Props
begin

text \<open>
  Signals and the scheduler: in every state that a booted kernel reaches the two signals that cannot be caught are neither
  blocked nor handled, and \<^verbatim>\<open>SIGKILL\<close> ends the running task.
\<close>

section \<open>The exit of a task\<close>

lemma exit_slot:
  assumes wf: "sched_wf k" and e: "sched_exit k = Some k'"
  shows "tstate (tk k' (cur k)) = TASK_EMPTY" and "stack (tk k' (cur k)) = 0" and "halted k' \<or> cur k' \<noteq> cur k"
proof -
  note D = sched_wfD[OF wf]
  define k3 where "k3 = (upd (cur k) (tstate_update (\<lambda>_. TASK_EMPTY)) ((upd (cur k) (stack_update (\<lambda>_. 0)) k)
      \<lparr>krouter := input_router_task_exit (int (cur k)) (krouter k)\<rparr>))\<lparr>ntasks := ntasks k - 1\<rparr>"
  define n k4 where "n = fst (next_ready k3)" and "k4 = snd (next_ready k3)"
  have len: "length (tasks k3) = 32" using D(1) by (simp add: k3_def)
  have t4: "tstate (tk k4 (cur k)) = TASK_EMPTY" "stack (tk k4 (cur k)) = 0" "length (tasks k4) = 32"
    using next_ready_frame(1)[OF len D(2)] next_ready_frame(3)[of k3] len D(1,2)
    by (simp_all add: k4_def wake_state) (simp_all add: k3_def tk_upd)
  have unf: "sched_exit k = (if n = cur k then map_option (\<lambda>k5. k5\<lparr>halted := True\<rparr>) (free_stack (stack (tk k (cur k))) k4)
      else map_option (\<lambda>k5. let k6 = upd n (tstate_update (\<lambda>_. TASK_RUNNING)) (k5\<lparr>pending_stack := stack (tk k (cur k))\<rparr>)
          in k6\<lparr>cur := n, cpu_rsp := rsp (tk k6 n) + 56\<rparr>) (free_stack (pending_stack k4) k4))"
    unfolding sched_exit_def Let_def case_prod_beta n_def k4_def k3_def by simp
  have fs: "tk k5 i = tk k4 i \<and> length (tasks k5) = 32" if "free_stack p k4 = Some k5" for p k5 i
    using that t4(3) by (auto simp: free_stack_def split: if_splits)
  have n: "n \<noteq> cur k \<Longrightarrow> n < 32"
    using e next_ready_cases(1)[of k3] wf by (simp add: n_def k3_def sched_wf_def tk_upd)
  show "tstate (tk k' (cur k)) = TASK_EMPTY" "stack (tk k' (cur k)) = 0" "halted k' \<or> cur k' \<noteq> cur k"
    using e unf fs t4 n by (auto simp: Let_def tk_upd split: if_splits)
qed

lemma tid_upd: "(\<And>t. tid (f t) = tid t) \<Longrightarrow> tid (tk (upd i f k) j) = tid (tk k j)"
  by (cases "i < length (tasks k)") (simp add: tk_upd, simp add: tk_def upd_def list_update_beyond not_less)

lemma SIGKILL_less: "SIGKILL < 32"
  by (simp add: SIGKILL_def)

lemma post_sigkill_bit: "bit (pending (signal_post SIGKILL ss)) j \<longleftrightarrow> bit (pending ss) j \<or> j = SIGKILL"
  "blocked (signal_post SIGKILL ss) = blocked ss" "handlers (signal_post SIGKILL ss) = handlers ss"
  using sig_uncatchable[of SIGKILL]
  by (auto simp: signal_post_def bit_or_iff bit_sig_bit SIGKILL_def)

section \<open>What the interface keeps of the signal states\<close>

text \<open>
  What the interface keeps of the signal states and task numbers: \<^verbatim>\<open>SIGKILL\<close> and \<^verbatim>\<open>SIGSTOP\<close> stay unblocked and without
  a handler, and a task carries the number of its slot unless it is dormant, a vacant slot other than the current one.
  All operations but \<^verbatim>\<open>sched_spawn\<close> leave the numbers alone and never wake a dormant slot.
\<close>

definition dormant :: "kern \<Rightarrow> nat \<Rightarrow> bool" where
  "dormant k i \<longleftrightarrow> vacant (tk k i) \<and> i \<noteq> cur k"

definition sig_wf :: "kern \<Rightarrow> bool" where
  "sig_wf k \<longleftrightarrow> sched_ready k \<and> (\<forall>i < 32. signal_inv (signals (tk k i)) \<and> (dormant k i \<or> tid (tk k i) = of_nat i))"

definition calm :: "kern \<Rightarrow> kern \<Rightarrow> bool" where
  "calm k k' \<longleftrightarrow> sched_ready k' = sched_ready k \<and> (\<forall>i < 32. (signal_inv (signals (tk k i)) \<longrightarrow> signal_inv (signals (tk k' i)))
     \<and> tid (tk k' i) = tid (tk k i) \<and> (dormant k i \<longrightarrow> dormant k' i))"

lemma calm_sig_wf: "calm k k' \<Longrightarrow> sig_wf k \<Longrightarrow> sig_wf k'"
  by (auto simp: calm_def sig_wf_def)

lemma calm_refl [simp]: "calm k k"
  by (simp add: calm_def)

lemma calm_trans: "calm k1 k2 \<Longrightarrow> calm k2 k3 \<Longrightarrow> calm k1 k3"
  by (simp add: calm_def)

lemma calm_frame [simp]:
  "calm k (k'\<lparr>ntasks := n\<rparr>) = calm k k'" "calm k (k'\<lparr>kheap := h\<rparr>) = calm k k'"
  "calm k (k'\<lparr>krouter := r\<rparr>) = calm k k'" "calm k (k'\<lparr>pending_stack := p\<rparr>) = calm k k'" "calm k (k'\<lparr>cpu_rsp := v\<rparr>) = calm k k'"
  "calm k (k'\<lparr>halted := b\<rparr>) = calm k k'" "calm k (k'\<lparr>ticks := t\<rparr>) = calm k k'" "calm k (k'\<lparr>g_recent_strikes := g\<rparr>) = calm k k'"
  by (simp_all add: calm_def dormant_def)

lemma calm_upd:
  assumes "length (tasks k) = 32" "i < 32"
    and "signal_inv (signals (tk k i)) \<longrightarrow> signal_inv (signals (f (tk k i)))" "tid (f (tk k i)) = tid (tk k i)"
    and "i \<noteq> cur k \<and> vacant (tk k i) \<longrightarrow> vacant (f (tk k i))"
  shows "calm k (upd i f k)"
  using assms by (simp add: calm_def tk_upd dormant_def)

lemma calm_plain:
  assumes "length (tasks k) = 32" "i < 32" "\<And>t. signals (f t) = signals t \<and> tid (f t) = tid t \<and> tstate (f t) = tstate t"
  shows "calm k (upd i f k)"
  using assms by (intro calm_upd) (simp_all add: vacant_def)

lemma calm_signals:
  assumes "length (tasks k) = 32" "i < 32" "\<And>ss. signal_inv ss \<Longrightarrow> signal_inv (f ss)"
  shows "calm k (upd i (signals_update f) k)"
  using assms by (intro calm_upd) (simp_all add: vacant_def)

lemma calm_next_ready: "length (tasks k) = 32 \<Longrightarrow> calm k (snd (next_ready k))"
  using next_ready_frame(1)[of k] by (subst next_ready_frame(2)) (auto simp: calm_def dormant_def vacant_def wake_state tk_def)

lemma next_ready_live:
  assumes "sched_wf k" "fst (next_ready k) \<noteq> cur k"
  shows "fst (next_ready k) < 32 \<and> \<not> vacant (tk (snd (next_ready k)) (fst (next_ready k)))"
  using next_ready_cases[OF assms(1)] assms(2) by (auto simp: vacant_def)

lemma calm_switch_to:
  assumes "length (tasks k) = 32" "cur k < 32" "n \<noteq> cur k \<longrightarrow> n < 32 \<and> \<not> vacant (tk k n)"
  shows "calm k (switch_to n k)"
  using assms by (auto simp: calm_def dormant_def switch_to_def ctx_switch_def Let_def tk_upd vacant_def)

lemma calm_reschedule:
  assumes "sched_wf k"
  shows "calm k (reschedule k)"
proof -
  note D = sched_wfD[OF assms]
  have "calm (snd (next_ready k)) (switch_to (fst (next_ready k)) (snd (next_ready k)))"
    using D(1,2) next_ready_live[OF assms] by (intro calm_switch_to) (simp_all add: next_ready_frame(3))
  then show ?thesis using calm_trans[OF calm_next_ready[OF D(1)]] by (simp add: reschedule_def case_prod_beta)
qed

lemma calm_yield:
  assumes "kern_inv k"
  shows "calm k (sched_yield k)"
proof -
  note D = sched_wfD[OF kern_inv_wf[OF assms]]
  let ?k = "upd (cur k) (heartbeat_update (\<lambda>h. h + 1)) k"
  have "calm k ?k" using D(1,2) by (intro calm_plain) simp_all
  moreover have "kern_inv ?k" using assms D(2) by (intro kern_inv_plain) auto
  ultimately show ?thesis using calm_trans[OF _ calm_reschedule[OF kern_inv_wf]] by (simp add: sched_yield_def)
qed

lemma calm_sleep:
  assumes inv: "kern_inv k"
  shows "calm k (sched_sleep ms k)"
proof -
  note D = sched_wfD[OF kern_inv_wf[OF inv]]
  let ?k1 = "upd (cur k) (heartbeat_update (\<lambda>h. h + 1)) k" and ?f = "\<lambda>w t. t\<lparr>sleep_until := w, tstate := TASK_SLEEPING\<rparr>"
  have k1: "kern_inv ?k1" using inv D(2) by (intro kern_inv_plain) auto
  then have k2: "kern_inv (upd (cur k) (?f w) ?k1)" for w
    using D(2) sched_wfD(4,5)[OF kern_inv_wf[OF k1]] by (intro kern_inv_upd[OF k1]) auto
  have "calm k ?k1" using D(1,2) by (intro calm_plain) simp_all
  moreover have "calm ?k1 (upd (cur k) (?f w) ?k1)" for w using D(1,2) by (intro calm_upd) simp_all
  ultimately have "calm k (upd (cur k) (?f w) ?k1)" for w by (rule calm_trans)
  then show ?thesis using calm_trans[OF _ calm_yield[OF k2]] by (simp add: sched_sleep_def Let_def)
qed

lemma calm_free_stack: "free_stack p k = Some k' \<Longrightarrow> calm k k' \<and> tasks k' = tasks k \<and> cur k' = cur k"
  by (auto simp: free_stack_def split: if_splits)

lemma calm_exit:
  assumes wf: "sched_wf k" and e: "sched_exit k = Some k'"
  shows "calm k k'"
proof -
  note D = sched_wfD[OF wf]
  define k3 where "k3 = (upd (cur k) (tstate_update (\<lambda>_. TASK_EMPTY)) ((upd (cur k) (stack_update (\<lambda>_. 0)) k)
      \<lparr>krouter := input_router_task_exit (int (cur k)) (krouter k)\<rparr>))\<lparr>ntasks := ntasks k - 1\<rparr>"
  define n k4 where "n = fst (next_ready k3)" and "k4 = snd (next_ready k3)"
  have k3: "calm k k3" "cur k3 = cur k" "length (tasks k3) = 32"
    using D(1,2) by (auto simp: k3_def calm_def dormant_def tk_upd vacant_def)
  have wf3: "sched_wf k3" using wf by (simp add: k3_def sched_wf_def tk_upd)
  have k4: "calm k k4" "cur k4 = cur k" "length (tasks k4) = 32" "n \<noteq> cur k \<longrightarrow> n < 32 \<and> \<not> vacant (tk k4 n)"
    using calm_trans[OF k3(1) calm_next_ready[OF k3(3)]] next_ready_live[OF wf3] k3 next_ready_frame(3)[of k3]
    by (auto simp: n_def k4_def)
  have unf: "sched_exit k = (if n = cur k then map_option (\<lambda>k5. k5\<lparr>halted := True\<rparr>) (free_stack (stack (tk k (cur k))) k4)
      else map_option (\<lambda>k5. let k6 = upd n (tstate_update (\<lambda>_. TASK_RUNNING)) (k5\<lparr>pending_stack := stack (tk k (cur k))\<rparr>)
          in k6\<lparr>cur := n, cpu_rsp := rsp (tk k6 n) + 56\<rparr>) (free_stack (pending_stack k4) k4))"
    unfolding sched_exit_def Let_def case_prod_beta n_def k4_def k3_def by simp
  have res: "calm k ((upd n (tstate_update (\<lambda>_. TASK_RUNNING)) (k5\<lparr>pending_stack := q\<rparr>))\<lparr>cur := n, cpu_rsp := v\<rparr>)"
    if "tasks k5 = tasks k4" "cur k5 = cur k4" "sched_ready k5 = sched_ready k4" "n \<noteq> cur k" for k5 q v
  proof -
    have "tk k5 i = tk k4 i" for i using that(1) by (simp add: tk_def)
    then show ?thesis using that k4 by (auto simp: calm_def dormant_def tk_upd)
  qed
  show ?thesis
  proof (cases "n = cur k")
    case True
    then obtain k5 where "free_stack (stack (tk k (cur k))) k4 = Some k5" "k' = k5\<lparr>halted := True\<rparr>" using e unf by auto
    then show ?thesis using calm_free_stack calm_trans[OF k4(1)] by auto
  next
    case False
    then obtain k5 v where f: "free_stack (pending_stack k4) k4 = Some k5"
      and k': "k' = (upd n (tstate_update (\<lambda>_. TASK_RUNNING)) (k5\<lparr>pending_stack := stack (tk k (cur k))\<rparr>))\<lparr>cur := n, cpu_rsp := v\<rparr>"
      using e unf by (auto simp: Let_def)
    then show ?thesis using calm_free_stack[OF f] unfolding k' by (intro res[OF _ _ _ False]) (auto simp: calm_def)
  qed
qed

lemma calm_kill:
  assumes wf: "sched_wf k" and e: "sched_kill i k = Some (r, k')"
  shows "calm k k'"
proof (cases "i < 0 \<or> int TASK_MAX \<le> i \<or> vacant (tk k (nat i)) \<or> i = 0")
  case True
  then have "sched_kill i k = Some (Returns (-1), k)" by (auto simp: sched_kill_def)
  then show ?thesis using e by simp
next
  case False
  define n where "n = nat i"
  have n: "n < 32" using False by (auto simp: n_def TASK_MAX_def)
  note D = sched_wfD[OF wf]
  obtain k1 where k1: "(if n \<noteq> cur k \<and> stack (tk k n) \<noteq> 0
        then map_option (upd n (stack_update (\<lambda>_. 0))) (free_stack (stack (tk k n)) k) else Some k) = Some k1"
    using e False unfolding sched_kill_def n_def[symmetric] by (auto simp: Let_def split: option.splits)
  define k3 where "k3 = (upd n (tstate_update (\<lambda>_. TASK_DEAD))
      (k1\<lparr>krouter := input_router_task_exit i (krouter k1)\<rparr>))\<lparr>ntasks := ntasks k1 - 1\<rparr>"
  have c1: "calm k k1 \<and> length (tasks k1) = 32 \<and> sched_wf k1"
  proof (cases "n \<noteq> cur k \<and> stack (tk k n) \<noteq> 0")
    case True
    then obtain k0 where k0: "free_stack (stack (tk k n)) k = Some k0" "k1 = upd n (stack_update (\<lambda>_. 0)) k0" using k1 by auto
    note f = calm_free_stack[OF k0(1)]
    have "tk k0 j = tk k j" for j using f by (simp add: tk_def)
    then have "sched_wf k0" using f wf by (simp add: sched_wf_def)
    then show ?thesis using f n D(1) calm_trans[OF _ calm_plain[of k0 n "stack_update (\<lambda>_. 0)"]] unfolding k0(2)
      by (auto simp: sched_wf_def tk_upd)
  qed (use k1 wf D(1) in auto)
  have k3: "calm k k3" "sched_wf k3"
    using c1 n by (auto simp: k3_def calm_def dormant_def tk_upd vacant_def sched_wf_def)
  have "sched_kill i k = (if n = cur k3 then map_option (\<lambda>k4. (NoReturn, k4)) (sched_exit k3) else Some (Returns 0, k3))"
    using False k1 by (simp add: sched_kill_def n_def[symmetric] k3_def Let_def)
  then show ?thesis using e k3 calm_trans[OF k3(1) calm_exit[OF k3(2)]] by (cases "sched_exit k3") (auto split: if_splits)
qed

lemma calm_send: "length (tasks k) = 32 \<Longrightarrow> calm k (snd (signal_send i s k))"
  by (auto simp: signal_send_def TASK_MAX_def intro!: calm_signals signal_inv_ops(2))

lemma calm_notify: "length (tasks k) = 32 \<Longrightarrow> calm k (signal_notify_parent pp c e k)"
  by (simp add: signal_notify_parent_def calm_send)

lemma calm_terminate:
  assumes inv: "kern_inv k" and n: "nat i < 32" and e: "signal_terminate i s k = Some (r, k')"
  shows "calm k k'"
proof -
  let ?k2 = "upd (nat i) (signals_update (exit_signal_update (\<lambda>_. int s))) k"
  define k3 where "k3 = signal_notify_parent (sint (ppid (tk ?k2 (nat i)))) i (- int s) ?k2"
  note len = sched_wfD(1)[OF kern_inv_wf[OF inv]]
  have "kern_inv ?k2" using inv n by (intro kern_inv_plain) auto
  then have inv3: "kern_inv k3" unfolding k3_def by (rule kern_inv_notify)
  have "calm k ?k2" using len n by (intro calm_signals) (simp_all add: signal_inv_def)
  moreover have "calm ?k2 k3" unfolding k3_def using len by (intro calm_notify) simp
  ultimately have c3: "calm k k3" by (rule calm_trans)
  have "calm k3 (upd (nat i) (tstate_update (\<lambda>_. TASK_DEAD)) k3)"
    using sched_wfD(1)[OF kern_inv_wf[OF inv3]] n by (intro calm_upd) (simp_all add: vacant_def)
  moreover have "(if i = sint (tid (tk k3 (cur k3))) then map_option (\<lambda>k4. (NoReturn, k4)) (sched_exit k3)
         else Some (Returns 1, upd (nat i) (tstate_update (\<lambda>_. TASK_DEAD)) k3)) = Some (r, k')"
    using e unfolding k3_def Let_def signal_terminate_def .
  ultimately show ?thesis using calm_trans[OF c3] calm_exit[OF kern_inv_wf[OF inv3]] by (auto split: if_splits)
qed

text \<open>Handlers are code of the kernel that keeps the interface's promise.\<close>

definition handlers_keep :: "(u64 \<Rightarrow> nat \<Rightarrow> kern \<Rightarrow> kern) \<Rightarrow> bool" where
  "handlers_keep run \<longleftrightarrow> (\<forall>h s k. kern_inv k \<and> sig_wf k \<longrightarrow> sig_wf (run h s k))"

lemma sig_wf_dispatch:
  assumes inv: "kern_inv k" "sig_wf k" and run: "handlers_keep run" and e: "signal_dispatch run i k = Some (r, k')"
  shows "sig_wf k'"
proof (cases "i < 0 \<or> int TASK_MAX \<le> i")
  case True
  then show ?thesis using inv e by (simp add: signal_dispatch_def)
next
  case False
  have n: "nat i < 32" using False by (auto simp: TASK_MAX_def)
  note len = sched_wfD(1)[OF kern_inv_wf[OF inv(1)]]
  define k1 where "k1 = upd (nat i) (signals_update (pending_update (\<lambda>p. p AND NOT (sig_bit
      (lowest_signal (pending (signals (tk k (nat i))) AND NOT (blocked (signals (tk k (nat i))))))))))  k"
  have i1: "kern_inv k1" unfolding k1_def using inv n by (intro kern_inv_plain) auto
  have "calm k k1" unfolding k1_def using len n by (intro calm_signals) (simp_all add: signal_inv_def)
  then have s1: "sig_wf k1" using calm_sig_wf inv(2) by blast
  have len1: "length (tasks k1) = 32" using sched_wfD(1)[OF kern_inv_wf[OF i1]] .
  have "calm k1 (upd (nat i) (tstate_update (\<lambda>_. TASK_READY)) k1)" if "tstate (tk k1 (nat i)) = TASK_SLEEPING"
    using len1 n that by (intro calm_upd) (simp_all add: vacant_def)
  then have rd: "sig_wf (if tstate (tk k1 (nat i)) = TASK_SLEEPING then upd (nat i) (tstate_update (\<lambda>_. TASK_READY)) k1 else k1)"
    using s1 calm_sig_wf by auto
  have tm: "sig_wf k'" if "signal_terminate i s k1 = Some (r, k')" for s
    using calm_sig_wf[OF calm_terminate[OF i1 n that] s1] .
  have rn: "sig_wf (run h s k1)" for h s using run i1 s1 by (simp add: handlers_keep_def)
  show ?thesis
    using e inv(2) s1 rd tm rn False unfolding signal_dispatch_def Let_def k1_def[symmetric]
    by (auto split: if_splits sig_action.splits)
qed

lemma sig_wf_tick:
  assumes inv: "kern_inv k" "sig_wf k" and run: "handlers_ok run" "handlers_keep run" and e: "sched_tick run k = Some k'"
  shows "sig_wf k'"
proof -
  have inv1: "kern_inv (pit_tick k)" "sig_wf (pit_tick k)"
    using inv by (simp_all add: kern_inv_def pit_tick_def sig_wf_def dormant_def)
  obtain r k2 where d: "signal_dispatch run (int (cur (pit_tick k))) (pit_tick k) = Some (r, k2)" and inv2: "kern_inv k2"
    using kern_inv_dispatch[OF inv1(1), of run "int (cur (pit_tick k))"] run(1) unfolding handlers_ok_def by blast
  have s2: "sig_wf k2" by (rule sig_wf_dispatch[OF inv1 run(2) d])
  define k3 where "k3 = (if 0 < timeslice (tk k2 (cur k2)) then upd (cur k2) (timeslice_update (\<lambda>v. v - 1)) k2 else k2)"
  note D = sched_wfD[OF kern_inv_wf[OF inv2]]
  have "calm k2 k3" unfolding k3_def using D(1,2) by (auto intro: calm_plain)
  then have s3: "sig_wf k3" using calm_sig_wf s2 by blast
  have "kern_inv k3" unfolding k3_def by (rule kern_inv_slice[OF inv2])
  then have "sig_wf (reschedule k3)" using calm_sig_wf[OF calm_reschedule[OF kern_inv_wf] s3] by blast
  then show ?thesis using e d s2 s3 inv1(2) by (cases r) (auto simp: sched_tick_def Let_def k3_def split: if_splits)
qed

lemma calm_set_priority: "length (tasks k) = 32 \<Longrightarrow> calm k (sched_set_priority i p k)"
  by (auto simp: sched_set_priority_def Let_def TASK_MAX_def intro!: calm_plain)

lemma calm_watchdog_task:
  assumes inv: "kern_inv k" and i: "i < 32" and e: "watchdog_task i k = Some (r, k')"
  shows "calm k k'"
proof -
  note len = sched_wfD(1)[OF kern_inv_wf[OF inv]]
  let ?k1 = "upd i (watchdog_strikes_update (\<lambda>s. s + 1)) k"
  have strikes: "calm k (upd i (watchdog_strikes_update f) k)" "kern_inv (upd i (watchdog_strikes_update f) k)" for f
    using inv len i by (auto intro!: calm_plain kern_inv_plain)
  have keep: "calm k (upd i (\<lambda>t. t\<lparr>last_heartbeat := heartbeat t\<rparr>) k2)" if "calm k k2" "kern_inv k2" for k2
    using calm_trans[OF that(1)] calm_plain[of k2 i] sched_wfD(1)[OF kern_inv_wf[OF that(2)]] i by simp
  have kill: "calm k k2" "kern_inv k2" if "sched_kill (int i) ?k1 = Some (q, k2)" for q k2
    using calm_trans[OF strikes(1) calm_kill[OF kern_inv_wf[OF strikes(2)] that]] kern_inv_kill[OF strikes(2)[of "\<lambda>s. s + 1"], of "int i"] that
    by simp_all
  show ?thesis
    using e strikes keep kill inv unfolding watchdog_task_def Let_def
    by (auto split: if_splits option.splits flow.splits)
qed

lemma calm_watchdog_loop:
  "kern_inv k \<Longrightarrow> \<forall>i \<in> set is. i < 32 \<Longrightarrow> watchdog_loop is n k = Some (r, k') \<Longrightarrow> calm k k'"
proof (induction "is" arbitrary: n k)
  case (Cons i "is")
  then obtain q k1 where 1: "watchdog_task i k = Some (q, k1)" "kern_inv k1" using kern_inv_watchdog_task[of k i] by auto
  have c: "calm k k1" using calm_watchdog_task[OF Cons.prems(1) _ 1(1)] Cons.prems(2) by simp
  show ?case using 1(1) c calm_trans[OF c Cons.IH[OF 1(2)]] Cons.prems(2,3) by (cases q) auto
qed simp

lemma calm_watchdog: "kern_inv k \<Longrightarrow> sched_watchdog_check k = Some (u, k') \<Longrightarrow> calm k k'"
  using calm_watchdog_loop[of k "[0..<TASK_MAX]" 0]
  by (auto simp: sched_watchdog_check_def TASK_MAX_def split: option.splits flow.splits)

lemma sig_wf_spawn:
  assumes inv: "kern_inv k" "sig_wf k" and e: "sched_spawn fn name k = Some (r, k')"
  shows "sig_wf k'"
proof -
  note len = sched_wfD(1)[OF kern_inv_wf[OF inv(1)]]
  have "sig_wf (k\<lparr>kheap := h\<rparr>)" for h using inv(2) by (simp add: sig_wf_def dormant_def)
  moreover have "sig_wf ((upd i (spawn_task i sp stk name w) (k\<lparr>kheap := h\<rparr>))\<lparr>ntasks := n\<rparr>)" if "i < 32" for i sp stk w h n
    using that inv(2) len signal_inv_ops(1) by (auto simp: sig_wf_def dormant_def tk_upd spawn_task_def)
  moreover have "i < 32" if "List.find (\<lambda>i. vacant (tk k i)) [0..<TASK_MAX] = Some i" for i
    using that by (auto simp: find_Some_iff TASK_MAX_def)
  ultimately show ?thesis
    using e inv(2) by (auto simp: sched_spawn_def Let_def split: option.splits if_splits prod.splits)
qed

lemma kstep_sig_wf:
  assumes "kstep run k k'" "handlers_ok run" "handlers_keep run" "kern_inv k" "sig_wf k"
  shows "sig_wf k'"
proof -
  note len = sched_wfD(1)[OF kern_inv_wf[OF assms(4)]] and wf = kern_inv_wf[OF assms(4)]
  have c: "calm k k' \<Longrightarrow> sig_wf k'" using calm_sig_wf assms(5) by blast
  from assms(1) show ?thesis
  proof cases
    case (step_spawn fn name r)
    then show ?thesis using sig_wf_spawn assms(4,5) by blast
  next
    case step_tick
    then show ?thesis using sig_wf_tick assms by blast
  next
    case step_exit
    then show ?thesis using c calm_exit[OF wf] by blast
  next
    case (step_kill i r)
    then show ?thesis using c calm_kill[OF wf] by blast
  next
    case (step_signal i s e)
    then show ?thesis using c calm_send[OF len, of i s] by simp
  next
    case (step_watchdog u)
    then show ?thesis using c calm_watchdog[OF assms(4)] by blast
  qed (use c len assms(4) in \<open>auto simp: TASK_MAX_def intro!: calm_yield calm_sleep calm_set_priority calm_signals signal_inv_ops\<close>)
qed

lemma kreach_sig_wf:
  assumes "kreach run k0 k" "handlers_ok run" "handlers_keep run" "kern_inv k0" "sig_wf k0"
  shows "kern_inv k \<and> sig_wf k"
  using assms(1) by (induction rule: kreach.induct) (use assms(2-5) kstep_sig_wf kstep_inv in blast)+

text \<open>The zeroed task table has no signal state.\<close>

definition no_signals :: "kern \<Rightarrow> bool" where
  "no_signals k \<longleftrightarrow> (\<forall>t \<in> set (tasks k). blocked (signals t) = 0 \<and> handlers (signals t) = (\<lambda>_. SIG_DFL))"

lemma sig_wf_init:
  assumes "booted k" "no_signals k"
  shows "sig_wf (sched_init k)"
proof -
  have len: "length (tasks k) = 32" using assms(1) by (simp add: booted_def)
  have t: "tstate (tk k i) = TASK_EMPTY" "signal_inv (signals (tk k i))" if "i < 32" for i
    using assms that len nth_mem[of i "tasks k"] by (auto simp: booted_def no_signals_def tk_def signal_inv_def)
  show ?thesis using t len by (auto simp: sig_wf_def dormant_def vacant_def sched_init_def tk_upd)
qed

section \<open>SIGKILL\<close>

lemma lowest_of:
  assumes "bit d s" "0 < s" "s < 32"
  shows "0 < lowest_signal d \<and> lowest_signal d \<le> s \<and> bit d (lowest_signal d) \<and> d \<noteq> 0"
proof -
  define l where "l = (LEAST j. 0 < j \<and> bit d j)"
  have l: "0 < l \<and> bit d l" unfolding l_def by (rule LeastI[of _ s]) (use assms in simp)
  have le: "l \<le> j" if "0 < j" "bit d j" for j unfolding l_def by (rule Least_le) (use that in simp)
  have "l < 32" using le[OF assms(2,1)] assms(3) by simp
  moreover have "\<forall>j. 0 < j \<and> j < l \<longrightarrow> \<not> bit d j" using le by (meson not_le)
  ultimately have "lowest_signal d = l" using l lowest_signal_iff[of l d] by blast
  moreover have "d \<noteq> 0" using assms(1) by (metis bit_0_eq bot_apply bot_bool_def)
  ultimately show ?thesis using l le[OF assms(2,1)] by metis
qed

text \<open>
  C23. \<^verbatim>\<open>SIGKILL\<close> cannot be blocked, caught or ignored. In every state that a booted kernel reaches by any sequence of
  scheduler operations, ticks, signals, and changes of signal masks and handlers, sending \<^verbatim>\<open>SIGKILL\<close> to the running task
  succeeds and the next timer tick ends that task: the tick does not come back to it, its slot is empty and another task
  runs, or the machine halts when none is ready. Signals are delivered lowest first, one per tick, so the claim is for a
  task without a pending, unblocked signal below \<^verbatim>\<open>SIGKILL\<close> that it has set a handler for or ignores.
\<close>

theorem sigkill_ends_task:
  assumes "booted k0" and "no_signals k0" and "handlers_ok run" and "handlers_keep run" and "kreach run (sched_init k0) k"
    and "tstate (tk k (cur k)) = TASK_RUNNING"
    and "\<forall>j. 0 < j \<and> j < SIGKILL \<and> bit (pending (signals (tk k (cur k)))) j \<and> \<not> bit (blocked (signals (tk k (cur k)))) j \<longrightarrow>
      handlers (signals (tk k (cur k))) j = SIG_DFL"
  shows "\<exists>k1 k2. signal_send (int (cur k)) (int SIGKILL) k = (0, k1) \<and> sched_tick run k1 = Some k2
    \<and> tstate (tk k2 (cur k)) = TASK_EMPTY \<and> stack (tk k2 (cur k)) = 0 \<and> (halted k2 \<or> cur k2 \<noteq> cur k)"
proof -
  let ?c = "cur k"
  have inv: "kern_inv k" and sw: "sig_wf k"
    using kreach_sig_wf[OF assms(5,3,4) kern_inv_init[OF assms(1)] sig_wf_init[OF assms(1,2)]] by blast+
  note D = sched_wfD[OF kern_inv_wf[OF inv]]
  have si: "signal_inv (signals (tk k ?c))" and rdy: "sched_ready k" and tid: "tid (tk k ?c) = of_nat ?c"
    and live: "\<not> vacant (tk k ?c)"
    using sw D(2) assms(6) by (auto simp: sig_wf_def dormant_def vacant_def)
  define ss where "ss = signal_post SIGKILL (signals (tk k ?c))"
  define s where "s = lowest_signal (pending ss AND NOT (blocked ss))"
  define k1 where "k1 = upd ?c (signals_update (signal_post SIGKILL)) k"
  define k1' where "k1' = pit_tick k1"
  define ka where "ka = upd ?c (signals_update (pending_update (\<lambda>p. p AND NOT (sig_bit s)))) k1'"
  define kb where "kb = upd ?c (signals_update (exit_signal_update (\<lambda>_. int s))) ka"
  define k2 where "k2 = signal_notify_parent (sint (ppid (tk kb ?c))) (int ?c) (- int s) kb"
  have send: "signal_send (int ?c) (int SIGKILL) k = (0, k1)"
    using D(2) live by (simp add: signal_send_def k1_def SIGKILL_def NSIG_def TASK_MAX_def)
  have inv1: "kern_inv k1'"
    using kern_inv_send[OF inv, of "int ?c" "int SIGKILL"] send by (simp add: k1'_def pit_tick_def kern_inv_def)
  have tk1: "tk k1' ?c = (tk k ?c)\<lparr>signals := ss\<rparr>" "cur k1' = ?c" "sched_ready k1'" "length (tasks k1') = 32"
    using D rdy by (simp_all add: k1'_def k1_def pit_tick_def tk_upd ss_def)
  have blk: "\<not> bit (blocked ss) SIGKILL" "handlers ss SIGKILL = SIG_DFL"
    using si by (auto simp: ss_def post_sigkill_bit signal_inv_def uncatchable_zero)
  have kb: "bit (pending ss AND NOT (blocked ss)) SIGKILL"
    using blk(1) SIGKILL_less by (simp add: bit_simps ss_def post_sigkill_bit(1))
  have low: "0 < s" "s \<le> SIGKILL" "bit (pending ss AND NOT (blocked ss)) s" "pending ss AND NOT (blocked ss) \<noteq> 0"
    unfolding s_def using lowest_of[OF kb] SIGKILL_less by (auto simp: SIGKILL_def)
  have dfl: "handlers ss s = SIG_DFL"
  proof (cases "s = SIGKILL")
    case False
    then show ?thesis using low assms(7) SIGKILL_less by (simp add: bit_simps ss_def post_sigkill_bit)
  qed (use blk in simp)
  have "s < 10" using low by (simp add: SIGKILL_def)
  moreover have "\<forall>j < 10. default_action ! j = DA_TERM" by (simp add: default_action_def numeral_eq_Suc All_less_Suc)
  ultimately have da: "(if s < NSIG then default_action ! s else DA_TERM) = DA_TERM" by simp
  have sg: "signals (tk k1' ?c) = ss" using tk1(1) by simp
  have "signal_dispatch run (int ?c) k1' = signal_terminate (int ?c) s ka"
    unfolding signal_dispatch_def Let_def nat_int sg s_def[symmetric] dfl da ka_def
    using D(2) low(1,4) by (simp add: TASK_MAX_def SIG_DFL_def SIG_IGN_def)
  moreover have ck: "cur k2 = ?c" "tid (tk k2 ?c) = of_nat ?c"
    using tk1 tid by (auto simp: k2_def kb_def ka_def signal_notify_parent_def signal_send_def tid_upd)
  moreover have "sint (of_nat ?c :: u32) = int ?c" using D(2) by (simp add: signed_of_nat signed_take_bit_int_eq_self)
  moreover have inv2: "sched_wf k2" and "kern_inv k2"
    unfolding k2_def kb_def ka_def using D(2) inv1 by (intro kern_inv_wf kern_inv_notify kern_inv_plain; auto)+
  then obtain k3 where k3: "sched_exit k2 = Some k3" using kern_inv_exit by blast
  ultimately have "signal_dispatch run (int ?c) k1' = Some (NoReturn, k3)"
    by (simp add: signal_terminate_def Let_def kb_def[symmetric] k2_def[symmetric])
  then have "sched_tick run k1 = Some k3" using tk1 by (simp add: sched_tick_def k1'_def[symmetric])
  then show ?thesis using send exit_slot[OF inv2 k3] ck(1) by auto
qed

text \<open>The boot task has blocked every signal it can.\<close>

theorem sigkill_ends_task_witness:
  "\<exists>k k1 k2. kreach (\<lambda>h s k. k) (sched_init boot_kern) k \<and> blocked (signals (tk k 0)) = NOT UNCATCHABLE_MASK
     \<and> signal_send 0 9 k = (0, k1) \<and> sched_tick (\<lambda>h s k. k) k1 = Some k2 \<and> tstate (tk k2 0) = TASK_EMPTY"
proof -
  let ?k = "upd 0 (signals_update (signal_block (- 1))) (sched_init boot_kern)"
  have r: "kreach (\<lambda>h s k. k) (sched_init boot_kern) ?k"
    by (rule reach_step[OF reach_start step_block]) (simp add: TASK_MAX_def)
  have t: "tk ?k 0 = zero_task\<lparr>tstate := TASK_RUNNING, tname := ''kmain'', signals := signal_block (- 1) (signals zero_task)\<rparr>"
    "cur ?k = 0" by (simp_all add: sched_init_def boot_kern_def tk_def upd_def zero_task_def)
  have n: "no_signals boot_kern" by (simp add: no_signals_def boot_kern_def zero_task_def SIG_DFL_def)
  have h: "handlers_ok (\<lambda>h s k. k)" "handlers_keep (\<lambda>h s k. k)" by (simp_all add: handlers_ok_def handlers_keep_def)
  have "\<exists>k1 k2. signal_send 0 9 ?k = (0, k1) \<and> sched_tick (\<lambda>h s k. k) k1 = Some k2 \<and> tstate (tk k2 0) = TASK_EMPTY"
    using sigkill_ends_task[OF boot_kern_booted n h r] t
    by (simp add: zero_task_def signal_block_def SIGKILL_def) blast
  moreover have "blocked (signals (tk ?k 0)) = NOT UNCATCHABLE_MASK" using t by (simp add: signal_block_def zero_task_def)
  ultimately show ?thesis using r by blast
qed

end
