(* ===== verification/Klibc.thy ===== *)
theory Klibc
  imports Prelude
begin

text \<open>
  The kernel's C library, \<^verbatim>\<open>kernel/klibc.c\<close>, on byte memory. Copy loops return the memory; their
  C result is the destination argument. A loop that runs to a NUL byte is a \<open>partial_function\<close>:
  \<open>None\<close> is a run that never meets one. Local arrays are byte lists or functions of their own. A
  \<^verbatim>\<open>va_list\<close> is the list of 64-bit argument slots.
\<close>

section \<open>Memory\<close>

fun memset :: "addr \<Rightarrow> u8 \<Rightarrow> nat \<Rightarrow> mem \<Rightarrow> mem" where
  "memset p c 0 m = m"
| "memset p c (Suc n) m = memset (p + 1) c n (m(p := c))"

fun memcpy :: "addr \<Rightarrow> addr \<Rightarrow> nat \<Rightarrow> mem \<Rightarrow> mem" where
  "memcpy d s 0 m = m"
| "memcpy d s (Suc n) m = memcpy (d + 1) (s + 1) n (m(d := m s))"

text \<open>The descending loop of \<^verbatim>\<open>memmove\<close>, with the end pointers.\<close>

fun memcpy_down :: "addr \<Rightarrow> addr \<Rightarrow> nat \<Rightarrow> mem \<Rightarrow> mem" where
  "memcpy_down d s 0 m = m"
| "memcpy_down d s (Suc n) m = memcpy_down (d - 1) (s - 1) n (m(d - 1 := m (s - 1)))"

definition memmove :: "addr \<Rightarrow> addr \<Rightarrow> nat \<Rightarrow> mem \<Rightarrow> mem" where
  "memmove d s n m = (if d < s then memcpy d s n m else memcpy_down (d + n) (s + n) n m)"

fun memcmp :: "addr \<Rightarrow> addr \<Rightarrow> nat \<Rightarrow> mem \<Rightarrow> int" where
  "memcmp x y 0 m = 0"
| "memcmp x y (Suc n) m = (if m x \<noteq> m y then uint (m x) - uint (m y) else memcmp (x + 1) (y + 1) n m)"

section \<open>Strings\<close>

partial_function (option) strlen_loop :: "mem \<Rightarrow> addr \<Rightarrow> nat \<Rightarrow> nat option" where
  "strlen_loop m s n = (if m s = 0 then Some n else strlen_loop m (s + 1) (n + 1))"

declare strlen_loop.simps [code]

definition strlen :: "mem \<Rightarrow> addr \<Rightarrow> nat option" where "strlen m s = strlen_loop m s 0"

partial_function (option) strcpy :: "addr \<Rightarrow> addr \<Rightarrow> mem \<Rightarrow> mem option" where
  "strcpy d s m = (let c = m s; m1 = m(d := c) in if c = 0 then Some m1 else strcpy (d + 1) (s + 1) m1)"

declare strcpy.simps [code]

fun strncpy_copy :: "addr \<Rightarrow> addr \<Rightarrow> nat \<Rightarrow> mem \<Rightarrow> addr \<times> nat \<times> mem" where
  "strncpy_copy d s 0 m = (d, 0, m)"
| "strncpy_copy d s (Suc n) m =
     (let c = m s; m1 = m(d := c) in if c = 0 then (d + 1, Suc n, m1) else strncpy_copy (d + 1) (s + 1) n m1)"

definition strncpy :: "addr \<Rightarrow> addr \<Rightarrow> nat \<Rightarrow> mem \<Rightarrow> mem" where
  "strncpy d s n m = (let (d1, k, m1) = strncpy_copy d s n m in memset d1 0 k m1)"

partial_function (option) strcmp :: "mem \<Rightarrow> addr \<Rightarrow> addr \<Rightarrow> int option" where
  "strcmp m a b = (if m a \<noteq> 0 \<and> m a = m b then strcmp m (a + 1) (b + 1)
     else Some (uint (m a) - uint (m b)))"

declare strcmp.simps [code]

fun strncmp :: "mem \<Rightarrow> addr \<Rightarrow> addr \<Rightarrow> nat \<Rightarrow> int" where
  "strncmp m a b 0 = 0"
| "strncmp m a b (Suc n) =
     (if m a \<noteq> 0 \<and> m a = m b then strncmp m (a + 1) (b + 1) n else uint (m a) - uint (m b))"

definition strcat :: "addr \<Rightarrow> addr \<Rightarrow> mem \<Rightarrow> mem option" where
  "strcat d s m = (case strlen m d of None \<Rightarrow> None | Some n \<Rightarrow> strcpy (d + n) s m)"

fun strncat_copy :: "addr \<Rightarrow> addr \<Rightarrow> nat \<Rightarrow> mem \<Rightarrow> mem" where
  "strncat_copy d s 0 m = m(d := 0)"
| "strncat_copy d s (Suc n) m =
     (if m s \<noteq> 0 then strncat_copy (d + 1) (s + 1) n (m(d := m s)) else m(d := 0))"

definition strncat :: "addr \<Rightarrow> addr \<Rightarrow> nat \<Rightarrow> mem \<Rightarrow> mem option" where
  "strncat d s n m = (case strlen m d of None \<Rightarrow> None | Some k \<Rightarrow> Some (strncat_copy (d + k) s n m))"

definition strlcpy :: "addr \<Rightarrow> addr \<Rightarrow> nat \<Rightarrow> mem \<Rightarrow> (nat \<times> mem) option" where
  "strlcpy d s sz m =
     (case strlen m s of None \<Rightarrow> None
      | Some srclen \<Rightarrow>
          if 0 < sz
          then let copy = (if srclen < sz - 1 then srclen else sz - 1)
               in Some (srclen, (memcpy d s copy m)(d + copy := 0))
          else Some (srclen, m))"

definition strlcat :: "addr \<Rightarrow> addr \<Rightarrow> nat \<Rightarrow> mem \<Rightarrow> (nat \<times> mem) option" where
  "strlcat d s sz m =
     (case (strlen m d, strlen m s) of
        (Some dlen, Some slen) \<Rightarrow>
          if sz \<le> dlen then Some (dlen + slen, m)
          else let avail = sz - dlen - 1; copy = (if slen < avail then slen else avail)
               in Some (dlen + slen, (memcpy (d + dlen) s copy m)(d + dlen + copy := 0))
      | _ \<Rightarrow> None)"

text \<open>The searches return the address found, \<open>None\<close> inside the option for \<^verbatim>\<open>NULL\<close>.\<close>

partial_function (option) strchr :: "mem \<Rightarrow> addr \<Rightarrow> u8 \<Rightarrow> addr option option" where
  "strchr m s c = (if m s \<noteq> 0 then (if m s = c then Some (Some s) else strchr m (s + 1) c)
     else Some (if c = 0 then Some s else None))"

declare strchr.simps [code]

partial_function (option) strrchr_loop :: "mem \<Rightarrow> addr \<Rightarrow> u8 \<Rightarrow> addr option \<Rightarrow> addr option option" where
  "strrchr_loop m s c lst =
     (if m s \<noteq> 0 then strrchr_loop m (s + 1) c (if m s = c then Some s else lst)
      else Some (if c = 0 then Some s else lst))"

declare strrchr_loop.simps [code]

definition strrchr :: "mem \<Rightarrow> addr \<Rightarrow> u8 \<Rightarrow> addr option option" where
  "strrchr m s c = strrchr_loop m s c None"

partial_function (option) str_prefix :: "mem \<Rightarrow> addr \<Rightarrow> addr \<Rightarrow> bool option" where
  "str_prefix m h n = (if m h \<noteq> 0 \<and> m n \<noteq> 0 \<and> m h = m n then str_prefix m (h + 1) (n + 1)
     else Some (m n = 0))"

declare str_prefix.simps [code]

partial_function (option) strstr_loop :: "mem \<Rightarrow> addr \<Rightarrow> addr \<Rightarrow> addr option option" where
  "strstr_loop m hay needle =
     (if m hay = 0 then Some None
      else case str_prefix m hay needle of None \<Rightarrow> None
        | Some b \<Rightarrow> if b then Some (Some hay) else strstr_loop m (hay + 1) needle)"

declare strstr_loop.simps [code]

definition strstr :: "mem \<Rightarrow> addr \<Rightarrow> addr \<Rightarrow> addr option option" where
  "strstr m hay needle = (if m needle = 0 then Some (Some hay) else strstr_loop m hay needle)"

section \<open>Numbers\<close>

text \<open>The string literal \<^verbatim>\<open>"0123456789abcdef"\<close> with its terminator.\<close>

definition utoa_digits :: "u8 list" where
  "utoa_digits = [48, 49, 50, 51, 52, 53, 54, 55, 56, 57, 97, 98, 99, 100, 101, 102, 0]"

partial_function (option) utoa_loop :: "(nat \<Rightarrow> u8) \<Rightarrow> nat \<Rightarrow> u64 \<Rightarrow> u64 \<Rightarrow> ((nat \<Rightarrow> u8) \<times> nat) option" where
  "utoa_loop tmp i v b =
     (if v = 0 then Some (tmp, i)
      else if b = 0 \<or> i = 0 \<or> 16 < v mod b then None
      else utoa_loop (tmp(i - 1 := utoa_digits ! unat (v mod b))) (i - 1) (v div b) b)"

declare utoa_loop.simps [code]

text \<open>The bytes that \<^verbatim>\<open>utoa64\<close> copies to its buffer, up to the terminator.\<close>

definition utoa64_str :: "u64 \<Rightarrow> u32 \<Rightarrow> u8 list option" where
  "utoa64_str v base =
     (if v = 0 then Some [48]
      else map_option (\<lambda>(tmp, i). takeWhile (\<lambda>c. c \<noteq> 0) (map tmp [i..<68]))
             (utoa_loop (\<lambda>j. 0) 67 v (scast base)))"

definition utoa64 :: "u64 \<Rightarrow> addr \<Rightarrow> u32 \<Rightarrow> mem \<Rightarrow> mem option" where
  "utoa64 v buf base m = map_option (\<lambda>ds. store_bytes m buf (ds @ [0])) (utoa64_str v base)"

definition utoa :: "u32 \<Rightarrow> addr \<Rightarrow> u32 \<Rightarrow> mem \<Rightarrow> mem option" where
  "utoa v buf base m = utoa64 (ucast v) buf base m"

definition itoa :: "u32 \<Rightarrow> addr \<Rightarrow> u32 \<Rightarrow> mem \<Rightarrow> mem option" where
  "itoa v buf base m =
     (if sint v < 0 \<and> base = 10 then utoa64 (- scast v) (buf + 1) base (m(buf := 45))
      else utoa64 (ucast v) buf base m)"

definition is_digit :: "u8 \<Rightarrow> bool" where "is_digit c \<longleftrightarrow> 48 \<le> c \<and> c \<le> 57"

partial_function (option) skip_spaces :: "mem \<Rightarrow> addr \<Rightarrow> addr option" where
  "skip_spaces m s = (if m s = 32 then skip_spaces m (s + 1) else Some s)"

declare skip_spaces.simps [code]

partial_function (option) atoi_loop :: "mem \<Rightarrow> addr \<Rightarrow> u32 \<Rightarrow> u32 option" where
  "atoi_loop m s r = (if is_digit (m s) then atoi_loop m (s + 1) (r * 10 + (ucast (m s) - 48)) else Some r)"

declare atoi_loop.simps [code]

text \<open>
  \<^verbatim>\<open>int\<close> arithmetic is taken to wrap at 32 bits. The build does not pass \<^verbatim>\<open>-fwrapv\<close>, so for a number outside the range of
  \<^verbatim>\<open>int\<close>, and for the digits of the smallest one, the C standard leaves the result of \<^verbatim>\<open>atoi\<close> open.
\<close>

definition atoi :: "mem \<Rightarrow> addr \<Rightarrow> u32 option" where
  "atoi m s =
     (case skip_spaces m s of None \<Rightarrow> None
      | Some s1 \<Rightarrow>
          if m s1 = 45 then map_option (\<lambda>r. - 1 * r) (atoi_loop m (s1 + 1) 0)
          else if m s1 = 43 then atoi_loop m (s1 + 1) 0
          else atoi_loop m s1 0)"

section \<open>Formatted output\<close>

function fmt_string :: "addr \<Rightarrow> nat \<Rightarrow> addr \<Rightarrow> mem \<Rightarrow> nat \<Rightarrow> mem \<times> nat" where
  "fmt_string buf sz s m pos =
     (if m s \<noteq> 0 \<and> pos + 1 < sz then fmt_string buf sz (s + 1) (m(buf + pos := m s)) (pos + 1)
      else (m, pos))"
  by auto
termination by (relation "measure (\<lambda>(_, sz, _, _, pos). sz - pos)") auto

declare fmt_string.simps [simp del]

text \<open>\<^verbatim>\<open>fmt_string\<close> from the local array of \<^verbatim>\<open>fmt_uint\<close>.\<close>

fun fmt_local :: "addr \<Rightarrow> nat \<Rightarrow> u8 list \<Rightarrow> mem \<Rightarrow> nat \<Rightarrow> mem \<times> nat" where
  "fmt_local buf sz [] m pos = (m, pos)"
| "fmt_local buf sz (c # cs) m pos =
     (if pos + 1 < sz then fmt_local buf sz cs (m(buf + pos := c)) (pos + 1) else (m, pos))"

function fmt_pad :: "addr \<Rightarrow> nat \<Rightarrow> u8 \<Rightarrow> int \<Rightarrow> int \<Rightarrow> mem \<Rightarrow> nat \<Rightarrow> mem \<times> nat" where
  "fmt_pad buf sz padc len pad m pos =
     (if len < pad \<and> pos + 1 < sz
      then fmt_pad buf sz padc len (pad - 1) (m(buf + pos := padc)) (pos + 1) else (m, pos))"
  by auto
termination by (relation "measure (\<lambda>(_, sz, _, _, _, _, pos). sz - pos)") auto

declare fmt_pad.simps [simp del]

definition fmt_uint :: "addr \<Rightarrow> nat \<Rightarrow> u64 \<Rightarrow> u32 \<Rightarrow> int \<Rightarrow> u8 \<Rightarrow> mem \<Rightarrow> nat \<Rightarrow> (mem \<times> nat) option" where
  "fmt_uint buf sz v base pad padc m pos =
     (case utoa64_str v base of None \<Rightarrow> None
      | Some tmp \<Rightarrow>
          let (m1, pos1) = fmt_pad buf sz padc (int (length tmp)) pad m pos
          in Some (fmt_local buf sz tmp m1 pos1))"

text \<open>The width is an \<^verbatim>\<open>int\<close>: the product wraps at 32 bits.\<close>

definition pad_step :: "int \<Rightarrow> u8 \<Rightarrow> int" where
  "pad_step pad c = signed_take_bit 31 (pad * 10 + (uint c - 48))"

partial_function (option) pad_loop :: "mem \<Rightarrow> addr \<Rightarrow> int \<Rightarrow> (int \<times> addr) option" where
  "pad_loop m f pad = (if is_digit (m f) then pad_loop m (f + 1) (pad_step pad (m f)) else Some (pad, f))"

declare pad_loop.simps [code]

text \<open>The flags, width and length prefix after a percent sign.\<close>

definition directive :: "mem \<Rightarrow> addr \<Rightarrow> (u8 \<times> int \<times> bool \<times> addr) option" where
  "directive m f =
     (let (padc, f1) = (if m f = 48 then (48, f + 1) else (32, f))
      in case pad_loop m f1 0 of None \<Rightarrow> None
         | Some (pad, f2) \<Rightarrow>
             Some (if m f2 = 108 \<and> m (f2 + 1) = 108 then (padc, pad, True, f2 + 2)
                   else if m f2 = 108 then (padc, pad, False, f2 + 1)
                   else (padc, pad, False, f2)))"

definition putc :: "addr \<Rightarrow> nat \<Rightarrow> u8 \<Rightarrow> mem \<Rightarrow> nat \<Rightarrow> mem \<times> nat" where
  "putc buf sz c m pos = (if pos + 1 < sz then (m(buf + pos := c), pos + 1) else (m, pos))"

text \<open>The switch on the conversion character; running out of arguments is \<open>None\<close>.\<close>

definition convert :: "addr \<Rightarrow> nat \<Rightarrow> u8 \<Rightarrow> u8 \<Rightarrow> int \<Rightarrow> bool \<Rightarrow> u64 list \<Rightarrow> mem \<Rightarrow> nat \<Rightarrow> (mem \<times> nat \<times> u64 list) option" where
  "convert buf sz k padc pad ll ap m pos =
     (if k = 100 then
        (case ap of [] \<Rightarrow> None
         | a # ap1 \<Rightarrow>
             let v = (if ll then a else scast (ucast a :: u32));
                 (m1, pos1) = (if sint v < 0 then putc buf sz 45 m pos else (m, pos));
                 pad1 = (if sint v < 0 \<and> 0 < pad then pad - 1 else pad)
             in map_option (\<lambda>(m2, pos2). (m2, pos2, ap1))
                  (fmt_uint buf sz (if sint v < 0 then - v else v) 10 pad1 padc m1 pos1))
      else if k = 117 \<or> k = 120 then
        (case ap of [] \<Rightarrow> None
         | a # ap1 \<Rightarrow>
             map_option (\<lambda>(m2, pos2). (m2, pos2, ap1))
               (fmt_uint buf sz (if ll then a else ucast (ucast a :: u32)) (if k = 117 then 10 else 16) pad padc m pos))
      else if k = 112 then
        (case ap of [] \<Rightarrow> None
         | a # ap1 \<Rightarrow>
             let (m1, pos1) = (if pos + 2 < sz then (m(buf + pos := 48, buf + pos + 1 := 120), pos + 2) else (m, pos))
             in map_option (\<lambda>(m2, pos2). (m2, pos2, ap1)) (fmt_uint buf sz a 16 16 48 m1 pos1))
      else if k = 115 then
        (case ap of [] \<Rightarrow> None
         | a # ap1 \<Rightarrow> let (m1, pos1) = fmt_string buf sz (unat a) m pos in Some (m1, pos1, ap1))
      else if k = 99 then
        (case ap of [] \<Rightarrow> None
         | a # ap1 \<Rightarrow> let (m1, pos1) = putc buf sz (ucast a) m pos in Some (m1, pos1, ap1))
      else let (m1, pos1) = putc buf sz (if k = 37 then 37 else k) m pos in Some (m1, pos1, ap))"

partial_function (option) vsn_loop :: "addr \<Rightarrow> nat \<Rightarrow> addr \<Rightarrow> u64 list \<Rightarrow> mem \<Rightarrow> nat \<Rightarrow> (mem \<times> nat) option" where
  "vsn_loop buf sz f ap m pos =
     (if \<not> (m f \<noteq> 0 \<and> pos + 1 < sz) then Some (m, pos)
      else if m f \<noteq> 37 then vsn_loop buf sz (f + 1) ap (m(buf + pos := m f)) (pos + 1)
      else case directive m (f + 1) of None \<Rightarrow> None
        | Some (padc, pad, ll, f1) \<Rightarrow>
            (case convert buf sz (m f1) padc pad ll ap m pos of None \<Rightarrow> None
             | Some (m1, pos1, ap1) \<Rightarrow> vsn_loop buf sz (f1 + 1) ap1 m1 pos1))"

declare vsn_loop.simps [code]

definition vsnprintf :: "addr \<Rightarrow> nat \<Rightarrow> addr \<Rightarrow> u64 list \<Rightarrow> mem \<Rightarrow> (nat \<times> mem) option" where
  "vsnprintf buf sz f ap m =
     (if sz = 0 then Some (0, m)
      else map_option (\<lambda>(m1, pos). (pos, m1(buf + pos := 0))) (vsn_loop buf sz f ap m 0))"

definition snprintf :: "addr \<Rightarrow> nat \<Rightarrow> addr \<Rightarrow> u64 list \<Rightarrow> mem \<Rightarrow> (nat \<times> mem) option" where
  "snprintf buf sz f ap m = vsnprintf buf sz f ap m"

end
