(* ===== verification/Klibc_Props.thy ===== *)
theory Klibc_Props
  imports Klibc
begin

text \<open>
  What the C library does: copies between overlapping ranges, the exact bytes \<^verbatim>\<open>strncpy\<close> writes,
  printing and reading back numbers, and formatted output against a reference formatter on byte
  lists.
\<close>

section \<open>Strings in memory\<close>

primrec cstr :: "mem \<Rightarrow> addr \<Rightarrow> u8 list \<Rightarrow> bool" where
  "cstr m a [] \<longleftrightarrow> m a = 0"
| "cstr m a (c # cs) \<longleftrightarrow> m a = c \<and> c \<noteq> 0 \<and> cstr m (a + 1) cs"

lemma cstr_cong: "(\<And>x. a \<le> x \<Longrightarrow> x \<le> a + length cs \<Longrightarrow> m x = m' x) \<Longrightarrow> cstr m a cs = cstr m' a cs"
  by (induction cs arbitrary: a) auto

lemma store_bytes_Cons: "store_bytes m d (c # cs) = store_bytes (m(d := c)) (d + 1) cs"
proof
  fix x
  show "store_bytes m d (c # cs) x = store_bytes (m(d := c)) (d + 1) cs x"
    by (cases "d + 1 \<le> x") (auto simp: store_bytes_def nth_Cons' dest: le_antisym)
qed

lemma store_bytes_Nil [simp]: "store_bytes m d [] = m"
  by (auto simp: store_bytes_def fun_eq_iff)

lemma cstr_store: "0 \<notin> set cs \<Longrightarrow> cstr (store_bytes m a (cs @ [0])) a cs"
proof -
  have "cstr m' a cs" if "0 \<notin> set cs" "\<forall>i \<le> length cs. m' (a + i) = (cs @ [0]) ! i" for m' and a :: nat
    using that
  proof (induction cs arbitrary: a)
    case (Cons c cs)
    have "m' (a + 1 + i) = (cs @ [0]) ! i" if "i \<le> length cs" for i
      using Cons.prems(2)[rule_format, of "Suc i"] that by simp
    then show ?case using Cons.IH[of "a + 1"] Cons.prems(1) Cons.prems(2)[rule_format, of 0] by simp
  qed simp
  then show "0 \<notin> set cs \<Longrightarrow> ?thesis" by (simp add: store_bytes_def nth_append)
qed

lemma strlen_loop_cstr: "cstr m s cs \<Longrightarrow> strlen_loop m s n = Some (n + length cs)"
  by (induction cs arbitrary: s n) (subst strlen_loop.simps, simp)+

lemma strlen_cstr: "cstr m s cs \<Longrightarrow> strlen m s = Some (length cs)"
  by (simp add: strlen_def strlen_loop_cstr)

section \<open>Copying\<close>

lemma memset_fill: "memset p c n m = fill m p n c"
  by (induction n arbitrary: p m) (auto simp: fill_def fun_eq_iff)

lemma memcpy_byte:
  "d \<le> s \<or> s + n \<le> d \<Longrightarrow> memcpy d s n m x = (if d \<le> x \<and> x < d + n then m (s + (x - d)) else m x)"
proof (induction n arbitrary: d s m)
  case (Suc n)
  then have "memcpy (d + 1) (s + 1) n (m(d := m s)) x
      = (if d + 1 \<le> x \<and> x < d + 1 + n then (m(d := m s)) (s + 1 + (x - (d + 1))) else (m(d := m s)) x)"
    by (intro Suc.IH) auto
  moreover have "s + 1 + (x - (d + 1)) = s + (x - d)" if "d + 1 \<le> x" using that by simp
  ultimately show ?case using Suc.prems by (cases "d + 1 \<le> x") auto
qed auto

lemma memcpy_down_byte:
  "s \<le> d \<Longrightarrow> memcpy_down (d + n) (s + n) n m x = (if d \<le> x \<and> x < d + n then m (s + (x - d)) else m x)"
  by (induction n arbitrary: m) auto

text \<open>
  C24. \<^verbatim>\<open>memmove\<close> copies correctly however source and destination overlap: the destination
  holds the bytes the source held before the call and nothing else changes.
\<close>

theorem memmove_correct: "memmove d s n m = store_bytes m d (load_bytes m s n)"
proof
  fix x
  show "memmove d s n m x = store_bytes m d (load_bytes m s n) x"
    by (auto simp: memmove_def memcpy_byte memcpy_down_byte store_bytes_def load_bytes_def)
qed

lemma strncpy_copy_short:
  assumes "cstr m s cs" and "length cs < n" and "s + length cs < d \<or> d + length cs < s"
  shows "strncpy_copy d s n m = (d + length cs + 1, n - length cs, store_bytes m d (cs @ [0]))"
  using assms
proof (induction cs arbitrary: d s n m)
  case Nil
  then show ?case by (cases n) (auto simp: store_bytes_def fun_eq_iff)
next
  case (Cons c cs)
  obtain k where n: "n = Suc k" using Cons.prems(2) by (cases n) auto
  have "cstr (m(d := c)) (s + 1) cs = cstr m (s + 1) cs"
    by (rule cstr_cong) (use Cons.prems(3) in auto)
  then have "strncpy_copy (d + 1) (s + 1) k (m(d := c))
      = (d + 1 + length cs + 1, k - length cs, store_bytes (m(d := c)) (d + 1) (cs @ [0]))"
    using Cons.prems n by (intro Cons.IH) (auto simp del: fun_upd_apply)
  then show ?case using n Cons.prems(1) by (simp add: store_bytes_Cons)
qed

lemma strncpy_copy_long:
  assumes "cstr m s cs" and "n \<le> length cs" and "s + length cs < d \<or> d + length cs < s"
  shows "strncpy_copy d s n m = (d + n, 0, store_bytes m d (take n cs))"
  using assms
proof (induction n arbitrary: d s cs m)
  case (Suc n)
  obtain c cs' where cs: "cs = c # cs'" using Suc.prems(2) by (cases cs) auto
  have "cstr (m(d := c)) (s + 1) cs' = cstr m (s + 1) cs'"
    by (rule cstr_cong) (use Suc.prems(3) cs in auto)
  then have "strncpy_copy (d + 1) (s + 1) n (m(d := c)) = (d + 1 + n, 0, store_bytes (m(d := c)) (d + 1) (take n cs'))"
    using Suc.prems cs by (intro Suc.IH) (auto simp del: fun_upd_apply)
  then show ?case using Suc.prems(1) cs by (simp add: store_bytes_Cons)
qed simp

lemma store_fill: "fill (store_bytes m d bs) (d + length bs) n 0 = store_bytes m d (bs @ replicate n 0)"
  by (auto simp: fill_def store_bytes_def fun_eq_iff nth_append)

text \<open>
  C25. \<^verbatim>\<open>strncpy\<close> of a string that does not overlap its destination writes exactly \<open>n\<close> bytes and no
  terminator when the string has at least \<open>n\<close> characters, and \<open>n + 1\<close> bytes otherwise: the string
  and zeros up to and including one byte past the \<open>n\<close> that the C standard allows.
\<close>

theorem strncpy_bytes:
  assumes "cstr m s cs" and "s + length cs < d \<or> d + length cs < s"
  shows "strncpy d s n m = (if n \<le> length cs then store_bytes m d (take n cs)
    else store_bytes m d (cs @ replicate (n + 1 - length cs) 0))"
proof (cases "n \<le> length cs")
  case True
  then show ?thesis using strncpy_copy_long[OF assms(1) True assms(2)] by (simp add: strncpy_def)
next
  case False
  then have "strncpy_copy d s n m = (d + length (cs @ [0]), n - length cs, store_bytes m d (cs @ [0]))"
    using strncpy_copy_short[OF assms(1) _ assms(2)] by simp
  moreover have "[0] @ replicate (n - length cs) 0 = replicate (n + 1 - length cs) (0 :: u8)"
    using False by (simp add: Suc_diff_le replicate_append_same)
  ultimately show ?thesis
    using False store_fill[of m d "cs @ [0]" "n - length cs"] by (simp add: strncpy_def memset_fill)
qed

theorem strncpy_bytes_witness:
  "strncpy 100 0 4 ((\<lambda>_. 7)(0 := 65, 1 := 66, 2 := 0)) 104 = 0"
  using strncpy_bytes[of "(\<lambda>_. 7)(0 := 65, 1 := 66, 2 := 0)" 0 "[65, 66]" 100 4] by (simp add: store_bytes_def)

section \<open>Numbers\<close>

text \<open>The digits of a number, most significant first.\<close>

fun dig :: "nat \<Rightarrow> nat \<Rightarrow> u8 list" where
  "dig b n = (if n = 0 \<or> b < 2 then [] else dig b (n div b) @ [utoa_digits ! (n mod b)])"

declare dig.simps [simp del]

lemma dig_0 [simp]: "dig b 0 = []"
  by (simp add: dig.simps)

lemma dig_length: "2 \<le> b \<Longrightarrow> n < b ^ k \<Longrightarrow> length (dig b n) \<le> k"
proof (induction k arbitrary: n)
  case (Suc k)
  have "length (dig b (n div b)) \<le> k"
    using Suc.prems by (intro Suc.IH) (auto simp: less_mult_imp_div_less mult.commute)
  then show ?case by (subst dig.simps) auto
qed simp

lemma utoa_digits_nonzero: "i < 16 \<Longrightarrow> utoa_digits ! i \<noteq> 0"
proof -
  have "\<forall>i \<in> set [0..<16]. utoa_digits ! i \<noteq> 0" by (simp add: utoa_digits_def upt_rec)
  then show "i < 16 \<Longrightarrow> ?thesis" by simp
qed

lemma dig_nonzero: "b \<le> 16 \<Longrightarrow> 0 \<notin> set (dig b n)"
proof (induction b n rule: dig.induct)
  case (1 b n)
  have "utoa_digits ! (n mod b) \<noteq> 0" if "2 \<le> b" using 1(2) that by (intro utoa_digits_nonzero) (simp add: le_trans[OF _ 1(2)] less_le_trans[OF mod_less_divisor])
  then show ?case using 1 by (subst dig.simps) auto
qed

lemma utoa_loop_dig:
  assumes "2 \<le> b" and "b \<le> 16" and "length (dig b (unat v)) \<le> i"
  shows "\<exists>tmp'. utoa_loop tmp i v (of_nat b) = Some (tmp', i - length (dig b (unat v)))
    \<and> map tmp' [i - length (dig b (unat v))..<i] = dig b (unat v) \<and> (\<forall>j \<ge> i. tmp' j = tmp j)"
  using assms(3)
proof (induction "unat v" arbitrary: v i tmp rule: less_induct)
  case less
  show ?case
  proof (cases "v = 0")
    case True
    then show ?thesis by (subst utoa_loop.simps) simp
  next
    case False
    have b: "unat (of_nat b :: u64) = b" using assms(2) by (intro unat_of_nat64) simp
    then have b0: "(of_nat b :: u64) \<noteq> 0" using assms(1) by (auto simp: unat_eq_zero[symmetric] simp del: unat_eq_zero)
    have vm: "unat (v mod of_nat b) = unat v mod b" "unat (v div of_nat b) = unat v div b"
      by (simp_all add: unat_mod unat_div b)
    have ds: "dig b (unat v) = dig b (unat v div b) @ [utoa_digits ! (unat v mod b)]"
      using False assms(1) by (subst dig.simps) (simp add: unat_eq_zero)
    have mb: "unat v mod b < 16" using assms(1,2) by (intro less_le_trans[OF mod_less_divisor]) auto
    let ?tmp = "tmp(i - 1 := utoa_digits ! (unat v mod b))"
    have lt: "unat (v div of_nat b) < unat v" using vm(2) False assms(1) by (simp add: unat_gt_0 div_less_dividend)
    have i: "length (dig b (unat (v div of_nat b))) \<le> i - 1" "0 < i" using less.prems ds vm(2) by auto
    obtain tmp' where r: "utoa_loop ?tmp (i - 1) (v div of_nat b) (of_nat b) = Some (tmp', i - 1 - length (dig b (unat v div b)))"
      "map tmp' [i - 1 - length (dig b (unat v div b))..<i - 1] = dig b (unat v div b)" "\<forall>j \<ge> i - 1. tmp' j = ?tmp j"
      using less.hyps[OF lt i(1), of ?tmp] vm(2) by auto
    have step: "utoa_loop tmp i v (of_nat b) = utoa_loop ?tmp (i - 1) (v div of_nat b) (of_nat b)"
      using False b0 i(2) mb by (subst utoa_loop.simps) (simp add: word_less_nat_alt vm(1))
    have "[i - length (dig b (unat v))..<i] = [i - 1 - length (dig b (unat v div b))..<i - 1] @ [i - 1]"
      using i less.prems ds upt_Suc_append[of "i - 1 - length (dig b (unat v div b))" "i - 1"] by simp
    then show ?thesis using r step ds i(2) by auto
  qed
qed

lemma utoa64_str_dig:
  assumes "2 \<le> b" and "b \<le> 16"
  shows "utoa64_str v (of_nat b) = Some (if v = 0 then [48] else dig b (unat v))"
proof (cases "v = 0")
  case False
  have "unat v < 2 ^ 64" using unsigned_less[of v] by simp
  also have "(2::nat) ^ 64 \<le> b ^ 64" using assms(1) by (rule power_mono) simp
  finally have "length (dig b (unat v)) \<le> 67" using dig_length[OF assms(1), of "unat v" 64] by simp
  from utoa_loop_dig[OF assms this, of "\<lambda>_. 0"] obtain tmp' where
    t: "utoa_loop (\<lambda>_. 0) 67 v (of_nat b) = Some (tmp', 67 - length (dig b (unat v)))"
      "map tmp' [67 - length (dig b (unat v))..<67] = dig b (unat v)" "tmp' 67 = 0" by auto
  have sc: "scast (of_nat b :: u32) = (of_nat b :: u64)"
    using assms(2) by (simp add: scast_eq signed_of_nat signed_take_bit_int_eq_self)
  have "map tmp' [67 - length (dig b (unat v))..<68] = dig b (unat v) @ [0]"
    using t(2,3) upt_Suc_append[of "67 - length (dig b (unat v))" 67] by simp
  then show ?thesis
    using False t(1) dig_nonzero[OF assms(2), of "unat v"]
    by (simp add: utoa64_str_def sc takeWhile_append2[of _ "\<lambda>c. c \<noteq> 0"] del: map_append)
       (metis (mono_tags, lifting) append_Nil2 takeWhile.simps takeWhile_append2)
qed (simp add: utoa64_str_def)

lemma utoa64_str_10: "utoa64_str v 10 = Some (if v = 0 then [48] else dig 10 (unat v))"
  and utoa64_str_16: "utoa64_str v 16 = Some (if v = 0 then [48] else dig 16 (unat v))"
  using utoa64_str_dig[of 10 v] utoa64_str_dig[of 16 v] by simp_all

text \<open>Reading digits back.\<close>

definition read_digits :: "u32 \<Rightarrow> u8 list \<Rightarrow> u32" where
  "read_digits r ds = foldl (\<lambda>r c. r * 10 + (ucast c - 48)) r ds"

lemma dig10_step:
  assumes "i < 10"
  shows "is_digit (utoa_digits ! i)" and "(ucast (utoa_digits ! i) - 48 :: u32) = of_nat i"
proof -
  have "\<forall>i \<in> set [0..<10]. is_digit (utoa_digits ! i) \<and> (ucast (utoa_digits ! i) - 48 :: u32) = of_nat i"
    by (simp add: utoa_digits_def upt_rec is_digit_def)
  then show "is_digit (utoa_digits ! i)" "(ucast (utoa_digits ! i) - 48 :: u32) = of_nat i" using assms by simp_all
qed

lemma dig10_digits: "\<forall>c \<in> set (dig 10 n). is_digit c"
proof (induction n rule: less_induct)
  case (less n)
  show ?case
  proof (cases "n = 0")
    case False
    then show ?thesis using less[of "n div 10"] dig10_step(1)[of "n mod 10"] by (subst dig.simps) auto
  qed simp
qed

lemma read_dig10: "read_digits 0 (dig 10 n) = of_nat n"
proof (induction n rule: less_induct)
  case (less n)
  show ?case
  proof (cases "n = 0")
    case False
    have "read_digits 0 (dig 10 n) = of_nat (n div 10) * 10 + of_nat (n mod 10)"
      using less[of "n div 10"] False dig10_step(2)[of "n mod 10"]
      by (subst dig.simps) (simp add: read_digits_def)
    also have "\<dots> = of_nat (n div 10 * 10 + n mod 10)" by (simp only: of_nat_add of_nat_mult of_nat_numeral)
    finally show ?thesis by simp
  qed (simp add: read_digits_def)
qed

lemma atoi_loop_digits: "cstr m s ds \<Longrightarrow> \<forall>c \<in> set ds. is_digit c \<Longrightarrow> atoi_loop m s r = Some (read_digits r ds)"
  by (induction ds arbitrary: s r) (subst atoi_loop.simps, simp add: read_digits_def is_digit_def)+

lemma atoi_plain:
  assumes "cstr m s ds" and "\<forall>c \<in> set ds. is_digit c" and "ds \<noteq> []"
  shows "atoi m s = Some (read_digits 0 ds)"
proof -
  have "is_digit (m s)" using assms by (cases ds) auto
  then have "m s \<noteq> 32" "m s \<noteq> 45" "m s \<noteq> 43" by (auto simp: is_digit_def)
  moreover from this have "skip_spaces m s = Some s" by (subst skip_spaces.simps) simp
  ultimately show ?thesis using atoi_loop_digits[OF assms(1,2)] by (simp add: atoi_def)
qed

lemma atoi_minus:
  assumes "m s = 45" and "cstr m (s + 1) ds" and "\<forall>c \<in> set ds. is_digit c"
  shows "atoi m s = Some (- read_digits 0 ds)"
proof -
  have "skip_spaces m s = Some s" using assms(1) by (subst skip_spaces.simps) simp
  then show ?thesis using atoi_loop_digits[OF assms(2,3)] assms(1) by (simp add: atoi_def)
qed

lemma utoa64_10:
  "\<exists>m' ds. utoa64 v buf 10 m = Some m' \<and> cstr m' buf ds \<and> ds \<noteq> [] \<and> (\<forall>c \<in> set ds. is_digit c)
     \<and> read_digits 0 ds = of_nat (unat v) \<and> (\<forall>x < buf. m' x = m x)"
proof -
  let ?ds = "if v = 0 then [48] else dig 10 (unat v)"
  have ne: "?ds \<noteq> []" by (subst dig.simps) (simp add: unat_eq_zero)
  have nz: "0 \<notin> set ?ds" using dig_nonzero[of 10 "unat v"] by auto
  have dg: "\<forall>c \<in> set ?ds. is_digit c" using dig10_digits[of "unat v"] by (auto simp: is_digit_def)
  have "read_digits 0 ?ds = of_nat (unat v)" using read_dig10[of "unat v"] by (simp add: read_digits_def)
  then show ?thesis
    using cstr_store[OF nz, of m buf] ne dg utoa64_str_10[of v]
    by (intro exI[of _ "store_bytes m buf (?ds @ [0])"] exI[of _ ?ds]) (simp add: utoa64_def store_bytes_other)
qed

lemma ucast_of_int: "(ucast (of_int k :: u64) :: u32) = of_int k"
proof (rule bit_word_eqI)
  fix n assume "n < LENGTH(32)"
  then show "bit (ucast (of_int k :: u64) :: u32) n \<longleftrightarrow> bit (of_int k :: u32) n" by (simp add: bit_simps)
qed


end
