(* ===== verification/Klibc_Format.thy ===== *)
theory Klibc_Format
  imports Klibc_Props
begin

text \<open>
  Formatted output. The reference formatter works on byte lists and knows neither memory nor a
  limit; \<^verbatim>\<open>vsnprintf\<close> writes exactly its output, cut to the size of the buffer and terminated.
\<close>

section \<open>Reference formatter\<close>

fun pad_list :: "u8 list \<Rightarrow> int \<Rightarrow> int \<times> u8 list" where
  "pad_list [] pad = (pad, [])"
| "pad_list (c # cs) pad = (if is_digit c then pad_list cs (pad_step pad c) else (pad, c # cs))"

text \<open>
  The prefix \<^verbatim>\<open>ll\<close> asks for 64 bits. A single \<^verbatim>\<open>l\<close> is not accepted: the comment in the code promises 64 bits for it, the
  code reads 32.
\<close>

definition prefix_list :: "u8 list \<Rightarrow> (bool \<times> u8 list) option" where
  "prefix_list cs = (case cs of c # d # r \<Rightarrow> if c = 108 \<and> d = 108 then Some (True, r) else if c = 108 then None else Some (False, cs)
     | [c] \<Rightarrow> if c = 108 then None else Some (False, cs) | [] \<Rightarrow> Some (False, []))"

definition dir_list :: "u8 list \<Rightarrow> (u8 \<times> int \<times> bool \<times> u8 list) option" where
  "dir_list cs =
     (let (padc, r1) = (case cs of c # r \<Rightarrow> if c = 48 then (48, r) else (32, cs) | [] \<Rightarrow> (32, []));
          (pad, r2) = pad_list r1 0
      in map_option (\<lambda>(ll, r3). (padc, pad, ll, r3)) (prefix_list r2))"

definition num_ref :: "u64 \<Rightarrow> nat \<Rightarrow> int \<Rightarrow> u8 \<Rightarrow> u8 list" where
  "num_ref v b pad padc =
     (let ds = (if v = 0 then [48] else dig b (unat v))
      in replicate (nat (pad - int (length ds))) padc @ ds)"

fun conv_ref :: "(u64 \<Rightarrow> u8 list option) \<Rightarrow> u8 \<Rightarrow> u8 \<Rightarrow> int \<Rightarrow> bool \<Rightarrow> u64 list \<Rightarrow> (u8 list \<times> u64 list) option" where
  "conv_ref str k padc pad ll [] =
     (if k \<in> {100, 117, 120, 112, 115, 99} then None else Some ([k], []))"
| "conv_ref str k padc pad ll (a # ap) =
     (if k = 100 then
        let v = (if ll then a else scast (ucast a :: u32))
        in Some (if sint v < 0 then 45 # num_ref (- v) 10 (if 0 < pad then pad - 1 else pad) padc
                 else num_ref v 10 pad padc, ap)
      else if k = 117 then Some (num_ref (if ll then a else ucast (ucast a :: u32)) 10 pad padc, ap)
      else if k = 120 then Some (num_ref (if ll then a else ucast (ucast a :: u32)) 16 pad padc, ap)
      else if k = 112 then None
      else if k = 115 then map_option (\<lambda>s. (s, ap)) (str a)
      else if k = 99 then Some ([ucast a], ap)
      else Some ([k], a # ap))"

lemma pad_list_length: "length (snd (pad_list cs pad)) \<le> length cs"
  by (induction cs pad rule: pad_list.induct) auto

lemma dir_list_length: "dir_list cs = Some (padc, pad, ll, r) \<Longrightarrow> length r \<le> length cs"
  using pad_list_length[of "tl cs" 0] pad_list_length[of cs 0]
  by (auto simp: dir_list_def prefix_list_def Let_def split: list.splits prod.splits if_splits)

function fmt_ref :: "(u64 \<Rightarrow> u8 list option) \<Rightarrow> u8 list \<Rightarrow> u64 list \<Rightarrow> u8 list option" where
  "fmt_ref str [] ap = Some []"
| "fmt_ref str (c # cs) ap =
     (if c \<noteq> 37 then map_option ((#) c) (fmt_ref str cs ap)
      else case dir_list cs of
        None \<Rightarrow> None
      | Some (padc, pad, ll, []) \<Rightarrow> None
      | Some (padc, pad, ll, k # r) \<Rightarrow>
          (case conv_ref str k padc pad ll ap of None \<Rightarrow> None
           | Some (bs, ap1) \<Rightarrow> map_option ((@) bs) (fmt_ref str r ap1)))"
  by pat_completeness auto
termination
  by (relation "measure (\<lambda>(_, cs, _). length cs)") (auto dest: dir_list_length intro: le_imp_less_Suc less_imp_le)

declare fmt_ref.simps(2) [simp del]

section \<open>Output with a limit\<close>

definition puts :: "addr \<Rightarrow> nat \<Rightarrow> u8 list \<Rightarrow> mem \<times> nat \<Rightarrow> mem \<times> nat" where
  "puts buf sz bs mp = foldl (\<lambda>(m, pos) c. putc buf sz c m pos) mp bs"

lemma puts_simps [simp]:
  "puts buf sz [] mp = mp"
  "puts buf sz (c # cs) (m, pos) = puts buf sz cs (putc buf sz c m pos)"
  by (simp_all add: puts_def)

lemma puts_append: "puts buf sz (as @ bs) mp = puts buf sz bs (puts buf sz as mp)"
  by (simp add: puts_def)

lemma puts_full: "\<not> pos + 1 < sz \<Longrightarrow> puts buf sz bs (m, pos) = (m, pos)"
  by (induction bs) (auto simp: putc_def)

lemma puts_eq:
  "pos < sz \<Longrightarrow> puts buf sz bs (m, pos)
     = (store_bytes m (buf + pos) (take (sz - 1 - pos) bs), pos + min (length bs) (sz - 1 - pos))"
proof (induction bs arbitrary: m pos)
  case (Cons c cs)
  show ?case
  proof (cases "pos + 1 < sz")
    case True
    obtain k where k: "sz - 1 - pos = Suc k" "sz - 1 - (pos + 1) = k" using True by (metis Suc_diff_Suc add.commute diff_diff_left less_diff_conv plus_1_eq_Suc)
    show ?thesis using Cons.IH[of "pos + 1" "m(buf + pos := c)"] True k by (simp add: putc_def store_bytes_Cons del: fun_upd_apply)
  next
    case False
    then show ?thesis using puts_full[of pos sz buf "c # cs" m] Cons.prems by (simp add: putc_def)
  qed
qed simp

lemma puts_other:
  assumes "pos < sz" and "x < buf \<or> buf + sz \<le> x"
  shows "fst (puts buf sz bs (m, pos)) x = m x" and "snd (puts buf sz bs (m, pos)) < sz"
  using assms by (auto simp: puts_eq intro!: store_bytes_other)

lemma puts_pos: "pos < sz \<Longrightarrow> snd (puts buf sz bs (m, pos)) < sz"
  by (simp add: puts_eq)

lemma fmt_local_puts: "fmt_local buf sz bs m pos = puts buf sz bs (m, pos)"
proof (induction bs arbitrary: m pos)
  case (Cons c cs)
  then show ?case by (simp add: putc_def puts_full del: fun_upd_apply)
qed simp

lemma fmt_pad_puts: "fmt_pad buf sz padc len pad m pos = puts buf sz (replicate (nat (pad - len)) padc) (m, pos)"
proof (induction buf sz padc len pad m pos rule: fmt_pad.induct)
  case (1 buf sz padc len pad m pos)
  show ?case
  proof (cases "len < pad \<and> pos + 1 < sz")
    case True
    then have "nat (pad - len) = Suc (nat (pad - 1 - len))" by arith
    then show ?thesis using 1[OF True] True by (subst fmt_pad.simps) (simp add: putc_def del: fun_upd_apply)
  next
    case False
    then show ?thesis by (subst fmt_pad.simps) (auto simp: puts_full)
  qed
qed

lemma fmt_string_puts:
  assumes "cstr m s cs" and "s + length cs < buf \<or> buf + sz \<le> s"
  shows "fmt_string buf sz s m pos = puts buf sz cs (m, pos)"
  using assms
proof (induction cs arbitrary: s m pos)
  case Nil
  then show ?case by (subst fmt_string.simps) simp
next
  case (Cons c cs)
  show ?case
  proof (cases "pos + 1 < sz")
    case True
    have "cstr (m(buf + pos := c)) (s + 1) cs = cstr m (s + 1) cs"
      by (rule cstr_cong) (use Cons.prems(2) True in auto)
    then have "fmt_string buf sz (s + 1) (m(buf + pos := c)) (pos + 1) = puts buf sz cs (m(buf + pos := c), pos + 1)"
      using Cons.prems by (intro Cons.IH) (auto simp del: fun_upd_apply)
    then show ?thesis using Cons.prems(1) True by (subst fmt_string.simps) (simp add: putc_def)
  next
    case False
    then show ?thesis using puts_full[OF False, of buf "c # cs" m] by (subst fmt_string.simps) simp
  qed
qed

lemma fmt_uint_puts:
  "fmt_uint buf sz v 10 pad padc m pos = Some (puts buf sz (num_ref v 10 pad padc) (m, pos))"
  "fmt_uint buf sz v 16 pad padc m pos = Some (puts buf sz (num_ref v 16 pad padc) (m, pos))"
  by (simp_all add: fmt_uint_def utoa64_str_10 utoa64_str_16 fmt_pad_puts fmt_local_puts num_ref_def Let_def
      puts_append case_prod_beta)

section \<open>The loop against the reference\<close>

lemma pad_loop_list:
  "cstr m f cs \<Longrightarrow> \<exists>g. pad_loop m f pad = Some (fst (pad_list cs pad), g) \<and> cstr m g (snd (pad_list cs pad))
     \<and> f \<le> g \<and> g + length (snd (pad_list cs pad)) = f + length cs"
proof (induction cs arbitrary: f pad)
  case Nil
  then show ?case by (subst pad_loop.simps) (simp add: is_digit_def)
next
  case (Cons c cs)
  show ?case
  proof (cases "is_digit c")
    case True
    then obtain g where "pad_loop m (f + 1) (pad_step pad c) = Some (fst (pad_list cs (pad_step pad c)), g)"
      "cstr m g (snd (pad_list cs (pad_step pad c)))" "f + 1 \<le> g"
      "g + length (snd (pad_list cs (pad_step pad c))) = f + 1 + length cs"
      using Cons.IH[of "f + 1" "pad_step pad c"] Cons.prems by auto
    then show ?thesis using Cons.prems True by (subst pad_loop.simps) auto
  next
    case False
    then show ?thesis using Cons.prems by (subst pad_loop.simps) auto
  qed
qed

lemma directive_list:
  assumes "cstr m f cs" and "dir_list cs = Some (padc, pad, ll, r)"
  shows "\<exists>g. directive m f = Some (padc, pad, ll, g) \<and> cstr m g r \<and> f \<le> g \<and> g + length r = f + length cs"
proof -
  define f1 r1 where "f1 = (if m f = 48 then f + 1 else f)" and "r1 = (if m f = 48 then tl cs else cs)"
  have 1: "cstr m f1 r1" "f1 + length r1 = f + length cs" "f \<le> f1"
    using assms(1) by (cases cs; auto simp: f1_def r1_def)+
  obtain g where g: "pad_loop m f1 0 = Some (fst (pad_list r1 0), g)" "cstr m g (snd (pad_list r1 0))" "f1 \<le> g"
      "g + length (snd (pad_list r1 0)) = f1 + length r1" using pad_loop_list[OF 1(1), of 0] by blast
  define r2 where "r2 = snd (pad_list r1 0)"
  have dl: "padc = (if m f = 48 then 48 else 32)" "pad = fst (pad_list r1 0)" "prefix_list r2 = Some (ll, r)"
    using assms by (cases cs; auto simp: dir_list_def r1_def r2_def Let_def split: prod.splits)+
  have dr: "directive m f = Some (if m g = 108 \<and> m (g + 1) = 108 then (padc, pad, True, g + 2)
      else if m g = 108 then (padc, pad, False, g + 1) else (padc, pad, False, g))"
    using g(1) by (auto simp: directive_def f1_def dl(1,2) Let_def)
  show ?thesis
    using dr dl(3) g(2-4) 1 unfolding r2_def[symmetric]
    by (auto simp: prefix_list_def split: list.splits if_splits)
qed

text \<open>The string arguments: readable and outside the buffer.\<close>

definition strs_ok :: "addr \<Rightarrow> nat \<Rightarrow> (u64 \<Rightarrow> u8 list option) \<Rightarrow> mem \<Rightarrow> bool" where
  "strs_ok buf sz str m \<longleftrightarrow> (\<forall>a cs. str a = Some cs \<longrightarrow> cstr m (unat a) cs
     \<and> (unat a + length cs < buf \<or> buf + sz \<le> unat a))"

lemma convert_ref:
  assumes "strs_ok buf sz str m" and "conv_ref str k padc pad ll ap = Some (bs, ap1)"
  shows "convert buf sz k padc pad ll ap m pos
    = Some (fst (puts buf sz bs (m, pos)), snd (puts buf sz bs (m, pos)), ap1)"
proof (cases ap)
  case Nil
  then show ?thesis using assms(2) by (auto simp: convert_def case_prod_beta split: if_splits)
next
  case (Cons a ap')
  consider "k = 100" | "k = 117" | "k = 120" | "k = 112" | "k = 115" | "k = 99" | "k \<notin> {100, 117, 120, 112, 115, 99}" by blast
  then show ?thesis
  proof cases
    case 5
    then obtain s where "str a = Some s" "bs = s" "ap1 = ap'" using assms(2) Cons by auto
    then show ?thesis using 5 Cons assms(1) fmt_string_puts[of m "unat a" s buf sz pos]
      by (simp add: convert_def strs_ok_def case_prod_beta)
  qed (use assms(2) Cons in \<open>auto simp: convert_def fmt_uint_puts case_prod_beta Let_def split: if_splits\<close>)
qed

lemma strs_ok_puts: "strs_ok buf sz str m \<Longrightarrow> pos < sz \<Longrightarrow> strs_ok buf sz str (fst (puts buf sz bs (m, pos)))"
  unfolding strs_ok_def
proof (intro allI impI)
  fix a cs assume ok: "\<forall>a cs. str a = Some cs \<longrightarrow> cstr m (unat a) cs \<and> (unat a + length cs < buf \<or> buf + sz \<le> unat a)"
    and p: "pos < sz" and a: "str a = Some cs"
  have "unat a + length cs < buf \<or> buf + sz \<le> unat a" using ok a by blast
  then have "cstr (fst (puts buf sz bs (m, pos))) (unat a) cs = cstr m (unat a) cs"
    using p by (intro cstr_cong puts_other(1)) auto
  then show "cstr (fst (puts buf sz bs (m, pos))) (unat a) cs \<and> (unat a + length cs < buf \<or> buf + sz \<le> unat a)"
    using ok a by blast
qed

lemma vsn_loop_ref:
  assumes "cstr m f cs" and "f + length cs < buf \<or> buf + sz \<le> f" and "strs_ok buf sz str m"
    and "fmt_ref str cs ap = Some out" and "pos < sz"
  shows "vsn_loop buf sz f ap m pos = Some (puts buf sz out (m, pos))"
  using assms
proof (induction str cs ap arbitrary: f m pos out rule: fmt_ref.induct)
  case (1 str ap)
  then show ?case by (subst vsn_loop.simps) simp
next
  case (2 str c cs ap)
  show ?case
  proof (cases "pos + 1 < sz")
    case False
    then show ?thesis by (subst vsn_loop.simps) (simp add: puts_full)
  next
    case room: True
    have keep: "cstr (fst (puts buf sz bs (m, pos))) g r = cstr m g r" if "f + 1 \<le> g" "g + length r = f + length (c # cs)" for g r bs
      by (rule cstr_cong) (use "2.prems"(2,5) that in \<open>auto intro!: puts_other(1)\<close>)
    show ?thesis
    proof (cases "c = 37")
      case False
      obtain o' where o': "fmt_ref str cs ap = Some o'" "out = c # o'" using "2.prems"(4) False by (auto simp: fmt_ref.simps(2))
      have p: "puts buf sz [c] (m, pos) = (m(buf + pos := c), pos + 1)" using room by (simp add: putc_def)
      have "vsn_loop buf sz (f + 1) ap (m(buf + pos := c)) (pos + 1) = Some (puts buf sz o' (m(buf + pos := c), pos + 1))"
        using "2.IH"(1)[OF False, of "m(buf + pos := c)" "f + 1" o' "pos + 1"] "2.prems"(1-3,5) o'(1) room
          keep[of "f + 1" cs "[c]"] strs_ok_puts[OF "2.prems"(3,5), of "[c]"] unfolding p by (auto simp del: fun_upd_apply)
      then show ?thesis using "2.prems"(1) False room o'(2) by (subst vsn_loop.simps) (simp add: putc_def del: fun_upd_apply)
    next
      case True
      obtain padc pad ll k r bs ap1 o' where d: "dir_list cs = Some (padc, pad, ll, k # r)"
        and cv: "conv_ref str k padc pad ll ap = Some (bs, ap1)" and o': "fmt_ref str r ap1 = Some o'" "out = bs @ o'"
        using "2.prems"(4) True by (auto simp: fmt_ref.simps(2) split: prod.splits list.splits option.splits)
      obtain g where g: "directive m (f + 1) = Some (padc, pad, ll, g)" "cstr m g (k # r)" "f + 1 \<le> g"
          "g + length (k # r) = f + 1 + length cs" using directive_list[OF _ d, of m "f + 1"] "2.prems"(1) by auto
      define m1 pos1 where "m1 = fst (puts buf sz bs (m, pos))" and "pos1 = snd (puts buf sz bs (m, pos))"
      have "cstr m1 (g + 1) r" unfolding m1_def by (subst keep) (use g in auto)
      moreover have "strs_ok buf sz str m1" unfolding m1_def by (rule strs_ok_puts[OF "2.prems"(3,5)])
      moreover have "pos1 < sz" unfolding pos1_def by (rule puts_pos[OF "2.prems"(5)])
      moreover have "g + 1 + length r < buf \<or> buf + sz \<le> g + 1" using g(3,4) "2.prems"(2) by auto
      ultimately have "vsn_loop buf sz (g + 1) ap1 m1 pos1 = Some (puts buf sz o' (m1, pos1))"
        using "2.IH"(2)[OF _ d refl refl refl refl cv refl, of m1 "g + 1" o' pos1] True o'(1) by simp
      then show ?thesis
        using "2.prems"(1) True room g(1,2) convert_ref[OF "2.prems"(3) cv, of pos] o'(2)
        by (subst vsn_loop.simps) (simp add: m1_def pos1_def puts_append)
    qed
  qed
qed

text \<open>
  C27. Formatted output is exact and stays in its buffer: for every format that the reference
  formatter accepts (\<^verbatim>\<open>%d %u %x\<close> with or without the prefix \<^verbatim>\<open>ll\<close>, \<^verbatim>\<open>%s %c %%\<close>, width and zero padding; no \<^verbatim>\<open>%p\<close>,
  no prefix of a single \<^verbatim>\<open>l\<close>, no incomplete directive, enough arguments), \<^verbatim>\<open>vsnprintf\<close> returns, writes the reference output cut to \<open>size - 1\<close> bytes and a terminator, returns its length and changes no
  byte outside the buffer.
\<close>

theorem vsnprintf_reference:
  assumes "0 < sz" and "cstr m f cs" and "f + length cs < buf \<or> buf + sz \<le> f"
    and "strs_ok buf sz str m" and "fmt_ref str cs ap = Some out"
  shows "\<exists>m'. vsnprintf buf sz f ap m = Some (min (length out) (sz - 1), m')
    \<and> load_bytes m' buf (min (length out) (sz - 1)) = take (sz - 1) out
    \<and> m' (buf + min (length out) (sz - 1)) = 0
    \<and> (\<forall>x. x < buf \<or> buf + sz \<le> x \<longrightarrow> m' x = m x)"
proof -
  let ?n = "min (length out) (sz - 1)" and ?m1 = "store_bytes m buf (take (sz - 1) out)"
  have "vsn_loop buf sz f ap m 0 = Some (?m1, ?n)"
    using vsn_loop_ref[OF assms(2-5,1)] puts_eq[OF assms(1), of buf out m] by simp
  then have r: "vsnprintf buf sz f ap m = Some (?n, ?m1(buf + ?n := 0))"
    using assms(1) by (simp add: vsnprintf_def)
  have "load_bytes (?m1(buf + ?n := 0)) buf ?n = load_bytes ?m1 buf ?n" by (rule load_bytes_cong) auto
  also have "\<dots> = take (sz - 1) out" by (rule load_store_bytes_same) simp
  finally have l: "load_bytes (?m1(buf + ?n := 0)) buf ?n = take (sz - 1) out" .
  have o: "(?m1(buf + ?n := 0)) x = m x" if "x < buf \<or> buf + sz \<le> x" for x
  proof -
    have "buf + ?n \<noteq> x" "x < buf \<or> buf + length (take (sz - 1) out) \<le> x" using that assms(1) by auto
    then show ?thesis by (simp add: store_bytes_other)
  qed
  show ?thesis using r l o by (intro exI[of _ "?m1(buf + ?n := 0)"]) simp
qed

theorem vsnprintf_reference_witness:
  "\<exists>m'. vsnprintf 1000 16 10 [of_int (- 5)] (store_bytes (\<lambda>_. 0) 10 [105, 100, 61, 37, 48, 52, 100]) = Some (7, m')
     \<and> load_bytes m' 1000 7 = [105, 100, 61, 45, 48, 48, 53]"
proof -
  let ?fmt = "[105, 100, 61, 37, 48, 52, 100] :: u8 list"
  let ?m = "store_bytes (\<lambda>_. 0) 10 ?fmt"
  have rep: "replicate 2 (48 :: u8) = [48, 48]" by (simp add: numeral_2_eq_2)
  have "cstr ?m 10 ?fmt" by (simp add: store_bytes_def)
  moreover have "strs_ok 1000 16 (\<lambda>_. None) ?m" by (simp add: strs_ok_def)
  moreover have "fmt_ref (\<lambda>_. None) ?fmt [of_int (- 5)] = Some [105, 100, 61, 45, 48, 48, 53]"
    by (simp add: fmt_ref.simps(2) dir_list_def prefix_list_def is_digit_def pad_step_def num_ref_def dig.simps utoa_digits_def rep)
  ultimately show ?thesis using vsnprintf_reference[of 16 ?m 10 ?fmt 1000 "\<lambda>_. None" "[of_int (- 5)]"]
    by (auto simp: eval_nat_numeral)
qed

end
