(* ===== verification/Vfs.thy ===== *)
theory Vfs
  imports Prelude
begin

text \<open>
  The virtual file system layer, \<^verbatim>\<open>kernel/fs/vfs.c\<close>: path sanitising, the mount table, path
  resolution and the dispatch through a node's operation table. Paths are strings without NUL; a
  null pointer is \<open>None\<close>. The node type and the operation table of a node are parameters, since
  every file system brings its own.
\<close>

section \<open>State and operations\<close>

definition MAX_MOUNTS :: nat where "MAX_MOUNTS = 32"
definition VFS_NAME_MAX :: nat where "VFS_NAME_MAX = 64"

record ('n, 's) vfs_ops =
  op_read :: "('n \<Rightarrow> u32 \<Rightarrow> u32 \<Rightarrow> 's \<Rightarrow> int \<times> u8 list) option"
  op_write :: "('n \<Rightarrow> u32 \<Rightarrow> u8 list \<Rightarrow> 's \<Rightarrow> (int \<times> 's) option) option"
  op_readdir :: "('n \<Rightarrow> u32 \<Rightarrow> nat \<Rightarrow> 's \<Rightarrow> string option) option"
  op_finddir :: "('n \<Rightarrow> string \<Rightarrow> 's \<Rightarrow> 'n option) option"

type_synonym 'n mount_table = "(string \<times> 'n) list"

definition slash :: char where "slash = CHR ''/''"

lemma drop_comp_shorter:
  "dropWhile (\<lambda>c. c = slash) p \<noteq> [] \<Longrightarrow>
     length (dropWhile (\<lambda>c. c \<noteq> slash) (dropWhile (\<lambda>c. c = slash) p)) < length p"
proof -
  assume ne: "dropWhile (\<lambda>c. c = slash) p \<noteq> []"
  then obtain c q where q: "dropWhile (\<lambda>c. c = slash) p = c # q" by (cases "dropWhile (\<lambda>c. c = slash) p") auto
  have "c \<noteq> slash" using hd_dropWhile[OF ne] q by simp
  have "length (dropWhile (\<lambda>c. c \<noteq> slash) q) \<le> length q" by (rule length_dropWhile_le)
  moreover have "length (c # q) \<le> length p" using length_dropWhile_le[of "\<lambda>c. c = slash" p] q(1) by simp
  ultimately show ?thesis using q \<open>c \<noteq> slash\<close> by simp
qed

text \<open>The component loop of \<^verbatim>\<open>vfs_path_sanitize\<close>: \<open>p\<close> is the rest of the source, \<open>dst\<close> what is written.\<close>

function sanitize_loop :: "nat \<Rightarrow> string \<Rightarrow> string \<Rightarrow> string option" where
  "sanitize_loop dstsz p dst =
     (let p1 = dropWhile (\<lambda>c. c = slash) p
      in if p1 = [] then Some dst
         else let comp = takeWhile (\<lambda>c. c \<noteq> slash) p1; rest = dropWhile (\<lambda>c. c \<noteq> slash) p1
              in if comp = ''.'' then sanitize_loop dstsz rest dst
                 else if comp = ''..'' then None
                 else if 1 < length dst \<and> dstsz - 1 \<le> length dst then None
                 else let dst1 = (if 1 < length dst then dst @ [slash] else dst)
                      in if dstsz \<le> length dst1 + length comp then None
                         else sanitize_loop dstsz rest (dst1 @ comp))"
  by auto

termination
  by (relation "measure (\<lambda>(_, p, _). length p)") (auto simp del: dropWhile_eq_Nil_conv dest: drop_comp_shorter)

declare sanitize_loop.simps [simp del] dropWhile_eq_Nil_conv [simp del]

definition vfs_path_sanitize :: "string option \<Rightarrow> nat \<Rightarrow> string option" where
  "vfs_path_sanitize src dstsz =
     (case src of None \<Rightarrow> None
      | Some s \<Rightarrow> if dstsz < 2 then None
          else (case s of c # p \<Rightarrow> if c \<noteq> slash then None else sanitize_loop dstsz p [slash] | [] \<Rightarrow> None))"

definition vfs_mount :: "string option \<Rightarrow> 'n option \<Rightarrow> 'n mount_table \<Rightarrow> int \<times> 'n mount_table" where
  "vfs_mount path root mounts =
     (case (path, root) of
        (Some p, Some r) \<Rightarrow> if MAX_MOUNTS \<le> length mounts then (-1, mounts) else (0, mounts @ [(take 63 p, r)])
      | _ \<Rightarrow> (-1, mounts))"

text \<open>One component is at most \<open>VFS_NAME_MAX - 1\<close> characters; a longer one is taken in pieces.\<close>

definition walk_comp :: "string \<Rightarrow> string" where
  "walk_comp p = take (VFS_NAME_MAX - 1) (takeWhile (\<lambda>c. c \<noteq> slash) p)"

lemma walk_comp_nonempty: "dropWhile (\<lambda>c. c = slash) p \<noteq> [] \<Longrightarrow> walk_comp (dropWhile (\<lambda>c. c = slash) p) \<noteq> []"
  using hd_dropWhile[of "\<lambda>c. c = slash" p]
  by (cases "dropWhile (\<lambda>c. c = slash) p") (auto simp: walk_comp_def VFS_NAME_MAX_def)

lemma walk_shorter:
  "dropWhile (\<lambda>c. c = slash) p \<noteq> [] \<Longrightarrow>
     length (dropWhile (\<lambda>c. c = slash) p) - length (walk_comp (dropWhile (\<lambda>c. c = slash) p)) < length p"
proof -
  assume ne: "dropWhile (\<lambda>c. c = slash) p \<noteq> []"
  have "0 < length (walk_comp (dropWhile (\<lambda>c. c = slash) p))" using walk_comp_nonempty[OF ne] by simp
  moreover have "0 < length (dropWhile (\<lambda>c. c = slash) p)" using ne by (simp del: dropWhile_eq_Nil_conv)
  moreover have "length (dropWhile (\<lambda>c. c = slash) p) \<le> length p" by (rule length_dropWhile_le)
  ultimately show ?thesis by linarith
qed

function vfs_walk :: "('n \<Rightarrow> string \<Rightarrow> 'n option) \<Rightarrow> 'n \<Rightarrow> string \<Rightarrow> 'n option" where
  "vfs_walk finddir cur path =
     (let p = dropWhile (\<lambda>c. c = slash) path
      in if p = [] then Some cur
         else let comp = walk_comp p; rest = drop (length comp) p
              in if comp = ''.'' then vfs_walk finddir cur rest
                 else if comp = ''..'' then None
                 else (case finddir cur comp of None \<Rightarrow> None | Some n \<Rightarrow> vfs_walk finddir n rest))"
  by auto

termination
  by (relation "measure (\<lambda>(_, _, p). length p)") (auto simp del: dropWhile_eq_Nil_conv dest: walk_shorter)

declare vfs_walk.simps [simp del]

definition mount_matches :: "string \<Rightarrow> string \<Rightarrow> bool" where
  "mount_matches clean mp \<longleftrightarrow> take (length mp) clean = mp
     \<and> (case drop (length mp) clean of [] \<Rightarrow> True | c # _ \<Rightarrow> c = slash)"

definition mount_step :: "string \<Rightarrow> int \<times> 'n option \<Rightarrow> string \<times> 'n \<Rightarrow> int \<times> 'n option" where
  "mount_step clean best m =
     (if int (length (fst m)) \<le> fst best then best
      else if \<not> mount_matches clean (fst m) then best
      else (int (length (fst m)), Some (snd m)))"

definition vfs_open :: "('n \<Rightarrow> string \<Rightarrow> 'n option) \<Rightarrow> 'n mount_table \<Rightarrow> string option \<Rightarrow> 'n option" where
  "vfs_open finddir mounts path =
     (case path of None \<Rightarrow> None
      | Some p \<Rightarrow>
          (case vfs_path_sanitize (Some p) 128 of None \<Rightarrow> None
           | Some clean \<Rightarrow>
               (case foldl (mount_step clean) (-1, None) mounts of
                  (bl, None) \<Rightarrow> None
                | (bl, Some root) \<Rightarrow>
                    let rest = dropWhile (\<lambda>c. c = slash) (drop (nat bl) clean)
                    in if rest = [] then Some root else vfs_walk finddir root rest)))"

definition vfs_read :: "('n \<Rightarrow> ('n, 's) vfs_ops option) \<Rightarrow> 'n option \<Rightarrow> u32 \<Rightarrow> u32 \<Rightarrow> 's \<Rightarrow> int \<times> u8 list" where
  "vfs_read ops n off len s =
     (case n of None \<Rightarrow> (-1, [])
      | Some x \<Rightarrow> (case Option.bind (ops x) op_read of None \<Rightarrow> (-1, []) | Some f \<Rightarrow> f x off len s))"

definition vfs_write :: "('n \<Rightarrow> ('n, 's) vfs_ops option) \<Rightarrow> 'n option \<Rightarrow> u32 \<Rightarrow> u8 list \<Rightarrow> 's \<Rightarrow> (int \<times> 's) option" where
  "vfs_write ops n off bs s =
     (case n of None \<Rightarrow> Some (-1, s)
      | Some x \<Rightarrow> (case Option.bind (ops x) op_write of None \<Rightarrow> Some (-1, s) | Some f \<Rightarrow> f x off bs s))"

definition vfs_readdir :: "('n \<Rightarrow> ('n, 's) vfs_ops option) \<Rightarrow> 'n option \<Rightarrow> u32 \<Rightarrow> nat \<Rightarrow> 's \<Rightarrow> string option" where
  "vfs_readdir ops n idx maxlen s =
     (case n of None \<Rightarrow> None
      | Some x \<Rightarrow> (case Option.bind (ops x) op_readdir of None \<Rightarrow> None | Some f \<Rightarrow> f x idx maxlen s))"

definition vfs_finddir :: "('n \<Rightarrow> ('n, 's) vfs_ops option) \<Rightarrow> 'n option \<Rightarrow> string \<Rightarrow> 's \<Rightarrow> 'n option" where
  "vfs_finddir ops n name s =
     (case n of None \<Rightarrow> None
      | Some x \<Rightarrow> (case Option.bind (ops x) op_finddir of None \<Rightarrow> None | Some f \<Rightarrow> f x name s))"

section \<open>Sanitised paths\<close>

text \<open>The components of a path: the non-empty pieces between slashes.\<close>

function comps :: "string \<Rightarrow> string list" where
  "comps p =
     (let p1 = dropWhile (\<lambda>c. c = slash) p
      in if p1 = [] then [] else takeWhile (\<lambda>c. c \<noteq> slash) p1 # comps (dropWhile (\<lambda>c. c \<noteq> slash) p1))"
  by auto

termination
  by (relation "measure length") (auto simp del: dropWhile_eq_Nil_conv dest: drop_comp_shorter)

declare comps.simps [simp del]

definition clean_comps :: "string \<Rightarrow> string list" where
  "clean_comps p = filter (\<lambda>c. c \<noteq> ''.'') (comps p)"

definition join_path :: "string list \<Rightarrow> string" where
  "join_path cs = (if cs = [] then [slash] else concat (map ((#) slash) cs))"

text \<open>Appending components to what is already written.\<close>

definition add_comps :: "string \<Rightarrow> string list \<Rightarrow> string" where
  "add_comps dst cs = foldl (\<lambda>d c. (if 1 < length d then d @ [slash] else d) @ c) dst cs"

lemma add_comps_simps [simp]:
  "add_comps d [] = d"
  "add_comps d (c # cs) = add_comps ((if 1 < length d then d @ [slash] else d) @ c) cs"
  by (simp_all add: add_comps_def)

lemma add_comps_length: "length d \<le> length (add_comps d cs)"
proof (induction cs arbitrary: d)
  case (Cons c cs)
  show ?case using Cons.IH[of "(if 1 < length d then d @ [slash] else d) @ c"] by (simp split: if_splits)
qed simp

lemma add_comps_long: "1 < length d \<Longrightarrow> add_comps d cs = d @ concat (map ((#) slash) cs)"
proof (induction cs arbitrary: d)
  case (Cons c cs)
  have "add_comps ((d @ [slash]) @ c) cs = ((d @ [slash]) @ c) @ concat (map ((#) slash) cs)"
    using Cons.prems by (intro Cons.IH) auto
  then show ?case using Cons.prems by simp
qed simp

lemma comps_nonempty: "[] \<notin> set (comps p)"
proof (induction p rule: comps.induct)
  case (1 p)
  show ?case
  proof (cases "dropWhile (\<lambda>c. c = slash) p = []")
    case False
    then have "takeWhile (\<lambda>c. c \<noteq> slash) (dropWhile (\<lambda>c. c = slash) p) \<noteq> []"
      using hd_dropWhile[OF False] by (cases "dropWhile (\<lambda>c. c = slash) p") auto
    then show ?thesis using 1[OF refl False] False by (subst comps.simps) (simp add: Let_def)
  qed (subst comps.simps, simp)
qed

lemma add_comps_join: "[] \<notin> set cs \<Longrightarrow> add_comps [slash] cs = join_path cs"
proof (cases cs)
  case (Cons c cs')
  assume "[] \<notin> set cs"
  then have "1 < length ([slash] @ c)" using Cons by (cases c) auto
  then show ?thesis using Cons add_comps_long[of "[slash] @ c" cs'] by (simp add: join_path_def)
qed (simp add: join_path_def)

lemma sanitize_loop_eq:
  assumes "1 \<le> length dst" and "length dst < sz"
  shows "sanitize_loop sz p dst = (if ''..'' \<in> set (comps p) \<or> sz \<le> length (add_comps dst (clean_comps p)) then None
    else Some (add_comps dst (clean_comps p)))"
  using assms
proof (induction sz p dst rule: sanitize_loop.induct)
  case (1 sz p dst)
  let ?p1 = "dropWhile (\<lambda>c. c = slash) p"
  show ?case
  proof (cases "?p1 = []")
    case True
    then have "comps p = []" "clean_comps p = []" by (simp_all add: comps.simps clean_comps_def)
    then show ?thesis using True "1.prems" by (subst sanitize_loop.simps) (simp add: Let_def)
  next
    case False
    define comp where "comp = takeWhile (\<lambda>c. c \<noteq> slash) ?p1"
    define rest where "rest = dropWhile (\<lambda>c. c \<noteq> slash) ?p1"
    have cs: "comps p = comp # comps rest" using False by (subst comps.simps) (simp add: Let_def comp_def rest_def)
    have cne: "comp \<noteq> []" using comps_nonempty[of p] cs by auto
    define d where "d = (if 1 < length dst then dst @ [slash] else dst) @ comp"
    have dl: "length (add_comps dst (comp # xs)) \<ge> length d" for xs
      using add_comps_length[of d xs] by (simp add: d_def)
    have len: "length d = length dst + (if 1 < length dst then 1 else 0) + length comp" by (simp add: d_def)
    note IH = "1.IH"[OF refl False comp_def rest_def]
    have unf: "sanitize_loop sz p dst = (if comp = ''.'' then sanitize_loop sz rest dst
       else if comp = ''..'' then None
       else if sz \<le> length d then None else sanitize_loop sz rest d)"
      using False cne
      by (subst sanitize_loop.simps) (auto simp: Let_def comp_def[symmetric] rest_def[symmetric] d_def)
    consider "comp = ''.''" | "comp = ''..''" | "comp \<noteq> ''.''" "comp \<noteq> ''..''" "sz \<le> length d"
      | "comp \<noteq> ''.''" "comp \<noteq> ''..''" "length d < sz" by linarith
    then show ?thesis
    proof cases
      case 1
      then show ?thesis using unf IH(1)[OF 1] "1.prems" cs by (simp add: clean_comps_def)
    next
      case 2
      then show ?thesis using unf cs by simp
    next
      case 3
      then show ?thesis using unf cs dl[of "clean_comps rest"] by (auto simp: clean_comps_def)
    next
      case 4
      have "sanitize_loop sz rest d = (if ''..'' \<in> set (comps rest) \<or> sz \<le> length (add_comps d (clean_comps rest)) then None
          else Some (add_comps d (clean_comps rest)))"
        using IH(2)[OF 4(1,2)] 4(3) len cne "1.prems" by (auto simp: d_def)
      then show ?thesis using unf 4 cs by (auto simp: clean_comps_def d_def)
    qed
  qed
qed

text \<open>
  C28. Path sanitising equals a specification on components: an absolute path without a
  \<^verbatim>\<open>..\<close> component whose normal form fits the buffer becomes that normal form, its non-empty
  components other than \<^verbatim>\<open>.\<close> joined by single slashes; every other path is rejected.
\<close>

theorem sanitize_spec:
  assumes "2 \<le> dstsz"
  shows "vfs_path_sanitize (Some src) dstsz =
    (if (\<exists>p. src = slash # p) \<and> ''..'' \<notin> set (comps src) \<and> length (join_path (clean_comps src)) < dstsz
     then Some (join_path (clean_comps src)) else None)"
proof (cases "\<exists>p. src = slash # p")
  case True
  then obtain p where p: "src = slash # p" by blast
  have "comps src = comps p" unfolding p by (subst (1 2) comps.simps) simp
  then have cc: "comps src = comps p" "clean_comps src = clean_comps p" by (simp_all add: clean_comps_def)
  have "[] \<notin> set (clean_comps p)" using comps_nonempty[of p] by (simp add: clean_comps_def)
  note j = add_comps_join[OF this]
  show ?thesis
    using sanitize_loop_eq[of "[slash]" dstsz p] assms p cc j by (auto simp: vfs_path_sanitize_def)
next
  case False
  then show ?thesis by (auto simp: vfs_path_sanitize_def split: list.splits)
qed

theorem sanitize_spec_witness:
  "vfs_path_sanitize (Some ''//a/./b//'') 128 = Some ''/a/b'' \<and> vfs_path_sanitize (Some ''/a/../b'') 128 = None"
  using sanitize_spec[of 128 "''//a/./b//''"] sanitize_spec[of 128 "''/a/../b''"]
  by (simp add: comps.simps clean_comps_def join_path_def slash_def)

section \<open>Resolution\<close>

text \<open>What the scan over the mounts keeps: the first of the longest matching ones.\<close>

definition best_mount :: "string \<Rightarrow> 'n mount_table \<Rightarrow> int \<times> 'n option \<Rightarrow> bool" where
  "best_mount clean ms r \<longleftrightarrow>
     (r = (-1, None) \<and> (\<forall>m \<in> set ms. \<not> mount_matches clean (fst m)))
     \<or> (\<exists>i < length ms. r = (int (length (fst (ms ! i))), Some (snd (ms ! i))) \<and> mount_matches clean (fst (ms ! i))
        \<and> (\<forall>j < length ms. mount_matches clean (fst (ms ! j)) \<longrightarrow>
              length (fst (ms ! j)) \<le> length (fst (ms ! i)) \<and> (length (fst (ms ! j)) = length (fst (ms ! i)) \<longrightarrow> i \<le> j)))"

lemma best_mount_step:
  assumes "best_mount clean ms r"
  shows "best_mount clean (ms @ [m]) (mount_step clean r m)"
proof (cases "mount_matches clean (fst m) \<and> fst r < int (length (fst m))")
  case True
  have lt: "length (fst (ms ! j)) < length (fst m)" if "j < length ms" "mount_matches clean (fst (ms ! j))" for j
    using assms True that nth_mem[OF that(1)] by (fastforce simp: best_mount_def)
  have "mount_step clean r m = (int (length (fst m)), Some (snd m))" using True by (simp add: mount_step_def)
  then show ?thesis
    unfolding best_mount_def using True lt
    by (intro disjI2 exI[of _ "length ms"]) (auto simp: nth_append less_Suc_eq dest: lt intro: less_imp_le)
next
  case False
  then have st: "mount_step clean r m = r" by (auto simp: mount_step_def)
  from assms show ?thesis
    unfolding best_mount_def st
  proof (elim disjE exE conjE)
    assume "r = (-1, None)" "\<forall>m \<in> set ms. \<not> mount_matches clean (fst m)"
    then show "(r = (-1, None) \<and> (\<forall>m \<in> set (ms @ [m]). \<not> mount_matches clean (fst m)))
     \<or> (\<exists>i < length (ms @ [m]). r = (int (length (fst ((ms @ [m]) ! i))), Some (snd ((ms @ [m]) ! i)))
        \<and> mount_matches clean (fst ((ms @ [m]) ! i))
        \<and> (\<forall>j < length (ms @ [m]). mount_matches clean (fst ((ms @ [m]) ! j)) \<longrightarrow>
              length (fst ((ms @ [m]) ! j)) \<le> length (fst ((ms @ [m]) ! i))
              \<and> (length (fst ((ms @ [m]) ! j)) = length (fst ((ms @ [m]) ! i)) \<longrightarrow> i \<le> j)))"
      using False by auto
  next
    fix i assume "i < length ms" "r = (int (length (fst (ms ! i))), Some (snd (ms ! i)))" "mount_matches clean (fst (ms ! i))"
      "\<forall>j < length ms. mount_matches clean (fst (ms ! j)) \<longrightarrow>
              length (fst (ms ! j)) \<le> length (fst (ms ! i)) \<and> (length (fst (ms ! j)) = length (fst (ms ! i)) \<longrightarrow> i \<le> j)"
    then show "(r = (-1, None) \<and> (\<forall>m \<in> set (ms @ [m]). \<not> mount_matches clean (fst m)))
     \<or> (\<exists>i < length (ms @ [m]). r = (int (length (fst ((ms @ [m]) ! i))), Some (snd ((ms @ [m]) ! i)))
        \<and> mount_matches clean (fst ((ms @ [m]) ! i))
        \<and> (\<forall>j < length (ms @ [m]). mount_matches clean (fst ((ms @ [m]) ! j)) \<longrightarrow>
              length (fst ((ms @ [m]) ! j)) \<le> length (fst ((ms @ [m]) ! i))
              \<and> (length (fst ((ms @ [m]) ! j)) = length (fst ((ms @ [m]) ! i)) \<longrightarrow> i \<le> j)))"
      using False by (intro disjI2 exI[of _ i]) (auto simp: nth_append less_Suc_eq)
  qed
qed

lemma best_mount_scan: "best_mount clean ms (foldl (mount_step clean) (-1, None) ms)"
proof (induction ms rule: rev_induct)
  case Nil
  then show ?case by (simp add: best_mount_def)
next
  case (snoc m ms)
  then show ?case using best_mount_step by simp
qed

text \<open>
  C29. Resolution picks the mount with the longest matching path, the first of equals, where a
  mount matches only at a component boundary; the rest of the clean path is walked below its
  root. Without a matching mount, and for every path that sanitising rejects, nothing is opened.
\<close>

theorem vfs_open_longest:
  assumes "vfs_path_sanitize (Some p) 128 = Some clean"
  shows "((\<forall>m \<in> set mounts. \<not> mount_matches clean (fst m)) \<and> vfs_open finddir mounts (Some p) = None)
    \<or> (\<exists>i < length mounts. mount_matches clean (fst (mounts ! i))
        \<and> (\<forall>j < length mounts. mount_matches clean (fst (mounts ! j)) \<longrightarrow>
              length (fst (mounts ! j)) \<le> length (fst (mounts ! i))
              \<and> (length (fst (mounts ! j)) = length (fst (mounts ! i)) \<longrightarrow> i \<le> j))
        \<and> vfs_open finddir mounts (Some p) = vfs_walk finddir (snd (mounts ! i)) (drop (length (fst (mounts ! i))) clean))"
proof -
  let ?r = "foldl (mount_step clean) (-1, None) mounts"
  have walk: "vfs_walk finddir x q = (if dropWhile (\<lambda>c. c = slash) q = [] then Some x
      else vfs_walk finddir x (dropWhile (\<lambda>c. c = slash) q))" for x q
    by (subst (1 2) vfs_walk.simps) (simp add: Let_def)
  from best_mount_scan[of clean mounts] show ?thesis
    unfolding best_mount_def
  proof (elim disjE exE conjE)
    fix i assume i: "i < length mounts" "?r = (int (length (fst (mounts ! i))), Some (snd (mounts ! i)))"
      "mount_matches clean (fst (mounts ! i))"
      "\<forall>j < length mounts. mount_matches clean (fst (mounts ! j)) \<longrightarrow> length (fst (mounts ! j)) \<le> length (fst (mounts ! i))
        \<and> (length (fst (mounts ! j)) = length (fst (mounts ! i)) \<longrightarrow> i \<le> j)"
    have "vfs_open finddir mounts (Some p) = vfs_walk finddir (snd (mounts ! i)) (drop (length (fst (mounts ! i))) clean)"
      using i(2) assms walk[of "snd (mounts ! i)" "drop (length (fst (mounts ! i))) clean"]
      by (simp add: vfs_open_def Let_def split: if_splits)
    with i show ?thesis by blast
  qed (use assms in \<open>simp add: vfs_open_def\<close>)
qed

theorem vfs_open_longest_witness:
  "vfs_open (\<lambda>n c. Some (n + length c)) [(''/a'', 10), (''/a/b'', 20)] (Some ''/a/b/cd'') = Some (22 :: nat)"
proof -
  have s: "vfs_path_sanitize (Some ''/a/b/cd'') 128 = Some ''/a/b/cd''"
    by (simp add: vfs_path_sanitize_def sanitize_loop.simps slash_def)
  have w: "vfs_walk (\<lambda>n c. Some (n + length c)) (20 :: nat) ''/cd'' = Some 22"
    by (simp add: vfs_walk.simps slash_def walk_comp_def VFS_NAME_MAX_def)
  let ?ms = "[(''/a'', 10), (''/a/b'', 20)] :: (string \<times> nat) list"
  have m1: "mount_matches ''/a/b/cd'' (fst (?ms ! 1))" by (simp add: mount_matches_def slash_def)
  have lt1: "1 < length ?ms" by simp
  from vfs_open_longest[OF s, of ?ms "\<lambda>n c. Some (n + length c)"] consider
      "\<forall>m \<in> set ?ms. \<not> mount_matches ''/a/b/cd'' (fst m)"
    | i where "i < length ?ms" "length (fst (?ms ! 1)) \<le> length (fst (?ms ! i))"
        "vfs_open (\<lambda>n c. Some (n + length c)) ?ms (Some ''/a/b/cd'')
           = vfs_walk (\<lambda>n c. Some (n + length c)) (snd (?ms ! i)) (drop (length (fst (?ms ! i))) ''/a/b/cd'')"
    using m1 lt1 by meson
  then show ?thesis
  proof cases
    case 1
    then show ?thesis using m1 by simp
  next
    case 2
    then have "i = 1" by (cases i) auto
    then show ?thesis using 2(3) w by simp
  qed
qed

end
