(* ===== verification/Heap_Frame.thy ===== *)
theory Heap_Frame
  imports Heap_Client
begin

text \<open>
  What allocation and freeing leave alone besides the blocks of their clients: the bounds of the heap and every
  byte outside it. Clients that keep user memory, stacks or device memory outside the heap rest on these facts.
\<close>

section \<open>Bounds\<close>

lemma heap_inv_bounds: "heap_inv h ow \<Longrightarrow> ow p = Some n \<Longrightarrow> heap_start h \<le> p \<and> p + n \<le> heap_end h \<and> p \<noteq> 0 \<and> 16 dvd p"
proof -
  assume a: "heap_inv h ow" "ow p = Some n"
  then obtain bs fl b z where "heap_ok h bs fl" and b: "(b, z) \<in> live bs" "p = b + 32" "n + 36 \<le> z"
    unfolding heap_inv_def using ownsD by blast
  then have "core h bs fl" by (simp add: heap_ok_def heap_rep_def)
  from core_live[OF this b(1)] b(2,3) show ?thesis by (auto intro: dvd_add)
qed

lemma heap_size: "heap_inv h ow \<Longrightarrow> heap_end h = heap_start h + 33554432"
  by (auto simp: heap_inv_def heap_ok_def heap_rep_def core_def heap_bounds_def HEAP_SIZE_def)

lemma owned_above: "heap_inv st ow \<Longrightarrow> ow p = Some n \<Longrightarrow> heap_start st \<le> p"
  using heap_inv_bounds by blast

section \<open>The frame of a call\<close>

definition same_frame :: "heap \<Rightarrow> heap \<Rightarrow> bool" where
  "same_frame h h' \<longleftrightarrow> heap_start h' = heap_start h \<and> heap_end h' = heap_end h
     \<and> (\<forall>y. y < heap_start h \<or> heap_end h \<le> y \<longrightarrow> hmem h' y = hmem h y)"

lemma same_frame_refl [simp]: "same_frame h h" "same_frame h (h\<lparr>hlog := l\<rparr>)"
  by (simp_all add: same_frame_def)

lemma same_frame_trans: "same_frame h h1 \<Longrightarrow> same_frame h1 h2 \<Longrightarrow> same_frame h h2"
  by (simp add: same_frame_def)

lemma preserves_frame: "preserves B h h' \<Longrightarrow> same_frame h h'"
  by (simp add: preserves_def same_frame_def)

lemma same_frame_write:
  assumes "heap_inv h ow" "ow p = Some n" "\<And>y. y < p \<or> p + n \<le> y \<Longrightarrow> m y = hmem h y"
  shows "same_frame h (h\<lparr>hmem := m\<rparr>)"
  using heap_inv_bounds[OF assms(1,2)] assms(3) by (simp add: same_frame_def)

lemma kmalloc_frame:
  assumes "heap_inv h ow" "n \<le> 2 ^ 31" "kmalloc lim (of_nat n) h = Some (p, h')"
  shows "same_frame h h'"
proof -
  obtain bs fl where ok: "heap_ok h bs fl" using assms(1) by (auto simp: heap_inv_def)
  then have core: "core h bs fl" by (simp add: heap_ok_def heap_rep_def)
  let ?sz = "of_nat n :: u64"
  have sz: "unat ?sz \<le> 2 ^ 31" using assms(2) by simp
  show ?thesis
  proof (cases "?sz = 0 \<or> \<not> limits_allow_alloc lim ?sz")
    case True
    then show ?thesis using assms(3) by (auto simp: kmalloc_def split: if_splits)
  next
    case False
    show ?thesis
    proof (cases "List.find (fits bs (blk_need (unat ?sz + 4))) fl")
      case None
      then show ?thesis using kmalloc_exhausted[OF core, of ?sz lim] need_nat(1)[OF sz] False assms(3) by auto
    next
      case (Some x)
      then have "preserves (live bs) h h'" using kmalloc_ok[OF ok _ sz _ Some, of lim] False assms(3) by (metis Pair_inject option.inject)
      then show ?thesis by (rule preserves_frame)
    qed
  qed
qed

lemma kfree_frame:
  assumes "heap_inv h ow" "ow p = Some n" "kfree p h = Some h'"
  shows "same_frame h h'"
proof -
  obtain bs fl where ok: "heap_ok h bs fl" and ow: "owns (live bs) ow" using assms(1) unfolding heap_inv_def by blast
  obtain x s where x: "(x, s) \<in> live bs" "p = x + 32" using ownsD[OF ow assms(2)] by blast
  obtain st' fl' where "kfree (x + 32) h = Some st'" and pr: "preserves (live bs - {(x, s)}) h st'"
    by (rule kfree_ok[OF ok x(1)])
  then show ?thesis using assms(3) x(2) preserves_frame by simp
qed

lemma malloc_frame:
  assumes "heap_inv h ow" "n \<le> 2 ^ 31" "kmalloc lim (of_nat n) h = Some (p, h')"
  shows "heap_start h' = heap_start h" "heap_end h' = heap_end h"
  using kmalloc_frame[OF assms] by (simp_all add: same_frame_def)

lemma free_frame:
  assumes "heap_inv h ow" "ow p = Some n" "kfree p h = Some h'"
  shows "heap_start h' = heap_start h" "heap_end h' = heap_end h"
  using kfree_frame[OF assms] by (simp_all add: same_frame_def)

lemma alloc_preserves:
  assumes "heap_inv st ow" "n \<le> 2 ^ 31" "kmalloc lim (of_nat n) st = Some (p, st')" "p \<noteq> 0"
  shows "heap_start st' = heap_start st" "heap_start st \<le> p" "y < heap_start st \<Longrightarrow> hmem st' y = hmem st y"
proof -
  note f = kmalloc_frame[OF assms(1-3)]
  show "heap_start st' = heap_start st" "y < heap_start st \<Longrightarrow> hmem st' y = hmem st y" using f by (simp_all add: same_frame_def)
  have "heap_inv st' (ow(p \<mapsto> n))" using heap_inv_alloc[OF assms(1), of n lim] assms(2-4) by (auto simp: ok_request_def)
  from owned_above[OF this, of p n] show "heap_start st \<le> p" using f by (simp add: same_frame_def)
qed

end
