(* ===== verification/Ramfs.thy ===== *)
theory Ramfs
  imports Vfs Heap_Frame
begin

text \<open>
  The RAM file system, \<^verbatim>\<open>kernel/fs/ramfs.c\<close>: a flat directory of 128 slots whose contents are
  buffers of the kernel heap, allocated on the first write. The state of a volume holds the heap,
  so that a file's bytes are the bytes at its buffer. The interface \<open>directory\<close> states what create
  and delete do to the set of names.
\<close>

section \<open>State and operations\<close>

definition RAMFS_MAX_FILES :: nat where "RAMFS_MAX_FILES = 128"
definition RAMFS_MAX_SIZE :: u32 where "RAMFS_MAX_SIZE = 65536"

record rfile =
  fname :: string
  nsize :: u32
  fdata :: addr
  fsize :: u32
  fused :: bool

record rfs =
  files :: "rfile list"
  rlabel :: string
  rcount :: int

record vol =
  rheap :: heap
  rlimits :: system_limits
  rvol :: rfs

datatype rnode = RRoot | RFile nat

definition zero_file :: rfile where
  "zero_file = \<lparr>fname = [], nsize = 0, fdata = 0, fsize = 0, fused = False\<rparr>"

definition file_at :: "vol \<Rightarrow> nat \<Rightarrow> rfile" where "file_at st i = files (rvol st) ! i"

definition set_file :: "nat \<Rightarrow> rfile \<Rightarrow> vol \<Rightarrow> vol" where
  "set_file i f st = st\<lparr>rvol := (rvol st)\<lparr>files := (files (rvol st))[i := f]\<rparr>\<rparr>"

definition rfs_read :: "nat \<Rightarrow> u32 \<Rightarrow> u32 \<Rightarrow> vol \<Rightarrow> int \<times> u8 list" where
  "rfs_read i off len st =
     (let f = file_at st i
      in if fdata f = 0 \<or> fsize f \<le> off then (0, [])
         else let len1 = (if fsize f < off + len then fsize f - off else len)
              in (sint len1, load_bytes (hmem (rheap st)) (fdata f + unat off) (unat len1)))"

text \<open>\<open>bs\<close> is the caller's buffer, whose length is the argument \<^verbatim>\<open>len\<close>.\<close>

definition rfs_write :: "nat \<Rightarrow> u32 \<Rightarrow> u8 list \<Rightarrow> vol \<Rightarrow> (int \<times> vol) option" where
  "rfs_write i off bs st =
     (let f = file_at st i; len = of_nat (length bs) :: u32
      in if RAMFS_MAX_SIZE < off + len \<and> RAMFS_MAX_SIZE \<le> off then Some (-1, st)
         else let len1 = (if RAMFS_MAX_SIZE < off + len then RAMFS_MAX_SIZE - off else len)
              in case (if fdata f = 0 then kzalloc (rlimits st) (ucast RAMFS_MAX_SIZE) (rheap st)
                       else Some (fdata f, rheap st)) of None \<Rightarrow> None
                 | Some (d, h) \<Rightarrow>
                     if d = 0 then Some (-1, st\<lparr>rheap := h\<rparr>)
                     else let sz = (if fsize f < off + len1 then off + len1 else fsize f);
                              h1 = h\<lparr>hmem := store_bytes (hmem h) (d + unat off) (take (unat len1) bs)\<rparr>
                          in Some (sint len1, set_file i (f\<lparr>fdata := d, fsize := sz, nsize := sz\<rparr>) (st\<lparr>rheap := h1\<rparr>)))"

text \<open>The buffer size \<open>maxlen\<close> is positive in every call.\<close>

definition rfs_readdir :: "u32 \<Rightarrow> nat \<Rightarrow> vol \<Rightarrow> string option" where
  "rfs_readdir idx maxlen st =
     (let used = filter fused (files (rvol st))
      in if unat idx < length used then Some (take (maxlen - 1) (fname (used ! unat idx))) else None)"

definition rfs_finddir :: "string \<Rightarrow> vol \<Rightarrow> nat option" where
  "rfs_finddir name st = List.find (\<lambda>i. fused (file_at st i) \<and> fname (file_at st i) = name) [0..<RAMFS_MAX_FILES]"

definition ramfs_create :: "string \<Rightarrow> vol \<Rightarrow> int \<times> vol" where
  "ramfs_create name st =
     (if rfs_finddir name st \<noteq> None then (-1, st)
      else case List.find (\<lambda>i. \<not> fused (file_at st i)) [0..<RAMFS_MAX_FILES] of
        None \<Rightarrow> (-1, st)
      | Some i \<Rightarrow>
          let st1 = set_file i (zero_file\<lparr>fname := take (VFS_NAME_MAX - 1) name, fused := True\<rparr>) st
          in (0, st1\<lparr>rvol := (rvol st1)\<lparr>rcount := rcount (rvol st1) + 1\<rparr>\<rparr>))"

definition ramfs_delete :: "string \<Rightarrow> vol \<Rightarrow> (int \<times> vol) option" where
  "ramfs_delete name st =
     (case rfs_finddir name st of
        None \<Rightarrow> Some (-1, st)
      | Some i \<Rightarrow>
          (case kfree (fdata (file_at st i)) (rheap st) of None \<Rightarrow> None
           | Some h \<Rightarrow>
               let st1 = set_file i zero_file (st\<lparr>rheap := h\<rparr>)
               in Some (0, st1\<lparr>rvol := (rvol st1)\<lparr>rcount := rcount (rvol st1) - 1\<rparr>\<rparr>)))"

text \<open>\<^verbatim>\<open>sizeof(rfs_t)\<close>: 128 slots of 104 bytes, the root node and the counter.\<close>

definition RFS_T_SIZE :: u64 where "RFS_T_SIZE = 13408"

definition ramfs_new :: "string \<Rightarrow> system_limits \<Rightarrow> heap \<Rightarrow> (rfs option \<times> heap) option" where
  "ramfs_new label lim h =
     (case kzalloc lim RFS_T_SIZE h of None \<Rightarrow> None
      | Some (p, h1) \<Rightarrow>
          Some (if p = 0 then None
                else Some \<lparr>files = replicate RAMFS_MAX_FILES zero_file, rlabel = take (VFS_NAME_MAX - 1) label, rcount = 0\<rparr>, h1))"

definition ramfs_init :: "system_limits \<Rightarrow> heap \<Rightarrow> (rfs option \<times> heap) option" where
  "ramfs_init = ramfs_new ''ramfs''"

definition file_ops :: "(rnode, vol) vfs_ops" where
  "file_ops = \<lparr>op_read = Some (\<lambda>n off len st. case n of RFile i \<Rightarrow> rfs_read i off len st | RRoot \<Rightarrow> (-1, [])),
     op_write = Some (\<lambda>n off bs st. case n of RFile i \<Rightarrow> rfs_write i off bs st | RRoot \<Rightarrow> Some (-1, st)),
     op_readdir = None, op_finddir = None\<rparr>"

definition dir_ops :: "(rnode, vol) vfs_ops" where
  "dir_ops = \<lparr>op_read = None, op_write = None,
     op_readdir = Some (\<lambda>n idx maxlen st. rfs_readdir idx maxlen st),
     op_finddir = Some (\<lambda>n name st. map_option RFile (rfs_finddir name st))\<rparr>"

definition ramfs_ops :: "rnode \<Rightarrow> (rnode, vol) vfs_ops option" where
  "ramfs_ops n = Some (case n of RRoot \<Rightarrow> dir_ops | RFile _ \<Rightarrow> file_ops)"

section \<open>Invariant\<close>

definition vol_inv :: "vol \<Rightarrow> owned \<Rightarrow> bool" where
  "vol_inv st ow \<longleftrightarrow> heap_inv (rheap st) ow \<and> length (files (rvol st)) = 128
     \<and> (\<forall>i < 128. fdata (file_at st i) \<noteq> 0 \<longrightarrow> ow (fdata (file_at st i)) = Some 65536)
     \<and> (\<forall>i < 128. fdata (file_at st i) = 0 \<longrightarrow> fsize (file_at st i) = 0)
     \<and> (\<forall>i < 128. unat (fsize (file_at st i)) \<le> 65536)
     \<and> (\<forall>i < 128. \<forall>j < 128. i \<noteq> j \<and> fdata (file_at st i) \<noteq> 0 \<longrightarrow> fdata (file_at st i) \<noteq> fdata (file_at st j))
     \<and> (\<forall>i < 128. \<not> fused (file_at st i) \<longrightarrow> fdata (file_at st i) = 0)
     \<and> (\<forall>i < 128. \<forall>j < 128. fused (file_at st i) \<and> fused (file_at st j) \<and> fname (file_at st i) = fname (file_at st j) \<longrightarrow> i = j)
     \<and> (\<forall>i < 128. length (fname (file_at st i)) \<le> 63)
     \<and> (\<forall>i < 128. \<forall>k. fdata (file_at st i) \<noteq> 0 \<and> unat (fsize (file_at st i)) \<le> k \<and> k < 65536 \<longrightarrow>
           hmem (rheap st) (fdata (file_at st i) + k) = 0)"

lemma file_at_set: "length (files (rvol st)) = 128 \<Longrightarrow> i < 128 \<Longrightarrow> file_at (set_file i f st) j = (if j = i then f else file_at st j)"
  by (auto simp: file_at_def set_file_def nth_list_update)

lemma set_file_frame [simp]:
  "rheap (set_file i f st) = rheap st" "length (files (rvol (set_file i f st))) = length (files (rvol st))"
  "rlimits (set_file i f st) = rlimits st"
  by (simp_all add: set_file_def)

lemma file_at_frame [simp]:
  "file_at (st\<lparr>rheap := h\<rparr>) i = file_at st i"
  "file_at (st\<lparr>rvol := (rvol st)\<lparr>rcount := c\<rparr>\<rparr>) i = file_at st i"
  by (simp_all add: file_at_def)

lemma kzalloc_inv:
  assumes "heap_inv h ow" and "unat sz \<le> 2 ^ 31"
  shows "\<exists>p h'. kzalloc lim sz h = Some (p, h') \<and> (p = 0 \<longrightarrow> heap_inv h' ow)
    \<and> (p \<noteq> 0 \<longrightarrow> ow p = None \<and> heap_inv h' (ow(p \<mapsto> unat sz)) \<and> (\<forall>k < unat sz. hmem h' (p + k) = 0))
    \<and> same_data hmem h h' ow \<and> same_frame h h'"
proof -
  have "ok_request (unat sz)" using assms(2) by (simp add: ok_request_def)
  from heap_inv_alloc[OF assms(1) this, of lim] obtain p h1 where a: "kmalloc lim sz h = Some (p, h1)"
    "p = 0 \<longrightarrow> heap_inv h1 ow" "p \<noteq> 0 \<longrightarrow> ow p = None \<and> heap_inv h1 (ow(p \<mapsto> unat sz))" "same_data hmem h h1 ow"
    by auto
  have fr: "same_frame h h1" using kmalloc_frame[OF assms(1), of "unat sz" lim p h1] a(1) assms(2) by simp
  show ?thesis
  proof (cases "p = 0")
    case True
    then show ?thesis using a fr by (simp add: kzalloc_def)
  next
    case False
    let ?h2 = "h1\<lparr>hmem := fill (hmem h1) p (unat sz) 0\<rparr>"
    have inv: "heap_inv h1 (ow(p \<mapsto> unat sz))" and none: "ow p = None" using a(3) False by blast+
    have "heap_inv ?h2 (ow(p \<mapsto> unat sz))"
      by (rule heap_inv_write[OF inv, of p "unat sz"]) (auto intro!: fill_other)
    moreover have "same_frame h1 ?h2" by (rule same_frame_write[OF inv, of p "unat sz"]) (auto intro!: fill_other)
    then have "same_frame h ?h2" using fr same_frame_trans by blast
    moreover have "same_data hmem h ?h2 ow"
      unfolding same_data_def
    proof (intro allI impI)
      fix q n y assume q: "ow q = Some n \<and> q \<le> y \<and> y < q + n"
      then have "q \<noteq> p" using none by auto
      then have "q + n \<le> p \<or> p + unat sz \<le> q"
        using heap_inv_disjoint[OF inv, of q n p "unat sz"] q by auto
      then have "fill (hmem h1) p (unat sz) 0 y = hmem h1 y" using q by (intro fill_other) auto
      then show "hmem ?h2 y = hmem h y" using a(4) q by (simp add: same_data_def)
    qed
    ultimately show ?thesis using a(1) False none by (simp add: kzalloc_def fill_def)
  qed
qed

section \<open>Files as byte lists\<close>

definition contents :: "vol \<Rightarrow> nat \<Rightarrow> u8 list" where
  "contents st i = load_bytes (hmem (rheap st)) (fdata (file_at st i)) (unat (fsize (file_at st i)))"

text \<open>Writing at an offset: a gap after the old end is filled with zeros.\<close>

definition write_at :: "u8 list \<Rightarrow> nat \<Rightarrow> u8 list \<Rightarrow> u8 list" where
  "write_at old off bs = take off (old @ replicate (off - length old) 0) @ bs @ drop (off + length bs) old"

lemma vol_invD:
  assumes "vol_inv st ow"
  shows "heap_inv (rheap st) ow" "length (files (rvol st)) = 128"
    "i < 128 \<Longrightarrow> fdata (file_at st i) \<noteq> 0 \<Longrightarrow> ow (fdata (file_at st i)) = Some 65536"
    "i < 128 \<Longrightarrow> fdata (file_at st i) = 0 \<Longrightarrow> fsize (file_at st i) = 0"
    "i < 128 \<Longrightarrow> unat (fsize (file_at st i)) \<le> 65536"
    "i < 128 \<Longrightarrow> j < 128 \<Longrightarrow> i \<noteq> j \<Longrightarrow> fdata (file_at st i) \<noteq> 0 \<Longrightarrow> fdata (file_at st i) \<noteq> fdata (file_at st j)"
    "i < 128 \<Longrightarrow> \<not> fused (file_at st i) \<Longrightarrow> fdata (file_at st i) = 0"
    "i < 128 \<Longrightarrow> j < 128 \<Longrightarrow> fused (file_at st i) \<Longrightarrow> fused (file_at st j) \<Longrightarrow>
       fname (file_at st i) = fname (file_at st j) \<Longrightarrow> i = j"
    "i < 128 \<Longrightarrow> length (fname (file_at st i)) \<le> 63"
    "i < 128 \<Longrightarrow> fdata (file_at st i) \<noteq> 0 \<Longrightarrow> unat (fsize (file_at st i)) \<le> k \<Longrightarrow> k < 65536 \<Longrightarrow>
       hmem (rheap st) (fdata (file_at st i) + k) = 0"
  using assms by (simp_all add: vol_inv_def)

lemma take_drop_load: "take n (drop k (load_bytes m a l)) = load_bytes m (a + k) (min n (l - k))"
  by (rule nth_equalityI) (auto simp: load_bytes_def add.assoc)

lemma rfs_read_contents:
  assumes inv: "vol_inv st ow" and i: "i < 128" and w: "unat off + unat len < 2 ^ 32"
  shows "rfs_read i off len st = (int (length (take (unat len) (drop (unat off) (contents st i)))),
    take (unat len) (drop (unat off) (contents st i)))"
proof -
  let ?f = "file_at st i"
  note D = vol_invD[OF inv]
  show ?thesis
  proof (cases "fdata ?f = 0 \<or> fsize ?f \<le> off")
    case True
    then have "unat (fsize ?f) \<le> unat off" using D(4)[OF i] by (auto simp: word_le_nat_alt)
    then show ?thesis using True by (simp add: rfs_read_def contents_def take_drop_load load_bytes_def)
  next
    case False
    then have lt: "unat off < unat (fsize ?f)" by (simp add: word_le_nat_alt)
    have s: "unat (off + len) = unat off + unat len" using w by (simp add: unat_add32_no_wrap)
    define len1 where "len1 = (if fsize ?f < off + len then fsize ?f - off else len)"
    have "unat (fsize ?f - off) = unat (fsize ?f) - unat off"
      using False by (intro unat_sub) (simp add: word_le_nat_alt)
    then have l1: "unat len1 = min (unat len) (unat (fsize ?f) - unat off)"
      using s lt by (auto simp: len1_def word_less_nat_alt min_def)
    then have "sint len1 = int (unat len1)" using D(5)[OF i] by (intro sint_small32) simp
    then show ?thesis using False l1 by (simp add: rfs_read_def len1_def[symmetric] contents_def take_drop_load Let_def)
  qed
qed

text \<open>The buffer a write goes to: the old one, or a fresh zeroed block.\<close>

lemma write_buffer:
  assumes inv: "vol_inv st ow" and i: "i < 128"
  obtains d h where "(if fdata (file_at st i) = 0 then kzalloc (rlimits st) (ucast RAMFS_MAX_SIZE) (rheap st)
       else Some (fdata (file_at st i), rheap st)) = Some (d, h)"
    and "d = 0 \<longrightarrow> heap_inv h ow"
    and "same_data hmem (rheap st) h ow"
    and "same_frame (rheap st) h"
    and "d = fdata (file_at st i) \<or> ow d = None \<or> d = 0"
    and "d \<noteq> 0 \<longrightarrow> (\<exists>ow1. heap_inv h ow1 \<and> ow1 d = Some 65536 \<and> (\<forall>q n. ow q = Some n \<longrightarrow> ow1 q = Some n)
        \<and> (\<forall>j < 128. j \<noteq> i \<longrightarrow> fdata (file_at st j) \<noteq> d)
        \<and> (\<forall>k < 65536. unat (fsize (file_at st i)) \<le> k \<longrightarrow> hmem h (d + k) = 0)
        \<and> load_bytes (hmem h) d (unat (fsize (file_at st i))) = contents st i)"
proof (cases "fdata (file_at st i) = 0")
  case False
  note D = vol_invD[OF inv]
  have nd: "\<forall>j < 128. j \<noteq> i \<longrightarrow> fdata (file_at st j) \<noteq> fdata (file_at st i)" using D(6)[OF i] False by metis
  show thesis
    by (rule that[of "fdata (file_at st i)" "rheap st"])
       (use False D(1) D(3,10)[OF i False] nd in \<open>auto simp: same_data_def contents_def intro!: exI[of _ ow]\<close>)
next
  case True
  note D = vol_invD[OF inv]
  have sz: "unat (ucast RAMFS_MAX_SIZE :: u64) = 65536" by (simp add: RAMFS_MAX_SIZE_def)
  obtain p h where k: "kzalloc (rlimits st) (ucast RAMFS_MAX_SIZE) (rheap st) = Some (p, h)" "p = 0 \<longrightarrow> heap_inv h ow"
    "p \<noteq> 0 \<longrightarrow> ow p = None \<and> heap_inv h (ow(p \<mapsto> 65536)) \<and> (\<forall>k < 65536. hmem h (p + k) = 0)"
    "same_data hmem (rheap st) h ow" "same_frame (rheap st) h"
    using kzalloc_inv[OF D(1), of "ucast RAMFS_MAX_SIZE" "rlimits st"] unfolding sz by auto
  have nd: "fdata (file_at st j) \<noteq> p" if "j < 128" "p \<noteq> 0" for j
    using D(3)[OF that(1)] k(3) that(2) by (cases "fdata (file_at st j) = 0") auto
  have z: "contents st i = []" "fsize (file_at st i) = 0" using D(4)[OF i True] by (simp_all add: contents_def load_bytes_def)
  show thesis
    by (rule that[OF _ _ k(4,5)], use True k z nd in \<open>auto simp: load_bytes_def intro!: exI[of _ "ow(p \<mapsto> 65536)"]\<close>)
qed

text \<open>The memory of a buffer after a write inside it.\<close>

lemma write_at_load:
  assumes "unat off + length bs \<le> 65536" and "load_bytes m d n = old"
    and "\<forall>k < 65536. n \<le> k \<longrightarrow> m (d + k) = 0" and "n \<le> 65536"
  shows "load_bytes (store_bytes m (d + unat (off :: u32)) bs) d (max n (unat off + length bs)) = write_at old (unat off) bs"
proof (rule nth_equalityI)
  have n: "length old = n" using assms(2) by auto
  show "length (load_bytes (store_bytes m (d + unat off) bs) d (max n (unat off + length bs))) = length (write_at old (unat off) bs)"
    by (simp add: write_at_def n)
  fix k assume "k < length (load_bytes (store_bytes m (d + unat off) bs) d (max n (unat off + length bs)))"
  then have k: "k < max n (unat off + length bs)" by simp
  have old: "k < n \<Longrightarrow> old ! k = m (d + k)" using assms(2) by (auto simp: load_bytes_def)
  have zero: "n \<le> k \<Longrightarrow> m (d + k) = 0" using assms(1,3,4) k by simp
  have lhs: "load_bytes (store_bytes m (d + unat off) bs) d (max n (unat off + length bs)) ! k
      = store_bytes m (d + unat off) bs (d + k)" using k by (simp add: load_bytes_def)
  define pre where "pre = take (unat off) (old @ replicate (unat off - length old) 0)"
  have pre: "length pre = unat off" by (auto simp: pre_def)
  have d1: "unat off \<le> k \<Longrightarrow> (k - unat off < length bs) = (k < unat off + length bs)" by linarith
  have prek: "k < unat off \<Longrightarrow> pre ! k = (if k < n then old ! k else 0)" by (auto simp: pre_def nth_append n)
  consider "k < unat off" "k < n" | "k < unat off" "n \<le> k" | "unat off \<le> k" "k < unat off + length bs"
    | "unat off + length bs \<le> k" "k < n" using k by linarith
  then have "(pre @ bs @ drop (unat off + length bs) old) ! k = store_bytes m (d + unat off) bs (d + k)"
    by cases (use old zero n pre prek in \<open>simp_all add: nth_append store_bytes_def d1\<close>)
  then have "write_at old (unat off) bs ! k = store_bytes m (d + unat off) bs (d + k)"
    by (simp add: write_at_def pre_def)
  with lhs show "load_bytes (store_bytes m (d + unat off) bs) d (max n (unat off + length bs)) ! k = write_at old (unat off) bs ! k"
    by simp
qed

lemma contents_keep:
  assumes "vol_inv st ow" and "j < 128" and "file_at st' j = file_at st j"
    and "\<forall>k < 65536. fdata (file_at st j) \<noteq> 0 \<longrightarrow>
      hmem (rheap st') (fdata (file_at st j) + k) = hmem (rheap st) (fdata (file_at st j) + k)"
  shows "contents st' j = contents st j"
proof (cases "fdata (file_at st j) = 0")
  case True
  then show ?thesis using vol_invD(4)[OF assms(1,2)] assms(3) by (simp add: contents_def load_bytes_def)
next
  case False
  then show ?thesis unfolding contents_def assms(3)
    using assms(4) vol_invD(5)[OF assms(1,2)] by (intro load_bytes_cong) simp
qed

lemma unat_max_size: "unat RAMFS_MAX_SIZE = 65536"
  by (simp add: RAMFS_MAX_SIZE_def)

lemma rfs_write_eq:
  assumes "unat off + length bs \<le> 65536"
    and "(if fdata (file_at st i) = 0 then kzalloc (rlimits st) (ucast RAMFS_MAX_SIZE) (rheap st)
       else Some (fdata (file_at st i), rheap st)) = Some (d, h)"
  defines "f \<equiv> file_at st i"
  shows "d = 0 \<Longrightarrow> rfs_write i off bs st = Some (-1, st\<lparr>rheap := h\<rparr>)"
    and "d \<noteq> 0 \<Longrightarrow> \<exists>sz. unat sz = max (unat (fsize f)) (unat off + length bs) \<and>
      rfs_write i off bs st = Some (int (length bs), set_file i (f\<lparr>fdata := d, fsize := sz, nsize := sz\<rparr>)
        (st\<lparr>rheap := h\<lparr>hmem := store_bytes (hmem h) (d + unat off) bs\<rparr>\<rparr>))"
proof -
  let ?len = "of_nat (length bs) :: u32"
  have l: "unat ?len = length bs" using assms(1) by (intro unat_of_nat32) simp
  have s: "unat (off + ?len) = unat off + length bs" using assms(1) l by (subst unat_add32_no_wrap) simp_all
  have c: "\<not> RAMFS_MAX_SIZE < off + ?len" using s assms(1) by (simp add: word_less_nat_alt unat_max_size)
  have si: "sint ?len = int (length bs)" using sint_small32[of ?len] l assms(1) by simp
  show "d = 0 \<Longrightarrow> rfs_write i off bs st = Some (-1, st\<lparr>rheap := h\<rparr>)"
    using assms(2) c unfolding rfs_write_def Let_def f_def by simp
  let ?sz = "if fsize f < off + ?len then off + ?len else fsize f"
  have "unat ?sz = max (unat (fsize f)) (unat off + length bs)" using s by (auto simp: word_less_nat_alt)
  moreover have "rfs_write i off bs st = Some (int (length bs), set_file i (f\<lparr>fdata := d, fsize := ?sz, nsize := ?sz\<rparr>)
        (st\<lparr>rheap := h\<lparr>hmem := store_bytes (hmem h) (d + unat off) bs\<rparr>\<rparr>))" if "d \<noteq> 0"
    using assms(2) c that l si unfolding rfs_write_def Let_def f_def by simp
  ultimately show "d \<noteq> 0 \<Longrightarrow> \<exists>sz. unat sz = max (unat (fsize f)) (unat off + length bs) \<and>
      rfs_write i off bs st = Some (int (length bs), set_file i (f\<lparr>fdata := d, fsize := sz, nsize := sz\<rparr>)
        (st\<lparr>rheap := h\<lparr>hmem := store_bytes (hmem h) (d + unat off) bs\<rparr>\<rparr>))" by blast
qed

lemma vol_inv_heap:
  assumes inv: "vol_inv st ow" and "heap_inv h ow"
    and keep: "\<And>j k. j < 128 \<Longrightarrow> fdata (file_at st j) \<noteq> 0 \<Longrightarrow> k < 65536 \<Longrightarrow>
      hmem h (fdata (file_at st j) + k) = hmem (rheap st) (fdata (file_at st j) + k)"
  shows "vol_inv (st\<lparr>rheap := h\<rparr>) ow"
proof -
  note D = vol_invD[OF inv]
  have "hmem h (fdata (file_at st j) + k) = 0"
    if "j < 128" "fdata (file_at st j) \<noteq> 0 \<and> unat (fsize (file_at st j)) \<le> k \<and> k < 65536" for j k
    using keep[of j k] D(10)[of j k] that by simp
  then show ?thesis using inv assms(2) by (simp add: vol_inv_def)
qed

text \<open>Replacing one slot, with a new heap that keeps the other files' buffers.\<close>

lemma vol_inv_replace:
  assumes inv: "vol_inv st ow" and i: "i < 128" and hi: "heap_inv h ow'"
    and keep: "\<And>j k. j < 128 \<Longrightarrow> j \<noteq> i \<Longrightarrow> fdata (file_at st j) \<noteq> 0 \<Longrightarrow> k < 65536 \<Longrightarrow>
      hmem h (fdata (file_at st j) + k) = hmem (rheap st) (fdata (file_at st j) + k)"
    and own: "\<And>j. j < 128 \<Longrightarrow> j \<noteq> i \<Longrightarrow> fdata (file_at st j) \<noteq> 0 \<Longrightarrow>
      ow' (fdata (file_at st j)) = Some 65536 \<and> fdata (file_at st j) \<noteq> fdata f"
    and f: "fdata f \<noteq> 0 \<Longrightarrow> ow' (fdata f) = Some 65536" "fdata f = 0 \<Longrightarrow> fsize f = 0"
      "unat (fsize f) \<le> 65536" "\<not> fused f \<Longrightarrow> fdata f = 0" "length (fname f) \<le> 63"
    and tail: "\<And>k. fdata f \<noteq> 0 \<Longrightarrow> unat (fsize f) \<le> k \<Longrightarrow> k < 65536 \<Longrightarrow> hmem h (fdata f + k) = 0"
    and uniq: "\<And>j. j < 128 \<Longrightarrow> j \<noteq> i \<Longrightarrow> fused f \<Longrightarrow> fused (file_at st j) \<Longrightarrow> fname (file_at st j) \<noteq> fname f"
  shows "vol_inv (set_file i f (st\<lparr>rheap := h\<rparr>)) ow'" (is "vol_inv ?st ow'")
  unfolding vol_inv_def
proof (intro conjI allI impI)
  note D = vol_invD[OF inv]
  have fa: "file_at ?st j = (if j = i then f else file_at st j)" for j
    using D(2) i by (simp add: file_at_set)
  show "heap_inv (rheap ?st) ow'" "length (files (rvol ?st)) = 128" using hi D(2) by simp_all
  fix j :: nat assume j: "j < 128"
  show "ow' (fdata (file_at ?st j)) = Some 65536" if "fdata (file_at ?st j) \<noteq> 0"
    using that f(1) own[OF j] by (cases "j = i") (simp_all add: fa)
  show "fsize (file_at ?st j) = 0" if "fdata (file_at ?st j) = 0"
    using that f(2) D(4)[OF j] by (cases "j = i") (simp_all add: fa)
  show "unat (fsize (file_at ?st j)) \<le> 65536" using f(3) D(5)[OF j] by (cases "j = i") (simp_all add: fa)
  show "fdata (file_at ?st j) = 0" if "\<not> fused (file_at ?st j)"
    using that f(4) D(7)[OF j] by (cases "j = i") (simp_all add: fa)
  show "length (fname (file_at ?st j)) \<le> 63" using f(5) D(9)[OF j] by (cases "j = i") (simp_all add: fa)
  show "hmem (rheap ?st) (fdata (file_at ?st j) + k) = 0"
    if "fdata (file_at ?st j) \<noteq> 0 \<and> unat (fsize (file_at ?st j)) \<le> k \<and> k < 65536" for k
    using that tail[of k] keep[OF j, of k] D(10)[OF j, of k] by (cases "j = i") (simp_all add: fa)
  fix l :: nat assume l: "l < 128"
  show "fdata (file_at ?st j) \<noteq> fdata (file_at ?st l)" if "j \<noteq> l \<and> fdata (file_at ?st j) \<noteq> 0"
    using that own[OF l] own[OF j] D(6)[OF j l] by (cases "j = i"; cases "l = i") (simp_all add: fa, force)
  show "j = l" if s: "fused (file_at ?st j) \<and> fused (file_at ?st l) \<and> fname (file_at ?st j) = fname (file_at ?st l)"
  proof (cases "j = i \<or> l = i")
    case True
    then show ?thesis using s uniq[OF j] uniq[OF l] unfolding fa by (auto split: if_splits)
  next
    case False
    then show ?thesis using s by (intro D(8)[OF j l]) (simp_all add: fa)
  qed
qed

lemma rfs_write_full:
  assumes inv: "vol_inv st ow" and i: "i < 128" "fused (file_at st i)" and fit: "unat off + length bs \<le> 65536"
  shows "\<exists>r st' ow'. rfs_write i off bs st = Some (r, st') \<and> vol_inv st' ow'
    \<and> (r = -1 \<and> (\<forall>j < 128. contents st' j = contents st j)
       \<or> r = int (length bs) \<and> contents st' i = write_at (contents st i) (unat off) bs
          \<and> (\<forall>j < 128. j \<noteq> i \<longrightarrow> contents st' j = contents st j))
    \<and> (\<forall>q n. ow q = Some n \<longrightarrow> ow' q = Some n) \<and> same_frame (rheap st) (rheap st') \<and> rlimits st' = rlimits st
    \<and> (\<forall>j < 128. fused (file_at st' j) = fused (file_at st j)
         \<and> (fdata (file_at st' j) = fdata (file_at st j) \<or> ow (fdata (file_at st' j)) = None))"
proof -
  note D = vol_invD[OF inv]
  let ?f = "file_at st i"
  obtain d h where b: "(if fdata ?f = 0 then kzalloc (rlimits st) (ucast RAMFS_MAX_SIZE) (rheap st)
       else Some (fdata ?f, rheap st)) = Some (d, h)"
    and z: "d = 0 \<longrightarrow> heap_inv h ow" and sd: "same_data hmem (rheap st) h ow" and fr: "same_frame (rheap st) h"
    and new: "d = fdata ?f \<or> ow d = None \<or> d = 0"
    and nz: "d \<noteq> 0 \<longrightarrow> (\<exists>ow1. heap_inv h ow1 \<and> ow1 d = Some 65536 \<and> (\<forall>q n. ow q = Some n \<longrightarrow> ow1 q = Some n)
        \<and> (\<forall>j < 128. j \<noteq> i \<longrightarrow> fdata (file_at st j) \<noteq> d)
        \<and> (\<forall>k < 65536. unat (fsize ?f) \<le> k \<longrightarrow> hmem h (d + k) = 0)
        \<and> load_bytes (hmem h) d (unat (fsize ?f)) = contents st i)" by (rule write_buffer[OF inv i(1)])
  have old: "hmem h (fdata (file_at st j) + k) = hmem (rheap st) (fdata (file_at st j) + k)"
    if "j < 128" "fdata (file_at st j) \<noteq> 0" "k < 65536" for j k
    using sd[unfolded same_data_def, rule_format, of "fdata (file_at st j)" 65536 "fdata (file_at st j) + k"]
      D(3)[OF that(1,2)] that(3) by simp
  show ?thesis
  proof (cases "d = 0")
    case True
    let ?st = "st\<lparr>rheap := h\<rparr>"
    have "vol_inv ?st ow" by (rule vol_inv_heap[OF inv z[rule_format, OF True]]) (use old in blast)
    moreover have "contents ?st j = contents st j" if "j < 128" for j
      using old that by (intro contents_keep[OF inv]) simp_all
    moreover have "same_frame (rheap st) (rheap ?st)" "rlimits ?st = rlimits st" "\<forall>j < 128. file_at ?st j = file_at st j"
      using fr by simp_all
    ultimately show ?thesis using rfs_write_eq(1)[OF fit b True]
      by (intro exI[of _ "-1"] exI[of _ ?st] exI[of _ ow]) simp
  next
    case False
    obtain ow1 where o: "heap_inv h ow1" "ow1 d = Some 65536" "\<forall>q n. ow q = Some n \<longrightarrow> ow1 q = Some n"
        "\<forall>j < 128. j \<noteq> i \<longrightarrow> fdata (file_at st j) \<noteq> d"
        "\<forall>k < 65536. unat (fsize ?f) \<le> k \<longrightarrow> hmem h (d + k) = 0" "load_bytes (hmem h) d (unat (fsize ?f)) = contents st i"
      using nz False by blast
    obtain sz where sz: "unat sz = max (unat (fsize ?f)) (unat off + length bs)"
      and w: "rfs_write i off bs st = Some (int (length bs), set_file i (?f\<lparr>fdata := d, fsize := sz, nsize := sz\<rparr>)
        (st\<lparr>rheap := h\<lparr>hmem := store_bytes (hmem h) (d + unat off) bs\<rparr>\<rparr>))"
      using rfs_write_eq(2)[OF fit b False] by blast
    define m where "m = store_bytes (hmem h) (d + unat off) bs"
    define st' where "st' = set_file i (?f\<lparr>fdata := d, fsize := sz, nsize := sz\<rparr>) (st\<lparr>rheap := h\<lparr>hmem := m\<rparr>\<rparr>)"
    have fa: "file_at st' j = (if j = i then ?f\<lparr>fdata := d, fsize := sz, nsize := sz\<rparr> else file_at st j)" for j
      unfolding st'_def using D(2) i(1) by (simp add: file_at_set)
    have h': "rheap st' = h\<lparr>hmem := m\<rparr>" "length (files (rvol st')) = 128" using D(2) by (simp_all add: st'_def)
    have far: "m (fdata (file_at st j) + k) = hmem (rheap st) (fdata (file_at st j) + k)"
      if j: "j < 128" "j \<noteq> i" "fdata (file_at st j) \<noteq> 0" "k < 65536" for j k
    proof -
      have "ow1 (fdata (file_at st j)) = Some 65536" using o(3) D(3)[OF j(1,3)] by blast
      then have "fdata (file_at st j) + 65536 \<le> d \<or> d + 65536 \<le> fdata (file_at st j)"
        using heap_inv_disjoint[OF o(1) _ o(2)] o(4) j by blast
      then have "m (fdata (file_at st j) + k) = hmem h (fdata (file_at st j) + k)"
        unfolding m_def using j(4) fit by (intro store_bytes_other) auto
      then show ?thesis using old j by simp
    qed
    have hi: "heap_inv (h\<lparr>hmem := m\<rparr>) ow1"
      by (rule heap_inv_write[OF o(1,2)]) (use fit in \<open>auto simp: m_def intro!: store_bytes_other\<close>)
    have tail: "m (d + k) = 0" if "unat sz \<le> k" "k < 65536" for k
      unfolding m_def using that sz o(5) by (subst store_bytes_other) auto
    have keep: "contents st' j = contents st j" if "j < 128" "j \<noteq> i" for j
      using far that by (intro contents_keep[OF inv]) (simp_all add: fa h')
    have upd: "contents st' i = write_at (contents st i) (unat off) bs"
      using write_at_load[OF fit o(6,5) D(5)[OF i(1)]] by (simp add: contents_def fa h' sz m_def)
    have "vol_inv st' ow1"
      unfolding st'_def
    proof (rule vol_inv_replace[OF inv i(1) hi])
      show "ow1 (fdata (file_at st j)) = Some 65536 \<and> fdata (file_at st j) \<noteq> fdata (?f\<lparr>fdata := d, fsize := sz, nsize := sz\<rparr>)"
        if "j < 128" "j \<noteq> i" "fdata (file_at st j) \<noteq> 0" for j using that o(3,4) D(3)[OF that(1,3)] by simp
      show "fname (file_at st j) \<noteq> fname (?f\<lparr>fdata := d, fsize := sz, nsize := sz\<rparr>)"
        if "j < 128" "j \<noteq> i" "fused (file_at st j)" for j using D(8)[OF that(1) i(1) that(3) i(2)] that(2) by auto
    qed (use far tail False o(2) sz fit D(5,9)[OF i(1)] i(2) in simp_all)
    moreover have "same_frame (rheap st) (rheap st')"
      unfolding h'(1) by (rule same_frame_trans[OF fr same_frame_write[OF o(1,2)]])
        (use fit in \<open>auto simp: m_def intro!: store_bytes_other\<close>)
    moreover have "rlimits st' = rlimits st" by (simp add: st'_def)
    moreover have "\<forall>j < 128. fused (file_at st' j) = fused (file_at st j)
        \<and> (fdata (file_at st' j) = fdata (file_at st j) \<or> ow (fdata (file_at st' j)) = None)" using new False by (simp add: fa)
    ultimately show ?thesis using w keep upd o(3) unfolding st'_def[symmetric] m_def[symmetric] by blast
  qed
qed

lemma rfs_write_ok:
  assumes "vol_inv st ow" and "i < 128" "fused (file_at st i)" and "unat off + length bs \<le> 65536"
  shows "\<exists>r st' ow'. rfs_write i off bs st = Some (r, st') \<and> vol_inv st' ow'
    \<and> (r = -1 \<and> (\<forall>j < 128. contents st' j = contents st j)
       \<or> r = int (length bs) \<and> contents st' i = write_at (contents st i) (unat off) bs
          \<and> (\<forall>j < 128. j \<noteq> i \<longrightarrow> contents st' j = contents st j))"
  using rfs_write_full[OF assms] by blast

section \<open>The directory\<close>

datatype dir_op = Create string | Delete string

fun dir_exec :: "(string \<Rightarrow> 's \<Rightarrow> int \<times> 's) \<Rightarrow> (string \<Rightarrow> 's \<Rightarrow> (int \<times> 's) option) \<Rightarrow>
    dir_op list \<Rightarrow> 's \<Rightarrow> (int list \<times> 's) option" where
  "dir_exec cr del [] s = Some ([], s)"
| "dir_exec cr del (Create n # ops) s =
     map_option (\<lambda>(rs, s'). (fst (cr n s) # rs, s')) (dir_exec cr del ops (snd (cr n s)))"
| "dir_exec cr del (Delete n # ops) s =
     (case del n s of None \<Rightarrow> None | Some (r, s1) \<Rightarrow> map_option (\<lambda>(rs, s'). (r # rs, s')) (dir_exec cr del ops s1))"

text \<open>The same program on a set of names with a capacity.\<close>

fun dir_spec :: "nat \<Rightarrow> dir_op list \<Rightarrow> string set \<Rightarrow> int list \<times> string set" where
  "dir_spec cap [] N = ([], N)"
| "dir_spec cap (Create n # ops) N =
     (if n \<in> N \<or> cap \<le> card N then apfst ((#) (-1)) (dir_spec cap ops N)
      else apfst ((#) 0) (dir_spec cap ops (insert n N)))"
| "dir_spec cap (Delete n # ops) N = apfst ((#) (if n \<in> N then 0 else -1)) (dir_spec cap ops (N - {n}))"

locale directory =
  fixes create :: "string \<Rightarrow> 's \<Rightarrow> int \<times> 's"
    and delete :: "string \<Rightarrow> 's \<Rightarrow> (int \<times> 's) option"
    and names :: "'s \<Rightarrow> string set"
    and inv :: "'s \<Rightarrow> bool"
    and cap :: nat
    and ok :: "string \<Rightarrow> bool"
  assumes create_law: "inv s \<Longrightarrow> ok n \<Longrightarrow> inv (snd (create n s))
      \<and> (if n \<in> names s \<or> cap \<le> card (names s) then fst (create n s) = -1 \<and> names (snd (create n s)) = names s
         else fst (create n s) = 0 \<and> names (snd (create n s)) = insert n (names s))"
    and delete_law: "inv s \<Longrightarrow> \<exists>r s'. delete n s = Some (r, s') \<and> inv s'
      \<and> names s' = names s - {n} \<and> r = (if n \<in> names s then 0 else -1)"
begin

lemma exec_refines:
  "inv s \<Longrightarrow> \<forall>n. Create n \<in> set ops \<longrightarrow> ok n \<Longrightarrow>
     \<exists>rs s'. dir_exec create delete ops s = Some (rs, s') \<and> inv s' \<and> dir_spec cap ops (names s) = (rs, names s')"
proof (induction ops arbitrary: s)
  case (Cons c ops)
  show ?case
  proof (cases c)
    case (Create n)
    then have law: "inv (snd (create n s))"
        "if n \<in> names s \<or> cap \<le> card (names s) then fst (create n s) = -1 \<and> names (snd (create n s)) = names s
         else fst (create n s) = 0 \<and> names (snd (create n s)) = insert n (names s)"
      using create_law[OF Cons.prems(1), of n] Cons.prems(2) by auto
    obtain rs s' where "dir_exec create delete ops (snd (create n s)) = Some (rs, s')" "inv s'"
        "dir_spec cap ops (names (snd (create n s))) = (rs, names s')"
      using Cons.IH[OF law(1)] Cons.prems(2) by auto
    then show ?thesis using law(2) Create by (auto split: if_splits)
  next
    case (Delete n)
    obtain r s1 where d: "delete n s = Some (r, s1)" "inv s1" "names s1 = names s - {n}" "r = (if n \<in> names s then 0 else -1)"
      using delete_law[OF Cons.prems(1), of n] by blast
    obtain rs s' where "dir_exec create delete ops s1 = Some (rs, s')" "inv s'" "dir_spec cap ops (names s1) = (rs, names s')"
      using Cons.IH[OF d(2)] Cons.prems(2) by auto
    then show ?thesis using d Delete by auto
  qed
qed simp

end

definition vol_names :: "vol \<Rightarrow> string set" where
  "vol_names st = (\<lambda>i. fname (file_at st i)) ` {i. i < 128 \<and> fused (file_at st i)}"

definition vol_ok :: "vol \<Rightarrow> bool" where "vol_ok st \<longleftrightarrow> (\<exists>ow. vol_inv st ow)"

lemma finddir_iff:
  assumes "vol_inv st ow"
  shows "rfs_finddir n st = Some i \<longleftrightarrow> i < 128 \<and> fused (file_at st i) \<and> fname (file_at st i) = n"
proof -
  have "\<not> (fused (file_at st j) \<and> fname (file_at st j) = n)"
    if "i < 128" "fused (file_at st i)" "fname (file_at st i) = n" "j < i" for j
    using vol_invD(8)[OF assms, of i j] that by force
  then show ?thesis unfolding rfs_finddir_def RAMFS_MAX_FILES_def find_upt_lowest by blast
qed

lemma finddir_None:
  assumes "vol_inv st ow"
  shows "rfs_finddir n st = None \<longleftrightarrow> n \<notin> vol_names st"
proof -
  have "rfs_finddir n st \<noteq> None \<longleftrightarrow> n \<in> vol_names st"
    using finddir_iff[OF assms, of n] by (auto simp: vol_names_def image_iff)
  then show ?thesis by blast
qed

lemma card_names:
  assumes "vol_inv st ow"
  shows "card (vol_names st) = card {i. i < 128 \<and> fused (file_at st i)}"
  unfolding vol_names_def
proof (intro card_image inj_onI)
  fix i j assume "i \<in> {i. i < 128 \<and> fused (file_at st i)}" "j \<in> {i. i < 128 \<and> fused (file_at st i)}"
    "fname (file_at st i) = fname (file_at st j)"
  then show "i = j" using vol_invD(8)[OF assms, of i j] by force
qed

lemma free_slot:
  assumes "vol_inv st ow"
  shows "List.find (\<lambda>i. \<not> fused (file_at st i)) [0..<RAMFS_MAX_FILES] = None \<longleftrightarrow> 128 \<le> card (vol_names st)"
proof -
  let ?U = "{i. i < 128 \<and> fused (file_at st i)}"
  have sub: "?U \<subseteq> {..<128}" by (rule subsetI) simp
  have "List.find (\<lambda>i. \<not> fused (file_at st i)) [0..<RAMFS_MAX_FILES] = None \<longleftrightarrow> (\<forall>i < 128. fused (file_at st i))"
    unfolding find_None_iff set_upt RAMFS_MAX_FILES_def by (meson atLeastLessThan_iff zero_le)
  also have "\<dots> \<longleftrightarrow> ?U = {..<128}" by (rule iffI) (blast, use sub in blast)
  also have "\<dots> \<longleftrightarrow> 128 \<le> card ?U"
  proof
    assume "128 \<le> card ?U"
    moreover have "card ?U \<le> card {..<128 :: nat}" by (rule card_mono[OF finite_lessThan sub])
    ultimately have "card ?U = card {..<128 :: nat}" unfolding card_lessThan by (rule le_antisym[rotated])
    then show "?U = {..<128}" by (rule card_subset_eq[OF finite_lessThan sub])
  qed (simp only: card_lessThan order_refl)
  finally show ?thesis unfolding card_names[OF assms] .
qed

lemma names_upto: "vol_names (st\<lparr>rvol := (rvol st)\<lparr>rcount := c\<rparr>\<rparr>) = vol_names st"
  "vol_inv (st\<lparr>rvol := (rvol st)\<lparr>rcount := c\<rparr>\<rparr>) ow = vol_inv st ow"
  by (simp_all add: vol_names_def vol_inv_def)

lemma ramfs_create_law:
  assumes ok: "vol_ok st" and n: "length n \<le> 63"
  shows "vol_ok (snd (ramfs_create n st)) \<and>
    (if n \<in> vol_names st \<or> 128 \<le> card (vol_names st)
     then fst (ramfs_create n st) = -1 \<and> vol_names (snd (ramfs_create n st)) = vol_names st
     else fst (ramfs_create n st) = 0 \<and> vol_names (snd (ramfs_create n st)) = insert n (vol_names st))"
proof -
  obtain ow where inv: "vol_inv st ow" using ok by (auto simp: vol_ok_def)
  note D = vol_invD[OF inv]
  show ?thesis
  proof (cases "n \<in> vol_names st \<or> 128 \<le> card (vol_names st)")
    case True
    then have "ramfs_create n st = (-1, st)"
      using finddir_None[OF inv, of n] free_slot[OF inv] by (auto simp: ramfs_create_def split: option.splits)
    then show ?thesis using True ok by simp
  next
    case False
    then obtain i where fr: "List.find (\<lambda>i. \<not> fused (file_at st i)) [0..<RAMFS_MAX_FILES] = Some i"
      and nf: "rfs_finddir n st = None" using finddir_None[OF inv, of n] free_slot[OF inv] by auto
    then have i: "i < 128" "\<not> fused (file_at st i)" unfolding find_upt_lowest RAMFS_MAX_FILES_def by auto
    define f where "f = zero_file\<lparr>fname := n, fused := True\<rparr>"
    have cr: "ramfs_create n st = (0, (set_file i f st)\<lparr>rvol := (rvol (set_file i f st))\<lparr>rcount := rcount (rvol (set_file i f st)) + 1\<rparr>\<rparr>)"
      using fr nf n by (simp add: ramfs_create_def f_def VFS_NAME_MAX_def Let_def)
    have "vol_inv (set_file i f (st\<lparr>rheap := rheap st\<rparr>)) ow"
    proof (rule vol_inv_replace[OF inv i(1) D(1)])
      show "fname (file_at st j) \<noteq> fname f" if "j < 128" "fused (file_at st j)" for j
        using that False by (auto simp: vol_names_def f_def)
    qed (use n D(3) in \<open>simp_all add: f_def zero_file_def\<close>)
    then have "vol_inv (set_file i f st) ow" by simp
    moreover have "vol_names (set_file i f st) = insert n (vol_names st)"
    proof -
      have fa: "file_at (set_file i f st) j = (if j = i then f else file_at st j)" for j
        using D(2) i(1) by (simp add: file_at_set)
      have "{j. j < 128 \<and> fused (file_at (set_file i f st) j)} = insert i {j. j < 128 \<and> fused (file_at st j)}"
        using i by (auto simp: fa) (simp add: f_def)
      moreover have "(\<lambda>j. fname (file_at (set_file i f st) j)) ` {j. j < 128 \<and> fused (file_at st j)} = vol_names st"
        unfolding vol_names_def by (rule image_cong) (use i in \<open>auto simp: fa\<close>)
      moreover have "fname (file_at (set_file i f st) i) = n" by (simp add: fa) (simp add: f_def)
      ultimately show ?thesis by (simp only: vol_names_def[of "set_file i f st"] image_insert)
    qed
    ultimately show ?thesis using False cr by (auto simp: names_upto vol_ok_def)
  qed
qed

lemma ramfs_delete_law:
  assumes ok: "vol_ok st"
  shows "\<exists>r st'. ramfs_delete n st = Some (r, st') \<and> vol_ok st' \<and> vol_names st' = vol_names st - {n}
    \<and> r = (if n \<in> vol_names st then 0 else -1)"
proof -
  obtain ow where inv: "vol_inv st ow" using ok by (auto simp: vol_ok_def)
  note D = vol_invD[OF inv]
  show ?thesis
  proof (cases "rfs_finddir n st")
    case None
    then show ?thesis using ok finddir_None[OF inv, of n] by (auto simp: ramfs_delete_def)
  next
    case (Some i)
    then have i: "i < 128" "fused (file_at st i)" "fname (file_at st i) = n" using finddir_iff[OF inv, of n i] by blast+
    let ?d = "fdata (file_at st i)" and ?ow = "if fdata (file_at st i) = 0 then ow else ow(fdata (file_at st i) := None)"
    obtain h where h: "kfree ?d (rheap st) = Some h" "heap_inv h ?ow" "same_data hmem (rheap st) h ?ow"
      using heap_inv_free[OF D(1) D(3)[OF i(1)]] D(1) by (cases "?d = 0") (auto simp: kfree_def same_data_def)
    have ne: "fdata (file_at st j) \<noteq> ?d" if "j < 128" "j \<noteq> i" "fdata (file_at st j) \<noteq> 0" for j
      using D(6)[OF that(1) i(1) that(2,3)] .
    define st1 where "st1 = set_file i zero_file (st\<lparr>rheap := h\<rparr>)"
    have fa: "file_at st1 j = (if j = i then zero_file else file_at st j)" for j
      using D(2) i(1) by (simp add: st1_def file_at_set)
    have o: "?ow (fdata (file_at st j)) = Some 65536" if "j < 128" "j \<noteq> i" "fdata (file_at st j) \<noteq> 0" for j
      using D(3)[OF that(1,3)] ne[OF that] by simp
    have keep: "hmem h (fdata (file_at st j) + k) = hmem (rheap st) (fdata (file_at st j) + k)"
      if "j < 128" "j \<noteq> i" "fdata (file_at st j) \<noteq> 0" "k < 65536" for j k
      using h(3)[unfolded same_data_def, rule_format, of "fdata (file_at st j)" 65536 "fdata (file_at st j) + k"]
        o[OF that(1-3)] that(4) by simp
    have "vol_inv st1 ?ow"
      unfolding st1_def by (rule vol_inv_replace[OF inv i(1) h(2)]) (use keep o in \<open>simp_all add: zero_file_def\<close>)
    moreover have "vol_names st1 = vol_names st - {n}"
    proof (rule set_eqI)
      fix x
      have "x \<in> vol_names st1 \<longleftrightarrow> (\<exists>j < 128. j \<noteq> i \<and> fused (file_at st j) \<and> fname (file_at st j) = x)"
        by (auto simp: vol_names_def fa zero_file_def image_iff split: if_splits)
      also have "\<dots> \<longleftrightarrow> x \<in> vol_names st - {n}"
        using i D(8)[OF _ i(1) _ i(2)] by (fastforce simp: vol_names_def image_iff)
      finally show "x \<in> vol_names st1 \<longleftrightarrow> x \<in> vol_names st - {n}" .
    qed
    moreover have "ramfs_delete n st = Some (0, st1\<lparr>rvol := (rvol st1)\<lparr>rcount := rcount (rvol st1) - 1\<rparr>\<rparr>)"
      using Some h(1) by (simp add: ramfs_delete_def Let_def st1_def)
    moreover have "n \<in> vol_names st" using i by (auto simp: vol_names_def)
    ultimately show ?thesis by (auto simp: names_upto vol_ok_def)
  qed
qed

interpretation rdir: directory ramfs_create ramfs_delete vol_names vol_ok 128 "\<lambda>n. length n \<le> 63"
  by unfold_locales (fact ramfs_create_law ramfs_delete_law)+

end
