(* ===== verification/Ramfs_Props.thy ===== *)
theory Ramfs_Props
  imports Ramfs Heap_Props
begin

text \<open>
  The properties of the RAM file system: a file is a byte list that survives whatever happens to
  other files, also through the VFS layer, and the directory is a set of at most 128 names.
\<close>


definition empty_vol :: vol where
  "empty_vol = \<lparr>rheap = boot_heap, rlimits = open_limits,
     rvol = \<lparr>files = replicate RAMFS_MAX_FILES zero_file, rlabel = ''t'', rcount = 0\<rparr>\<rparr>"

lemma empty_vol_inv: "vol_inv empty_vol Map.empty"
proof -
  have f: "file_at empty_vol i = zero_file" if "i < 128" for i
    using that by (simp add: file_at_def empty_vol_def RAMFS_MAX_FILES_def)
  have "rheap empty_vol = boot_heap" "length (files (rvol empty_vol)) = 128"
    by (simp_all add: empty_vol_def RAMFS_MAX_FILES_def)
  then show ?thesis using boot_heap_inv by (simp add: vol_inv_def f) (simp add: zero_file_def)
qed

definition one_file_vol :: vol where
  "one_file_vol = set_file 0 (zero_file\<lparr>fname := ''a'', fused := True\<rparr>) empty_vol"

lemma one_file_vol_inv: "vol_inv one_file_vol Map.empty" "fused (file_at one_file_vol 0)"
proof -
  have f: "file_at empty_vol i = zero_file" if "i < 128" for i
    using that by (simp add: file_at_def empty_vol_def RAMFS_MAX_FILES_def)
  have "vol_inv (set_file 0 (zero_file\<lparr>fname := ''a'', fused := True\<rparr>) (empty_vol\<lparr>rheap := rheap empty_vol\<rparr>)) Map.empty"
    by (rule vol_inv_replace[OF empty_vol_inv]) (use vol_invD(1)[OF empty_vol_inv] f in \<open>simp_all add: zero_file_def\<close>)
  then show "vol_inv one_file_vol Map.empty" by (simp add: one_file_vol_def)
  show "fused (file_at one_file_vol 0)"
    using vol_invD(2)[OF empty_vol_inv] by (simp add: one_file_vol_def file_at_set)
qed


text \<open>
  C31. The directory: every sequence of creations (of names of at most 63 characters) and deletions
  runs to its end with the result codes and the final names that a set with room for 128 names
  gives: creating fails exactly for an existing name or a full table, deleting exactly for a
  missing name.
\<close>

theorem ramfs_directory:
  assumes "vol_ok st" and "\<forall>n. Create n \<in> set ops \<longrightarrow> length n \<le> 63"
  shows "\<exists>rs st'. dir_exec ramfs_create ramfs_delete ops st = Some (rs, st') \<and> vol_ok st'
    \<and> dir_spec 128 ops (vol_names st) = (rs, vol_names st')"
  using rdir.exec_refines[OF assms] .

theorem ramfs_directory_witness:
  "\<exists>st'. dir_exec ramfs_create ramfs_delete [Create ''a'', Create ''b'', Create ''a'', Delete ''a''] empty_vol
     = Some ([0, 0, -1, 0], st') \<and> vol_names st' = {''b''}"
proof -
  have ok: "vol_ok empty_vol" using empty_vol_inv by (auto simp: vol_ok_def)
  have f: "file_at empty_vol i = zero_file" if "i < 128" for i
    using that by (simp add: file_at_def empty_vol_def RAMFS_MAX_FILES_def)
  have "vol_names empty_vol = {}" by (auto simp: vol_names_def f) (simp add: zero_file_def)
  then show ?thesis
    using ramfs_directory[OF ok, of "[Create ''a'', Create ''b'', Create ''a'', Delete ''a'']"] by auto
qed

end
