(* ===== verification/Lxs_Lexer.thy ===== *)
theory Lxs_Lexer
  imports Prelude
begin

text \<open>
  The lexer of the LXScript language, \<^verbatim>\<open>lxscript/lexer/lexer.c\<close>, with the character classes and
  \<^verbatim>\<open>strtoll\<close> of its shim headers. The source text is the memory it points to, a function from
  offsets to bytes, so that reading past its terminator is visible; loops that need a terminator
  are partial.
\<close>

section \<open>Tokens and state\<close>

datatype (plugins only: size code) token_type =
    TK_EOF | TK_IDENT | TK_INT | TK_FLOAT | TK_STRING
  | TK_PLUS | TK_MINUS | TK_STAR | TK_SLASH | TK_PERCENT
  | TK_EQ | TK_EQEQ | TK_NEQ | TK_LT | TK_GT | TK_LEQ | TK_GEQ
  | TK_AND | TK_OR | TK_NOT
  | TK_LPAREN | TK_RPAREN | TK_LBRACE | TK_RBRACE | TK_LBRACKET | TK_RBRACKET
  | TK_COMMA | TK_SEMICOLON | TK_COLON | TK_DOT | TK_ARROW
  | TK_IF | TK_ELSE | TK_WHILE | TK_FOR | TK_RETURN | TK_LET | TK_FN
  | TK_TRUE | TK_FALSE | TK_NIL | TK_IMPORT | TK_EXTERN
  | TK_INT_TYPE | TK_FLOAT_TYPE | TK_STR_TYPE | TK_BOOL_TYPE
  | TK_ERROR

record token =
  ttype :: token_type
  tstart :: nat
  tlen :: nat
  tline :: nat
  tcol :: nat
  tlit :: int

record lexer =
  lpos :: nat
  lline :: nat
  lcol :: nat

type_synonym source = "nat \<Rightarrow> u8"

section \<open>Character classes and numbers\<close>

definition isspace :: "u8 \<Rightarrow> bool" where
  "isspace c \<longleftrightarrow> c = 32 \<or> c = 9 \<or> c = 10 \<or> c = 13 \<or> c = 12 \<or> c = 11"

definition isdigit :: "u8 \<Rightarrow> bool" where "isdigit c \<longleftrightarrow> 48 \<le> c \<and> c \<le> 57"

definition isalpha :: "u8 \<Rightarrow> bool" where
  "isalpha c \<longleftrightarrow> (97 \<le> c \<and> c \<le> 122) \<or> (65 \<le> c \<and> c \<le> 90)"

definition isalnum :: "u8 \<Rightarrow> bool" where "isalnum c \<longleftrightarrow> isalpha c \<or> isdigit c"

partial_function (option) strtoll_spaces :: "source \<Rightarrow> nat \<Rightarrow> nat option" where
  "strtoll_spaces src s = (if isspace (src s) then strtoll_spaces src (s + 1) else Some s)"

declare strtoll_spaces.simps [code]

definition digit_value :: "u8 \<Rightarrow> int option" where
  "digit_value c =
     (if isdigit c then Some (uint c - 48)
      else if 97 \<le> c \<and> c \<le> 122 then Some (uint c - 97 + 10)
      else if 65 \<le> c \<and> c \<le> 90 then Some (uint c - 65 + 10) else None)"

text \<open>\<^verbatim>\<open>long long\<close> arithmetic wraps at 64 bits, as the machine instructions do; in C the overflow is undefined.\<close>

partial_function (option) strtoll_digits :: "source \<Rightarrow> nat \<Rightarrow> int \<Rightarrow> int \<Rightarrow> int option" where
  "strtoll_digits src s base v =
     (if src s = 0 then Some v
      else case digit_value (src s) of None \<Rightarrow> Some v
        | Some d \<Rightarrow> if base \<le> d then Some v
            else strtoll_digits src (s + 1) base (signed_take_bit 63 (v * base + d)))"

declare strtoll_digits.simps [code]

definition strtoll :: "source \<Rightarrow> nat \<Rightarrow> int \<Rightarrow> int option" where
  "strtoll src s base =
     (case strtoll_spaces src s of None \<Rightarrow> None
      | Some s1 \<Rightarrow>
          let neg = src s1 = 45;
              s2 = (if src s1 = 45 \<or> src s1 = 43 then s1 + 1 else s1);
              (b, s3) = (if base = 0
                 then (if src s2 = 48 \<and> (src (s2 + 1) = 120 \<or> src (s2 + 1) = 88) then (16, s2 + 2)
                       else if src s2 = 48 then (8, s2 + 1) else (10, s2))
                 else (base, s2))
          in map_option (\<lambda>v. if neg then signed_take_bit 63 (- v) else v) (strtoll_digits src s3 b 0))"

section \<open>The lexer\<close>

definition lexer_init :: lexer where "lexer_init = \<lparr>lpos = 0, lline = 1, lcol = 1\<rparr>"

definition peek_c :: "source \<Rightarrow> lexer \<Rightarrow> u8" where "peek_c src l = src (lpos l)"

definition adv :: "source \<Rightarrow> lexer \<Rightarrow> lexer" where
  "adv src l = (if src (lpos l) = 10 then \<lparr>lpos = lpos l + 1, lline = lline l + 1, lcol = 1\<rparr>
     else \<lparr>lpos = lpos l + 1, lline = lline l, lcol = lcol l + 1\<rparr>)"

definition make_tok :: "token_type \<Rightarrow> nat \<Rightarrow> nat \<Rightarrow> nat \<Rightarrow> nat \<Rightarrow> token" where
  "make_tok t s len line col = \<lparr>ttype = t, tstart = s, tlen = len, tline = line, tcol = col, tlit = 0\<rparr>"

text \<open>\<^verbatim>\<open>while (p(peek_c(l))) adv(l);\<close>\<close>

partial_function (option) scan :: "(u8 \<Rightarrow> bool) \<Rightarrow> source \<Rightarrow> lexer \<Rightarrow> lexer option" where
  "scan p src l = (if p (peek_c src l) then scan p src (adv src l) else Some l)"

declare scan.simps [code]

partial_function (option) skip_ws :: "source \<Rightarrow> lexer \<Rightarrow> lexer option" where
  "skip_ws src l =
     (case scan isspace src l of None \<Rightarrow> None
      | Some l1 \<Rightarrow>
          if peek_c src l1 = 47 \<and> src (lpos l1 + 1) = 47
          then (case scan (\<lambda>c. c \<noteq> 0 \<and> c \<noteq> 10) src l1 of None \<Rightarrow> None | Some l2 \<Rightarrow> skip_ws src l2)
          else Some l1)"

declare skip_ws.simps [code]

definition ascii :: "string \<Rightarrow> u8 list" where "ascii s = map of_char s"

definition kw_table :: "(u8 list \<times> token_type) list" where
  "kw_table =
     [(ascii ''if'', TK_IF), (ascii ''else'', TK_ELSE), (ascii ''while'', TK_WHILE), (ascii ''for'', TK_FOR),
      (ascii ''return'', TK_RETURN), (ascii ''let'', TK_LET), (ascii ''fn'', TK_FN),
      (ascii ''true'', TK_TRUE), (ascii ''false'', TK_FALSE), (ascii ''nil'', TK_NIL),
      (ascii ''import'', TK_IMPORT), (ascii ''extern'', TK_EXTERN),
      (ascii ''int'', TK_INT_TYPE), (ascii ''float'', TK_FLOAT_TYPE),
      (ascii ''str'', TK_STR_TYPE), (ascii ''bool'', TK_BOOL_TYPE)]"

definition ident_char :: "u8 \<Rightarrow> bool" where "ident_char c \<longleftrightarrow> isalnum c \<or> c = 95"

partial_function (option) string_loop :: "source \<Rightarrow> lexer \<Rightarrow> lexer option" where
  "string_loop src l =
     (if peek_c src l \<noteq> 0 \<and> peek_c src l \<noteq> 34
      then string_loop src (adv src (if peek_c src l = 92 then adv src l else l))
      else Some l)"

declare string_loop.simps [code]

text \<open>The switch on the first character, given the one after it: token type and length.\<close>

definition punct :: "u8 \<Rightarrow> u8 \<Rightarrow> token_type \<times> nat" where
  "punct c d =
     (if c = 43 then (TK_PLUS, 1)
      else if c = 45 then (if d = 62 then (TK_ARROW, 2) else (TK_MINUS, 1))
      else if c = 42 then (TK_STAR, 1)
      else if c = 47 then (TK_SLASH, 1)
      else if c = 37 then (TK_PERCENT, 1)
      else if c = 61 then (if d = 61 then (TK_EQEQ, 2) else (TK_EQ, 1))
      else if c = 33 then (if d = 61 then (TK_NEQ, 2) else (TK_NOT, 1))
      else if c = 60 then (if d = 61 then (TK_LEQ, 2) else (TK_LT, 1))
      else if c = 62 then (if d = 61 then (TK_GEQ, 2) else (TK_GT, 1))
      else if c = 38 \<and> d = 38 then (TK_AND, 2)
      else if c = 124 \<and> d = 124 then (TK_OR, 2)
      else if c = 40 then (TK_LPAREN, 1) else if c = 41 then (TK_RPAREN, 1)
      else if c = 123 then (TK_LBRACE, 1) else if c = 125 then (TK_RBRACE, 1)
      else if c = 91 then (TK_LBRACKET, 1) else if c = 93 then (TK_RBRACKET, 1)
      else if c = 44 then (TK_COMMA, 1) else if c = 59 then (TK_SEMICOLON, 1)
      else if c = 58 then (TK_COLON, 1) else if c = 46 then (TK_DOT, 1)
      else (TK_ERROR, 1))"

definition lex_ident :: "source \<Rightarrow> lexer \<Rightarrow> (token \<times> lexer) option" where
  "lex_ident src l =
     (case scan ident_char src l of None \<Rightarrow> None
      | Some l1 \<Rightarrow>
          let s = lpos l; len = lpos l1 - s; word = map src [s..<lpos l1];
              t = (case List.find (\<lambda>kw. fst kw = word) kw_table of None \<Rightarrow> TK_IDENT | Some kw \<Rightarrow> snd kw)
          in Some (make_tok t s len (lline l) (lcol l), l1))"

definition lex_number :: "source \<Rightarrow> lexer \<Rightarrow> (token \<times> lexer) option" where
  "lex_number src l =
     (case scan isdigit src l of None \<Rightarrow> None
      | Some l1 \<Rightarrow>
          (case (if peek_c src l1 = 46 then scan isdigit src (adv src l1) else Some l1) of None \<Rightarrow> None
           | Some l2 \<Rightarrow>
               (case strtoll src (lpos l) 10 of None \<Rightarrow> None
                | Some v \<Rightarrow>
                    Some ((make_tok (if peek_c src l1 = 46 then TK_FLOAT else TK_INT) (lpos l) (lpos l2 - lpos l)
                             (lline l) (lcol l))\<lparr>tlit := v\<rparr>, l2))))"

definition lex_string :: "source \<Rightarrow> lexer \<Rightarrow> (token \<times> lexer) option" where
  "lex_string src l =
     (case string_loop src (adv src l) of None \<Rightarrow> None
      | Some l1 \<Rightarrow>
          let l2 = (if peek_c src l1 = 34 then adv src l1 else l1)
          in Some (make_tok TK_STRING (lpos l) (lpos l2 - lpos l) (lline l) (lcol l), l2))"

definition lexer_next :: "source \<Rightarrow> lexer \<Rightarrow> (token \<times> lexer) option" where
  "lexer_next src l0 =
     (case skip_ws src l0 of None \<Rightarrow> None
      | Some l \<Rightarrow>
          let c = peek_c src l
          in if c = 0 then Some (make_tok TK_EOF (lpos l) 0 (lline l) (lcol l), l)
             else if isalpha c \<or> c = 95 then lex_ident src l
             else if isdigit c then lex_number src l
             else if c = 34 then lex_string src l
             else let l1 = adv src l; (t, len) = punct c (peek_c src l1)
                  in Some (make_tok t (lpos l) len (lline l) (lcol l), if len = 2 then adv src l1 else l1))"

definition lexer_peek :: "source \<Rightarrow> lexer \<Rightarrow> token option" where
  "lexer_peek src l = map_option fst (lexer_next src l)"

section \<open>Every call returns and stays inside the source\<close>

text \<open>A terminated source whose last character is not a backslash.\<close>

definition source_ok :: "source \<Rightarrow> nat \<Rightarrow> bool" where
  "source_ok src n \<longleftrightarrow> src n = 0 \<and> (\<forall>i < n. src i \<noteq> 0) \<and> (0 < n \<longrightarrow> src (n - 1) \<noteq> 92)"

lemma lpos_adv [simp]: "lpos (adv src l) = lpos l + 1"
  by (simp add: adv_def)

lemma scan_ok:
  assumes "source_ok src n" and "\<not> p 0" and "lpos l \<le> n"
  shows "\<exists>l'. scan p src l = Some l' \<and> lpos l \<le> lpos l' \<and> lpos l' \<le> n \<and> \<not> p (src (lpos l'))
    \<and> (p (src (lpos l)) \<longrightarrow> lpos l < lpos l')"
  using assms(3)
proof (induction "n - lpos l" arbitrary: l)
  case 0
  then have "lpos l = n" by simp
  then show ?case using assms(1,2) by (subst scan.simps) (simp add: source_ok_def peek_c_def)
next
  case (Suc k)
  show ?case
  proof (cases "p (src (lpos l))")
    case True
    have "k = n - lpos (adv src l)" "lpos (adv src l) \<le> n" using Suc by auto
    from Suc.hyps(1)[OF this] obtain l' where "scan p src (adv src l) = Some l'" "lpos l + 1 \<le> lpos l'" "lpos l' \<le> n"
      "\<not> p (src (lpos l'))" by auto
    then show ?thesis using True by (subst scan.simps) (auto simp: peek_c_def)
  next
    case False
    then show ?thesis using Suc.prems by (subst scan.simps) (simp add: peek_c_def)
  qed
qed

lemma skip_ws_ok:
  assumes "source_ok src n" and "lpos l \<le> n"
  shows "\<exists>l'. skip_ws src l = Some l' \<and> lpos l \<le> lpos l' \<and> lpos l' \<le> n"
  using assms(2)
proof (induction "n - lpos l" arbitrary: l rule: less_induct)
  case less
  obtain l1 where l1: "scan isspace src l = Some l1" "lpos l \<le> lpos l1" "lpos l1 \<le> n"
    using scan_ok[OF assms(1) _ less.prems, of isspace] by (auto simp: isspace_def)
  show ?case
  proof (cases "peek_c src l1 = 47 \<and> src (lpos l1 + 1) = 47")
    case True
    obtain l2 where l2: "scan (\<lambda>c. c \<noteq> 0 \<and> c \<noteq> 10) src l1 = Some l2" "lpos l1 < lpos l2" "lpos l2 \<le> n"
      using scan_ok[OF assms(1) _ l1(3), of "\<lambda>c. c \<noteq> 0 \<and> c \<noteq> 10"] True by (auto simp: peek_c_def)
    have "n - lpos l2 < n - lpos l" using l2 l1 by simp
    from less.hyps[OF this l2(3)] show ?thesis
      using True l1 l2 by (subst skip_ws.simps) auto
  next
    case False
    then show ?thesis using l1 by (subst skip_ws.simps) auto
  qed
qed

lemma string_loop_ok:
  assumes "source_ok src n" and "lpos l \<le> n"
  shows "\<exists>l'. string_loop src l = Some l' \<and> lpos l \<le> lpos l' \<and> lpos l' \<le> n"
  using assms(2)
proof (induction "n - lpos l" arbitrary: l rule: less_induct)
  case less
  show ?case
  proof (cases "peek_c src l \<noteq> 0 \<and> peek_c src l \<noteq> 34")
    case True
    let ?l1 = "adv src (if peek_c src l = 92 then adv src l else l)"
    have lt: "lpos l < n" using True less.prems assms(1) by (cases "lpos l = n") (auto simp: source_ok_def peek_c_def)
    have "lpos l + 1 < n" if "peek_c src l = 92"
      using lt that assms(1) by (cases "lpos l = n - 1") (auto simp: source_ok_def peek_c_def)
    then have "lpos ?l1 \<le> n" "lpos l < lpos ?l1" using lt by auto
    moreover from this have "n - lpos ?l1 < n - lpos l" by simp
    ultimately obtain l' where "string_loop src ?l1 = Some l'" "lpos ?l1 \<le> lpos l'" "lpos l' \<le> n"
      using less.hyps by blast
    then show ?thesis using True \<open>lpos l < lpos ?l1\<close> by (subst string_loop.simps) auto
  next
    case False
    then show ?thesis using less.prems by (subst string_loop.simps) auto
  qed
qed

lemma strtoll_ok:
  assumes "source_ok src n" and "s < n" and "isdigit (src s)"
  shows "\<exists>v. strtoll src s 10 = Some v"
proof -
  have ds: "\<exists>v. strtoll_digits src s' b v0 = Some v" if "s' \<le> n" for s' b v0
    using that
  proof (induction "n - s'" arbitrary: s' v0)
    case 0
    then show ?case using assms(1) by (subst strtoll_digits.simps) (auto simp: source_ok_def)
  next
    case (Suc k)
    then have "k = n - (s' + 1)" "s' + 1 \<le> n" by auto
    from Suc.hyps(1)[OF this] show ?case
      by (subst strtoll_digits.simps) (auto split: option.splits)
  qed
  have "strtoll_spaces src s = Some s" using assms(3) by (subst strtoll_spaces.simps) (auto simp: isspace_def isdigit_def)
  moreover have "src s \<noteq> 45" "src s \<noteq> 43" using assms(3) by (auto simp: isdigit_def)
  ultimately show ?thesis using ds[of s 10 0] assms(2) by (auto simp: strtoll_def Let_def)
qed

definition good_token :: "nat \<Rightarrow> lexer \<Rightarrow> (token \<times> lexer) option \<Rightarrow> bool" where
  "good_token n l r \<longleftrightarrow> (\<exists>tok l'. r = Some (tok, l') \<and> lpos l' \<le> n \<and> tstart tok = lpos l
     \<and> tstart tok + tlen tok = lpos l' \<and> ttype tok \<noteq> TK_EOF \<and> lpos l < lpos l')"

lemma lex_ident_ok:
  assumes "source_ok src n" and "lpos l \<le> n" and "ident_char (peek_c src l)"
  shows "good_token n l (lex_ident src l)"
proof -
  have i0: "\<not> ident_char 0" by (simp add: ident_char_def isalnum_def isalpha_def isdigit_def)
  obtain l1 where l1: "scan ident_char src l = Some l1" "lpos l < lpos l1" "lpos l1 \<le> n"
    using scan_ok[where p = ident_char, OF assms(1) i0 assms(2)] assms(3) by (auto simp: peek_c_def)
  have kw: "\<forall>kw \<in> set kw_table. snd kw \<noteq> TK_EOF" by (simp add: kw_table_def)
  have "(case List.find (\<lambda>kw. fst kw = w) kw_table of None \<Rightarrow> TK_IDENT | Some kw \<Rightarrow> snd kw) \<noteq> TK_EOF" for w
  proof (cases "List.find (\<lambda>kw. fst kw = w) kw_table")
    case (Some kw)
    then have "kw \<in> set kw_table" by (auto simp: find_Some_iff)
    then show ?thesis using kw Some by simp
  qed simp
  then show ?thesis using l1 by (simp add: good_token_def lex_ident_def make_tok_def Let_def)
qed

lemma lex_number_ok:
  assumes "source_ok src n" and "lpos l < n" and "isdigit (peek_c src l)"
  shows "good_token n l (lex_number src l)"
proof -
  have d0: "\<not> isdigit 0" by (simp add: isdigit_def)
  obtain l1 where l1: "scan isdigit src l = Some l1" "lpos l < lpos l1" "lpos l1 \<le> n"
    using scan_ok[where p = isdigit, OF assms(1) d0, of l] assms by (auto simp: peek_c_def)
  obtain v where v: "strtoll src (lpos l) 10 = Some v" using strtoll_ok[OF assms(1,2)] assms(3) by (auto simp: peek_c_def)
  have "\<exists>l2. (if peek_c src l1 = 46 then scan isdigit src (adv src l1) else Some l1) = Some l2 \<and> lpos l1 \<le> lpos l2 \<and> lpos l2 \<le> n"
  proof (cases "peek_c src l1 = 46")
    case True
    then have "lpos (adv src l1) \<le> n" using l1(3) assms(1) by (cases "lpos l1 = n") (auto simp: source_ok_def peek_c_def)
    from scan_ok[where p = isdigit, OF assms(1) d0 this] True show ?thesis by auto
  qed (use l1 in simp)
  then show ?thesis using l1 v by (auto simp: good_token_def lex_number_def make_tok_def)
qed

lemma lex_string_ok:
  assumes "source_ok src n" and "lpos l < n"
  shows "good_token n l (lex_string src l)"
proof -
  have "lpos (adv src l) \<le> n" using assms(2) by simp
  from string_loop_ok[OF assms(1) this] obtain l1 where
    l1: "string_loop src (adv src l) = Some l1" "lpos l < lpos l1" "lpos l1 \<le> n" by auto
  have "lpos l1 < n" if "peek_c src l1 = 34" using that l1(3) assms(1) by (cases "lpos l1 = n") (auto simp: source_ok_def peek_c_def)
  then show ?thesis using l1 by (auto simp: good_token_def lex_string_def make_tok_def Let_def)
qed

lemma punct_len: "snd (punct c d) = 1 \<or> (snd (punct c d) = 2 \<and> d \<noteq> 0)" "fst (punct c d) \<noteq> TK_EOF"
  by (auto simp: punct_def)

lemma lex_punct_ok:
  assumes "source_ok src n" and "lpos l < n"
  defines "l1 \<equiv> adv src l"
  shows "good_token n l (let (t, len) = punct (peek_c src l) (peek_c src l1)
     in Some (make_tok t (lpos l) len (lline l) (lcol l), if len = 2 then adv src l1 else l1))"
proof -
  have "lpos l1 < n" if "peek_c src l1 \<noteq> 0"
    using that assms by (cases "lpos l1 = n") (auto simp: source_ok_def peek_c_def)
  then show ?thesis using punct_len[of "peek_c src l" "peek_c src l1"] assms(2)
    by (auto simp: good_token_def make_tok_def l1_def split: prod.splits)
qed

lemma lexer_next_ok:
  assumes "source_ok src n" and "lpos l \<le> n"
  shows "\<exists>tok l'. lexer_next src l = Some (tok, l') \<and> lpos l' \<le> n \<and> lpos l \<le> tstart tok
    \<and> tstart tok + tlen tok = lpos l' \<and> (ttype tok = TK_EOF \<longleftrightarrow> lpos l' = n \<and> tlen tok = 0)
    \<and> (ttype tok \<noteq> TK_EOF \<longrightarrow> lpos l < lpos l')"
proof -
  obtain l0 where l0: "skip_ws src l = Some l0" "lpos l \<le> lpos l0" "lpos l0 \<le> n" using skip_ws_ok[OF assms] by blast
  let ?c = "peek_c src l0"
  have end0: "?c = 0 \<longleftrightarrow> lpos l0 = n" using assms(1) l0(3) by (cases "lpos l0 = n") (auto simp: source_ok_def peek_c_def)
  show ?thesis
  proof (cases "?c = 0")
    case True
    then show ?thesis using l0 end0 by (simp add: lexer_next_def make_tok_def)
  next
    case False
    then have lt: "lpos l0 < n" using end0 l0(3) by simp
    have "good_token n l0 (lexer_next src l)"
      using l0(1) lt False lex_ident_ok[OF assms(1) l0(3)] lex_number_ok[OF assms(1) lt] lex_string_ok[OF assms(1) lt]
        lex_punct_ok[OF assms(1) lt]
      by (auto simp: lexer_next_def ident_char_def isalnum_def Let_def)
    then show ?thesis using l0(2) by (auto simp: good_token_def)
  qed
qed

text \<open>
  C32. On a terminated source that does not end in a backslash, every call of \<^verbatim>\<open>lexer_next\<close> returns
  a token whose text lies inside the source and ends where the lexer stands afterwards; it moves
  forward unless it reports the end, so the token sequence of a source is finite.
\<close>

theorem lexer_next_progress:
  assumes "source_ok src n" and "lpos l \<le> n"
  shows "\<exists>tok l'. lexer_next src l = Some (tok, l') \<and> lpos l' \<le> n \<and> lpos l \<le> tstart tok
    \<and> tstart tok + tlen tok = lpos l' \<and> (ttype tok = TK_EOF \<longleftrightarrow> lpos l' = n \<and> tlen tok = 0)
    \<and> (ttype tok \<noteq> TK_EOF \<longrightarrow> lpos l < lpos l')"
  by (rule lexer_next_ok[OF assms])

theorem lexer_next_progress_witness:
  "\<exists>tok l'. lexer_next (\<lambda>i. if i = 0 then 120 else 0) lexer_init = Some (tok, l') \<and> lpos l' = 1 \<and> ttype tok \<noteq> TK_EOF"
proof -
  have ok: "source_ok (\<lambda>i. if i = 0 then 120 else 0) 1" by (simp add: source_ok_def)
  have "skip_ws (\<lambda>i. if i = 0 then 120 else 0) lexer_init = Some lexer_init"
    by (subst skip_ws.simps, subst scan.simps) (simp add: peek_c_def lexer_init_def isspace_def)
  then have ne: "ttype tok \<noteq> TK_EOF" if "lexer_next (\<lambda>i. if i = 0 then 120 else 0) lexer_init = Some (tok, l')" for tok l'
    using that lex_ident_ok[OF ok, of lexer_init]
    by (auto simp: lexer_next_def good_token_def peek_c_def lexer_init_def isalpha_def ident_char_def isalnum_def Let_def)
  show ?thesis using lexer_next_progress[OF ok, of lexer_init] ne by (auto simp: lexer_init_def)
qed

end
