(* ===== verification/Lxs_Vm.thy ===== *)
theory Lxs_Vm
  imports Lxs_Lexer Klibc_Format "HOL-Library.Signed_Division"
begin

text \<open>
  The bytecode machine of LXScript, \<^verbatim>\<open>lxscript/vm/vm.c\<close>, with the native functions that
  \<^verbatim>\<open>kernel/lxs_kernel.c\<close> registers. One iteration of the interpreter loop is \<open>vm_step\<close>; an access
  outside the arrays of the machine, and the division that traps, is the outcome \<open>Fault\<close>.
  Overflowing 32-bit arithmetic wraps, as the machine instructions do; in C it is undefined, and the build does not
  ask for wrapping. A string value is a pointer into the string table or to a
  string constant; the low half of its address, which an operator sees when it treats the string
  as a number, is the parameter \<open>loc\<close>.
\<close>

section \<open>Values, natives and the machine\<close>

datatype lxs_type = LXS_NIL | LXS_BOOL | LXS_INT | LXS_FLOAT | LXS_STRING | LXS_OBJECT

datatype sptr = Str_table nat | Str_lit "u8 list"

datatype payload = P_int u32 | P_str sptr

record lxs_val =
  vtype :: lxs_type
  vpay :: payload

datatype native = Native_print | Native_println | Native_tostring

datatype console = Fb_print "u8 list" | Kinfo "u8 list"

datatype vm_error =
    E_stack_overflow | E_bad_string u32 | E_div_by_zero | E_bad_native u32 | E_unknown_opcode u8 int

record vm =
  vstack :: "nat \<Rightarrow> lxs_val"
  vsp :: nat
  vvars :: "nat \<Rightarrow> lxs_val"
  vprog :: "nat \<Rightarrow> u8"
  vpc :: int
  vnatives :: "(u8 list \<times> native) list"
  vstrs :: "u8 list list"
  verror :: "vm_error option"
  vout :: "console list"

datatype outcome = Next vm | Ret int vm | Fault

datatype (plugins only: size code) opcode =
    OP_NOP | OP_PUSH_INT | OP_PUSH_FLOAT | OP_PUSH_STR | OP_PUSH_NIL | OP_PUSH_BOOL
  | OP_POP | OP_DUP | OP_ADD | OP_SUB | OP_MUL | OP_DIV | OP_MOD
  | OP_EQ | OP_NEQ | OP_LT | OP_GT | OP_LEQ | OP_GEQ | OP_AND | OP_OR | OP_NOT
  | OP_LOAD | OP_STORE | OP_JUMP | OP_JUMP_IF_FALSE | OP_CALL | OP_CALL_NATIVE | OP_RETURN | OP_HALT

definition opcodes :: "opcode list" where
  "opcodes =
     [OP_NOP, OP_PUSH_INT, OP_PUSH_FLOAT, OP_PUSH_STR, OP_PUSH_NIL, OP_PUSH_BOOL, OP_POP, OP_DUP,
      OP_ADD, OP_SUB, OP_MUL, OP_DIV, OP_MOD, OP_EQ, OP_NEQ, OP_LT, OP_GT, OP_LEQ, OP_GEQ,
      OP_AND, OP_OR, OP_NOT, OP_LOAD, OP_STORE, OP_JUMP, OP_JUMP_IF_FALSE, OP_CALL, OP_CALL_NATIVE,
      OP_RETURN, OP_HALT]"

primrec op_num :: "opcode \<Rightarrow> u8" where
  "op_num OP_NOP = 0" | "op_num OP_PUSH_INT = 1" | "op_num OP_PUSH_FLOAT = 2" | "op_num OP_PUSH_STR = 3"
| "op_num OP_PUSH_NIL = 4" | "op_num OP_PUSH_BOOL = 5" | "op_num OP_POP = 6" | "op_num OP_DUP = 7"
| "op_num OP_ADD = 8" | "op_num OP_SUB = 9" | "op_num OP_MUL = 10" | "op_num OP_DIV = 11" | "op_num OP_MOD = 12"
| "op_num OP_EQ = 13" | "op_num OP_NEQ = 14" | "op_num OP_LT = 15" | "op_num OP_GT = 16" | "op_num OP_LEQ = 17"
| "op_num OP_GEQ = 18" | "op_num OP_AND = 19" | "op_num OP_OR = 20" | "op_num OP_NOT = 21" | "op_num OP_LOAD = 22"
| "op_num OP_STORE = 23" | "op_num OP_JUMP = 24" | "op_num OP_JUMP_IF_FALSE = 25" | "op_num OP_CALL = 26"
| "op_num OP_CALL_NATIVE = 27" | "op_num OP_RETURN = 28" | "op_num OP_HALT = 29"

definition op_of :: "u8 \<Rightarrow> opcode option" where
  "op_of b = (if unat b < 30 then Some (opcodes ! unat b) else None)"

definition VM_STACK_SIZE :: nat where "VM_STACK_SIZE = 1024"
definition VM_VARS_SIZE :: nat where "VM_VARS_SIZE = 256"
definition VM_PROG_SIZE :: nat where "VM_PROG_SIZE = 65536"
definition VM_NATIVE_MAX :: nat where "VM_NATIVE_MAX = 128"
definition VM_STR_MAX :: nat where "VM_STR_MAX = 128"
definition VM_STR_LEN :: nat where "VM_STR_LEN = 256"

definition ival :: "u32 \<Rightarrow> lxs_val" where "ival i = \<lparr>vtype = LXS_INT, vpay = P_int i\<rparr>"
definition bval :: "u32 \<Rightarrow> lxs_val" where "bval b = \<lparr>vtype = LXS_BOOL, vpay = P_int b\<rparr>"
definition nilv :: lxs_val where "nilv = \<lparr>vtype = LXS_NIL, vpay = P_int 0\<rparr>"
definition sval :: "sptr \<Rightarrow> lxs_val" where "sval s = \<lparr>vtype = LXS_STRING, vpay = P_str s\<rparr>"

text \<open>Reading the member \<^verbatim>\<open>i\<close> and the member \<^verbatim>\<open>s\<close> of the union.\<close>

definition v_i :: "(sptr \<Rightarrow> u32) \<Rightarrow> lxs_val \<Rightarrow> u32" where
  "v_i loc v = (case vpay v of P_int i \<Rightarrow> i | P_str s \<Rightarrow> loc s)"

fun str_text :: "vm \<Rightarrow> sptr \<Rightarrow> u8 list" where
  "str_text vm (Str_table k) = (if k < length (vstrs vm) then vstrs vm ! k else [])"
| "str_text vm (Str_lit t) = t"

definition lxs_vm_zero :: vm where
  "lxs_vm_zero = \<lparr>vstack = (\<lambda>_. nilv), vsp = 0, vvars = (\<lambda>_. nilv), vprog = (\<lambda>_. 0), vpc = 0, vnatives = [],
     vstrs = [], verror = None, vout = []\<rparr>"

definition lxs_register_native :: "u8 list \<Rightarrow> native \<Rightarrow> vm \<Rightarrow> vm" where
  "lxs_register_native name f vm =
     (if VM_NATIVE_MAX \<le> length (vnatives vm) then vm else vm\<lparr>vnatives := vnatives vm @ [(name, f)]\<rparr>)"

section \<open>Native functions\<close>

definition d_text :: "u32 \<Rightarrow> u8 list" where
  "d_text i = (case fmt_ref (\<lambda>_. None) (ascii ''%d'') [ucast i] of Some t \<Rightarrow> t | None \<Rightarrow> [])"

definition lxs_line :: "u8 list \<Rightarrow> console" where
  "lxs_line t = Kinfo (ascii ''[lxs] '' @ t @ [10])"

definition print_arg :: "(sptr \<Rightarrow> u32) \<Rightarrow> vm \<Rightarrow> lxs_val \<Rightarrow> console list" where
  "print_arg loc vm v =
     (case (vtype v, vpay v) of
        (LXS_STRING, P_str s) \<Rightarrow> [Fb_print (str_text vm s), lxs_line (str_text vm s)]
      | (LXS_INT, _) \<Rightarrow> [lxs_line (d_text (v_i loc v))]
      | (LXS_BOOL, _) \<Rightarrow> [lxs_line (if v_i loc v \<noteq> 0 then ascii ''true'' else ascii ''false'')]
      | (LXS_NIL, _) \<Rightarrow> [lxs_line (ascii ''nil'')]
      | _ \<Rightarrow> [])"

definition native_print :: "(sptr \<Rightarrow> u32) \<Rightarrow> lxs_val list \<Rightarrow> vm \<Rightarrow> lxs_val \<times> vm" where
  "native_print loc args vm = (nilv, vm\<lparr>vout := vout vm @ concat (map (print_arg loc vm) args)\<rparr>)"

definition native_println :: "(sptr \<Rightarrow> u32) \<Rightarrow> lxs_val list \<Rightarrow> vm \<Rightarrow> lxs_val \<times> vm" where
  "native_println loc args vm = (let (r, vm1) = native_print loc args vm in (r, vm1\<lparr>vout := vout vm1 @ [lxs_line []]\<rparr>))"

definition native_tostring :: "lxs_val list \<Rightarrow> vm \<Rightarrow> lxs_val \<times> vm" where
  "native_tostring args vm =
     (case args of [] \<Rightarrow> (sval (Str_lit []), vm)
      | v # _ \<Rightarrow>
          (\<lparr>vtype = LXS_STRING,
            vpay = (if vtype v = LXS_INT then P_str (Str_lit (ascii ''(int)''))
                    else if vtype v = LXS_BOOL then P_str (Str_lit (ascii ''(bool)''))
                    else if vtype v = LXS_STRING then vpay v
                    else P_str (Str_lit (ascii ''nil'')))\<rparr>, vm))"

fun call_native :: "(sptr \<Rightarrow> u32) \<Rightarrow> native \<Rightarrow> lxs_val list \<Rightarrow> vm \<Rightarrow> lxs_val \<times> vm" where
  "call_native loc Native_print args vm = native_print loc args vm"
| "call_native loc Native_println args vm = native_println loc args vm"
| "call_native loc Native_tostring args vm = native_tostring args vm"

section \<open>The interpreter\<close>

definition fail :: "vm_error \<Rightarrow> vm \<Rightarrow> outcome" where "fail e vm = Ret (- 1) (vm\<lparr>verror := Some e\<rparr>)"

definition vpush :: "lxs_val \<Rightarrow> vm \<Rightarrow> outcome" where
  "vpush v vm =
     (if VM_STACK_SIZE - 1 \<le> vsp vm then fail E_stack_overflow vm
      else Next (vm\<lparr>vstack := (vstack vm)(vsp vm := v), vsp := vsp vm + 1\<rparr>))"

definition vpop :: "vm \<Rightarrow> lxs_val \<times> vm" where
  "vpop vm = (if 0 < vsp vm then (vstack vm (vsp vm - 1), vm\<lparr>vsp := vsp vm - 1\<rparr>) else (nilv, vm))"

fun vpops :: "nat \<Rightarrow> vm \<Rightarrow> lxs_val list \<times> vm" where
  "vpops 0 vm = ([], vm)"
| "vpops (Suc n) vm = (let (v, vm1) = vpop vm; (vs, vm2) = vpops n vm1 in (vs @ [v], vm2))"

definition read8 :: "vm \<Rightarrow> (u8 \<times> vm) option" where
  "read8 vm = (if 0 \<le> vpc vm \<and> vpc vm < int VM_PROG_SIZE
     then Some (vprog vm (nat (vpc vm)), vm\<lparr>vpc := vpc vm + 1\<rparr>) else None)"

definition read32 :: "vm \<Rightarrow> (u32 \<times> vm) option" where
  "read32 vm = (if 0 \<le> vpc vm \<and> vpc vm + 3 < int VM_PROG_SIZE
     then Some (load32 (vprog vm) (nat (vpc vm)), vm\<lparr>vpc := vpc vm + 4\<rparr>) else None)"

definition bind :: "outcome \<Rightarrow> (vm \<Rightarrow> outcome) \<Rightarrow> outcome" where
  "bind out f = (case out of Next vm \<Rightarrow> f vm | Ret r vm \<Rightarrow> Ret r vm | Fault \<Rightarrow> Fault)"

definition with32 :: "vm \<Rightarrow> (u32 \<Rightarrow> vm \<Rightarrow> outcome) \<Rightarrow> outcome" where
  "with32 vm f = (case read32 vm of None \<Rightarrow> Fault | Some (n, vm1) \<Rightarrow> f n vm1)"

definition binop :: "(lxs_val \<Rightarrow> lxs_val \<Rightarrow> lxs_val) \<Rightarrow> vm \<Rightarrow> outcome" where
  "binop f vm = (let (b, vm1) = vpop vm; (a, vm2) = vpop vm1 in vpush (f a b) vm2)"

definition of_bool32 :: "bool \<Rightarrow> lxs_val" where "of_bool32 b = bval (if b then 1 else 0)"

definition div_op :: "(sptr \<Rightarrow> u32) \<Rightarrow> vm \<Rightarrow> outcome" where
  "div_op loc vm =
     (let (b, vm1) = vpop vm; (a, vm2) = vpop vm1; x = sint (v_i loc a); y = sint (v_i loc b)
      in if y = 0 then fail E_div_by_zero vm2
         else if x = - (2 ^ 31) \<and> y = - 1 then Fault
         else vpush (ival (of_int (x sdiv y))) vm2)"

definition op_push_str :: "vm \<Rightarrow> outcome" where
  "op_push_str vm = with32 vm (\<lambda>idx vm1.
     if sint idx < 0 \<or> int (length (vstrs vm1)) \<le> sint idx then fail (E_bad_string idx) vm1
     else vpush (sval (Str_table (nat (sint idx)))) vm1)"

definition op_load :: "vm \<Rightarrow> outcome" where
  "op_load vm = with32 vm (\<lambda>idx vm1.
     if sint idx < int VM_VARS_SIZE then (if sint idx < 0 then Fault else vpush (vvars vm1 (nat (sint idx))) vm1)
     else vpush nilv vm1)"

definition op_store :: "vm \<Rightarrow> outcome" where
  "op_store vm = with32 vm (\<lambda>idx vm1.
     let (v, vm2) = vpop vm1
     in if sint idx < int VM_VARS_SIZE
        then (if sint idx < 0 then Fault else Next (vm2\<lparr>vvars := (vvars vm2)(nat (sint idx) := v)\<rparr>))
        else Next vm2)"

definition op_jump_if_false :: "(sptr \<Rightarrow> u32) \<Rightarrow> vm \<Rightarrow> outcome" where
  "op_jump_if_false loc vm = with32 vm (\<lambda>a vm1.
     let (c, vm2) = vpop vm1 in Next (if v_i loc c = 0 then vm2\<lparr>vpc := sint a\<rparr> else vm2))"

definition op_call_native :: "(sptr \<Rightarrow> u32) \<Rightarrow> vm \<Rightarrow> outcome" where
  "op_call_native loc vm = with32 vm (\<lambda>idx vm1. with32 vm1 (\<lambda>argc vm2.
     if sint idx < 0 \<or> int (length (vnatives vm2)) \<le> sint idx then fail (E_bad_native idx) vm2
     else let n = nat (if sint argc < 16 then sint argc else 16);
              (args, vm3) = vpops n vm2;
              (r, vm4) = call_native loc (snd (vnatives vm3 ! nat (sint idx))) args vm3
          in vpush r vm4))"

definition exec_code :: "(sptr \<Rightarrow> u32) \<Rightarrow> opcode \<Rightarrow> vm \<Rightarrow> outcome" where
  "exec_code loc op vm =
     (let i = v_i loc in case op of
        OP_NOP \<Rightarrow> Next vm
      | OP_PUSH_INT \<Rightarrow> with32 vm (\<lambda>n. vpush (ival n))
      | OP_PUSH_BOOL \<Rightarrow> with32 vm (\<lambda>n. vpush (bval n))
      | OP_PUSH_STR \<Rightarrow> op_push_str vm
      | OP_PUSH_NIL \<Rightarrow> vpush nilv vm
      | OP_POP \<Rightarrow> Next (snd (vpop vm))
      | OP_DUP \<Rightarrow> (let (t, vm1) = vpop vm in bind (vpush t vm1) (vpush t))
      | OP_ADD \<Rightarrow> binop (\<lambda>a b. ival (i a + i b)) vm
      | OP_SUB \<Rightarrow> binop (\<lambda>a b. ival (i a - i b)) vm
      | OP_MUL \<Rightarrow> binop (\<lambda>a b. ival (i a * i b)) vm
      | OP_DIV \<Rightarrow> div_op loc vm
      | OP_EQ \<Rightarrow> binop (\<lambda>a b. of_bool32 (i a = i b)) vm
      | OP_NEQ \<Rightarrow> binop (\<lambda>a b. of_bool32 (i a \<noteq> i b)) vm
      | OP_LT \<Rightarrow> binop (\<lambda>a b. of_bool32 (sint (i a) < sint (i b))) vm
      | OP_GT \<Rightarrow> binop (\<lambda>a b. of_bool32 (sint (i b) < sint (i a))) vm
      | OP_AND \<Rightarrow> binop (\<lambda>a b. of_bool32 (i a \<noteq> 0 \<and> i b \<noteq> 0)) vm
      | OP_OR \<Rightarrow> binop (\<lambda>a b. of_bool32 (i a \<noteq> 0 \<or> i b \<noteq> 0)) vm
      | OP_NOT \<Rightarrow> (let (a, vm1) = vpop vm in vpush (of_bool32 (i a = 0)) vm1)
      | OP_LOAD \<Rightarrow> op_load vm
      | OP_STORE \<Rightarrow> op_store vm
      | OP_JUMP \<Rightarrow> with32 vm (\<lambda>a vm1. Next (vm1\<lparr>vpc := sint a\<rparr>))
      | OP_JUMP_IF_FALSE \<Rightarrow> op_jump_if_false loc vm
      | OP_CALL_NATIVE \<Rightarrow> op_call_native loc vm
      | OP_RETURN \<Rightarrow> Ret 0 vm
      | OP_HALT \<Rightarrow> Ret 0 vm
      | _ \<Rightarrow> fail (E_unknown_opcode (op_num op) (vpc vm - 1)) vm)"

definition exec_op :: "(sptr \<Rightarrow> u32) \<Rightarrow> u8 \<Rightarrow> vm \<Rightarrow> outcome" where
  "exec_op loc b vm =
     (case op_of b of None \<Rightarrow> fail (E_unknown_opcode b (vpc vm - 1)) vm | Some op \<Rightarrow> exec_code loc op vm)"

definition vm_step :: "(sptr \<Rightarrow> u32) \<Rightarrow> vm \<Rightarrow> outcome" where
  "vm_step loc vm = (case read8 vm of None \<Rightarrow> Fault | Some (b, vm1) \<Rightarrow> exec_op loc b vm1)"

text \<open>The loop: \<open>None\<close> when it never returns.\<close>

partial_function (option) vm_loop :: "(sptr \<Rightarrow> u32) \<Rightarrow> vm \<Rightarrow> outcome option" where
  "vm_loop loc vm = (case vm_step loc vm of Next vm1 \<Rightarrow> vm_loop loc vm1 | out \<Rightarrow> Some out)"

declare vm_loop.simps [code]

definition vm_run :: "(sptr \<Rightarrow> u32) \<Rightarrow> int \<Rightarrow> vm \<Rightarrow> outcome option" where
  "vm_run loc entry vm = vm_loop loc (vm\<lparr>vpc := entry\<rparr>)"

lemma op_of_num [simp]: "op_of (op_num op) = Some op"
  by (cases op) (simp_all add: op_of_def opcodes_def)

declare op_num.simps [simp del]

end
