(* ===== verification/Lxs_Codegen.thy ===== *)
theory Lxs_Codegen
  imports Lxs_Vm
begin

text \<open>
  The code generator of LXScript, \<^verbatim>\<open>lxscript/codegen/codegen.c\<close>, over the tree type of
  \<^verbatim>\<open>lxscript/parser/parser.h\<close>. A pointer to a node is a value of \<open>ast\<close>, with \<open>Null\<close> for the null
  pointer; names that point into the source are offsets into its text \<open>src\<close>, so that
  \<^verbatim>\<open>strlen\<close> of such a name is the length of the rest of the text. Reading through a null name
  or a null parameter node, which the code does not guard against, is \<open>cg_null_read\<close>.
\<close>

section \<open>The tree\<close>

datatype ast =
    Null
  | Ast_int token int | Ast_float token int | Ast_string token | Ast_bool token int | Ast_nil token
  | Ast_ident token
  | Ast_binop token token_type ast ast
  | Ast_unop token token_type ast
  | Ast_assign token nat ast
  | Ast_call token "u8 list option" "ast list"
  | Ast_if token ast ast ast
  | Ast_while token ast ast
  | Ast_block token "ast list"
  | Ast_return token ast
  | Ast_let token nat ast
  | Ast_fn token nat "ast list" ast

section \<open>State and emit helpers\<close>

datatype cg_err =
    E_prog_too_large | E_too_many_vars | E_too_many_strings | E_unknown_binary | E_unknown_unary
  | E_null_name

definition CG_MAX_VARS :: nat where "CG_MAX_VARS = 64"

record cg =
  cvm :: vm
  cpos :: nat
  cvars :: "(u8 list \<times> nat) list"
  cerr :: "cg_err option"

definition cg_ok :: "cg \<Rightarrow> bool" where "cg_ok cg \<longleftrightarrow> cerr cg = None"

definition cg_error :: "cg_err \<Rightarrow> cg \<Rightarrow> cg" where
  "cg_error e cg = (if cerr cg = None then cg\<lparr>cerr := Some e\<rparr> else cg)"

text \<open>
  A read through a null pointer. Where the code would stop or go astray, the generator here stops with a mark of
  its own that replaces any earlier error and that no later one replaces; \<open>run_script\<close> in
  \<open>Lxs_Kernel\<close> keeps this end apart from an ordinary error.
\<close>

definition cg_null_read :: "cg \<Rightarrow> cg" where "cg_null_read cg = cg\<lparr>cerr := Some E_null_name\<rparr>"

definition set_prog :: "cg \<Rightarrow> (nat \<Rightarrow> u8) \<Rightarrow> cg" where "set_prog cg p = cg\<lparr>cvm := (cvm cg)\<lparr>vprog := p\<rparr>\<rparr>"

definition emit8 :: "u8 \<Rightarrow> cg \<Rightarrow> cg" where
  "emit8 b cg =
     (if \<not> cg_ok cg then cg
      else if VM_PROG_SIZE - 1 \<le> cpos cg then cg_error E_prog_too_large cg
      else (set_prog cg ((vprog (cvm cg))(cpos cg := b)))\<lparr>cpos := cpos cg + 1\<rparr>)"

definition emit32 :: "u32 \<Rightarrow> cg \<Rightarrow> cg" where
  "emit32 v cg =
     emit8 (ucast (drop_bit 24 v)) (emit8 (ucast (drop_bit 16 v)) (emit8 (ucast (drop_bit 8 v)) (emit8 (ucast v) cg)))"

definition emit_op :: "opcode \<Rightarrow> cg \<Rightarrow> cg" where "emit_op op cg = emit8 (op_num op) cg"

definition emit_jump :: "opcode \<Rightarrow> cg \<Rightarrow> nat \<times> cg" where
  "emit_jump op cg = (let cg1 = emit_op op cg in (cpos cg1, emit32 0 cg1))"

definition cg_patch :: "nat \<Rightarrow> cg \<Rightarrow> cg" where
  "cg_patch off cg = (if \<not> cg_ok cg then cg else set_prog cg (store32 (vprog (cvm cg)) off (of_nat (cpos cg))))"

section \<open>Symbols and strings\<close>

text \<open>
  \<^verbatim>\<open>strncmp(stored, name, len) == 0 && stored[len] == 0\<close>, where \<open>name\<close> has at least \<open>len\<close> characters.
\<close>

definition name_matches :: "u8 list \<Rightarrow> u8 list \<Rightarrow> nat \<Rightarrow> bool" where
  "name_matches stored name len \<longleftrightarrow> take len stored = take len name \<and> length stored = len"

text \<open>What \<^verbatim>\<open>snprintf(name, 64, "%.*s", namelen, name)\<close> stores; the formatter is that of the kernel's library.\<close>

definition stored_name :: "u8 list \<Rightarrow> nat \<Rightarrow> u8 list" where
  "stored_name name len =
     (case fmt_ref (\<lambda>_. Some name) (ascii ''%.*s'') [of_nat len, 0] of None \<Rightarrow> [] | Some t \<Rightarrow> take 63 t)"

definition cg_var_slot :: "u8 list \<Rightarrow> nat \<Rightarrow> cg \<Rightarrow> nat option \<times> cg" where
  "cg_var_slot name len cg =
     (case List.find (\<lambda>v. name_matches (fst v) name len) (cvars cg) of
        Some v \<Rightarrow> (Some (snd v), cg)
      | None \<Rightarrow>
          if CG_MAX_VARS \<le> length (cvars cg) then (None, cg_error E_too_many_vars cg)
          else (Some (length (cvars cg)), cg\<lparr>cvars := cvars cg @ [(stored_name name len, length (cvars cg))]\<rparr>))"

definition cg_native_idx :: "u8 list \<Rightarrow> cg \<Rightarrow> nat option" where
  "cg_native_idx name cg =
     List.find (\<lambda>i. name_matches (fst (vnatives (cvm cg) ! i)) name (length name)) [0..<length (vnatives (cvm cg))]"

definition unquote :: "u8 list \<Rightarrow> u8 list" where
  "unquote t = (if 2 \<le> length t \<and> (t ! 0 = 34 \<or> t ! 0 = 39) then take (length t - 2) (drop 1 t) else t)"

definition cg_intern_str :: "u8 list \<Rightarrow> cg \<Rightarrow> nat \<times> cg" where
  "cg_intern_str t cg =
     (let strs = vstrs (cvm cg)
      in if VM_STR_MAX \<le> length strs then (0, cg_error E_too_many_strings cg)
         else (length strs, cg\<lparr>cvm := (cvm cg)\<lparr>vstrs := strs @ [take (VM_STR_LEN - 1) (unquote t)]\<rparr>\<rparr>))"

definition tok_text :: "u8 list \<Rightarrow> token \<Rightarrow> u8 list" where
  "tok_text src t = take (tlen t) (drop (tstart t) src)"

section \<open>The generator\<close>

fun binop_code :: "token_type \<Rightarrow> opcode option" where
  "binop_code TK_PLUS = Some OP_ADD"
| "binop_code TK_MINUS = Some OP_SUB"
| "binop_code TK_STAR = Some OP_MUL"
| "binop_code TK_SLASH = Some OP_DIV"
| "binop_code TK_PERCENT = Some OP_MOD"
| "binop_code TK_EQEQ = Some OP_EQ"
| "binop_code TK_NEQ = Some OP_NEQ"
| "binop_code TK_LT = Some OP_LT"
| "binop_code TK_GT = Some OP_GT"
| "binop_code TK_LEQ = Some OP_LEQ"
| "binop_code TK_GEQ = Some OP_GEQ"
| "binop_code TK_AND = Some OP_AND"
| "binop_code TK_OR = Some OP_OR"
| "binop_code _ = None"

definition emit_arg :: "opcode \<Rightarrow> u32 \<Rightarrow> cg \<Rightarrow> cg" where "emit_arg op n cg = emit32 n (emit_op op cg)"

definition emit_binop_op :: "token_type \<Rightarrow> cg \<Rightarrow> cg" where
  "emit_binop_op t cg = (case binop_code t of Some op \<Rightarrow> emit_op op cg | None \<Rightarrow> cg_error E_unknown_binary cg)"

definition emit_unop_op :: "token_type \<Rightarrow> cg \<Rightarrow> cg" where
  "emit_unop_op t cg =
     (if t = TK_NOT then emit_op OP_NOT cg
      else if t = TK_MINUS then emit_op OP_MUL (emit_arg OP_PUSH_INT (- 1) cg)
      else cg_error E_unknown_unary cg)"

definition emit_var :: "opcode \<Rightarrow> u8 list \<Rightarrow> nat \<Rightarrow> cg \<Rightarrow> cg" where
  "emit_var op name len cg =
     (case cg_var_slot name len cg of (None, cg1) \<Rightarrow> cg1 | (Some slot, cg1) \<Rightarrow> emit_arg op (of_nat slot) cg1)"

definition emit_call :: "u8 list option \<Rightarrow> nat \<Rightarrow> cg \<Rightarrow> cg" where
  "emit_call name argc cg =
     (case name of None \<Rightarrow> cg_null_read cg
      | Some nm \<Rightarrow>
          (case cg_native_idx nm cg of
             Some ni \<Rightarrow> emit32 (of_nat argc) (emit_arg OP_CALL_NATIVE (of_nat ni) cg)
           | None \<Rightarrow>
               (case cg_var_slot nm (length nm) cg of (None, cg1) \<Rightarrow> cg1
                | (Some slot, cg1) \<Rightarrow> emit_arg OP_CALL (of_nat argc) (emit_arg OP_LOAD (of_nat slot) cg1))))"

text \<open>The stores of the parameters, last one first; a failed slot ends the whole node (\<open>False\<close>).\<close>

fun emit_params :: "u8 list \<Rightarrow> ast list \<Rightarrow> cg \<Rightarrow> bool \<times> cg" where
  "emit_params src [] cg = (True, cg)"
| "emit_params src (p # ps) cg =
     (case p of
        Ast_ident t \<Rightarrow>
          (case cg_var_slot (drop (tstart t) src) (tlen t) cg of (None, cg1) \<Rightarrow> (False, cg1)
           | (Some slot, cg1) \<Rightarrow> emit_params src ps (emit_arg OP_STORE (of_nat slot) cg1))
      | _ \<Rightarrow> (False, cg_null_read cg))"

fun emit_node :: "u8 list \<Rightarrow> ast \<Rightarrow> cg \<Rightarrow> cg"
  and emit_args :: "u8 list \<Rightarrow> ast list \<Rightarrow> cg \<Rightarrow> cg"
  and emit_block :: "u8 list \<Rightarrow> ast list \<Rightarrow> cg \<Rightarrow> cg" where
  "emit_node src Null cg = cg"
| "emit_node src (Ast_int _ i) cg = (if cg_ok cg then emit_arg OP_PUSH_INT (of_int i) cg else cg)"
| "emit_node src (Ast_float _ i) cg = (if cg_ok cg then emit_arg OP_PUSH_INT (of_int i) cg else cg)"
| "emit_node src (Ast_bool _ b) cg = (if cg_ok cg then emit_arg OP_PUSH_BOOL (if b \<noteq> 0 then 1 else 0) cg else cg)"
| "emit_node src (Ast_nil _) cg = (if cg_ok cg then emit_op OP_PUSH_NIL cg else cg)"
| "emit_node src (Ast_string t) cg =
     (if cg_ok cg then let (k, cg1) = cg_intern_str (tok_text src t) cg in emit_arg OP_PUSH_STR (of_nat k) cg1 else cg)"
| "emit_node src (Ast_ident t) cg = (if cg_ok cg then emit_var OP_LOAD (drop (tstart t) src) (tlen t) cg else cg)"
| "emit_node src (Ast_assign _ nm v) cg =
     (if cg_ok cg then emit_var OP_STORE (drop nm src) (length src - nm) (emit_node src v cg) else cg)"
| "emit_node src (Ast_let _ nm i) cg =
     (if cg_ok cg
      then emit_var OP_STORE (drop nm src) (length src - nm) (if i = Null then emit_op OP_PUSH_NIL cg else emit_node src i cg)
      else cg)"
| "emit_node src (Ast_binop _ op l r) cg =
     (if cg_ok cg then emit_binop_op op (emit_node src r (emit_node src l cg)) else cg)"
| "emit_node src (Ast_unop _ op e) cg = (if cg_ok cg then emit_unop_op op (emit_node src e cg) else cg)"
| "emit_node src (Ast_call _ nm args) cg =
     (if cg_ok cg then emit_call nm (length args) (emit_args src args cg) else cg)"
| "emit_node src (Ast_block _ stmts) cg = emit_block src stmts cg"
| "emit_node src (Ast_if _ c t e) cg =
     (if cg_ok cg
      then let cg1 = emit_node src c cg; (else_patch, cg2) = emit_jump OP_JUMP_IF_FALSE cg1;
               cg3 = emit_node src t cg2; (end_patch, cg4) = emit_jump OP_JUMP cg3;
               cg5 = cg_patch else_patch cg4; cg6 = emit_node src e cg5
           in cg_patch end_patch cg6
      else cg)"
| "emit_node src (Ast_while _ c b) cg =
     (if cg_ok cg
      then let loop_top = cpos cg; cg1 = emit_node src c cg; (end_patch, cg2) = emit_jump OP_JUMP_IF_FALSE cg1;
               cg3 = emit_arg OP_JUMP (of_nat loop_top) (emit_node src b cg2)
           in cg_patch end_patch cg3
      else cg)"
| "emit_node src (Ast_fn _ nm ps b) cg =
     (if cg_ok cg
      then let (skip_patch, cg1) = emit_jump OP_JUMP cg; fn_entry = cpos cg1;
               (ok, cg2) = emit_params src (rev ps) cg1
           in if \<not> ok then cg2
              else let cg3 = emit_op OP_RETURN (emit_op OP_PUSH_NIL (emit_node src b cg2));
                       cg4 = cg_patch skip_patch cg3
                   in (case cg_var_slot (drop nm src) (length src - nm) cg4 of (None, cg5) \<Rightarrow> cg5
                       | (Some slot, cg5) \<Rightarrow> emit_arg OP_STORE (of_nat slot) (emit_arg OP_PUSH_INT (of_nat fn_entry) cg5))
      else cg)"
| "emit_node src (Ast_return _ v) cg =
     (if cg_ok cg then emit_op OP_RETURN (if v = Null then emit_op OP_PUSH_NIL cg else emit_node src v cg) else cg)"
| "emit_args src [] cg = cg"
| "emit_args src (a # as) cg = emit_args src as (emit_node src a cg)"
| "emit_block src [] cg = cg"
| "emit_block src (s # ss) cg = (if cg_ok cg then emit_block src ss (emit_node src s cg) else cg)"

definition cg_init :: "vm \<Rightarrow> cg" where "cg_init vm = \<lparr>cvm = vm, cpos = 0, cvars = [], cerr = None\<rparr>"

definition cg_emit :: "u8 list \<Rightarrow> ast \<Rightarrow> cg \<Rightarrow> int \<times> cg" where
  "cg_emit src node cg = (let cg1 = emit_node src node cg in (if cg_ok cg1 then 0 else - 1, cg1))"

definition cg_finalise :: "cg \<Rightarrow> cg" where
  "cg_finalise cg = (let cg1 = emit_op OP_HALT cg in cg1\<lparr>cvm := (cvm cg1)\<lparr>vpc := 0\<rparr>\<rparr>)"

end
