(* ===== verification/Lxs_Code.thy ===== *)
theory Lxs_Code
  imports Lxs_Codegen
begin

text \<open>
  What the emit helpers of the code generator write: the bytes of each instruction in the final
  program, and that later code never changes earlier code except through a backpatched address.
\<close>

abbreviation cprog :: "cg \<Rightarrow> nat \<Rightarrow> u8" where "cprog cg \<equiv> vprog (cvm cg)"

text \<open>Every slot of the symbol table is an index below \<^verbatim>\<open>CG_MAX_VARS\<close>.\<close>

definition slots_ok :: "cg \<Rightarrow> bool" where "slots_ok cg \<longleftrightarrow> (\<forall>v \<in> set (cvars cg). snd v < CG_MAX_VARS)"

definition extends :: "cg \<Rightarrow> cg \<Rightarrow> bool" where
  "extends cg cg' \<longleftrightarrow> cpos cg \<le> cpos cg' \<and> (\<forall>i < cpos cg. cprog cg' i = cprog cg i)
     \<and> vnatives (cvm cg') = vnatives (cvm cg) \<and> vsp (cvm cg') = vsp (cvm cg) \<and> vout (cvm cg') = vout (cvm cg)
     \<and> (slots_ok cg \<longrightarrow> slots_ok cg') \<and> (cg_ok cg' \<longrightarrow> cg_ok cg) \<and> (cpos cg \<le> 65535 \<longrightarrow> cpos cg' \<le> 65535)"

lemma extends_refl [simp]: "extends cg cg" by (simp add: extends_def)

lemma extends_trans [trans]: "extends a b \<Longrightarrow> extends b c \<Longrightarrow> extends a c"
  by (auto simp: extends_def)

lemma extends_okD: "extends a b \<Longrightarrow> cg_ok b \<Longrightarrow> cg_ok a" by (simp add: extends_def)

lemma cg_null_read_not_ok [simp]: "\<not> cg_ok (cg_null_read cg)" by (simp add: cg_null_read_def cg_ok_def)

lemma cg_error_not_ok [simp]: "\<not> cg_ok (cg_error e cg)" by (simp add: cg_error_def cg_ok_def)

text \<open>The rules of the collection \<open>ext\<close> push \<open>extends\<close> through one emit call.\<close>

named_theorems ext \<open>each emit call extends the program\<close>

lemma extends_emit8 [ext]: "extends a b \<Longrightarrow> extends a (emit8 v b)"
  by (auto simp: extends_def emit8_def cg_error_def cg_ok_def set_prog_def VM_PROG_SIZE_def slots_ok_def)

lemma extends_null_read [ext]: "extends a b \<Longrightarrow> extends a (cg_null_read b)"
  by (auto simp: extends_def cg_null_read_def cg_ok_def slots_ok_def)

lemma extends_error [ext]: "extends a b \<Longrightarrow> extends a (cg_error e b)"
  by (auto simp: extends_def cg_error_def cg_ok_def slots_ok_def)

lemma extends_emit32 [ext]: "extends a b \<Longrightarrow> extends a (emit32 v b)"
  unfolding emit32_def by (intro ext)

lemma extends_emit_op [ext]: "extends a b \<Longrightarrow> extends a (emit_op op b)"
  unfolding emit_op_def by (intro ext)

lemma extends_emit_arg [ext]: "extends a b \<Longrightarrow> extends a (emit_arg op n b)"
  unfolding emit_arg_def by (intro ext)

lemma extends_var_slot [ext]: "extends a b \<Longrightarrow> extends a (snd (cg_var_slot name len b))"
  by (auto simp: cg_var_slot_def extends_def cg_ok_def cg_error_def slots_ok_def split: option.splits)

lemma extends_var_slot': "cg_var_slot name len b = (s, c) \<Longrightarrow> extends a b \<Longrightarrow> extends a c"
  using extends_var_slot[of a b name len] by simp

lemma var_slot_less: "cg_var_slot name len b = (Some k, c) \<Longrightarrow> slots_ok b \<Longrightarrow> k < CG_MAX_VARS"
  by (auto simp: cg_var_slot_def slots_ok_def find_Some_iff split: option.splits if_splits)

lemma extends_intern [ext]: "extends a b \<Longrightarrow> extends a (snd (cg_intern_str t b))"
  by (auto simp: cg_intern_str_def extends_def cg_ok_def cg_error_def slots_ok_def Let_def)

lemma emit_var_eq:
  "emit_var op name len b = (case cg_var_slot name len b of (s, c) \<Rightarrow> case s of None \<Rightarrow> c | Some k \<Rightarrow> emit_arg op (of_nat k) c)"
  by (simp add: emit_var_def split: prod.splits option.splits)

lemma extends_emit_var [ext]: "extends a b \<Longrightarrow> extends a (emit_var op name len b)"
  by (cases "cg_var_slot name len b") (auto simp: emit_var_eq split: option.splits intro: ext extends_var_slot')

lemma extends_emit_call [ext]: "extends a b \<Longrightarrow> extends a (emit_call nm n b)"
  by (auto simp: emit_call_def split: prod.splits option.splits intro!: ext dest: extends_var_slot')

lemma extends_binop_op [ext]: "extends a b \<Longrightarrow> extends a (emit_binop_op t b)"
  by (auto simp: emit_binop_op_def split: option.splits intro: ext)

lemma extends_unop_op [ext]: "extends a b \<Longrightarrow> extends a (emit_unop_op t b)"
  unfolding emit_unop_op_def by (auto intro!: ext)

lemma extends_patch: "extends a b \<Longrightarrow> cpos a \<le> off \<Longrightarrow> extends a (cg_patch off b)"
  by (auto simp: extends_def cg_patch_def set_prog_def store32_other cg_ok_def slots_ok_def)

lemma emit_jump_eq: "emit_jump op cg = (cpos (emit_op op cg), emit_arg op 0 cg)"
  by (simp add: emit_jump_def emit_arg_def Let_def)

lemma emit_params_ident:
  "emit_params src (Ast_ident t # ps) b =
     (case cg_var_slot (drop (tstart t) src) (tlen t) b of (s, c) \<Rightarrow>
        case s of None \<Rightarrow> (False, c) | Some k \<Rightarrow> emit_params src ps (emit_arg OP_STORE (of_nat k) c))"
  by (simp split: prod.splits option.splits)

lemma emit_params_other:
  "\<nexists>t. p = Ast_ident t \<Longrightarrow> emit_params src (p # ps) b = (False, cg_null_read b)"
  by (cases p) auto

lemma extends_params [ext]: "extends a b \<Longrightarrow> extends a (snd (emit_params src ps b))"
proof (induction ps arbitrary: b)
  case (Cons p ps)
  show ?case
  proof (cases "\<exists>t. p = Ast_ident t")
    case True
    then obtain t where p: "p = Ast_ident t" by blast
    obtain s c where sc: "cg_var_slot (drop (tstart t) src) (tlen t) b = (s, c)" by fastforce
    have c: "extends a c" using extends_var_slot'[OF sc Cons.prems] .
    show ?thesis using c Cons.IH[of "emit_arg OP_STORE (of_nat k) c" for k] extends_emit_arg[OF c]
      unfolding p emit_params_ident sc by (auto split: option.splits)
  qed (use Cons.prems in \<open>simp add: emit_params_other ext del: emit_params.simps\<close>)
qed simp

lemma extends_cpos: "extends a b \<Longrightarrow> cpos a \<le> cpos b" by (simp add: extends_def)

lemma cpos_emit_op: "cpos cg \<le> cpos (emit_op op cg)" by (intro extends_cpos ext) simp

lemma extends_if:
  assumes "extends cg cg1" and "extends (emit_arg OP_JUMP_IF_FALSE 0 cg1) cg3"
    and "extends (cg_patch (cpos (emit_op OP_JUMP_IF_FALSE cg1)) (emit_arg OP_JUMP 0 cg3)) cg6"
  shows "extends cg (cg_patch (cpos (emit_op OP_JUMP cg3)) cg6)"
proof -
  have a: "extends cg cg3" using extends_trans[OF extends_emit_arg[OF assms(1)] assms(2)] .
  have "cpos cg \<le> cpos (emit_op OP_JUMP_IF_FALSE cg1)" "cpos cg \<le> cpos (emit_op OP_JUMP cg3)"
    using extends_cpos[OF assms(1)] extends_cpos[OF a] cpos_emit_op order_trans by blast+
  then show ?thesis using extends_patch[OF extends_trans[OF extends_patch[OF extends_emit_arg[OF a]] assms(3)]] by blast
qed

lemma extends_while:
  assumes "extends cg cg1" and "extends (emit_arg OP_JUMP_IF_FALSE 0 cg1) cg3"
  shows "extends cg (cg_patch (cpos (emit_op OP_JUMP_IF_FALSE cg1)) (emit_arg OP_JUMP n cg3))"
  using extends_patch[OF extends_emit_arg[OF extends_trans[OF extends_emit_arg[OF assms(1)] assms(2)]]]
    order_trans[OF extends_cpos[OF assms(1)] cpos_emit_op] by blast

lemma extends_fn:
  assumes "extends (emit_arg OP_JUMP 0 cg) cg2" and "extends cg2 cg3"
  shows "extends cg (cg_patch (cpos (emit_op OP_JUMP cg)) (emit_op OP_RETURN (emit_op OP_PUSH_NIL cg3)))"
  using extends_trans[OF assms] by (intro extends_patch cpos_emit_op ext) (blast intro: extends_trans ext extends_refl)

lemma extends_emit:
  "extends cg (emit_node src n cg)"
  "extends cg (emit_args src ns cg)"
  "extends cg (emit_block src ns cg)"
proof (induction src n cg and src ns cg and src ns cg rule: emit_node_emit_args_emit_block.induct)
  case (6 src t cg)
  then show ?case using extends_intern[OF extends_refl, of cg "tok_text src t"] by (auto split: prod.splits intro: ext)
next
  case (14 src tok c t e cg)
  then show ?case by (auto simp: emit_jump_eq Let_def intro!: extends_if)
next
  case (15 src tok c b cg)
  then show ?case by (auto simp: emit_jump_eq Let_def intro!: extends_while)
next
  case (16 src tok nm ps b cg)
  show ?case
  proof (cases "cg_ok cg")
    case True
    obtain ok cg2 where p: "emit_params src (rev ps) (emit_arg OP_JUMP 0 cg) = (ok, cg2)" by fastforce
    have e2: "extends (emit_arg OP_JUMP 0 cg) cg2"
      using extends_params[OF extends_refl, of "emit_arg OP_JUMP 0 cg" src "rev ps"] p by simp
    let ?cg4 = "cg_patch (cpos (emit_op OP_JUMP cg)) (emit_op OP_RETURN (emit_op OP_PUSH_NIL (emit_node src b cg2)))"
    have IH: "extends cg2 (emit_node src b cg2)" if ok using 16 True p that by (simp add: emit_jump_eq)
    have e4: "extends cg ?cg4" if ok using extends_fn[OF e2 IH[OF that]] .
    obtain s cg5 where v: "cg_var_slot (drop nm src) (length src - nm) ?cg4 = (s, cg5)" by fastforce
    have e5: "extends cg cg5" if ok using extends_var_slot'[OF v e4[OF that]] .
    have e2': "extends cg cg2" using extends_trans[OF extends_emit_arg[OF extends_refl] e2] .
    show ?thesis using True p v e2' e5 by (auto simp: emit_jump_eq Let_def split: option.splits intro: ext)
  qed simp
next
  case (19 src a as cg)
  then show ?case by (auto intro: extends_trans)
next
  case (21 src a as cg)
  then show ?case by (auto intro: extends_trans)
qed (auto intro!: ext intro: extends_trans)

section \<open>Bytes of the final program\<close>

text \<open>\<open>P\<close> holds what the generator has written from \<open>p\<close> on.\<close>

definition code_at :: "(nat \<Rightarrow> u8) \<Rightarrow> cg \<Rightarrow> nat \<Rightarrow> bool" where
  "code_at P cg p \<longleftrightarrow> (\<forall>i. p \<le> i \<and> i < cpos cg \<longrightarrow> P i = cprog cg i)"

lemma code_at_extends: "code_at P b p \<Longrightarrow> extends a b \<Longrightarrow> code_at P a p"
  by (auto simp: code_at_def extends_def)

lemma code_at_mono: "code_at P b p \<Longrightarrow> p \<le> q \<Longrightarrow> code_at P b q"
  by (auto simp: code_at_def)

lemma emit8_bytes:
  assumes "cg_ok (emit8 b cg)" and "code_at P (emit8 b cg) p" and "p \<le> cpos cg"
  shows "P (cpos cg) = b \<and> cpos (emit8 b cg) = cpos cg + 1 \<and> cpos cg + 1 \<le> 65535 \<and> cg_ok cg \<and> code_at P cg p"
  using assms by (auto simp: emit8_def code_at_def set_prog_def VM_PROG_SIZE_def split: if_splits)

lemma op_bytes:
  assumes "cg_ok (emit_op op cg)" and "code_at P (emit_op op cg) p" and "p \<le> cpos cg"
  shows "P (cpos cg) = op_num op \<and> cpos (emit_op op cg) = cpos cg + 1 \<and> cpos cg + 1 \<le> 65535 \<and> cg_ok cg \<and> code_at P cg p"
  using emit8_bytes assms unfolding emit_op_def by blast

lemma le_bytes_4: "le_bytes 4 (v :: u32) = [ucast v, ucast (drop_bit 8 v), ucast (drop_bit 16 v), ucast (drop_bit 24 v)]"
  by (simp add: numeral_eq_Suc drop_bit_drop_bit)

lemma load32_bytes:
  assumes "P a = ucast (v :: u32)" and "P (a + 1) = ucast (drop_bit 8 v)" and "P (a + 2) = ucast (drop_bit 16 v)"
    and "P (a + 3) = ucast (drop_bit 24 v)"
  shows "load32 P a = v"
proof -
  have "load_bytes P a 4 = le_bytes 4 v" unfolding le_bytes_4
    using assms by (simp add: load_bytes_def upt_conv_Cons eval_nat_numeral)
  then show ?thesis by (simp add: load32_def le_word_le_bytes)
qed

lemma emit32_bytes:
  assumes ok: "cg_ok (emit32 v cg)" and P: "code_at P (emit32 v cg) p" and p: "p \<le> cpos cg"
  shows "load32 P (cpos cg) = v \<and> cpos (emit32 v cg) = cpos cg + 4 \<and> cpos cg + 4 \<le> 65535 \<and> cg_ok cg \<and> code_at P cg p"
proof -
  let ?a = "emit8 (ucast v) cg"
  let ?b = "emit8 (ucast (drop_bit 8 v)) ?a"
  let ?c = "emit8 (ucast (drop_bit 16 v)) ?b"
  have e: "extends cg ?a" "extends ?a ?b" "extends ?b ?c" by (rule extends_emit8[OF extends_refl])+
  have le: "p \<le> cpos ?a" "p \<le> cpos ?b" "p \<le> cpos ?c" using e[THEN extends_cpos] p by auto
  have d: "P (cpos ?c) = ucast (drop_bit 24 v)" "cpos (emit32 v cg) = cpos ?c + 1" "cpos ?c + 1 \<le> 65535" "cg_ok ?c" "code_at P ?c p"
    using emit8_bytes[OF ok[unfolded emit32_def] P[unfolded emit32_def] le(3)] by (simp_all add: emit32_def)
  have c: "P (cpos ?b) = ucast (drop_bit 16 v)" "cpos ?c = cpos ?b + 1" "cg_ok ?b" "code_at P ?b p"
    using emit8_bytes[OF d(4,5) le(2)] by simp_all
  have b: "P (cpos ?a) = ucast (drop_bit 8 v)" "cpos ?b = cpos ?a + 1" "cg_ok ?a" "code_at P ?a p"
    using emit8_bytes[OF c(3,4) le(1)] by simp_all
  have a: "P (cpos cg) = ucast v" "cpos ?a = cpos cg + 1" "cg_ok cg" "code_at P cg p"
    using emit8_bytes[OF b(3,4) p] by simp_all
  have pos: "cpos ?a = cpos cg + 1" "cpos ?b = cpos cg + 2" "cpos ?c = cpos cg + 3" using a(2) b(2) c(2) by linarith+
  have "load32 P (cpos cg) = v"
    by (rule load32_bytes[OF a(1) b(1)[unfolded pos] c(1)[unfolded pos] d(1)[unfolded pos]])
  moreover have "cpos (emit32 v cg) = cpos cg + 4" "cpos cg + 4 \<le> 65535" using d(2,3) pos(3) by linarith+
  ultimately show ?thesis using a(3,4) by blast
qed

lemma arg_bytes:
  assumes "cg_ok (emit_arg op n cg)" and "code_at P (emit_arg op n cg) p" and "p \<le> cpos cg"
  shows "P (cpos cg) = op_num op \<and> load32 P (cpos cg + 1) = n \<and> cpos (emit_arg op n cg) = cpos cg + 5
    \<and> cpos cg + 5 \<le> 65535 \<and> cg_ok cg \<and> code_at P cg p"
proof -
  have "p \<le> cpos (emit_op op cg)" using assms(3) cpos_emit_op order_trans by blast
  then have a: "load32 P (cpos (emit_op op cg)) = n" "cpos (emit_arg op n cg) = cpos (emit_op op cg) + 4"
    "cpos (emit_op op cg) + 4 \<le> 65535" "cg_ok (emit_op op cg)" "code_at P (emit_op op cg) p"
    using emit32_bytes assms(1,2) unfolding emit_arg_def by blast+
  show ?thesis using a op_bytes[OF a(4,5) assms(3)] by simp
qed

text \<open>A backpatched jump: the address field holds the position at the time of the patch.\<close>

lemma patch_bytes:
  assumes ok: "cg_ok (cg_patch off cg)" and P: "code_at P (cg_patch off cg) p" and "p \<le> off" and "off + 4 \<le> cpos cg"
  shows "load32 P off = of_nat (cpos cg) \<and> (\<forall>i. p \<le> i \<and> i < cpos cg \<and> (i < off \<or> off + 4 \<le> i) \<longrightarrow> P i = cprog cg i)
    \<and> cpos (cg_patch off cg) = cpos cg \<and> cg_ok cg"
proof -
  have okc: "cg_ok cg" using ok by (auto simp: cg_patch_def split: if_splits)
  have eq: "P i = store32 (cprog cg) off (of_nat (cpos cg)) i" if "p \<le> i" "i < cpos cg" for i
    using P that okc by (simp add: code_at_def cg_patch_def set_prog_def)
  have "load32 P off = load32 (store32 (cprog cg) off (of_nat (cpos cg))) off"
    by (rule load32_cong) (use eq assms(3,4) in simp)
  moreover have "P i = cprog cg i" if "p \<le> i" "i < cpos cg" "i < off \<or> off + 4 \<le> i" for i
    using eq that by (simp add: store32_other)
  ultimately show ?thesis using okc by (simp add: cg_patch_def set_prog_def)
qed

section \<open>Jumps\<close>

lemma code_at_self: "code_at (cprog cg) cg p" by (simp add: code_at_def)

lemma cpos_arg:
  "cg_ok (emit_arg op n cg) \<Longrightarrow> cpos (emit_arg op n cg) = cpos cg + 5 \<and> cpos cg + 5 \<le> 65535 \<and> cg_ok cg
     \<and> cprog (emit_arg op n cg) (cpos cg) = op_num op \<and> cpos (emit_op op cg) = cpos cg + 1"
proof -
  assume ok: "cg_ok (emit_arg op n cg)"
  have "cg_ok (emit_op op cg)"
    using emit32_bytes[OF ok[unfolded emit_arg_def] code_at_self[of _ "cpos cg"] cpos_emit_op] by simp
  then show ?thesis using arg_bytes[OF ok code_at_self order_refl] op_bytes[OF _ code_at_self order_refl, of op cg] by simp
qed

text \<open>
  A jump emitted at \<open>cpos a\<close> and patched when the generator has reached \<open>b\<close>.
\<close>

lemma jump_patched:
  assumes ok: "cg_ok (cg_patch (cpos (emit_op op a)) b)" and P: "code_at P (cg_patch (cpos (emit_op op a)) b) p"
    and p: "p \<le> cpos a" and oka: "cg_ok (emit_arg op 0 a)" and le: "cpos a + 5 \<le> cpos b"
    and keep: "cprog b (cpos a) = op_num op"
  shows "P (cpos a) = op_num op \<and> load32 P (cpos a + 1) = of_nat (cpos b)
    \<and> (\<forall>i. p \<le> i \<and> i < cpos b \<and> (i \<le> cpos a \<or> cpos a + 5 \<le> i) \<longrightarrow> P i = cprog b i)
    \<and> cpos (cg_patch (cpos (emit_op op a)) b) = cpos b \<and> cg_ok b"
proof -
  have off: "cpos (emit_op op a) = cpos a + 1" using cpos_arg[OF oka] by simp
  have b: "load32 P (cpos a + 1) = of_nat (cpos b)" "cpos (cg_patch (cpos a + 1) b) = cpos b" "cg_ok b"
    "\<forall>i. p \<le> i \<and> i < cpos b \<and> (i < cpos a + 1 \<or> cpos a + 1 + 4 \<le> i) \<longrightarrow> P i = cprog b i"
    using patch_bytes[OF ok[unfolded off] P[unfolded off]] p le by auto
  then show ?thesis using keep p le off by (simp add: less_Suc_eq_le add.commute)
qed

lemma if_layout:
  fixes cg1 cg3 cg6
  defines "cg2 \<equiv> emit_arg OP_JUMP_IF_FALSE 0 cg1" and "cg4 \<equiv> emit_arg OP_JUMP 0 cg3"
    and "pat1 \<equiv> cpos (emit_op OP_JUMP_IF_FALSE cg1)" and "pat2 \<equiv> cpos (emit_op OP_JUMP cg3)"
  defines "cg5 \<equiv> cg_patch pat1 cg4"
  assumes ok: "cg_ok (cg_patch pat2 cg6)" and P: "code_at P (cg_patch pat2 cg6) p" and p: "p \<le> cpos cg1"
    and e3: "extends cg2 cg3" and e6: "extends cg5 cg6"
  shows "P (cpos cg1) = op_num OP_JUMP_IF_FALSE \<and> load32 P (cpos cg1 + 1) = of_nat (cpos cg5)
    \<and> P (cpos cg3) = op_num OP_JUMP \<and> load32 P (cpos cg3 + 1) = of_nat (cpos cg6)
    \<and> cpos cg2 = cpos cg1 + 5 \<and> cpos cg2 \<le> cpos cg3 \<and> cpos cg5 = cpos cg3 + 5 \<and> cpos cg5 \<le> cpos cg6
    \<and> cpos cg6 \<le> 65535 \<and> cpos (cg_patch pat2 cg6) = cpos cg6 \<and> cg_ok cg1 \<and> cg_ok cg3 \<and> cg_ok cg6
    \<and> code_at P cg1 p \<and> code_at P cg3 (cpos cg2) \<and> code_at P cg6 (cpos cg5)"
proof -
  have ok6: "cg_ok cg6" using ok by (auto simp: cg_patch_def split: if_splits)
  have ok5: "cg_ok cg5" using extends_okD[OF e6 ok6] .
  have ok4: "cg_ok cg4" using ok5 by (auto simp: cg5_def cg_patch_def split: if_splits)
  have j4: "cpos cg4 = cpos cg3 + 5" "cpos cg3 + 5 \<le> 65535" "cg_ok cg3" "cprog cg4 (cpos cg3) = op_num OP_JUMP" "pat2 = cpos cg3 + 1"
    using cpos_arg[OF ok4[unfolded cg4_def]] by (simp_all add: cg4_def pat2_def)
  have ok2: "cg_ok cg2" using extends_okD[OF e3 j4(3)] .
  have j2: "cpos cg2 = cpos cg1 + 5" "cpos cg1 + 5 \<le> 65535" "cg_ok cg1" "cprog cg2 (cpos cg1) = op_num OP_JUMP_IF_FALSE" "pat1 = cpos cg1 + 1"
    using cpos_arg[OF ok2[unfolded cg2_def]] by (simp_all add: cg2_def pat1_def)
  have le23: "cpos cg2 \<le> cpos cg3" and le56: "cpos cg5 \<le> cpos cg6" using e3 e6 extends_cpos by blast+
  have p5: "cpos cg5 = cpos cg4" by (simp add: cg5_def cg_patch_def set_prog_def)
  have le6: "cpos cg6 \<le> 65535" using e6 p5 j4 by (simp add: extends_def)
  have b5: "cprog cg5 = store32 (cprog cg4) (cpos cg1 + 1) (of_nat (cpos cg4))"
    using ok4 j2(5) by (simp add: cg5_def cg_patch_def set_prog_def)
  have b6: "cprog cg6 i = cprog cg5 i" if "i < cpos cg3 + 5" for i using e6 p5 j4(1) that by (simp add: extends_def)
  have b4: "cprog cg4 i = cprog cg3 i" if "i < cpos cg3" for i
    using extends_emit_arg[OF extends_refl, of cg3 OP_JUMP 0] that by (simp add: extends_def cg4_def)
  have b3: "cprog cg3 i = cprog cg2 i" if "i < cpos cg1 + 5" for i using e3 j2(1) that by (simp add: extends_def)
  have keep: "cprog cg6 (cpos cg3) = op_num OP_JUMP"
    using b6[of "cpos cg3"] b5 j4(4) le23 j2(1) by (simp add: store32_other)
  have J: "P (cpos cg3) = op_num OP_JUMP" "load32 P (cpos cg3 + 1) = of_nat (cpos cg6)"
    "\<And>i. p \<le> i \<Longrightarrow> i < cpos cg6 \<Longrightarrow> i \<le> cpos cg3 \<or> cpos cg3 + 5 \<le> i \<Longrightarrow> P i = cprog cg6 i"
    "cpos (cg_patch pat2 cg6) = cpos cg6"
    using jump_patched[OF ok[unfolded pat2_def] P[unfolded pat2_def] _ ok4[unfolded cg4_def] _ keep] p le23 le56 j2(1) j4(1) p5
    by (auto simp: pat2_def)
  have P5: "P i = cprog cg5 i" if "p \<le> i" "i \<le> cpos cg3" for i
    using J(3)[of i] b6[of i] that le56 p5 j4(1) by simp
  have P4: "P i = cprog cg4 i" if "p \<le> i" "i \<le> cpos cg3" "i \<le> cpos cg1 \<or> cpos cg1 + 5 \<le> i" for i
    using P5[of i] that by (simp add: b5) (auto intro: store32_other)
  have P1: "P (cpos cg1) = op_num OP_JUMP_IF_FALSE"
    using P4[of "cpos cg1"] b4[of "cpos cg1"] b3[of "cpos cg1"] p le23 j2 by simp
  have L1: "load32 P (cpos cg1 + 1) = of_nat (cpos cg4)"
  proof -
    have "load32 P (cpos cg1 + 1) = load32 (cprog cg5) (cpos cg1 + 1)"
      by (rule load32_cong) (use P5 p le23 j2(1) in simp)
    then show ?thesis by (simp add: b5)
  qed
  have C1: "code_at P cg1 p" unfolding code_at_def
    using P4 b4 b3 le23 j2(1) extends_emit_arg[OF extends_refl, of cg1 OP_JUMP_IF_FALSE 0]
    by (auto simp: extends_def cg2_def)
  have C3: "code_at P cg3 (cpos cg2)" unfolding code_at_def using P4 b4 p j2(1) by auto
  have C6: "code_at P cg6 (cpos cg5)" unfolding code_at_def using J(3) p p5 j4(1) j2(1) le23 by auto
  show ?thesis using P1 L1 J(1,2,4) j2(1,3) j4(1,3) le23 le56 p5 le6 ok6 C1 C3 C6 by auto
qed

lemma jump_layout:
  fixes op a b
  defines "a1 \<equiv> emit_arg op 0 a" and "off \<equiv> cpos (emit_op op a)"
  assumes ok: "cg_ok (cg_patch off b)" and P: "code_at P (cg_patch off b) p" and p: "p \<le> cpos a" and e: "extends a1 b"
  shows "P (cpos a) = op_num op \<and> load32 P (cpos a + 1) = of_nat (cpos b) \<and> cpos a1 = cpos a + 5 \<and> cpos a1 \<le> cpos b
    \<and> cpos b \<le> 65535 \<and> cpos (cg_patch off b) = cpos b \<and> cg_ok a \<and> cg_ok b \<and> code_at P a p \<and> code_at P b (cpos a1)"
proof -
  have okb: "cg_ok b" using ok by (auto simp: cg_patch_def split: if_splits)
  have oka: "cg_ok a1" using extends_okD[OF e okb] .
  have j: "cpos a1 = cpos a + 5" "cpos a + 5 \<le> 65535" "cg_ok a" "cprog a1 (cpos a) = op_num op"
    using cpos_arg[OF oka[unfolded a1_def]] by (simp_all add: a1_def)
  have le: "cpos a1 \<le> cpos b" "cpos b \<le> 65535" using e j by (simp_all add: extends_def)
  have keep: "cprog b i = cprog a1 i" if "i < cpos a + 5" for i using e j(1) that by (simp add: extends_def)
  have J: "P (cpos a) = op_num op" "load32 P (cpos a + 1) = of_nat (cpos b)" "cpos (cg_patch off b) = cpos b"
    "\<And>i. p \<le> i \<Longrightarrow> i < cpos b \<Longrightarrow> i \<le> cpos a \<or> cpos a + 5 \<le> i \<Longrightarrow> P i = cprog b i"
    using jump_patched[OF ok[unfolded off_def] P[unfolded off_def] p oka[unfolded a1_def]] le keep[of "cpos a"] j
    by (auto simp: off_def)
  have "code_at P a p" unfolding code_at_def
    using J(4) keep le j(1) extends_emit_arg[OF extends_refl, of a op 0] by (auto simp: extends_def a1_def)
  moreover have "code_at P b (cpos a1)" unfolding code_at_def using J(4) p j(1) by auto
  ultimately show ?thesis using J j le okb by auto
qed

end
