(* ===== verification/Lxs_Safe.thy ===== *)
theory Lxs_Safe
  imports Lxs_Code
begin

text \<open>
  Compiled programs are safe to run: the bytes that the code generator produces from any tree
  decompose into instructions whose operands are in range and whose successors are instructions
  again, so the machine never reads outside its program, stack or variables.
\<close>

section \<open>Well-formed code\<close>

definition op_args :: "opcode \<Rightarrow> nat" where
  "op_args op =
     (if op \<in> {OP_PUSH_INT, OP_PUSH_BOOL, OP_PUSH_STR, OP_LOAD, OP_STORE, OP_JUMP, OP_JUMP_IF_FALSE, OP_CALL} then 4
      else if op = OP_CALL_NATIVE then 8 else 0)"

text \<open>The instruction at \<open>b\<close> has operands in range and continues at positions of \<open>E\<close> only.\<close>

definition safe_at :: "(nat \<Rightarrow> u8) \<Rightarrow> nat \<Rightarrow> nat set \<Rightarrow> bool" where
  "safe_at P b E \<longleftrightarrow> (\<exists>op. P b = op_num op \<and> b + 1 + op_args op \<le> 65535
     \<and> (op \<in> {OP_JUMP, OP_JUMP_IF_FALSE} \<longrightarrow> unat (load32 P (b + 1)) \<in> E)
     \<and> (op \<in> {OP_LOAD, OP_STORE} \<longrightarrow> unat (load32 P (b + 1)) < VM_VARS_SIZE)
     \<and> (op \<notin> {OP_JUMP, OP_RETURN, OP_HALT} \<longrightarrow> b + 1 + op_args op \<in> E))"

text \<open>\<open>B\<close> is the set of instruction starts of the code from \<open>p\<close> to \<open>q\<close>; \<open>X\<close> are further jump targets.\<close>

definition seg :: "(nat \<Rightarrow> u8) \<Rightarrow> nat \<Rightarrow> nat \<Rightarrow> nat set \<Rightarrow> nat set \<Rightarrow> bool" where
  "seg P p q X B \<longleftrightarrow> B \<subseteq> {p..<q} \<and> p \<in> insert q B \<and> p \<le> q \<and> (\<forall>b \<in> B. safe_at P b (insert q B \<union> X))"

lemma safe_at_mono: "safe_at P b E \<Longrightarrow> E \<subseteq> E' \<Longrightarrow> safe_at P b E'"
  unfolding safe_at_def by blast

lemma seg_empty: "seg P p p X {}" by (simp add: seg_def)

lemma seg_append: "seg P p q X B \<Longrightarrow> seg P q r X B' \<Longrightarrow> seg P p r X (B \<union> B')"
  unfolding seg_def by (force elim: safe_at_mono)

lemma seg_close: "seg P p q X B \<Longrightarrow> X \<subseteq> insert q B \<Longrightarrow> seg P p q {} B"
  unfolding seg_def by (auto elim!: safe_at_mono)

lemma seg_open: "seg P p q {} B \<Longrightarrow> seg P p q X B"
  unfolding seg_def by (auto elim: safe_at_mono)

lemma seg_start: "seg P p q X B \<Longrightarrow> p \<in> insert q B" by (simp add: seg_def)

lemma seg_single: "safe_at P p {q} \<Longrightarrow> p < q \<Longrightarrow> seg P p q X {p}"
  unfolding seg_def by (auto elim: safe_at_mono)

lemma seg_jump: "safe_at P p {q, x} \<Longrightarrow> p < q \<Longrightarrow> x \<in> X \<Longrightarrow> seg P p q X {p}"
  unfolding seg_def by (auto elim!: safe_at_mono)

lemma seg_op:
  assumes "cg_ok (emit_op op cg)" and "code_at P (emit_op op cg) (cpos cg)" and "op_args op = 0"
  shows "seg P (cpos cg) (cpos (emit_op op cg)) X {cpos cg}"
  using op_bytes[OF assms(1,2)] assms(3)
  by (intro seg_single) (auto simp: safe_at_def op_args_def intro!: exI[of _ op] split: if_splits)

lemma seg_arg:
  assumes "cg_ok (emit_arg op n cg)" and "code_at P (emit_arg op n cg) (cpos cg)" and "op_args op = 4"
    and "op \<notin> {OP_JUMP, OP_JUMP_IF_FALSE}" and "op \<in> {OP_LOAD, OP_STORE} \<Longrightarrow> unat n < VM_VARS_SIZE"
  shows "seg P (cpos cg) (cpos (emit_arg op n cg)) X {cpos cg}"
  using arg_bytes[OF assms(1,2)] assms(3-)
  by (intro seg_single) (auto simp: safe_at_def intro!: exI[of _ op])

lemma seg_slot:
  assumes "cg_ok (emit_arg op (of_nat k) cg)" and "code_at P (emit_arg op (of_nat k) cg) (cpos cg)"
    and "op \<in> {OP_LOAD, OP_STORE}" and "k < CG_MAX_VARS"
  shows "seg P (cpos cg) (cpos (emit_arg op (of_nat k) cg)) X {cpos cg}"
proof (rule seg_arg[OF assms(1,2)])
  have "unat (of_nat k :: u32) = k" using assms(4) by (intro unat_of_nat32) (simp add: CG_MAX_VARS_def)
  then show "unat (of_nat k :: u32) < VM_VARS_SIZE" using assms(4) by (simp add: CG_MAX_VARS_def VM_VARS_SIZE_def)
qed (use assms(3) in \<open>auto simp: op_args_def\<close>)

text \<open>One more emit call after code that is already well formed.\<close>

definition good :: "(nat \<Rightarrow> u8) \<Rightarrow> nat \<Rightarrow> cg \<Rightarrow> bool" where
  "good P p cg \<longleftrightarrow> (\<exists>B. seg P p (cpos cg) {} B)"

lemma good_seg: "good P p a \<Longrightarrow> seg P (cpos a) (cpos b) {} B \<Longrightarrow> good P p b"
  unfolding good_def by (meson seg_append)

lemma good_refl: "good P (cpos a) a" unfolding good_def using seg_empty by blast

lemma good_op:
  assumes "cg_ok (emit_op op cg)" and "code_at P (emit_op op cg) p" and "op_args op = 0"
    and "p \<le> cpos cg" and "good P p cg"
  shows "good P p (emit_op op cg)"
  using good_seg[OF assms(5) seg_op] assms(1-4) code_at_mono by blast

lemma good_arg:
  assumes "cg_ok (emit_arg op n cg)" and "code_at P (emit_arg op n cg) p" and "op_args op = 4"
    and "op \<notin> {OP_JUMP, OP_JUMP_IF_FALSE, OP_LOAD, OP_STORE}" and "p \<le> cpos cg" and "good P p cg"
  shows "good P p (emit_arg op n cg)"
  using good_seg[OF assms(6) seg_arg[OF assms(1) code_at_mono[OF assms(2,5)] assms(3)]] assms(4) by blast

lemma good_slot:
  assumes "cg_ok (emit_arg op (of_nat k) cg)" and "code_at P (emit_arg op (of_nat k) cg) p"
    and "op \<in> {OP_LOAD, OP_STORE}" and "k < CG_MAX_VARS" and "p \<le> cpos cg" and "good P p cg"
  shows "good P p (emit_arg op (of_nat k) cg)"
  using good_seg[OF assms(6) seg_slot[OF assms(1) code_at_mono[OF assms(2,5)] assms(3,4)]] .

section \<open>Jumps\<close>

lemma seg_jump_at:
  assumes "P a = op_num op" and "load32 P (a + 1) = of_nat t" and "op \<in> {OP_JUMP, OP_JUMP_IF_FALSE}"
    and "a + 5 \<le> 65535" and "t \<le> 65535" and "t \<in> X"
  shows "seg P a (a + 5) X {a}"
proof -
  have "unat (of_nat t :: u32) = t" using assms(5) by (intro unat_of_nat32) simp
  then have "safe_at P a {a + 5, t}" unfolding safe_at_def
    by (intro exI[of _ op]) (use assms in \<open>auto simp: op_args_def\<close>)
  then show ?thesis by (rule seg_jump) (use assms in auto)
qed

lemma good_if:
  fixes cg1 cg3 cg6
  defines "cg2 \<equiv> emit_arg OP_JUMP_IF_FALSE 0 cg1" and "cg4 \<equiv> emit_arg OP_JUMP 0 cg3"
    and "pat1 \<equiv> cpos (emit_op OP_JUMP_IF_FALSE cg1)" and "pat2 \<equiv> cpos (emit_op OP_JUMP cg3)"
  defines "cg5 \<equiv> cg_patch pat1 cg4"
  assumes ok: "cg_ok (cg_patch pat2 cg6)" and P: "code_at P (cg_patch pat2 cg6) p" and p: "p \<le> cpos cg1"
    and e3: "extends cg2 cg3" and e6: "extends cg5 cg6"
    and c: "cg_ok cg1 \<Longrightarrow> code_at P cg1 p \<Longrightarrow> good P p cg1"
    and t: "cg_ok cg3 \<Longrightarrow> code_at P cg3 (cpos cg2) \<Longrightarrow> good P (cpos cg2) cg3"
    and e: "cg_ok cg6 \<Longrightarrow> code_at P cg6 (cpos cg5) \<Longrightarrow> good P (cpos cg5) cg6"
  shows "good P p (cg_patch pat2 cg6)"
proof -
  note L = if_layout[OF ok[unfolded pat2_def] P[unfolded pat2_def] p e3[unfolded cg2_def] e6[unfolded cg5_def pat1_def cg4_def],
      folded cg2_def cg4_def pat1_def pat2_def, folded cg5_def]
  obtain B1 where B1: "seg P p (cpos cg1) {} B1" using c L by (auto simp: good_def)
  obtain B2 where B2: "seg P (cpos cg1 + 5) (cpos cg3) {} B2" using t L by (auto simp: good_def)
  obtain B3 where B3: "seg P (cpos cg3 + 5) (cpos cg6) {} B3" using e L by (auto simp: good_def)
  let ?X = "{cpos cg3 + 5, cpos cg6}"
  have s1: "seg P (cpos cg1) (cpos cg1 + 5) ?X {cpos cg1}"
    by (rule seg_jump_at[of _ _ OP_JUMP_IF_FALSE "cpos cg5"]) (use L in auto)
  have s2: "seg P (cpos cg3) (cpos cg3 + 5) ?X {cpos cg3}"
    by (rule seg_jump_at[of _ _ OP_JUMP "cpos cg6"]) (use L in auto)
  have "seg P p (cpos cg6) ?X ((((B1 \<union> {cpos cg1}) \<union> B2) \<union> {cpos cg3}) \<union> B3)"
    using seg_append[OF seg_append[OF seg_append[OF seg_append[OF seg_open[OF B1] s1] seg_open[OF B2]] s2] seg_open[OF B3]] .
  then have "seg P p (cpos cg6) {} ((((B1 \<union> {cpos cg1}) \<union> B2) \<union> {cpos cg3}) \<union> B3)"
    by (rule seg_close) (use seg_start[OF B3] in auto)
  then show ?thesis using L by (auto simp: good_def)
qed

lemma good_while:
  fixes cg cg1 cg3
  defines "cg2 \<equiv> emit_arg OP_JUMP_IF_FALSE 0 cg1" and "cg4 \<equiv> emit_arg OP_JUMP (of_nat (cpos cg)) cg3"
    and "off \<equiv> cpos (emit_op OP_JUMP_IF_FALSE cg1)"
  assumes ok: "cg_ok (cg_patch off cg4)" and P: "code_at P (cg_patch off cg4) p" and p: "p \<le> cpos cg"
    and e1: "extends cg cg1" and e3: "extends cg2 cg3" and g: "good P p cg"
    and c: "cg_ok cg1 \<Longrightarrow> code_at P cg1 (cpos cg) \<Longrightarrow> good P (cpos cg) cg1"
    and b: "cg_ok cg3 \<Longrightarrow> code_at P cg3 (cpos cg2) \<Longrightarrow> good P (cpos cg2) cg3"
  shows "good P p (cg_patch off cg4)"
proof -
  have le: "cpos cg \<le> cpos cg1" using extends_cpos[OF e1] .
  note L = jump_layout[OF ok[unfolded off_def cg4_def] P[unfolded off_def cg4_def] order_trans[OF p le]
      extends_emit_arg[OF e3[unfolded cg2_def], of OP_JUMP "of_nat (cpos cg)"], folded cg2_def cg4_def off_def]
  have A: "cpos cg2 = cpos cg1 + 5" "cpos cg4 \<le> 65535" "cg_ok cg4" "code_at P cg4 (cpos cg2)" using L by auto
  have J: "P (cpos cg3) = op_num OP_JUMP" "load32 P (cpos cg3 + 1) = of_nat (cpos cg)" "cpos cg4 = cpos cg3 + 5"
      "cg_ok cg3" "code_at P cg3 (cpos cg2)"
    using arg_bytes[OF A(3)[unfolded cg4_def] A(4)[unfolded cg4_def] extends_cpos[OF e3]] by (auto simp: cg4_def)
  obtain B1 where B1: "seg P (cpos cg) (cpos cg1) {} B1" using c L code_at_mono[OF _ p] by (auto simp: good_def)
  obtain B2 where B2: "seg P (cpos cg1 + 5) (cpos cg3) {} B2" using b J A by (auto simp: good_def)
  let ?X = "{cpos cg, cpos cg4}"
  have s1: "seg P (cpos cg1) (cpos cg1 + 5) ?X {cpos cg1}"
    by (rule seg_jump_at[of _ _ OP_JUMP_IF_FALSE "cpos cg4"]) (use L in auto)
  have s2: "seg P (cpos cg3) (cpos cg4) ?X {cpos cg3}" unfolding J(3)
    by (rule seg_jump_at[of _ _ OP_JUMP "cpos cg"]) (use J A le extends_cpos[OF e3] in auto)
  have "seg P (cpos cg) (cpos cg4) ?X (((B1 \<union> {cpos cg1}) \<union> B2) \<union> {cpos cg3})"
    using seg_append[OF seg_append[OF seg_append[OF seg_open[OF B1] s1] seg_open[OF B2]] s2] .
  then have "seg P (cpos cg) (cpos cg4) {} (((B1 \<union> {cpos cg1}) \<union> B2) \<union> {cpos cg3})"
    by (rule seg_close) (use seg_start[OF B1] in auto)
  then show ?thesis using good_seg[OF g] L by (simp add: good_def)
qed

lemma good_fn:
  fixes cg cgr
  defines "cg1 \<equiv> emit_arg OP_JUMP 0 cg" and "off \<equiv> cpos (emit_op OP_JUMP cg)"
  assumes ok: "cg_ok (cg_patch off cgr)" and P: "code_at P (cg_patch off cgr) p" and p: "p \<le> cpos cg"
    and e: "extends cg1 cgr" and g: "good P p cg"
    and b: "cg_ok cgr \<Longrightarrow> code_at P cgr (cpos cg1) \<Longrightarrow> good P (cpos cg1) cgr"
  shows "good P p (cg_patch off cgr)"
proof -
  note L = jump_layout[OF ok[unfolded off_def] P[unfolded off_def] p e[unfolded cg1_def], folded cg1_def off_def]
  obtain B where B: "seg P (cpos cg + 5) (cpos cgr) {} B" using b L by (auto simp: good_def)
  have "seg P (cpos cg) (cpos cg + 5) {cpos cgr} {cpos cg}"
    by (rule seg_jump_at[of _ _ OP_JUMP "cpos cgr"]) (use L in auto)
  from seg_append[OF this seg_open[OF B]] have "seg P (cpos cg) (cpos cgr) {} ({cpos cg} \<union> B)"
    by (rule seg_close) simp
  then show ?thesis using good_seg[OF g] L by (simp add: good_def)
qed

section \<open>Every tree compiles to well-formed code\<close>

definition keeps_good :: "(cg \<Rightarrow> cg) \<Rightarrow> bool" where
  "keeps_good f \<longleftrightarrow> (\<forall>P p cg. slots_ok cg \<longrightarrow> cg_ok (f cg) \<longrightarrow> code_at P (f cg) p \<longrightarrow> p \<le> cpos cg
     \<longrightarrow> (code_at P cg p \<longrightarrow> good P p cg) \<longrightarrow> good P p (f cg))"

lemma keeps_goodD:
  assumes "keeps_good f" and "slots_ok cg" and "cg_ok (f cg)" and "code_at P (f cg) p" and "p \<le> cpos cg"
    and "code_at P cg p \<Longrightarrow> good P p cg"
  shows "good P p (f cg)"
  using assms unfolding keeps_good_def by blast

lemma extends_slots: "extends a b \<Longrightarrow> slots_ok a \<Longrightarrow> slots_ok b" by (simp add: extends_def)

lemma keeps_good_comp:
  assumes f: "keeps_good f" and g: "keeps_good g" and "\<And>cg. extends cg (f cg)" and "\<And>cg. extends cg (g cg)"
  shows "keeps_good (\<lambda>cg. g (f cg))"
  unfolding keeps_good_def
proof (intro allI impI)
  fix P p cg
  assume a: "slots_ok cg" "cg_ok (g (f cg))" "code_at P (g (f cg)) p" "p \<le> cpos cg" "code_at P cg p \<longrightarrow> good P p cg"
  have le: "p \<le> cpos (f cg)" using a(4) extends_cpos[OF assms(3)] order_trans by blast
  show "good P p (g (f cg))"
  proof (rule keeps_goodD[OF g extends_slots[OF assms(3) a(1)] a(2,3) le])
    assume "code_at P (f cg) p"
    then show "good P p (f cg)" using keeps_goodD[OF f a(1) _ _ a(4)] a(2,5) extends_okD[OF assms(4)] by blast
  qed
qed

lemma keeps_good_op: "op_args op = 0 \<Longrightarrow> keeps_good (emit_op op)"
  unfolding keeps_good_def using good_op op_bytes by blast

lemma keeps_good_arg:
  "op_args op = 4 \<Longrightarrow> op \<notin> {OP_JUMP, OP_JUMP_IF_FALSE, OP_LOAD, OP_STORE} \<Longrightarrow> keeps_good (emit_arg op n)"
  unfolding keeps_good_def using good_arg arg_bytes by meson

lemma code_at_slot: "cg_var_slot name len a = (s, b) \<Longrightarrow> cpos b = cpos a \<and> (code_at P b p \<longleftrightarrow> code_at P a p) \<and> (good P p b \<longleftrightarrow> good P p a)"
  by (auto simp: cg_var_slot_def code_at_def good_def cg_error_def split: option.splits if_splits)

lemma var_slot_None: "cg_var_slot name len a = (None, b) \<Longrightarrow> \<not> cg_ok b"
  by (auto simp: cg_var_slot_def split: option.splits if_splits)

lemma keeps_good_slot:
  assumes "op \<in> {OP_LOAD, OP_STORE}"
  shows "keeps_good (emit_var op name len)"
  unfolding keeps_good_def
proof (intro allI impI)
  fix P p cg
  assume a: "slots_ok cg" "cg_ok (emit_var op name len cg)" "code_at P (emit_var op name len cg) p" "p \<le> cpos cg"
    "code_at P cg p \<longrightarrow> good P p cg"
  obtain s c where sc: "cg_var_slot name len cg = (s, c)" by fastforce
  then obtain k where s: "s = Some k" using a(2) var_slot_None by (cases s) (auto simp: emit_var_eq)
  have k: "k < CG_MAX_VARS" using var_slot_less sc s a(1) by blast
  have eq: "emit_var op name len cg = emit_arg op (of_nat k) c" using sc s by (simp add: emit_var_eq)
  have c: "cpos c = cpos cg" "code_at P c p = code_at P cg p" "good P p c = good P p cg" using code_at_slot[OF sc] by auto
  have "code_at P c p" using arg_bytes[of op "of_nat k" c P p] a(2-4) c(1) unfolding eq by simp
  then show "good P p (emit_var op name len cg)"
    using good_slot[of op k c P p] a(2-5) assms k c unfolding eq by simp
qed

lemma keeps_good_call: "keeps_good (emit_call nm argc)"
  unfolding keeps_good_def
proof (intro allI impI)
  fix P p cg
  assume a: "slots_ok cg" "cg_ok (emit_call nm argc cg)" "code_at P (emit_call nm argc cg) p" "p \<le> cpos cg"
    "code_at P cg p \<longrightarrow> good P p cg"
  obtain name where nm: "nm = Some name" using a(2) by (cases nm) (auto simp: emit_call_def)
  show "good P p (emit_call nm argc cg)"
  proof (cases "cg_native_idx name cg")
    case (Some ni)
    let ?c = "emit_arg OP_CALL_NATIVE (of_nat ni) cg"
    have eq: "emit_call nm argc cg = emit32 (of_nat argc) ?c" using nm Some by (simp add: emit_call_def)
    have le: "p \<le> cpos ?c" using a(4) extends_cpos[OF extends_emit_arg[OF extends_refl]] order_trans by blast
    have w: "cpos (emit32 (of_nat argc) ?c) = cpos ?c + 4" "cpos ?c + 4 \<le> 65535" "cg_ok ?c" "code_at P ?c p"
      using emit32_bytes[OF a(2,3)[unfolded eq] le] by auto
    have c: "P (cpos cg) = op_num OP_CALL_NATIVE" "cpos ?c = cpos cg + 5" "code_at P cg p"
      using arg_bytes[OF w(3,4) a(4)] by auto
    have "safe_at P (cpos cg) {cpos cg + 9}" unfolding safe_at_def
      by (intro exI[of _ OP_CALL_NATIVE]) (use w c in \<open>auto simp: op_args_def\<close>)
    then have "seg P (cpos cg) (cpos (emit_call nm argc cg)) {} {cpos cg}"
      unfolding eq w(1) c(2) by (intro seg_single) (auto simp: add.assoc)
    then show ?thesis using good_seg a(5) c(3) by blast
  next
    case None
    have eq: "emit_call nm argc cg =
        (case cg_var_slot name (length name) cg of (s, b) \<Rightarrow> case s of None \<Rightarrow> b
          | Some k \<Rightarrow> emit_arg OP_CALL (of_nat argc) (emit_arg OP_LOAD (of_nat k) b))"
      using nm None by (simp add: emit_call_def split: prod.splits option.splits)
    have "emit_call nm argc cg = emit_arg OP_CALL (of_nat argc) (emit_var OP_LOAD name (length name) cg)"
      unfolding eq using a(2)[unfolded eq] var_slot_None
      by (auto simp: emit_var_eq split: prod.splits option.splits)
    moreover have "keeps_good (\<lambda>cg. emit_arg OP_CALL (of_nat argc) (emit_var OP_LOAD name (length name) cg))"
      by (rule keeps_good_comp[OF keeps_good_slot keeps_good_arg])
        (simp_all add: op_args_def extends_emit_var extends_emit_arg)
    ultimately show ?thesis using a unfolding keeps_good_def by simp
  qed
qed

lemma keeps_good_binop: "keeps_good (emit_binop_op t)"
proof (cases "binop_code t")
  case None
  then show ?thesis by (simp add: keeps_good_def emit_binop_op_def)
next
  case (Some op)
  have "op_args op = 0" using Some by (cases t) (auto simp: op_args_def)
  then show ?thesis using Some keeps_good_op[of op] by (simp add: keeps_good_def emit_binop_op_def)
qed

lemma keeps_good_unop: "keeps_good (emit_unop_op t)"
proof -
  have "keeps_good (\<lambda>cg. emit_op OP_MUL (emit_arg OP_PUSH_INT (- 1) cg))"
    by (rule keeps_good_comp[OF keeps_good_arg keeps_good_op]) (simp_all add: op_args_def extends_emit_op extends_emit_arg)
  moreover have "keeps_good (emit_op OP_NOT)" by (rule keeps_good_op) (simp add: op_args_def)
  ultimately show ?thesis by (auto simp: keeps_good_def emit_unop_op_def)
qed

lemma keeps_good_guard: "keeps_good f \<Longrightarrow> keeps_good (\<lambda>cg. if cg_ok cg then f cg else cg)"
  unfolding keeps_good_def by simp

lemma keeps_good_cond: "keeps_good f \<Longrightarrow> keeps_good g \<Longrightarrow> keeps_good (\<lambda>cg. if b then f cg else g cg)"
  by (cases b) (simp_all add: keeps_good_def)

lemma keeps_good_args: "(\<And>n. n \<in> set ns \<Longrightarrow> keeps_good (emit_node src n)) \<Longrightarrow> keeps_good (emit_args src ns)"
proof (induction ns)
  case (Cons n ns)
  have "keeps_good (\<lambda>cg. emit_args src ns (emit_node src n cg))"
    by (rule keeps_good_comp[where f = "emit_node src n"]) (use Cons extends_emit in auto)
  then show ?case by (simp add: keeps_good_def)
qed (simp add: keeps_good_def)

lemma keeps_good_block: "(\<And>n. n \<in> set ns \<Longrightarrow> keeps_good (emit_node src n)) \<Longrightarrow> keeps_good (emit_block src ns)"
proof (induction ns)
  case (Cons n ns)
  have "keeps_good (\<lambda>cg. if cg_ok cg then emit_block src ns (emit_node src n cg) else cg)"
    by (rule keeps_good_guard, rule keeps_good_comp[where f = "emit_node src n"]) (use Cons extends_emit in auto)
  then show ?case by (simp add: keeps_good_def)
qed (simp add: keeps_good_def)

lemma emit_params_True:
  "emit_params src (p # ps) b = (True, c) \<Longrightarrow>
     \<exists>t. p = Ast_ident t \<and> emit_params src ps (emit_var OP_STORE (drop (tstart t) src) (tlen t) b) = (True, c)"
  by (cases "\<exists>t. p = Ast_ident t")
    (auto simp: emit_params_ident emit_params_other emit_var_eq simp del: emit_params.simps split: prod.splits option.splits)

lemma emit_params_False: "emit_params src ps b = (False, c) \<Longrightarrow> \<not> cg_ok c"
proof (induction ps arbitrary: b)
  case (Cons p ps)
  show ?case
  proof (cases "\<exists>t. p = Ast_ident t")
    case True
    then obtain t where t: "p = Ast_ident t" by blast
    obtain s d where sd: "cg_var_slot (drop (tstart t) src) (tlen t) b = (s, d)" by fastforce
    show ?thesis
      using Cons.prems Cons.IH sd var_slot_None unfolding t emit_params_ident by (cases s) fastforce+
  qed (use Cons.prems in \<open>auto simp: emit_params_other simp del: emit_params.simps\<close>)
qed simp

lemma keeps_good_params: "fst (emit_params src ps b) \<Longrightarrow> slots_ok b \<Longrightarrow> cg_ok (snd (emit_params src ps b)) \<Longrightarrow>
    code_at P (snd (emit_params src ps b)) p \<Longrightarrow> p \<le> cpos b \<Longrightarrow> (code_at P b p \<Longrightarrow> good P p b) \<Longrightarrow>
    good P p (snd (emit_params src ps b))"
proof (induction ps arbitrary: b)
  case (Cons q ps)
  obtain c where c: "emit_params src (q # ps) b = (True, c)" using Cons.prems(1) by (cases "emit_params src (q # ps) b") auto
  then obtain t :: token where t: "emit_params src ps (emit_var OP_STORE (drop (tstart t) src) (tlen t) b) = (True, c)"
    using emit_params_True[OF c] by blast
  let ?b = "emit_var OP_STORE (drop (tstart t) src) (tlen t) b"
  have e: "extends b ?b" "extends ?b c" using extends_params[OF extends_refl, of ?b src ps] t by (auto intro: ext)
  have ok: "cg_ok c" "code_at P c p" using Cons.prems c by auto
  have okb: "cg_ok ?b" "code_at P ?b p" using extends_okD[OF e(2) ok(1)] code_at_extends[OF ok(2) e(2)] by auto
  have "good P p ?b" using keeps_goodD[OF keeps_good_slot Cons.prems(2) okb Cons.prems(5,6)] by blast
  then show ?case
    using Cons.IH[of ?b] t c ok extends_slots[OF e(1) Cons.prems(2)] order_trans[OF Cons.prems(5) extends_cpos[OF e(1)]]
    by (simp del: emit_params.simps)
qed simp

lemma keeps_good_fn:
  assumes body: "keeps_good (emit_node src b)"
  shows "keeps_good (emit_node src (Ast_fn tok nm ps b))"
  unfolding keeps_good_def
proof (intro allI impI)
  fix P p cg
  let ?r = "emit_node src (Ast_fn tok nm ps b) cg"
  assume a: "slots_ok cg" "cg_ok ?r" "code_at P ?r p" "p \<le> cpos cg" "code_at P cg p \<longrightarrow> good P p cg"
  have okcg: "cg_ok cg" using a(2) extends_okD extends_emit(1) by blast
  let ?cg1 = "emit_arg OP_JUMP 0 cg"
  obtain ok cg2 where pr: "emit_params src (rev ps) ?cg1 = (ok, cg2)" by fastforce
  let ?cg3 = "emit_op OP_RETURN (emit_op OP_PUSH_NIL (emit_node src b cg2))"
  let ?cg4 = "cg_patch (cpos (emit_op OP_JUMP cg)) ?cg3"
  let ?f = "\<lambda>c. emit_arg OP_PUSH_INT (of_nat (cpos ?cg1)) c"
  obtain s cg5 where sl: "cg_var_slot (drop nm src) (length src - nm) ?cg4 = (s, cg5)" by fastforce
  have ok: ok using a(2) okcg pr emit_params_False by (cases ok) (auto simp: emit_jump_eq Let_def)
  obtain k where k: "s = Some k" using a(2) okcg pr ok sl var_slot_None by (cases s) (auto simp: emit_jump_eq Let_def)
  have r: "?r = emit_arg OP_STORE (of_nat k) (?f cg5)" using okcg pr ok sl k by (simp add: emit_jump_eq Let_def)
  have e12: "extends ?cg1 cg2" using extends_params[OF extends_refl, of ?cg1 src "rev ps"] pr by simp
  have e13: "extends ?cg1 ?cg3" using extends_trans[OF e12 extends_emit(1)] by (intro ext)
  have e4: "extends cg ?cg4"
    using extends_fn[OF e12 extends_emit(1)] .
  have e5: "extends ?cg4 cg5" using extends_var_slot'[OF sl extends_refl] .
  have le5: "p \<le> cpos cg5" using a(4) extends_cpos[OF e4] extends_cpos[OF e5] by linarith
  have ok6: "cg_ok (?f cg5)" "code_at P (?f cg5) p" "p \<le> cpos (?f cg5)"
    using arg_bytes[of OP_STORE "of_nat k" "?f cg5" P p] a(2,3) le5 extends_cpos[OF extends_emit_arg[OF extends_refl, of cg5]] order_trans
    unfolding r by (blast, blast, blast)
  have ok5: "cg_ok cg5" "code_at P cg5 p" using arg_bytes[OF ok6(1,2) le5] by auto
  have ok4: "cg_ok ?cg4" "code_at P ?cg4 p" using extends_okD[OF e5 ok5(1)] code_at_extends[OF ok5(2) e5] .
  have "good P (cpos ?cg1) ?cg3" if "cg_ok ?cg3" "code_at P ?cg3 (cpos ?cg1)"
  proof -
    have *: "keeps_good (\<lambda>c. emit_op OP_RETURN (emit_op OP_PUSH_NIL (emit_node src b c)))"
      by (rule keeps_good_comp[OF keeps_good_comp[OF body keeps_good_op] keeps_good_op])
        (auto simp: op_args_def intro: ext extends_emit)
    have ok2: "cg_ok cg2" by (rule extends_okD[OF _ \<open>cg_ok ?cg3\<close>]) (intro ext extends_emit)
    have "good P (cpos ?cg1) cg2" if "code_at P cg2 (cpos ?cg1)"
      using keeps_good_params[of src "rev ps" ?cg1 P "cpos ?cg1"] pr ok that good_refl ok2
        extends_slots[OF extends_emit_arg[OF extends_refl] a(1)] by simp
    then show ?thesis
      using keeps_goodD[OF * extends_slots[OF extends_trans[OF extends_emit_arg[OF extends_refl] e12] a(1)] that extends_cpos[OF e12]]
      by blast
  qed
  moreover have "code_at P cg p" using code_at_extends[OF ok4(2) e4] .
  ultimately have "good P p ?cg4" using good_fn[OF ok4 a(4) e13] a(5) by blast
  then have "good P p cg5" using code_at_slot[OF sl] by blast
  then have "good P p (?f cg5)" using good_arg[OF ok6(1,2)] le5 by (simp add: op_args_def)
  moreover have "k < CG_MAX_VARS" using var_slot_less sl k extends_slots[OF e4 a(1)] by blast
  ultimately show "good P p ?r" using good_slot a(2,3) ok6(3) unfolding r by blast
qed

lemma keeps_good_if:
  assumes "keeps_good (emit_node src c)" and "keeps_good (emit_node src t)" and "keeps_good (emit_node src e)"
  shows "keeps_good (emit_node src (Ast_if tok c t e))"
  unfolding keeps_good_def
proof (intro allI impI)
  fix P p cg
  let ?r = "emit_node src (Ast_if tok c t e) cg"
  assume a: "slots_ok cg" "cg_ok ?r" "code_at P ?r p" "p \<le> cpos cg" "code_at P cg p \<longrightarrow> good P p cg"
  have okcg: "cg_ok cg" using a(2) extends_okD extends_emit(1) by blast
  let ?cg1 = "emit_node src c cg"
  let ?cg2 = "emit_arg OP_JUMP_IF_FALSE 0 ?cg1"
  let ?cg3 = "emit_node src t ?cg2"
  let ?cg5 = "cg_patch (cpos (emit_op OP_JUMP_IF_FALSE ?cg1)) (emit_arg OP_JUMP 0 ?cg3)"
  let ?cg6 = "emit_node src e ?cg5"
  have r: "?r = cg_patch (cpos (emit_op OP_JUMP ?cg3)) ?cg6" using okcg by (simp add: emit_jump_eq Let_def)
  have e: "extends cg ?cg1" "extends ?cg2 ?cg3" "extends ?cg5 ?cg6" by (rule extends_emit(1))+
  have e2: "extends cg ?cg2" using e(1) by (rule extends_emit_arg)
  have e5: "extends cg ?cg5"
    using e2 e by (intro extends_patch extends_emit_arg extends_trans[OF e2 e(2)])
      (meson cpos_emit_op extends_cpos order_trans)
  have s: "slots_ok ?cg2" "slots_ok ?cg5" using extends_slots a(1) e2 e5 by blast+
  show "good P p ?r" unfolding r
  proof (rule good_if[OF a(2)[unfolded r] a(3)[unfolded r] order_trans[OF a(4) extends_cpos[OF e(1)]] e(2,3)])
    show "good P p ?cg1" if "cg_ok ?cg1" "code_at P ?cg1 p" using keeps_goodD[OF assms(1) a(1) that a(4)] a(5) by blast
    show "good P (cpos ?cg2) ?cg3" if "cg_ok ?cg3" "code_at P ?cg3 (cpos ?cg2)"
      using keeps_goodD[OF assms(2) s(1) that order_refl] good_refl by blast
    show "good P (cpos ?cg5) ?cg6" if "cg_ok ?cg6" "code_at P ?cg6 (cpos ?cg5)"
      using keeps_goodD[OF assms(3) s(2) that order_refl] good_refl by blast
  qed
qed

lemma keeps_good_while:
  assumes "keeps_good (emit_node src c)" and "keeps_good (emit_node src b)"
  shows "keeps_good (emit_node src (Ast_while tok c b))"
  unfolding keeps_good_def
proof (intro allI impI)
  fix P p cg
  let ?r = "emit_node src (Ast_while tok c b) cg"
  assume a: "slots_ok cg" "cg_ok ?r" "code_at P ?r p" "p \<le> cpos cg" "code_at P cg p \<longrightarrow> good P p cg"
  have okcg: "cg_ok cg" using a(2) extends_okD extends_emit(1) by blast
  let ?cg1 = "emit_node src c cg"
  let ?cg2 = "emit_arg OP_JUMP_IF_FALSE 0 ?cg1"
  let ?cg3 = "emit_node src b ?cg2"
  have r: "?r = cg_patch (cpos (emit_op OP_JUMP_IF_FALSE ?cg1)) (emit_arg OP_JUMP (of_nat (cpos cg)) ?cg3)"
    using okcg by (simp add: emit_jump_eq Let_def)
  have e: "extends cg ?cg1" "extends ?cg2 ?cg3" by (rule extends_emit(1))+
  have "code_at P cg p" using code_at_extends[OF a(3) extends_emit(1)] .
  then have g: "good P p cg" using a(5) by blast
  have s: "slots_ok ?cg2" using extends_slots[OF extends_emit_arg[OF e(1)] a(1)] .
  show "good P p ?r" unfolding r
  proof (rule good_while[OF a(2)[unfolded r] a(3)[unfolded r] a(4) e g])
    show "good P (cpos cg) ?cg1" if "cg_ok ?cg1" "code_at P ?cg1 (cpos cg)"
      using keeps_goodD[OF assms(1) a(1) that order_refl] good_refl by blast
    show "good P (cpos ?cg2) ?cg3" if "cg_ok ?cg3" "code_at P ?cg3 (cpos ?cg2)"
      using keeps_goodD[OF assms(2) s that order_refl] good_refl by blast
  qed
qed

lemma keeps_good_string: "keeps_good (emit_node src (Ast_string t))"
  unfolding keeps_good_def
proof (intro allI impI)
  fix P p cg
  let ?r = "emit_node src (Ast_string t) cg"
  assume a: "slots_ok cg" "cg_ok ?r" "code_at P ?r p" "p \<le> cpos cg" "code_at P cg p \<longrightarrow> good P p cg"
  have okcg: "cg_ok cg" using a(2) extends_okD extends_emit(1) by blast
  obtain k c where kc: "cg_intern_str (tok_text src t) cg = (k, c)" by fastforce
  have c: "cpos c = cpos cg" "cprog c = cprog cg" "cvars c = cvars cg"
    using kc by (auto simp: cg_intern_str_def cg_error_def Let_def split: if_splits)
  have r: "?r = emit_arg OP_PUSH_STR (of_nat k) c" using okcg kc by simp
  have "slots_ok c" "p \<le> cpos c" "code_at P c p \<Longrightarrow> good P p c"
    using a(1,4,5) by (simp_all add: slots_ok_def code_at_def good_def c)
  then show "good P p ?r"
    using keeps_goodD[OF keeps_good_arg[of OP_PUSH_STR], of c] a(2,3) unfolding r by (simp add: op_args_def)
qed

lemma keeps_good_node: "keeps_good (emit_node src n)"
proof (induction n)
  case (Ast_int t i)
  show ?case using keeps_good_guard[OF keeps_good_arg[of OP_PUSH_INT "of_int i"]] by (simp add: keeps_good_def op_args_def)
next
  case (Ast_float t i)
  show ?case using keeps_good_guard[OF keeps_good_arg[of OP_PUSH_INT "of_int i"]] by (simp add: keeps_good_def op_args_def)
next
  case (Ast_string t)
  show ?case by (rule keeps_good_string)
next
  case (Ast_bool t b)
  show ?case
    using keeps_good_guard[OF keeps_good_arg[of OP_PUSH_BOOL "if b \<noteq> 0 then 1 else 0"]] by (simp add: keeps_good_def op_args_def)
next
  case (Ast_nil t)
  show ?case using keeps_good_guard[OF keeps_good_op[of OP_PUSH_NIL]] by (simp add: keeps_good_def op_args_def)
next
  case (Ast_ident t)
  show ?case
    using keeps_good_guard[OF keeps_good_slot[of OP_LOAD "drop (tstart t) src" "tlen t"]] by (simp add: keeps_good_def)
next
  case (Ast_binop t op l r)
  show ?case
    using keeps_good_guard[OF keeps_good_comp[OF keeps_good_comp[OF Ast_binop.IH extends_emit(1) extends_emit(1)] keeps_good_binop]]
    by (simp add: keeps_good_def extends_binop_op extends_trans[OF extends_emit(1) extends_emit(1)])
next
  case (Ast_unop t op e)
  show ?case using keeps_good_guard[OF keeps_good_comp[OF Ast_unop.IH keeps_good_unop extends_emit(1)]]
    by (simp add: keeps_good_def extends_unop_op)
next
  case (Ast_assign t nm v)
  show ?case
    using keeps_good_guard[OF keeps_good_comp[OF Ast_assign.IH keeps_good_slot[of OP_STORE "drop nm src" "length src - nm"] extends_emit(1)]]
    by (simp add: keeps_good_def extends_emit_var)
next
  case (Ast_call t nm args)
  show ?case
    using keeps_good_guard[OF keeps_good_comp[OF keeps_good_args[OF Ast_call.IH] keeps_good_call[of nm "length args"] extends_emit(2)]]
    by (simp add: keeps_good_def extends_emit_call)
next
  case (Ast_block t ss)
  show ?case using keeps_good_block[OF Ast_block.IH] by (simp add: keeps_good_def)
next
  case (Ast_return t v)
  have "keeps_good (\<lambda>cg. emit_op OP_RETURN (if v = Null then emit_op OP_PUSH_NIL cg else emit_node src v cg))"
    by (rule keeps_good_comp[OF _ keeps_good_op])
      (auto simp: op_args_def intro!: keeps_good_cond keeps_good_op Ast_return.IH extends_refl extends_emit_op extends_emit(1))
  then show ?case using keeps_good_guard by (simp add: keeps_good_def)
next
  case (Ast_let t nm i)
  have "keeps_good (\<lambda>cg. emit_var OP_STORE (drop nm src) (length src - nm) (if i = Null then emit_op OP_PUSH_NIL cg else emit_node src i cg))"
    by (rule keeps_good_comp[OF _ keeps_good_slot])
      (auto simp: op_args_def intro!: keeps_good_cond keeps_good_op Ast_let.IH extends_refl extends_emit_op extends_emit_var extends_emit(1))
  then show ?case using keeps_good_guard by (simp add: keeps_good_def)
qed (use keeps_good_if keeps_good_while keeps_good_fn in \<open>simp_all add: keeps_good_def\<close>)

end
