(* ===== verification/Lxs_Run.thy ===== *)
theory Lxs_Run
  imports Lxs_Safe
begin

text \<open>
  Running well-formed code: each instruction keeps the machine inside its program and its stack,
  and compiled programs only contain such instructions.
\<close>

section \<open>One instruction\<close>

text \<open>The machine stands at a position of \<open>E\<close> in program \<open>P\<close> with a stack within bounds.\<close>

definition standing :: "(nat \<Rightarrow> u8) \<Rightarrow> nat set \<Rightarrow> vm \<Rightarrow> bool" where
  "standing P E vm \<longleftrightarrow> vprog vm = P \<and> vsp vm \<le> VM_STACK_SIZE - 1 \<and> vpc vm \<in> int ` E"

definition fine :: "(nat \<Rightarrow> u8) \<Rightarrow> nat set \<Rightarrow> outcome \<Rightarrow> bool" where
  "fine P E out \<longleftrightarrow> (case out of Next vm \<Rightarrow> standing P E vm | Ret r vm \<Rightarrow> vsp vm \<le> VM_STACK_SIZE - 1 | Fault \<Rightarrow> False)"

lemma fine_simps [simp]:
  "fine P E (Next vm) = standing P E vm" "fine P E (Ret r vm) = (vsp vm \<le> VM_STACK_SIZE - 1)" "\<not> fine P E Fault"
  by (simp_all add: fine_def)

lemma fine_fail: "standing P E vm \<Longrightarrow> fine P E (fail e vm)" by (simp add: fail_def standing_def)

lemma fine_push: "standing P E vm \<Longrightarrow> fine P E (vpush v vm)"
  by (simp add: vpush_def fine_fail) (simp add: standing_def)

lemma standing_pop: "standing P E vm \<Longrightarrow> standing P E (snd (vpop vm))"
  by (auto simp: vpop_def standing_def)

lemma standing_pop': "vpop vm = (v, vm1) \<Longrightarrow> standing P E vm \<Longrightarrow> standing P E vm1"
  using standing_pop[of P E vm] by simp

lemma fine_binop: "standing P E vm \<Longrightarrow> fine P E (binop f vm)"
  by (auto simp: binop_def Let_def split: prod.splits intro: fine_push dest: standing_pop')

lemma standing_pops: "standing P E vm \<Longrightarrow> standing P E (snd (vpops n vm))"
proof (induction n arbitrary: vm)
  case (Suc n)
  obtain v vm1 where p: "vpop vm = (v, vm1)" by fastforce
  show ?case using Suc.IH[OF standing_pop'[OF p Suc.prems]] by (cases "vpops n vm1") (simp add: p)
qed simp

lemma standing_out [simp]: "standing P E (vm\<lparr>vout := u\<rparr>) = standing P E vm" by (simp add: standing_def)

lemma standing_native: "standing P E vm \<Longrightarrow> standing P E (snd (call_native loc f args vm))"
  by (cases f) (auto simp: native_print_def native_println_def native_tostring_def Let_def split: list.splits)

lemma with32_at:
  assumes "vpc vm = int a" and "a + 4 \<le> 65535"
  shows "with32 vm f = f (load32 (vprog vm) a) (vm\<lparr>vpc := int (a + 4)\<rparr>)"
  using assms by (simp add: with32_def read32_def VM_PROG_SIZE_def)

text \<open>The only arithmetic that stops the machine: dividing the smallest integer by -1.\<close>

definition div_trap :: "(sptr \<Rightarrow> u32) \<Rightarrow> vm \<Rightarrow> bool" where
  "div_trap loc vm \<longleftrightarrow> vprog vm (nat (vpc vm)) = op_num OP_DIV \<and> 2 \<le> vsp vm
     \<and> sint (v_i loc (vstack vm (vsp vm - 2))) = - (2 ^ 31) \<and> sint (v_i loc (vstack vm (vsp vm - 1))) = - 1"

lemma fine_div:
  assumes "standing P E vm"
  shows "fine P E (div_op loc vm) \<or> (div_op loc vm = Fault \<and> 2 \<le> vsp vm
     \<and> sint (v_i loc (vstack vm (vsp vm - 2))) = - (2 ^ 31) \<and> sint (v_i loc (vstack vm (vsp vm - 1))) = - 1)"
proof -
  obtain b vm1 a vm2 where p: "vpop vm = (b, vm1)" "vpop vm1 = (a, vm2)" by fastforce
  then have s: "standing P E vm2" using assms standing_pop' by blast
  have z: "v_i loc nilv = 0" by (simp add: v_i_def nilv_def)
  show ?thesis
  proof (cases "sint (v_i loc a) = - (2 ^ 31) \<and> sint (v_i loc b) = - 1")
    case True
    then have "a \<noteq> nilv" "b \<noteq> nilv" using z by auto
    then show ?thesis using True p by (auto simp: div_op_def vpop_def numeral_2_eq_2 split: if_splits)
  next
    case False
    then show ?thesis using p s by (auto simp: div_op_def Let_def intro: fine_push fine_fail)
  qed
qed

lemma op_call_native_eq:
  fixes vm b
  defines "idx \<equiv> load32 (vprog vm) (b + 1)" and "argc \<equiv> load32 (vprog vm) (b + 5)"
  assumes pc: "vpc vm = int (b + 1)" and le: "b + 9 \<le> 65535"
  shows "op_call_native loc vm =
      (if sint idx < 0 \<or> int (length (vnatives vm)) \<le> sint idx then fail (E_bad_native idx) (vm\<lparr>vpc := int (b + 9)\<rparr>)
       else let (args, vm3) = vpops (nat (if sint argc < 16 then sint argc else 16)) (vm\<lparr>vpc := int (b + 9)\<rparr>);
                (r, vm4) = call_native loc (snd (vnatives vm3 ! nat (sint idx))) args vm3
            in vpush r vm4)"
  using pc le unfolding op_call_native_def idx_def argc_def
  by (simp add: with32_at[of _ "b + 1"] with32_at[of _ "b + 5"] add.assoc add.commute Let_def cong: if_cong split del: if_split)

lemma fine_call_native:
  assumes s: "standing P E (vm\<lparr>vpc := int (b + 9)\<rparr>)" and pc: "vpc vm = int (b + 1)" and le: "b + 9 \<le> 65535"
  shows "fine P E (op_call_native loc vm)"
proof -
  let ?vm = "vm\<lparr>vpc := int (b + 9)\<rparr>"
  have "fine P E (let (args, vm3) = vpops n ?vm; (r, vm4) = call_native loc (snd (vnatives vm3 ! i)) args vm3 in vpush r vm4)" for n i
  proof -
    obtain args vm3 where p: "vpops n ?vm = (args, vm3)" by fastforce
    have "standing P E vm3" using standing_pops[OF s, of n] p by simp
    then have "fine P E (let (r, vm4) = call_native loc f args vm3 in vpush r vm4)" for f
      using fine_push standing_native[of P E vm3 loc f args] by (auto split: prod.splits)
    then show ?thesis using p by simp
  qed
  then show ?thesis using fine_fail[OF s] unfolding op_call_native_eq[OF pc le] by simp
qed

lemma exec_plain:
  assumes "op_args op = 0" and "op \<notin> {OP_DIV, OP_RETURN, OP_HALT}" and s: "standing P E vm"
  shows "fine P E (exec_code loc op vm)"
proof -
  obtain v vm1 where p: "vpop vm = (v, vm1)" by fastforce
  then have s1: "standing P E vm1" using s standing_pop' by blast
  have "fine P E (bind (vpush v vm1) (vpush v))"
    using fine_push[OF s1, of v] fine_push by (auto simp: bind_def split: outcome.splits)
  then show ?thesis using assms(1,2) s s1 p fine_push[OF s] fine_push[OF s1] fine_binop[OF s] fine_fail[OF s]
    by (cases op) (simp_all add: exec_code_def op_args_def Let_def)
qed

lemma exec_arg4:
  assumes "op_args op = 4" and pc: "vpc vm = int a" and le: "a + 4 \<le> 65535" and P: "vprog vm = P"
    and j: "op \<in> {OP_JUMP, OP_JUMP_IF_FALSE} \<Longrightarrow> unat (load32 P a) \<in> E \<and> unat (load32 P a) \<le> 65535"
    and v: "op \<in> {OP_LOAD, OP_STORE} \<Longrightarrow> unat (load32 P a) < VM_VARS_SIZE"
    and s: "op \<noteq> OP_JUMP \<Longrightarrow> standing P E (vm\<lparr>vpc := int (a + 4)\<rparr>)" and sp: "vsp vm \<le> VM_STACK_SIZE - 1"
  shows "fine P E (exec_code loc op vm)"
proof -
  note w = with32_at[OF pc le, unfolded P]
  let ?vm = "vm\<lparr>vpc := int (a + 4)\<rparr>"
  obtain c vm2 where p: "vpop ?vm = (c, vm2)" by fastforce
  have s2: "standing P E vm2" if "op \<noteq> OP_JUMP" using s[OF that] p standing_pop' by blast
  have idx: "\<not> sint (load32 P a) < 0" if "op \<in> {OP_LOAD, OP_STORE}"
    using v[OF that] sint_small32[of "load32 P a"] by (simp add: VM_VARS_SIZE_def)
  have tgt: "sint (load32 P a) \<in> int ` E" if "op \<in> {OP_JUMP, OP_JUMP_IF_FALSE}"
    using j[OF that] sint_small32[of "load32 P a"] imageI[of "unat (load32 P a)" E int] by simp
  show ?thesis
  proof (cases "op \<in> {OP_JUMP, OP_JUMP_IF_FALSE, OP_STORE, OP_CALL}")
    case True
    then show ?thesis using w p s2 idx tgt P sp
      by (auto simp: exec_code_def op_jump_if_false_def op_store_def fail_def standing_def Let_def)
  next
    case False
    then have "op \<in> {OP_PUSH_INT, OP_PUSH_BOOL, OP_PUSH_STR, OP_LOAD}" using assms(1) by (auto simp: op_args_def split: if_splits)
    then show ?thesis using w idx fine_push[OF s] fine_fail[OF s]
      by (auto simp: exec_code_def op_push_str_def op_load_def)
  qed
qed

lemma step_fine:
  assumes E: "\<And>b. b \<in> E \<Longrightarrow> safe_at P b E \<and> b \<le> 65535" and s: "standing P E vm"
  shows "fine P E (vm_step loc vm) \<or> (vm_step loc vm = Fault \<and> div_trap loc vm)"
proof -
  obtain b where b: "b \<in> E" "vpc vm = int b" and P: "vprog vm = P" and sp: "vsp vm \<le> VM_STACK_SIZE - 1"
    using s by (auto simp: standing_def)
  obtain op where op: "P b = op_num op" "b + 1 + op_args op \<le> 65535"
      "op \<in> {OP_JUMP, OP_JUMP_IF_FALSE} \<Longrightarrow> unat (load32 P (b + 1)) \<in> E"
      "op \<in> {OP_LOAD, OP_STORE} \<Longrightarrow> unat (load32 P (b + 1)) < VM_VARS_SIZE"
      "op \<notin> {OP_JUMP, OP_RETURN, OP_HALT} \<Longrightarrow> b + 1 + op_args op \<in> E"
    using E[OF b(1)] unfolding safe_at_def by blast
  let ?vm = "vm\<lparr>vpc := int (b + 1)\<rparr>"
  have step: "vm_step loc vm = exec_code loc op ?vm"
    using E[OF b(1)] b(2) P op(1) by (simp add: vm_step_def read8_def exec_op_def VM_PROG_SIZE_def add.commute)
  have at: "standing P E (vm\<lparr>vpc := int (b + 1 + op_args op)\<rparr>)" if "op \<notin> {OP_JUMP, OP_RETURN, OP_HALT}"
    using op(5)[OF that] P sp unfolding standing_def
    by (simp add: inj_image_mem_iff[OF inj_of_nat] del: of_nat_add of_nat_Suc add_Suc_right flip: Suc_eq_plus1)
  have "op_args op = 0 \<or> op_args op = 4 \<or> op = OP_CALL_NATIVE" by (simp add: op_args_def)
  then consider (div) "op = OP_DIV" | (ret) "op \<in> {OP_RETURN, OP_HALT}" | (nat) "op = OP_CALL_NATIVE"
    | (four) "op_args op = 4" | (plain) "op_args op = 0" "op \<notin> {OP_DIV, OP_RETURN, OP_HALT}"
    by auto
  then show ?thesis
  proof cases
    case div
    then show ?thesis using fine_div[OF at, of loc] b P op(1) by (auto simp: step exec_code_def op_args_def div_trap_def)
  next
    case ret
    then show ?thesis using sp by (auto simp: step exec_code_def)
  next
    case nat
    have "fine P E (op_call_native loc ?vm)"
      by (rule fine_call_native[where b = b]) (use at nat op(2) in \<open>simp_all add: op_args_def add.commute\<close>)
    then show ?thesis using nat by (simp add: step exec_code_def)
  next
    case four
    have "fine P E (exec_code loc op ?vm)"
    proof (rule exec_arg4[OF four, where a = "b + 1"])
      show "standing P E (?vm\<lparr>vpc := int (b + 1 + 4)\<rparr>)" if "op \<noteq> OP_JUMP"
        using at four that by (cases op) (auto simp: op_args_def)
      show "unat (load32 P (b + 1)) \<in> E \<and> unat (load32 P (b + 1)) \<le> 65535" if "op \<in> {OP_JUMP, OP_JUMP_IF_FALSE}"
        using op(3)[OF that] E by blast
    qed (use op four P sp in auto)
    then show ?thesis by (simp add: step)
  next
    case plain
    have "op \<noteq> OP_JUMP" using plain(1) by (auto simp: op_args_def)
    then have "standing P E ?vm" using at plain by (simp add: op_args_def)
    then show ?thesis using exec_plain[OF plain] by (simp add: step)
  qed
qed

section \<open>Compiled programs\<close>

text \<open>The states that \<open>vm_step\<close> reaches.\<close>

inductive vm_reach :: "(sptr \<Rightarrow> u32) \<Rightarrow> vm \<Rightarrow> vm \<Rightarrow> bool" for loc vm0 where
  start: "vm_reach loc vm0 vm0"
| step: "vm_reach loc vm0 vm \<Longrightarrow> vm_step loc vm = Next vm' \<Longrightarrow> vm_reach loc vm0 vm'"

lemma reach_standing:
  assumes "vm_reach loc vm0 vm" and "\<And>b. b \<in> E \<Longrightarrow> safe_at P b E \<and> b \<le> 65535" and "standing P E vm0"
  shows "standing P E vm"
  using assms
proof (induction rule: vm_reach.induct)
  case (step vm vm')
  then show ?case using step_fine[of E P vm loc] by auto
qed

lemma finalise_bytes:
  assumes "cg_ok cg" and "cpos cg < 65535"
  shows "cg_ok (emit_op OP_HALT cg) \<and> cprog (cg_finalise cg) (cpos cg) = op_num OP_HALT
    \<and> code_at (cprog (cg_finalise cg)) cg 0 \<and> vsp (cvm (cg_finalise cg)) = vsp (cvm cg) \<and> vpc (cvm (cg_finalise cg)) = 0
    \<and> vnatives (cvm (cg_finalise cg)) = vnatives (cvm cg) \<and> vout (cvm (cg_finalise cg)) = vout (cvm cg)"
  using assms by (simp add: cg_finalise_def Let_def emit_op_def emit8_def VM_PROG_SIZE_def set_prog_def cg_ok_def code_at_def)

lemma compiled_seg:
  assumes "cg_emit src tree (cg_init vm) = (0, cg)" and "cpos cg < 65535"
  obtains E where "0 \<in> E" and "E \<subseteq> {0..cpos cg}" and "\<And>b. b \<in> E \<Longrightarrow> safe_at (cprog (cg_finalise cg)) b E \<and> b \<le> 65535"
proof -
  let ?P = "cprog (cg_finalise cg)"
  have cg: "cg = emit_node src tree (cg_init vm)" "cg_ok cg" using assms(1) by (auto simp: cg_emit_def Let_def split: if_splits)
  have f: "?P (cpos cg) = op_num OP_HALT" "code_at ?P cg 0" using finalise_bytes[OF cg(2) assms(2)] by auto
  have "slots_ok (cg_init vm)" by (simp add: slots_ok_def cg_init_def)
  then have "good ?P 0 cg"
    using keeps_goodD[OF keeps_good_node, of "cg_init vm" src tree ?P 0] cg f(2) good_refl[of ?P "cg_init vm"]
    by (simp add: cg_init_def)
  then obtain B where B: "seg ?P 0 (cpos cg) {} B" by (auto simp: good_def)
  have "safe_at ?P (cpos cg) E" for E unfolding safe_at_def
    by (intro exI[of _ OP_HALT]) (use f(1) assms(2) in \<open>auto simp: op_args_def\<close>)
  then show ?thesis using that[of "insert (cpos cg) B"] B assms(2) by (fastforce simp: seg_def)
qed

lemma compiled_standing:
  assumes "cg_emit src tree (cg_init vm) = (0, cg)" and "cpos cg < 65535" and "vsp vm = 0"
    and "vm_reach loc (cvm (cg_finalise cg)) vm'"
  shows "vprog vm' = vprog (cvm (cg_finalise cg)) \<and> 0 \<le> vpc vm' \<and> vpc vm' \<le> int (cpos cg)
    \<and> vsp vm' \<le> VM_STACK_SIZE - 1 \<and> (vm_step loc vm' = Fault \<longrightarrow> div_trap loc vm')"
proof -
  let ?P = "cprog (cg_finalise cg)"
  obtain E where E: "0 \<in> E" "E \<subseteq> {0..cpos cg}" "\<And>b. b \<in> E \<Longrightarrow> safe_at ?P b E \<and> b \<le> 65535"
    using compiled_seg[OF assms(1,2)] by blast
  have cg: "cg = emit_node src tree (cg_init vm)" "cg_ok cg" using assms(1) by (auto simp: cg_emit_def Let_def split: if_splits)
  then have "vsp (cvm cg) = 0" using extends_emit(1)[of "cg_init vm" src tree] assms(3) by (simp add: extends_def cg_init_def)
  then have "standing ?P E (cvm (cg_finalise cg))" using finalise_bytes[OF cg(2) assms(2)] E(1) by (simp add: standing_def image_iff)
  then have s: "standing ?P E vm'" using reach_standing[OF assms(4) E(3)] by blast
  then show ?thesis using step_fine[OF E(3) s, of loc] E(2) by (auto simp: standing_def)
qed

text \<open>What a run ends with is the outcome of a step at a state it reaches.\<close>

lemma loop_reach:
  assumes "vm_loop loc vm = Some out"
  shows "(\<exists>vm'. vm_reach loc vm vm' \<and> vm_step loc vm' = out) \<and> (\<forall>vm1. out \<noteq> Next vm1)"
proof -
  let ?R = "\<lambda>loc vm0 out. (\<exists>vm'. vm_reach loc vm0 vm' \<and> vm_step loc vm' = out) \<and> (\<forall>vm1. out \<noteq> Next vm1)"
  let ?Q = "\<lambda>loc vm out. \<forall>vm0. vm_reach loc vm0 vm \<longrightarrow> ?R loc vm0 out"
  have "?Q loc vm out"
  proof (rule vm_loop.raw_induct[where P = ?Q, OF _ assms], intro allI impI)
    fix lp loc vm out vm0
    assume IH: "\<And>loc vm out. lp loc vm = Some out \<Longrightarrow> ?Q loc vm out"
      and e: "(case vm_step loc vm of Next vm1 \<Rightarrow> lp loc vm1 | o1 \<Rightarrow> Some o1) = Some out" and r: "vm_reach loc vm0 vm"
    show "?R loc vm0 out"
    proof (cases "vm_step loc vm")
      case (Next vm1)
      then have "lp loc vm1 = Some out" "vm_reach loc vm0 vm1" using e vm_reach.step[OF r] by simp_all
      then show ?thesis using IH by blast
    qed (use e r in auto)
  qed
  then show ?thesis using vm_reach.start by blast
qed

lemma compiled_fault:
  assumes "cg_emit src tree (cg_init vm) = (0, cg)" and "cpos cg < 65535" and "vsp vm = 0"
    and "vm_run loc 0 (cvm (cg_finalise cg)) = Some Fault"
  shows "\<exists>vm'. vm_reach loc (cvm (cg_finalise cg)) vm' \<and> div_trap loc vm'"
proof -
  have "cg_ok cg" using assms(1) by (auto simp: cg_emit_def Let_def split: if_splits)
  then have u: "(cvm (cg_finalise cg))\<lparr>vpc := 0\<rparr> = cvm (cg_finalise cg)" using finalise_bytes[OF _ assms(2)] by simp
  show ?thesis using loop_reach[of loc "cvm (cg_finalise cg)"] compiled_standing[OF assms(1-3)] assms(4) u
    unfolding vm_run_def by metis
qed

text \<open>
  C33. A program of fewer than 65535 bytes that the code generator accepts from any tree, started at its
  first instruction with an empty stack, never leaves its code (a program of exactly 65535 bytes is accepted too,
  has no room for its final OP_HALT, and is not covered): in every state the machine reaches, the program
  counter is inside the emitted code, the stack pointer is inside the stack, the program is
  unchanged, and the next step reads and writes inside the machine's arrays, the division of
  the smallest integer by -1 being the only step that stops it otherwise.
\<close>

theorem compiled_code_safe:
  assumes "cg_emit src tree (cg_init vm) = (0, cg)" and "cpos cg < 65535" and "vsp vm = 0"
    and "vm_reach loc (cvm (cg_finalise cg)) vm'"
  shows "vprog vm' = vprog (cvm (cg_finalise cg)) \<and> 0 \<le> vpc vm' \<and> vpc vm' \<le> int (cpos cg)
    \<and> vsp vm' \<le> VM_STACK_SIZE - 1 \<and> (vm_step loc vm' = Fault \<longrightarrow> div_trap loc vm')"
  by (rule compiled_standing[OF assms])

definition not_nil :: ast where
  "not_nil = (let t = make_tok TK_NOT 0 1 1 1 in Ast_unop t TK_NOT (Ast_nil t))"

theorem compiled_code_safe_witness:
  "let cg = snd (cg_emit (ascii ''!nil'') not_nil (cg_init lxs_vm_zero)); vm = cvm (cg_finalise cg)
   in cpos cg = 2 \<and> vm_step (\<lambda>_. 0) vm \<noteq> Fault"
proof -
  let ?cg = "snd (cg_emit (ascii ''!nil'') not_nil (cg_init lxs_vm_zero))"
  have e: "cg_emit (ascii ''!nil'') not_nil (cg_init lxs_vm_zero) = (0, ?cg)" and p: "cpos ?cg = 2"
    and h: "cprog ?cg 0 = op_num OP_PUSH_NIL"
    by (simp_all add: cg_emit_def not_nil_def Let_def emit_unop_op_def emit_op_def emit8_def set_prog_def cg_ok_def cg_init_def
        VM_PROG_SIZE_def lxs_vm_zero_def)
  have "code_at (cprog (cg_finalise ?cg)) ?cg 0" "vpc (cvm (cg_finalise ?cg)) = 0"
    using finalise_bytes[of ?cg] p e by (auto simp: cg_emit_def Let_def split: if_splits)
  then have "cprog (cg_finalise ?cg) 0 = op_num OP_PUSH_NIL" using h p by (simp add: code_at_def)
  moreover have "op_num OP_PUSH_NIL \<noteq> op_num OP_DIV" by (simp add: op_num.simps)
  ultimately show ?thesis
    using compiled_code_safe[OF e _ _ vm_reach.start, of "\<lambda>_. 0"] p \<open>vpc (cvm (cg_finalise ?cg)) = 0\<close>
    by (auto simp: lxs_vm_zero_def div_trap_def Let_def)
qed

end
