(* ===== verification/Lxs_Compile.thy ===== *)
theory Lxs_Compile
  imports Lxs_Run
begin

text \<open>
  Compiler correctness for a part of LXScript: literals other than strings, the operators but % <= >=, calls of
  native functions with at most 16 arguments, blocks, conditionals and return. The meaning of a tree is given without bytecode,
  program counter or jumps; running the compiled bytes yields exactly that meaning.
\<close>

section \<open>Meaning of expressions\<close>

datatype 'a res = Val 'a "console list" | Div_zero "console list" | Trap

fun bind_res :: "'a res \<Rightarrow> ('a \<Rightarrow> console list \<Rightarrow> 'b res) \<Rightarrow> 'b res" where
  "bind_res (Val v out) f = f v out"
| "bind_res (Div_zero out) f = Div_zero out"
| "bind_res Trap f = Trap"

definition apply2 :: "(sptr \<Rightarrow> u32) \<Rightarrow> token_type \<Rightarrow> lxs_val \<Rightarrow> lxs_val \<Rightarrow> console list \<Rightarrow> lxs_val res" where
  "apply2 loc op a b out =
     (let x = v_i loc a; y = v_i loc b
      in case op of
           TK_PLUS \<Rightarrow> Val (ival (x + y)) out
         | TK_MINUS \<Rightarrow> Val (ival (x - y)) out
         | TK_STAR \<Rightarrow> Val (ival (x * y)) out
         | TK_SLASH \<Rightarrow>
             if y = 0 then Div_zero out else if sint x = - (2 ^ 31) \<and> sint y = - 1 then Trap
             else Val (ival (of_int (sint x sdiv sint y))) out
         | TK_EQEQ \<Rightarrow> Val (of_bool32 (x = y)) out
         | TK_NEQ \<Rightarrow> Val (of_bool32 (x \<noteq> y)) out
         | TK_LT \<Rightarrow> Val (of_bool32 (sint x < sint y)) out
         | TK_GT \<Rightarrow> Val (of_bool32 (sint y < sint x)) out
         | TK_AND \<Rightarrow> Val (of_bool32 (x \<noteq> 0 \<and> y \<noteq> 0)) out
         | _ \<Rightarrow> Val (of_bool32 (x \<noteq> 0 \<or> y \<noteq> 0)) out)"

definition apply1 :: "(sptr \<Rightarrow> u32) \<Rightarrow> token_type \<Rightarrow> lxs_val \<Rightarrow> lxs_val" where
  "apply1 loc op a = (if op = TK_NOT then of_bool32 (v_i loc a = 0) else ival (- v_i loc a))"

text \<open>What a native function returns and prints, for arguments that are not string literals.\<close>

definition apply_native :: "(sptr \<Rightarrow> u32) \<Rightarrow> native \<Rightarrow> lxs_val list \<Rightarrow> console list \<Rightarrow> lxs_val res" where
  "apply_native loc f args out =
     (let (r, vm) = call_native loc f args (lxs_vm_zero\<lparr>vout := out\<rparr>) in Val r (vout vm))"

fun den :: "(sptr \<Rightarrow> u32) \<Rightarrow> (u8 list \<times> native) list \<Rightarrow> ast \<Rightarrow> console list \<Rightarrow> lxs_val res"
  and dens :: "(sptr \<Rightarrow> u32) \<Rightarrow> (u8 list \<times> native) list \<Rightarrow> ast list \<Rightarrow> console list \<Rightarrow> lxs_val list res" where
  "den loc nats (Ast_int _ i) out = Val (ival (of_int i)) out"
| "den loc nats (Ast_float _ i) out = Val (ival (of_int i)) out"
| "den loc nats (Ast_bool _ b) out = Val (of_bool32 (b \<noteq> 0)) out"
| "den loc nats (Ast_binop _ op l r) out =
     bind_res (den loc nats l out) (\<lambda>a out1. bind_res (den loc nats r out1) (\<lambda>b out2. apply2 loc op a b out2))"
| "den loc nats (Ast_unop _ op e) out = bind_res (den loc nats e out) (\<lambda>a out1. Val (apply1 loc op a) out1)"
| "den loc nats (Ast_call _ nm args) out =
     bind_res (dens loc nats args out) (\<lambda>vs out1.
       case Option.bind nm (map_of nats) of Some f \<Rightarrow> apply_native loc f vs out1 | None \<Rightarrow> Trap)"
| "den loc nats _ out = Val nilv out"
| "dens loc nats [] out = Val [] out"
| "dens loc nats (a # as) out =
     bind_res (den loc nats a out) (\<lambda>v out1. bind_res (dens loc nats as out1) (\<lambda>vs out2. Val (v # vs) out2))"

text \<open>The expressions considered, and the stack they need.\<close>

fun pure :: "(u8 list \<times> native) list \<Rightarrow> ast \<Rightarrow> bool" where
  "pure nats (Ast_int _ _) = True"
| "pure nats (Ast_float _ _) = True"
| "pure nats (Ast_bool _ _) = True"
| "pure nats (Ast_nil _) = True"
| "pure nats (Ast_binop _ op l r) \<longleftrightarrow>
     op \<in> {TK_PLUS, TK_MINUS, TK_STAR, TK_SLASH, TK_EQEQ, TK_NEQ, TK_LT, TK_GT, TK_AND, TK_OR} \<and> pure nats l \<and> pure nats r"
| "pure nats (Ast_unop _ op e) \<longleftrightarrow> op \<in> {TK_NOT, TK_MINUS} \<and> pure nats e"
| "pure nats (Ast_call _ nm args) \<longleftrightarrow>
     Option.bind nm (map_of nats) \<noteq> None \<and> length args \<le> 16 \<and> (\<forall>a \<in> set args. pure nats a)"
| "pure nats _ = False"

fun need :: "ast \<Rightarrow> nat" and needs :: "ast list \<Rightarrow> nat" where
  "need (Ast_binop _ op l r) = max (need l) (1 + need r)"
| "need (Ast_unop _ op e) = max (need e) 2"
| "need (Ast_call _ nm args) = needs args"
| "need _ = 1"
| "needs [] = 1"
| "needs (a # as) = max (need a) (1 + needs as)"

section \<open>Machine states\<close>

definition stands :: "(nat \<Rightarrow> u8) \<Rightarrow> (u8 list \<times> native) list \<Rightarrow> vm \<Rightarrow> nat \<Rightarrow> lxs_val list \<Rightarrow> console list \<Rightarrow> bool" where
  "stands P nats vm p s out \<longleftrightarrow> vprog vm = P \<and> vnatives vm = nats \<and> vpc vm = int p \<and> vsp vm = length s
     \<and> (\<forall>i < length s. vstack vm i = s ! i) \<and> vout vm = out"

lemma stands_pc: "stands P nats vm p s out \<Longrightarrow> stands P nats (vm\<lparr>vpc := int q\<rparr>) q s out"
  by (simp add: stands_def)

lemma stands_push:
  assumes "stands P nats vm q s out" and "length s < 1023"
  obtains vm' where "vpush v vm = Next vm'" and "stands P nats vm' q (s @ [v]) out"
  using assms by (auto simp: stands_def vpush_def VM_STACK_SIZE_def nth_append intro!: that)

lemma stands_pop:
  assumes "stands P nats vm q (s @ [v]) out"
  obtains vm' where "vpop vm = (v, vm')" and "stands P nats vm' q s out"
  using assms by (auto simp: stands_def vpop_def nth_append intro!: that)

lemma stands_pops:
  assumes "stands P nats vm q (s @ vs) out"
  obtains vm' where "vpops (length vs) vm = (vs, vm')" and "stands P nats vm' q s out"
  using assms
proof (induction vs arbitrary: vm thesis rule: rev_induct)
  case (snoc v vs)
  obtain vm1 where p: "vpop vm = (v, vm1)" and s1: "stands P nats vm1 q (s @ vs) out"
    using stands_pop[of P nats vm q "s @ vs" v out] snoc.prems(2) by auto
  obtain vm' where "vpops (length vs) vm1 = (vs, vm')" "stands P nats vm' q s out" using snoc.IH[OF _ s1] by blast
  then show ?case using snoc.prems(1) p by simp
qed simp

lemma loop_at:
  assumes "stands P nats vm p s out" and "P p = op_num op" and "p \<le> 65535"
  shows "vm_loop loc vm = (case exec_code loc op (vm\<lparr>vpc := int (p + 1)\<rparr>) of Next vm1 \<Rightarrow> vm_loop loc vm1 | res \<Rightarrow> Some res)"
proof -
  have "vm_step loc vm = exec_code loc op (vm\<lparr>vpc := int (p + 1)\<rparr>)"
    using assms by (simp add: vm_step_def read8_def exec_op_def stands_def VM_PROG_SIZE_def add.commute)
  then show ?thesis by (subst vm_loop.simps) simp
qed

lemma loop_push:
  assumes "stands P nats vm p s out" and "P p = op_num op" and "p \<le> 65535" and "length s < 1023"
    and "exec_code loc op (vm\<lparr>vpc := int (p + 1)\<rparr>) = vpush v (vm\<lparr>vpc := int q\<rparr>)"
  obtains vm' where "vm_loop loc vm = vm_loop loc vm'" and "stands P nats vm' q (s @ [v]) out"
proof -
  obtain vm' where "vpush v (vm\<lparr>vpc := int q\<rparr>) = Next vm'" "stands P nats vm' q (s @ [v]) out"
    using stands_push[OF stands_pc[OF assms(1)] assms(4)] by blast
  then show ?thesis using that loop_at[OF assms(1-3), of loc] assms(5) by simp
qed

section \<open>Expressions\<close>

text \<open>Running from \<open>vm\<close> has result \<open>r\<close>; a value is on top of \<open>s\<close> when the machine stands at \<open>q\<close>.\<close>

definition plain :: "lxs_val \<Rightarrow> bool" where "plain v \<longleftrightarrow> (\<forall>k. vpay v \<noteq> P_str (Str_table k))"

fun runs_to :: "(sptr \<Rightarrow> u32) \<Rightarrow> (nat \<Rightarrow> u8) \<Rightarrow> (u8 list \<times> native) list \<Rightarrow> vm \<Rightarrow> nat \<Rightarrow> lxs_val list \<Rightarrow> lxs_val list res \<Rightarrow> bool" where
  "runs_to loc P nats vm q s (Val vs out) \<longleftrightarrow>
     list_all plain vs \<and> (\<exists>vm'. vm_loop loc vm = vm_loop loc vm' \<and> stands P nats vm' q (s @ vs) out)"
| "runs_to loc P nats vm q s (Div_zero out) \<longleftrightarrow>
     (\<exists>vm'. vm_loop loc vm = Some (Ret (- 1) vm') \<and> verror vm' = Some E_div_by_zero \<and> vout vm' = out)"
| "runs_to loc P nats vm q s Trap \<longleftrightarrow> vm_loop loc vm = Some Fault"

abbreviation one :: "lxs_val res \<Rightarrow> lxs_val list res" where "one r \<equiv> bind_res r (\<lambda>v. Val [v])"

lemma runs_to_loop: "vm_loop loc vm = vm_loop loc vm1 \<Longrightarrow> runs_to loc P nats vm1 q s r \<Longrightarrow> runs_to loc P nats vm q s r"
  by (cases r) auto

lemma plain_vals [simp]: "plain (ival i)" "plain (bval i)" "plain nilv" "plain (of_bool32 b)"
  by (simp_all add: plain_def ival_def bval_def nilv_def of_bool32_def)

lemma runs_push:
  assumes "stands P nats vm p s out" and "P p = op_num op" and "p \<le> 65535" and "length s < 1023" and "plain v"
    and "exec_code loc op (vm\<lparr>vpc := int (p + 1)\<rparr>) = vpush v (vm\<lparr>vpc := int q\<rparr>)"
  shows "runs_to loc P nats vm q s (Val [v] out)"
  using loop_push[OF assms(1-4,6)] assms(5) by simp metis

lemma exec_arg:
  assumes "stands P nats vm p s out" and "load32 P (p + 1) = n" and "p + 5 \<le> 65535"
  shows "with32 (vm\<lparr>vpc := int (p + 1)\<rparr>) f = f n (vm\<lparr>vpc := int (p + 5)\<rparr>)"
  using assms with32_at[of "vm\<lparr>vpc := int (p + 1)\<rparr>" "p + 1" f] by (simp add: stands_def add.commute)

text \<open>The operator instruction of a binary node.\<close>

lemma runs_binop:
  assumes st: "stands P nats vm p (s @ [a, b]) out" and op: "P p = op_num code" "binop_code op = Some code" "p + 1 \<le> 65535"
    and frag: "op \<in> {TK_PLUS, TK_MINUS, TK_STAR, TK_SLASH, TK_EQEQ, TK_NEQ, TK_LT, TK_GT, TK_AND, TK_OR}"
    and len: "length s < 1023"
  shows "runs_to loc P nats vm (p + 1) s (one (apply2 loc op a b out))"
proof -
  let ?vm = "vm\<lparr>vpc := int (p + 1)\<rparr>"
  obtain vm1 where p1: "vpop ?vm = (b, vm1)" and s1: "stands P nats vm1 (p + 1) (s @ [a]) out"
    using stands_pop[of P nats ?vm "p + 1" "s @ [a]" b out] stands_pc[OF st, of "p + 1"] by auto
  obtain vm2 where p2: "vpop vm1 = (a, vm2)" and s2: "stands P nats vm2 (p + 1) s out" using stands_pop[OF s1] by auto
  have push: "runs_to loc P nats vm (p + 1) s (Val [v] out)" if "exec_code loc code ?vm = vpush v vm2" "plain v" for v
  proof -
    obtain vm' where "vpush v vm2 = Next vm'" "stands P nats vm' (p + 1) (s @ [v]) out" using stands_push[OF s2 len] by blast
    then show ?thesis using loop_at[OF st op(1), of loc] op(3) that by simp metis
  qed
  have bin: "binop f ?vm = vpush (f a b) vm2" for f using p1 p2 by (simp add: binop_def)
  have out: "vout vm2 = out" using s2 by (simp add: stands_def)
  show ?thesis
  proof (cases "op = TK_SLASH")
    case True
    then have code: "code = OP_DIV" using op(2) by simp
    have ex: "exec_code loc code ?vm = (if v_i loc b = 0 then fail E_div_by_zero vm2
        else if sint (v_i loc a) = - (2 ^ 31) \<and> sint (v_i loc b) = - 1 then Fault
        else vpush (ival (of_int (sint (v_i loc a) sdiv sint (v_i loc b)))) vm2)"
      using p1 p2 by (simp add: code exec_code_def div_op_def signed_eq_0_iff Let_def)
    have lo: "vm_loop loc vm = (case exec_code loc code ?vm of Next vm1 \<Rightarrow> vm_loop loc vm1 | res \<Rightarrow> Some res)"
      using loop_at[OF st op(1), of loc] op(3) by simp
    show ?thesis
    proof (cases "v_i loc b = 0 \<or> sint (v_i loc a) = - (2 ^ 31) \<and> sint (v_i loc b) = - 1")
      case True
      then have "v_i loc b = 0 \<or> v_i loc b \<noteq> 0 \<and> sint (v_i loc a) = - (2 ^ 31) \<and> sint (v_i loc b) = - 1" by auto
      then show ?thesis using lo out \<open>op = TK_SLASH\<close> unfolding ex by (elim disjE) (simp_all add: apply2_def fail_def)
    next
      case False
      then show ?thesis using push ex \<open>op = TK_SLASH\<close> by (auto simp: apply2_def simp del: runs_to.simps)
    qed
  next
    case False
    then show ?thesis using frag op(2) push bin by (auto simp: apply2_def exec_code_def Let_def)
  qed
qed

lemma bind_res_assoc: "bind_res (bind_res r f) g = bind_res r (\<lambda>v out. bind_res (f v out) g)"
  by (cases r) auto

lemma runs_bind:
  assumes "runs_to loc P nats vm q s (one r)"
    and "\<And>v out vm1. plain v \<Longrightarrow> stands P nats vm1 q (s @ [v]) out \<Longrightarrow> runs_to loc P nats vm1 q' s' (f v out)"
  shows "runs_to loc P nats vm q' s' (bind_res r f)"
proof (cases r)
  case (Val v out)
  then obtain vm1 where "vm_loop loc vm = vm_loop loc vm1" "stands P nats vm1 q (s @ [v]) out" "plain v" using assms(1) by auto
  then show ?thesis using assms(2) runs_to_loop Val by simp
qed (use assms in simp_all)

lemma runs_bind_list:
  assumes "runs_to loc P nats vm q s r"
    and "\<And>vs out vm1. r = Val vs out \<Longrightarrow> list_all plain vs \<Longrightarrow> stands P nats vm1 q (s @ vs) out \<Longrightarrow> runs_to loc P nats vm1 q' s' (f vs out)"
  shows "runs_to loc P nats vm q' s' (bind_res r f)"
proof (cases r)
  case (Val vs out)
  then obtain vm1 where "vm_loop loc vm = vm_loop loc vm1" "stands P nats vm1 q (s @ vs) out" "list_all plain vs" using assms(1) by auto
  then show ?thesis using assms(2) runs_to_loop Val by simp
qed (use assms in simp_all)

definition compiles :: "(sptr \<Rightarrow> u32) \<Rightarrow> (u8 list \<times> native) list \<Rightarrow> u8 list \<Rightarrow> ast \<Rightarrow> bool" where
  "compiles loc nats src e \<longleftrightarrow> (\<forall>P cg vm s out. cg_ok (emit_node src e cg) \<longrightarrow> code_at P (emit_node src e cg) (cpos cg)
     \<longrightarrow> vnatives (cvm cg) = nats \<longrightarrow> stands P nats vm (cpos cg) s out \<longrightarrow> length s + need e \<le> 1023
     \<longrightarrow> runs_to loc P nats vm (cpos (emit_node src e cg)) s (one (den loc nats e out)))"

lemma compilesD:
  "compiles loc nats src e \<Longrightarrow> cg_ok (emit_node src e cg) \<Longrightarrow> code_at P (emit_node src e cg) (cpos cg) \<Longrightarrow>
   vnatives (cvm cg) = nats \<Longrightarrow> stands P nats vm (cpos cg) s out \<Longrightarrow> length s + need e \<le> 1023 \<Longrightarrow>
   runs_to loc P nats vm (cpos (emit_node src e cg)) s (one (den loc nats e out))"
  unfolding compiles_def by blast

lemma need_pos: "0 < need e" "0 < needs es"
  by (induction e and es rule: need_needs.induct) auto

lemma compiles_literal:
  assumes r: "\<And>cg. cg_ok cg \<Longrightarrow> emit_node src e cg = emit_arg op n cg" and d: "\<And>out. den loc nats e out = Val v out"
    and ex: "\<And>vm. exec_code loc op vm = with32 vm (\<lambda>n. vpush (g n))" and v: "g n = v" "plain v"
  shows "compiles loc nats src e"
  unfolding compiles_def
proof (intro allI impI)
  fix P cg vm s out
  assume a: "cg_ok (emit_node src e cg)" "code_at P (emit_node src e cg) (cpos cg)" "stands P nats vm (cpos cg) s out"
    "length s + need e \<le> 1023"
  have e: "emit_node src e cg = emit_arg op n cg" using r extends_okD[OF extends_emit(1) a(1)] by blast
  have b: "P (cpos cg) = op_num op" "load32 P (cpos cg + 1) = n" "cpos cg + 5 \<le> 65535" "cpos (emit_arg op n cg) = cpos cg + 5"
    using arg_bytes[of op n cg P "cpos cg"] a(1,2) unfolding e by auto
  have "exec_code loc op (vm\<lparr>vpc := int (cpos cg + 1)\<rparr>) = vpush v (vm\<lparr>vpc := int (cpos cg + 5)\<rparr>)"
    using exec_arg[OF a(3) b(2,3)] v by (simp add: ex del: of_nat_add)
  then have "runs_to loc P nats vm (cpos cg + 5) s (Val [v] out)"
    using runs_push[OF a(3) b(1)] b(3) need_pos(1)[of e] a(4) v by simp
  then show "runs_to loc P nats vm (cpos (emit_node src e cg)) s (one (den loc nats e out))" by (simp add: e b(4) d)
qed

lemma compiles_nil: "compiles loc nats src (Ast_nil t)"
  unfolding compiles_def
proof (intro allI impI)
  fix P cg vm s out
  assume a: "cg_ok (emit_node src (Ast_nil t) cg)" "code_at P (emit_node src (Ast_nil t) cg) (cpos cg)"
    "stands P nats vm (cpos cg) s out" "length s + need (Ast_nil t) \<le> 1023"
  have e: "emit_node src (Ast_nil t) cg = emit_op OP_PUSH_NIL cg" using a(1) by auto
  have b: "P (cpos cg) = op_num OP_PUSH_NIL" "cpos cg + 1 \<le> 65535" "cpos (emit_op OP_PUSH_NIL cg) = cpos cg + 1"
    using op_bytes[of OP_PUSH_NIL cg P "cpos cg"] a(1,2) unfolding e by auto
  then show "runs_to loc P nats vm (cpos (emit_node src (Ast_nil t) cg)) s (one (den loc nats (Ast_nil t) out))"
    unfolding e using runs_push[OF a(3) b(1), where v = nilv and q = "cpos cg + 1" and loc = loc] a(4) by (simp add: exec_code_def)
qed

lemma compiles_binop:
  assumes "compiles loc nats src l" and "compiles loc nats src r"
    and frag: "op \<in> {TK_PLUS, TK_MINUS, TK_STAR, TK_SLASH, TK_EQEQ, TK_NEQ, TK_LT, TK_GT, TK_AND, TK_OR}"
  shows "compiles loc nats src (Ast_binop t op l r)"
  unfolding compiles_def
proof (intro allI impI)
  fix P cg vm s out
  let ?e = "Ast_binop t op l r"
  assume a: "cg_ok (emit_node src ?e cg)" "code_at P (emit_node src ?e cg) (cpos cg)" "vnatives (cvm cg) = nats"
    "stands P nats vm (cpos cg) s out" "length s + need ?e \<le> 1023"
  obtain code where code: "binop_code op = Some code" using frag by auto
  let ?c1 = "emit_node src l cg"
  let ?c2 = "emit_node src r ?c1"
  have e: "emit_node src ?e cg = emit_op code ?c2"
    using extends_okD[OF extends_emit(1) a(1)] code by (simp add: emit_binop_op_def)
  have ex: "extends cg ?c1" "extends ?c1 ?c2" by (rule extends_emit(1))+
  have le: "cpos cg \<le> cpos ?c1" "cpos ?c1 \<le> cpos ?c2" using ex extends_cpos by blast+
  have o: "P (cpos ?c2) = op_num code" "cpos ?c2 + 1 \<le> 65535" "cpos (emit_op code ?c2) = cpos ?c2 + 1" "cg_ok ?c2" "code_at P ?c2 (cpos cg)"
    using op_bytes[of code ?c2 P "cpos cg"] a(1,2) le unfolding e by auto
  have c1: "cg_ok ?c1" "code_at P ?c1 (cpos cg)" using extends_okD[OF ex(2) o(4)] code_at_extends[OF o(5) ex(2)] .
  have nat: "vnatives (cvm ?c1) = nats" using ex(1) a(3) by (simp add: extends_def)
  have "runs_to loc P nats vm1 (cpos ?c2 + 1) s (bind_res (den loc nats r out1) (\<lambda>b out2. one (apply2 loc op x b out2)))"
    if "stands P nats vm1 (cpos ?c1) (s @ [x]) out1" for vm1 x out1
  proof (rule runs_bind[OF compilesD[OF assms(2) o(4) code_at_mono[OF o(5) le(1)] nat that]])
    show "runs_to loc P nats vm2 (cpos ?c2 + 1) s (one (apply2 loc op x b out2))"
      if "stands P nats vm2 (cpos ?c2) ((s @ [x]) @ [b]) out2" for b out2 vm2
      using runs_binop[where P = P and p = "cpos ?c2" and nats = nats and vm = vm2 and s = s and a = x and b = b and out = out2 and loc = loc,
          OF _ o(1) code o(2) frag] that a(5)
        need_pos(1)[of r] by simp
  qed (use a(5) in simp)
  then show "runs_to loc P nats vm (cpos (emit_node src ?e cg)) s (one (den loc nats ?e out))"
    unfolding e o(3) using runs_bind[OF compilesD[OF assms(1) c1 a(3,4)]] a(5) by (simp add: bind_res_assoc)
qed

lemma compiles_unop:
  assumes c: "compiles loc nats src x" and frag: "op \<in> {TK_NOT, TK_MINUS}"
  shows "compiles loc nats src (Ast_unop t op x)"
  unfolding compiles_def
proof (intro allI impI)
  fix P cg vm s out
  let ?e = "Ast_unop t op x"
  let ?c1 = "emit_node src x cg"
  assume a: "cg_ok (emit_node src ?e cg)" "code_at P (emit_node src ?e cg) (cpos cg)" "vnatives (cvm cg) = nats"
    "stands P nats vm (cpos cg) s out" "length s + need ?e \<le> 1023"
  have e: "emit_node src ?e cg = emit_unop_op op ?c1" using extends_okD[OF extends_emit(1) a(1)] by simp
  have le: "cpos cg \<le> cpos ?c1" using extends_emit(1) extends_cpos by blast
  have ok: "cg_ok ?c1" "code_at P ?c1 (cpos cg)"
    using a(1,2) unfolding e by (meson extends_okD extends_unop_op extends_refl code_at_extends)+
  have len: "length s < 1023" using a(5) by simp
  have "runs_to loc P nats vm1 (cpos (emit_unop_op op ?c1)) s (Val [apply1 loc op v] out1)"
    if st: "stands P nats vm1 (cpos ?c1) (s @ [v]) out1" for vm1 v out1
  proof (cases "op = TK_NOT")
    case True
    have b: "P (cpos ?c1) = op_num OP_NOT" "cpos ?c1 + 1 \<le> 65535" "cpos (emit_op OP_NOT ?c1) = cpos ?c1 + 1"
      using op_bytes[of OP_NOT ?c1 P "cpos cg"] a(1,2) le True unfolding e by (auto simp: emit_unop_op_def)
    obtain vm2 where p: "vpop (vm1\<lparr>vpc := int (cpos ?c1 + 1)\<rparr>) = (v, vm2)" and s2: "stands P nats vm2 (cpos ?c1 + 1) s out1"
      using stands_pop[OF stands_pc[OF st, of "cpos ?c1 + 1"]] by auto
    obtain vm3 where "vpush (of_bool32 (v_i loc v = 0)) vm2 = Next vm3"
        "stands P nats vm3 (cpos ?c1 + 1) (s @ [of_bool32 (v_i loc v = 0)]) out1"
      using stands_push[OF s2, of "of_bool32 (v_i loc v = 0)"] len by blast
    then show ?thesis
      using loop_at[OF st b(1), of loc] b p True by (auto simp: emit_unop_op_def exec_code_def apply1_def)
  next
    case False
    then have op: "op = TK_MINUS" using frag by simp
    let ?c2 = "emit_arg OP_PUSH_INT (- 1) ?c1"
    have u: "emit_unop_op op ?c1 = emit_op OP_MUL ?c2" by (simp add: op emit_unop_op_def)
    have le2: "cpos cg \<le> cpos ?c2" using le extends_cpos[OF extends_emit_arg[OF extends_refl]] order_trans by blast
    have b: "P (cpos ?c2) = op_num OP_MUL" "cpos ?c2 + 1 \<le> 65535" "cpos (emit_op OP_MUL ?c2) = cpos ?c2 + 1" "cg_ok ?c2" "code_at P ?c2 (cpos cg)"
      using op_bytes[of OP_MUL ?c2 P "cpos cg"] a(1,2) le2 unfolding e u by auto
    have d: "P (cpos ?c1) = op_num OP_PUSH_INT" "load32 P (cpos ?c1 + 1) = - 1" "cpos ?c2 = cpos ?c1 + 5" "cpos ?c1 + 5 \<le> 65535"
      using arg_bytes[OF b(4,5) le] by auto
    have len2: "length (s @ [v]) < 1023" using a(5) by simp
    have "exec_code loc OP_PUSH_INT (vm1\<lparr>vpc := int (cpos ?c1 + 1)\<rparr>) = vpush (ival (- 1)) (vm1\<lparr>vpc := int (cpos ?c2)\<rparr>)"
      using exec_arg[OF st d(2,4)] unfolding d(3) by (simp add: exec_code_def del: of_nat_add)
    from loop_push[OF st d(1) _ len2 this]
    obtain vm2 where l: "vm_loop loc vm1 = vm_loop loc vm2" "stands P nats vm2 (cpos ?c2) ((s @ [v]) @ [ival (- 1)]) out1"
      using d(4) by auto
    then have "runs_to loc P nats vm2 (cpos ?c2 + 1) s (one (apply2 loc TK_STAR v (ival (- 1)) out1))"
      using runs_binop[where P = P and p = "cpos ?c2" and nats = nats and vm = vm2 and s = s and a = v and b = "ival (- 1)"
          and op = TK_STAR and loc = loc, OF _ b(1) _ b(2)] a(5)
      by simp
    then show ?thesis unfolding u b(3)
      using l(1) op by (auto simp: apply2_def apply1_def v_i_def ival_def)
  qed
  then show "runs_to loc P nats vm (cpos (emit_node src ?e cg)) s (one (den loc nats ?e out))"
    unfolding e using runs_bind[OF compilesD[OF c ok a(3,4)]] a(5) by (simp add: bind_res_assoc)
qed

section \<open>Native calls\<close>

lemma native_idx_map_of:
  assumes "cg_native_idx nm cg = r"
  shows "map_of (vnatives (cvm cg)) nm = map_option (\<lambda>i. snd (vnatives (cvm cg) ! i)) r"
    and "r = Some i \<Longrightarrow> i < length (vnatives (cvm cg))"
proof -
  let ?n = "vnatives (cvm cg)"
  have m: "name_matches s nm (length nm) \<longleftrightarrow> s = nm" for s by (auto simp: name_matches_def)
  have f: "List.find (\<lambda>i. fst (xs ! i) = nm) [0..<length xs] = r \<Longrightarrow>
      map_of xs nm = map_option (\<lambda>i. snd (xs ! i)) r" for xs :: "(u8 list \<times> native) list" and r
  proof (induction xs arbitrary: r)
    case (Cons x xs)
    have "[0..<length (x # xs)] = 0 # map Suc [0..<length xs]" by (simp add: map_Suc_upt upt_conv_Cons del: upt_Suc)
    then show ?case using Cons
      by (cases x) (auto simp: find_map comp_def option.map_comp simp del: upt_Suc)
  qed simp
  show "map_of ?n nm = map_option (\<lambda>i. snd (?n ! i)) r"
    using assms f[of ?n r] by (simp add: cg_native_idx_def m)
  show "r = Some i \<Longrightarrow> i < length ?n" using assms by (auto simp: cg_native_idx_def find_Some_iff)
qed

lemma str_text_lit: "\<forall>k. p \<noteq> Str_table k \<Longrightarrow> str_text vm p = str_text vm' p"
  by (cases p) auto

lemma plain_print: "plain v \<Longrightarrow> print_arg loc vm v = print_arg loc vm' v"
  using str_text_lit[of _ vm vm'] by (cases "vpay v"; cases "vtype v") (simp_all add: print_arg_def plain_def v_i_def)

lemma native_stands:
  assumes "stands P nats vm q s out" and "list_all plain vs"
  shows "\<exists>r vm'. call_native loc f vs vm = (r, vm') \<and> plain r
    \<and> (\<exists>out'. apply_native loc f vs out = Val r out' \<and> stands P nats vm' q s out')"
proof -
  have pr: "concat (map (print_arg loc vm) vs) = concat (map (print_arg loc vm') vs)" for vm'
    using assms(2) plain_print by (intro arg_cong[of _ _ concat] map_cong) (auto simp: list_all_iff)
  show ?thesis
  proof (cases f)
    case Native_tostring
    then show ?thesis using assms
      by (cases vs) (auto simp: apply_native_def native_tostring_def sval_def plain_def stands_def)
  qed (use assms(1) pr[of "lxs_vm_zero\<lparr>vout := out\<rparr>"] in
      \<open>auto simp: apply_native_def native_print_def native_println_def stands_def Let_def\<close>)
qed

lemma compiles_args:
  assumes "\<And>a. a \<in> set args \<Longrightarrow> compiles loc nats src a"
    and "cg_ok (emit_args src args cg)" and "code_at P (emit_args src args cg) (cpos cg)" and "vnatives (cvm cg) = nats"
    and "stands P nats vm (cpos cg) s out" and "length s + needs args \<le> 1023"
  shows "runs_to loc P nats vm (cpos (emit_args src args cg)) s (dens loc nats args out)"
  using assms
proof (induction args arbitrary: cg vm s out)
  case (Cons a as)
  let ?c1 = "emit_node src a cg"
  have ex: "extends cg ?c1" "extends ?c1 (emit_args src as ?c1)" by (rule extends_emit)+
  have c1: "cg_ok ?c1" "code_at P ?c1 (cpos cg)"
    using extends_okD[OF ex(2)] code_at_extends[OF _ ex(2)] Cons.prems by auto
  have nat: "vnatives (cvm ?c1) = nats" using ex(1) Cons.prems(4) by (simp add: extends_def)
  have ca: "code_at P (emit_args src as ?c1) (cpos ?c1)"
    using Cons.prems(3) code_at_mono[OF _ extends_cpos[OF ex(1)]] by simp
  have rest: "runs_to loc P nats vm1 (cpos (emit_args src as ?c1)) s (bind_res (dens loc nats as out1) (\<lambda>vs. Val (v # vs)))"
    if v: "plain v" and st: "stands P nats vm1 (cpos ?c1) (s @ [v]) out1" for v out1 vm1
    by (rule runs_bind_list[OF Cons.IH[OF _ _ ca nat st]])
      (use Cons.prems v in \<open>auto simp: list_all_iff intro!: exI\<close>)
  show ?case using runs_bind[OF compilesD[OF Cons.prems(1) c1 Cons.prems(4,5)] rest] Cons.prems(6) by simp
qed (auto)

lemma dens_length: "dens loc nats args out = Val vs out' \<Longrightarrow> length vs = length args"
proof (induction args arbitrary: out vs out')
  case (Cons a as)
  then show ?case by (cases "den loc nats a out"; simp) (case_tac "dens loc nats as x12"; force)
qed simp

lemma runs_call:
  assumes st: "stands P nats vm p (s @ vs) out" and op: "P p = op_num OP_CALL_NATIVE" "p + 9 \<le> 65535"
    and i: "load32 P (p + 1) = of_nat ni" "ni < length nats" "length nats \<le> VM_NATIVE_MAX" "snd (nats ! ni) = f"
    and n: "load32 P (p + 5) = of_nat (length vs)" "length vs \<le> 16" and s: "length s < 1023" "list_all plain vs"
  shows "runs_to loc P nats vm (p + 9) s (one (apply_native loc f vs out))"
proof -
  let ?vm = "vm\<lparr>vpc := int (p + 1)\<rparr>"
  have P: "vprog ?vm = P" "vnatives ?vm = nats" using st by (auto simp: stands_def)
  have si: "sint (of_nat ni :: u32) = int ni" "sint (of_nat (length vs) :: u32) = int (length vs)"
    using i(2,3) n(2) sint_small32[of "of_nat ni"] sint_small32[of "of_nat (length vs)"]
    by (simp_all add: VM_NATIVE_MAX_def unat_of_nat32)
  obtain vm3 where p3: "vpops (length vs) (?vm\<lparr>vpc := int (p + 9)\<rparr>) = (vs, vm3)" and s3: "stands P nats vm3 (p + 9) s out"
    using stands_pops[of P nats "?vm\<lparr>vpc := int (p + 9)\<rparr>" "p + 9" s vs out] stands_pc[OF st, of "p + 9"] by auto
  obtain r vm4 out' where c: "call_native loc f vs vm3 = (r, vm4)" "plain r" "apply_native loc f vs out = Val r out'"
      "stands P nats vm4 (p + 9) s out'"
    using native_stands[OF s3 s(2)] by blast
  obtain vm5 where v: "vpush r vm4 = Next vm5" "stands P nats vm5 (p + 9) (s @ [r]) out'" using stands_push[OF c(4) s(1)] by blast
  have "nat (if int (length vs) < 16 then int (length vs) else 16) = length vs" using n(2) by simp
  moreover have "vnatives vm3 = nats" using s3 by (simp add: stands_def)
  ultimately have "op_call_native loc ?vm = Next vm5"
    using op_call_native_eq[of ?vm p loc] op(2) i(2,4) p3 c(1) v(1) unfolding P i(1) n(1) si by simp
  then show ?thesis using loop_at[OF st op(1), of loc] op(2) c(2,3) v(2) by (auto simp: exec_code_def)
qed

lemma compiles_call:
  assumes args: "\<And>a. a \<in> set args \<Longrightarrow> compiles loc nats src a" and len: "length args \<le> 16"
    and f: "Option.bind nm (map_of nats) = Some f" and nn: "length nats \<le> VM_NATIVE_MAX"
  shows "compiles loc nats src (Ast_call t nm args)"
  unfolding compiles_def
proof (intro allI impI)
  fix P cg vm s out
  let ?e = "Ast_call t nm args"
  let ?c1 = "emit_args src args cg"
  assume a: "cg_ok (emit_node src ?e cg)" "code_at P (emit_node src ?e cg) (cpos cg)" "vnatives (cvm cg) = nats"
    "stands P nats vm (cpos cg) s out" "length s + need ?e \<le> 1023"
  obtain name where nm: "nm = Some name" "map_of nats name = Some f" using f by (cases nm) auto
  have ex: "extends cg ?c1" by (rule extends_emit)
  have le: "cpos cg \<le> cpos ?c1" using extends_cpos[OF ex] .
  have nat: "vnatives (cvm ?c1) = nats" using ex a(3) by (simp add: extends_def)
  obtain ni where ni: "cg_native_idx name ?c1 = Some ni" "snd (nats ! ni) = f" "ni < length nats"
    using native_idx_map_of[of name ?c1, OF refl] nm(2) nat by (cases "cg_native_idx name ?c1") auto
  let ?c2 = "emit_arg OP_CALL_NATIVE (of_nat ni) ?c1"
  have e: "emit_node src ?e cg = emit32 (of_nat (length args)) ?c2"
    using extends_okD[OF extends_emit(1) a(1)] nm(1) ni(1) by (simp add: emit_call_def)
  have le2: "cpos cg \<le> cpos ?c2" using le extends_cpos[OF extends_emit_arg[OF extends_refl]] order_trans by blast
  have b: "load32 P (cpos ?c2) = of_nat (length args)" "cpos (emit_node src ?e cg) = cpos ?c2 + 4" "cpos ?c2 + 4 \<le> 65535"
      "cg_ok ?c2" "code_at P ?c2 (cpos cg)"
    using emit32_bytes[OF a(1,2)[unfolded e] le2] unfolding e by auto
  have c: "P (cpos ?c1) = op_num OP_CALL_NATIVE" "load32 P (cpos ?c1 + 1) = of_nat ni" "cpos ?c2 = cpos ?c1 + 5"
      "cg_ok ?c1" "code_at P ?c1 (cpos cg)"
    using arg_bytes[OF b(4,5) le] by auto
  have pos: "cpos ?c1 + 5 + 4 = cpos ?c1 + 9" "length s < 1023" using a(5) need_pos(1)[of ?e] by simp_all
  have "runs_to loc P nats vm (cpos ?c1 + 9) s (bind_res (dens loc nats args out) (\<lambda>vs out1. one (apply_native loc f vs out1)))"
  proof (rule runs_bind_list[OF compiles_args[OF args c(4,5) a(3,4)]])
    fix vs out1 vm1
    assume v: "dens loc nats args out = Val vs out1" "list_all plain vs" "stands P nats vm1 (cpos ?c1) (s @ vs) out1"
    have "length vs = length args" using dens_length[OF v(1)] .
    then show "runs_to loc P nats vm1 (cpos ?c1 + 9) s (one (apply_native loc f vs out1))"
      using runs_call[OF v(3) c(1) _ c(2) ni(3) nn ni(2)] b(1,3) c(3) len pos v(2) by simp
  qed (use a(5) in auto)
  then show "runs_to loc P nats vm (cpos (emit_node src ?e cg)) s (one (den loc nats ?e out))"
    unfolding b(2) c(3) pos(1) using f by (simp add: bind_res_assoc)
qed

lemma pure_compiles: "pure nats e \<Longrightarrow> length nats \<le> VM_NATIVE_MAX \<Longrightarrow> compiles loc nats src e"
proof (induction e)
  case (Ast_int t i)
  show ?case by (rule compiles_literal[where op = OP_PUSH_INT and g = ival and n = "of_int i" and v = "ival (of_int i)"]) (simp_all add: exec_code_def)
next
  case (Ast_float t i)
  show ?case by (rule compiles_literal[where op = OP_PUSH_INT and g = ival and n = "of_int i" and v = "ival (of_int i)"]) (simp_all add: exec_code_def)
next
  case (Ast_bool t b)
  show ?case
    by (rule compiles_literal[where op = OP_PUSH_BOOL and g = bval and n = "if b \<noteq> 0 then 1 else 0" and v = "of_bool32 (b \<noteq> 0)"]) (auto simp: exec_code_def of_bool32_def)
qed (auto intro: compiles_nil compiles_binop compiles_unop compiles_call)

section \<open>Statements\<close>

text \<open>
  The meaning of statements: the values that expression statements leave on the stack, what was
  printed, and whether the program goes on or has returned.
\<close>

datatype flow = Go | Returned

fun sem :: "(sptr \<Rightarrow> u32) \<Rightarrow> (u8 list \<times> native) list \<Rightarrow> ast \<Rightarrow> console list \<Rightarrow> (flow \<times> lxs_val list) res"
  and sems :: "(sptr \<Rightarrow> u32) \<Rightarrow> (u8 list \<times> native) list \<Rightarrow> ast list \<Rightarrow> console list \<Rightarrow> (flow \<times> lxs_val list) res" where
  "sem loc nats Null out = Val (Go, []) out"
| "sem loc nats (Ast_block _ ss) out = sems loc nats ss out"
| "sem loc nats (Ast_if _ c t e) out =
     bind_res (den loc nats c out) (\<lambda>v out1. if v_i loc v = 0 then sem loc nats e out1 else sem loc nats t out1)"
| "sem loc nats (Ast_return _ v) out = bind_res (den loc nats v out) (\<lambda>r out1. Val (Returned, [r]) out1)"
| "sem loc nats e out = bind_res (den loc nats e out) (\<lambda>r out1. Val (Go, [r]) out1)"
| "sems loc nats [] out = Val (Go, []) out"
| "sems loc nats (s # ss) out =
     bind_res (sem loc nats s out) (\<lambda>(f, vs) out1.
       if f = Returned then Val (Returned, vs) out1
       else bind_res (sems loc nats ss out1) (\<lambda>(f', vs') out2. Val (f', vs @ vs') out2))"

text \<open>The programs considered: blocks, conditionals and returns over pure expressions.\<close>

fun straight :: "(u8 list \<times> native) list \<Rightarrow> ast \<Rightarrow> bool" where
  "straight nats Null = True"
| "straight nats (Ast_block _ ss) = (\<forall>s \<in> set ss. straight nats s)"
| "straight nats (Ast_if _ c t e) \<longleftrightarrow> pure nats c \<and> straight nats t \<and> straight nats e"
| "straight nats (Ast_return _ v) \<longleftrightarrow> v = Null \<or> pure nats v"
| "straight nats e = pure nats e"

fun sneed :: "ast \<Rightarrow> nat" and sneeds :: "ast list \<Rightarrow> nat" where
  "sneed Null = 0"
| "sneed (Ast_block _ ss) = sneeds ss"
| "sneed (Ast_if _ c t e) = max (need c) (max (sneed t) (sneed e))"
| "sneed (Ast_return _ v) = need v"
| "sneed e = need e"
| "sneeds [] = 0"
| "sneeds (s # ss) = sneed s + sneeds ss"

fun sruns :: "(sptr \<Rightarrow> u32) \<Rightarrow> (nat \<Rightarrow> u8) \<Rightarrow> (u8 list \<times> native) list \<Rightarrow> vm \<Rightarrow> nat \<Rightarrow> lxs_val list \<Rightarrow> (flow \<times> lxs_val list) res \<Rightarrow> bool" where
  "sruns loc P nats vm q s (Val (Go, vs) out) \<longleftrightarrow>
     (\<exists>vm'. vm_loop loc vm = vm_loop loc vm' \<and> stands P nats vm' q (s @ vs) out)"
| "sruns loc P nats vm q s (Val (Returned, vs) out) \<longleftrightarrow>
     (\<exists>vm' q'. vm_loop loc vm = Some (Ret 0 vm') \<and> stands P nats vm' q' (s @ vs) out)"
| "sruns loc P nats vm q s (Div_zero out) \<longleftrightarrow>
     (\<exists>vm'. vm_loop loc vm = Some (Ret (- 1) vm') \<and> verror vm' = Some E_div_by_zero \<and> vout vm' = out)"
| "sruns loc P nats vm q s Trap \<longleftrightarrow> vm_loop loc vm = Some Fault"

lemma sruns_loop: "vm_loop loc vm = vm_loop loc vm1 \<Longrightarrow> sruns loc P nats vm q s r = sruns loc P nats vm1 q s r"
  by (cases "(loc, P, nats, vm, q, s, r)" rule: sruns.cases) auto

lemma sruns_bind:
  assumes "runs_to loc P nats vm q s (one r)"
    and "\<And>v out vm1. plain v \<Longrightarrow> stands P nats vm1 q (s @ [v]) out \<Longrightarrow> sruns loc P nats vm1 q' s' (f v out)"
  shows "sruns loc P nats vm q' s' (bind_res r f)"
proof (cases r)
  case (Val v out)
  then obtain vm1 where l: "vm_loop loc vm = vm_loop loc vm1" and "stands P nats vm1 q (s @ [v]) out" "plain v"
    using assms(1) by auto
  then have "sruns loc P nats vm1 q' s' (f v out)" using assms(2) by blast
  then show ?thesis using Val by (simp add: sruns_loop[OF l])
qed (use assms in simp_all)

definition scompiles :: "(sptr \<Rightarrow> u32) \<Rightarrow> (u8 list \<times> native) list \<Rightarrow> u8 list \<Rightarrow> ast \<Rightarrow> bool" where
  "scompiles loc nats src e \<longleftrightarrow> (\<forall>P cg vm s out. cg_ok (emit_node src e cg) \<longrightarrow> code_at P (emit_node src e cg) (cpos cg)
     \<longrightarrow> vnatives (cvm cg) = nats \<longrightarrow> stands P nats vm (cpos cg) s out \<longrightarrow> length s + sneed e \<le> 1023
     \<longrightarrow> sruns loc P nats vm (cpos (emit_node src e cg)) s (sem loc nats e out))"

lemma scompilesD:
  "scompiles loc nats src e \<Longrightarrow> cg_ok (emit_node src e cg) \<Longrightarrow> code_at P (emit_node src e cg) (cpos cg) \<Longrightarrow>
   vnatives (cvm cg) = nats \<Longrightarrow> stands P nats vm (cpos cg) s out \<Longrightarrow> length s + sneed e \<le> 1023 \<Longrightarrow>
   sruns loc P nats vm (cpos (emit_node src e cg)) s (sem loc nats e out)"
  unfolding scompiles_def by blast

lemma scompiles_expr:
  assumes "compiles loc nats src e" and "sneed e = need e"
    and "\<And>out. sem loc nats e out = bind_res (den loc nats e out) (\<lambda>r. Val (Go, [r]))"
  shows "scompiles loc nats src e"
  unfolding scompiles_def assms(2,3) using compilesD[OF assms(1)] by (auto intro!: sruns_bind)

lemma scompiles_return:
  assumes "compiles loc nats src v" and v: "v \<noteq> Null"
  shows "scompiles loc nats src (Ast_return t v)"
  unfolding scompiles_def
proof (intro allI impI)
  fix P cg vm s out
  let ?c1 = "emit_node src v cg"
  assume a: "cg_ok (emit_node src (Ast_return t v) cg)" "code_at P (emit_node src (Ast_return t v) cg) (cpos cg)"
    "vnatives (cvm cg) = nats" "stands P nats vm (cpos cg) s out" "length s + sneed (Ast_return t v) \<le> 1023"
  have e: "emit_node src (Ast_return t v) cg = emit_op OP_RETURN ?c1" using extends_okD[OF extends_emit(1) a(1)] v by simp
  have le: "cpos cg \<le> cpos ?c1" using extends_emit(1) extends_cpos by blast
  have b: "P (cpos ?c1) = op_num OP_RETURN" "cpos ?c1 + 1 \<le> 65535" "cg_ok ?c1" "code_at P ?c1 (cpos cg)"
    using op_bytes[of OP_RETURN ?c1 P "cpos cg"] a(1,2) le unfolding e by auto
  show "sruns loc P nats vm (cpos (emit_node src (Ast_return t v) cg)) s (sem loc nats (Ast_return t v) out)"
    unfolding sem.simps
  proof (rule sruns_bind[OF compilesD[OF assms(1) b(3,4) a(3,4)]])
    fix r out1 vm1
    assume st: "stands P nats vm1 (cpos ?c1) (s @ [r]) out1"
    then show "sruns loc P nats vm1 (cpos (emit_node src (Ast_return t v) cg)) s (Val (Returned, [r]) out1)"
      using loop_at[OF st b(1), of loc] b(2) stands_pc[OF st, of "cpos ?c1 + 1"] by (auto simp: exec_code_def)
  qed (use a(5) in simp)
qed

lemma of_nat_sint: "k \<le> 65535 \<Longrightarrow> sint (of_nat k :: u32) = int k"
  using sint_small32[of "of_nat k"] by (simp add: unat_of_nat32)

lemma sruns_jump:
  assumes "sruns loc P nats vm q s r" and "P q = op_num OP_JUMP" and "load32 P (q + 1) = of_nat q'" and "q + 5 \<le> 65535"
    and "q' \<le> 65535"
  shows "sruns loc P nats vm q' s r"
proof (cases "\<exists>vs out. r = Val (Go, vs) out")
  case True
  then obtain vs out vm' where r: "r = Val (Go, vs) out" "vm_loop loc vm = vm_loop loc vm'" and st: "stands P nats vm' q (s @ vs) out"
    using assms(1) by auto
  have "exec_code loc OP_JUMP (vm'\<lparr>vpc := int (q + 1)\<rparr>) = Next (vm'\<lparr>vpc := int q'\<rparr>)"
    using exec_arg[OF st assms(3,4)] of_nat_sint[OF assms(5)] by (simp add: exec_code_def del: of_nat_add)
  then have "vm_loop loc vm' = vm_loop loc (vm'\<lparr>vpc := int q'\<rparr>)" using loop_at[OF st assms(2), of loc] assms(4) by simp
  then show ?thesis using r stands_pc[OF st, of q'] by auto
next
  case False
  then show ?thesis using assms(1) by (cases "(loc, P, nats, vm, q, s, r)" rule: sruns.cases) auto
qed

lemma scompiles_if:
  assumes c: "compiles loc nats src c" and t: "scompiles loc nats src t" and e: "scompiles loc nats src e"
  shows "scompiles loc nats src (Ast_if tok c t e)"
  unfolding scompiles_def
proof (intro allI impI)
  fix P cg vm s out
  let ?r = "emit_node src (Ast_if tok c t e) cg"
  assume a: "cg_ok ?r" "code_at P ?r (cpos cg)" "vnatives (cvm cg) = nats" "stands P nats vm (cpos cg) s out"
    "length s + sneed (Ast_if tok c t e) \<le> 1023"
  have okcg: "cg_ok cg" using extends_okD[OF extends_emit(1) a(1)] .
  let ?cg1 = "emit_node src c cg"
  let ?cg2 = "emit_arg OP_JUMP_IF_FALSE 0 ?cg1"
  let ?cg3 = "emit_node src t ?cg2"
  let ?cg5 = "cg_patch (cpos (emit_op OP_JUMP_IF_FALSE ?cg1)) (emit_arg OP_JUMP 0 ?cg3)"
  let ?cg6 = "emit_node src e ?cg5"
  have r: "?r = cg_patch (cpos (emit_op OP_JUMP ?cg3)) ?cg6" using okcg by (simp add: emit_jump_eq Let_def)
  note L = if_layout[OF a(1)[unfolded r] a(2)[unfolded r] extends_cpos[OF extends_emit(1)] extends_emit(1) extends_emit(1)]
  have n2: "vnatives (cvm ?cg2) = nats" and n5: "vnatives (cvm ?cg5) = nats"
    using a(3) extends_emit(1)[of cg src c] extends_emit_arg[OF extends_refl, of ?cg1 OP_JUMP_IF_FALSE 0]
      extends_emit(1)[of ?cg2 src t] extends_emit_arg[OF extends_refl, of ?cg3 OP_JUMP 0]
    by (auto simp: extends_def cg_patch_def set_prog_def)
  have J1: "P (cpos ?cg1) = op_num OP_JUMP_IF_FALSE" "load32 P (cpos ?cg1 + 1) = of_nat (cpos ?cg5)" "cpos ?cg1 + 5 \<le> 65535"
    and J2: "P (cpos ?cg3) = op_num OP_JUMP" "load32 P (cpos ?cg3 + 1) = of_nat (cpos ?cg6)" "cpos ?cg3 + 5 \<le> 65535"
    and p: "cpos ?cg2 = cpos ?cg1 + 5" "cpos ?cg5 \<le> 65535" "cpos ?cg6 \<le> 65535" "cpos ?r = cpos ?cg6"
    using L unfolding r by auto
  have C: "cg_ok ?cg1" "code_at P ?cg1 (cpos cg)" "cg_ok ?cg3" "code_at P ?cg3 (cpos ?cg2)" "cg_ok ?cg6" "code_at P ?cg6 (cpos ?cg5)"
    using L unfolding r by auto
  have len: "length s + need c \<le> 1023" "length s + sneed t \<le> 1023" "length s + sneed e \<le> 1023" using a(5) by auto
  show "sruns loc P nats vm (cpos ?r) s (sem loc nats (Ast_if tok c t e) out)"
    unfolding sem.simps p(4)
  proof (rule sruns_bind[OF compilesD[OF c _ _ a(3,4)]])
    fix v out1 vm1
    assume st: "stands P nats vm1 (cpos ?cg1) (s @ [v]) out1"
    obtain vm2 where vm2: "vpop (vm1\<lparr>vpc := int (cpos ?cg1 + 5)\<rparr>) = (v, vm2)" "stands P nats vm2 (cpos ?cg1 + 5) s out1"
      using stands_pop[OF stands_pc[OF st]] by blast
    have x: "exec_code loc OP_JUMP_IF_FALSE (vm1\<lparr>vpc := int (cpos ?cg1 + 1)\<rparr>)
        = Next (if v_i loc v = 0 then vm2\<lparr>vpc := int (cpos ?cg5)\<rparr> else vm2)"
      using exec_arg[OF st J1(2,3)] vm2(1) of_nat_sint[OF p(2)] by (simp add: exec_code_def op_jump_if_false_def del: of_nat_add)
    have l: "vm_loop loc vm1 = vm_loop loc (if v_i loc v = 0 then vm2\<lparr>vpc := int (cpos ?cg5)\<rparr> else vm2)"
      using loop_at[OF st J1(1), of loc] J1(3) x by simp
    show "sruns loc P nats vm1 (cpos ?cg6) s (if v_i loc v = 0 then sem loc nats e out1 else sem loc nats t out1)"
    proof (cases "v_i loc v = 0")
      case True
      have "sruns loc P nats (vm2\<lparr>vpc := int (cpos ?cg5)\<rparr>) (cpos ?cg6) s (sem loc nats e out1)"
        by (rule scompilesD[OF e C(5,6) n5 stands_pc[OF vm2(2)] len(3)])
      then show ?thesis using True by (simp add: sruns_loop[OF l])
    next
      case False
      have "sruns loc P nats vm2 (cpos ?cg3) s (sem loc nats t out1)"
        by (rule scompilesD[OF t C(3,4) n2 _ len(2)]) (use vm2(2) p(1) in simp)
      then have "sruns loc P nats vm2 (cpos ?cg6) s (sem loc nats t out1)" by (rule sruns_jump[OF _ J2 p(3)])
      then show ?thesis using False by (simp add: sruns_loop[OF l])
    qed
  qed (rule C len)+
qed

lemma bind_Val: "bind_res r f = Val x out \<Longrightarrow> \<exists>v out1. r = Val v out1 \<and> f v out1 = Val x out"
  by (cases r) auto

lemma sem_len:
  "sem loc nats e out = Val (f, vs) out' \<Longrightarrow> length vs \<le> sneed e"
  "sems loc nats es out = Val (f, vs) out' \<Longrightarrow> length vs \<le> sneeds es"
proof (induction loc nats e out and loc nats es out arbitrary: f vs out' and f vs out' rule: sem_sems.induct)
  case (3 loc nats t c a b out)
  then show ?case by (auto dest!: bind_Val split: if_splits simp: le_max_iff_disj)
next
  case (7 loc nats s ss out)
  then show ?case by (fastforce dest!: bind_Val split: if_splits)
qed (auto dest!: bind_Val simp: Suc_le_eq need_pos max_def)

lemma scompiles_block:
  assumes "\<And>e. e \<in> set ss \<Longrightarrow> scompiles loc nats src e"
  shows "scompiles loc nats src (Ast_block t ss)"
proof -
  have "sruns loc P nats vm (cpos (emit_block src ss cg)) s (sems loc nats ss out)"
    if "cg_ok (emit_block src ss cg)" "code_at P (emit_block src ss cg) (cpos cg)" "vnatives (cvm cg) = nats"
      "stands P nats vm (cpos cg) s out" "length s + sneeds ss \<le> 1023" for P cg vm s out
    using that assms
  proof (induction ss arbitrary: cg vm s out)
    case (Cons e es)
    let ?c1 = "emit_node src e cg"
    have ok: "cg_ok cg" using extends_okD[OF extends_emit(3) Cons.prems(1)] .
    have b: "emit_block src (e # es) cg = emit_block src es ?c1" using ok by simp
    have ex: "extends cg ?c1" "extends ?c1 (emit_block src es ?c1)" by (rule extends_emit)+
    have c1: "cg_ok ?c1" "code_at P ?c1 (cpos cg)"
      using extends_okD[OF ex(2)] code_at_extends[OF _ ex(2)] Cons.prems(1,2) unfolding b by auto
    have nat: "vnatives (cvm ?c1) = nats" using ex(1) Cons.prems(3) by (simp add: extends_def)
    have ca: "code_at P (emit_block src es ?c1) (cpos ?c1)"
      using Cons.prems(2) code_at_mono[OF _ extends_cpos[OF ex(1)]] unfolding b by blast
    have R: "sruns loc P nats vm (cpos ?c1) s (sem loc nats e out)"
      by (rule scompilesD[OF Cons.prems(6) c1 Cons.prems(3,4)]) (use Cons.prems(5) in auto)
    show ?case
    proof (cases "\<exists>vs out1. sem loc nats e out = Val (Go, vs) out1")
      case True
      then obtain vs out1 vm1 where v: "sem loc nats e out = Val (Go, vs) out1" "vm_loop loc vm = vm_loop loc vm1"
          "stands P nats vm1 (cpos ?c1) (s @ vs) out1" using R by auto
      have "sruns loc P nats vm1 (cpos (emit_block src es ?c1)) (s @ vs) (sems loc nats es out1)"
        by (rule Cons.IH[OF _ ca nat v(3)]) (use Cons.prems b sem_len(1)[OF v(1)] in auto)
      then show ?thesis unfolding b using v(1)
        by (simp add: sruns_loop[OF v(2)]) (cases "sems loc nats es out1"; auto split: prod.splits flow.splits elim!: sruns.elims)
    next
      case False
      then show ?thesis using R unfolding b
        by (cases "(loc, P, nats, vm, cpos ?c1, s, sem loc nats e out)" rule: sruns.cases) auto
    qed
  qed (use that in auto)
  then show ?thesis by (simp add: scompiles_def)
qed

lemma straight_compiles: "straight nats e \<Longrightarrow> length nats \<le> VM_NATIVE_MAX \<Longrightarrow> scompiles loc nats src e"
proof (induction e)
  case Null
  show ?case by (auto simp: scompiles_def)
next
  case (Ast_block t ss)
  then show ?case by (auto intro: scompiles_block)
next
  case (Ast_if t c a b)
  then show ?case by (auto intro: scompiles_if pure_compiles)
next
  case (Ast_return t v)
  show ?case
  proof (cases "v = Null")
    case True
    have "scompiles loc nats src (Ast_return t (Ast_nil t))"
      by (rule scompiles_return) (use Ast_return.prems pure_compiles in auto)
    moreover have "emit_node src (Ast_return t Null) cg = emit_node src (Ast_return t (Ast_nil t)) cg"
      "sem loc nats (Ast_return t Null) out = sem loc nats (Ast_return t (Ast_nil t)) out"
      "sneed (Ast_return t Null) = sneed (Ast_return t (Ast_nil t))" for cg out by simp_all
    ultimately show ?thesis unfolding True by (simp only: scompiles_def)
  qed (use Ast_return.prems in \<open>auto intro: scompiles_return pure_compiles\<close>)
qed (auto intro!: scompiles_expr pure_compiles)

text \<open>
  C34. Compiler correctness. Take a program of blocks, conditionals, returns and expression statements over
  integer, float, boolean and nil literals (not string literals), the operators + - * / == != < > && || ! and
  unary minus (not % <= >=), and calls of registered native functions with at most 16 arguments. If the code
  generator accepts it in fewer than 65535 bytes, it needs at most 1023 stack entries and at most 128 native
  functions are registered, then it runs to its meaning: the
  machine returns 0 with exactly the values and the output that the meaning of the tree has, or
  returns -1 with a division error after exactly that output, or traps where the meaning traps.
\<close>

theorem compiled_code_correct:
  assumes "cg_emit src tree (cg_init vm) = (0, cg)" and "cpos cg < 65535" and "vsp vm = 0"
    and "straight (vnatives vm) tree" and "length (vnatives vm) \<le> VM_NATIVE_MAX" and "sneed tree \<le> 1023"
  shows "case sem loc (vnatives vm) tree (vout vm) of
      Val (f, vs) out \<Rightarrow> (\<exists>vm'. vm_run loc 0 (cvm (cg_finalise cg)) = Some (Ret 0 vm')
        \<and> map (vstack vm') [0..<vsp vm'] = vs \<and> vout vm' = out)
    | Div_zero out \<Rightarrow> (\<exists>vm'. vm_run loc 0 (cvm (cg_finalise cg)) = Some (Ret (- 1) vm')
        \<and> verror vm' = Some E_div_by_zero \<and> vout vm' = out)
    | Trap \<Rightarrow> vm_run loc 0 (cvm (cg_finalise cg)) = Some Fault"
proof -
  let ?P = "cprog (cg_finalise cg)"
  let ?vm = "cvm (cg_finalise cg)"
  have cg: "cg = emit_node src tree (cg_init vm)" "cg_ok cg" using assms(1) by (auto simp: cg_emit_def Let_def split: if_splits)
  note f = finalise_bytes[OF cg(2) assms(2)]
  have x: "vsp (cvm cg) = 0" "vnatives (cvm cg) = vnatives vm" "vout (cvm cg) = vout vm"
    using extends_emit(1)[of "cg_init vm" src tree] assms(3) cg(1) by (auto simp: extends_def cg_init_def)
  have st: "stands ?P (vnatives vm) ?vm 0 [] (vout vm)" using f x by (simp add: stands_def)
  have run: "vm_run loc 0 ?vm = vm_loop loc ?vm"
  proof -
    have u: "?vm\<lparr>vpc := k\<rparr> = ?vm" if "k = vpc ?vm" for k using that by simp
    show ?thesis unfolding vm_run_def by (rule arg_cong[OF u]) (use f in simp)
  qed
  have R: "sruns loc ?P (vnatives vm) ?vm (cpos cg) [] (sem loc (vnatives vm) tree (vout vm))"
    using scompilesD[OF straight_compiles[OF assms(4,5)], of src "cg_init vm" ?P ?vm "[]"] cg st f assms(6)
    by (simp add: cg_init_def)
  have stack: "map (vstack vm') [0..<vsp vm'] = vs" if "stands ?P nats vm' q vs out" for nats vm' q vs out
    using that by (auto simp: stands_def intro: nth_equalityI)
  have halt: "vm_loop loc vm' = Some (Ret 0 (vm'\<lparr>vpc := int (cpos cg + 1)\<rparr>))" if "stands ?P nats vm' (cpos cg) vs out" for nats vm' vs out
    using loop_at[OF that, of OP_HALT loc] f assms(2) by (simp add: exec_code_def)
  show ?thesis
  proof (cases "sem loc (vnatives vm) tree (vout vm)")
    case (Val fv out)
    obtain fl vs where fv: "fv = (fl, vs)" by fastforce
    then consider (go) vm' where "vm_loop loc ?vm = vm_loop loc vm'" "stands ?P (vnatives vm) vm' (cpos cg) vs out"
      | (ret) vm' q where "vm_loop loc ?vm = Some (Ret 0 vm')" "stands ?P (vnatives vm) vm' q vs out"
      using R Val by (cases fl) auto
    then show ?thesis
    proof cases
      case go
      then show ?thesis using Val fv run halt[OF go(2)] stack[OF stands_pc[OF go(2), of "cpos cg + 1"]]
        by (auto simp: stands_def)
    next
      case ret
      then show ?thesis using Val fv run stack[OF ret(2)] by (auto simp: stands_def)
    qed
  qed (use R run in auto)
qed

definition demo_tree :: ast where
  "demo_tree = (let t = make_tok TK_INT 0 1 1 1
     in Ast_if t (Ast_binop t TK_LT (Ast_int t 2) (Ast_int t 3)) (Ast_return t (Ast_binop t TK_SLASH (Ast_int t 7) (Ast_int t 2))) Null)"

lemma emit_fits:
  "cg_ok cg \<Longrightarrow> cpos cg + 1 \<le> 65535 \<Longrightarrow> cg_ok (emit_op op cg)"
  "cg_ok cg \<Longrightarrow> cpos cg + 1 \<le> 65535 \<Longrightarrow> cpos (emit_op op cg) = cpos cg + 1"
  "cg_ok cg \<Longrightarrow> cpos cg + 5 \<le> 65535 \<Longrightarrow> cg_ok (emit_arg op n cg)"
  "cg_ok cg \<Longrightarrow> cpos cg + 5 \<le> 65535 \<Longrightarrow> cpos (emit_arg op n cg) = cpos cg + 5"
  "cg_ok cg \<Longrightarrow> cg_ok (cg_patch off cg)" "cpos (cg_patch off cg) = cpos cg"
  by (simp_all add: emit_op_def emit_arg_def emit32_def emit8_def set_prog_def cg_ok_def cg_patch_def VM_PROG_SIZE_def)

theorem compiled_code_correct_witness:
  "let cg = snd (cg_emit [] demo_tree (cg_init lxs_vm_zero))
   in \<exists>vm'. vm_run (\<lambda>_. 0) 0 (cvm (cg_finalise cg)) = Some (Ret 0 vm') \<and> map (vstack vm') [0..<vsp vm'] = [ival 3]"
proof -
  let ?cg = "snd (cg_emit [] demo_tree (cg_init lxs_vm_zero))"
  have ok: "cg_ok (cg_init lxs_vm_zero)" "cpos (cg_init lxs_vm_zero) = 0" by (simp_all add: cg_ok_def cg_init_def)
  have e: "cg_emit [] demo_tree (cg_init lxs_vm_zero) = (0, ?cg)" and p: "cpos ?cg = 33"
    by (simp_all add: cg_emit_def demo_tree_def Let_def emit_jump_eq emit_binop_op_def emit_fits ok)
  have s: "sem (\<lambda>_. 0) [] demo_tree [] = Val (Returned, [ival 3]) []"
    by (simp add: demo_tree_def Let_def apply2_def v_i_def ival_def of_bool32_def bval_def)
  have "straight [] demo_tree" "sneed demo_tree \<le> 1023" by (simp_all add: demo_tree_def Let_def)
  then show ?thesis
    using compiled_code_correct[OF e, of "\<lambda>_. 0"] p s by (auto simp: lxs_vm_zero_def Let_def)
qed

end
