(* ===== verification/Keyboard.thy ===== *)
theory Keyboard
  imports Input_Router
begin

text \<open>
  The PS/2 keyboard driver, \<^verbatim>\<open>kernel/drivers/ps2/keyboard.c\<close>: scancode tables, modifier and
  extended-key state, and the interrupt handler, which delivers every key through the input
  router. The bytes that the handler reads from the controller's status and data ports are its
  arguments.
\<close>

section \<open>Key codes and tables\<close>

definition KB_KEY_UP :: u8 where "KB_KEY_UP = 0x80"
definition KB_KEY_DOWN :: u8 where "KB_KEY_DOWN = 0x81"
definition KB_KEY_LEFT :: u8 where "KB_KEY_LEFT = 0x82"
definition KB_KEY_RIGHT :: u8 where "KB_KEY_RIGHT = 0x83"
definition KB_KEY_HOME :: u8 where "KB_KEY_HOME = 0x84"
definition KB_KEY_END :: u8 where "KB_KEY_END = 0x85"
definition KB_KEY_PGUP :: u8 where "KB_KEY_PGUP = 0x86"
definition KB_KEY_PGDN :: u8 where "KB_KEY_PGDN = 0x87"
definition KB_KEY_INS :: u8 where "KB_KEY_INS = 0x88"
definition KB_KEY_DEL :: u8 where "KB_KEY_DEL = 0x89"
definition KB_KEY_F1 :: u8 where "KB_KEY_F1 = 0x8A"
definition KB_KEY_F4 :: u8 where "KB_KEY_F4 = 0x8D"
definition KB_KEY_F11 :: u8 where "KB_KEY_F11 = 0x94"
definition KB_KEY_F12 :: u8 where "KB_KEY_F12 = 0x95"
definition KB_KEY_KPENTER :: u8 where "KB_KEY_KPENTER = 0x96"
definition KB_KEY_KPSLASH :: u8 where "KB_KEY_KPSLASH = 0x97"
definition KB_KEY_ALTTAB :: u8 where "KB_KEY_ALTTAB = 0x98"
definition KB_KEY_SUPER :: u8 where "KB_KEY_SUPER = 0x99"
definition KB_KEY_SHIFT :: u8 where "KB_KEY_SHIFT = 0xA0"
definition KB_KEY_CTRL :: u8 where "KB_KEY_CTRL = 0xA1"
definition KB_KEY_ALT :: u8 where "KB_KEY_ALT = 0xA2"
definition KB_KEY_CAPS :: u8 where "KB_KEY_CAPS = 0xA3"
definition KB_KEY_SUPER_M :: u8 where "KB_KEY_SUPER_M = 0xA4"

text \<open>The 58 entries that the two tables list; all others are 0.\<close>

definition sc_normal :: "u8 list" where
  "sc_normal =
     [0, 0x1B, 49, 50, 51, 52, 53, 54, 55, 56, 57, 48, 45, 61, 8,
      9, 113, 119, 101, 114, 116, 121, 117, 105, 111, 112, 91, 93, 10,
      0, 97, 115, 100, 102, 103, 104, 106, 107, 108, 59, 39, 96,
      0, 92, 122, 120, 99, 118, 98, 110, 109, 44, 46, 47, 0,
      42, 0, 32]"

definition sc_shifted :: "u8 list" where
  "sc_shifted =
     [0, 0x1B, 33, 64, 35, 36, 37, 94, 38, 42, 40, 41, 95, 43, 8,
      9, 81, 87, 69, 82, 84, 89, 85, 73, 79, 80, 123, 125, 10,
      0, 65, 83, 68, 70, 71, 72, 74, 75, 76, 58, 34, 126,
      0, 124, 90, 88, 67, 86, 66, 78, 77, 60, 62, 63, 0,
      42, 0, 32]"

definition table_at :: "u8 list \<Rightarrow> u8 \<Rightarrow> u8" where
  "table_at t sc = (if unat sc < length t then t ! unat sc else 0)"

fun ext_to_keycode :: "u8 \<Rightarrow> u8" where
  "ext_to_keycode sc =
     (if sc = 0x48 then KB_KEY_UP else if sc = 0x50 then KB_KEY_DOWN else if sc = 0x4B then KB_KEY_LEFT
      else if sc = 0x4D then KB_KEY_RIGHT else if sc = 0x47 then KB_KEY_HOME else if sc = 0x4F then KB_KEY_END
      else if sc = 0x49 then KB_KEY_PGUP else if sc = 0x51 then KB_KEY_PGDN else if sc = 0x52 then KB_KEY_INS
      else if sc = 0x53 then KB_KEY_DEL else if sc = 0x1C then KB_KEY_KPENTER else if sc = 0x35 then KB_KEY_KPSLASH
      else if sc = 0x5B \<or> sc = 0x5C then KB_KEY_SUPER else 0)"

text \<open>\<^verbatim>\<open>fkey_map\<close>: the codes of F1 to F10 are consecutive, as are their scancodes.\<close>

definition fkey_code :: "u8 \<Rightarrow> u8" where
  "fkey_code base =
     (if base < 0x45 then (if 0x3B \<le> base then KB_KEY_F1 + (base - 0x3B) else 0)
      else if base = 0x57 then KB_KEY_F11 else if base = 0x58 then KB_KEY_F12 else 0)"

section \<open>State\<close>

definition KB_BUF :: nat where "KB_BUF = 128"

record kbd =
  kring :: "nat \<Rightarrow> u8"
  r_head :: nat
  r_tail :: nat
  shifted :: bool
  ctrl_dn :: bool
  alt_dn :: bool
  super_dn :: bool
  caps_lock :: bool
  ext_seq :: bool
  key_state :: "u8 \<Rightarrow> u8"
  g_irq1_count :: u32
  ext_seq_irq_stamp :: u32
  krouter :: router

definition ring_push :: "u8 \<Rightarrow> kbd \<Rightarrow> kbd" where
  "ring_push c k =
     (let k1 = k\<lparr>krouter := input_router_push c (krouter k)\<rparr>; nx = (r_tail k1 + 1) mod KB_BUF
      in if nx \<noteq> r_head k1 then k1\<lparr>kring := (kring k1)(r_tail k1 := c), r_tail := nx\<rparr> else k1)"

definition to_desktop :: "u8 \<Rightarrow> kbd \<Rightarrow> kbd" where
  "to_desktop c k = k\<lparr>krouter := input_router_push_to (g_desktop_task (krouter k)) c (krouter k)\<rparr>"

definition set_key :: "u8 \<Rightarrow> bool \<Rightarrow> kbd \<Rightarrow> kbd" where
  "set_key kc dn k = k\<lparr>key_state := (key_state k)(kc := if dn then 1 else 0)\<rparr>"

section \<open>The interrupt handler\<close>

definition ext_key :: "u8 \<Rightarrow> kbd \<Rightarrow> kbd" where
  "ext_key sc k =
     (let release = bit sc 7; base = sc AND 0x7F; kc = ext_to_keycode base;
          k1 = (if kc = 0 then k
                else let k0 = set_key kc (\<not> release) k
                     in if \<not> release
                        then (if kc = KB_KEY_SUPER then set_key KB_KEY_SUPER_M True (k0\<lparr>super_dn := True\<rparr>) else ring_push kc k0)
                        else if kc = KB_KEY_SUPER then set_key KB_KEY_SUPER_M False (k0\<lparr>super_dn := False\<rparr>) else k0)
      in if \<not> release \<and> base = 0x0F \<and> alt_dn k1 then ring_push KB_KEY_ALTTAB k1 else k1)"

text \<open>Modifier keys; \<open>None\<close> when the scancode is not one.\<close>

definition modifier_key :: "u8 \<Rightarrow> kbd \<Rightarrow> kbd option" where
  "modifier_key sc k =
     (if sc = 0x2A \<or> sc = 0x36 then Some (set_key KB_KEY_SHIFT True (k\<lparr>shifted := True\<rparr>))
      else if sc = 0xAA \<or> sc = 0xB6 then Some (set_key KB_KEY_SHIFT False (k\<lparr>shifted := False\<rparr>))
      else if sc = 0x1D then Some (set_key KB_KEY_CTRL True (k\<lparr>ctrl_dn := True\<rparr>))
      else if sc = 0x9D then Some (set_key KB_KEY_CTRL False (k\<lparr>ctrl_dn := False\<rparr>))
      else if sc = 0x38 then Some (set_key KB_KEY_ALT True (k\<lparr>alt_dn := True\<rparr>))
      else if sc = 0xB8 then Some (set_key KB_KEY_ALT False (k\<lparr>alt_dn := False\<rparr>))
      else if sc = 0x3A then Some (set_key KB_KEY_CAPS (\<not> caps_lock k) (k\<lparr>caps_lock := \<not> caps_lock k\<rparr>))
      else if sc = 0xBA then Some k else None)"

definition fkey :: "u8 \<Rightarrow> kbd \<Rightarrow> kbd option" where
  "fkey sc k =
     (let kc = fkey_code (sc AND 0x7F); release = bit sc 7
      in if kc = 0 then None
         else let k1 = set_key kc (\<not> release) k
              in Some (if release then k1
                       else if KB_KEY_F1 \<le> kc \<and> kc \<le> KB_KEY_F4 then to_desktop kc k1 else ring_push kc k1))"

definition is_lower :: "u8 \<Rightarrow> bool" where "is_lower c \<longleftrightarrow> 97 \<le> c \<and> c \<le> 122"
definition is_upper :: "u8 \<Rightarrow> bool" where "is_upper c \<longleftrightarrow> 65 \<le> c \<and> c \<le> 90"

definition apply_caps :: "kbd \<Rightarrow> u8 \<Rightarrow> u8" where
  "apply_caps k c =
     (if caps_lock k \<and> \<not> ctrl_dn k then (if is_lower c then c - 32 else if is_upper c then c + 32 else c) else c)"

definition apply_ctrl :: "kbd \<Rightarrow> u8 \<Rightarrow> u8" where
  "apply_ctrl k c =
     (if ctrl_dn k then (if is_lower c then c - 97 + 1 else if is_upper c then c - 65 + 1 else c) else c)"

definition char_key :: "u8 \<Rightarrow> kbd \<Rightarrow> kbd" where
  "char_key sc k =
     (let c0 = table_at (if shifted k then sc_shifted else sc_normal) sc
      in if c0 = 0 then k
         else let c = apply_ctrl k (apply_caps k c0);
                  lc = (if is_upper c then c + 32 else c);
                  lc2 = (if 1 \<le> c \<and> c \<le> 26 then 97 + c - 1 else 0)
              in if super_dn k \<and> \<not> ctrl_dn k \<and> is_lower lc then to_desktop (0xC0 OR (lc - 97)) k
                 else if super_dn k \<and> ctrl_dn k \<and> is_lower lc2 then to_desktop (0xE0 OR (lc2 - 97)) k
                 else ring_push c k)"

definition plain_key :: "u8 \<Rightarrow> kbd \<Rightarrow> kbd" where
  "plain_key sc k =
     (case modifier_key sc k of Some k1 \<Rightarrow> k1
      | None \<Rightarrow>
          (case fkey sc k of Some k1 \<Rightarrow> k1
           | None \<Rightarrow>
               if bit sc 7 then k
               else if sc = 0x0F \<and> alt_dn k then to_desktop KB_KEY_ALTTAB k
               else char_key sc k))"

definition kb_handler :: "u8 \<Rightarrow> u8 \<Rightarrow> kbd \<Rightarrow> kbd" where
  "kb_handler st sc k0 =
     (let k = k0\<lparr>g_irq1_count := g_irq1_count k0 + 1\<rparr>
      in if \<not> bit st 0 then k
         else if bit st 5 then k
         else if sc = 0xE0 then k\<lparr>ext_seq := True, ext_seq_irq_stamp := g_irq1_count k\<rparr>
         else if ext_seq k
         then (if 50 < g_irq1_count k - ext_seq_irq_stamp k then plain_key sc (k\<lparr>ext_seq := False\<rparr>)
               else ext_key sc (k\<lparr>ext_seq := False\<rparr>))
         else plain_key sc k)"

text \<open>The state part of \<^verbatim>\<open>keyboard_init\<close>; the port traffic that follows is not modelled.\<close>

definition keyboard_init_state :: "kbd \<Rightarrow> kbd" where
  "keyboard_init_state k =
     k\<lparr>r_head := 0, r_tail := 0, shifted := False, ctrl_dn := False, alt_dn := False, super_dn := False, ext_seq := False,
       caps_lock := False, key_state := (\<lambda>_. 0)\<rparr>"

definition keyboard_getchar :: "int \<Rightarrow> kbd \<Rightarrow> int \<times> kbd" where
  "keyboard_getchar task k =
     (let (c, r) = input_router_getchar task (krouter k) in (if 0 \<le> c then c else 0, k\<lparr>krouter := r\<rparr>))"

definition keyboard_key_down :: "u8 \<Rightarrow> kbd \<Rightarrow> u8" where "keyboard_key_down kc k = key_state k kc"

section \<open>Typing\<close>

text \<open>The bytes a keyboard sends for a character: the key, with shift held when its table needs it.\<close>

definition key_of :: "u8 list \<Rightarrow> u8 \<Rightarrow> nat option" where
  "key_of t c = List.find (\<lambda>i. t ! i = c) [0..<58]"

definition keystrokes :: "u8 \<Rightarrow> u8 list" where
  "keystrokes c =
     (case key_of sc_normal c of Some i \<Rightarrow> [of_nat i, of_nat i OR 0x80]
      | None \<Rightarrow>
          (case key_of sc_shifted c of Some i \<Rightarrow> [0x2A, of_nat i, of_nat i OR 0x80, 0xAA] | None \<Rightarrow> []))"

definition typable :: "u8 \<Rightarrow> bool" where "typable c \<longleftrightarrow> c \<noteq> 0 \<and> c \<in> set sc_normal \<union> set sc_shifted"

definition neutral :: "kbd \<Rightarrow> bool" where
  "neutral k \<longleftrightarrow> \<not> ctrl_dn k \<and> \<not> alt_dn k \<and> \<not> super_dn k \<and> \<not> caps_lock k \<and> \<not> ext_seq k"

text \<open>Which scancodes carry a character.\<close>

definition char_sc :: "u8 \<Rightarrow> bool" where
  "char_sc sc \<longleftrightarrow> \<not> bit sc 7 \<and> bit (sc OR 0x80) 7 \<and> fkey_code (sc AND 0x7F) = 0 \<and> fkey_code ((sc OR 0x80) AND 0x7F) = 0
     \<and> sc \<notin> {0x2A, 0x36, 0x1D, 0x38, 0x3A} \<and> (sc OR 0x80) \<notin> {0xAA, 0xB6, 0x9D, 0xB8, 0xBA, 0xE0}"

lemma length_tables [simp]: "length sc_normal = 58" "length sc_shifted = 58"
  by (simp_all add: sc_normal_def sc_shifted_def)

lemma char_scancodes: "list_all (\<lambda>i. char_sc (of_nat i) \<or> sc_normal ! i = 0 \<and> sc_shifted ! i = 0) [0..<58]"
  by (simp add: upt_conv_Cons char_sc_def fkey_code_def KB_KEY_F1_def sc_normal_def sc_shifted_def word_le_nat_alt)

lemma table_at_of_nat: "i < 58 \<Longrightarrow> length t = 58 \<Longrightarrow> table_at t (of_nat i) = t ! i"
  by (simp add: table_at_def unat_of_nat take_bit_nat_eq_self)

lemma char_scD:
  assumes "i < 58" and "sc_normal ! i \<noteq> 0 \<or> sc_shifted ! i \<noteq> 0"
  shows "char_sc (of_nat i)"
  using char_scancodes assms unfolding list_all_iff by (metis atLeastLessThan_iff le0 set_upt)

lemma kb_press:
  assumes "char_sc sc" and "neutral k" and "table_at (if shifted k then sc_shifted else sc_normal) sc = c" and "c \<noteq> 0"
  shows "kb_handler 1 sc k = ring_push c (k\<lparr>g_irq1_count := g_irq1_count k + 1\<rparr>)"
proof -
  have e0: "sc \<noteq> 0xE0" "sc \<noteq> 0xAA" "sc \<noteq> 0xB6" "sc \<noteq> 0x9D" "sc \<noteq> 0xB8" "sc \<noteq> 0xBA" using assms(1) by (auto simp: char_sc_def)
  show ?thesis using assms e0
    by (auto simp: kb_handler_def plain_key_def modifier_key_def fkey_def char_key_def apply_caps_def apply_ctrl_def neutral_def
        char_sc_def Let_def)
qed

lemma kb_release:
  assumes "char_sc sc" and "neutral k"
  shows "kb_handler 1 (sc OR 0x80) k = k\<lparr>g_irq1_count := g_irq1_count k + 1\<rparr>"
proof -
  have "sc OR 0x80 \<noteq> x" if "\<not> bit x 7" for x using assms(1) that by (auto simp: char_sc_def)
  from this[of "0x2A"] this[of "0x36"] this[of "0x1D"] this[of "0x38"] this[of "0x3A"]
  have "sc OR 0x80 \<notin> {0x2A, 0x36, 0x1D, 0x38, 0x3A}" by simp
  then show ?thesis using assms
    by (auto simp: kb_handler_def plain_key_def modifier_key_def fkey_def neutral_def char_sc_def Let_def)
qed

definition same_keys :: "kbd \<Rightarrow> kbd \<Rightarrow> bool" where
  "same_keys k k' \<longleftrightarrow> neutral k' = neutral k \<and> shifted k' = shifted k \<and> g_focused (krouter k') = g_focused (krouter k)"

text \<open>\<open>delivers c k k'\<close>: the focused task, and no other, receives \<open>c\<close>.\<close>

definition delivers :: "u8 \<Rightarrow> kbd \<Rightarrow> kbd \<Rightarrow> bool" where
  "delivers c k k' \<longleftrightarrow> same_keys k k' \<and> krouter k' = input_router_push c (krouter k)"

lemma push_focus [simp]: "g_focused (input_router_push c r) = g_focused r"
  by (simp add: input_router_push_def set_queue_def Let_def)

lemma ring_push_frame:
  "krouter (ring_push c k) = input_router_push c (krouter k)" "neutral (ring_push c k) = neutral k" "shifted (ring_push c k) = shifted k"
  by (simp_all add: ring_push_def neutral_def Let_def)

lemma kb_shift:
  "neutral k \<Longrightarrow> kb_handler 1 0x2A k = set_key KB_KEY_SHIFT True (k\<lparr>g_irq1_count := g_irq1_count k + 1, shifted := True\<rparr>)"
  "neutral k \<Longrightarrow> kb_handler 1 0xAA k = set_key KB_KEY_SHIFT False (k\<lparr>g_irq1_count := g_irq1_count k + 1, shifted := False\<rparr>)"
  by (auto simp: kb_handler_def plain_key_def modifier_key_def neutral_def Let_def)

lemma key_ofD: "key_of t c = Some i \<Longrightarrow> i < 58 \<and> t ! i = c" "key_of t c = None \<Longrightarrow> length t = 58 \<Longrightarrow> c \<notin> set t"
  by (auto simp: key_of_def find_Some_iff find_None_iff in_set_conv_nth)

lemma keystrokes_deliver:
  assumes "typable c" and "neutral k" and "\<not> shifted k"
  shows "delivers c k (fold (kb_handler 1) (keystrokes c) k)"
proof -
  let ?n = "\<lambda>k :: kbd. k\<lparr>g_irq1_count := g_irq1_count k + 1\<rparr>"
  show ?thesis
  proof (cases "key_of sc_normal c")
    case (Some i)
    then have i: "i < 58" "sc_normal ! i = c" using key_ofD(1) by blast+
    have sc: "char_sc (of_nat i)" using char_scD i assms(1) by (auto simp: typable_def)
    have "kb_handler 1 (of_nat i) k = ring_push c (?n k)"
      using kb_press[OF sc assms(2)] assms(1,3) i by (simp add: typable_def table_at_of_nat)
    moreover have "neutral (ring_push c (?n k))" using assms(2) by (simp add: ring_push_frame) (simp add: neutral_def)
    ultimately show ?thesis using Some kb_release[OF sc, of "ring_push c (?n k)"] assms
      by (simp add: keystrokes_def delivers_def same_keys_def ring_push_frame) (simp add: neutral_def ring_push_def Let_def)
  next
    case None
    then have "c \<in> set sc_shifted" using key_ofD(2)[OF None] assms(1) by (simp add: typable_def)
    then obtain i where i: "key_of sc_shifted c = Some i" "i < 58" "sc_shifted ! i = c"
      using key_ofD[of sc_shifted c] by (cases "key_of sc_shifted c") auto
    have sc: "char_sc (of_nat i)" using char_scD i assms(1) by (auto simp: typable_def)
    let ?k1 = "set_key KB_KEY_SHIFT True (k\<lparr>g_irq1_count := g_irq1_count k + 1, shifted := True\<rparr>)"
    have n1: "neutral ?k1" "shifted ?k1" "krouter ?k1 = krouter k" using assms(2) by (simp_all add: neutral_def set_key_def)
    have p: "kb_handler 1 (of_nat i) ?k1 = ring_push c (?n ?k1)"
      using kb_press[OF sc n1(1)] assms(1) i n1(2) by (simp add: typable_def table_at_of_nat)
    have n2: "neutral (ring_push c (?n ?k1))" using n1(1) by (simp add: ring_push_frame) (simp add: neutral_def)
    have n3: "neutral (?n (ring_push c (?n ?k1)))" using n2 by (simp add: neutral_def)
    have "neutral (fold (kb_handler 1) (keystrokes c) k)" "\<not> shifted (fold (kb_handler 1) (keystrokes c) k)"
      "krouter (fold (kb_handler 1) (keystrokes c) k) = input_router_push c (krouter k)"
      using None i(1) kb_shift(1)[OF assms(2)] p kb_release[OF sc n2] kb_shift(2)[OF n3] n3 n1(3)
      by (simp_all add: keystrokes_def set_key_def ring_push_frame neutral_def)
    then show ?thesis using assms by (simp add: delivers_def same_keys_def)
  qed
qed

lemma push_slot_chars:
  assumes "slot_ok (g_focused r) r"
  shows "slot_ok (g_focused r) (input_router_push c r)"
    and "slot_chars (g_focused r) (input_router_push c r)
      = (if length (slot_chars (g_focused r) r) < 63 then slot_chars (g_focused r) r @ [c] else slot_chars (g_focused r) r)"
    and "j \<noteq> g_focused r \<Longrightarrow> valid_slot j \<Longrightarrow> slot_chars j (input_router_push c r) = slot_chars j r"
proof -
  have eq: "input_router_push c r = input_router_push_to (g_focused r) c r"
    by (simp add: input_router_push_def input_router_push_to_def Let_def)
  show "slot_ok (g_focused r) (input_router_push c r)"
    "slot_chars (g_focused r) (input_router_push c r)
      = (if length (slot_chars (g_focused r) r) < 63 then slot_chars (g_focused r) r @ [c] else slot_chars (g_focused r) r)"
    unfolding eq using push_to_spec[OF assms] by auto
  show "j \<noteq> g_focused r \<Longrightarrow> valid_slot j \<Longrightarrow> slot_chars j (input_router_push c r) = slot_chars j r"
    using assms by (auto simp: input_router_push_def slot_chars_def slot_ok_def Let_def)
qed

text \<open>
  C35. Typed text arrives: when no modifier is held, the bytes that a keyboard sends for a text of
  characters of the two scancode tables, each key pressed and released, shift held where the table
  needs it, append exactly that text to the queue of the focused task (up to its capacity of 63)
  and to no other queue, and leave the modifier state as it was.
\<close>

theorem typed_text_arrives:
  assumes "neutral k" and "\<not> shifted k" and "slot_ok (g_focused (krouter k)) (krouter k)"
    and "\<forall>c \<in> set ws. typable c" and "length (slot_chars (g_focused (krouter k)) (krouter k)) + length ws \<le> 63"
  defines "k' \<equiv> fold (kb_handler 1) (concat (map keystrokes ws)) k"
  shows "neutral k' \<and> \<not> shifted k' \<and> g_focused (krouter k') = g_focused (krouter k)
    \<and> slot_chars (g_focused (krouter k)) (krouter k') = slot_chars (g_focused (krouter k)) (krouter k) @ ws
    \<and> (\<forall>j. valid_slot j \<and> j \<noteq> g_focused (krouter k) \<longrightarrow> slot_chars j (krouter k') = slot_chars j (krouter k))"
  using assms(1-5) unfolding k'_def
proof (induction ws arbitrary: k)
  case (Cons c cs)
  let ?f = "g_focused (krouter k)"
  let ?k = "fold (kb_handler 1) (keystrokes c) k"
  have d: "delivers c k ?k" using keystrokes_deliver[of c k] Cons.prems by simp
  then have r: "krouter ?k = input_router_push c (krouter k)" "neutral ?k" "\<not> shifted ?k" "g_focused (krouter ?k) = ?f"
    using Cons.prems by (auto simp: delivers_def same_keys_def)
  have l: "slot_chars ?f (krouter ?k) = slot_chars ?f (krouter k) @ [c]" "slot_ok ?f (krouter ?k)"
    using push_slot_chars(1,2)[OF Cons.prems(3), of c] Cons.prems(5) r(1) by simp_all
  have "\<forall>c \<in> set cs. typable c" "length (slot_chars (g_focused (krouter ?k)) (krouter ?k)) + length cs \<le> 63"
    using Cons.prems(4,5) l(1) r(4) by simp_all
  from Cons.IH[OF r(2,3) _ this] l(2) r(4)
  show ?case using l(1) r(1,4) push_slot_chars(3)[OF Cons.prems(3)] by simp
qed simp

definition key_demo :: kbd where
  "key_demo = \<lparr>kring = (\<lambda>_. 0), r_head = 0, r_tail = 0, shifted = False, ctrl_dn = False, alt_dn = False, super_dn = False,
     caps_lock = False, ext_seq = False, key_state = (\<lambda>_. 0), g_irq1_count = 0, ext_seq_irq_stamp = 0,
     krouter = \<lparr>g_queues = (\<lambda>_. \<lparr>qbuf = (\<lambda>_. 0), qhead = 0, qtail = 0\<rparr>), g_focused = 0, g_desktop_task = 0\<rparr>\<rparr>"

theorem typed_text_arrives_witness:
  "slot_chars 0 (krouter (fold (kb_handler 1) (concat (map keystrokes [72, 105])) key_demo)) = [72, 105]"
proof -
  have "slot_ok 0 (krouter key_demo)" "slot_chars 0 (krouter key_demo) = []"
    by (simp_all add: key_demo_def slot_ok_def slot_chars_def queue_at_def valid_slot_def TASK_MAX_def ir_inv_def ir_contents_def
        ir_count_def IR_QUEUE_SIZE_def)
  moreover have "\<forall>c \<in> set [72, 105]. typable c" by (simp add: typable_def sc_normal_def sc_shifted_def)
  ultimately show ?thesis using typed_text_arrives[of key_demo "[72, 105]"] by (simp add: key_demo_def neutral_def)
qed

end
