(* ===== verification/Firewall.thy ===== *)
theory Firewall
  imports Ramfs Klibc
begin

text \<open>
  The packet filter, \<^verbatim>\<open>kernel/security/draco-shield/firewall.c\<close>: the rule table, evaluation of a
  packet, and the dump of the table to a file of the RAM file system and back. The table is stored
  as the bytes of its structures, 124 each. Output to the screen and the log is left out.
\<close>

section \<open>Rules and evaluation\<close>

definition SHIELD_MAX_RULES :: nat where "SHIELD_MAX_RULES = 64"
definition SHIELD_IFACE_LEN :: nat where "SHIELD_IFACE_LEN = 16"
definition SHIELD_COMMENT_LEN :: nat where "SHIELD_COMMENT_LEN = 64"

definition RULE_ALLOW :: u32 where "RULE_ALLOW = 0"
definition RULE_DENY :: u32 where "RULE_DENY = 1"
definition PROTO_ANY :: u32 where "PROTO_ANY = 0"

record shield_rule =
  active :: u32
  priority :: u32
  action :: u32
  proto :: u32
  src_ip :: u32
  src_mask :: u32
  dst_ip :: u32
  dst_mask :: u32
  dst_port :: u16
  src_port :: u16
  iface :: "u8 list"
  direction :: u32
  stateful :: u32
  comment :: "u8 list"

record shield =
  rules :: "shield_rule list"
  rule_count :: nat

record packet =
  p_src_ip :: u32
  p_dst_ip :: u32
  p_src_port :: u16
  p_dst_port :: u16
  p_proto :: u32
  p_direction :: u32

definition zero_rule :: shield_rule where
  "zero_rule = \<lparr>active = 0, priority = 0, action = 0, proto = 0, src_ip = 0, src_mask = 0, dst_ip = 0, dst_mask = 0,
     dst_port = 0, src_port = 0, iface = replicate SHIELD_IFACE_LEN 0, direction = 0, stateful = 0,
     comment = replicate SHIELD_COMMENT_LEN 0\<rparr>"

definition ip_match :: "u32 \<Rightarrow> u32 \<Rightarrow> u32 \<Rightarrow> bool" where
  "ip_match pkt_ip rule_ip msk \<longleftrightarrow> (if rule_ip = 0 then True else pkt_ip AND msk = rule_ip AND msk)"

definition shield_add_rule :: "shield_rule \<Rightarrow> shield \<Rightarrow> int \<times> shield" where
  "shield_add_rule r sh =
     (if SHIELD_MAX_RULES \<le> rule_count sh then (- 1, sh)
      else (int (rule_count sh), sh\<lparr>rules := (rules sh)[rule_count sh := r\<lparr>active := 1\<rparr>], rule_count := rule_count sh + 1\<rparr>))"

definition shield_remove_rule :: "int \<Rightarrow> shield \<Rightarrow> int \<times> shield" where
  "shield_remove_rule idx sh =
     (if idx < 0 \<or> int (rule_count sh) \<le> idx then (- 1, sh)
      else (0, sh\<lparr>rules := (rules sh)[nat idx := (rules sh ! nat idx)\<lparr>active := 0\<rparr>]\<rparr>))"

text \<open>A comment of fewer than 64 characters in its field.\<close>

definition comment_field :: "string \<Rightarrow> u8 list" where
  "comment_field s = take SHIELD_COMMENT_LEN (map of_char s @ replicate SHIELD_COMMENT_LEN 0)"

definition add_default_rules :: "shield \<Rightarrow> shield" where
  "add_default_rules sh =
     (let sh1 = snd (shield_add_rule (zero_rule\<lparr>active := 1, action := RULE_ALLOW, src_ip := 0x7f000001, src_mask := 0xff000000,
                comment := comment_field ''allow loopback''\<rparr>) sh);
          sh2 = snd (shield_add_rule (zero_rule\<lparr>active := 1, priority := 10, action := RULE_ALLOW, stateful := 1,
                comment := comment_field ''allow established''\<rparr>) sh1)
      in snd (shield_add_rule (zero_rule\<lparr>active := 1, priority := 9999, action := RULE_DENY, direction := 0,
                comment := comment_field ''deny all incoming (default)''\<rparr>) sh2))"

definition shield_init :: "shield \<Rightarrow> shield" where
  "shield_init sh = add_default_rules \<lparr>rules = replicate SHIELD_MAX_RULES zero_rule, rule_count = 0\<rparr>"

definition rule_matches :: "packet \<Rightarrow> shield_rule \<Rightarrow> bool" where
  "rule_matches p r \<longleftrightarrow> active r \<noteq> 0 \<and> \<not> (direction r \<noteq> 2 \<and> direction r \<noteq> p_direction p)
     \<and> \<not> (proto r \<noteq> PROTO_ANY \<and> proto r \<noteq> p_proto p)
     \<and> ip_match (p_src_ip p) (src_ip r) (src_mask r) \<and> ip_match (p_dst_ip p) (dst_ip r) (dst_mask r)
     \<and> \<not> (dst_port r \<noteq> 0 \<and> dst_port r \<noteq> p_dst_port p) \<and> \<not> (src_port r \<noteq> 0 \<and> src_port r \<noteq> p_src_port p)"

definition eval_step :: "packet \<Rightarrow> shield_rule \<Rightarrow> int \<times> u32 \<Rightarrow> int \<times> u32" where
  "eval_step p r best = (if rule_matches p r \<and> sint (priority r) < fst best then (sint (priority r), action r) else best)"

definition shield_eval :: "packet \<Rightarrow> shield \<Rightarrow> int" where
  "shield_eval p sh =
     (let best = fold (eval_step p) (take (rule_count sh) (rules sh)) (0x7fffffff, RULE_ALLOW)
      in if snd best = RULE_ALLOW then 1 else 0)"

section \<open>Persistence\<close>

definition RULE_SIZE :: nat where "RULE_SIZE = 124"

definition rule_bytes :: "shield_rule \<Rightarrow> u8 list" where
  "rule_bytes r =
     le_bytes 4 (active r) @ le_bytes 4 (priority r) @ le_bytes 4 (action r) @ le_bytes 4 (proto r)
     @ le_bytes 4 (src_ip r) @ le_bytes 4 (src_mask r) @ le_bytes 4 (dst_ip r) @ le_bytes 4 (dst_mask r)
     @ le_bytes 2 (dst_port r) @ le_bytes 2 (src_port r) @ iface r @ le_bytes 4 (direction r) @ le_bytes 4 (stateful r) @ comment r"

definition bytes_rule :: "u8 list \<Rightarrow> shield_rule" where
  "bytes_rule b =
     (let f = (\<lambda>k n. take n (drop k b))
      in \<lparr>active = le_word (f 0 4), priority = le_word (f 4 4), action = le_word (f 8 4), proto = le_word (f 12 4),
          src_ip = le_word (f 16 4), src_mask = le_word (f 20 4), dst_ip = le_word (f 24 4), dst_mask = le_word (f 28 4),
          dst_port = le_word (f 32 2), src_port = le_word (f 34 2), iface = f 36 16, direction = le_word (f 52 4),
          stateful = le_word (f 56 4), comment = f 60 64\<rparr>)"

definition table_bytes :: "shield_rule list \<Rightarrow> u8 list" where "table_bytes rs = concat (map rule_bytes rs)"

definition bytes_table :: "u8 list \<Rightarrow> shield_rule list" where
  "bytes_table b = map (\<lambda>i. bytes_rule (take RULE_SIZE (drop (i * RULE_SIZE) b))) [0..<SHIELD_MAX_RULES]"

definition SHIELD_RULES_FILE :: string where "SHIELD_RULES_FILE = ''shield.rules''"

definition shield_hdr :: "shield \<Rightarrow> u8 list" where
  "shield_hdr sh = [of_nat (rule_count sh mod 256), of_nat (rule_count sh div 256 mod 256), 0, 0]"

text \<open>\<open>mounted\<close>: whether \<^verbatim>\<open>ramfs_root\<close> is set. The result codes of the writes are ignored.\<close>

definition shield_save :: "bool \<Rightarrow> shield \<Rightarrow> vol \<Rightarrow> vol option" where
  "shield_save mounted sh st =
     (if \<not> mounted then Some st
      else let st1 = snd (ramfs_create SHIELD_RULES_FILE st)
           in case vfs_finddir ramfs_ops (Some RRoot) SHIELD_RULES_FILE st1 of None \<Rightarrow> Some st1
              | Some n \<Rightarrow>
                  (case vfs_write ramfs_ops (Some n) 0 (shield_hdr sh) st1 of None \<Rightarrow> None
                   | Some (_, st2) \<Rightarrow>
                       map_option snd (vfs_write ramfs_ops (Some n) 4
                         (take (rule_count sh * RULE_SIZE) (table_bytes (rules sh))) st2)))"

definition shield_load :: "bool \<Rightarrow> shield \<Rightarrow> vol \<Rightarrow> shield" where
  "shield_load mounted sh st =
     (if \<not> mounted then sh
      else case vfs_finddir ramfs_ops (Some RRoot) SHIELD_RULES_FILE st of None \<Rightarrow> sh
        | Some n \<Rightarrow>
            let (r, hdr) = vfs_read ramfs_ops (Some n) 0 4 st
            in if r < 4 then sh
               else let saved = unat (hdr ! 0) + 256 * unat (hdr ! 1)
                    in if SHIELD_MAX_RULES < saved then sh
                       else let (got, data) = vfs_read ramfs_ops (Some n) 4 (of_nat (saved * RULE_SIZE)) st;
                                sh1 = sh\<lparr>rules := bytes_table (data @ drop (length data) (table_bytes (rules sh)))\<rparr>
                            in if 0 < got then sh1\<lparr>rule_count := saved\<rparr> else sh1)"

section \<open>The shell command\<close>

text \<open>
  \<^verbatim>\<open>draco-shieldctl.c\<close>. Arguments are the bytes of a C string before its terminator.
  \<open>cstr\<close> is a memory that holds such a string at address 0.
\<close>

definition cstr :: "u8 list \<Rightarrow> mem" where "cstr a = (\<lambda>i. if i < length a then a ! i else 0)"

definition bytes_of :: "string \<Rightarrow> u8 list" where "bytes_of = map of_char"

fun ip_number :: "u8 list \<Rightarrow> u32 \<Rightarrow> u32 \<times> u8 list" where
  "ip_number [] v = (v, [])"
| "ip_number (c # s) v = (if is_digit c then ip_number s (v * 10 + (ucast c - 48)) else (v, c # s))"

text \<open>The four values, in the order they are read; the loop stops at the end of the text or after four.\<close>

fun ip_fields :: "nat \<Rightarrow> u8 list \<Rightarrow> u32 list" where
  "ip_fields 0 s = []"
| "ip_fields (Suc n) s =
     (if s = [] then []
      else let (v, s1) = ip_number s 0
           in v # ip_fields n (case s1 of c # s2 \<Rightarrow> if c = 46 then s2 else s1 | [] \<Rightarrow> []))"

definition parse_ip :: "u8 list \<Rightarrow> u32" where
  "parse_ip s = (let f = ip_fields 4 s @ [0, 0, 0, 0]
                 in push_bit 24 (f ! 0) OR push_bit 16 (f ! 1) OR push_bit 8 (f ! 2) OR f ! 3)"

text \<open>\<^verbatim>\<open>snprintf\<close> into a comment that was cleared before: at most 63 characters.\<close>

definition comment_text :: "u8 list \<Rightarrow> u8 list" where
  "comment_text t = take SHIELD_COMMENT_LEN (take (SHIELD_COMMENT_LEN - 1) t @ replicate SHIELD_COMMENT_LEN 0)"

definition ip_rule :: "u8 list \<Rightarrow> u8 list \<Rightarrow> shield_rule" where
  "ip_rule cmd arg = zero_rule\<lparr>active := 1, priority := 100, action := (if cmd = bytes_of ''allow'' then RULE_ALLOW else RULE_DENY),
     src_ip := parse_ip arg, src_mask := 0xffffffff, direction := 2,
     comment := comment_text (bytes_of ''manual '' @ cmd @ bytes_of '' '' @ arg)\<rparr>"

definition port_rule :: "u8 list \<Rightarrow> u8 list \<Rightarrow> u32 \<Rightarrow> shield_rule" where
  "port_rule cmd arg port = zero_rule\<lparr>active := 1, priority := 50, action := (if hd cmd = 97 then RULE_ALLOW else RULE_DENY),
     proto := 6, dst_port := ucast port, direction := 0, comment := comment_text (cmd @ bytes_of '' port '' @ arg)\<rparr>"

text \<open>\<open>args\<close> is \<^verbatim>\<open>argv\<close>; what the command prints is left out.\<close>

definition shieldctl_run :: "u8 list list \<Rightarrow> shield \<Rightarrow> shield option" where
  "shieldctl_run args sh =
     (if length args < 2 then Some sh
      else let cmd = args ! 1
           in if cmd = bytes_of ''list'' then Some sh
              else if cmd = bytes_of ''reset'' then Some (shield_init sh)
              else if (cmd = bytes_of ''allow'' \<or> cmd = bytes_of ''deny'') \<and> 3 \<le> length args
              then Some (snd (shield_add_rule (ip_rule cmd (args ! 2)) sh))
              else if (cmd = bytes_of ''allow-port'' \<or> cmd = bytes_of ''deny-port'') \<and> 3 \<le> length args
              then (case atoi (cstr (args ! 2)) 0 of None \<Rightarrow> None
                    | Some port \<Rightarrow> Some (snd (shield_add_rule (port_rule cmd (args ! 2) port) sh)))
              else Some sh)"

section \<open>The verdict\<close>

definition shield_wf :: "shield \<Rightarrow> bool" where
  "shield_wf sh \<longleftrightarrow> length (rules sh) = SHIELD_MAX_RULES \<and> rule_count sh \<le> SHIELD_MAX_RULES"

lemma shield_wf_ops:
  "shield_wf (shield_init sh)"
  "shield_wf sh \<Longrightarrow> shield_wf (snd (shield_add_rule r sh))"
  "shield_wf sh \<Longrightarrow> shield_wf (snd (shield_remove_rule i sh))"
  "shield_wf sh \<Longrightarrow> shield_wf (shield_load m sh st)"
  by (auto simp: shield_wf_def shield_init_def add_default_rules_def shield_add_rule_def shield_remove_rule_def shield_load_def
      bytes_table_def SHIELD_MAX_RULES_def Let_def split: prod.splits option.splits)

lemma skip_spaces_cstr: "k \<le> length a \<Longrightarrow> \<exists>j\<ge>k. skip_spaces (cstr a) k = Some j"
proof (induction "length a - k" arbitrary: k)
  case 0
  then show ?case by (subst skip_spaces.simps) (simp add: cstr_def)
next
  case (Suc n)
  then have "\<exists>j\<ge>Suc k. skip_spaces (cstr a) (Suc k) = Some j" by (intro Suc.hyps(1)) linarith+
  then show ?case by (subst skip_spaces.simps) (auto intro: Suc_leD)
qed

lemma atoi_loop_cstr: "\<exists>r. atoi_loop (cstr a) k v = Some r"
proof (induction "length a - k" arbitrary: k v)
  case 0
  then show ?case by (subst atoi_loop.simps) (simp add: cstr_def is_digit_def)
next
  case (Suc n)
  then have "\<exists>r. atoi_loop (cstr a) (Suc k) w = Some r" for w by (intro Suc.hyps(1)) linarith
  then show ?case by (subst atoi_loop.simps) simp
qed

lemma atoi_cstr: "\<exists>v. atoi (cstr a) 0 = Some v"
proof -
  obtain s1 where s1: "skip_spaces (cstr a) 0 = Some s1" using skip_spaces_cstr[of 0 a] by auto
  obtain r1 r2 where "atoi_loop (cstr a) (s1 + 1) 0 = Some r1" "atoi_loop (cstr a) s1 0 = Some r2"
    using atoi_loop_cstr by blast
  then show ?thesis using s1 by (simp add: atoi_def)
qed

text \<open>Every command returns, and leaves a well-formed table.\<close>

lemma shieldctl_run_wf: "shield_wf sh \<Longrightarrow> \<exists>sh'. shieldctl_run args sh = Some sh' \<and> shield_wf sh'"
proof -
  assume wf: "shield_wf sh"
  obtain v where "atoi (cstr (args ! 2)) 0 = Some v" using atoi_cstr by blast
  then show ?thesis using wf shield_wf_ops by (auto simp: shieldctl_run_def Let_def)
qed

text \<open>The rules that apply to a packet: matching, and with a priority that the scan can beat.\<close>

definition applies :: "packet \<Rightarrow> shield_rule list \<Rightarrow> nat set" where
  "applies p rs = {i. i < length rs \<and> rule_matches p (rs ! i) \<and> sint (priority (rs ! i)) < 0x7fffffff}"

definition table :: "shield \<Rightarrow> shield_rule list" where
  "table sh = take (rule_count sh) (rules sh)"

definition decides :: "packet \<Rightarrow> shield_rule list \<Rightarrow> nat \<Rightarrow> bool" where
  "decides p rs i \<longleftrightarrow> i \<in> applies p rs \<and> (\<forall>j \<in> applies p rs. sint (priority (rs ! i)) \<le> sint (priority (rs ! j)))
     \<and> (\<forall>j \<in> applies p rs. j < i \<longrightarrow> sint (priority (rs ! i)) < sint (priority (rs ! j)))"

lemma eval_step_pair [simp]:
  "eval_step p r (b, a) = (if rule_matches p r \<and> sint (priority r) < b then (sint (priority r), action r) else (b, a))"
  by (simp add: eval_step_def)

lemma eval_fold:
  "(applies p rs = {} \<and> fold (eval_step p) rs (0x7fffffff, RULE_ALLOW) = (0x7fffffff, RULE_ALLOW))
   \<or> (\<exists>i. decides p rs i \<and> fold (eval_step p) rs (0x7fffffff, RULE_ALLOW) = (sint (priority (rs ! i)), action (rs ! i)))"
proof (induction rs rule: rev_induct)
  case (snoc r rs)
  have sub: "applies p (rs @ [r]) = applies p rs \<union> (if rule_matches p r \<and> sint (priority r) < 0x7fffffff then {length rs} else {})"
    by (auto simp: applies_def nth_append less_Suc_eq)
  have lt: "i < length rs" if "i \<in> applies p rs" for i using that by (simp add: applies_def)
  from snoc show ?case
  proof (elim disjE exE conjE)
    fix i
    assume i: "decides p rs i" and f: "fold (eval_step p) rs (0x7fffffff, RULE_ALLOW) = (sint (priority (rs ! i)), action (rs ! i))"
    have il: "i < length rs" "sint (priority (rs ! i)) < 0x7fffffff" using i by (auto simp: decides_def applies_def)
    show ?thesis
    proof (cases "rule_matches p r \<and> sint (priority r) < sint (priority (rs ! i))")
      case True
      then have "decides p (rs @ [r]) (length rs)" using i il lt sub by (force simp: decides_def nth_append)
      then show ?thesis using True f by (auto intro!: disjI2 exI[of _ "length rs"])
    next
      case False
      then have "decides p (rs @ [r]) i" using i il lt sub il(1)[THEN less_imp_le, THEN leD] by (auto simp: decides_def nth_append)
      then show ?thesis using False f il by (auto simp: nth_append intro!: disjI2 exI[of _ i])
    qed
  next
    assume e: "applies p rs = {}" and f: "fold (eval_step p) rs (0x7fffffff, RULE_ALLOW) = (0x7fffffff, RULE_ALLOW)"
    show ?thesis
    proof (cases "rule_matches p r \<and> sint (priority r) < 0x7fffffff")
      case True
      then have "decides p (rs @ [r]) (length rs)" using e sub by (auto simp: decides_def)
      then show ?thesis using True f by (auto intro!: disjI2 exI[of _ "length rs"])
    qed (use e f sub in auto)
  qed
qed (simp add: applies_def)

lemma decides_unique: "decides p rs i \<Longrightarrow> decides p rs j \<Longrightarrow> i = j"
  unfolding decides_def by (metis linorder_neqE_nat not_less)

lemma decides_in_table: "decides p rs i \<Longrightarrow> i < length rs"
  by (simp add: decides_def applies_def)

text \<open>After initialisation the rule for established connections accepts every packet before the default deny.\<close>

lemma shield_init_rules:
  "take (rule_count (shield_init sh)) (rules (shield_init sh)) =
     [zero_rule\<lparr>active := 1, src_ip := 0x7f000001, src_mask := 0xff000000, comment := comment_field ''allow loopback''\<rparr>,
      zero_rule\<lparr>active := 1, priority := 10, stateful := 1, comment := comment_field ''allow established''\<rparr>,
      zero_rule\<lparr>active := 1, priority := 9999, action := RULE_DENY, comment := comment_field ''deny all incoming (default)''\<rparr>]"
  by (simp add: shield_init_def add_default_rules_def shield_add_rule_def SHIELD_MAX_RULES_def zero_rule_def RULE_ALLOW_def
      numeral_eq_Suc Let_def)

lemma shield_init_allows_all: "shield_eval p (shield_init sh) = 1"
  by (simp add: shield_eval_def shield_init_rules eval_step_def rule_matches_def zero_rule_def ip_match_def RULE_ALLOW_def PROTO_ANY_def RULE_DENY_def
      split: if_splits)

text \<open>
  C36. The verdict on a packet is the action of one rule of the table: the matching active rule with
  the smallest priority value and, among equals, the smallest index. A rule can win only with a
  priority below 0x7fffffff. When no rule applies the packet is allowed.
\<close>

theorem shield_eval_spec:
  assumes "shield_wf sh"
  shows "(applies p (table sh) = {} \<and> shield_eval p sh = 1)
    \<or> (\<exists>!i. decides p (table sh) i) \<and> (\<forall>i. decides p (table sh) i \<longrightarrow> i < rule_count sh
         \<and> shield_eval p sh = (if action (rules sh ! i) = RULE_ALLOW then 1 else 0))"
proof -
  have len: "length (table sh) = rule_count sh" using assms by (simp add: shield_wf_def table_def)
  show ?thesis using eval_fold[of p "table sh"]
  proof (elim disjE exE conjE)
    fix i
    assume i: "decides p (table sh) i"
      and f: "fold (eval_step p) (table sh) (0x7fffffff, RULE_ALLOW) = (sint (priority (table sh ! i)), action (table sh ! i))"
    have "i < rule_count sh" using decides_in_table[OF i] len by simp
    moreover from this have "shield_eval p sh = (if action (rules sh ! i) = RULE_ALLOW then 1 else 0)"
      using f by (simp add: shield_eval_def table_def)
    ultimately show ?thesis using i decides_unique by blast
  qed (simp add: shield_eval_def table_def)
qed

text \<open>A table with the default rules and a rule against incoming connections to port 22, which comes first.\<close>

definition ssh_block :: shield where
  "ssh_block = snd (shield_add_rule (zero_rule\<lparr>priority := 5, action := RULE_DENY, proto := 6, dst_port := 22\<rparr>)
                 (shield_init \<lparr>rules = [], rule_count = 0\<rparr>))"

definition ssh_packet :: packet where
  "ssh_packet = \<lparr>p_src_ip = 0x0a000002, p_dst_ip = 0x0a000001, p_src_port = 4000, p_dst_port = 22, p_proto = 6, p_direction = 0\<rparr>"

lemma ssh_block_wf: "shield_wf ssh_block"
  by (simp add: ssh_block_def shield_wf_ops(1,2))

lemma ssh_block_denies: "shield_eval ssh_packet ssh_block = 0"
  by code_simp

theorem shield_eval_spec_witness:
  "shield_wf ssh_block \<and> shield_eval ssh_packet ssh_block = 0 \<and> (\<exists>!i. decides ssh_packet (table ssh_block) i)"
  using shield_eval_spec[OF ssh_block_wf, of ssh_packet] ssh_block_wf ssh_block_denies by auto

end
