(* ===== verification/Security.thy ===== *)
theory Security
  imports Pmm
begin

text \<open>
  Accounts, screen lock and licence: \<^verbatim>\<open>kernel/security/dracoauth.c\<close>, \<^verbatim>\<open>dracolock.c\<close> and
  \<^verbatim>\<open>dracolicence.c\<close>. C strings are the bytes before the terminator. The identification of the
  processor is an argument, since the code reads it with an instruction; the number of free pages
  comes from the page allocator, and the clock is an argument. Log output and
  \<^verbatim>\<open>dracoauth_list_users\<close>, which only prints, are left out.
\<close>

section \<open>Accounts\<close>

type_synonym cstring = "u8 list"

definition AUTH_MAX_USERS :: nat where "AUTH_MAX_USERS = 8"
definition AUTH_NAME_MAX :: nat where "AUTH_NAME_MAX = 32"
definition AUTH_PASS_MAX :: nat where "AUTH_PASS_MAX = 64"
definition ROLE_GUEST :: u8 where "ROLE_GUEST = 0"
definition ROLE_ADMIN :: u8 where "ROLE_ADMIN = 2"
definition PERM_WRITE :: u8 where "PERM_WRITE = 2"
definition PERM_ADMIN_ONLY :: u8 where "PERM_ADMIN_ONLY = 8"

record draco_user =
  uname :: cstring
  pass_hash :: cstring
  role :: u8
  active :: bool
  uid :: u32

record auth =
  users :: "draco_user list"
  nusers :: nat
  logged_in :: bool
  session_user :: "nat option"

definition fnv1a_32 :: "cstring \<Rightarrow> u32" where
  "fnv1a_32 d = fold (\<lambda>c h. (h XOR ucast c) * 0x01000193) d 0x811c9dc5"

definition bytes :: "string \<Rightarrow> cstring" where "bytes = map of_char"

text \<open>The hexadecimal digits are stored from the last to the first.\<close>

fun hex_digits :: "cstring \<Rightarrow> nat \<Rightarrow> u32 \<Rightarrow> cstring" where
  "hex_digits hex 0 h = []"
| "hex_digits hex (Suc n) h = hex_digits hex n (drop_bit 4 h) @ [hex ! unat (h AND 0xF)]"

definition make_hash :: "cstring \<Rightarrow> cstring" where
  "make_hash password =
     (let salted = take (AUTH_PASS_MAX - 1) password @ bytes ''dracolax_salt''
      in hex_digits (bytes ''0123456789abcdef'') 8 (fnv1a_32 salted))"

definition zero_user :: draco_user where
  "zero_user = \<lparr>uname = [], pass_hash = [], role = 0, active = False, uid = 0\<rparr>"

definition dracoauth_add_user :: "cstring option \<Rightarrow> cstring \<Rightarrow> u8 \<Rightarrow> auth \<Rightarrow> int \<times> auth" where
  "dracoauth_add_user name password rl a =
     (if AUTH_MAX_USERS \<le> nusers a then (- 1, a)
      else case name of None \<Rightarrow> (- 1, a)
      | Some n \<Rightarrow>
          if length n = 0 then (- 1, a)
          else if list_ex (\<lambda>u. uname u = n) (take (nusers a) (users a)) then (- 1, a)
          else (0, a\<lparr>users := (users a)[nusers a :=
                       \<lparr>uname = take (AUTH_NAME_MAX - 1) n, pass_hash = make_hash password, role = rl, active = True,
                        uid = of_nat (1000 + nusers a)\<rparr>],
                     nusers := nusers a + 1\<rparr>))"

definition dracoauth_init :: "auth \<Rightarrow> auth" where
  "dracoauth_init a =
     (let a0 = a\<lparr>users := replicate AUTH_MAX_USERS zero_user, nusers := 0\<rparr>;
          a1 = snd (dracoauth_add_user (Some (bytes ''root'')) [] ROLE_ADMIN a0)
      in snd (dracoauth_add_user (Some (bytes ''guest'')) [] ROLE_GUEST a1))"

definition credentials_ok :: "cstring \<Rightarrow> cstring \<Rightarrow> draco_user \<Rightarrow> bool" where
  "credentials_ok name hash u \<longleftrightarrow> active u \<and> uname u = name \<and> pass_hash u = hash"

definition dracoauth_login :: "cstring \<Rightarrow> cstring \<Rightarrow> auth \<Rightarrow> int \<times> auth" where
  "dracoauth_login name password a =
     (let hash = make_hash password
      in case List.find (\<lambda>i. credentials_ok name hash (users a ! i)) [0..<nusers a] of
           None \<Rightarrow> (- 1, a)
         | Some i \<Rightarrow> (0, a\<lparr>logged_in := True, session_user := Some i\<rparr>))"

definition dracoauth_logout :: "auth \<Rightarrow> auth" where
  "dracoauth_logout a = a\<lparr>logged_in := False, session_user := None\<rparr>"

definition session :: "auth \<Rightarrow> nat option" where
  "session a = (if logged_in a then session_user a else None)"

definition dracoauth_has_role :: "u8 \<Rightarrow> auth \<Rightarrow> bool" where
  "dracoauth_has_role required a = (case session a of None \<Rightarrow> False | Some i \<Rightarrow> required \<le> role (users a ! i))"

text \<open>The code reads the role without a check for a missing user: \<^const>\<open>None\<close> is a null pointer.\<close>

definition dracoauth_check_perm :: "u8 \<Rightarrow> auth \<Rightarrow> bool option" where
  "dracoauth_check_perm perm a =
     (if \<not> logged_in a then Some False
      else case session_user a of None \<Rightarrow> None
      | Some i \<Rightarrow>
          if role (users a ! i) = ROLE_ADMIN then Some True
          else if perm AND PERM_ADMIN_ONLY \<noteq> 0 then Some False
          else if role (users a ! i) = ROLE_GUEST \<and> perm AND PERM_WRITE \<noteq> 0 then Some False
          else Some True)"

definition dracoauth_whoami :: "auth \<Rightarrow> cstring" where
  "dracoauth_whoami a = (case session a of None \<Rightarrow> bytes ''guest'' | Some i \<Rightarrow> uname (users a ! i))"

definition dracoauth_change_password :: "cstring \<Rightarrow> cstring \<Rightarrow> auth \<Rightarrow> int \<times> auth" where
  "dracoauth_change_password old_pass new_pass a =
     (case session a of None \<Rightarrow> (- 1, a)
      | Some i \<Rightarrow>
          if pass_hash (users a ! i) \<noteq> make_hash old_pass then (- 1, a)
          else (0, a\<lparr>users := (users a)[i := (users a ! i)\<lparr>pass_hash := make_hash new_pass\<rparr>]\<rparr>))"

section \<open>Licence\<close>

record cpuid =
  eax :: u32
  ebx :: u32
  ecx :: u32
  edx :: u32

record licence =
  device_id :: cstring
  licence_id :: cstring
  valid :: bool
  generation :: u32

definition hw_fingerprint :: "cpuid \<Rightarrow> pmm \<Rightarrow> u32" where
  "hw_fingerprint c p =
     (let fp = eax c XOR edx c XOR push_bit 4 (ebx c) XOR drop_bit 2 (ecx c)
      in fp XOR (pmm_free_pages p * 0x9E3779B9))"

definition u32_to_hex4 :: "u32 \<Rightarrow> cstring" where
  "u32_to_hex4 v =
     (let h = bytes ''0123456789ABCDEF''
      in [h ! unat (drop_bit 12 v AND 0xF), h ! unat (drop_bit 8 v AND 0xF), h ! unat (drop_bit 4 v AND 0xF), h ! unat (v AND 0xF)])"

definition dracolicence_gen_device_id :: "cpuid \<Rightarrow> pmm \<Rightarrow> cstring" where
  "dracolicence_gen_device_id c p =
     (let fp = hw_fingerprint c p;
          fp2 = fp XOR 0xDEADBEEF;
          fp3 = fp * 0x6C62272E;
          fp4 = fp2 XOR drop_bit 5 fp3
      in bytes ''DX-'' @ u32_to_hex4 fp @ bytes ''-'' @ u32_to_hex4 fp2 @ bytes ''-'' @ u32_to_hex4 fp3 @ bytes ''-'' @ u32_to_hex4 fp4)"

definition dracolicence_activate :: "cpuid \<Rightarrow> pmm \<Rightarrow> licence" where
  "dracolicence_activate c p =
     (let dev = dracolicence_gen_device_id c p;
          seed = fold (\<lambda>b s. s * 31 + ucast b) dev (0 :: u32);
          a = seed XOR 0xC0FFEEBA;
          b = seed * 0x1234567;
          c' = a XOR drop_bit 4 b;
          d = b XOR push_bit 3 a
      in \<lparr>device_id = dev,
          licence_id = bytes ''DXOS-'' @ u32_to_hex4 a @ bytes ''-'' @ u32_to_hex4 b @ bytes ''-'' @ u32_to_hex4 c' @ bytes ''-'' @ u32_to_hex4 d,
          valid = True, generation = 1\<rparr>)"

definition dracolicence_verify :: "cpuid \<Rightarrow> pmm \<Rightarrow> licence \<Rightarrow> bool" where
  "dracolicence_verify c p l \<longleftrightarrow> (if \<not> valid l then False else dracolicence_gen_device_id c p = device_id l)"

definition dracolicence_init :: "cpuid \<Rightarrow> pmm \<Rightarrow> licence" where
  "dracolicence_init c p = dracolicence_activate c p"

section \<open>Screen lock\<close>

datatype lock_context = CTX_TRUSTED_LOCAL | CTX_UNTRUSTED | CTX_SUSPENDED | CTX_EMERGENCY

record lock =
  ctx :: lock_context
  network_trusted :: bool
  hw_verified :: bool
  screen_locked :: bool
  lock_timeout :: u32
  last_activity :: u32

record sec =
  sec_auth :: auth
  sec_lock :: lock
  sec_licence :: licence

definition g_lock :: lock where
  "g_lock = \<lparr>ctx = CTX_TRUSTED_LOCAL, network_trusted = False, hw_verified = False, screen_locked = False,
     lock_timeout = 0, last_activity = 0\<rparr>"

definition dracolock_update_context :: "lock \<Rightarrow> lock" where
  "dracolock_update_context l =
     (if \<not> hw_verified l then l\<lparr>ctx := CTX_EMERGENCY\<rparr>
      else if screen_locked l then l\<lparr>ctx := CTX_SUSPENDED\<rparr>
      else if \<not> network_trusted l then l\<lparr>ctx := CTX_TRUSTED_LOCAL\<rparr>
      else l\<lparr>ctx := CTX_TRUSTED_LOCAL\<rparr>)"

definition dracolock_init :: "cpuid \<Rightarrow> pmm \<Rightarrow> u32 \<Rightarrow> sec \<Rightarrow> sec" where
  "dracolock_init c p now s =
     s\<lparr>sec_lock := dracolock_update_context
         ((sec_lock s)\<lparr>hw_verified := dracolicence_verify c p (sec_licence s), last_activity := now\<rparr>)\<rparr>"

definition dracolock_can_access :: "cstring \<Rightarrow> u8 \<Rightarrow> lock \<Rightarrow> bool" where
  "dracolock_can_access path perm l =
     (case ctx l of CTX_TRUSTED_LOCAL \<Rightarrow> True
      | CTX_UNTRUSTED \<Rightarrow> \<not> (take 20 path = bytes ''/storage/main/system'' \<and> perm AND PERM_WRITE \<noteq> 0)
      | CTX_SUSPENDED \<Rightarrow> False
      | CTX_EMERGENCY \<Rightarrow> False)"

definition dracolock_lock_screen :: "lock \<Rightarrow> lock" where
  "dracolock_lock_screen l = dracolock_update_context (l\<lparr>screen_locked := True\<rparr>)"

definition dracolock_unlock :: "cstring \<Rightarrow> u32 \<Rightarrow> sec \<Rightarrow> int \<times> sec" where
  "dracolock_unlock password now s =
     (case session (sec_auth s) of None \<Rightarrow> (- 1, s)
      | Some i \<Rightarrow>
          let (r, a) = dracoauth_login (uname (users (sec_auth s) ! i)) password (sec_auth s)
          in if r = 0
             then (0, s\<lparr>sec_auth := a, sec_lock := dracolock_update_context ((sec_lock s)\<lparr>screen_locked := False, last_activity := now\<rparr>)\<rparr>)
             else (- 1, s\<lparr>sec_auth := a\<rparr>))"

definition dracolock_activity :: "u32 \<Rightarrow> lock \<Rightarrow> lock" where
  "dracolock_activity now l = l\<lparr>last_activity := now\<rparr>"

definition dracolock_set_timeout :: "u32 \<Rightarrow> lock \<Rightarrow> lock" where
  "dracolock_set_timeout seconds l = l\<lparr>lock_timeout := seconds * 100\<rparr>"

section \<open>Sequences of operations\<close>

datatype sec_op =
    Add_user "cstring option" cstring u8
  | Auth_init
  | Login cstring cstring
  | Logout
  | Change_password cstring cstring
  | Lock_screen
  | Unlock cstring u32
  | Activity u32
  | Set_timeout u32
  | Update_context
  | Lock_init cpuid pmm u32
  | Licence_init cpuid pmm

fun sec_exec :: "sec_op \<Rightarrow> sec \<Rightarrow> sec" where
  "sec_exec (Add_user n pw rl) s = s\<lparr>sec_auth := snd (dracoauth_add_user n pw rl (sec_auth s))\<rparr>"
| "sec_exec Auth_init s = s\<lparr>sec_auth := dracoauth_init (sec_auth s)\<rparr>"
| "sec_exec (Login n pw) s = s\<lparr>sec_auth := snd (dracoauth_login n pw (sec_auth s))\<rparr>"
| "sec_exec Logout s = s\<lparr>sec_auth := dracoauth_logout (sec_auth s)\<rparr>"
| "sec_exec (Change_password old new) s = s\<lparr>sec_auth := snd (dracoauth_change_password old new (sec_auth s))\<rparr>"
| "sec_exec Lock_screen s = s\<lparr>sec_lock := dracolock_lock_screen (sec_lock s)\<rparr>"
| "sec_exec (Unlock pw now) s = snd (dracolock_unlock pw now s)"
| "sec_exec (Activity now) s = s\<lparr>sec_lock := dracolock_activity now (sec_lock s)\<rparr>"
| "sec_exec (Set_timeout n) s = s\<lparr>sec_lock := dracolock_set_timeout n (sec_lock s)\<rparr>"
| "sec_exec Update_context s = s\<lparr>sec_lock := dracolock_update_context (sec_lock s)\<rparr>"
| "sec_exec (Lock_init c p now) s = dracolock_init c p now s"
| "sec_exec (Licence_init c p) s = s\<lparr>sec_licence := dracolicence_init c p\<rparr>"

text \<open>The table keeps its size, and a session points into it.\<close>

definition auth_wf :: "auth \<Rightarrow> bool" where
  "auth_wf a \<longleftrightarrow> length (users a) = AUTH_MAX_USERS \<and> nusers a \<le> AUTH_MAX_USERS
     \<and> (logged_in a \<longrightarrow> (\<exists>i < AUTH_MAX_USERS. session_user a = Some i))"

text \<open>The stored context is the one of the flags.\<close>

definition lock_wf :: "lock \<Rightarrow> bool" where
  "lock_wf l \<longleftrightarrow> dracolock_update_context l = l"

lemma auth_wf_add: "auth_wf a \<Longrightarrow> auth_wf (snd (dracoauth_add_user n pw rl a))"
  by (auto simp: auth_wf_def dracoauth_add_user_def split: option.splits)

lemma find_upt_Some: "List.find P [0..<n] = Some i \<Longrightarrow> i < n \<and> P i"
  by (auto simp: find_Some_iff)

lemma auth_wf_login: "auth_wf a \<Longrightarrow> auth_wf (snd (dracoauth_login n pw a))"
  by (auto simp: auth_wf_def dracoauth_login_def Let_def split: option.splits dest!: find_upt_Some)

lemma auth_wf_init: "auth_wf a \<Longrightarrow> auth_wf (dracoauth_init a)"
  unfolding dracoauth_init_def Let_def by (intro auth_wf_add) (simp add: auth_wf_def)

lemma auth_wf_change: "auth_wf a \<Longrightarrow> auth_wf (snd (dracoauth_change_password old new a))"
  by (auto simp: auth_wf_def dracoauth_change_password_def split: option.splits)

lemma auth_wf_logout: "auth_wf a \<Longrightarrow> auth_wf (dracoauth_logout a)"
  by (simp add: auth_wf_def dracoauth_logout_def)

lemma auth_wf_unlock: "auth_wf (sec_auth s) \<Longrightarrow> auth_wf (sec_auth (snd (dracolock_unlock pw now s)))"
  using auth_wf_login[of "sec_auth s" _ pw]
  by (auto simp: dracolock_unlock_def Let_def split: option.splits prod.splits) (metis snd_conv)+

lemmas auth_wf_ops = auth_wf_add auth_wf_login auth_wf_init auth_wf_change auth_wf_logout auth_wf_unlock

lemma auth_wf_exec: "auth_wf (sec_auth s) \<Longrightarrow> auth_wf (sec_auth (sec_exec f s))"
  by (cases f) (auto simp: auth_wf_ops dracolock_init_def)

lemma auth_wf_run: "auth_wf (sec_auth s) \<Longrightarrow> auth_wf (sec_auth (fold sec_exec fs s))"
  by (induction fs arbitrary: s) (auto intro: auth_wf_exec)

lemma update_context_idem [simp]: "dracolock_update_context (dracolock_update_context l) = dracolock_update_context l"
  by (simp add: dracolock_update_context_def)

lemma update_context_flags [simp]:
  "screen_locked (dracolock_update_context l) = screen_locked l"
  "hw_verified (dracolock_update_context l) = hw_verified l"
  by (simp_all add: dracolock_update_context_def)

lemma lock_wf_locked: "lock_wf l \<Longrightarrow> screen_locked l \<Longrightarrow> \<not> dracolock_can_access path perm l"
  unfolding lock_wf_def dracolock_update_context_def dracolock_can_access_def
  by (cases "ctx l"; cases l) (auto split: if_splits)

text \<open>Only a login under the name of the session user with a matching hash removes the lock.\<close>

definition unlocks :: "cstring \<Rightarrow> auth \<Rightarrow> bool" where
  "unlocks pw a \<longleftrightarrow> (\<exists>i j. session a = Some i \<and> j < nusers a \<and> credentials_ok (uname (users a ! i)) (make_hash pw) (users a ! j))"

lemma update_context_times [simp]:
  "dracolock_update_context (l\<lparr>last_activity := t\<rparr>) = (dracolock_update_context l)\<lparr>last_activity := t\<rparr>"
  "dracolock_update_context (l\<lparr>lock_timeout := t\<rparr>) = (dracolock_update_context l)\<lparr>lock_timeout := t\<rparr>"
  by (simp_all add: dracolock_update_context_def)

lemma exec_locked:
  assumes "lock_wf (sec_lock s)" "screen_locked (sec_lock s)"
  shows "lock_wf (sec_lock (sec_exec f s))
     \<and> (screen_locked (sec_lock (sec_exec f s)) \<or> (\<exists>pw now. f = Unlock pw now \<and> unlocks pw (sec_auth s)))"
proof (cases f)
  case (Unlock pw now)
  then show ?thesis using assms
    by (auto simp: dracolock_unlock_def dracoauth_login_def unlocks_def Let_def lock_wf_def split: option.splits prod.splits dest!: find_upt_Some)
qed (use assms in \<open>auto simp: lock_wf_def dracolock_lock_screen_def dracolock_activity_def dracolock_set_timeout_def dracolock_init_def\<close>)

text \<open>
  C37. Once the screen is locked, whatever sequence of operations follows, nothing is accessible
  until an unlock whose password has the stored hash of an active account with the name of the
  session user at that time. The session always points into the account table, so a permission
  check never follows a null pointer.
\<close>

theorem locked_until_password:
  assumes "lock_wf (sec_lock s)" "screen_locked (sec_lock s)" "auth_wf (sec_auth s)"
  shows "auth_wf (sec_auth (fold sec_exec fs s))
    \<and> dracoauth_check_perm perm (sec_auth (fold sec_exec fs s)) \<noteq> None
    \<and> (dracolock_can_access path perm (sec_lock (fold sec_exec fs s)) \<longrightarrow>
         (\<exists>pre pw now post. fs = pre @ Unlock pw now # post \<and> unlocks pw (sec_auth (fold sec_exec pre s))))"
proof (intro conjI impI)
  show wf: "auth_wf (sec_auth (fold sec_exec fs s))" by (rule auth_wf_run[OF assms(3)])
  then show "dracoauth_check_perm perm (sec_auth (fold sec_exec fs s)) \<noteq> None"
    by (auto simp: dracoauth_check_perm_def auth_wf_def)
  assume "dracolock_can_access path perm (sec_lock (fold sec_exec fs s))"
  with assms(1,2) show "\<exists>pre pw now post. fs = pre @ Unlock pw now # post \<and> unlocks pw (sec_auth (fold sec_exec pre s))"
  proof (induction fs arbitrary: s)
    case (Cons f fs)
    show ?case
    proof (cases "screen_locked (sec_lock (sec_exec f s))")
      case True
      then obtain pre pw now post where "fs = pre @ Unlock pw now # post" "unlocks pw (sec_auth (fold sec_exec pre (sec_exec f s)))"
        using Cons.IH[of "sec_exec f s"] Cons.prems exec_locked[of s f] by auto
      then show ?thesis by (intro exI[of _ "f # pre"] exI[of _ pw] exI[of _ now] exI[of _ post]) simp
    next
      case False
      then obtain pw now where "f = Unlock pw now" "unlocks pw (sec_auth s)" using exec_locked[OF Cons.prems(1,2), of f] by auto
      then show ?thesis by (intro exI[of _ "[]"] exI[of _ pw] exI[of _ now] exI[of _ fs]) simp
    qed
  qed (use lock_wf_locked in auto)
qed

text \<open>Root logs in with the empty password, the screen is locked, and the same password opens it.\<close>

definition boot_cpu :: cpuid where "boot_cpu = \<lparr>eax = 0x306a9, ebx = 0x100800, ecx = 0x7fbae3ff, edx = 0xbfebfbff\<rparr>"
definition boot_pmm :: pmm where "boot_pmm = \<lparr>bitmap = (\<lambda>_. 0), total_pages = 4096, total_memory = 0x1000000, free_count = 4096\<rparr>"

definition boot_sec :: sec where
  "boot_sec = fold sec_exec [Licence_init boot_cpu boot_pmm, Auth_init, Lock_init boot_cpu boot_pmm 1, Login (bytes ''root'') [], Lock_screen]
     \<lparr>sec_auth = \<lparr>users = replicate 8 zero_user, nusers = 0, logged_in = False, session_user = None\<rparr>, sec_lock = g_lock,
      sec_licence = \<lparr>device_id = [], licence_id = [], valid = False, generation = 0\<rparr>\<rparr>"

lemma verify_after_init: "dracolicence_verify c p (dracolicence_init c p)"
  by (simp add: dracolicence_verify_def dracolicence_init_def dracolicence_activate_def Let_def)

lemmas boot_sec_eval = boot_sec_def verify_after_init dracolock_init_def dracoauth_init_def dracoauth_add_user_def dracoauth_login_def
  dracolock_lock_screen_def dracolock_update_context_def g_lock_def credentials_ok_def Let_def AUTH_MAX_USERS_def AUTH_NAME_MAX_def
  bytes_def zero_user_def upt_rec numeral_eq_Suc

lemma boot_sec_locked: "screen_locked (sec_lock boot_sec)" "ctx (sec_lock boot_sec) = CTX_SUSPENDED" "hw_verified (sec_lock boot_sec)"
  by (simp_all add: boot_sec_eval)

lemma boot_sec_opens: "dracolock_can_access [] 0 (sec_lock (fold sec_exec [Activity 2, Unlock [] 3] boot_sec))"
  by (simp add: boot_sec_eval dracolock_activity_def dracolock_unlock_def session_def dracolock_can_access_def)

lemma boot_sec_wf: "lock_wf (sec_lock boot_sec)" "auth_wf (sec_auth boot_sec)"
proof -
  show "lock_wf (sec_lock boot_sec)" using boot_sec_locked by (simp add: lock_wf_def dracolock_update_context_def)
  show "auth_wf (sec_auth boot_sec)" unfolding boot_sec_def by (rule auth_wf_run) (simp add: auth_wf_def AUTH_MAX_USERS_def)
qed

theorem locked_until_password_witness:
  "\<exists>pre pw now post. [Activity 2, Unlock [] 3] = pre @ Unlock pw now # post \<and> unlocks pw (sec_auth (fold sec_exec pre boot_sec))"
  using locked_until_password[OF boot_sec_wf(1) boot_sec_locked(1) boot_sec_wf(2), of "[Activity 2, Unlock [] 3]" 0 "[]"] boot_sec_opens
  by blast

section \<open>A registered account can log in\<close>

lemma find_upt_is_Some: "i < n \<Longrightarrow> P i \<Longrightarrow> \<exists>j. List.find P [0..<n] = Some j \<and> P j \<and> j \<le> i"
  by (cases "List.find P [0..<n]") (auto simp: find_Some_iff find_None_iff not_less[symmetric])

lemma add_then_login:
  assumes "auth_wf a" "nusers a < AUTH_MAX_USERS" "n \<noteq> []" "length n < AUTH_NAME_MAX" "\<forall>u \<in> set (take (nusers a) (users a)). uname u \<noteq> n"
  shows "fst (dracoauth_add_user (Some n) pw rl a) = 0"
    and "dracoauth_login n pw (snd (dracoauth_add_user (Some n) pw rl a))
       = (0, (snd (dracoauth_add_user (Some n) pw rl a))\<lparr>logged_in := True, session_user := Some (nusers a)\<rparr>)"
proof -
  let ?a = "snd (dracoauth_add_user (Some n) pw rl a)"
  have add: "fst (dracoauth_add_user (Some n) pw rl a) = 0" "nusers ?a = nusers a + 1"
    "users ?a = (users a)[nusers a := \<lparr>uname = n, pass_hash = make_hash pw, role = rl, active = True, uid = of_nat (1000 + nusers a)\<rparr>]"
    using assms by (auto simp: dracoauth_add_user_def list_ex_iff)
  show "fst (dracoauth_add_user (Some n) pw rl a) = 0" by (rule add)
  have other: "uname (users ?a ! i) \<noteq> n" if "i < nusers a" for i
    proof -
    have "users a ! i \<in> set (take (nusers a) (users a))" using that assms(1) by (auto simp: auth_wf_def in_set_conv_nth)
    then show ?thesis using that assms(5) by (auto simp: add(3))
  qed
  have self: "credentials_ok n (make_hash pw) (users ?a ! nusers a)"
    using assms(1,2) by (simp add: add(3) auth_wf_def credentials_ok_def)
  have "List.find (\<lambda>i. credentials_ok n (make_hash pw) (users ?a ! i)) [0..<nusers ?a] = Some (nusers a)"
  proof -
    obtain j where "List.find (\<lambda>i. credentials_ok n (make_hash pw) (users ?a ! i)) [0..<nusers ?a] = Some j"
        "credentials_ok n (make_hash pw) (users ?a ! j)" "j \<le> nusers a"
      using find_upt_is_Some[of "nusers a" "nusers ?a" "\<lambda>i. credentials_ok n (make_hash pw) (users ?a ! i)"] self add(2) by auto
    moreover from this have "j = nusers a" using other[of j] by (cases "j < nusers a") (auto simp: credentials_ok_def)
    ultimately show ?thesis by simp
  qed
  then show "dracoauth_login n pw ?a = (0, ?a\<lparr>logged_in := True, session_user := Some (nusers a)\<rparr>)"
    by (simp add: dracoauth_login_def)
qed

section \<open>The licence depends on the free pages\<close>

lemma and_15: "x AND 0xF = take_bit 4 (x :: u32)"
  by (simp add: take_bit_eq_mask mask_eq_exp_minus_1)

lemma hex_digit_inj:
  assumes "bytes ''0123456789ABCDEF'' ! unat (take_bit 4 x) = bytes ''0123456789ABCDEF'' ! unat (take_bit 4 (y :: u32))"
  shows "take_bit 4 x = take_bit 4 y"
proof -
  have "distinct (bytes ''0123456789ABCDEF'')" by code_simp
  moreover have "unat (take_bit 4 z) < length (bytes ''0123456789ABCDEF'')" for z :: u32
    by (simp add: unat_take_bit_word bytes_def)
  ultimately have "unat (take_bit 4 x) = unat (take_bit 4 y)" using assms nth_eq_iff_index_eq by blast
  then show ?thesis by (simp only: word_unat_eq_iff)
qed

lemma take_bit_drop_bitD:
  assumes "take_bit n (drop_bit k x) = take_bit n (drop_bit k (y :: u32))" "k \<le> i" "i < k + n"
  shows "bit x i = bit y i"
proof -
  have "bit (take_bit n (drop_bit k x)) (i - k) = bit (take_bit n (drop_bit k y)) (i - k)" using assms(1) by simp
  moreover have "i - k < n" using assms(2,3) by linarith
  ultimately show ?thesis using assms(2) by (simp add: bit_simps)
qed

lemma hex4_low_half:
  assumes "u32_to_hex4 x = u32_to_hex4 y"
  shows "(ucast x :: u16) = ucast y"
proof (rule bit_word_eqI)
  fix i assume "i < LENGTH(16)"
  have d: "take_bit 4 (drop_bit 12 x) = take_bit 4 (drop_bit 12 y)" "take_bit 4 (drop_bit 8 x) = take_bit 4 (drop_bit 8 y)"
    "take_bit 4 (drop_bit 4 x) = take_bit 4 (drop_bit 4 y)" "take_bit 4 (drop_bit 0 x) = take_bit 4 (drop_bit 0 y)"
    using assms by (auto simp: u32_to_hex4_def and_15 Let_def dest: hex_digit_inj)
  from \<open>i < LENGTH(16)\<close> consider "i < 4" | "4 \<le> i" "i < 8" | "8 \<le> i" "i < 12" | "12 \<le> i" "i < 16" by fastforce
  then have "bit x i = bit y i"
  proof cases
    case 1 then show ?thesis using take_bit_drop_bitD[of 4 0 x y i] d by simp
  next
    case 2 then show ?thesis using take_bit_drop_bitD[of 4 4 x y i] d by simp
  next
    case 3 then show ?thesis using take_bit_drop_bitD[of 4 8 x y i] d by simp
  next
    case 4 then show ?thesis using take_bit_drop_bitD[of 4 12 x y i] d by simp
  qed
  then show "bit (ucast x :: u16) i = bit (ucast y :: u16) i" using \<open>i < LENGTH(16)\<close> by (simp add: bit_simps)
qed

lemma ucast16_mult: "(ucast (x * y :: u32) :: u16) = ucast x * ucast y"
proof -
  have "take_bit 16 (uint (x * y)) = take_bit 16 (uint x * uint y)"
    by (simp add: uint_word_arith_bintrs(3) word_size take_bit_take_bit)
  then have "(word_of_int (uint (x * y)) :: u16) = word_of_int (uint x * uint y)" by (simp only: word_of_int_eq_iff) simp
  then show ?thesis by (simp only: ucast_eq wi_hom_mult)
qed

lemma ucast16_xor: "(ucast (x XOR y :: u32) :: u16) = ucast x XOR ucast y"
  by (rule bit_word_eqI) (auto simp: bit_simps)

lemma xor_left_cancel: "k XOR a = k XOR b \<Longrightarrow> a = (b :: u16)"
  by (metis xor.assoc xor_self_eq xor.left_neutral)

lemma device_id_group:
  assumes "dracolicence_gen_device_id c p' = dracolicence_gen_device_id c p"
  shows "u32_to_hex4 (hw_fingerprint c p) = u32_to_hex4 (hw_fingerprint c p')"
proof -
  have "take 4 (drop 3 (dracolicence_gen_device_id c q)) = u32_to_hex4 (hw_fingerprint c q)" for q
    by (simp add: dracolicence_gen_device_id_def Let_def bytes_def u32_to_hex4_def)
  then show ?thesis using assms by metis
qed

text \<open>
  A licence made with one number of free pages is valid with another only if the two agree in their
  lowest 16 bits, on the same processor.
\<close>

theorem licence_tied_to_free_pages:
  assumes "dracolicence_verify c p' (dracolicence_init c p)"
  shows "unat (pmm_free_pages p) mod 65536 = unat (pmm_free_pages p') mod 65536"
proof -
  define k :: u32 where "k = eax c XOR edx c XOR push_bit 4 (ebx c) XOR drop_bit 2 (ecx c)"
  have "u32_to_hex4 (hw_fingerprint c p) = u32_to_hex4 (hw_fingerprint c p')"
    using assms by (intro device_id_group) (simp add: dracolicence_verify_def dracolicence_init_def dracolicence_activate_def Let_def)
  then have "(ucast (hw_fingerprint c p) :: u16) = ucast (hw_fingerprint c p')" by (rule hex4_low_half)
  then have "(ucast k :: u16) XOR ucast (pmm_free_pages p * 0x9E3779B9) = ucast k XOR ucast (pmm_free_pages p' * 0x9E3779B9)"
    by (simp only: hw_fingerprint_def Let_def k_def[symmetric] ucast16_xor)
  then have "(ucast (pmm_free_pages p * 0x9E3779B9) :: u16) = ucast (pmm_free_pages p' * 0x9E3779B9)"
    by (rule xor_left_cancel)
  then have "(ucast (pmm_free_pages p * 0x9E3779B9 * 0x144cbc89) :: u16) = ucast (pmm_free_pages p' * 0x9E3779B9 * 0x144cbc89)"
    by (simp only: ucast16_mult)
  moreover have "x * 0x9E3779B9 * 0x144cbc89 = x" for x :: u32
  proof -
    have "(0x9E3779B9 * 0x144cbc89 :: u32) = 1" by simp
    then show ?thesis by (simp only: mult.assoc mult_1_right)
  qed
  ultimately have "(ucast (pmm_free_pages p) :: u16) = ucast (pmm_free_pages p')" by simp
  then have "unat (ucast (pmm_free_pages p) :: u16) = unat (ucast (pmm_free_pages p') :: u16)" by simp
  then show ?thesis by (simp add: unsigned_ucast_eq take_bit_eq_mod)
qed

end
