(* ===== verification/Wm.thy ===== *)
theory Wm
  imports Heap "HOL-Library.Signed_Division" "HOL-Library.Multiset"
begin

text \<open>
  The window manager, \<^verbatim>\<open>gui/wm/wm.c\<close>: the window table, focus and stacking, snapping, desktops, the
  task switcher, and the drawing of a frame. Coordinates and sizes are 32-bit words read as signed
  numbers. Calls of the frame buffer driver are recorded as a list of drawing commands. The size of
  the screen is an argument. An access outside the window table is \<^const>\<open>None\<close>. Log output is left out.
\<close>

section \<open>Windows and drawing commands\<close>

definition WM_MAX_WINDOWS :: nat where "WM_MAX_WINDOWS = 32"
definition SHADOW_BLUR :: nat where "SHADOW_BLUR = 8"

datatype wm_win_state =
    WM_WIN_NORMAL | WM_WIN_MAXIMISED | WM_WIN_MINIMISED | WM_WIN_SNAPPED_LEFT | WM_WIN_SNAPPED_RIGHT | WM_WIN_SNAPPED_FULL

record wm_window =
  win_id :: nat
  title :: "u8 list"
  wx :: u32
  wy :: u32
  ww :: u32
  wh :: u32
  desktop :: nat
  z :: u32
  wstate :: wm_win_state
  focused :: bool
  visible :: bool
  fb_buf :: addr

record wm =
  windows :: "wm_window list"
  win_count :: nat
  focused_id :: int
  current_desktop :: nat
  task_switcher_idx :: int

datatype draw =
    Fill_rect u32 u32 u32 u32 u32
  | Print u32 u32 "u8 list" u32 u32
  | Blit u32 u32 u32 u32 addr
  | Flip

definition idiv :: "u32 \<Rightarrow> int \<Rightarrow> u32" where "idiv a b = word_of_int (sint a sdiv b)"

text \<open>The shadow colour keeps only its low 24 bits, which are zero.\<close>

definition wm_draw_shadow :: "u32 \<Rightarrow> u32 \<Rightarrow> u32 \<Rightarrow> u32 \<Rightarrow> draw list" where
  "wm_draw_shadow x y w h = concat (map (\<lambda>i.
     let alpha = 20 - of_nat i * 2 :: u8;
         col = push_bit 24 (ucast alpha :: u32);
         sx = x + of_nat i;
         sy = y + of_nat i
     in if 0 \<le> sint sx \<and> 0 \<le> sint sy
        then [Fill_rect sx (sy + h) w 1 (col AND 0xFFFFFF), Fill_rect (sx + w) sy 1 h (col AND 0xFFFFFF)]
        else []) [1..<SHADOW_BLUR + 1])"

definition animate_open :: "wm_window \<Rightarrow> draw list" where
  "animate_open win = concat (map (\<lambda>f.
     let wf = idiv (ww win * (50 + of_nat f * 12)) 100;
         hf = idiv (wh win * (50 + of_nat f * 12)) 100;
         xf = wx win + idiv (ww win - wf) 2;
         yf = wy win + idiv (wh win - hf) 2
     in [Fill_rect xf yf wf hf 0x1A1D3A, Flip]) [0..<4])"

section \<open>Operations\<close>

definition zero_window :: wm_window where
  "zero_window = \<lparr>win_id = 0, title = [], wx = 0, wy = 0, ww = 0, wh = 0, desktop = 0, z = 0, wstate = WM_WIN_NORMAL,
     focused = False, visible = False, fb_buf = 0\<rparr>"

definition wm_init :: "wm \<Rightarrow> wm" where
  "wm_init st = st\<lparr>windows := replicate WM_MAX_WINDOWS zero_window, win_count := 0, focused_id := - 1, current_desktop := 0\<rparr>"

text \<open>
  The back buffer comes from the kernel heap; its size is computed in 32 bits and sign-extended. The
  result is the identifier or \<open>-1\<close>, the drawn animation, and the new states.
\<close>

definition wm_create_window ::
    "u8 list option \<Rightarrow> u32 \<Rightarrow> u32 \<Rightarrow> u32 \<Rightarrow> u32 \<Rightarrow> system_limits \<Rightarrow> heap \<Rightarrow> wm \<Rightarrow> (int \<times> draw list \<times> heap \<times> wm) option" where
  "wm_create_window ttl x y w h lim hp st =
     (if WM_MAX_WINDOWS \<le> win_count st then Some (- 1, [], hp, st)
      else case kzalloc lim (scast (w * h * 4)) hp of None \<Rightarrow> None
      | Some (buf, hp1) \<Rightarrow>
          let n = win_count st;
              win = \<lparr>win_id = n, title = take 63 (case ttl of None \<Rightarrow> map of_char ''Window'' | Some t \<Rightarrow> t), wx = x, wy = y, ww = w, wh = h,
                     desktop = current_desktop st, z = of_nat n, wstate = WM_WIN_NORMAL, focused = False, visible = True, fb_buf = buf\<rparr>
          in Some (int n, animate_open win, hp1, st\<lparr>windows := (windows st)[n := win], win_count := n + 1\<rparr>))"

definition valid_id :: "int \<Rightarrow> wm \<Rightarrow> bool" where "valid_id i st \<longleftrightarrow> 0 \<le> i \<and> i < int (win_count st)"

definition upd_window :: "nat \<Rightarrow> (wm_window \<Rightarrow> wm_window) \<Rightarrow> wm \<Rightarrow> wm" where
  "upd_window i f st = st\<lparr>windows := (windows st)[i := f (windows st ! i)]\<rparr>"

definition wm_destroy_window :: "int \<Rightarrow> wm \<Rightarrow> wm" where
  "wm_destroy_window i st = (if \<not> valid_id i st then st else upd_window (nat i) (\<lambda>w. w\<lparr>visible := False\<rparr>) st)"

definition max_z :: "wm \<Rightarrow> u32" where
  "max_z st = fold (\<lambda>w m. if m < z w then z w else m) (take (win_count st) (windows st)) 0"

definition wm_focus_window :: "int \<Rightarrow> wm \<Rightarrow> wm" where
  "wm_focus_window i st =
     (let st1 = (if valid_id (focused_id st) st then upd_window (nat (focused_id st)) (\<lambda>w. w\<lparr>focused := False\<rparr>) st else st);
          st2 = st1\<lparr>focused_id := i\<rparr>
      in if valid_id i st2
         then let st3 = upd_window (nat i) (\<lambda>w. w\<lparr>focused := True\<rparr>) st2
              in upd_window (nat i) (\<lambda>w. w\<lparr>z := max_z st3 + 1\<rparr>) st3
         else st2)"

definition wm_snap_window :: "u32 \<Rightarrow> u32 \<Rightarrow> int \<Rightarrow> wm_win_state \<Rightarrow> wm \<Rightarrow> wm" where
  "wm_snap_window SW SH i snap st =
     (if \<not> valid_id i st then st
      else upd_window (nat i) (\<lambda>w. (case snap of
            WM_WIN_SNAPPED_LEFT \<Rightarrow> w\<lparr>wx := 0, wy := 28, ww := idiv SW 2, wh := SH - 28\<rparr>
          | WM_WIN_SNAPPED_RIGHT \<Rightarrow> w\<lparr>wx := idiv SW 2, wy := 28, ww := idiv SW 2, wh := SH - 28\<rparr>
          | WM_WIN_MAXIMISED \<Rightarrow> w\<lparr>wx := 0, wy := 28, ww := SW, wh := SH - 28\<rparr>
          | WM_WIN_SNAPPED_FULL \<Rightarrow> w\<lparr>wx := 0, wy := 28, ww := SW, wh := SH - 28\<rparr>
          | _ \<Rightarrow> w)\<lparr>wstate := snap\<rparr>) st)"

definition wm_resize_window :: "int \<Rightarrow> u32 \<Rightarrow> u32 \<Rightarrow> wm \<Rightarrow> wm" where
  "wm_resize_window i w h st = (if \<not> valid_id i st then st else upd_window (nat i) (\<lambda>v. v\<lparr>ww := w, wh := h\<rparr>) st)"

definition wm_move_window :: "int \<Rightarrow> u32 \<Rightarrow> u32 \<Rightarrow> wm \<Rightarrow> wm" where
  "wm_move_window i x y st = (if \<not> valid_id i st then st else upd_window (nat i) (\<lambda>v. v\<lparr>wx := x, wy := y\<rparr>) st)"

definition wm_switch_desktop :: "int \<Rightarrow> wm \<Rightarrow> wm" where
  "wm_switch_desktop idx st = (if idx < 0 \<or> 4 \<le> idx then st else st\<lparr>current_desktop := nat idx\<rparr>)"

definition wm_task_switcher_open :: "wm \<Rightarrow> wm" where
  "wm_task_switcher_open st = st\<lparr>task_switcher_idx := focused_id st\<rparr>"

definition shown :: "wm \<Rightarrow> nat \<Rightarrow> bool" where
  "shown st i \<longleftrightarrow> visible (windows st ! i) \<and> desktop (windows st ! i) = current_desktop st"

text \<open>The search for the next window to show; \<open>k\<close> counts the remaining rounds.\<close>

fun switcher_search :: "wm \<Rightarrow> nat \<Rightarrow> int \<Rightarrow> int option" where
  "switcher_search st 0 next = Some next"
| "switcher_search st (Suc k) next =
     (if next < 0 then None
      else if shown st (nat next) then Some next
      else switcher_search st k ((next + 1) mod int (win_count st)))"

definition wm_task_switcher_next :: "wm \<Rightarrow> wm option" where
  "wm_task_switcher_next st =
     (if win_count st = 0 then Some st
      else map_option (\<lambda>n. st\<lparr>task_switcher_idx := n\<rparr>)
             (switcher_search st (win_count st) ((task_switcher_idx st + 1) smod int (win_count st))))"

definition wm_task_switcher_commit :: "wm \<Rightarrow> wm" where
  "wm_task_switcher_commit st = (wm_focus_window (task_switcher_idx st) st)\<lparr>task_switcher_idx := - 1\<rparr>"

section \<open>Drawing a frame\<close>

definition compare_swap :: "(nat \<Rightarrow> u32) \<Rightarrow> nat \<Rightarrow> nat \<Rightarrow> nat list \<Rightarrow> nat list" where
  "compare_swap key i j ord = (if key (ord ! j) < key (ord ! i) then ord[i := ord ! j, j := ord ! i] else ord)"

definition sort_row :: "(nat \<Rightarrow> u32) \<Rightarrow> nat \<Rightarrow> nat \<Rightarrow> nat list \<Rightarrow> nat list" where
  "sort_row key n i ord = fold (compare_swap key i) [i + 1..<n] ord"

definition render_order :: "wm \<Rightarrow> nat list" where
  "render_order st =
     (let n = win_count st
      in fold (sort_row (\<lambda>i. z (windows st ! i)) n) [0..<n - 1] [0..<n])"

definition draw_window :: "wm_window \<Rightarrow> draw list" where
  "draw_window w =
     (let tbcol = (if focused w then 0x7828C8 else 0x21262D)
      in wm_draw_shadow (wx w) (wy w) (ww w) (wh w)
         @ [Fill_rect (wx w) (wy w) (ww w) 24 tbcol, Print (wx w + 8) (wy w + 4) (title w) 0xE6EDF3 tbcol,
            Fill_rect (wx w + ww w - 20) (wy w + 4) 14 14 0xFF5F57]
         @ [if fb_buf w \<noteq> 0 then Blit (wx w) (wy w + 24) (ww w) (wh w - 24) (fb_buf w)
            else Fill_rect (wx w) (wy w + 24) (ww w) (wh w - 24) 0x0D1117])"

definition wm_render_frame :: "wm \<Rightarrow> draw list" where
  "wm_render_frame st = concat (map (\<lambda>i. if shown st i then draw_window (windows st ! i) else []) (render_order st))"

section \<open>The order of drawing\<close>

lemma compare_swap_mset: "i < length ord \<Longrightarrow> j < length ord \<Longrightarrow> mset (compare_swap key i j ord) = mset ord"
  by (simp add: compare_swap_def mset_swap)

text \<open>All positions before \<open>i\<close> hold their final element; row \<open>i\<close> has been compared up to \<open>j\<close>.\<close>

definition sorted_upto :: "(nat \<Rightarrow> u32) \<Rightarrow> nat \<Rightarrow> nat list \<Rightarrow> bool" where
  "sorted_upto key i ord \<longleftrightarrow> (\<forall>a b. a < i \<longrightarrow> a < b \<longrightarrow> b < length ord \<longrightarrow> key (ord ! a) \<le> key (ord ! b))"

definition least_upto :: "(nat \<Rightarrow> u32) \<Rightarrow> nat \<Rightarrow> nat \<Rightarrow> nat list \<Rightarrow> bool" where
  "least_upto key i j ord \<longleftrightarrow> (\<forall>b. i < b \<longrightarrow> b < j \<longrightarrow> key (ord ! i) \<le> key (ord ! b))"

lemma length_compare_swap [simp]: "length (compare_swap key i j ord) = length ord"
  by (simp add: compare_swap_def)

lemma compare_swap_keeps:
  assumes "i < j" "j < length ord" "sorted_upto key i ord" "least_upto key i j ord"
  shows "sorted_upto key i (compare_swap key i j ord)" "least_upto key i (Suc j) (compare_swap key i j ord)"
proof -
  show "sorted_upto key i (compare_swap key i j ord)"
    using assms(1-3) by (auto simp: sorted_upto_def compare_swap_def nth_list_update)
  show "least_upto key i (Suc j) (compare_swap key i j ord)"
    using assms(1,2,4) by (auto simp: least_upto_def compare_swap_def nth_list_update less_Suc_eq intro: less_imp_le less_le_trans)
qed

lemma sort_row_fold:
  assumes "i < j" "j \<le> n" "n = length ord" "sorted_upto key i ord"
  shows "mset (fold (compare_swap key i) [i + 1..<j] ord) = mset ord
     \<and> sorted_upto key i (fold (compare_swap key i) [i + 1..<j] ord) \<and> least_upto key i j (fold (compare_swap key i) [i + 1..<j] ord)"
  using assms
proof (induction j)
  case (Suc j)
  show ?case
  proof (cases "i < j")
    case True
    let ?o = "fold (compare_swap key i) [i + 1..<j] ord"
    have IH: "mset ?o = mset ord" "sorted_upto key i ?o" "least_upto key i j ?o" using Suc True by auto
    then have len: "length ?o = length ord" by (metis size_mset)
    have "[i + 1..<Suc j] = [i + 1..<j] @ [j]" using True by simp
    then show ?thesis using IH len Suc.prems True compare_swap_keeps[of i j ?o key] compare_swap_mset[of i ?o j key] by simp
  next
    case False
    then have "j = i" using Suc.prems by simp
    then show ?thesis using Suc.prems by (auto simp: least_upto_def)
  qed
qed simp

lemma sort_row_sorted:
  assumes "Suc i < length ord" "sorted_upto key i ord"
  shows "mset (sort_row key (length ord) i ord) = mset ord \<and> sorted_upto key (Suc i) (sort_row key (length ord) i ord)"
proof -
  have r: "mset (sort_row key (length ord) i ord) = mset ord" "sorted_upto key i (sort_row key (length ord) i ord)"
    "least_upto key i (length ord) (sort_row key (length ord) i ord)"
    using sort_row_fold[of i "length ord" "length ord" ord key] assms by (auto simp: sort_row_def)
  then have "length (sort_row key (length ord) i ord) = length ord" by (metis size_mset)
  then show ?thesis using r by (auto simp: sorted_upto_def least_upto_def less_Suc_eq)
qed

lemma sort_rows:
  assumes "k \<le> length ord - 1"
  shows "mset (fold (sort_row key (length ord)) [0..<k] ord) = mset ord \<and> sorted_upto key k (fold (sort_row key (length ord)) [0..<k] ord)"
  using assms
proof (induction k)
  case (Suc k)
  let ?o = "fold (sort_row key (length ord)) [0..<k] ord"
  have "mset ?o = mset ord" "sorted_upto key k ?o" using Suc by auto
  moreover from this(1) have "length ?o = length ord" by (metis size_mset)
  ultimately show ?case using sort_row_sorted[of k ?o key] Suc.prems by simp
qed (simp add: sorted_upto_def)

lemma render_order_sorted:
  "mset (render_order st) = mset [0..<win_count st]" "sorted (map (\<lambda>i. z (windows st ! i)) (render_order st))"
proof -
  let ?key = "\<lambda>i. z (windows st ! i)" and ?n = "win_count st"
  have r: "mset (render_order st) = mset [0..<?n]" "sorted_upto ?key (?n - 1) (render_order st)"
    using sort_rows[of "?n - 1" "[0..<?n]" ?key] by (auto simp: render_order_def Let_def)
  then show "mset (render_order st) = mset [0..<?n]" by simp
  from r(1) have len: "length (render_order st) = ?n" by (metis size_mset length_upt minus_nat.diff_0)
  show "sorted (map ?key (render_order st))"
    using r(2) len by (auto simp: sorted_iff_nth_mono_less sorted_upto_def)
qed

section \<open>The window table\<close>

text \<open>At most the window recorded as focused has the focus mark.\<close>

definition wm_wf :: "wm \<Rightarrow> bool" where
  "wm_wf st \<longleftrightarrow> length (windows st) = WM_MAX_WINDOWS \<and> win_count st \<le> WM_MAX_WINDOWS \<and> current_desktop st < 4
     \<and> (\<forall>j < win_count st. focused (windows st ! j) \<longrightarrow> int j = focused_id st)"

lemma upd_window_sel [simp]:
  "length (windows (upd_window i f st)) = length (windows st)" "win_count (upd_window i f st) = win_count st"
  "focused_id (upd_window i f st) = focused_id st" "current_desktop (upd_window i f st) = current_desktop st"
  "task_switcher_idx (upd_window i f st) = task_switcher_idx st"
  by (simp_all add: upd_window_def)

lemma upd_window_nth: "j < length (windows st) \<Longrightarrow> windows (upd_window i f st) ! j = (if i = j then f (windows st ! j) else windows st ! j)"
  by (simp add: upd_window_def nth_list_update)

lemma wm_wf_upd:
  assumes "wm_wf st" "\<And>w. focused (f w) = focused w"
  shows "wm_wf (upd_window i f st)"
  using assms by (auto simp: wm_wf_def upd_window_nth)

lemma snap_case_focused [simp]:
  "focused (case s of WM_WIN_SNAPPED_LEFT \<Rightarrow> w\<lparr>wx := a, wy := b, ww := c, wh := d\<rparr>
     | WM_WIN_SNAPPED_RIGHT \<Rightarrow> w\<lparr>wx := a1, wy := b, ww := c, wh := d\<rparr>
     | WM_WIN_MAXIMISED \<Rightarrow> w\<lparr>wx := a, wy := b, ww := c1, wh := d\<rparr>
     | WM_WIN_SNAPPED_FULL \<Rightarrow> w\<lparr>wx := a, wy := b, ww := c1, wh := d\<rparr>
     | WM_WIN_NORMAL \<Rightarrow> w | WM_WIN_MINIMISED \<Rightarrow> w) = focused w"
  by (simp split: wm_win_state.split)

lemma wm_wf_focus: "wm_wf st \<Longrightarrow> wm_wf (wm_focus_window i st)"
  by (auto simp: wm_wf_def wm_focus_window_def Let_def valid_id_def upd_window_nth)

lemma wm_wf_layout:
  assumes "wm_wf st"
  shows "wm_wf (wm_destroy_window i st)" "wm_wf (wm_snap_window SW SH i s st)" "wm_wf (wm_resize_window i w h st)"
    "wm_wf (wm_move_window i x y st)"
  using assms by (simp_all add: wm_destroy_window_def wm_snap_window_def wm_resize_window_def wm_move_window_def wm_wf_upd)

lemma wm_wf_create:
  "wm_wf st \<Longrightarrow> wm_create_window t x y w h lim hp st = Some (r, d, hp', st') \<Longrightarrow> wm_wf st'"
  by (auto simp: wm_create_window_def wm_wf_def Let_def nth_list_update less_Suc_eq split: if_splits option.splits)

lemma wm_wf_desktop:
  assumes "wm_wf st"
  shows "wm_wf (wm_switch_desktop k st)" "wm_wf (wm_task_switcher_open st)" "wm_wf (wm_task_switcher_commit st)" "wm_wf (wm_init st')"
    "wm_task_switcher_next st = Some st'' \<Longrightarrow> wm_wf st''"
proof -
  show "wm_wf (wm_task_switcher_commit st)" using wm_wf_focus[OF assms, of "task_switcher_idx st"]
    by (simp add: wm_task_switcher_commit_def wm_wf_def)
qed (use assms in \<open>auto simp: wm_wf_def wm_switch_desktop_def wm_task_switcher_open_def wm_init_def wm_task_switcher_next_def zero_window_def split: if_splits\<close>)

section \<open>The task switcher\<close>

lemma switcher_search_shown:
  assumes "0 \<le> n" "n < int (win_count st)" "d < k" "shown st (nat ((n + int d) mod int (win_count st)))"
  shows "\<exists>m. switcher_search st k n = Some m \<and> 0 \<le> m \<and> m < int (win_count st) \<and> shown st (nat m)"
  using assms
proof (induction k arbitrary: n d)
  case (Suc k)
  show ?case
  proof (cases "shown st (nat n)")
    case False
    then obtain e where d: "d = Suc e" using Suc.prems by (cases d) auto
    let ?n = "(n + 1) mod int (win_count st)"
    have "(?n + int e) mod int (win_count st) = (n + int d) mod int (win_count st)"
      by (simp add: d mod_simps algebra_simps)
    then have "\<exists>m. switcher_search st k ?n = Some m \<and> 0 \<le> m \<and> m < int (win_count st) \<and> shown st (nat m)"
      using Suc.prems d by (intro Suc.IH[of ?n e]) auto
    then show ?thesis using Suc.prems False by simp
  qed (use Suc.prems in simp)
qed simp

lemma smod_nonneg: "0 \<le> (a :: int) \<Longrightarrow> 0 < b \<Longrightarrow> a smod b = a mod b"
  by (cases "a = 0") (simp_all add: signed_modulo_int_def sgn_if)

text \<open>Whenever some window is visible on the current desktop, the task switcher stops at such a window.\<close>

lemma task_switcher_finds:
  assumes "- 1 \<le> task_switcher_idx st" "j < win_count st" "shown st j"
  shows "\<exists>m < win_count st. wm_task_switcher_next st = Some (st\<lparr>task_switcher_idx := int m\<rparr>) \<and> shown st m"
proof -
  let ?N = "int (win_count st)"
  let ?n = "(task_switcher_idx st + 1) smod ?N"
  have n: "?n = (task_switcher_idx st + 1) mod ?N" using assms by (simp add: smod_nonneg)
  then have b: "0 \<le> ?n" "?n < ?N" using assms(2) by auto
  define d where "d = nat ((int j - ?n) mod ?N)"
  have "int d = (int j - ?n) mod ?N" using assms(2) by (simp add: d_def)
  then have "(?n + int d) mod ?N = int j mod ?N" by (simp add: mod_simps)
  then have "(?n + int d) mod ?N = int j" using assms(2) by simp
  moreover have "d < win_count st" using assms(2) by (simp add: d_def nat_less_iff)
  ultimately obtain m where "switcher_search st (win_count st) ?n = Some m" "0 \<le> m" "m < ?N" "shown st (nat m)"
    using switcher_search_shown[OF b, of d "win_count st"] assms(3) by auto
  then show ?thesis using assms(2) by (intro exI[of _ "nat m"]) (auto simp: wm_task_switcher_next_def)
qed

section \<open>Focus and drawing\<close>

lemma max_z_fold: "m \<le> fold (\<lambda>w m. if m < z w then z w else m) ws m
   \<and> (\<forall>w \<in> set ws. z w \<le> fold (\<lambda>w m. if m < z w then z w else m) ws m)"
proof (induction ws arbitrary: m)
  case (Cons w ws)
  show ?case using Cons[of m] Cons[of "z w"] by (auto intro: order_trans)
qed simp

lemma max_z_ge: "j < win_count st \<Longrightarrow> j < length (windows st) \<Longrightarrow> z (windows st ! j) \<le> max_z st"
proof -
  assume j: "j < win_count st" "j < length (windows st)"
  then have "windows st ! j \<in> set (take (win_count st) (windows st))" by (auto simp: in_set_conv_nth)
  then show ?thesis using max_z_fold[of 0 "take (win_count st) (windows st)"] by (auto simp: max_z_def)
qed

lemma max_z_upd: "(\<And>w. z (f w) = z w) \<Longrightarrow> max_z (upd_window i f st) = max_z st"
proof -
  assume f: "\<And>w. z (f w) = z w"
  have fold_z: "fold (\<lambda>w m. if m < z w then z w else m) ws = fold (\<lambda>k m. if m < k then k else m) (map z ws)" for ws
    by (simp add: fold_map comp_def)
  have "map z ((windows st)[i := f (windows st ! i)]) = map z (windows st)"
    by (cases "i < length (windows st)") (simp_all add: map_update f list_update_same_conv list_update_beyond)
  then show ?thesis by (simp add: max_z_def fold_z upd_window_def take_map[symmetric])
qed

lemma focus_window_effect:
  assumes "wm_wf st" "valid_id i st" "j < win_count st"
  defines "st' \<equiv> wm_focus_window i st"
  shows "z (windows st' ! j) = (if int j = i then max_z st + 1 else z (windows st ! j))"
    "focused (windows st' ! j) \<longleftrightarrow> int j = i" "shown st' j = shown st j" "win_count st' = win_count st"
proof -
  have len: "j < length (windows st)" using assms by (simp add: wm_wf_def)
  have mz: "max_z (upd_window k (\<lambda>w. w\<lparr>focused := b\<rparr>) s) = max_z s" "max_z (s\<lparr>focused_id := i\<rparr>) = max_z s" for k b s
    by (rule max_z_upd, simp) (simp add: max_z_def)
  show "z (windows st' ! j) = (if int j = i then max_z st + 1 else z (windows st ! j))"
    using assms len by (auto simp: wm_focus_window_def Let_def valid_id_def upd_window_nth mz)
  show "focused (windows st' ! j) \<longleftrightarrow> int j = i"
    using assms len by (auto simp: wm_focus_window_def Let_def valid_id_def upd_window_nth wm_wf_def)
  show "shown st' j = shown st j" "win_count st' = win_count st"
    using assms len by (auto simp: wm_focus_window_def Let_def valid_id_def upd_window_nth shown_def)
qed

lemma set_render_order [simp]: "set (render_order st) = {..<win_count st}"
  using arg_cong[OF render_order_sorted(1)[of st], of set_mset] by (simp add: lessThan_atLeast0)

lemma sorted_last_max:
  assumes "sorted (map f xs)" "x \<in> set xs" "\<And>y. y \<in> set xs \<Longrightarrow> y \<noteq> x \<Longrightarrow> f y < f x"
  shows "\<exists>ys. xs = ys @ [x]"
proof (cases xs rule: rev_cases)
  case (snoc ys y)
  then have "f x \<le> f y" using assms(1,2) by (auto simp: sorted_append)
  then show ?thesis using assms(3)[of y] snoc by (cases "y = x") auto
qed (use assms(2) in simp)

lemma concat_map_filter: "concat (map (\<lambda>j. if P j then f j else []) xs) = concat (map f (filter P xs))"
  by (induction xs) auto

text \<open>
  C38. A frame draws the visible windows of the current desktop, each once, in the order of their
  stacking number. When a visible window of the current desktop gets the focus and the counter of
  stacking numbers has not reached its end, the next frame draws this window last, over all others,
  and it is the only one drawn with the colour of the focused window.
\<close>

theorem focused_window_on_top:
  assumes "wm_wf st" "valid_id i st" "shown st (nat i)" "max_z st < 0xFFFFFFFF"
  shows "\<exists>under. mset (under @ [nat i]) = mset [0..<win_count st]
    \<and> sorted (map (\<lambda>j. z (windows (wm_focus_window i st) ! j)) (under @ [nat i]))
    \<and> wm_render_frame (wm_focus_window i st)
        = concat (map (\<lambda>j. draw_window (windows (wm_focus_window i st) ! j)) (filter (shown st) under))
          @ draw_window (windows (wm_focus_window i st) ! nat i)
    \<and> (\<forall>j < win_count st. focused (windows (wm_focus_window i st) ! j) \<longleftrightarrow> j = nat i)"
proof -
  let ?s = "wm_focus_window i st"
  have i: "0 \<le> i" "nat i < win_count st" using assms(2) by (auto simp: valid_id_def)
  have eff: "z (windows ?s ! j) = (if int j = i then max_z st + 1 else z (windows st ! j))"
    "focused (windows ?s ! j) \<longleftrightarrow> int j = i" "shown ?s j = shown st j" if "j < win_count st" for j
    using focus_window_effect[OF assms(1,2) that] by auto
  have cnt: "win_count ?s = win_count st" using focus_window_effect(4)[OF assms(1,2) i(2)] .
  have below: "z (windows ?s ! j) < z (windows ?s ! nat i)" if "j < win_count st" "j \<noteq> nat i" for j
  proof -
    have "z (windows st ! j) \<le> max_z st" using that assms(1) by (intro max_z_ge) (auto simp: wm_wf_def)
    also have "max_z st < max_z st + 1" 
    proof -
      have "unat (max_z st) < 0xFFFFFFFF" using assms(4) by (simp add: word_less_nat_alt)
      then have "unat (max_z st + 1) = unat (max_z st) + 1" by (intro unat_inc32) simp
      then show ?thesis by (simp add: word_less_nat_alt)
    qed
    finally show ?thesis using eff(1)[OF that(1)] eff(1)[OF i(2)] that i by auto
  qed
  obtain under where under: "render_order ?s = under @ [nat i]"
    using sorted_last_max[OF render_order_sorted(2)[of ?s], of "nat i"] below i cnt by auto
  have perm: "mset (under @ [nat i]) = mset [0..<win_count st]" using render_order_sorted(1)[of ?s] under cnt by simp
  have sub: "\<forall>j \<in> set under. j < win_count st" using set_render_order[of ?s] under cnt by auto
  then have flt: "filter (shown ?s) under = filter (shown st) under" using eff(3) by (auto intro: filter_cong)
  have "wm_render_frame ?s = concat (map (\<lambda>j. draw_window (windows ?s ! j)) (filter (shown ?s) under)) @ draw_window (windows ?s ! nat i)"
    using eff(3)[OF i(2)] assms(3) by (simp add: wm_render_frame_def under concat_map_filter)
  then show ?thesis using perm render_order_sorted(2)[of ?s] under eff(2) i flt
    by (intro exI[of _ under]) auto
qed

text \<open>Two overlapping windows; the lower one gets the focus.\<close>

definition two_windows :: wm where
  "two_windows = \<lparr>windows = zero_window\<lparr>ww := 300, wh := 200, visible := True\<rparr>
       # zero_window\<lparr>win_id := 1, wx := 50, wy := 60, ww := 300, wh := 200, z := 1, visible := True, focused := True\<rparr> # replicate 30 zero_window,
     win_count = 2, focused_id = 1, current_desktop = 0, task_switcher_idx = - 1\<rparr>"

lemma two_windows_ok: "wm_wf two_windows" "valid_id 0 two_windows" "shown two_windows (nat 0)" "max_z two_windows < 0xFFFFFFFF"
proof -
  have "max_z two_windows = 1" by (simp add: two_windows_def max_z_def zero_window_def numeral_2_eq_2)
  then show "max_z two_windows < 0xFFFFFFFF" by simp
qed (simp_all add: two_windows_def wm_wf_def WM_MAX_WINDOWS_def valid_id_def shown_def zero_window_def less_Suc_eq numeral_2_eq_2)

theorem focused_window_on_top_witness:
  "\<exists>front. wm_render_frame (wm_focus_window 0 two_windows) = front @ draw_window (windows (wm_focus_window 0 two_windows) ! 0)
     \<and> \<not> focused (windows (wm_focus_window 0 two_windows) ! 1)"
proof -
  have "win_count two_windows = 2" by (simp add: two_windows_def)
  then show ?thesis using focused_window_on_top[OF two_windows_ok] by fastforce
qed

end
