(* ===== verification/Lxs_Parser.thy ===== *)
theory Lxs_Parser
  imports Lxs_Codegen
begin

text \<open>
  The recursive descent parser of LXScript, \<^verbatim>\<open>lxscript/parser/parser.c\<close>, over the lexer of
  \<open>Lxs_Lexer\<close> and the trees of \<open>Lxs_Codegen\<close>. Tree nodes, list cells and names take space from an
  arena; when it is full the code returns null pointers, which are modelled. A second element after
  a list cell that could not be allocated is stored through a pointer computed from a null pointer:
  the outcome \<open>Crash\<close>. The mutually recursive functions carry fuel, one unit per call or loop round;
  \<open>No_result\<close> means that the fuel did not suffice or that the lexer did not return. An error is its
  message, without the quotes around the expected symbol, and the line.
\<close>

section \<open>State and outcomes\<close>

record parser =
  plex :: lexer
  pcur :: token
  perror :: "(string \<times> nat) option"
  arena_used :: nat
  arena_sz :: nat

datatype 'a pres = Done 'a parser | Crash parser | No_result

type_synonym 'a pm = "parser \<Rightarrow> 'a pres"

definition pret :: "'a \<Rightarrow> 'a pm" where "pret a p = Done a p"

definition pbind :: "'a pm \<Rightarrow> ('a \<Rightarrow> 'b pm) \<Rightarrow> 'b pm" where
  "pbind m f p = (case m p of Done a q \<Rightarrow> f a q | Crash q \<Rightarrow> Crash q | No_result \<Rightarrow> No_result)"

text \<open>The token the parser stands at, and the error flag.\<close>

definition pcurrent :: "token pm" where "pcurrent p = Done (pcur p) p"
definition pfailed :: "bool pm" where "pfailed p = Done (perror p \<noteq> None) p"

section \<open>The arena\<close>

definition AST_NODE_SIZE :: nat where "AST_NODE_SIZE = 72"
definition AST_LIST_SIZE :: nat where "AST_LIST_SIZE = 16"

definition arena_alloc :: "nat \<Rightarrow> bool pm" where
  "arena_alloc sz p =
     (let s = (sz + 7) div 8 * 8
      in if arena_sz p < arena_used p + s then Done False p else Done True (p\<lparr>arena_used := arena_used p + s\<rparr>))"

definition new_node :: "ast \<Rightarrow> ast pm" where
  "new_node n = pbind (arena_alloc AST_NODE_SIZE) (\<lambda>ok. pret (if ok then n else Null))"

text \<open>
  Appending to a list under construction: its elements, and whether the pointer to its end is
  computed from a null pointer.
\<close>

definition append_node :: "ast \<Rightarrow> ast list \<times> bool \<Rightarrow> (ast list \<times> bool) pm" where
  "append_node n l = pbind (arena_alloc AST_LIST_SIZE) (\<lambda>ok p.
     if snd l then Crash p else Done (if ok then (fst l @ [n], False) else (fst l, True)) p)"

section \<open>Tokens\<close>

definition advance :: "source \<Rightarrow> unit pm" where
  "advance src p = (case lexer_next src (plex p) of None \<Rightarrow> No_result | Some (tok, l) \<Rightarrow> Done () (p\<lparr>plex := l, pcur := tok\<rparr>))"

definition check :: "token_type \<Rightarrow> parser \<Rightarrow> bool" where "check t p \<longleftrightarrow> ttype (pcur p) = t"

text \<open>\<^verbatim>\<open>if (match(p, t)) { yes } else { no }\<close>\<close>

definition if_match :: "source \<Rightarrow> token_type \<Rightarrow> 'a pm \<Rightarrow> 'a pm \<Rightarrow> 'a pm" where
  "if_match src t yes no p = (if check t p then pbind (advance src) (\<lambda>_. yes) p else no p)"

definition set_error :: "string \<Rightarrow> nat \<Rightarrow> unit pm" where
  "set_error msg line p = Done () (if perror p = None then p\<lparr>perror := Some (msg, line)\<rparr> else p)"

definition expect :: "source \<Rightarrow> token_type \<Rightarrow> string \<Rightarrow> token pm" where
  "expect src t msg = pbind pcurrent (\<lambda>tok.
     if_match src t (pret tok) (pbind (set_error msg (tline tok)) (\<lambda>_. pret tok)))"

definition token_text :: "source \<Rightarrow> token \<Rightarrow> u8 list" where
  "token_text src tok = map src [tstart tok..<tstart tok + tlen tok]"

section \<open>Expressions and statements\<close>

text \<open>The operators of each precedence level, from \<open>parse_mul\<close> (1) to \<open>parse_or\<close> (6).\<close>

fun level_ops :: "nat \<Rightarrow> token_type list" where
  "level_ops lv =
     (if lv = 1 then [TK_STAR, TK_SLASH, TK_PERCENT] else if lv = 2 then [TK_PLUS, TK_MINUS]
      else if lv = 3 then [TK_LT, TK_GT, TK_LEQ, TK_GEQ] else if lv = 4 then [TK_EQEQ, TK_NEQ]
      else if lv = 5 then [TK_AND] else if lv = 6 then [TK_OR] else [])"

text \<open>
  The functions call each other through the record of all of them at one unit of fuel less.
\<close>

record parsers =
  call_unary :: "ast pm"
  call_primary :: "ast pm"
  call_args :: "ast list \<times> bool \<Rightarrow> (ast list) pm"
  call_level :: "nat \<Rightarrow> ast pm"
  call_loop :: "nat \<Rightarrow> ast \<Rightarrow> ast pm"
  call_assign :: "ast pm"
  call_block :: "ast pm"
  call_stmts :: "ast list \<times> bool \<Rightarrow> (ast list) pm"
  call_stmt :: "ast pm"
  call_params :: "ast list \<times> bool \<Rightarrow> (ast list) pm"

definition parse_args :: "source \<Rightarrow> parsers \<Rightarrow> ast list \<times> bool \<Rightarrow> (ast list) pm" where
  "parse_args src call l = (\<lambda>p.
     if check TK_RPAREN p \<or> check TK_EOF p then Done (fst l) p
     else pbind (call_assign call) (\<lambda>arg.
       if arg = Null then pret (fst l)
       else pbind (append_node arg l) (\<lambda>l1. if_match src TK_COMMA (call_args call l1) (pret (fst l1)))) p)"

definition parse_call :: "source \<Rightarrow> parsers \<Rightarrow> token \<Rightarrow> ast pm" where
  "parse_call src call tok = pbind (arena_alloc AST_NODE_SIZE) (\<lambda>ok.
     if \<not> ok then pret Null
     else pbind (arena_alloc (tlen tok + 1)) (\<lambda>named.
          pbind (call_args call ([], False)) (\<lambda>args.
          pbind (expect src TK_RPAREN ''expected )'') (\<lambda>_.
          pret (Ast_call tok (if named then Some (token_text src tok) else None) args)))))"

definition parse_primary :: "source \<Rightarrow> parsers \<Rightarrow> ast pm" where
  "parse_primary src call = pbind pcurrent (\<lambda>tok.
     if_match src TK_INT (new_node (Ast_int tok (tlit tok))) (
     if_match src TK_FLOAT (new_node (Ast_float tok (tlit tok))) (
     if_match src TK_STRING (new_node (Ast_string tok)) (
     if_match src TK_TRUE (new_node (Ast_bool tok 1)) (
     if_match src TK_FALSE (new_node (Ast_bool tok 0)) (
     if_match src TK_NIL (new_node (Ast_nil tok)) (
     if_match src TK_IDENT (if_match src TK_LPAREN (parse_call src call tok) (new_node (Ast_ident tok))) (
     if_match src TK_LPAREN
       (pbind (call_assign call) (\<lambda>e. pbind (expect src TK_RPAREN ''expected )'') (\<lambda>_. pret e)))
       (pbind (set_error ''unexpected token'' (tline tok)) (\<lambda>_. pbind (advance src) (\<lambda>_. pret Null)))))))))))"

definition parse_unary :: "source \<Rightarrow> parsers \<Rightarrow> ast pm" where
  "parse_unary src call = pbind pcurrent (\<lambda>tok.
     let rest = pbind (arena_alloc AST_NODE_SIZE) (\<lambda>ok.
           if \<not> ok then pret Null else pbind (call_unary call) (\<lambda>e. pret (Ast_unop tok (ttype tok) e)))
     in if_match src TK_NOT rest (if_match src TK_MINUS rest (call_primary call)))"

text \<open>The macro \<^verbatim>\<open>BINOP\<close>: one level of binary operators over the next, with its loop.\<close>

definition parse_level :: "parsers \<Rightarrow> nat \<Rightarrow> ast pm" where
  "parse_level call lv = (if lv = 0 then call_unary call else pbind (call_level call (lv - 1)) (call_loop call lv))"

definition level_loop :: "source \<Rightarrow> parsers \<Rightarrow> nat \<Rightarrow> ast \<Rightarrow> ast pm" where
  "level_loop src call lv l = (\<lambda>p.
     if ttype (pcur p) \<in> set (level_ops lv)
     then pbind pcurrent (\<lambda>opr. pbind (advance src) (\<lambda>_. pbind (call_level call (lv - 1)) (\<lambda>r.
          pbind (new_node (Ast_binop opr (ttype opr) l r)) (call_loop call lv)))) p
     else Done l p)"

definition parse_assign :: "source \<Rightarrow> parsers \<Rightarrow> ast pm" where
  "parse_assign src call = pbind (call_level call 6) (\<lambda>l.
     case l of
       Ast_ident tok \<Rightarrow> pbind pcurrent (\<lambda>opr.
         if_match src TK_EQ
           (pbind (call_assign call) (\<lambda>v. new_node (Ast_assign opr (tstart tok) v)))
           (pret l))
     | _ \<Rightarrow> pret l)"

abbreviation call_expr :: "parsers \<Rightarrow> ast pm" where "call_expr \<equiv> call_assign"

definition parse_params :: "source \<Rightarrow> parsers \<Rightarrow> ast list \<times> bool \<Rightarrow> (ast list) pm" where
  "parse_params src call l = (\<lambda>p.
     if check TK_RPAREN p \<or> check TK_EOF p then Done (fst l) p
     else pbind pcurrent (\<lambda>pn.
       if_match src TK_IDENT
         (pbind (if_match src TK_COLON (advance src) (pret ())) (\<lambda>_.
          pbind (new_node (Ast_ident pn)) (\<lambda>pnode.
          pbind (append_node pnode l) (\<lambda>l1.
          if_match src TK_COMMA (call_params call l1) (pret (fst l1))))))
         (pret (fst l))) p)"

definition parse_block :: "source \<Rightarrow> parsers \<Rightarrow> ast pm" where
  "parse_block src call =
     pbind (expect src TK_LBRACE ''expected {'') (\<lambda>tok.
     pbind (arena_alloc AST_NODE_SIZE) (\<lambda>ok.
     if \<not> ok then pret Null
     else pbind (call_stmts call ([], False)) (\<lambda>stmts.
          pbind (expect src TK_RBRACE ''expected }'') (\<lambda>_. pret (Ast_block tok stmts)))))"

definition block_loop :: "parsers \<Rightarrow> ast list \<times> bool \<Rightarrow> (ast list) pm" where
  "block_loop call l = (\<lambda>p.
     if check TK_RBRACE p \<or> check TK_EOF p then Done (fst l) p
     else pbind (call_stmt call) (\<lambda>s. pbind pfailed (\<lambda>failed.
       if s = Null \<or> failed then pret (fst l)
       else pbind (append_node s l) (call_stmts call))) p)"

definition parse_let :: "source \<Rightarrow> parsers \<Rightarrow> token \<Rightarrow> ast pm" where
  "parse_let src call tok = pbind (arena_alloc AST_NODE_SIZE) (\<lambda>ok.
     if \<not> ok then pret Null
     else pbind (expect src TK_IDENT ''expected identifier'') (\<lambda>nm.
          pbind (if_match src TK_COLON (advance src) (pret ())) (\<lambda>_.
          pbind (expect src TK_EQ ''expected ='') (\<lambda>_.
          pbind (call_expr call) (\<lambda>e.
          pbind (expect src TK_SEMICOLON ''expected ;'') (\<lambda>_. pret (Ast_let tok (tstart nm) e)))))))"

definition parse_fn :: "source \<Rightarrow> parsers \<Rightarrow> token \<Rightarrow> ast pm" where
  "parse_fn src call tok = pbind (arena_alloc AST_NODE_SIZE) (\<lambda>ok.
     if \<not> ok then pret Null
     else pbind (expect src TK_IDENT ''expected function name'') (\<lambda>nm.
          pbind (expect src TK_LPAREN ''expected ('') (\<lambda>_.
          pbind (call_params call ([], False)) (\<lambda>params.
          pbind (expect src TK_RPAREN ''expected )'') (\<lambda>_.
          pbind (if_match src TK_ARROW (advance src) (pret ())) (\<lambda>_.
          pbind (call_block call) (\<lambda>body. pret (Ast_fn tok (tstart nm) params body))))))))"

definition parse_if :: "source \<Rightarrow> parsers \<Rightarrow> token \<Rightarrow> ast pm" where
  "parse_if src call tok = pbind (arena_alloc AST_NODE_SIZE) (\<lambda>ok.
     if \<not> ok then pret Null
     else pbind (call_expr call) (\<lambda>c.
          pbind (call_block call) (\<lambda>t.
          pbind (if_match src TK_ELSE (call_block call) (pret Null)) (\<lambda>e. pret (Ast_if tok c t e)))))"

definition parse_while :: "parsers \<Rightarrow> token \<Rightarrow> ast pm" where
  "parse_while call tok = pbind (arena_alloc AST_NODE_SIZE) (\<lambda>ok.
     if \<not> ok then pret Null
     else pbind (call_expr call) (\<lambda>c. pbind (call_block call) (\<lambda>b. pret (Ast_while tok c b))))"

definition parse_return :: "source \<Rightarrow> parsers \<Rightarrow> token \<Rightarrow> ast pm" where
  "parse_return src call tok = pbind (arena_alloc AST_NODE_SIZE) (\<lambda>ok.
     if \<not> ok then pret Null
     else pbind (\<lambda>p. if check TK_SEMICOLON p then Done Null p else call_expr call p) (\<lambda>e.
          pbind (expect src TK_SEMICOLON ''expected ;'') (\<lambda>_. pret (Ast_return tok e))))"

definition parse_stmt :: "source \<Rightarrow> parsers \<Rightarrow> ast pm" where
  "parse_stmt src call = pbind pcurrent (\<lambda>tok.
     if_match src TK_LET (parse_let src call tok) (
     if_match src TK_FN (parse_fn src call tok) (
     if_match src TK_IF (parse_if src call tok) (
     if_match src TK_WHILE (parse_while call tok) (
     if_match src TK_RETURN (parse_return src call tok)
       (pbind (call_expr call) (\<lambda>e. if_match src TK_SEMICOLON (pret e) (pret e))))))))"

primrec parsers_at :: "source \<Rightarrow> nat \<Rightarrow> parsers" where
  "parsers_at src 0 =
     \<lparr>call_unary = \<lambda>p. No_result, call_primary = \<lambda>p. No_result, call_args = \<lambda>l p. No_result, call_level = \<lambda>lv p. No_result,
      call_loop = \<lambda>lv l p. No_result, call_assign = \<lambda>p. No_result, call_block = \<lambda>p. No_result, call_stmts = \<lambda>l p. No_result,
      call_stmt = \<lambda>p. No_result, call_params = \<lambda>l p. No_result\<rparr>"
| "parsers_at src (Suc k) =
     (let call = parsers_at src k
      in \<lparr>call_unary = parse_unary src call, call_primary = parse_primary src call, call_args = parse_args src call,
          call_level = parse_level call, call_loop = level_loop src call, call_assign = parse_assign src call,
          call_block = parse_block src call, call_stmts = block_loop call, call_stmt = parse_stmt src call,
          call_params = parse_params src call\<rparr>)"

section \<open>Entry points\<close>

definition parser_init :: "source \<Rightarrow> nat \<Rightarrow> unit pres" where
  "parser_init src sz =
     advance src \<lparr>plex = lexer_init, pcur = make_tok TK_EOF 0 0 0 0, perror = None, arena_used = 0, arena_sz = sz\<rparr>"

fun program_loop :: "source \<Rightarrow> nat \<Rightarrow> ast list \<times> bool \<Rightarrow> (ast list) pm" where
  "program_loop src 0 l = (\<lambda>p. No_result)"
| "program_loop src (Suc k) l = (\<lambda>p.
     if check TK_EOF p then Done (fst l) p
     else pbind (parse_stmt src (parsers_at src k)) (\<lambda>s. pbind pfailed (\<lambda>failed.
       if s = Null \<or> failed then pret (fst l)
       else pbind (append_node s l) (program_loop src k))) p)"

definition parse_program :: "source \<Rightarrow> nat \<Rightarrow> ast pm" where
  "parse_program src k = pbind pcurrent (\<lambda>tok. pbind (arena_alloc AST_NODE_SIZE) (\<lambda>ok.
     if \<not> ok then pret Null
     else pbind (program_loop src k ([], False)) (\<lambda>stmts. pret (Ast_block tok stmts))))"

definition parse_source :: "source \<Rightarrow> nat \<Rightarrow> nat \<Rightarrow> ast pres" where
  "parse_source src sz k =
     (case parser_init src sz of Done _ p \<Rightarrow> parse_program src k p | Crash p \<Rightarrow> Crash p | No_result \<Rightarrow> No_result)"

end
