(* ===== verification/Lxs_Parse_Props.thy ===== *)
theory Lxs_Parse_Props
  imports Lxs_Parser
begin

text \<open>
  The parser returns for every terminated source. A part of the parser is \<open>safe\<close> on inputs with at
  most \<open>r\<close> remaining steps when it returns without adding steps, and a strict one uses at least one
  step unless the source is at its end. The composition rules for \<open>safe\<close> follow the shape of the
  code; the fuel needed is 16 units for each remaining step and a rank for each function.
\<close>

section \<open>Progress\<close>

definition steps_left :: "nat \<Rightarrow> parser \<Rightarrow> nat" where
  "steps_left n p = (n - lpos (plex p)) + (if ttype (pcur p) = TK_EOF then 0 else 1)"

definition pwf :: "nat \<Rightarrow> parser \<Rightarrow> bool" where
  "pwf n p \<longleftrightarrow> lpos (plex p) \<le> n \<and> (ttype (pcur p) = TK_EOF \<longrightarrow> lpos (plex p) = n) \<and> arena_used p \<le> arena_sz p"

text \<open>No further list cell fits.\<close>

definition full :: "parser \<Rightarrow> bool" where "full p \<longleftrightarrow> arena_sz p < arena_used p + AST_LIST_SIZE"

definition good :: "nat \<Rightarrow> bool \<Rightarrow> parser \<Rightarrow> 'a pres \<Rightarrow> bool" where
  "good n s p res = (case res of No_result \<Rightarrow> False | Crash q \<Rightarrow> full q \<and> arena_sz q = arena_sz p
     | Done a q \<Rightarrow> pwf n q \<and> steps_left n q \<le> steps_left n p \<and> (s \<longrightarrow> ttype (pcur p) \<noteq> TK_EOF \<longrightarrow> steps_left n q < steps_left n p)
         \<and> arena_used p \<le> arena_used q \<and> arena_sz q = arena_sz p)"

definition safe :: "nat \<Rightarrow> bool \<Rightarrow> bool \<Rightarrow> nat \<Rightarrow> 'a pm \<Rightarrow> bool" where
  "safe n s b r m \<longleftrightarrow> (\<forall>p. pwf n p \<longrightarrow> steps_left n p \<le> r \<longrightarrow> (b \<longrightarrow> full p) \<longrightarrow> good n s p (m p))"

lemma safeI: "(\<And>p. pwf n p \<Longrightarrow> steps_left n p \<le> r \<Longrightarrow> (b \<longrightarrow> full p) \<Longrightarrow> good n s p (m p)) \<Longrightarrow> safe n s b r m"
  by (simp add: safe_def)

lemma safeD: "safe n s b r m \<Longrightarrow> pwf n p \<Longrightarrow> steps_left n p \<le> r \<Longrightarrow> (b \<longrightarrow> full p) \<Longrightarrow> good n s p (m p)"
  by (simp add: safe_def)

lemma good_Done: "good n s p (Done a q) \<longleftrightarrow> pwf n q \<and> steps_left n q \<le> steps_left n p
    \<and> (s \<longrightarrow> ttype (pcur p) \<noteq> TK_EOF \<longrightarrow> steps_left n q < steps_left n p) \<and> arena_used p \<le> arena_used q \<and> arena_sz q = arena_sz p"
  by (simp add: good_def)

lemma good_same [simp]: "pwf n p \<Longrightarrow> good n False p (Done a p)"
  by (simp add: good_Done)

lemma full_mono: "good n s p (Done a q) \<Longrightarrow> full p \<Longrightarrow> full q"
  by (auto simp: good_def full_def)

lemma good_trans: "good n s p (Done a q) \<Longrightarrow> good n False q res \<Longrightarrow> good n s p res"
  by (cases res) (auto simp: good_def)

lemma good_weak: "good n s' p res \<Longrightarrow> (s \<longrightarrow> s') \<Longrightarrow> good n s p res"
  by (cases res) (auto simp: good_def)

text \<open>Weakening.\<close>

lemma safe_weak: "safe n s False r m \<Longrightarrow> (s' \<longrightarrow> s) \<Longrightarrow> r' \<le> r \<Longrightarrow> safe n s' b r' m"
  unfolding safe_def by (blast intro: good_weak order_trans)

lemma safe_weak_s: "safe n s b r m \<Longrightarrow> safe n False b r m"
  unfolding safe_def by (blast intro: good_weak)

section \<open>Rules\<close>

lemma safe_bind:
  assumes "safe n s b r m" "\<And>a. safe n False b r (f a)"
  shows "safe n s b r (pbind m f)"
proof (rule safeI)
  fix p assume p: "pwf n p" "steps_left n p \<le> r" "b \<longrightarrow> full p"
  have g: "good n s p (m p)" by (rule safeD[OF assms(1) p])
  show "good n s p (pbind m f p)"
  proof (cases "m p")
    case (Done a q)
    with g have q: "good n s p (Done a q)" by simp
    then have "good n False q (f a q)" using p full_mono[OF q] by (intro safeD[OF assms(2)]) (auto simp: good_Done)
    then show ?thesis using Done good_trans[OF q] by (simp add: pbind_def)
  qed (use g in \<open>auto simp: pbind_def good_def\<close>)
qed

lemma safe_current: "(\<And>tok. safe n s b r (f tok)) \<Longrightarrow> safe n s b r (pbind pcurrent f)"
  by (simp add: safe_def pbind_def pcurrent_def)

lemma safe_failed: "(\<And>e. safe n s b r (f e)) \<Longrightarrow> safe n s b r (pbind pfailed f)"
  by (simp add: safe_def pbind_def pfailed_def)

lemma safe_pret: "safe n False b r (pret a)"
  by (simp add: safe_def pret_def)

lemma safe_error:
  assumes "safe n s b r (f ())"
  shows "safe n s b r (pbind (set_error msg line) f)"
proof (rule safeI)
  fix p assume p: "pwf n p" "steps_left n p \<le> r" "b \<longrightarrow> full p"
  let ?q = "if perror p = None then p\<lparr>perror := Some (msg, line)\<rparr> else p"
  have eq: "steps_left n ?q = steps_left n p" "pwf n ?q = pwf n p" "full ?q = full p" "pcur ?q = pcur p"
    "arena_used ?q = arena_used p" "arena_sz ?q = arena_sz p"
    by (simp_all add: steps_left_def pwf_def full_def)
  have "good n s ?q (f () ?q)" using p eq by (intro safeD[OF assms]) simp_all
  then show "good n s p (pbind (set_error msg line) f p)"
    unfolding pbind_def set_error_def pres.case good_def eq .
qed

lemma safe_alloc: "safe n False b r (arena_alloc k)"
  by (auto simp: safe_def good_def arena_alloc_def Let_def pwf_def steps_left_def)

lemma safe_new_node: "safe n False b r (new_node a)"
  unfolding new_node_def by (rule safe_bind[OF safe_alloc]) (rule safe_pret)

lemma safe_append:
  assumes "\<And>l'. safe n False (snd l') r (f l')"
  shows "safe n False (snd l) r (pbind (append_node x l) f)"
proof (rule safeI)
  fix p assume p: "pwf n p" "steps_left n p \<le> r" "snd l \<longrightarrow> full p"
  obtain ok q where q: "arena_alloc AST_LIST_SIZE p = Done ok q" by (cases "arena_sz p < arena_used p + (AST_LIST_SIZE + 7) div 8 * 8") (auto simp: arena_alloc_def Let_def)
  have g: "good n False p (Done ok q)" using safeD[OF safe_alloc p, of AST_LIST_SIZE] q by simp
  have nf: "\<not> ok \<Longrightarrow> full q" using q by (auto simp: arena_alloc_def Let_def full_def AST_LIST_SIZE_def split: if_splits)
  show "good n False p (pbind (append_node x l) f p)"
  proof (cases "snd l")
    case True
    then show ?thesis using q full_mono[OF g] p g by (simp add: append_node_def pbind_def good_def)
  next
    case False
    let ?l = "if ok then (fst l @ [x], False) else (fst l, True)"
    have "good n False q (f ?l q)" using g nf p by (intro safeD[OF assms]) (auto simp: good_Done)
    then show ?thesis using q False good_trans[OF g] by (cases ok) (simp_all add: append_node_def pbind_def)
  qed
qed

lemma advance_good:
  assumes "source_ok src n" "pwf n p"
  shows "good n True p (advance src p)"
proof -
  obtain tok l where a: "lexer_next src (plex p) = Some (tok, l)" "lpos l \<le> n" "lpos (plex p) \<le> tstart tok" "tstart tok + tlen tok = lpos l"
    "ttype tok = TK_EOF \<longleftrightarrow> lpos l = n \<and> tlen tok = 0" "ttype tok \<noteq> TK_EOF \<longrightarrow> lpos (plex p) < lpos l"
    using lexer_next_ok[OF assms(1), of "plex p"] assms(2) by (auto simp: pwf_def)
  then have "lpos (plex p) \<le> lpos l" by linarith
  then show ?thesis using a assms(2) by (auto simp: advance_def good_Done pwf_def steps_left_def)
qed

lemma safe_advance: "source_ok src n \<Longrightarrow> safe n True b r (advance src)"
  by (simp add: safe_def advance_good)

lemma steps_left_pos: "ttype (pcur p) \<noteq> TK_EOF \<Longrightarrow> 0 < steps_left n p"
  by (simp add: steps_left_def)

text \<open>After a token is consumed one step less remains.\<close>

lemma good_advance_bind:
  assumes "source_ok src n" "pwf n p" "steps_left n p \<le> r" "b \<longrightarrow> full p" "ttype (pcur p) \<noteq> TK_EOF"
    and "\<And>r'. r = Suc r' \<Longrightarrow> safe n False b r' (f ())"
  shows "good n s p (pbind (advance src) f p)"
proof -
  have g: "good n True p (advance src p)" by (rule advance_good[OF assms(1,2)])
  obtain r' where r: "r = Suc r'" using steps_left_pos[OF assms(5), of n] assms(3) by (cases r) auto
  show ?thesis
  proof (cases "advance src p")
    case (Done u q)
    with g have q: "good n True p (Done u q)" by simp
    then have "good n False q (f () q)" using assms(3-5) r full_mono[OF q] by (intro safeD[OF assms(6)[OF r]]) (auto simp: good_Done)
    then show ?thesis using Done good_weak[OF good_trans[OF q], of _ s] by (simp add: pbind_def)
  qed (use g in \<open>auto simp: pbind_def good_def\<close>)
qed

lemma safe_if_match:
  assumes "source_ok src n" "t \<noteq> TK_EOF" "\<And>r'. r = Suc r' \<Longrightarrow> safe n False b r' yes" "safe n s b r no"
  shows "safe n s b r (if_match src t yes no)"
proof (rule safeI)
  fix p assume p: "pwf n p" "steps_left n p \<le> r" "b \<longrightarrow> full p"
  show "good n s p (if_match src t yes no p)"
    using safeD[OF assms(4) p] good_advance_bind[OF assms(1) p, where f = "\<lambda>_. yes"] assms(2,3)
    by (auto simp: if_match_def check_def)
qed

lemma safe_expect: "source_ok src n \<Longrightarrow> t \<noteq> TK_EOF \<Longrightarrow> safe n False b r (expect src t msg)"
  unfolding expect_def by (intro safe_current safe_if_match safe_error safe_pret)

lemma safe_loop:
  assumes "\<And>p. ttype (pcur p) = TK_EOF \<Longrightarrow> C p" "safe n True b r m" "\<And>r' a. r = Suc r' \<Longrightarrow> safe n False b r' (f a)"
  shows "safe n False b r (\<lambda>p. if C p then Done x p else pbind m f p)"
proof (rule safeI)
  fix p assume p: "pwf n p" "steps_left n p \<le> r" "b \<longrightarrow> full p"
  show "good n False p (if C p then Done x p else pbind m f p)"
  proof (cases "C p")
    case False
    then have ne: "ttype (pcur p) \<noteq> TK_EOF" using assms(1) by blast
    obtain r' where r: "r = Suc r'" using steps_left_pos[OF ne, of n] p(2) by (cases r) auto
    have g: "good n True p (m p)" by (rule safeD[OF assms(2) p])
    show ?thesis
    proof (cases "m p")
      case (Done a q)
      with g have q: "good n True p (Done a q)" by simp
      then have "good n False q (f a q)" using ne p r full_mono[OF q] by (intro safeD[OF assms(3)[OF r]]) (auto simp: good_Done)
      then show ?thesis using Done False good_weak[OF good_trans[OF q]] by (simp add: pbind_def)
    qed (use g False in \<open>auto simp: pbind_def good_def\<close>)
  qed (use p in simp)
qed

lemma safe_pret_if: "safe n False b r m \<Longrightarrow> safe n False b r (if c then pret a else m)"
  by (simp add: safe_pret)

lemma safe_cond: "safe n False b r m \<Longrightarrow> safe n False b r (\<lambda>p. if C p then Done x p else m p)"
  by (simp add: safe_def)

section \<open>The functions\<close>

definition parsers_ok :: "nat \<Rightarrow> nat \<Rightarrow> parsers \<Rightarrow> bool" where
  "parsers_ok n k call \<longleftrightarrow> (\<forall>r.
     (16 * r + 1 \<le> k \<longrightarrow> safe n True False r (call_primary call) \<and> (\<forall>lv l. lv \<le> 6 \<longrightarrow> safe n False False r (call_loop call lv l))
        \<and> (\<forall>l. safe n False (snd l) r (call_params call l)))
   \<and> (16 * r + 2 \<le> k \<longrightarrow> safe n True False r (call_unary call))
   \<and> (\<forall>lv \<le> 6. 16 * r + 3 + lv \<le> k \<longrightarrow> safe n True False r (call_level call lv))
   \<and> (16 * r + 10 \<le> k \<longrightarrow> safe n True False r (call_assign call))
   \<and> (16 * r + 11 \<le> k \<longrightarrow> (\<forall>l. safe n False (snd l) r (call_args call l)))
   \<and> (16 * r + 12 \<le> k \<longrightarrow> safe n True False r (call_stmt call))
   \<and> (16 * r + 13 \<le> k \<longrightarrow> (\<forall>l. safe n False (snd l) r (call_stmts call l)))
   \<and> (16 * r + 14 \<le> k \<longrightarrow> safe n False False r (call_block call)))"

lemma parsers_okD:
  assumes "parsers_ok n k call"
  shows "16 * r + 1 \<le> k \<Longrightarrow> safe n True False r (call_primary call)"
    "16 * r + 1 \<le> k \<Longrightarrow> lv \<le> 6 \<Longrightarrow> safe n False False r (call_loop call lv e)"
    "16 * r + 1 \<le> k \<Longrightarrow> safe n False (snd l) r (call_params call l)"
    "16 * r + 2 \<le> k \<Longrightarrow> safe n True False r (call_unary call)"
    "16 * r + 3 + lv \<le> k \<Longrightarrow> lv \<le> 6 \<Longrightarrow> safe n True False r (call_level call lv)"
    "16 * r + 10 \<le> k \<Longrightarrow> safe n True False r (call_assign call)"
    "16 * r + 11 \<le> k \<Longrightarrow> safe n False (snd l) r (call_args call l)"
    "16 * r + 12 \<le> k \<Longrightarrow> safe n True False r (call_stmt call)"
    "16 * r + 13 \<le> k \<Longrightarrow> safe n False (snd l) r (call_stmts call l)"
    "16 * r + 14 \<le> k \<Longrightarrow> safe n False False r (call_block call)"
  using assms unfolding parsers_ok_def by blast+

lemma safe_ok: "safe n True False r (m :: 'a pm) \<Longrightarrow> safe n s b r m"
  by (rule safe_weak) auto

lemma safe_block_like: "safe n False False r (m :: 'a pm) \<Longrightarrow> safe n False b r m"
  by (rule safe_weak) auto

lemmas safe_parts = safe_current safe_failed safe_pret safe_new_node safe_error

lemma primary_safe:
  assumes ok: "source_ok src n" and calls: "parsers_ok n k call" and k: "16 * r + 1 \<le> Suc k"
  shows "safe n True False r (parse_primary src call)"
proof -
  have args: "safe n False b r' (parse_call src call tok)" if "Suc r' \<le> r" for r' tok b
    unfolding parse_call_def
  proof (rule safe_block_like, rule safe_bind[OF safe_alloc])
    fix a
    have "safe n False False r' (call_args call ([], False))" using parsers_okD(7)[OF calls, of r' "([], False)"] that k by simp
    then show "safe n False False r' (if \<not> a then pret Null else pbind (arena_alloc (tlen tok + 1)) (\<lambda>named.
          pbind (call_args call ([], False)) (\<lambda>args. pbind (expect src TK_RPAREN ''expected )'') (\<lambda>_.
          pret (Ast_call tok (if named then Some (token_text src tok) else None) args)))))"
      using ok by (auto intro!: safe_bind[OF safe_alloc] safe_bind[OF _ safe_bind[OF safe_expect]] safe_pret)
  qed
  have expr: "safe n False b r' (pbind (call_assign call) (\<lambda>e. pbind (expect src TK_RPAREN ''expected )'') (\<lambda>_. pret e)))"
    if "Suc r' \<le> r" for r' b
    using parsers_okD(6)[OF calls, of r'] that k ok
    by (intro safe_bind[OF safe_ok] safe_bind[OF safe_expect] safe_pret) auto
  have ident: "safe n False b r' (if_match src TK_LPAREN (parse_call src call tok) (new_node (Ast_ident tok)))" if "Suc r' \<le> r" for r' b tok
    using ok that args by (intro safe_if_match safe_new_node) auto
  have err: "safe n True False r (pbind (set_error msg line) (\<lambda>_. pbind (advance src) (\<lambda>_. pret Null)))" for msg line
    by (intro safe_error safe_bind[OF safe_advance[OF ok]] safe_pret)
  show ?thesis unfolding parse_primary_def
    by (intro safe_current safe_if_match[OF ok] safe_new_node expr ident err) auto
qed

lemma unary_safe:
  assumes ok: "source_ok src n" and calls: "parsers_ok n k call" and k: "16 * r + 2 \<le> Suc k"
  shows "safe n True False r (parse_unary src call)"
proof -
  have rest: "safe n False b r' (pbind (arena_alloc AST_NODE_SIZE) (\<lambda>a. if \<not> a then pret Null
      else pbind (call_unary call) (\<lambda>e. pret (Ast_unop tok (ttype tok) e))))" if "Suc r' \<le> r" for r' tok b
  proof (rule safe_bind[OF safe_alloc])
    fix a
    have "safe n True False r' (call_unary call)" using parsers_okD(4)[OF calls, of r'] that k by simp
    then show "safe n False b r' (if \<not> a then pret Null else pbind (call_unary call) (\<lambda>e. pret (Ast_unop tok (ttype tok) e)))"
      by (auto intro!: safe_pret safe_bind[OF safe_ok])
  qed
  have "safe n True False r (call_primary call)" using parsers_okD(1)[OF calls, of r] k by simp
  then show ?thesis unfolding parse_unary_def Let_def
    by (intro safe_current safe_if_match[OF ok] rest) auto
qed

lemma level_safe:
  assumes calls: "parsers_ok n k call" and k: "16 * r + 3 + lv \<le> Suc k" and lv: "lv \<le> 6"
  shows "safe n True False r (parse_level call lv)"
proof (cases "lv = 0")
  case True
  then show ?thesis using parsers_okD(4)[OF calls, of r] k by (simp add: parse_level_def)
next
  case False
  have "safe n True False r (call_level call (lv - 1))" using parsers_okD(5)[OF calls, of r "lv - 1"] False k lv by simp
  moreover have "safe n False False r (call_loop call lv l)" for l using parsers_okD(2)[OF calls, of r lv] False k lv by simp
  ultimately show ?thesis using False by (simp add: parse_level_def safe_bind)
qed

lemma loop_safe:
  assumes ok: "source_ok src n" and calls: "parsers_ok n k call" and k: "16 * r + 1 \<le> Suc k" and lv: "lv \<le> 6"
  shows "safe n False False r (level_loop src call lv l)"
proof (rule safeI)
  fix p assume p: "pwf n p" "steps_left n p \<le> r" "False \<longrightarrow> full p"
  let ?f = "\<lambda>u. pbind (call_level call (lv - 1)) (\<lambda>e. pbind (new_node (Ast_binop (pcur p) (ttype (pcur p)) l e)) (call_loop call lv))"
  show "good n False p (level_loop src call lv l p)"
  proof (cases "ttype (pcur p) \<in> set (level_ops lv)")
    case True
    then have "ttype (pcur p) \<noteq> TK_EOF" by (auto split: if_splits)
    moreover have "safe n False False r' (?f ())" if "r = Suc r'" for r'
      using parsers_okD(5)[OF calls, of r' "lv - 1"] parsers_okD(2)[OF calls, of r' lv] that k lv
      by (intro safe_bind[OF safe_ok] safe_bind[OF safe_new_node]) auto
    ultimately have "good n False p (pbind (advance src) ?f p)" using good_advance_bind[OF ok p, of ?f] by blast
    then show ?thesis using True by (simp add: level_loop_def pbind_def pcurrent_def)
  qed (use p in \<open>simp add: level_loop_def\<close>)
qed

lemma assign_safe:
  assumes ok: "source_ok src n" and calls: "parsers_ok n k call" and k: "16 * r + 10 \<le> Suc k"
  shows "safe n True False r (parse_assign src call)"
proof -
  have lev: "safe n True False r (call_level call 6)" using parsers_okD(5)[OF calls, of r 6] k by simp
  have rhs: "safe n False False r' (pbind (call_assign call) (\<lambda>v. new_node (Ast_assign opr t v)))" if "r = Suc r'" for r' opr t
    using parsers_okD(6)[OF calls, of r'] that k by (intro safe_bind[OF safe_ok] safe_new_node) auto
  show ?thesis unfolding parse_assign_def
    by (rule safe_bind[OF lev]) (auto split: ast.split intro!: safe_pret safe_current safe_if_match[OF ok] rhs)
qed

lemma args_safe:
  assumes ok: "source_ok src n" and calls: "parsers_ok n k call" and k: "16 * r + 11 \<le> Suc k"
  shows "safe n False (snd l) r (parse_args src call l)"
proof -
  have tail: "safe n False (snd l1) r1 (if_match src TK_COMMA (call_args call l1) (pret (fst l1)))" if "r = Suc r1" for l1 r1
    by (rule safe_if_match[OF ok _ parsers_okD(7)[OF calls] safe_pret]) (use that k in simp_all)
  have body: "safe n False (snd l) r1 (if arg = Null then pret (fst l)
      else pbind (append_node arg l) (\<lambda>l1. if_match src TK_COMMA (call_args call l1) (pret (fst l1))))" if "r = Suc r1" for arg r1
    by (intro safe_pret_if safe_append tail[OF that])
  have assign: "safe n True (snd l) r (call_assign call)" by (rule safe_ok[OF parsers_okD(6)[OF calls]]) (use k in simp)
  show ?thesis unfolding parse_args_def
  proof (rule safe_loop[OF _ assign])
    fix r1 arg assume "r = Suc r1"
    then show "safe n False (snd l) r1 (if arg = Null then pret (fst l)
      else pbind (append_node arg l) (\<lambda>l1. if_match src TK_COMMA (call_args call l1) (pret (fst l1))))" by (rule body)
  qed (simp add: check_def)
qed

lemma params_safe:
  assumes ok: "source_ok src n" and calls: "parsers_ok n k call" and k: "16 * r + 1 \<le> Suc k"
  shows "safe n False (snd l) r (parse_params src call l)"
proof -
  have tail: "safe n False (snd l1) r1 (if_match src TK_COMMA (call_params call l1) (pret (fst l1)))" if "r = Suc r1" for l1 r1
    by (rule safe_if_match[OF ok _ parsers_okD(3)[OF calls] safe_pret]) (use that k in simp_all)
  have colon: "safe n False b r1 (if_match src TK_COLON (advance src) (pret ()))" for b r1
    by (intro safe_if_match[OF ok] safe_pret safe_weak_s[OF safe_advance[OF ok]]) auto
  have body: "safe n False (snd l) r1 (pbind (if_match src TK_COLON (advance src) (pret ())) (\<lambda>_. pbind (new_node (Ast_ident pn)) (\<lambda>pnode.
      pbind (append_node pnode l) (\<lambda>l1. if_match src TK_COMMA (call_params call l1) (pret (fst l1))))))" if "r = Suc r1" for pn r1
    by (intro safe_bind[OF colon] safe_bind[OF safe_new_node] safe_append tail[OF that])
  show ?thesis unfolding parse_params_def
    by (intro safe_cond safe_current safe_if_match[OF ok] safe_pret body) auto
qed

section \<open>Statements\<close>

lemma opt_advance_safe: "source_ok src n \<Longrightarrow> t \<noteq> TK_EOF \<Longrightarrow> safe n False b r (if_match src t (advance src) (pret ()))"
  by (intro safe_if_match safe_pret safe_weak_s[OF safe_advance]) auto

text \<open>The statements that begin with a keyword, after the keyword.\<close>

lemma keyword_safe:
  assumes ok: "source_ok src n" and calls: "parsers_ok n k call" and k: "16 * r + 16 \<le> k"
  shows "safe n False False r (parse_let src call tok)" "safe n False False r (parse_fn src call tok)"
    "safe n False False r (parse_if src call tok)" "safe n False False r (parse_while call tok)"
    "safe n False False r (parse_return src call tok)"
proof -
  have expr: "safe n False False r (call_assign call)" by (rule safe_ok[OF parsers_okD(6)[OF calls]]) (use k in simp)
  have block: "safe n False False r' (call_block call)" if "r' \<le> r" for r'
    using parsers_okD(10)[OF calls, of r'] that k by simp
  have params: "safe n False False r (call_params call ([], False))" using parsers_okD(3)[OF calls, of r "([], False)"] k by simp
  note exp = safe_bind[OF safe_expect[OF ok]] and adv = safe_bind[OF opt_advance_safe[OF ok]]
  show "safe n False False r (parse_let src call tok)" unfolding parse_let_def
    by (intro safe_bind[OF safe_alloc] safe_pret_if exp adv safe_bind[OF expr] safe_pret) simp_all
  show "safe n False False r (parse_fn src call tok)" unfolding parse_fn_def
    by (intro safe_bind[OF safe_alloc] safe_pret_if exp adv safe_bind[OF params] safe_bind[OF block[OF order_refl]] safe_pret) simp_all
  have els: "safe n False False r (if_match src TK_ELSE (call_block call) (pret Null))"
    by (rule safe_if_match[OF ok _ block safe_pret]) simp_all
  show "safe n False False r (parse_if src call tok)" unfolding parse_if_def
    by (intro safe_bind[OF safe_alloc] safe_pret_if safe_bind[OF expr] safe_bind[OF block[OF order_refl]] safe_bind[OF els] safe_pret)
  show "safe n False False r (parse_while call tok)" unfolding parse_while_def
    by (intro safe_bind[OF safe_alloc] safe_pret_if safe_bind[OF expr] safe_bind[OF block[OF order_refl]] safe_pret)
  have retv: "safe n False False r (\<lambda>p. if check TK_SEMICOLON p then Done Null p else call_assign call p)"
    by (rule safe_cond[OF expr])
  show "safe n False False r (parse_return src call tok)" unfolding parse_return_def
    by (intro safe_bind[OF safe_alloc] safe_pret_if safe_bind[OF retv] exp safe_pret) simp_all
qed

lemma stmt_safe:
  assumes ok: "source_ok src n" and calls: "parsers_ok n k call" and k: "16 * r + 11 \<le> k"
  shows "safe n True False r (parse_stmt src call)"
proof -
  have kw: "safe n False False r' (parse_let src call tok)" "safe n False False r' (parse_fn src call tok)"
    "safe n False False r' (parse_if src call tok)" "safe n False False r' (parse_while call tok)"
    "safe n False False r' (parse_return src call tok)" if "r = Suc r'" for r' tok
    using keyword_safe[OF ok calls, of r' tok] that k by auto
  have expr: "safe n True False r (call_assign call)" using parsers_okD(6)[OF calls, of r] k by simp
  have semi: "safe n False False r (if_match src TK_SEMICOLON (pret e) (pret e))" for e :: ast
    by (intro safe_if_match[OF ok] safe_pret) simp
  show ?thesis unfolding parse_stmt_def
    by (intro safe_current safe_if_match[OF ok] kw safe_bind[OF expr semi]) simp_all
qed

lemma stmts_loop_safe:
  assumes "\<And>p. ttype (pcur p) = TK_EOF \<Longrightarrow> C p" "safe n True False r m" "\<And>r' l. r = Suc r' \<Longrightarrow> safe n False (snd l) r' (next l)"
  shows "safe n False (snd l) r (\<lambda>p. if C p then Done (fst l) p
     else pbind m (\<lambda>s. pbind pfailed (\<lambda>failed. if s = Null \<or> failed then pret (fst l) else pbind (append_node s l) next)) p)"
proof -
  have body: "safe n False (snd l) r' (if s = Null \<or> failed then pret (fst l) else pbind (append_node s l) next)" if "r = Suc r'" for r' s failed
    by (intro safe_pret_if safe_append assms(3)[OF that])
  show ?thesis by (rule safe_loop[OF assms(1) safe_ok[OF assms(2)] safe_failed[OF body]])
qed

lemma block_safe:
  assumes ok: "source_ok src n" and calls: "parsers_ok n k call"
  shows "16 * r + 12 \<le> k \<Longrightarrow> safe n False (snd l) r (block_loop call l)"
    and "16 * r + 13 \<le> k \<Longrightarrow> safe n False False r (parse_block src call)"
proof -
  assume k: "16 * r + 12 \<le> k"
  show "safe n False (snd l) r (block_loop call l)" unfolding block_loop_def
    using parsers_okD(8)[OF calls, of r] parsers_okD(9)[OF calls] k by (intro stmts_loop_safe) (auto simp: check_def)
next
  assume k: "16 * r + 13 \<le> k"
  have stmts: "safe n False False r (call_stmts call ([], False))" using parsers_okD(9)[OF calls, of r "([], False)"] k by simp
  show "safe n False False r (parse_block src call)" unfolding parse_block_def
    by (intro safe_bind[OF safe_expect[OF ok]] safe_bind[OF safe_alloc] safe_pret_if safe_bind[OF stmts] safe_pret) simp_all
qed

section \<open>Enough fuel\<close>

lemma parsers_at_ok:
  assumes ok: "source_ok src n"
  shows "parsers_ok n k (parsers_at src k)"
proof (induction k)
  case 0
  show ?case by (simp add: parsers_ok_def)
next
  case (Suc k)
  show ?case unfolding parsers_ok_def parsers_at.simps Let_def parsers.select_convs
    using primary_safe[OF ok Suc] unary_safe[OF ok Suc] level_safe[OF Suc] loop_safe[OF ok Suc] assign_safe[OF ok Suc] args_safe[OF ok Suc]
      params_safe[OF ok Suc] stmt_safe[OF ok Suc] block_safe[OF ok Suc]
    by (intro allI conjI impI) simp_all
qed

lemma program_loop_safe:
  assumes ok: "source_ok src n"
  shows "16 * r + 13 \<le> k \<Longrightarrow> safe n False (snd l) r (program_loop src k l)"
proof (induction k arbitrary: r l)
  case (Suc k)
  have "safe n True False r (parse_stmt src (parsers_at src k))" using Suc.prems by (intro stmt_safe[OF ok parsers_at_ok[OF ok]]) simp
  then show ?case using Suc unfolding program_loop.simps by (intro stmts_loop_safe) (auto simp: check_def)
qed simp

lemma parse_source_cases:
  assumes "source_ok src n" "16 * n + 32 \<le> fuel"
  shows "(\<exists>tree p. parse_source src sz fuel = Done tree p \<and> arena_used p \<le> sz \<and> lpos (plex p) \<le> n)
     \<or> (\<exists>p. parse_source src sz fuel = Crash p \<and> sz < arena_used p + AST_LIST_SIZE)"
proof -
  let ?p0 = "\<lparr>plex = lexer_init, pcur = make_tok TK_EOF 0 0 0 0, perror = None, arena_used = 0, arena_sz = sz\<rparr>"
  obtain tok l where a: "lexer_next src lexer_init = Some (tok, l)" "lpos l \<le> n" "ttype tok = TK_EOF \<longleftrightarrow> lpos l = n \<and> tlen tok = 0"
    using lexer_next_ok[OF assms(1), of lexer_init] by (auto simp: lexer_init_def)
  define p where "p = ?p0\<lparr>plex := l, pcur := tok\<rparr>"
  have init: "parser_init src sz = Done () p" using a by (simp add: parser_init_def advance_def p_def)
  have p: "pwf n p" "steps_left n p \<le> n + 1" "arena_sz p = sz" using a by (auto simp: p_def pwf_def steps_left_def)
  have loop: "safe n False False (n + 1) (program_loop src fuel ([], False))"
    using program_loop_safe[OF assms(1), of "n + 1" fuel "([], False)"] assms(2) by simp
  have "safe n False False (n + 1) (parse_program src fuel)" unfolding parse_program_def
    by (intro safe_current safe_bind[OF safe_alloc] safe_pret_if safe_bind[OF loop] safe_pret)
  from safeD[OF this p(1,2)] have "good n False p (parse_source src sz fuel)" by (simp add: parse_source_def init)
  then show ?thesis using p(3) by (cases "parse_source src sz fuel") (auto simp: good_def pwf_def full_def)
qed

text \<open>
  C39. With 16 units of fuel for each character of the source and 32 more, the parser returns for
  every terminated source that does not end in a backslash, whatever its text and whatever the size
  of the arena: it reports a tree, possibly with an error or a null node, and has not used more than
  its arena, or it stores through a null list pointer, which happens only when no list cell fits
  into the arena.
\<close>

theorem parse_source_returns:
  assumes "source_ok src n" "16 * n + 32 \<le> fuel"
  shows "(\<exists>tree p. parse_source src sz fuel = Done tree p \<and> arena_used p \<le> sz \<and> lpos (plex p) \<le> n)
     \<or> (\<exists>p. parse_source src sz fuel = Crash p \<and> sz < arena_used p + AST_LIST_SIZE)"
  by (rule parse_source_cases[OF assms])

theorem parse_source_returns_witness:
  "source_ok (\<lambda>i. if i = 0 then 120 else 0) 1 \<and> parse_source (\<lambda>i. if i = 0 then 120 else 0) 131072 48 \<noteq> No_result"
proof -
  have ok: "source_ok (\<lambda>i. if i = 0 then 120 else 0) 1" by (simp add: source_ok_def)
  show ?thesis using parse_source_returns[OF ok, of 48 131072] ok by auto
qed

end
