(* ===== verification/Lxs_Kernel.thy ===== *)
theory Lxs_Kernel
  imports Lxs_Parse_Props Lxs_Run Heap_Props Heap_Frame Klibc_Props Vfs
begin

text \<open>
  Running scripts in the kernel, \<^verbatim>\<open>kernel/lxs_kernel.c\<close>: the parse arena and the virtual machine are
  blocks of the kernel heap; the source is read from memory, parsed, compiled and run, and both blocks are freed.
  The parser's nodes and the machine are the values of \<open>Lxs_Parser\<close> and \<open>Lxs_Vm\<close>; the bytes that represent them
  in the two blocks are an arbitrary argument. Of the arena only the part that the parser handed out is written, and
  every array of the machine lies in its block: an access outside an array is a fault, not a write.
  Log output is left out.
\<close>

section \<open>The pipeline\<close>

definition LXS_ARENA_SIZE :: nat where "LXS_ARENA_SIZE = 128 * 1024"
definition LXS_VM_SIZE :: nat where "LXS_VM_SIZE = 121112"
definition SRC_MAX :: nat where "SRC_MAX = 65536"

definition source_of :: "u8 list \<Rightarrow> source" where "source_of s = (\<lambda>i. if i < length s then s ! i else 0)"

definition kernel_vm :: vm where
  "kernel_vm =
     lxs_register_native (ascii ''tostring'') Native_tostring
       (lxs_register_native (ascii ''println'') Native_println
         (lxs_register_native (ascii ''print'') Native_print lxs_vm_zero))"

text \<open>
  How a script ends: with a result code; with the lexer beyond its text (or the parser out of fuel, which
  \<open>parse_fuel\<close> rules out); with a store through the null list cell of a full arena; with a read through a null name
  or node in the code generator; with a fault of the machine; or never.
\<close>

datatype script_end = Exits int | No_parse | Null_store | Null_read | Traps | Never_ends

definition parse_fuel :: "u8 list \<Rightarrow> nat" where "parse_fuel s = 16 * length s + 32"

definition parse_script :: "u8 list \<Rightarrow> ast pres" where
  "parse_script s = parse_source (source_of s) LXS_ARENA_SIZE (parse_fuel s)"

text \<open>The compiled program, or the end that comes before it.\<close>

definition compile_script :: "u8 list \<Rightarrow> script_end + cg" where
  "compile_script s =
     (case parse_script s of
        No_result \<Rightarrow> Inl No_parse
      | Crash p \<Rightarrow> Inl Null_store
      | Done tree p \<Rightarrow>
          if tree = Null \<or> perror p \<noteq> None then Inl (Exits (- 1))
          else let (r, cg) = cg_emit s tree (cg_init kernel_vm)
               in if cerr cg = Some E_null_name then Inl Null_read
                  else if r \<noteq> 0 then Inl (Exits (- 1)) else Inr (cg_finalise cg))"

definition run_script :: "(sptr \<Rightarrow> u32) \<Rightarrow> u8 list \<Rightarrow> script_end" where
  "run_script loc s =
     (case compile_script s of Inl e \<Rightarrow> e
      | Inr cg \<Rightarrow> (case vm_run loc 0 (cvm cg) of None \<Rightarrow> Never_ends | Some (Ret r vm) \<Rightarrow> Exits r | Some _ \<Rightarrow> Traps))"

text \<open>The bytes of the arena that hold nodes when parsing is over.\<close>

definition arena_use :: "u8 list \<Rightarrow> nat" where
  "arena_use s = (case parse_script s of Done tree p \<Rightarrow> arena_used p | Crash p \<Rightarrow> arena_used p | No_result \<Rightarrow> 0)"

text \<open>The bytes of two areas replaced by others.\<close>

definition overlay :: "addr \<Rightarrow> nat \<Rightarrow> addr \<Rightarrow> nat \<Rightarrow> mem \<Rightarrow> heap \<Rightarrow> heap" where
  "overlay a m b n c hp = hp\<lparr>hmem := (\<lambda>y. if a \<le> y \<and> y < a + m \<or> b \<le> y \<and> y < b + n then c y else hmem hp y)\<rparr>"

definition free_both :: "addr \<Rightarrow> addr \<Rightarrow> heap \<Rightarrow> heap option" where
  "free_both a b hp = (case kfree a hp of None \<Rightarrow> None | Some hp1 \<Rightarrow> kfree b hp1)"

text \<open>
  The source is the text at an address, up to its null byte. The blocks are freed when the script ends with a
  result code; the other ends do not return to the caller, and the heap is then the one they leave behind.
\<close>

definition source_text :: "mem \<Rightarrow> addr \<Rightarrow> u8 list option" where
  "source_text m a = map_option (load_bytes m a) (strlen m a)"

definition exec_source ::
    "(sptr \<Rightarrow> u32) \<Rightarrow> mem \<Rightarrow> u8 list \<Rightarrow> addr \<Rightarrow> addr \<Rightarrow> heap \<Rightarrow> (script_end \<times> heap) option" where
  "exec_source loc c s arena vm hp =
     (let hp1 = overlay arena (arena_use s) vm LXS_VM_SIZE c hp
      in case run_script loc s of Exits r \<Rightarrow> map_option (\<lambda>hp2. (Exits r, hp2)) (free_both vm arena hp1)
         | e \<Rightarrow> Some (e, hp1))"

definition lxs_kernel_exec ::
    "(sptr \<Rightarrow> u32) \<Rightarrow> system_limits \<Rightarrow> mem \<Rightarrow> addr \<Rightarrow> heap \<Rightarrow> (script_end \<times> heap) option" where
  "lxs_kernel_exec loc lim c source hp =
     (if source = 0 \<or> hmem hp source = 0 then Some (Exits 0, hp)
      else case kmalloc lim (of_nat LXS_ARENA_SIZE) hp of None \<Rightarrow> None
      | Some (arena, hp1) \<Rightarrow>
          if arena = 0 then Some (Exits (- 1), hp1)
          else (case kmalloc lim (of_nat LXS_VM_SIZE) hp1 of None \<Rightarrow> None
            | Some (vm, hp2) \<Rightarrow>
                if vm = 0 then map_option (\<lambda>hp3. (Exits (- 1), hp3)) (kfree arena hp2)
                else Option.bind (source_text (hmem hp2) source) (\<lambda>s. exec_source loc c s arena vm hp2)))"

text \<open>
  The read operation of the file system is an argument; it returns its result and the bytes that it stored in the
  buffer. The terminator is stored where the result says.
\<close>

definition lxs_kernel_exec_file ::
    "(sptr \<Rightarrow> u32) \<Rightarrow> system_limits \<Rightarrow> mem \<Rightarrow> ('n \<Rightarrow> ('n, 's) vfs_ops option) \<Rightarrow> 'n option \<Rightarrow> 's \<Rightarrow> heap
       \<Rightarrow> (script_end \<times> heap) option" where
  "lxs_kernel_exec_file loc lim c ops node fs hp =
     (if node = None then Some (Exits (- 1), hp)
      else case kmalloc lim (of_nat SRC_MAX) hp of None \<Rightarrow> None
      | Some (src, hp1) \<Rightarrow>
          if src = 0 then Some (Exits (- 1), hp1)
          else let (len, data) = vfs_read ops node 0 (of_nat (SRC_MAX - 1)) fs;
                   hp2 = hp1\<lparr>hmem := store_bytes (hmem hp1) src data\<rparr>
               in if len \<le> 0 then map_option (\<lambda>hp3. (Exits (- 1), hp3)) (kfree src hp2)
                  else (case lxs_kernel_exec loc lim c src (hp2\<lparr>hmem := (hmem hp2)(src + nat len := 0)\<rparr>) of
                          None \<Rightarrow> None
                        | Some (Exits r, hp3) \<Rightarrow> map_option (\<lambda>hp4. (Exits r, hp4)) (kfree src hp3)
                        | Some (e, hp3) \<Rightarrow> Some (e, hp3)))"

section \<open>How scripts end\<close>

lemma source_of_ok: "0 \<notin> set s \<Longrightarrow> s = [] \<or> last s \<noteq> 92 \<Longrightarrow> source_ok (source_of s) (length s)"
  by (auto simp: source_ok_def source_of_def last_conv_nth in_set_conv_nth)

lemma parse_script_cases:
  assumes "0 \<notin> set s" "s = [] \<or> last s \<noteq> 92"
  obtains tree p where "parse_script s = Done tree p" "arena_used p \<le> LXS_ARENA_SIZE"
  | p where "parse_script s = Crash p" "LXS_ARENA_SIZE < arena_used p + AST_LIST_SIZE"
  using parse_source_cases[OF source_of_ok[OF assms], of "parse_fuel s" LXS_ARENA_SIZE] that
  unfolding parse_script_def parse_fuel_def by auto

text \<open>What has to be the case for the ends other than a result code.\<close>

definition end_explained :: "(sptr \<Rightarrow> u32) \<Rightarrow> u8 list \<Rightarrow> script_end \<Rightarrow> bool" where
  "end_explained loc s e =
     (case e of
        Exits r \<Rightarrow> True
      | No_parse \<Rightarrow> False
      | Null_store \<Rightarrow> \<exists>p. parse_script s = Crash p \<and> LXS_ARENA_SIZE < arena_used p + AST_LIST_SIZE
      | Null_read \<Rightarrow> \<exists>tree p cg. parse_script s = Done tree p \<and> cg_emit s tree (cg_init kernel_vm) = (- 1, cg) \<and> cerr cg = Some E_null_name
      | Traps \<Rightarrow> \<exists>tree p cg. parse_script s = Done tree p \<and> cg_emit s tree (cg_init kernel_vm) = (0, cg)
          \<and> (65535 \<le> cpos cg \<or> (\<exists>vm'. vm_reach loc (cvm (cg_finalise cg)) vm' \<and> div_trap loc vm'))
      | Never_ends \<Rightarrow> \<exists>cg. compile_script s = Inr cg \<and> vm_run loc 0 (cvm cg) = None)"

lemma compile_script_Inr:
  assumes "compile_script s = Inr cg"
  obtains tree p cg0 where "parse_script s = Done tree p" "cg_emit s tree (cg_init kernel_vm) = (0, cg0)" "cg = cg_finalise cg0"
  using assms by (auto simp: compile_script_def Let_def cg_emit_def split: pres.splits if_splits prod.splits)

lemma kernel_vm_sp: "vsp kernel_vm = 0"
  by (simp add: kernel_vm_def lxs_register_native_def lxs_vm_zero_def)

lemma run_script_explained:
  assumes "0 \<notin> set s" "s = [] \<or> last s \<noteq> 92"
  shows "end_explained loc s (run_script loc s)"
proof (cases "compile_script s")
  case (Inl e)
  show ?thesis
  proof (cases rule: parse_script_cases[OF assms])
    case (1 tree p)
    obtain r cg where cg: "cg_emit s tree (cg_init kernel_vm) = (r, cg)" by fastforce
    then have "cerr cg \<noteq> None \<Longrightarrow> r = - 1" by (auto simp: cg_emit_def cg_ok_def Let_def)
    then show ?thesis using 1(1) cg Inl
      by (auto simp: run_script_def compile_script_def end_explained_def split: if_splits)
  next
    case (2 p)
    then show ?thesis by (simp add: run_script_def compile_script_def end_explained_def)
  qed
next
  case (Inr cg)
  then obtain tree p cg0 where p: "parse_script s = Done tree p"
    and cg: "cg_emit s tree (cg_init kernel_vm) = (0, cg0)" "cg = cg_finalise cg0"
    by (rule compile_script_Inr)
  show ?thesis
  proof (cases "vm_run loc 0 (cvm cg)")
    case None
    then show ?thesis using Inr by (simp add: run_script_def end_explained_def)
  next
    case (Some out)
    then consider (ret) r vm where "out = Ret r vm" | (fault) "out = Fault"
      using loop_reach[of loc _ out] unfolding vm_run_def by (cases out) auto
    then show ?thesis
    proof cases
      case ret
      then show ?thesis using Inr Some by (simp add: run_script_def end_explained_def)
    next
      case fault
      have "65535 \<le> cpos cg0 \<or> (\<exists>vm'. vm_reach loc (cvm cg) vm' \<and> div_trap loc vm')"
        using compiled_fault[OF cg(1) _ kernel_vm_sp, of loc] Some fault cg(2) by fastforce
      then show ?thesis using Inr Some fault p cg by (auto simp: run_script_def end_explained_def)
    qed
  qed
qed

lemma arena_use_le: "0 \<notin> set s \<Longrightarrow> s = [] \<or> last s \<noteq> 92 \<Longrightarrow> run_script loc s = Exits r \<Longrightarrow> arena_use s \<le> LXS_ARENA_SIZE"
  by (erule parse_script_cases) (auto simp: arena_use_def run_script_def compile_script_def)

section \<open>The source in memory\<close>

lemma cstr_load: "cstr m a cs \<Longrightarrow> load_bytes m a (length cs) = cs"
proof (induction cs arbitrary: a)
  case (Cons c cs)
  then show ?case using Cons.IH[of "a + 1"] by (simp add: load_bytes_def upt_conv_Cons map_Suc_upt[symmetric] o_def del: upt_Suc)
qed (simp add: load_bytes_def)

lemma source_text_cstr: "cstr m a cs \<Longrightarrow> source_text m a = Some cs"
  by (simp add: source_text_def strlen_cstr cstr_load)

lemma terminated_text:
  "(\<And>i. i < length bs \<Longrightarrow> m (a + i) = bs ! i) \<Longrightarrow> m (a + length bs) = 0 \<Longrightarrow> cstr m a (takeWhile (\<lambda>b. b \<noteq> 0) bs)"
proof (induction bs arbitrary: a)
  case (Cons b bs)
  have "cstr m (a + 1) (takeWhile (\<lambda>b. b \<noteq> 0) bs)"
    by (rule Cons.IH) (use Cons.prems(1)[of "Suc _"] Cons.prems(2) in auto)
  then show ?case using Cons.prems(1)[of 0] by simp
qed simp

lemma stored_text:
  assumes "n \<le> length bs"
  shows "cstr ((store_bytes m a bs)(a + n := 0)) a (takeWhile (\<lambda>b. b \<noteq> 0) (take n bs))"
  by (rule terminated_text) (use assms in \<open>auto simp: store_bytes_def\<close>)

section \<open>Nothing leaks\<close>

text \<open>The contents of the blocks, the bounds of the heap and every byte outside it are as before.\<close>

definition kept :: "owned \<Rightarrow> heap \<Rightarrow> heap \<Rightarrow> bool" where
  "kept ow hp hp' \<longleftrightarrow> same_data hmem hp hp' ow \<and> same_frame hp hp'"

lemma kept_trans: "kept ow hp hp1 \<Longrightarrow> kept ow' hp1 hp2 \<Longrightarrow> ow \<subseteq>\<^sub>m ow' \<Longrightarrow> kept ow hp hp2"
  unfolding kept_def by (elim conjE, rule conjI, erule (2) same_data_trans, erule (1) same_frame_trans)

lemma kept_refl [simp]: "kept ow hp hp" by (simp add: kept_def)

lemma kept_fresh: "kept (ow(p \<mapsto> n)) hp hp1 \<Longrightarrow> ow p = None \<Longrightarrow> kept ow hp hp1"
  by (rule kept_trans[OF kept_refl]) (auto simp: map_le_def)

lemma malloc_kept:
  assumes "heap_inv hp ow" "n \<le> 2 ^ 31"
  obtains hp' where "kmalloc lim (of_nat n) hp = Some (0, hp')" "heap_inv hp' ow" "kept ow hp hp'"
  | p hp' where "kmalloc lim (of_nat n) hp = Some (p, hp')" "p \<noteq> 0" "ow p = None" "heap_inv hp' (ow(p \<mapsto> n))" "kept ow hp hp'"
  by (cases rule: malloc_cases[OF assms, of lim]) (use kmalloc_frame[OF assms, of lim] that in \<open>auto simp: kept_def\<close>)

lemma free_kept:
  assumes "heap_inv hp (ow(p \<mapsto> n))" "ow p = None"
  obtains hp' where "kfree p hp = Some hp'" "heap_inv hp' ow" "kept ow hp hp'"
  by (rule free_last[OF assms]) (use kfree_frame[OF assms(1), of p n] that in \<open>auto simp: kept_def\<close>)

lemma write_kept:
  assumes "heap_inv hp ow" "ow p = Some n" "\<And>y. y < p \<or> p + n \<le> y \<Longrightarrow> m y = hmem hp y"
  shows "heap_inv (hp\<lparr>hmem := m\<rparr>) ow \<and> kept (ow(p := None)) hp (hp\<lparr>hmem := m\<rparr>)"
proof -
  have "m y = hmem hp y" if "q \<noteq> p" "ow q = Some k" "q \<le> y" "y < q + k" for q k y
    using heap_inv_disjoint[OF assms(1) that(2) assms(2) that(1)] that(3,4) by (intro assms(3)) auto
  then show ?thesis using heap_inv_write[OF assms] same_frame_write[OF assms] by (auto simp: kept_def same_data_def)
qed

lemma write_fresh:
  assumes "heap_inv hp (ow(p \<mapsto> n))" "ow p = None" "\<And>y. y < p \<or> p + n \<le> y \<Longrightarrow> m y = hmem hp y"
  shows "heap_inv (hp\<lparr>hmem := m\<rparr>) (ow(p \<mapsto> n)) \<and> kept ow hp (hp\<lparr>hmem := m\<rparr>)"
proof -
  have "(ow(p \<mapsto> n))(p := None) = ow" using assms(2) by (auto simp: fun_eq_iff)
  then show ?thesis using write_kept[OF assms(1) _ assms(3), of p n] by simp
qed

lemma overlay_kept:
  assumes inv: "heap_inv hp (ow(a \<mapsto> m, b \<mapsto> n))" and fresh: "ow a = None" "(ow(a \<mapsto> m)) b = None" and "k \<le> m"
  shows "heap_inv (overlay a k b n c hp) (ow(a \<mapsto> m, b \<mapsto> n)) \<and> kept ow hp (overlay a k b n c hp)"
proof -
  let ?ow = "ow(a \<mapsto> m, b \<mapsto> n)" and ?m1 = "\<lambda>y. if a \<le> y \<and> y < a + k then c y else hmem hp y"
  let ?m2 = "\<lambda>y. if a \<le> y \<and> y < a + k \<or> b \<le> y \<and> y < b + n then c y else hmem hp y"
  have ne: "a \<noteq> b" using fresh(2) by auto
  have 1: "heap_inv (hp\<lparr>hmem := ?m1\<rparr>) ?ow \<and> kept (?ow(a := None)) hp (hp\<lparr>hmem := ?m1\<rparr>)"
    by (rule write_kept[OF inv, of a m]) (use ne \<open>k \<le> m\<close> in auto)
  then have 2: "heap_inv (hp\<lparr>hmem := ?m1, hmem := ?m2\<rparr>) ?ow \<and> kept (?ow(b := None)) (hp\<lparr>hmem := ?m1\<rparr>) (hp\<lparr>hmem := ?m1, hmem := ?m2\<rparr>)"
    by (intro write_kept[of _ _ b n]) auto
  have "ow \<subseteq>\<^sub>m ?ow(a := None)" "ow \<subseteq>\<^sub>m ?ow(b := None)" using fresh ne by (auto simp: map_le_def)
  then have "kept ow hp (hp\<lparr>hmem := ?m1, hmem := ?m2\<rparr>)"
    using kept_trans[OF kept_trans[OF kept_refl conjunct2[OF 1]] conjunct2[OF 2]] by blast
  then show ?thesis using 2 by (simp add: overlay_def)
qed

text \<open>An end among the expected ones, and the heap as it was when the call returns.\<close>

definition returns_kept :: "script_end set \<Rightarrow> owned \<Rightarrow> heap \<Rightarrow> (script_end \<times> heap) option \<Rightarrow> bool" where
  "returns_kept ends ow hp res \<longleftrightarrow>
     (\<exists>e hp'. res = Some (e, hp') \<and> e \<in> ends \<and> ((\<exists>r. e = Exits r) \<longrightarrow> heap_inv hp' ow \<and> kept ow hp hp'))"

lemma returns_keptI:
  "res = Some (e, hp') \<Longrightarrow> e \<in> ends \<Longrightarrow> heap_inv hp' ow \<Longrightarrow> kept ow hp hp' \<Longrightarrow> returns_kept ends ow hp res"
  by (auto simp: returns_kept_def)

lemma exec_source_kept:
  assumes inv: "heap_inv hp (ow(a \<mapsto> LXS_ARENA_SIZE, b \<mapsto> LXS_VM_SIZE))" and fresh: "ow a = None" "(ow(a \<mapsto> LXS_ARENA_SIZE)) b = None"
    and use: "\<And>r. run_script loc s = Exits r \<Longrightarrow> arena_use s \<le> LXS_ARENA_SIZE"
  shows "returns_kept {run_script loc s} ow hp (exec_source loc c s a b hp)"
proof (cases "\<exists>r. run_script loc s = Exits r")
  case True
  then obtain r where r: "run_script loc s = Exits r" by blast
  let ?hp = "overlay a (arena_use s) b LXS_VM_SIZE c hp"
  have o: "heap_inv ?hp (ow(a \<mapsto> LXS_ARENA_SIZE, b \<mapsto> LXS_VM_SIZE))" "kept ow hp ?hp"
    using overlay_kept[OF inv fresh use[OF r], of c] by auto
  from free_kept[OF o(1) fresh(2)] obtain hp1 where 1: "kfree b ?hp = Some hp1" "heap_inv hp1 (ow(a \<mapsto> LXS_ARENA_SIZE))" "kept (ow(a \<mapsto> LXS_ARENA_SIZE)) ?hp hp1" .
  from free_kept[OF 1(2) fresh(1)] obtain hp2 where 2: "kfree a hp1 = Some hp2" "heap_inv hp2 ow" "kept ow hp1 hp2" .
  have "kept ow hp hp2" using kept_trans[OF kept_trans[OF o(2) kept_fresh[OF 1(3) fresh(1)]] 2(3)] by simp
  then show ?thesis using r 1 2 by (intro returns_keptI[of _ "Exits r" hp2]) (auto simp: exec_source_def free_both_def Let_def)
next
  case False
  then show ?thesis by (cases "run_script loc s") (auto simp: exec_source_def returns_kept_def Let_def)
qed

lemma exec_kept:
  assumes inv: "heap_inv hp ow" and src: "ow a = Some n" "cstr (hmem hp) a s" "length s < n"
    and use: "\<And>r. run_script loc s = Exits r \<Longrightarrow> arena_use s \<le> LXS_ARENA_SIZE"
  shows "returns_kept {Exits 0, Exits (- 1), run_script loc s} ow hp (lxs_kernel_exec loc lim c a hp)"
proof (cases "hmem hp a = 0")
  case True
  then show ?thesis using inv by (intro returns_keptI[of _ "Exits 0" hp]) (auto simp: lxs_kernel_exec_def)
next
  case False
  have a0: "a \<noteq> 0" using heap_inv_bounds[OF inv src(1)] by simp
  have sz: "LXS_ARENA_SIZE \<le> 2 ^ 31" "LXS_VM_SIZE \<le> 2 ^ 31" by (simp_all add: LXS_ARENA_SIZE_def LXS_VM_SIZE_def)
  show ?thesis
  proof (cases rule: malloc_kept[OF inv sz(1), of lim])
    case (1 hp1)
    then show ?thesis using False a0 by (intro returns_keptI[of _ "Exits (- 1)" hp1]) (auto simp: lxs_kernel_exec_def)
  next
    case (2 ar hp1)
    let ?ow1 = "ow(ar \<mapsto> LXS_ARENA_SIZE)"
    show ?thesis
    proof (cases rule: malloc_kept[OF 2(4) sz(2), of lim])
      case vm0: (1 hp2)
      from free_kept[OF vm0(2) 2(3)] obtain hp3 where f: "kfree ar hp2 = Some hp3" "heap_inv hp3 ow" "kept ow hp2 hp3" .
      have "kept ow hp hp3" using kept_trans[OF kept_trans[OF 2(5) kept_fresh[OF vm0(3) 2(3)]] f(3)] by simp
      then show ?thesis using False a0 2 vm0 f by (intro returns_keptI[of _ "Exits (- 1)" hp3]) (auto simp: lxs_kernel_exec_def)
    next
      case vm: (2 b hp2)
      have k: "kept ow hp hp2" using kept_trans[OF 2(5) kept_fresh[OF vm(5) 2(3)]] by simp
      then have same: "hmem hp2 x = hmem hp x" if "a \<le> x" "x \<le> a + length s" for x
        using src(1,3) that unfolding kept_def same_data_def by (elim conjE allE[of _ a] allE[of _ n] allE[of _ x]) auto
      have "cstr (hmem hp2) a s = cstr (hmem hp) a s" by (rule cstr_cong) (rule same)
      then have "source_text (hmem hp2) a = Some s" using src(2) by (simp add: source_text_cstr)
      then have eq: "lxs_kernel_exec loc lim c a hp = exec_source loc c s ar b hp2"
        using False a0 2 vm by (simp add: lxs_kernel_exec_def)
      have "returns_kept {run_script loc s} ow hp2 (exec_source loc c s ar b hp2)"
        by (rule exec_source_kept[OF vm(4) 2(3) vm(3) use])
      then show ?thesis unfolding eq using kept_trans[OF k] by (fastforce simp: returns_kept_def)
    qed
  qed
qed

lemma exec_file_kept:
  assumes inv: "heap_inv hp ow" and rd: "vfs_read ops node 0 65535 fs = (len, data)"
    and "length data \<le> 65535" "len \<le> int (length data)" and s: "s = takeWhile (\<lambda>b. b \<noteq> 0) (take (nat len) data)"
    and use: "\<And>r. run_script loc s = Exits r \<Longrightarrow> arena_use s \<le> LXS_ARENA_SIZE"
  shows "returns_kept {Exits 0, Exits (- 1), run_script loc s} ow hp (lxs_kernel_exec_file loc lim c ops node fs hp)"
proof (cases "node = None")
  case True
  then show ?thesis using inv by (intro returns_keptI[of _ "Exits (- 1)" hp]) (auto simp: lxs_kernel_exec_file_def)
next
  case False
  have sz: "SRC_MAX \<le> 2 ^ 31" by (simp add: SRC_MAX_def)
  show ?thesis
  proof (cases rule: malloc_kept[OF inv sz, of lim])
    case (1 hp1)
    then show ?thesis using False by (intro returns_keptI[of _ "Exits (- 1)" hp1]) (auto simp: lxs_kernel_exec_file_def)
  next
    case (2 a hp1)
    let ?ow1 = "ow(a \<mapsto> SRC_MAX)" and ?hp2 = "hp1\<lparr>hmem := store_bytes (hmem hp1) a data\<rparr>"
    let ?hp3 = "hp1\<lparr>hmem := (store_bytes (hmem hp1) a data)(a + nat len := 0)\<rparr>"
    have "heap_inv ?hp2 ?ow1 \<and> kept ow hp1 ?hp2"
      by (rule write_fresh[OF 2(4,3)]) (use assms(3) in \<open>auto simp: store_bytes_def SRC_MAX_def\<close>)
    then have w2: "heap_inv ?hp2 ?ow1" "kept ow hp1 ?hp2" by blast+
    have eq: "lxs_kernel_exec_file loc lim c ops node fs hp =
       (if len \<le> 0 then map_option (\<lambda>hp3. (Exits (- 1), hp3)) (kfree a ?hp2)
        else (case lxs_kernel_exec loc lim c a ?hp3 of None \<Rightarrow> None
              | Some (Exits r, hp3) \<Rightarrow> map_option (\<lambda>hp4. (Exits r, hp4)) (kfree a hp3) | Some (e, hp3) \<Rightarrow> Some (e, hp3)))"
      using False 2(1,2) rd by (auto simp: lxs_kernel_exec_file_def SRC_MAX_def)
    show ?thesis
    proof (cases "len \<le> 0")
      case True
      from free_kept[OF w2(1) 2(3)] obtain hp3 where f: "kfree a ?hp2 = Some hp3" "heap_inv hp3 ow" "kept ow ?hp2 hp3" .
      have "kept ow hp hp3" using kept_trans[OF kept_trans[OF 2(5) w2(2)] f(3)] by simp
      then show ?thesis using True f eq by (intro returns_keptI[of _ "Exits (- 1)" hp3]) auto
    next
      case some: False
      have "heap_inv ?hp3 ?ow1 \<and> kept ow hp1 ?hp3"
        by (rule write_fresh[OF 2(4,3)]) (use assms(3,4) some in \<open>auto simp: store_bytes_def SRC_MAX_def\<close>)
      then have w3: "heap_inv ?hp3 ?ow1" "kept ow hp1 ?hp3" by blast+
      have t: "cstr (hmem ?hp3) a s" using stored_text[of "nat len" data "hmem hp1" a] assms(4) s some by simp
      have l: "length s < SRC_MAX" using length_takeWhile_le[of "\<lambda>b. b \<noteq> 0" "take (nat len) data"] assms(3) s by (simp add: SRC_MAX_def)
      have "returns_kept {Exits 0, Exits (- 1), run_script loc s} ?ow1 ?hp3 (lxs_kernel_exec loc lim c a ?hp3)"
        by (rule exec_kept[OF w3(1) _ t l use]) simp_all
      then obtain e hp4 where e: "lxs_kernel_exec loc lim c a ?hp3 = Some (e, hp4)" "e \<in> {Exits 0, Exits (- 1), run_script loc s}"
          "\<And>r. e = Exits r \<Longrightarrow> heap_inv hp4 ?ow1 \<and> kept ?ow1 ?hp3 hp4" unfolding returns_kept_def by blast
      show ?thesis
      proof (cases "\<exists>r. e = Exits r")
        case True
        then obtain r where r: "e = Exits r" by blast
        from free_kept[OF conjunct1[OF e(3)[OF r]] 2(3)] obtain hp5 where f: "kfree a hp4 = Some hp5" "heap_inv hp5 ow" "kept ow hp4 hp5" .
        have "kept ow ?hp3 hp4" using kept_fresh e(3)[OF r] 2(3) by blast
        then have "kept ow hp hp5" using kept_trans[OF kept_trans[OF kept_trans[OF 2(5) w3(2)]] f(3)] by simp
        then show ?thesis using some eq e(1,2) r f by (intro returns_keptI[of _ "Exits r" hp5]) auto
      next
        case no: False
        then have "lxs_kernel_exec_file loc lim c ops node fs hp = Some (e, hp4)" using some eq e(1) by (cases e) auto
        then show ?thesis using no e(2) by (auto simp: returns_kept_def)
      qed
    qed
  qed
qed


section \<open>A script with an error\<close>

text \<open>A file that holds a semicolon: the parser reports an error at the first token.\<close>

definition semi_before :: "nat \<Rightarrow> parser" where
  "semi_before used = \<lparr>plex = \<lparr>lpos = 1, lline = 1, lcol = 2\<rparr>, pcur = make_tok TK_SEMICOLON 0 1 1 1, perror = None,
     arena_used = used, arena_sz = LXS_ARENA_SIZE\<rparr>"

definition semi_after :: "nat \<Rightarrow> parser" where
  "semi_after used = \<lparr>plex = \<lparr>lpos = 1, lline = 1, lcol = 2\<rparr>, pcur = make_tok TK_EOF 1 0 1 2, perror = Some (''unexpected token'', 1),
     arena_used = used, arena_sz = LXS_ARENA_SIZE\<rparr>"

lemma semi_source [simp]: "source_of [59] 0 = 59" "source_of [59] (Suc k) = 0"
  by (simp_all add: source_of_def)

lemma semi_lex:
  "lexer_next (source_of [59]) lexer_init = Some (make_tok TK_SEMICOLON 0 1 1 1, \<lparr>lpos = 1, lline = 1, lcol = 2\<rparr>)"
  "lexer_next (source_of [59]) \<lparr>lpos = 1, lline = 1, lcol = 2\<rparr> = Some (make_tok TK_EOF 1 0 1 2, \<lparr>lpos = 1, lline = 1, lcol = 2\<rparr>)"
proof -
  have ws: "skip_ws (source_of [59]) l = Some l" if "lpos l = 0 \<or> lpos l = 1" for l
    using that by (subst skip_ws.simps, subst scan.simps) (auto simp: peek_c_def isspace_def)
  show "lexer_next (source_of [59]) lexer_init = Some (make_tok TK_SEMICOLON 0 1 1 1, \<lparr>lpos = 1, lline = 1, lcol = 2\<rparr>)"
    by (simp add: lexer_next_def ws lexer_init_def peek_c_def isalpha_def isdigit_def punct_def adv_def make_tok_def Let_def)
  show "lexer_next (source_of [59]) \<lparr>lpos = 1, lline = 1, lcol = 2\<rparr> = Some (make_tok TK_EOF 1 0 1 2, \<lparr>lpos = 1, lline = 1, lcol = 2\<rparr>)"
    by (simp add: lexer_next_def ws peek_c_def)
qed

lemmas parse_eval = pbind_def pcurrent_def pret_def if_match_def check_def set_error_def advance_def pfailed_def make_tok_def

lemma semi_primary: "call_primary (parsers_at (source_of [59]) (Suc k)) (semi_before u) = Done Null (semi_after u)"
  using semi_lex(2) by (simp add: parse_primary_def parse_eval semi_before_def semi_after_def Let_def)

lemma semi_unary: "call_unary (parsers_at (source_of [59]) (Suc (Suc k))) (semi_before u) = Done Null (semi_after u)"
proof -
  have "parse_unary src call (semi_before u) = call_primary call (semi_before u)" for src call
    by (simp add: parse_unary_def parse_eval semi_before_def Let_def)
  then show ?thesis using semi_primary[of k u] by (simp del: parsers_at.simps add: parsers_at.simps(2)[of _ "Suc k"] Let_def)
qed

lemma semi_loop: "call_loop (parsers_at (source_of [59]) (Suc k)) lv e (semi_after u) = Done e (semi_after u)"
  by (simp add: level_loop_def semi_after_def make_tok_def Let_def)

lemma semi_level: "call_level (parsers_at (source_of [59]) (Suc (Suc (Suc (k + lv))))) lv (semi_before u) = Done Null (semi_after u)"
proof (induction lv)
  case 0
  show ?case using semi_unary[of k u] by (simp del: parsers_at.simps add: parsers_at.simps(2)[of _ "Suc (Suc k)"] parse_level_def Let_def)
next
  case (Suc lv)
  then show ?case using semi_loop[of "Suc (Suc (k + lv))" "Suc lv" Null u]
    by (simp del: parsers_at.simps add: parsers_at.simps(2)[of _ "Suc (Suc (Suc (k + lv)))"] parse_level_def pbind_def Let_def)
qed

lemma semi_assign: "call_assign (parsers_at (source_of [59]) (Suc (k + 9))) (semi_before u) = Done Null (semi_after u)"
proof -
  have "parse_assign (source_of [59]) (parsers_at (source_of [59]) (k + 9)) (semi_before u) = Done Null (semi_after u)"
    using semi_level[of k 6 u] by (simp del: parsers_at.simps add: parse_assign_def pbind_def pret_def eval_nat_numeral)
  then show ?thesis by (simp only: parsers_at.simps Let_def parsers.select_convs)
qed

lemma semi_stmt: "parse_stmt (source_of [59]) (parsers_at (source_of [59]) (Suc (k + 9))) (semi_before u) = Done Null (semi_after u)"
proof -
  have "parse_stmt src call (semi_before u) = pbind (call_assign call) (\<lambda>e. if_match src TK_SEMICOLON (pret e) (pret e)) (semi_before u)" for src call
    by (simp add: parse_stmt_def if_match_def pbind_def pcurrent_def check_def semi_before_def make_tok_def)
  moreover have "if_match src TK_SEMICOLON (pret e) (pret e) (semi_after u) = Done e (semi_after u)" for src and e :: ast
    by (simp add: if_match_def check_def semi_after_def make_tok_def pret_def)
  ultimately show ?thesis using semi_assign[of k u] by (simp del: parsers_at.simps add: pbind_def)
qed

lemma semi_program: "program_loop (source_of [59]) (Suc (Suc (k + 9))) ([], False) (semi_before u) = Done [] (semi_after u)"
proof -
  have "\<not> check TK_EOF (semi_before u)" by (simp add: check_def semi_before_def make_tok_def)
  then show ?thesis using semi_stmt[of k u]
    by (simp only: program_loop.simps pbind_def pfailed_def pret_def pres.case if_False if_True simp_thms fst_conv)
qed

lemma semicolon_script: "run_script loc [59] = Exits (- 1)"
proof -
  have "parser_init (source_of [59]) LXS_ARENA_SIZE = Done () (semi_before 0)"
    by (simp add: parser_init_def advance_def semi_lex(1)[simplified] semi_before_def)
  moreover have "arena_alloc AST_NODE_SIZE (semi_before 0) = Done True (semi_before 72)"
    by (simp add: arena_alloc_def AST_NODE_SIZE_def semi_before_def LXS_ARENA_SIZE_def)
  ultimately have "\<exists>tok. parse_source (source_of [59]) LXS_ARENA_SIZE (Suc (Suc (k + 9))) = Done (Ast_block tok []) (semi_after 72)" for k
    using semi_program[of k 72] by (simp del: program_loop.simps add: parse_source_def parse_program_def pbind_def pcurrent_def pret_def)
  from this[of 37] show ?thesis
    by (auto simp: run_script_def compile_script_def parse_script_def parse_fuel_def semi_after_def)
qed

definition semi_file :: "unit \<Rightarrow> (unit, unit) vfs_ops option" where
  "semi_file n = Some \<lparr>op_read = Some (\<lambda>_ _ _ _. (1, [59])), op_write = None, op_readdir = None, op_finddir = None\<rparr>"


end
