(* ===== verification/Services.thy ===== *)
theory Services
  imports Sched_Inv
begin

text \<open>
  Background services: the rings of the notification daemon (\<^verbatim>\<open>services/notification_daemon.c\<close>) and of
  the log writer (\<^verbatim>\<open>kernel/klog.c\<close>), the service table (\<^verbatim>\<open>services/service_manager.c\<close>) and the
  application registry (\<^verbatim>\<open>kernel/appman/appman.c\<close>), over the scheduler and the input router. The entry
  points of services are the addresses of functions, an argument. Drawing, logging and the writing of
  log files are left out.
\<close>

section \<open>A ring of a fixed size\<close>

text \<open>Both rings have this shape; one place stays empty.\<close>

record 'a ring =
  slots :: "nat \<Rightarrow> 'a"
  rhead :: nat
  rtail :: nat

definition ring_put :: "nat \<Rightarrow> 'a \<Rightarrow> 'a ring \<Rightarrow> 'a ring" where
  "ring_put n x r =
     (let nxt = (rtail r + 1) mod n
      in if nxt = rhead r then r else r\<lparr>slots := (slots r)(rtail r := x), rtail := nxt\<rparr>)"

definition ring_get :: "nat \<Rightarrow> 'a ring \<Rightarrow> 'a option \<times> 'a ring" where
  "ring_get n r = (if rhead r = rtail r then (None, r) else (Some (slots r (rhead r)), r\<lparr>rhead := (rhead r + 1) mod n\<rparr>))"

definition ring_ok :: "nat \<Rightarrow> 'a ring \<Rightarrow> bool" where
  "ring_ok n r \<longleftrightarrow> rhead r < n \<and> rtail r < n"

definition ring_count :: "nat \<Rightarrow> 'a ring \<Rightarrow> nat" where
  "ring_count n r = (if rhead r \<le> rtail r then rtail r - rhead r else rtail r + n - rhead r)"

definition ring_at :: "nat \<Rightarrow> 'a ring \<Rightarrow> nat \<Rightarrow> nat" where
  "ring_at n r k = (if rhead r + k < n then rhead r + k else rhead r + k - n)"

definition ring_list :: "nat \<Rightarrow> 'a ring \<Rightarrow> 'a list" where
  "ring_list n r = map (\<lambda>k. slots r (ring_at n r k)) [0..<ring_count n r]"

lemma mod_next: "i < n \<Longrightarrow> Suc i mod n = (if Suc i = n then 0 else Suc i)" for i :: nat
  by simp

lemma ring_put_list:
  assumes "ring_ok n r"
  shows "ring_ok n (ring_put n x r)"
    and "ring_list n (ring_put n x r) = (if length (ring_list n r) < n - 1 then ring_list n r @ [x] else ring_list n r)"
proof -
  have b: "rhead r < n" "rtail r < n" using assms by (auto simp: ring_ok_def)
  show "ring_ok n (ring_put n x r)" using b by (auto simp: ring_put_def ring_ok_def Let_def)
  show "ring_list n (ring_put n x r) = (if length (ring_list n r) < n - 1 then ring_list n r @ [x] else ring_list n r)"
  proof (cases "(rtail r + 1) mod n = rhead r")
    case True
    then have "\<not> ring_count n r < n - 1" using b by (auto simp: ring_count_def mod_next split: if_splits)
    then show ?thesis using True by (simp add: ring_put_def Let_def ring_list_def)
  next
    case False
    let ?r = "r\<lparr>slots := (slots r)(rtail r := x), rtail := (rtail r + 1) mod n\<rparr>"
    have cnt: "ring_count n ?r = ring_count n r + 1" "ring_count n r < n - 1"
      using False b by (auto simp: ring_count_def mod_next split: if_splits)
    have at_end: "ring_at n r (ring_count n r) = rtail r" using b by (auto simp: ring_at_def ring_count_def)
    have other: "ring_at n r k \<noteq> rtail r" if "k < ring_count n r" for k
      using that b by (auto simp: ring_at_def ring_count_def split: if_splits)
    have pos: "ring_at n ?r k = ring_at n r k" for k by (simp add: ring_at_def)
    have "ring_list n ?r = map (\<lambda>k. slots ?r (ring_at n r k)) ([0..<ring_count n r] @ [ring_count n r])"
      unfolding ring_list_def cnt(1) pos by simp
    also have "\<dots> = ring_list n r @ [x]" using other at_end by (simp add: ring_list_def)
    finally have "ring_list n (ring_put n x r) = ring_list n r @ [x]" using False by (simp add: ring_put_def Let_def)
    then show ?thesis using cnt(2) by (simp add: ring_list_def)
  qed
qed

lemma ring_get_list:
  assumes "ring_ok n r"
  shows "ring_ok n (snd (ring_get n r))"
    and "ring_list n r = [] \<Longrightarrow> ring_get n r = (None, r)"
    and "ring_list n r = x # xs \<Longrightarrow> fst (ring_get n r) = Some x \<and> ring_list n (snd (ring_get n r)) = xs"
proof -
  have b: "rhead r < n" "rtail r < n" using assms by (auto simp: ring_ok_def)
  show "ring_ok n (snd (ring_get n r))" using b by (auto simp: ring_get_def ring_ok_def)
  show "ring_list n r = [] \<Longrightarrow> ring_get n r = (None, r)"
    using b by (auto simp: ring_get_def ring_list_def ring_count_def split: if_splits)
  assume l: "ring_list n r = x # xs"
  let ?r = "r\<lparr>rhead := (rhead r + 1) mod n\<rparr>"
  have ne: "rhead r \<noteq> rtail r" using l by (auto simp: ring_list_def ring_count_def)
  have cnt: "ring_count n r = Suc (ring_count n ?r)" using ne b by (auto simp: ring_count_def mod_next split: if_splits)
  have step: "ring_at n r (Suc k) = ring_at n ?r k" if "k < ring_count n ?r" for k
    using that b ne by (auto simp: ring_at_def ring_count_def mod_next split: if_splits)
  have "ring_list n r = slots r (ring_at n r 0) # map (\<lambda>k. slots r (ring_at n r (Suc k))) [0..<ring_count n ?r]"
    unfolding ring_list_def cnt by (simp add: upt_conv_Cons map_Suc_upt[symmetric] del: upt_Suc)
  also have "map (\<lambda>k. slots r (ring_at n r (Suc k))) [0..<ring_count n ?r] = ring_list n ?r"
    using step by (auto simp: ring_list_def)
  finally have "x = slots r (rhead r)" "xs = ring_list n ?r" using l b by (auto simp: ring_at_def)
  then show "fst (ring_get n r) = Some x \<and> ring_list n (snd (ring_get n r)) = xs" using ne by (simp add: ring_get_def)
qed

interpretation ring_fifo: bounded_fifo "ring_put n" "ring_get n" "ring_list n" "ring_ok n" "n - 1" for n :: nat
proof
  fix r :: "'a ring" and x :: 'a assume ok: "ring_ok n r"
  show "ring_ok n (ring_put n x r)
      \<and> ring_list n (ring_put n x r) = (if length (ring_list n r) < n - 1 then ring_list n r @ [x] else ring_list n r)"
    using ring_put_list[OF ok] by blast
  show "ring_ok n (snd (ring_get n r)) \<and> (ring_list n r = [] \<longrightarrow> ring_get n r = (None, r))
      \<and> (\<forall>c cs. ring_list n r = c # cs \<longrightarrow> fst (ring_get n r) = Some c \<and> ring_list n (snd (ring_get n r)) = cs)"
    using ring_get_list[OF ok] by blast
qed

section \<open>Notifications\<close>

definition NOTIF_MAX :: nat where "NOTIF_MAX = 32"
definition TOAST_TICKS :: u32 where "TOAST_TICKS = 300"

record notif =
  ntitle :: string
  nbody :: string
  nlevel :: int

record notif_daemon =
  notif_queue :: "notif ring"
  g_toast :: notif
  g_toast_active :: bool
  g_toast_expire :: u32

definition notif_push :: "string option \<Rightarrow> string option \<Rightarrow> int \<Rightarrow> notif_daemon \<Rightarrow> notif_daemon" where
  "notif_push t b level d =
     d\<lparr>notif_queue := ring_put NOTIF_MAX
         \<lparr>ntitle = take 63 (case t of None \<Rightarrow> [] | Some s \<Rightarrow> s), nbody = take 255 (case b of None \<Rightarrow> [] | Some s \<Rightarrow> s), nlevel = level\<rparr>
         (notif_queue d)\<rparr>"

definition notif_pop :: "notif_daemon \<Rightarrow> notif option \<times> notif_daemon" where
  "notif_pop d = (case ring_get NOTIF_MAX (notif_queue d) of (x, q) \<Rightarrow> (x, d\<lparr>notif_queue := q\<rparr>))"

text \<open>One round of the task, \<open>now\<close> being the clock: the loop empties the queue and shows the last message.\<close>

fun toast_loop :: "nat \<Rightarrow> u32 \<Rightarrow> notif_daemon \<Rightarrow> notif_daemon option" where
  "toast_loop 0 now d = None"
| "toast_loop (Suc k) now d =
     (case notif_pop d of (None, d1) \<Rightarrow> Some d1
      | (Some x, d1) \<Rightarrow> toast_loop k now (d1\<lparr>g_toast := x, g_toast_active := True, g_toast_expire := now + TOAST_TICKS\<rparr>))"

definition notification_round :: "nat \<Rightarrow> u32 \<Rightarrow> notif_daemon \<Rightarrow> notif_daemon option" where
  "notification_round k now d =
     toast_loop k now (if g_toast_active d \<and> g_toast_expire d \<le> now then d\<lparr>g_toast_active := False\<rparr> else d)"

text \<open>Thirty-two rounds of the loop always suffice, and the newest message is shown.\<close>

lemma toast_loop_shows:
  assumes "ring_ok NOTIF_MAX (notif_queue d)" "length (ring_list NOTIF_MAX (notif_queue d)) < k"
  shows "\<exists>d'. toast_loop k now d = Some d' \<and> ring_list NOTIF_MAX (notif_queue d') = []
    \<and> (if ring_list NOTIF_MAX (notif_queue d) = [] then d' = d
       else g_toast d' = List.last (ring_list NOTIF_MAX (notif_queue d)) \<and> g_toast_active d' \<and> g_toast_expire d' = now + TOAST_TICKS)"
  using assms
proof (induction k arbitrary: d)
  case (Suc k)
  note get = ring_get_list[OF Suc.prems(1)]
  show ?case
  proof (cases "ring_list NOTIF_MAX (notif_queue d)")
    case Nil
    then show ?thesis using get(2) by (simp add: notif_pop_def)
  next
    case (Cons x xs)
    then obtain q where q: "ring_get NOTIF_MAX (notif_queue d) = (Some x, q)" "ring_list NOTIF_MAX q = xs" "ring_ok NOTIF_MAX q"
      using get(1,3) by (cases "ring_get NOTIF_MAX (notif_queue d)") auto
    let ?d = "d\<lparr>notif_queue := q, g_toast := x, g_toast_active := True, g_toast_expire := now + TOAST_TICKS\<rparr>"
    have step: "toast_loop (Suc k) now d = toast_loop k now ?d" using q(1) by (simp add: notif_pop_def)
    have "ring_list NOTIF_MAX (notif_queue ?d) = xs" "ring_ok NOTIF_MAX (notif_queue ?d)" "length xs < k"
      using q Suc.prems(2) Cons by simp_all
    with Suc.IH[of ?d] obtain d' where d': "toast_loop k now ?d = Some d'" "ring_list NOTIF_MAX (notif_queue d') = []"
      "if xs = [] then d' = ?d else g_toast d' = List.last xs \<and> g_toast_active d' \<and> g_toast_expire d' = now + TOAST_TICKS"
      by metis
    show ?thesis
    proof (cases "xs = []")
      case True
      then show ?thesis using d' Cons unfolding step by simp
    next
      case False
      then show ?thesis using d' Cons unfolding step by simp
    qed
  qed
qed simp

section \<open>The log ring\<close>

definition LOG_RING :: nat where "LOG_RING = 256"
definition KLOG_LINE_MAX :: nat where "KLOG_LINE_MAX = 256"

record log_entry =
  lline_text :: string
  lchannel :: nat

definition klog_write :: "nat \<Rightarrow> string \<Rightarrow> log_entry ring \<Rightarrow> log_entry ring" where
  "klog_write ch line r =
     (if 2 \<le> ch then r else ring_put LOG_RING \<lparr>lline_text = take (KLOG_LINE_MAX - 1) line, lchannel = ch\<rparr> r)"

text \<open>The drain of a panic prints the pending lines in order, without removing them.\<close>

fun drain_loop :: "nat \<Rightarrow> nat \<Rightarrow> log_entry ring \<Rightarrow> string list" where
  "drain_loop 0 i r = []"
| "drain_loop (Suc k) i r = (if i = rtail r then [] else lline_text (slots r i) # drain_loop k ((i + 1) mod LOG_RING) r)"

definition klog_drain_to_serial :: "log_entry ring \<Rightarrow> string list" where
  "klog_drain_to_serial r = drain_loop LOG_RING (rhead r) r"

lemma drain_loop_list:
  assumes "ring_ok LOG_RING r" "ring_count LOG_RING r \<le> k"
  shows "drain_loop k (rhead r) r = map lline_text (ring_list LOG_RING r)"
  using assms
proof (induction k arbitrary: r)
  case 0
  then show ?case by (simp add: ring_list_def)
next
  case (Suc k)
  note get = ring_get_list[OF Suc.prems(1)]
  have tail: "drain_loop k j (s\<lparr>rhead := h\<rparr>) = drain_loop k j s" for k j h and s :: "log_entry ring"
    by (induction k arbitrary: j) auto
  show ?case
  proof (cases "ring_list LOG_RING r")
    case Nil
    then show ?thesis using get(2) by (auto simp: ring_get_def split: if_splits)
  next
    case (Cons x xs)
    then have ne: "rhead r \<noteq> rtail r" using get(3) by (auto simp: ring_get_def split: if_splits)
    let ?r = "r\<lparr>rhead := (rhead r + 1) mod LOG_RING\<rparr>"
    have r: "ring_list LOG_RING ?r = xs" "x = slots r (rhead r)" "ring_ok LOG_RING ?r" using get(1,3) Cons ne by (auto simp: ring_get_def)
    have "length (ring_list LOG_RING r) = ring_count LOG_RING r" "length (ring_list LOG_RING ?r) = ring_count LOG_RING ?r"
      by (simp_all add: ring_list_def)
    then have "ring_count LOG_RING ?r \<le> k" using Suc.prems(2) Cons r(1) by simp
    from Suc.IH[OF r(3) this] show ?thesis using Cons r ne tail[of k] by simp
  qed
qed

lemma drain_prints_pending:
  assumes "ring_ok LOG_RING r"
  shows "klog_drain_to_serial r = map lline_text (ring_list LOG_RING r)"
proof -
  have "ring_count LOG_RING r \<le> LOG_RING" using assms by (auto simp: ring_count_def ring_ok_def)
  then show ?thesis unfolding klog_drain_to_serial_def by (rule drain_loop_list[OF assms])
qed

section \<open>The service table\<close>

datatype svc_state = SVC_STATE_STOPPED | SVC_STATE_STARTING | SVC_STATE_RUNNING | SVC_STATE_FAILED

record service =
  svc_name :: string
  task_fn :: u64
  svc_state :: svc_state
  restart_on_fail :: int

definition services_table :: "(string \<Rightarrow> u64) \<Rightarrow> service list" where
  "services_table entry =
     map (\<lambda>(n, r). \<lparr>svc_name = n, task_fn = entry n, svc_state = SVC_STATE_STOPPED, restart_on_fail = r\<rparr>)
       [(''net-manager'', 1), (''power-manager'', 1), (''audio-service'', 1), (''notification-daemon'', 1),
        (''session-manager'', 1), (''login-manager'', 0)]"

fun start_services :: "service list \<Rightarrow> kern \<Rightarrow> (service list \<times> kern) option" where
  "start_services [] k = Some ([], k)"
| "start_services (s # ss) k =
     (case sched_spawn (task_fn s) (Some (svc_name s)) k of None \<Rightarrow> None
      | Some (r, k1) \<Rightarrow>
          map_option (\<lambda>(ss', k2). (s\<lparr>svc_state := if 0 \<le> r then SVC_STATE_RUNNING else SVC_STATE_FAILED\<rparr> # ss', k2))
            (start_services ss k1))"

definition svc_manager_start_all :: "service list \<Rightarrow> kern \<Rightarrow> (service list \<times> kern) option" where
  "svc_manager_start_all = start_services"

definition svc_index :: "string \<Rightarrow> service list \<Rightarrow> nat option" where
  "svc_index name sv = List.find (\<lambda>i. svc_name (sv ! i) = name) [0..<length sv]"

definition svc_start :: "string \<Rightarrow> service list \<Rightarrow> kern \<Rightarrow> (int \<times> service list \<times> kern) option" where
  "svc_start name sv k =
     (case svc_index name sv of None \<Rightarrow> Some (- 1, sv, k)
      | Some i \<Rightarrow>
          (case sched_spawn (task_fn (sv ! i)) (Some name) k of None \<Rightarrow> None
           | Some (r, k1) \<Rightarrow>
               if 0 \<le> r then Some (0, sv[i := (sv ! i)\<lparr>svc_state := SVC_STATE_RUNNING\<rparr>], k1)
               else Some (- 1, sv[i := (sv ! i)\<lparr>svc_state := SVC_STATE_FAILED\<rparr>], k1)))"

definition svc_stop :: "string \<Rightarrow> service list \<Rightarrow> int \<times> service list" where
  "svc_stop name sv =
     (case svc_index name sv of None \<Rightarrow> (- 1, sv)
      | Some i \<Rightarrow> (0, sv[i := (sv ! i)\<lparr>svc_state := SVC_STATE_STOPPED\<rparr>]))"

definition svc_status :: "string \<Rightarrow> service list \<Rightarrow> svc_state" where
  "svc_status name sv = (case svc_index name sv of None \<Rightarrow> SVC_STATE_STOPPED | Some i \<Rightarrow> svc_state (sv ! i))"

lemma svc_index_Some: "svc_index name sv = Some i \<Longrightarrow> i < length sv \<and> svc_name (sv ! i) = name"
  by (auto simp: svc_index_def find_Some_iff)

lemma svc_index_update:
  assumes "svc_index name sv = Some i" "svc_name s = name"
  shows "svc_index n (sv[i := s]) = svc_index n sv"
proof -
  have "svc_name (sv[i := s] ! j) = svc_name (sv ! j)" for j
    using svc_index_Some[OF assms(1)] assms(2) by (cases "j = i") simp_all
  then show ?thesis by (simp add: svc_index_def)
qed

text \<open>What a spawn does, as far as its callers see it.\<close>

lemma sched_spawn_result:
  assumes "kern_inv k" "sched_spawn fn name k = Some (r, k')"
  shows "kern_inv k'" "krouter k' = krouter k"
    and "r = - 1 \<and> tasks k' = tasks k \<or> (\<exists>i < TASK_MAX. r = int i \<and> vacant (tk k i) \<and> tstate (tk k' i) = TASK_READY)"
proof -
  show "kern_inv k'" using kern_inv_spawn[OF assms(1), of fn name] assms(2) by auto
  show "krouter k' = krouter k"
    using assms(2) by (auto simp: sched_spawn_def upd_def Let_def simp del: push_frame.simps split: option.splits if_splits prod.splits)
  have len: "length (tasks k) = TASK_MAX" using sched_wfD(1)[OF kern_inv_wf[OF assms(1)]] by (simp add: TASK_MAX_def)
  show "r = - 1 \<and> tasks k' = tasks k \<or> (\<exists>i < TASK_MAX. r = int i \<and> vacant (tk k i) \<and> tstate (tk k' i) = TASK_READY)"
  proof (cases "List.find (\<lambda>i. vacant (tk k i)) [0..<TASK_MAX]")
    case None
    then show ?thesis using assms(2) by (simp add: sched_spawn_def)
  next
    case (Some i)
    then have i: "i < TASK_MAX" "vacant (tk k i)" by (auto simp: find_Some_iff)
    obtain stk h where al: "kmalloc (klimits k) (of_nat TASK_STACK_SZ) (kheap k) = Some (stk, h)"
      using assms(2) Some by (cases "kmalloc (klimits k) (of_nat TASK_STACK_SZ) (kheap k)") (auto simp: sched_spawn_def)
    obtain m sp where fr: "push_frame [fn, 0, 0, 0, 0, 0, 0] (stk + TASK_STACK_SZ) (hmem h) = (m, sp)" by fastforce
    show ?thesis
    proof (cases "stk = 0")
      case True
      then show ?thesis using assms(2) Some al by (auto simp: sched_spawn_def)
    next
      case False
      then have "r = int i" "k' = (upd i (spawn_task i sp stk name (pit_ticks k)) (k\<lparr>kheap := h\<lparr>hmem := m\<rparr>\<rparr>))\<lparr>ntasks := ntasks k + 1\<rparr>"
        using assms(2) Some al fr by (simp_all add: sched_spawn_def Let_def upd_def del: push_frame.simps)
      then show ?thesis using i len by (auto simp: upd_def tk_def spawn_task_def)
    qed
  qed
qed

text \<open>Starting the services keeps the kernel consistent and leaves no service in an intermediate state.\<close>

lemma start_all_safe:
  assumes "kern_inv k"
  shows "\<exists>sv' k'. svc_manager_start_all sv k = Some (sv', k') \<and> kern_inv k' \<and> map svc_name sv' = map svc_name sv
    \<and> (\<forall>s \<in> set sv'. svc_state s = SVC_STATE_RUNNING \<or> svc_state s = SVC_STATE_FAILED)"
  unfolding svc_manager_start_all_def using assms
proof (induction sv arbitrary: k)
  case (Cons s sv)
  obtain r k1 where r: "sched_spawn (task_fn s) (Some (svc_name s)) k = Some (r, k1)" "kern_inv k1"
    using kern_inv_spawn[OF Cons.prems] by blast
  from Cons.IH[OF r(2)] show ?case using r(1) by auto
qed simp

lemma svc_start_status:
  assumes "kern_inv k"
  shows "\<exists>r sv' k'. svc_start name sv k = Some (r, sv', k') \<and> kern_inv k' \<and> (r = 0 \<longleftrightarrow> svc_status name sv' = SVC_STATE_RUNNING \<and> svc_index name sv \<noteq> None)
    \<and> (\<forall>n. n \<noteq> name \<longrightarrow> svc_status n sv' = svc_status n sv)"
proof (cases "svc_index name sv")
  case None
  then show ?thesis using assms by (simp add: svc_start_def)
next
  case (Some i)
  note ix = svc_index_Some[OF Some]
  obtain r k1 where r: "sched_spawn (task_fn (sv ! i)) (Some name) k = Some (r, k1)" "kern_inv k1"
    using kern_inv_spawn[OF assms] by blast
  have upd: "svc_status n (sv[i := (sv ! i)\<lparr>svc_state := st\<rparr>]) = (if n = name then st else svc_status n sv)" for n st
    using Some ix svc_index_Some[of n sv] svc_index_update[OF Some, of "(sv ! i)\<lparr>svc_state := st\<rparr>" n]
    by (auto simp: svc_status_def nth_list_update split: option.splits)
  show ?thesis using Some r by (auto simp: svc_start_def upd)
qed

section \<open>Applications\<close>

definition APP_MAX :: nat where "APP_MAX = 16"
definition APP_NAME_LEN :: nat where "APP_NAME_LEN = 32"

record app_entry =
  app_name :: string
  category :: string
  entry_fn :: u64
  active :: bool

text \<open>The first \<open>naps\<close> entries of the table \<^verbatim>\<open>apps\<close>.\<close>

definition appman_register :: "string \<Rightarrow> string \<Rightarrow> u64 \<Rightarrow> app_entry list \<Rightarrow> app_entry list" where
  "appman_register name cat fn apps =
     (if APP_MAX \<le> length apps then apps
      else apps @ [\<lparr>app_name = take (APP_NAME_LEN - 1) name, category = take (APP_NAME_LEN - 1) cat, entry_fn = fn, active = True\<rparr>])"

definition appman_launch :: "string \<Rightarrow> app_entry list \<Rightarrow> kern \<Rightarrow> (int \<times> kern) option" where
  "appman_launch name apps k =
     (case List.find (\<lambda>a. app_name a = name \<and> active a) apps of None \<Rightarrow> Some (- 1, k)
      | Some a \<Rightarrow>
          (case sched_spawn (entry_fn a) (Some (app_name a)) k of None \<Rightarrow> None
           | Some (i, k1) \<Rightarrow> if 0 \<le> i then Some (i, k1\<lparr>krouter := input_router_set_focus i (krouter k1)\<rparr>) else Some (- 1, k1)))"

definition appman_count :: "app_entry list \<Rightarrow> int" where "appman_count apps = int (length apps)"

definition appman_get :: "int \<Rightarrow> app_entry list \<Rightarrow> app_entry option" where
  "appman_get idx apps = (if idx < 0 \<or> int (length apps) \<le> idx then None else Some (apps ! nat idx))"

definition appman_init :: "u64 \<Rightarrow> app_entry list \<Rightarrow> app_entry list" where
  "appman_init demo = appman_register ''Widget Demo'' ''Accessories'' demo"

lemma appman_count_bounded: "length apps \<le> APP_MAX \<Longrightarrow> length (appman_register n c f apps) \<le> APP_MAX"
  by (auto simp: appman_register_def)

text \<open>An application that starts has the keyboard; one that does not leaves tasks and focus alone.\<close>

lemma appman_launch_focus:
  assumes "kern_inv k"
  shows "\<exists>r k'. appman_launch name apps k = Some (r, k')
    \<and> (r = - 1 \<and> tasks k' = tasks k \<and> krouter k' = krouter k
       \<or> (\<exists>i < TASK_MAX. r = int i \<and> vacant (tk k i) \<and> tstate (tk k' i) = TASK_READY \<and> input_router_get_focus (krouter k') = int i))"
proof (cases "List.find (\<lambda>a. app_name a = name \<and> active a) apps")
  case None
  then show ?thesis by (simp add: appman_launch_def)
next
  case (Some a)
  obtain r k1 where r: "sched_spawn (entry_fn a) (Some (app_name a)) k = Some (r, k1)" using kern_inv_spawn[OF assms] by blast
  note res = sched_spawn_result[OF assms r]
  from res(3) show ?thesis
  proof (elim disjE exE conjE)
    assume "r = - 1" "tasks k1 = tasks k"
    then show ?thesis using Some r res(2) by (simp add: appman_launch_def)
  next
    fix i assume i: "i < TASK_MAX" "r = int i" "vacant (tk k i)" "tstate (tk k1 i) = TASK_READY"
    let ?k = "k1\<lparr>krouter := input_router_set_focus (int i) (krouter k1)\<rparr>"
    have "appman_launch name apps k = Some (int i, ?k)" using Some r i by (simp add: appman_launch_def)
    moreover have "tstate (tk ?k i) = TASK_READY" using i(4) by (simp add: tk_def)
    moreover have "input_router_get_focus (krouter ?k) = int i"
      using i(1) by (simp add: input_router_get_focus_def input_router_set_focus_def valid_slot_def)
    ultimately show ?thesis using i(1,3) by blast
  qed
qed

text \<open>A name of more than 31 characters is cut on registration and is not found under its full form.\<close>

lemma find_append: "List.find P (xs @ ys) = (case List.find P xs of None \<Rightarrow> List.find P ys | Some x \<Rightarrow> Some x)"
  by (induction xs) auto

lemma registered_app_found:
  assumes "length apps < APP_MAX" "List.find (\<lambda>a. app_name a = name \<and> active a) apps = None"
  shows "(List.find (\<lambda>a. app_name a = name \<and> active a) (appman_register name cat fn apps) \<noteq> None) = (length name < APP_NAME_LEN)"
proof -
  have "(take (APP_NAME_LEN - 1) name = name) = (length name < APP_NAME_LEN)" by (auto simp: APP_NAME_LEN_def)
  then show ?thesis using assms by (auto simp: appman_register_def find_append)
qed

end
