(* ===== verification/Elf_Loader.thy ===== *)
theory Elf_Loader
  imports Klibc_Props Heap_Client Vfs "HOL-Library.Monad_Syntax"
begin

text \<open>
  The loader of static ELF64 programs, \<^verbatim>\<open>kernel/loader/elf_loader.c\<close>: validation of the header, mapping
  of the segments, the initial stack and \<^verbatim>\<open>elf_exec\<close>. \<^verbatim>\<open>paging_map\<close> does nothing: the first 4 GB
  are mapped to themselves, so that all accesses go to the memory of the kernel heap. An access above
  4 GB is a page fault, \<^const>\<open>None\<close>. The argument strings are values, which
  assumes that they do not lie where the loader writes.
\<close>

section \<open>Headers\<close>

definition ENOENT :: int where "ENOENT = 2"
definition EIO :: int where "EIO = 5"
definition ENOEXEC :: int where "ENOEXEC = 8"
definition ENOMEM :: int where "ENOMEM = 12"
definition EFAULT :: int where "EFAULT = 14"

definition USER_STACK_TOP :: u64 where "USER_STACK_TOP = 0x800000"
definition USER_STACK_SIZE :: nat where "USER_STACK_SIZE = 0x20000"
definition ELF_MAX_SIZE :: u32 where "ELF_MAX_SIZE = 4 * 1024 * 1024"

definition load16 :: "mem \<Rightarrow> addr \<Rightarrow> u16" where "load16 m a = le_word (load_bytes m a 2)"

record Elf64_Ehdr =
  e_ident :: "u8 list"
  e_type :: u16
  e_machine :: u16
  e_entry :: u64
  e_phoff :: u64
  e_phentsize :: u16
  e_phnum :: u16

record Elf64_Phdr =
  p_type :: u32
  p_flags :: u32
  p_offset :: u64
  p_vaddr :: u64
  p_filesz :: u64
  p_memsz :: u64

text \<open>The fields of the packed structures at an address; the ones the loader never reads are left out.\<close>

definition ehdr_at :: "mem \<Rightarrow> addr \<Rightarrow> Elf64_Ehdr" where
  "ehdr_at m a = \<lparr>e_ident = load_bytes m a 16, e_type = load16 m (a + 16), e_machine = load16 m (a + 18),
     e_entry = load64 m (a + 24), e_phoff = load64 m (a + 32), e_phentsize = load16 m (a + 54), e_phnum = load16 m (a + 56)\<rparr>"

definition phdr_at :: "mem \<Rightarrow> addr \<Rightarrow> Elf64_Phdr" where
  "phdr_at m a = \<lparr>p_type = load32 m a, p_flags = load32 m (a + 4), p_offset = load64 m (a + 8), p_vaddr = load64 m (a + 16),
     p_filesz = load64 m (a + 32), p_memsz = load64 m (a + 40)\<rparr>"

definition EHDR_SIZE :: u64 where "EHDR_SIZE = 64"
definition PHDR_SIZE :: u16 where "PHDR_SIZE = 56"
definition ELFMAG :: "u8 list" where "ELFMAG = [0x7f, 0x45, 0x4c, 0x46]"
definition ELFCLASS64 :: u8 where "ELFCLASS64 = 2"
definition ELFDATA2LSB :: u8 where "ELFDATA2LSB = 1"
definition ET_EXEC :: u16 where "ET_EXEC = 2"
definition EM_X86_64 :: u16 where "EM_X86_64 = 62"
definition PT_LOAD :: u32 where "PT_LOAD = 1"
definition PT_INTERP :: u32 where "PT_INTERP = 3"

definition is_elf64 :: "Elf64_Ehdr \<Rightarrow> bool" where
  "is_elf64 e \<longleftrightarrow> e_ident e ! 0 = ELFMAG ! 0 \<and> e_ident e ! 1 = ELFMAG ! 1 \<and> e_ident e ! 2 = ELFMAG ! 2 \<and> e_ident e ! 3 = ELFMAG ! 3
     \<and> e_ident e ! 4 = ELFCLASS64 \<and> e_ident e ! 5 = ELFDATA2LSB \<and> e_type e = ET_EXEC \<and> e_machine e = EM_X86_64"

definition elf_validate :: "mem \<Rightarrow> addr \<Rightarrow> u64 \<Rightarrow> int" where
  "elf_validate m buf sz =
     (if sz < EHDR_SIZE then - ENOEXEC
      else let e = ehdr_at m buf
           in if \<not> is_elf64 e then - ENOEXEC
              else if e_phentsize e < PHDR_SIZE then - ENOEXEC
              else if sz < e_phoff e + ucast (e_phnum e) * ucast (e_phentsize e) then - ENOEXEC
              else 0)"

section \<open>Segments\<close>

lemma unat_page_next: "unat va + PAGE_SIZE \<le> 2 ^ 32 \<Longrightarrow> unat (va + 4096 :: u64) = unat va + 4096"
  by (simp add: PAGE_SIZE_def unat_word_ariths)

text \<open>\<open>seg_pages\<close> is the loop over the pages: one page of the page allocator is taken for each, and the memory at the
  virtual address is cleared.\<close>

function seg_pages :: "u64 \<Rightarrow> u64 \<Rightarrow> pmm \<Rightarrow> mem \<Rightarrow> (int \<times> pmm \<times> mem) option" where
  "seg_pages va page_end p m =
     (if page_end \<le> va then Some (0, p, m)
      else let (pa, p1) = pmm_alloc p
           in if pa = 0 then Some (- ENOMEM, p1, m)
              else if 2 ^ 32 < unat va + PAGE_SIZE then None
              else seg_pages (va + 4096) page_end p1 (memset (unat va) 0 PAGE_SIZE m))"
  by pat_completeness auto

termination
  by (relation "measure (\<lambda>(va, _). 2 ^ 32 - unat va)") (auto simp: unat_page_next PAGE_SIZE_def)

declare seg_pages.simps [simp del]

text \<open>\<open>fdat\<close> is the address of the file's bytes.\<close>

definition load_segment :: "Elf64_Phdr \<Rightarrow> addr \<Rightarrow> pmm \<Rightarrow> mem \<Rightarrow> (int \<times> pmm \<times> mem) option" where
  "load_segment ph fdat p m =
     (if p_memsz ph = 0 then Some (0, p, m)
      else let page_start = p_vaddr ph AND NOT (mask 12);
               page_end = (p_vaddr ph + p_memsz ph + 4096 - 1) AND NOT (mask 12)
           in case seg_pages page_start page_end p m of None \<Rightarrow> None
              | Some (r, p1, m1) \<Rightarrow>
                  if r \<noteq> 0 then Some (r, p1, m1)
                  else if p_filesz ph = 0 \<or> fdat = 0 then Some (0, p1, m1)
                  else let src = unat (of_nat fdat + p_offset ph :: u64); n = unat (p_filesz ph)
                       in if 2 ^ 32 < src + n \<or> 2 ^ 32 < unat (p_vaddr ph) + n then None
                          else Some (0, p1, memcpy (unat (p_vaddr ph)) src n m1))"

section \<open>The initial stack\<close>

definition poke :: "u64 \<Rightarrow> u8 list \<Rightarrow> mem \<Rightarrow> mem option" where
  "poke a bs m = (if unat a + length bs \<le> 2 ^ 32 then Some (store_bytes m (unat a) bs) else None)"

text \<open>The loop that copies the strings from the last to the first, and records their addresses.\<close>

fun push_strings :: "u8 list list \<Rightarrow> addr \<Rightarrow> nat \<Rightarrow> u64 \<Rightarrow> mem \<Rightarrow> (u64 \<times> mem) option" where
  "push_strings strs arr 0 sp m = Some (sp, m)"
| "push_strings strs arr (Suc i) sp m =
     (let s = strs ! i @ [0]; sp1 = sp - of_nat (length s)
      in case poke sp1 s m of None \<Rightarrow> None
         | Some m1 \<Rightarrow> push_strings strs arr i sp1 (store64 m1 (arr + 8 * i) sp1))"

text \<open>\<^verbatim>\<open>PUSH64\<close> for each value, and for each element of an array from the last to the first.\<close>

fun push_words :: "u64 list \<Rightarrow> u64 \<Rightarrow> mem \<Rightarrow> (u64 \<times> mem) option" where
  "push_words [] sp m = Some (sp, m)"
| "push_words (v # vs) sp m =
     (case poke (sp - 8) (le_bytes 8 v) m of None \<Rightarrow> None | Some m1 \<Rightarrow> push_words vs (sp - 8) m1)"

fun push_array :: "addr \<Rightarrow> nat \<Rightarrow> u64 \<Rightarrow> mem \<Rightarrow> (u64 \<times> mem) option" where
  "push_array arr 0 sp m = Some (sp, m)"
| "push_array arr (Suc i) sp m =
     (case push_words [load64 m (arr + 8 * i)] sp m of None \<Rightarrow> None | Some (sp1, m1) \<Rightarrow> push_array arr i sp1 m1)"

text \<open>The auxiliary vector in the order of the pushes, each value before its type: \<^verbatim>\<open>AT_NULL\<close>, \<^verbatim>\<open>AT_SECURE\<close>,
  \<^verbatim>\<open>AT_EGID\<close>, \<^verbatim>\<open>AT_GID\<close>, \<^verbatim>\<open>AT_EUID\<close>, \<^verbatim>\<open>AT_UID\<close>, \<^verbatim>\<open>AT_ENTRY\<close>, \<^verbatim>\<open>AT_PHNUM\<close>,
  \<^verbatim>\<open>AT_PHENT\<close>, \<^verbatim>\<open>AT_PHDR\<close> and \<^verbatim>\<open>AT_PAGESZ\<close>.\<close>

definition auxv_pushes :: "Elf64_Ehdr \<Rightarrow> u64 list" where
  "auxv_pushes e =
     [0, 0, 0, 23, 0, 14, 0, 13, 0, 12, 0, 11, e_entry e, 9, ucast (e_phnum e), 5, ucast (e_phentsize e), 4,
      e_phoff e + e_entry e, 3, 4096, 6]"

definition push_tables :: "u64 list \<Rightarrow> addr \<Rightarrow> nat \<Rightarrow> addr \<Rightarrow> nat \<Rightarrow> u64 \<Rightarrow> mem \<Rightarrow> (u64 \<times> mem) option" where
  "push_tables aux argp argc envp2 envc sp m = do {
     (sp1, m1) \<leftarrow> push_words aux sp m;
     (sp2, m2) \<leftarrow> push_words [0] sp1 m1;
     (sp3, m3) \<leftarrow> push_array envp2 envc sp2 m2;
     (sp4, m4) \<leftarrow> push_words [0] sp3 m3;
     (sp5, m5) \<leftarrow> push_array argp argc sp4 m4;
     push_words [of_nat argc] sp5 m5
   }"

text \<open>The program header is at the address \<open>ehdr\<close>; its fields are read before the first push.\<close>

definition write_stack :: "addr \<Rightarrow> u8 list list \<Rightarrow> u8 list list \<Rightarrow> addr \<Rightarrow> addr \<Rightarrow> mem \<Rightarrow> (u64 \<times> mem) option" where
  "write_stack ehdr argv envp argp envp2 m = do {
     (sp1, m1) \<leftarrow> push_strings argv argp (length argv) USER_STACK_TOP m;
     let m2 = store64 m1 (argp + 8 * length argv) 0;
     (sp2, m3) \<leftarrow> push_strings envp envp2 (length envp) sp1 m2;
     let m4 = store64 m3 (envp2 + 8 * length envp) 0;
     let sp3 = sp2 AND NOT 15;
     push_tables (auxv_pushes (ehdr_at m4 ehdr)) argp (length argv) envp2 (length envp) sp3 m4
   }"

definition build_user_stack ::
    "addr \<Rightarrow> u8 list list \<Rightarrow> u8 list list \<Rightarrow> system_limits \<Rightarrow> heap \<Rightarrow> (u64 \<times> heap) option" where
  "build_user_stack ehdr argv envp lim hp =
     (case kmalloc lim (of_nat USER_STACK_SIZE) hp of None \<Rightarrow> None
      | Some (stack_base, h1) \<Rightarrow>
          if stack_base = 0 then Some (0, h1)
          else let h2 = h1\<lparr>hmem := memset stack_base 0 USER_STACK_SIZE (hmem h1)\<rparr>
               in case kmalloc lim (of_nat (8 * (length argv + 1))) h2 of None \<Rightarrow> None
                  | Some (argp, h3) \<Rightarrow>
                      (case kmalloc lim (of_nat (8 * (length envp + 1))) h3 of None \<Rightarrow> None
                       | Some (envp2, h4) \<Rightarrow>
                           if argp = 0 \<or> envp2 = 0 then Some (0, h4)
                           else map_option (\<lambda>(sp, m). (sp, h4\<lparr>hmem := m\<rparr>)) (write_stack ehdr argv envp argp envp2 (hmem h4))))"

section \<open>Executing a file\<close>

text \<open>The fields of the current task that the loader sets before it jumps to the entry point.\<close>

record image =
  user_entry :: u64
  user_stack :: u64
  task_name :: string

datatype exec_result = Refused int | Jump image

definition elf_lookup :: "string \<Rightarrow> string" where
  "elf_lookup path = (if path \<noteq> [] \<and> hd path = CHR 0x2F then path else take 127 (''/storage/main/apps/'' @ path))"

definition phdr_addr :: "Elf64_Ehdr \<Rightarrow> addr \<Rightarrow> nat \<Rightarrow> addr" where
  "phdr_addr e dat i = unat (of_nat dat + e_phoff e + of_nat i * ucast (e_phentsize e) :: u64)"

text \<open>The headers are read in the memory as it is at that moment; one above 4 GB is a fault.\<close>

fun has_interp :: "Elf64_Ehdr \<Rightarrow> addr \<Rightarrow> nat list \<Rightarrow> mem \<Rightarrow> bool option" where
  "has_interp e dat [] m = Some False"
| "has_interp e dat (i # is) m =
     (if 2 ^ 32 < phdr_addr e dat i + 56 then None
      else if p_type (phdr_at m (phdr_addr e dat i)) = PT_INTERP then Some True else has_interp e dat is m)"

fun load_segments :: "addr \<Rightarrow> nat list \<Rightarrow> pmm \<Rightarrow> mem \<Rightarrow> (int \<times> pmm \<times> mem) option" where
  "load_segments dat [] p m = Some (0, p, m)"
| "load_segments dat (i # is) p m =
     (let e = ehdr_at m dat; a = phdr_addr e dat i
      in if unat (e_phnum e) \<le> i then Some (0, p, m)
         else if 2 ^ 32 < a + 56 then None
         else if p_type (phdr_at m a) \<noteq> PT_LOAD then load_segments dat is p m
         else (case load_segment (phdr_at m a) dat p m of None \<Rightarrow> None
               | Some (r, p1, m1) \<Rightarrow> if r < 0 then Some (r, p1, m1) else load_segments dat is p1 m1))"

text \<open>\<open>finddir\<close>, \<open>mounts\<close>, \<open>node_size\<close>, \<open>ops\<close> and \<open>fs\<close> are the file system; \<open>bytes_of\<close> gives the bytes of a string.\<close>

definition bytes_of :: "string \<Rightarrow> u8 list" where "bytes_of s = map of_char s"

definition default_envp :: "u8 list list" where
  "default_envp = map bytes_of [''TERM=xterm-256color'', ''HOME=/'', ''PATH=/ramfs'']"

definition elf_exec ::
    "('n \<Rightarrow> string \<Rightarrow> 'n option) \<Rightarrow> 'n mount_table \<Rightarrow> ('n \<Rightarrow> u32) \<Rightarrow> ('n \<Rightarrow> ('n, 's) vfs_ops option) \<Rightarrow> 's \<Rightarrow> system_limits
      \<Rightarrow> string option \<Rightarrow> u8 list list option \<Rightarrow> u8 list list option \<Rightarrow> pmm \<Rightarrow> heap \<Rightarrow> (exec_result \<times> pmm \<times> heap) option" where
  "elf_exec finddir mounts node_size ops fs lim path argv envp p hp =
     (case path of None \<Rightarrow> Some (Refused (- EFAULT), p, hp)
      | Some pa \<Rightarrow>
     (case vfs_open finddir mounts (Some (elf_lookup pa)) of None \<Rightarrow> Some (Refused (- ENOENT), p, hp)
      | Some n \<Rightarrow>
     if node_size n = 0 \<or> ELF_MAX_SIZE < node_size n then Some (Refused (- ENOEXEC), p, hp)
     else case kmalloc lim (ucast (node_size n)) hp of None \<Rightarrow> None
      | Some (dat, h1) \<Rightarrow>
     if dat = 0 then Some (Refused (- ENOMEM), p, h1)
     else let (r, bs) = vfs_read ops (Some n) 0 (node_size n) fs;
              h2 = h1\<lparr>hmem := store_bytes (hmem h1) dat bs\<rparr>
     in if r \<le> 0 \<or> (of_int r :: u32) < node_size n then Some (Refused (- EIO), p, h2)
     else let v = elf_validate (hmem h2) dat (of_int r); e = ehdr_at (hmem h2) dat
     in if v < 0 then Some (Refused v, p, h2)
     else case has_interp e dat [0..<unat (e_phnum e)] (hmem h2) of None \<Rightarrow> None
      | Some True \<Rightarrow> Some (Refused (- ENOEXEC), p, h2)
      | Some False \<Rightarrow>
     (case load_segments dat [0..<2 ^ 16] p (hmem h2) of None \<Rightarrow> None
      | Some (q, p1, m) \<Rightarrow>
     if q < 0 then Some (Refused q, p1, h2\<lparr>hmem := m\<rparr>)
     else let argv1 = (case argv of None \<Rightarrow> [bytes_of pa] | Some [] \<Rightarrow> [bytes_of pa] | Some vs \<Rightarrow> vs);
              envp1 = (case envp of None \<Rightarrow> default_envp | Some vs \<Rightarrow> vs)
     in case build_user_stack dat argv1 envp1 lim (h2\<lparr>hmem := m\<rparr>) of None \<Rightarrow> None
      | Some (sp, h3) \<Rightarrow>
     if sp = 0 then Some (Refused (- ENOMEM), p1, h3)
     else Some (Jump \<lparr>user_entry = e_entry (ehdr_at (hmem h3) dat), user_stack = sp, task_name = take 31 pa\<rparr>, p1, h3))))"

section \<open>What validation guarantees\<close>

text \<open>When the end of the header table does not wrap, every program header lies inside the file.\<close>

lemma elf_validate_in_file:
  assumes "elf_validate m buf sz = 0" "unat (e_phoff (ehdr_at m buf)) < 2 ^ 63"
    and "i < unat (e_phnum (ehdr_at m buf))"
  shows "unat (e_phoff (ehdr_at m buf)) + i * unat (e_phentsize (ehdr_at m buf)) + 56 \<le> unat sz"
proof -
  let ?e = "ehdr_at m buf"
  let ?n = "unat (e_phnum ?e)" and ?s = "unat (e_phentsize ?e)" and ?o = "unat (e_phoff ?e)"
  have s: "56 \<le> ?s" and le: "e_phoff ?e + ucast (e_phnum ?e) * ucast (e_phentsize ?e) \<le> sz"
    using assms(1) by (auto simp: elf_validate_def Let_def ENOEXEC_def PHDR_SIZE_def word_le_nat_alt not_less split: if_splits)
  have b: "?n < 2 ^ 16" "?s < 2 ^ 16" using unsigned_less[of "e_phnum ?e"] unsigned_less[of "e_phentsize ?e"] by simp_all
  have n1: "?n * ?s < 2 ^ 32" using mult_strict_mono[OF b] by simp
  then have "unat (ucast (e_phnum ?e) * ucast (e_phentsize ?e) :: u64) = ?n * ?s"
    using b by (simp add: unat_word_ariths unsigned_ucast_eq take_bit_nat_eq_self)
  moreover have "?o + ?n * ?s < 2 ^ 64" using n1 assms(2) by simp
  ultimately have "?o + ?n * ?s \<le> unat sz" using le by (simp add: word_le_nat_alt unat_word_ariths)
  moreover have "(i + 1) * ?s \<le> ?n * ?s" using assms(3) by (intro mult_le_mono) simp_all
  ultimately show ?thesis using s by simp
qed

text \<open>A table before the file is accepted: the sum wraps to zero.\<close>

lemma elf_validate_wraps:
  assumes "64 \<le> sz" "is_elf64 (ehdr_at m buf)" "56 \<le> e_phentsize (ehdr_at m buf)"
    and "e_phoff (ehdr_at m buf) = - (ucast (e_phnum (ehdr_at m buf)) * ucast (e_phentsize (ehdr_at m buf)))"
  shows "elf_validate m buf sz = 0"
proof -
  have "\<not> sz < EHDR_SIZE" "\<not> e_phentsize (ehdr_at m buf) < PHDR_SIZE" using assms(1,3) by (simp_all add: EHDR_SIZE_def PHDR_SIZE_def not_less)
  moreover have "\<not> sz < e_phoff (ehdr_at m buf) + ucast (e_phnum (ehdr_at m buf)) * ucast (e_phentsize (ehdr_at m buf))"
    unfolding assms(4) by simp
  ultimately show ?thesis using assms(2) by (simp only: elf_validate_def Let_def if_False not_True_eq_False simp_thms)
qed

section \<open>Segments in memory\<close>

lemma page_gap: "a mod 4096 = 0 \<Longrightarrow> b mod 4096 = 0 \<Longrightarrow> a < b \<Longrightarrow> a + 4096 \<le> b" for a b :: nat
  by (auto elim!: dvdE simp: mod_eq_0_iff_dvd)

lemma seg_pages_zero:
  assumes "seg_pages va pe p m = Some (0, p', m')" "unat va mod 4096 = 0" "unat pe mod 4096 = 0"
  shows "m' x = (if unat va \<le> x \<and> x < unat pe then 0 else m x)"
  using assms
proof (induction va pe p m rule: seg_pages.induct)
  case (1 va pe p m)
  show ?case
  proof (cases "pe \<le> va")
    case True
    then show ?thesis using "1.prems"(1) by (auto simp: seg_pages.simps[of va] word_le_nat_alt)
  next
    case False
    obtain pa p1 where al: "pmm_alloc p = (pa, p1)" by fastforce
    have go: "pa \<noteq> 0" "\<not> 2 ^ 32 < unat va + PAGE_SIZE"
      "seg_pages (va + 4096) pe p1 (memset (unat va) 0 PAGE_SIZE m) = Some (0, p', m')"
      using "1.prems"(1) False al by (auto simp: seg_pages.simps[of va] ENOMEM_def split: if_splits)
    have nx: "unat (va + 4096) = unat va + 4096" using go(2) by (intro unat_page_next) simp
    have lt: "unat va < unat pe" using False by (simp add: word_less_nat_alt not_le)
    then have "unat va + 4096 \<le> unat pe" using page_gap[OF "1.prems"(2,3)] by blast
    moreover have "m' x = (if unat (va + 4096) \<le> x \<and> x < unat pe then 0 else memset (unat va) 0 PAGE_SIZE m x)"
      by (rule "1.IH"[OF False al[symmetric] refl go(1,2,3)]) (use nx "1.prems"(2,3) in simp_all)
    ultimately show ?thesis using nx by (auto simp: memset_fill fill_def PAGE_SIZE_def)
  qed
qed

text \<open>
  A segment that is loaded holds the bytes of the file, then zeros; the rest of its pages is zero and everything else is
  unchanged, when the file's bytes do not lie in its pages.
\<close>

lemma load_segment_image:
  assumes ok: "load_segment ph fdat p m = Some (0, p', m')" and fdat: "fdat \<noteq> 0" "fdat + unat (p_offset ph) < 2 ^ 64"
    and seg: "p_memsz ph \<noteq> 0" "p_filesz ph \<le> p_memsz ph" "unat (p_vaddr ph) + unat (p_memsz ph) + 4095 < 2 ^ 64"
    and ps: "ps = unat (p_vaddr ph) - unat (p_vaddr ph) mod 4096"
    and pe: "pe = (unat (p_vaddr ph) + unat (p_memsz ph) + 4095) div 4096 * 4096"
    and src: "pe \<le> fdat + unat (p_offset ph) \<or> fdat + unat (p_offset ph) + unat (p_filesz ph) \<le> ps"
  shows "m' x = (if unat (p_vaddr ph) \<le> x \<and> x < unat (p_vaddr ph) + unat (p_filesz ph)
                 then m (fdat + unat (p_offset ph) + (x - unat (p_vaddr ph)))
                 else if ps \<le> x \<and> x < pe then 0 else m x)"
proof -
  let ?v = "unat (p_vaddr ph)" and ?n = "unat (p_filesz ph)" and ?s = "fdat + unat (p_offset ph)"
  define a where "a = p_vaddr ph AND NOT (mask 12)"
  define b where "b = (p_vaddr ph + p_memsz ph + 4096 - 1) AND NOT (mask 12)"
  have ua: "unat a = ps" by (simp add: a_def ps unat_and_not_mask)
  have "unat (p_vaddr ph + p_memsz ph + 4096 - 1) = ?v + unat (p_memsz ph) + 4095"
    using seg(3) by (simp add: add_diff_eq[symmetric] unat_word_ariths)
  then have ub: "unat b = pe" by (simp add: b_def pe unat_and_not_mask minus_mod_eq_div_mult)
  have us: "unat (of_nat fdat + p_offset ph :: u64) = ?s" using fdat(2) by (simp add: unat_word_ariths unat_of_nat)
  have le: "?n \<le> unat (p_memsz ph)" using seg(2) by (simp add: word_le_nat_alt)
  have in_pages: "ps \<le> ?v" "?v + unat (p_memsz ph) \<le> pe" unfolding ps pe by linarith+
  have al: "unat a mod 4096 = 0" "unat b mod 4096 = 0" by (simp_all add: ua ub ps pe minus_mod_eq_mult_div)
  obtain r p1 m1 where sp: "seg_pages a b p m = Some (r, p1, m1)"
    using ok seg(1) unfolding load_segment_def a_def[symmetric] b_def[symmetric] Let_def by (auto split: option.splits)
  have ok1: "(if r \<noteq> 0 then Some (r, p1, m1) else if p_filesz ph = 0 \<or> fdat = 0 then Some (0, p1, m1)
      else if 2 ^ 32 < ?s + ?n \<or> 2 ^ 32 < ?v + ?n then None else Some (0, p1, memcpy ?v ?s ?n m1)) = Some (0, p', m')"
    using ok seg(1) unfolding load_segment_def a_def[symmetric] b_def[symmetric] Let_def us sp by simp
  then have r: "r = 0" by (auto split: if_splits)
  have zero: "m1 y = (if ps \<le> y \<and> y < pe then 0 else m y)" for y
    using seg_pages_zero[OF sp[unfolded r] al] by (simp add: ua ub)
  have m': "m' = memcpy ?v ?s ?n m1"
    using ok1 r fdat(1) by (cases "p_filesz ph = 0") (auto split: if_splits)
  have "?v \<le> ?s \<or> ?s + ?n \<le> ?v" using src in_pages by linarith
  then show ?thesis using src in_pages le unfolding m' by (auto simp: memcpy_byte zero)
qed

section \<open>The initial stack in memory\<close>

definition load_words :: "mem \<Rightarrow> addr \<Rightarrow> nat \<Rightarrow> u64 list" where
  "load_words m a n = map (\<lambda>i. load64 m (a + 8 * i)) [0..<n]"

definition pushed :: "u64 list \<Rightarrow> u64 \<Rightarrow> mem \<Rightarrow> u64 \<Rightarrow> mem \<Rightarrow> bool" where
  "pushed vs sp m sp' m' \<longleftrightarrow> unat sp' + 8 * length vs = unat sp \<and> load_words m' (unat sp') (length vs) = rev vs
     \<and> (\<forall>x. x < unat sp' \<or> unat sp \<le> x \<longrightarrow> m' x = m x)"

lemma length_load_words [simp]: "length (load_words m a n) = n"
  by (simp add: load_words_def)

lemma load_words_append: "load_words m a (k + n) = load_words m a k @ load_words m (a + 8 * k) n"
  by (rule nth_equalityI) (auto simp: load_words_def nth_append algebra_simps)

lemma load_words_cong: "(\<And>x. a \<le> x \<Longrightarrow> x < a + 8 * n \<Longrightarrow> m x = m' x) \<Longrightarrow> load_words m a n = load_words m' a n"
  by (auto simp: load_words_def intro!: load64_cong)

lemma pushed_Nil [simp]: "pushed [] sp m sp m"
  by (simp add: pushed_def load_words_def)

lemma pushed_trans:
  assumes "pushed vs sp m sp1 m1" "pushed ws sp1 m1 sp2 m2"
  shows "pushed (vs @ ws) sp m sp2 m2"
proof -
  have u: "unat sp1 + 8 * length vs = unat sp" "unat sp2 + 8 * length ws = unat sp1" using assms by (auto simp: pushed_def)
  have "load_words m2 (unat sp1) (length vs) = load_words m1 (unat sp1) (length vs)"
    by (rule load_words_cong) (use assms(2) in \<open>auto simp: pushed_def\<close>)
  then have "load_words m2 (unat sp2) (length ws + length vs) = rev (vs @ ws)"
    using assms u by (simp add: pushed_def load_words_append)
  then show ?thesis using assms u by (auto simp: pushed_def add.commute)
qed

lemma push_words_pushed:
  assumes "8 * length vs \<le> unat sp" "unat sp \<le> 2 ^ 32"
  shows "\<exists>sp' m'. push_words vs sp m = Some (sp', m') \<and> pushed vs sp m sp' m'"
  using assms
proof (induction vs arbitrary: sp m)
  case (Cons v vs)
  have u: "unat (sp - 8) = unat sp - 8" using Cons.prems(1) by (simp add: unat_sub word_le_nat_alt)
  have pk: "poke (sp - 8) (le_bytes 8 v) m = Some (store64 m (unat (sp - 8)) v)"
    using Cons.prems u by (simp add: poke_def store64_def)
  have one: "pushed [v] sp m (sp - 8) (store64 m (unat (sp - 8)) v)"
    using Cons.prems(1) u by (auto simp: pushed_def load_words_def store64_other)
  have "8 * length vs \<le> unat (sp - 8)" "unat (sp - 8) \<le> 2 ^ 32" using Cons.prems u by simp_all
  from Cons.IH[OF this, of "store64 m (unat (sp - 8)) v"] obtain sp' m' where
    r: "push_words vs (sp - 8) (store64 m (unat (sp - 8)) v) = Some (sp', m')"
       "pushed vs (sp - 8) (store64 m (unat (sp - 8)) v) sp' m'" by blast
  show ?case using r(1) pk pushed_trans[OF one r(2)] by simp
qed simp

lemma push_array_pushed:
  assumes "8 * n \<le> unat sp" "unat sp \<le> 2 ^ 32" "arr + 8 * n \<le> unat sp - 8 * n \<or> unat sp \<le> arr"
  shows "\<exists>sp' m'. push_array arr n sp m = Some (sp', m') \<and> pushed (rev (load_words m arr n)) sp m sp' m'"
  using assms
proof (induction n arbitrary: sp m)
  case 0
  then show ?case by (simp add: load_words_def)
next
  case (Suc n)
  obtain sp1 m1 where p1: "push_words [load64 m (arr + 8 * n)] sp m = Some (sp1, m1)" "pushed [load64 m (arr + 8 * n)] sp m sp1 m1"
    using push_words_pushed[of "[load64 m (arr + 8 * n)]" sp m] Suc.prems by auto
  have u: "unat sp1 = unat sp - 8" using p1(2) by (auto simp: pushed_def)
  have same: "load_words m1 arr n = load_words m arr n"
    by (rule load_words_cong) (use p1(2) Suc.prems(3) u in \<open>auto simp: pushed_def\<close>)
  have bounds: "8 * n \<le> unat sp1" "unat sp1 \<le> 2 ^ 32" "arr + 8 * n \<le> unat sp1 - 8 * n \<or> unat sp1 \<le> arr"
    using Suc.prems u by auto
  obtain sp' m' where r: "push_array arr n sp1 m1 = Some (sp', m')" "pushed (rev (load_words m arr n)) sp1 m1 sp' m'"
    using Suc.IH[OF bounds, of m1] unfolding same by blast
  have "rev (load_words m arr (Suc n)) = [load64 m (arr + 8 * n)] @ rev (load_words m arr n)"
    by (simp add: load_words_def)
  then show ?case using p1(1) r(1) pushed_trans[OF p1(2) r(2)] by (simp del: push_words.simps)
qed

definition strs_size :: "nat \<Rightarrow> u8 list list \<Rightarrow> nat" where
  "strs_size i strs = sum_list (map (\<lambda>s. length s + 1) (take i strs))"

lemma strs_size_0 [simp]: "strs_size 0 strs = 0"
  by (simp add: strs_size_def)

lemma strs_size_Suc: "i < length strs \<Longrightarrow> strs_size (Suc i) strs = strs_size i strs + length (strs ! i) + 1"
  by (simp add: strs_size_def take_Suc_conv_app_nth)

text \<open>The strings whose addresses an array holds, all inside a range.\<close>

definition points_to :: "mem \<Rightarrow> addr \<Rightarrow> addr \<Rightarrow> u64 \<Rightarrow> u8 list \<Rightarrow> bool" where
  "points_to m lo hi a s \<longleftrightarrow> lo \<le> unat a \<and> unat a + length s < hi \<and> cstr m (unat a) s"

lemma push_strings_ok:
  assumes "i \<le> length strs" "strs_size i strs \<le> unat sp" "unat sp \<le> 2 ^ 32" "\<forall>s \<in> set strs. 0 \<notin> set s"
    and "arr + 8 * i \<le> unat sp - strs_size i strs \<or> unat sp \<le> arr"
  shows "\<exists>sp' m'. push_strings strs arr i sp m = Some (sp', m') \<and> unat sp' + strs_size i strs = unat sp
    \<and> (\<forall>j < i. points_to m' (unat sp') (unat sp) (load64 m' (arr + 8 * j)) (strs ! j))
    \<and> (\<forall>x. (x < unat sp' \<or> unat sp \<le> x) \<and> (x < arr \<or> arr + 8 * i \<le> x) \<longrightarrow> m' x = m x)"
  using assms
proof (induction i arbitrary: sp m)
  case (Suc i)
  let ?s = "strs ! i @ [0]" and ?n = "length (strs ! i) + 1"
  define sp1 where "sp1 = sp - of_nat (length ?s)"
  have sz: "strs_size (Suc i) strs = strs_size i strs + ?n" using Suc.prems(1) by (simp add: strs_size_Suc)
  have u: "unat sp1 + ?n = unat sp"
    using Suc.prems(2,3) sz by (simp add: sp1_def unat_sub word_le_nat_alt unat_of_nat del: of_nat_Suc)
  define m1 where "m1 = store_bytes m (unat sp1) ?s"
  define m2 where "m2 = store64 m1 (arr + 8 * i) sp1"
  have pk: "poke sp1 ?s m = Some m1" using u Suc.prems(3) by (simp add: poke_def m1_def)
  have run: "push_strings strs arr (Suc i) sp m = push_strings strs arr i sp1 m2"
    by (simp only: push_strings.simps Let_def sp1_def[symmetric] pk option.case m2_def)
  have "i \<le> length strs" "strs_size i strs \<le> unat sp1" "unat sp1 \<le> 2 ^ 32" "arr + 8 * i \<le> unat sp1 - strs_size i strs \<or> unat sp1 \<le> arr"
    using Suc.prems(1,2,3,5) sz u by auto
  from Suc.IH[OF this(1,2,3) Suc.prems(4) this(4), of m2] obtain sp' m' where
    r: "push_strings strs arr i sp1 m2 = Some (sp', m')" "unat sp' + strs_size i strs = unat sp1"
      "\<And>j. j < i \<Longrightarrow> points_to m' (unat sp') (unat sp1) (load64 m' (arr + 8 * j)) (strs ! j)"
      "\<And>x. x < unat sp' \<or> unat sp1 \<le> x \<Longrightarrow> x < arr \<or> arr + 8 * i \<le> x \<Longrightarrow> m' x = m2 x" by blast
  have away: "arr + 8 * Suc i \<le> unat sp' \<or> unat sp \<le> arr" using Suc.prems(5) r(2) sz u by auto
  have "load64 m' (arr + 8 * i) = load64 m2 (arr + 8 * i)" by (rule load64_cong) (use r(4) away u in auto)
  then have slot: "load64 m' (arr + 8 * i) = sp1" by (simp add: m2_def)
  have "cstr m1 (unat sp1) (strs ! i)" unfolding m1_def by (rule cstr_store) (use Suc.prems(1,4) in auto)
  moreover have "cstr m1 (unat sp1) (strs ! i) = cstr m' (unat sp1) (strs ! i)"
    by (rule cstr_cong) (use r(2,4) away u in \<open>auto simp: m2_def store64_other\<close>)
  ultimately have str: "points_to m' (unat sp') (unat sp) sp1 (strs ! i)" using r(2) u by (auto simp: points_to_def)
  have "points_to m' (unat sp') (unat sp) (load64 m' (arr + 8 * j)) (strs ! j)" if "j < Suc i" for j
    using that r(3)[of j] slot str u by (cases "j = i") (auto simp: points_to_def)
  moreover have "m' x = m x" if "x < unat sp' \<or> unat sp \<le> x" "x < arr \<or> arr + 8 * Suc i \<le> x" for x
    using that r(2) r(4)[of x] u by (auto simp: m2_def m1_def store64_other store_bytes_other)
  ultimately show ?case using r(1,2) run sz u by auto
qed simp

text \<open>A stack below both arrays.\<close>

lemma points_to_list:
  assumes "\<And>j. j < length strs \<Longrightarrow> points_to m lo hi (load64 m (arr + 8 * j)) (strs ! j)"
    and "\<And>y. lo \<le> y \<Longrightarrow> y < hi \<Longrightarrow> m' y = m y" and "\<And>y. arr \<le> y \<Longrightarrow> y < arr + 8 * length strs \<Longrightarrow> m2 y = m y"
    and "lo' \<le> lo" "hi \<le> hi'"
  shows "list_all2 (points_to m' lo' hi') (load_words m2 arr (length strs)) strs"
proof (rule list_all2_all_nthI)
  fix j assume "j < length (load_words m2 arr (length strs))"
  then have j: "j < length strs" by simp
  have a: "load64 m2 (arr + 8 * j) = load64 m (arr + 8 * j)" by (rule load64_cong) (use assms(3) j in auto)
  have "cstr m' (unat (load64 m (arr + 8 * j))) (strs ! j) = cstr m (unat (load64 m (arr + 8 * j))) (strs ! j)"
    by (rule cstr_cong, rule assms(2)) (use assms(1)[OF j] in \<open>auto simp: points_to_def\<close>)
  then show "points_to m' lo' hi' (load_words m2 arr (length strs) ! j) (strs ! j)"
    using assms(1)[OF j] assms(4,5) j by (simp add: load_words_def a points_to_def)
qed simp

end
