(* ===== verification/Elf_Props.thy ===== *)
theory Elf_Props
  imports Elf_Loader Heap_Props Heap_Frame
begin

text \<open>
  The initial stack that the loader builds is the one the System V ABI describes, apart from its alignment: the
  argument count, the argument and environment pointers with their terminators and the auxiliary vector, from the
  stack pointer upwards, and the strings they point to.
\<close>

section \<open>Pushing the tables\<close>

lemma push_tables_pushed:
  assumes "8 * (length aux + argc + envc + 3) \<le> unat sp" "unat sp \<le> 2 ^ 32" "unat sp \<le> argp" "unat sp \<le> envp2"
  shows "\<exists>sp' m'. push_tables aux argp argc envp2 envc sp m = Some (sp', m')
    \<and> pushed (aux @ [0] @ rev (load_words m envp2 envc) @ [0] @ rev (load_words m argp argc) @ [of_nat argc]) sp m sp' m'"
proof -
  have drop: "unat sp' + 8 * length vs = unat s" if "pushed vs s m0 sp' m'" for vs s m0 sp' m' using that by (simp add: pushed_def)
  have same: "load_words m' arr n = load_words m0 arr n" if "pushed vs s m0 sp' m'" "unat s \<le> arr" for vs s m0 sp' m' arr n
    by (rule load_words_cong) (use that in \<open>auto simp: pushed_def\<close>)
  obtain sp1 m1 where 1: "push_words aux sp m = Some (sp1, m1)" "pushed aux sp m sp1 m1"
    using push_words_pushed[of aux sp m] assms(1,2) by auto
  have u1: "unat sp1 + 8 * length aux = unat sp" by (rule drop[OF 1(2)])
  obtain sp2 m2 where 2: "push_words [0] sp1 m1 = Some (sp2, m2)" "pushed [0] sp1 m1 sp2 m2"
    using push_words_pushed[of "[0]" sp1 m1] assms(1,2) u1 by auto
  have p2: "pushed (aux @ [0]) sp m sp2 m2" by (rule pushed_trans[OF 1(2) 2(2)])
  have u2: "unat sp2 + 8 * (length aux + 1) = unat sp" using drop[OF p2] by simp
  obtain sp3 m3 where 3: "push_array envp2 envc sp2 m2 = Some (sp3, m3)" "pushed (rev (load_words m envp2 envc)) sp2 m2 sp3 m3"
    using push_array_pushed[of envc sp2 envp2 m2] same[OF p2 assms(4)] assms u2 by auto
  have p3: "pushed (aux @ [0] @ rev (load_words m envp2 envc)) sp m sp3 m3" using pushed_trans[OF p2 3(2)] by simp
  have u3: "unat sp3 + 8 * (length aux + 1 + envc) = unat sp" using drop[OF p3] by simp
  obtain sp4 m4 where 4: "push_words [0] sp3 m3 = Some (sp4, m4)" "pushed [0] sp3 m3 sp4 m4"
    using push_words_pushed[of "[0]" sp3 m3] assms(1,2) u3 by auto
  have p4: "pushed (aux @ [0] @ rev (load_words m envp2 envc) @ [0]) sp m sp4 m4" using pushed_trans[OF p3 4(2)] by simp
  have u4: "unat sp4 + 8 * (length aux + 2 + envc) = unat sp" using drop[OF p4] by simp
  obtain sp5 m5 where 5: "push_array argp argc sp4 m4 = Some (sp5, m5)" "pushed (rev (load_words m argp argc)) sp4 m4 sp5 m5"
    using push_array_pushed[of argc sp4 argp m4] same[OF p4 assms(3)] assms u4 by auto
  have p5: "pushed (aux @ [0] @ rev (load_words m envp2 envc) @ [0] @ rev (load_words m argp argc)) sp m sp5 m5"
    using pushed_trans[OF p4 5(2)] by simp
  have u5: "unat sp5 + 8 * (length aux + 2 + envc + argc) = unat sp" using drop[OF p5] by simp
  obtain sp6 m6 where 6: "push_words [of_nat argc] sp5 m5 = Some (sp6, m6)" "pushed [of_nat argc] sp5 m5 sp6 m6"
    using push_words_pushed[of "[of_nat argc]" sp5 m5] assms(1,2) u5 by auto
  show ?thesis using 1(1) 2(1) 3(1) 4(1) 5(1) 6(1) pushed_trans[OF p5 6(2)]
    by (simp add: push_tables_def del: push_words.simps push_array.simps)
qed

section \<open>The whole stack\<close>

definition auxv :: "Elf64_Ehdr \<Rightarrow> u64 list" where
  "auxv e = [6, 4096, 3, e_phoff e + e_entry e, 4, ucast (e_phentsize e), 5, ucast (e_phnum e), 9, e_entry e,
     11, 0, 12, 0, 13, 0, 14, 0, 23, 0, 0, 0]"

lemma auxv_rev: "rev (auxv_pushes e) = auxv e" "length (auxv_pushes e) = 22"
  by (simp_all add: auxv_pushes_def auxv_def)

lemma ehdr_cong: "(\<And>y. a \<le> y \<Longrightarrow> y < a + 64 \<Longrightarrow> m y = m' y) \<Longrightarrow> ehdr_at m a = ehdr_at m' a"
  unfolding ehdr_at_def load16_def load64_def by (auto intro!: arg_cong[of _ _ le_word] load_bytes_cong)

lemma unat_align16: "unat (sp AND NOT 15 :: u64) = unat sp - unat sp mod 16"
proof -
  have m: "(15 :: u64) = mask 4" by (simp add: mask_eq_exp_minus_1)
  show ?thesis unfolding m unat_and_not_mask by simp
qed

lemma aligned_part:
  assumes "s + 8 * (25 + a + b) = (t :: nat)" "16 dvd t"
  shows "s mod 16 = (if even (a + b) then 8 else 0)"
proof (cases "even (a + b)")
  case True
  then obtain k where "a + b = 2 * k" by blast
  then show ?thesis using assms True by simp presburger
next
  case False
  then obtain k where "a + b = 2 * k + 1" by (blast elim: oddE)
  then show ?thesis using assms False by simp presburger
qed

lemma write_stack_layout:
  assumes arrays: "0x800000 \<le> argp" "0x800000 \<le> envp2"
      "argp + 8 * (length argv + 1) \<le> envp2 \<or> envp2 + 8 * (length envp + 1) \<le> argp"
    and strings: "\<forall>s \<in> set argv \<union> set envp. 0 \<notin> set s"
    and room: "strs_size (length argv) argv + strs_size (length envp) envp + 8 * (length argv + length envp) + 215 \<le> 0x20000"
    and hdr: "\<forall>y. ehdr \<le> y \<and> y < ehdr + 64 \<longrightarrow> 0x800000 \<le> y \<and> (y < argp \<or> argp + 8 * (length argv + 1) \<le> y)
      \<and> (y < envp2 \<or> envp2 + 8 * (length envp + 1) \<le> y)"
  obtains sp m' as es where "write_stack ehdr argv envp argp envp2 m = Some (sp, m')"
    "0x7E0000 \<le> unat sp" "unat sp \<le> 0x800000" "unat sp mod 16 = (if even (length argv + length envp) then 8 else 0)"
    "load_words m' (unat sp) (25 + length argv + length envp) = of_nat (length argv) # as @ 0 # es @ 0 # auxv (ehdr_at m ehdr)"
    "list_all2 (points_to m' (unat sp) 0x800000) as argv" "list_all2 (points_to m' (unat sp) 0x800000) es envp"
    "\<And>y. y < 0x7E0000 \<or> 0x800000 \<le> y \<Longrightarrow> y < argp \<or> argp + 8 * (length argv + 1) \<le> y
       \<Longrightarrow> y < envp2 \<or> envp2 + 8 * (length envp + 1) \<le> y \<Longrightarrow> m' y = m y"
proof -
  let ?na = "length argv" and ?ne = "length envp"
  have top: "unat USER_STACK_TOP = 0x800000" by (simp add: USER_STACK_TOP_def)
  obtain sp1 m1 where 1: "push_strings argv argp ?na USER_STACK_TOP m = Some (sp1, m1)"
      "unat sp1 + strs_size ?na argv = 0x800000"
      "\<And>j. j < ?na \<Longrightarrow> points_to m1 (unat sp1) 0x800000 (load64 m1 (argp + 8 * j)) (argv ! j)"
      "\<And>x. x < unat sp1 \<or> 0x800000 \<le> x \<Longrightarrow> x < argp \<or> argp + 8 * ?na \<le> x \<Longrightarrow> m1 x = m x"
    using push_strings_ok[of ?na argv USER_STACK_TOP argp m] arrays(1) strings room unfolding top by auto
  define m2 where "m2 = store64 m1 (argp + 8 * ?na) 0"
  obtain sp2 m3 where 2: "push_strings envp envp2 ?ne sp1 m2 = Some (sp2, m3)"
      "unat sp2 + strs_size ?ne envp = unat sp1"
      "\<And>j. j < ?ne \<Longrightarrow> points_to m3 (unat sp2) (unat sp1) (load64 m3 (envp2 + 8 * j)) (envp ! j)"
      "\<And>x. x < unat sp2 \<or> unat sp1 \<le> x \<Longrightarrow> x < envp2 \<or> envp2 + 8 * ?ne \<le> x \<Longrightarrow> m3 x = m2 x"
    using push_strings_ok[of ?ne envp sp1 envp2 m2] arrays(2) strings room 1(2) by auto
  define m4 where "m4 = store64 m3 (envp2 + 8 * ?ne) 0"
  define sp3 where "sp3 = sp2 AND NOT (15 :: u64)"
  have u3: "unat sp3 = unat sp2 - unat sp2 mod 16" unfolding sp3_def by (rule unat_align16)
  then have lo: "unat sp2 < unat sp3 + 16" "unat sp3 \<le> unat sp2" "16 dvd unat sp3" by (auto simp: minus_mod_eq_mult_div)
  let ?vs = "auxv_pushes (ehdr_at m4 ehdr) @ [0] @ rev (load_words m4 envp2 ?ne) @ [0] @ rev (load_words m4 argp ?na) @ [of_nat ?na]"
  obtain sp m' where 3: "push_tables (auxv_pushes (ehdr_at m4 ehdr)) argp ?na envp2 ?ne sp3 m4 = Some (sp, m')"
      "pushed ?vs sp3 m4 sp m'"
    using push_tables_pushed[of "auxv_pushes (ehdr_at m4 ehdr)" ?na ?ne sp3 argp envp2 m4] arrays(1,2) lo room 1(2) 2(2)
    by (auto simp: auxv_rev)
  have usp: "unat sp + 8 * (25 + ?na + ?ne) = unat sp3"
    and ld: "load_words m' (unat sp) (25 + ?na + ?ne) = rev ?vs"
    and fr3: "\<And>x. x < unat sp \<or> unat sp3 \<le> x \<Longrightarrow> m' x = m4 x"
    using 3(2) by (auto simp: pushed_def auxv_rev algebra_simps)
  have run: "write_stack ehdr argv envp argp envp2 m = Some (sp, m')"
    unfolding write_stack_def 1(1) 2(1) bind.bind_lunit prod.case Let_def m2_def[symmetric] m4_def[symmetric] sp3_def[symmetric] 3(1) ..
  have m4: "m4 y = m y" if "y < unat sp2 \<or> 0x800000 \<le> y" "y < argp \<or> argp + 8 * (?na + 1) \<le> y" "y < envp2 \<or> envp2 + 8 * (?ne + 1) \<le> y" for y
    using that 1(2) 1(4)[of y] 2(2) 2(4)[of y] by (auto simp: m4_def m2_def store64_other)
  have e: "ehdr_at m4 ehdr = ehdr_at m ehdr" by (rule ehdr_cong, rule m4) (use hdr in auto)
  have range: "0x7E0000 \<le> unat sp" "unat sp \<le> unat sp3" using usp lo(1) 1(2) 2(2) room by simp_all
  have as: "list_all2 (points_to m' (unat sp) 0x800000) (load_words m4 argp ?na) argv"
  proof (rule points_to_list[OF 1(3)])
    show "m' y = m1 y" if "unat sp1 \<le> y" "y < 0x800000" for y
      using that arrays(1,2) lo(2) 2(2) 2(4)[of y] fr3[of y] by (auto simp: m4_def m2_def store64_other)
    show "m4 y = m1 y" if "argp \<le> y" "y < argp + 8 * ?na" for y
      using that arrays 1(2) 2(2) 2(4)[of y] by (auto simp: m4_def m2_def store64_other)
  qed (use range lo(2) 2(2) in auto)
  have es: "list_all2 (points_to m' (unat sp) 0x800000) (load_words m4 envp2 ?ne) envp"
  proof (rule points_to_list[OF 2(3)])
    show "m' y = m3 y" if "unat sp2 \<le> y" "y < unat sp1" for y
      using that arrays(2) lo(2) 1(2) fr3[of y] by (auto simp: m4_def store64_other)
    show "m4 y = m3 y" if "envp2 \<le> y" "y < envp2 + 8 * ?ne" for y
      using that by (auto simp: m4_def store64_other)
  qed (use range lo(2) 1(2) in auto)
  have words: "load_words m' (unat sp) (25 + ?na + ?ne) = of_nat ?na # load_words m4 argp ?na @ 0 # load_words m4 envp2 ?ne @ 0 # auxv (ehdr_at m ehdr)"
    unfolding ld by (simp add: e auxv_rev(1)[symmetric])
  show thesis
  proof (rule that[OF run range(1) _ _ words as es])
    show "unat sp \<le> 0x800000" using range(2) lo(2) 1(2) 2(2) by simp
    show "unat sp mod 16 = (if even (?na + ?ne) then 8 else 0)" by (rule aligned_part[OF usp lo(3)])
    show "m' y = m y" if "y < 0x7E0000 \<or> 0x800000 \<le> y" "y < argp \<or> argp + 8 * (?na + 1) \<le> y" "y < envp2 \<or> envp2 + 8 * (?ne + 1) \<le> y" for y
    proof -
      have "unat sp3 \<le> 0x800000" using lo(2) 1(2) 2(2) by simp
      then have "m' y = m4 y" using that range by (intro fr3) auto
      also have "\<dots> = m y" using that range lo(2) by (intro m4) auto
      finally show ?thesis .
    qed
  qed
qed

section \<open>The stack over the heap\<close>

text \<open>The two arrays of pointers.\<close>

lemma fresh_map_le: "w p = None \<Longrightarrow> w \<subseteq>\<^sub>m w(p \<mapsto> k)"
  by (auto simp: map_le_def)

lemma arrays_stage:
  assumes "heap_inv h ow" "a \<le> 2 ^ 31" "e \<le> 2 ^ 31"
  obtains argp h3 envp2 h4 ow' where "kmalloc lim (of_nat a) h = Some (argp, h3)" "kmalloc lim (of_nat e) h3 = Some (envp2, h4)"
    "heap_inv h4 ow'" "ow \<subseteq>\<^sub>m ow'" "same_data hmem h h4 ow"
    "argp \<noteq> 0 \<Longrightarrow> envp2 \<noteq> 0 \<Longrightarrow> ow argp = None \<and> ow envp2 = None \<and> ow' argp = Some a \<and> ow' envp2 = Some e \<and> argp \<noteq> envp2
       \<and> heap_start h4 = heap_start h \<and> heap_start h \<le> argp \<and> heap_start h \<le> envp2"
proof (cases rule: malloc_cases[OF assms(1,2), of lim])
  case (1 h3)
  show thesis
  proof (cases rule: malloc_cases[OF 1(2) assms(3), of lim])
    case (1 h4)
    then show thesis using that[of 0 h3 0 h4 ow] \<open>kmalloc lim (of_nat a) h = Some (0, h3)\<close> same_data_trans[OF \<open>same_data hmem h h3 ow\<close>] by simp
  next
    case (2 q h4)
    then show thesis using that[of 0 h3 q h4 "ow(q \<mapsto> e)"] \<open>kmalloc lim (of_nat a) h = Some (0, h3)\<close>
        same_data_trans[OF \<open>same_data hmem h h3 ow\<close> 2(5)] fresh_map_le[of ow q e] by simp
  qed
next
  case (2 p h3)
  note p = 2 and al = alloc_preserves[OF assms(1,2) 2(1,2)]
  have sub: "ow \<subseteq>\<^sub>m ow(p \<mapsto> a)" using p(3) by (rule fresh_map_le)
  show thesis
  proof (cases rule: malloc_cases[OF p(4) assms(3), of lim])
    case (1 h4)
    then show thesis using that[of p h3 0 h4 "ow(p \<mapsto> a)"] p(1) sub same_data_trans[OF p(5) _ sub] by simp
  next
    case (2 q h4)
    note al2 = alloc_preserves[OF p(4) assms(3) 2(1,2)]
    have q: "q \<noteq> p" "ow q = None" using 2(3) by (auto split: if_splits)
    have "ow \<subseteq>\<^sub>m ow(p \<mapsto> a, q \<mapsto> e)" by (rule map_le_trans[OF sub fresh_map_le]) (rule 2(3))
    then show thesis using that[of p h3 q h4 "ow(p \<mapsto> a, q \<mapsto> e)"] p 2 q al(1,2) al2(1,2) same_data_trans[OF p(5) 2(5) sub] by simp
  qed
qed

text \<open>Writing to the stack area and to the two arrays.\<close>

lemma write_inv:
  assumes "heap_inv h ow" "ow p = Some a" "ow q = Some e" "hi \<le> heap_start h"
    and "\<And>y. hi \<le> y \<Longrightarrow> y < p \<or> p + a \<le> y \<Longrightarrow> y < q \<or> q + e \<le> y \<Longrightarrow> m' y = hmem h y"
  shows "heap_inv (h\<lparr>hmem := m'\<rparr>) ow"
proof -
  let ?m1 = "\<lambda>y. if p \<le> y \<and> y < p + a then m' y else hmem h y"
  let ?m2 = "\<lambda>y. if q \<le> y \<and> y < q + e then m' y else ?m1 y"
  have 1: "heap_inv (h\<lparr>hmem := ?m1\<rparr>) ow" by (rule heap_inv_write[OF assms(1,2)]) auto
  have 2: "heap_inv (h\<lparr>hmem := ?m1\<rparr>\<lparr>hmem := ?m2\<rparr>) ow" by (rule heap_inv_write[OF 1 assms(3)]) auto
  have "heap_inv (h\<lparr>hmem := ?m1\<rparr>\<lparr>hmem := ?m2\<rparr>\<lparr>hmem := m'\<rparr>) ow"
    by (rule heap_inv_outside[OF 2]) (use assms(4,5) in auto)
  then show ?thesis by simp
qed

text \<open>The three allocations of the loader, each in the heap the one before left.\<close>

definition allocations :: "nat \<Rightarrow> nat \<Rightarrow> system_limits \<Rightarrow> heap \<Rightarrow> (addr \<times> addr \<times> addr \<times> heap) option" where
  "allocations argc envc lim hp =
     (case kmalloc lim (of_nat USER_STACK_SIZE) hp of None \<Rightarrow> None
      | Some (b, h1) \<Rightarrow>
          if b = 0 then Some (0, 0, 0, h1)
          else (case kmalloc lim (of_nat (8 * (argc + 1))) (h1\<lparr>hmem := fill (hmem h1) b USER_STACK_SIZE 0\<rparr>) of None \<Rightarrow> None
                | Some (p, h3) \<Rightarrow> map_option (\<lambda>(q, h4). (b, p, q, h4)) (kmalloc lim (of_nat (8 * (envc + 1))) h3)))"

lemma build_allocations:
  "build_user_stack ehdr argv envp lim hp =
     (case allocations (length argv) (length envp) lim hp of None \<Rightarrow> None
      | Some (b, p, q, h4) \<Rightarrow> if b = 0 \<or> p = 0 \<or> q = 0 then Some (0, h4)
          else map_option (\<lambda>(sp, m). (sp, h4\<lparr>hmem := m\<rparr>)) (write_stack ehdr argv envp p q (hmem h4)))"
  by (simp add: build_user_stack_def allocations_def memset_fill Let_def split: option.split)

lemma clear_block:
  assumes "heap_inv h (ow(b \<mapsto> n))" "ow b = None"
  shows "heap_inv (h\<lparr>hmem := fill (hmem h) b n 0\<rparr>) (ow(b \<mapsto> n))" "same_data hmem h (h\<lparr>hmem := fill (hmem h) b n 0\<rparr>) ow"
proof -
  show "heap_inv (h\<lparr>hmem := fill (hmem h) b n 0\<rparr>) (ow(b \<mapsto> n))"
    by (rule heap_inv_write[OF assms(1), of b n]) (auto simp: fill_def)
  show "same_data hmem h (h\<lparr>hmem := fill (hmem h) b n 0\<rparr>) ow" unfolding same_data_def
  proof (intro allI impI, elim conjE)
    fix p k y assume p: "ow p = Some k" "p \<le> y" "y < p + k"
    then have "p \<noteq> b" using assms(2) by auto
    then have "p + k \<le> b \<or> b + n \<le> p" using heap_inv_disjoint[OF assms(1), of p k b n] p(1) by auto
    then show "hmem (h\<lparr>hmem := fill (hmem h) b n 0\<rparr>) y = hmem h y" using p by (auto simp: fill_def)
  qed
qed

lemma allocations_ok:
  assumes inv: "heap_inv hp ow" and sz: "8 * (argc + 1) \<le> 2 ^ 31" "8 * (envc + 1) \<le> 2 ^ 31"
  obtains b p q h ow' where "allocations argc envc lim hp = Some (b, p, q, h)" "heap_inv h ow'" "ow \<subseteq>\<^sub>m ow'" "same_data hmem hp h ow"
    "b \<noteq> 0 \<Longrightarrow> p \<noteq> 0 \<Longrightarrow> q \<noteq> 0 \<Longrightarrow> ow p = None \<and> ow q = None \<and> ow' p = Some (8 * (argc + 1)) \<and> ow' q = Some (8 * (envc + 1)) \<and> p \<noteq> q
       \<and> heap_start h = heap_start hp \<and> heap_start hp \<le> p \<and> heap_start hp \<le> q"
proof -
  have st: "USER_STACK_SIZE \<le> 2 ^ 31" by (simp add: USER_STACK_SIZE_def)
  show thesis
  proof (cases rule: malloc_cases[OF inv st, of lim])
    case (1 h1)
    then show thesis using that[of 0 0 0 h1 ow] by (simp add: allocations_def)
  next
    case (2 b h1)
    let ?o1 = "ow(b \<mapsto> USER_STACK_SIZE)" and ?h2 = "h1\<lparr>hmem := fill (hmem h1) b USER_STACK_SIZE 0\<rparr>"
    note cl = clear_block[OF 2(4,3)]
    have o1: "ow \<subseteq>\<^sub>m ?o1" using 2(3) by (rule fresh_map_le)
    have d2: "same_data hmem hp ?h2 ow" by (rule same_data_trans[OF 2(5) cl(2)]) simp
    have s2: "heap_start ?h2 = heap_start hp" using alloc_preserves(1)[OF inv st 2(1,2)] by simp
    obtain p h3 q h4 ow' where ar: "kmalloc lim (of_nat (8 * (argc + 1))) ?h2 = Some (p, h3)" "kmalloc lim (of_nat (8 * (envc + 1))) h3 = Some (q, h4)"
      "heap_inv h4 ow'" "?o1 \<subseteq>\<^sub>m ow'" "same_data hmem ?h2 h4 ?o1"
      "p \<noteq> 0 \<Longrightarrow> q \<noteq> 0 \<Longrightarrow> ?o1 p = None \<and> ?o1 q = None \<and> ow' p = Some (8 * (argc + 1)) \<and> ow' q = Some (8 * (envc + 1)) \<and> p \<noteq> q
        \<and> heap_start h4 = heap_start ?h2 \<and> heap_start ?h2 \<le> p \<and> heap_start ?h2 \<le> q"
      by (rule arrays_stage[OF cl(1) sz, of lim]) blast
    have "allocations argc envc lim hp = Some (b, p, q, h4)" using 2(1,2) ar(1,2) by (simp add: allocations_def)
    moreover have "ow r = None" if "?o1 r = None" for r using that by (simp split: if_splits)
    ultimately show thesis
      using that[of b p q h4 ow'] ar(3,6) map_le_trans[OF o1 ar(4)] same_data_trans[OF d2 ar(5) o1] s2 by simp
  qed
qed

lemma stack_written:
  assumes inv: "heap_inv h ow'" and sub: "ow \<subseteq>\<^sub>m ow'" and same: "same_data hmem hp h ow" and lo: "0x800000 \<le> heap_start h"
    and ar: "ow p = None" "ow q = None" "ow' p = Some (8 * (length argv + 1))" "ow' q = Some (8 * (length envp + 1))" "p \<noteq> q"
    and strings: "\<forall>s \<in> set argv \<union> set envp. 0 \<notin> set s"
    and room: "strs_size (length argv) argv + strs_size (length envp) envp + 8 * (length argv + length envp) + 215 \<le> 0x20000"
    and hdr: "ow d = Some n" "d \<le> ehdr" "ehdr + 64 \<le> d + n"
  obtains sp m' as es where "write_stack ehdr argv envp p q (hmem h) = Some (sp, m')" "heap_inv (h\<lparr>hmem := m'\<rparr>) ow'"
    "same_data hmem hp (h\<lparr>hmem := m'\<rparr>) ow"
    "0x7E0000 \<le> unat sp" "unat sp \<le> 0x800000" "unat sp mod 16 = (if even (length argv + length envp) then 8 else 0)"
    "load_words m' (unat sp) (25 + length argv + length envp) = of_nat (length argv) # as @ 0 # es @ 0 # auxv (ehdr_at (hmem hp) ehdr)"
    "list_all2 (points_to m' (unat sp) 0x800000) as argv" "list_all2 (points_to m' (unat sp) 0x800000) es envp"
proof -
  let ?A = "8 * (length argv + 1)" and ?E = "8 * (length envp + 1)"
  have hi: "0x800000 \<le> p" "0x800000 \<le> q" using owned_above[OF inv ar(3)] owned_above[OF inv ar(4)] lo by auto
  have apart: "0x800000 \<le> y \<and> (y < p \<or> p + ?A \<le> y) \<and> (y < q \<or> q + ?E \<le> y)" if r: "ow r = Some k" "r \<le> y" "y < r + k" for r k y
  proof -
    have r': "ow' r = Some k" using r(1) sub by (metis domI map_le_def)
    moreover have "r \<noteq> p" "r \<noteq> q" using r(1) ar(1,2) by auto
    ultimately have "r + k \<le> p \<or> p + ?A \<le> r" "r + k \<le> q \<or> q + ?E \<le> r" using ar heap_inv_disjoint[OF inv, of r k] by blast+
    then show ?thesis using r(2,3) owned_above[OF inv r'] lo by linarith
  qed
  have same': "hmem h y = hmem hp y" if "ow r = Some k" "r \<le> y" "y < r + k" for r k y
    using same that by (auto simp: same_data_def)
  have eh: "ehdr_at (hmem h) ehdr = ehdr_at (hmem hp) ehdr" by (rule ehdr_cong, rule same'[OF hdr(1)]) (use hdr(2,3) in auto)
  have hd: "\<forall>y. ehdr \<le> y \<and> y < ehdr + 64 \<longrightarrow> 0x800000 \<le> y \<and> (y < p \<or> p + ?A \<le> y) \<and> (y < q \<or> q + ?E \<le> y)"
  proof (intro allI impI)
    fix y assume "ehdr \<le> y \<and> y < ehdr + 64"
    then show "0x800000 \<le> y \<and> (y < p \<or> p + ?A \<le> y) \<and> (y < q \<or> q + ?E \<le> y)" using hdr(2,3) by (intro apart[OF hdr(1)]) auto
  qed
  have dis: "p + ?A \<le> q \<or> q + ?E \<le> p" by (rule heap_inv_disjoint[OF inv ar(3,4,5)])
  show thesis
  proof (rule write_stack_layout[OF hi dis strings room hd, where m = "hmem h"])
    fix sp m' as es
    assume w: "write_stack ehdr argv envp p q (hmem h) = Some (sp, m')" "0x7E0000 \<le> unat sp" "unat sp \<le> 0x800000"
      "unat sp mod 16 = (if even (length argv + length envp) then 8 else 0)"
      "load_words m' (unat sp) (25 + length argv + length envp) = of_nat (length argv) # as @ 0 # es @ 0 # auxv (ehdr_at (hmem h) ehdr)"
      "list_all2 (points_to m' (unat sp) 0x800000) as argv" "list_all2 (points_to m' (unat sp) 0x800000) es envp"
      and out: "\<And>y. y < 0x7E0000 \<or> 0x800000 \<le> y \<Longrightarrow> y < p \<or> p + ?A \<le> y \<Longrightarrow> y < q \<or> q + ?E \<le> y \<Longrightarrow> m' y = hmem h y"
    have i: "heap_inv (h\<lparr>hmem := m'\<rparr>) ow'" by (rule write_inv[OF inv ar(3,4) lo]) (use out in blast)
    have "m' y = hmem hp y" if "ow r = Some k" "r \<le> y" "y < r + k" for r k y
      using apart[OF that] same'[OF that] out[of y] by simp
    then have "same_data hmem hp (h\<lparr>hmem := m'\<rparr>) ow" by (auto simp: same_data_def)
    from that[OF w(1) i this w(2-4) w(5)[unfolded eh] w(6,7)] show thesis .
  qed
qed

text \<open>There is memory for the stack and the two arrays.\<close>

definition stack_memory :: "nat \<Rightarrow> nat \<Rightarrow> system_limits \<Rightarrow> heap \<Rightarrow> bool" where
  "stack_memory argc envc lim hp \<longleftrightarrow>
     (case allocations argc envc lim hp of None \<Rightarrow> False | Some (b, p, q, h) \<Rightarrow> b \<noteq> 0 \<and> p \<noteq> 0 \<and> q \<noteq> 0)"

text \<open>
  C14. The initial stack of a program, when the heap lies above the stack area and the strings fit: \<^verbatim>\<open>build_user_stack\<close>
  returns 0 exactly when one of its three allocations fails, and otherwise a stack pointer inside the stack area from
  which the words upwards are the argument count, pointers to the arguments, a null pointer, pointers to the
  environment strings, a null pointer and the auxiliary vector of the program header; each pointer leads to its
  string, terminated and inside the area. The stack pointer is a multiple of 16 exactly when the numbers of strings
  add up to an odd number. The heap stays consistent and the bytes of its other blocks are the same.
\<close>

theorem initial_stack_layout:
  assumes "heap_inv hp ow" "0x800000 \<le> heap_start hp" "\<forall>s \<in> set argv \<union> set envp. 0 \<notin> set s"
    and "strs_size (length argv) argv + strs_size (length envp) envp + 8 * (length argv + length envp) + 215 \<le> 0x20000"
    and "ow d = Some n" "d \<le> ehdr" "ehdr + 64 \<le> d + n"
  shows "\<exists>sp hp' ow'. build_user_stack ehdr argv envp lim hp = Some (sp, hp') \<and> heap_inv hp' ow' \<and> ow \<subseteq>\<^sub>m ow'
    \<and> same_data hmem hp hp' ow
    \<and> (sp = 0 \<longleftrightarrow> \<not> stack_memory (length argv) (length envp) lim hp)
    \<and> (sp \<noteq> 0 \<longrightarrow> 0x7E0000 \<le> unat sp \<and> unat sp \<le> 0x800000
        \<and> unat sp mod 16 = (if even (length argv + length envp) then 8 else 0)
        \<and> (\<exists>as es. load_words (hmem hp') (unat sp) (25 + length argv + length envp)
               = of_nat (length argv) # as @ 0 # es @ 0 # auxv (ehdr_at (hmem hp) ehdr)
             \<and> list_all2 (points_to (hmem hp') (unat sp) 0x800000) as argv
             \<and> list_all2 (points_to (hmem hp') (unat sp) 0x800000) es envp))"
proof -
  have sz: "8 * (length argv + 1) \<le> 2 ^ 31" "8 * (length envp + 1) \<le> 2 ^ 31" using assms(4) by simp_all
  obtain b p q h ow' where al: "allocations (length argv) (length envp) lim hp = Some (b, p, q, h)" "heap_inv h ow'" "ow \<subseteq>\<^sub>m ow'"
    "same_data hmem hp h ow"
    and nz: "b \<noteq> 0 \<Longrightarrow> p \<noteq> 0 \<Longrightarrow> q \<noteq> 0 \<Longrightarrow> ow p = None \<and> ow q = None \<and> ow' p = Some (8 * (length argv + 1))
      \<and> ow' q = Some (8 * (length envp + 1)) \<and> p \<noteq> q \<and> heap_start h = heap_start hp \<and> heap_start hp \<le> p \<and> heap_start hp \<le> q"
    by (rule allocations_ok[OF assms(1) sz, of lim]) blast
  show ?thesis
  proof (cases "b = 0 \<or> p = 0 \<or> q = 0")
    case True
    then have "build_user_stack ehdr argv envp lim hp = Some (0, h)" using al(1) by (simp add: build_allocations)
    moreover have "\<not> stack_memory (length argv) (length envp) lim hp" using al(1) True by (auto simp: stack_memory_def)
    ultimately show ?thesis using al(2-4) by (intro exI[of _ 0] exI[of _ h] exI[of _ ow']) simp
  next
    case False
    then have z: "b \<noteq> 0" "p \<noteq> 0" "q \<noteq> 0" by auto
    note nz = nz[OF z]
    have lo: "0x800000 \<le> heap_start h" using nz assms(2) by simp
    have "ow p = None" "ow q = None" "ow' p = Some (8 * (length argv + 1))" "ow' q = Some (8 * (length envp + 1))" "p \<noteq> q"
      using nz by auto
    then obtain sp m' as es where w: "write_stack ehdr argv envp p q (hmem h) = Some (sp, m')"
      and post: "heap_inv (h\<lparr>hmem := m'\<rparr>) ow'" "same_data hmem hp (h\<lparr>hmem := m'\<rparr>) ow"
        "0x7E0000 \<le> unat sp" "unat sp \<le> 0x800000" "unat sp mod 16 = (if even (length argv + length envp) then 8 else 0)"
        "load_words m' (unat sp) (25 + length argv + length envp) = of_nat (length argv) # as @ 0 # es @ 0 # auxv (ehdr_at (hmem hp) ehdr)"
        "list_all2 (points_to m' (unat sp) 0x800000) as argv" "list_all2 (points_to m' (unat sp) 0x800000) es envp"
      by (rule stack_written[OF al(2,3,4) lo _ _ _ _ _ assms(3-7)])
    have "build_user_stack ehdr argv envp lim hp = Some (sp, h\<lparr>hmem := m'\<rparr>)" using al(1) z w by (simp add: build_allocations)
    moreover have "stack_memory (length argv) (length envp) lim hp" "sp \<noteq> 0" using al(1) z post(3) by (auto simp: stack_memory_def)
    moreover have "hmem (h\<lparr>hmem := m'\<rparr>) = m'" by simp
    ultimately show ?thesis using al(3) post by (metis (no_types, lifting))
  qed
qed

text \<open>A heap behind a kernel that ends at 9 MB, with a block for the program header.\<close>

definition high_heap :: heap where "high_heap = fst (vmm_init 0x900000 (heap_boot (\<lambda>_. 0)) pmm_zero)"

lemma high_heap_ok: "heap_ok high_heap [(0x900000, 33554432, True)] [0x900000]" "heap_start high_heap = 0x900000"
proof -
  show st: "heap_start high_heap = 0x900000"
    using heap_rep_init(2)[of "0x900000" "heap_boot (\<lambda>_. 0)" pmm_zero] by (simp add: high_heap_def)
  then have "heap_rep high_heap [(0x900000, 33554432, True)] [0x900000]"
    using heap_rep_init(1)[of "0x900000" "heap_boot (\<lambda>_. 0)" pmm_zero] by (simp add: high_heap_def)
  moreover have "acct high_heap [(0x900000, 33554432, True)]"
    by (simp add: acct_def high_heap_def vmm_init_def heap_boot_def Let_def)
  ultimately show "heap_ok high_heap [(0x900000, 33554432, True)] [0x900000]" by (simp add: heap_ok_def canaries_def)
qed

lemma high_heap_alloc: "\<exists>st. kmalloc open_limits 100 high_heap = Some (0x900020, st)"
proof -
  have sz: "(100 :: u64) \<noteq> 0" "unat (100 :: u64) \<le> 2 ^ 31" by simp_all
  have f: "List.find (fits [(0x900000, 33554432, True)] (blk_need (unat (100 :: u64) + 4))) [0x900000] = Some 0x900000"
    by (simp add: fits_def blk_need_def)
  show ?thesis by (rule kmalloc_ok[OF high_heap_ok(1) sz open_limits_allow f]) auto
qed

theorem initial_stack_layout_witness:
  "\<exists>st sp hp'. kmalloc open_limits 100 high_heap = Some (0x900020, st)
     \<and> build_user_stack 0x900020 [[97, 98]] [[99]] open_limits st = Some (sp, hp')
     \<and> (sp = 0 \<longleftrightarrow> \<not> stack_memory 1 1 open_limits st)
     \<and> (sp \<noteq> 0 \<longrightarrow> unat sp mod 16 = 8 \<and> load64 (hmem hp') (unat sp) = 1)"
proof -
  obtain st where k: "kmalloc open_limits (of_nat 100) high_heap = Some (0x900020, st)" using high_heap_alloc by auto
  have i0: "heap_inv high_heap Map.empty" by (rule heap_invI[OF high_heap_ok(1)]) (simp add: owns_def)
  have "heap_inv st [0x900020 \<mapsto> 100]" using heap_inv_alloc[OF i0, of 100 open_limits] k by (simp add: ok_request_def)
  moreover have "0x800000 \<le> heap_start st" using alloc_preserves(1)[OF i0 _ k] high_heap_ok(2) by simp
  ultimately obtain sp hp' where "build_user_stack 0x900020 [[97, 98]] [[99]] open_limits st = Some (sp, hp')"
    "sp = 0 \<longleftrightarrow> \<not> stack_memory 1 1 open_limits st"
    "sp \<noteq> 0 \<longrightarrow> unat sp mod 16 = 8 \<and> (\<exists>as es. load_words (hmem hp') (unat sp) 27 = 1 # as @ 0 # es @ 0 # auxv (ehdr_at (hmem st) 0x900020))"
    using initial_stack_layout[where hp = st and ow = "[0x900020 \<mapsto> 100]" and argv = "[[97, 98]]" and envp = "[[99]]"
        and d = "0x900020" and n = 100 and ehdr = "0x900020" and lim = open_limits]
    by (auto simp: strs_size_def)
  moreover have "load64 m a = 1" if "load_words m a 27 = 1 # xs" for m a xs
    using arg_cong[OF that, of hd] by (simp add: load_words_def upt_rec)
  ultimately show ?thesis using k by auto
qed

end
