(* ===== verification/Linux_Memory.thy ===== *)
theory Linux_Memory
  imports Elf_Props
begin

text \<open>
  Memory for Linux programs, \<^verbatim>\<open>kernel/linux/linux_memory.c\<close>: \<^verbatim>\<open>mmap\<close>, \<^verbatim>\<open>munmap\<close> and \<^verbatim>\<open>brk\<close> over the kernel
  heap and the page allocator. The state holds the fields of the current task that these calls use;
  the table of mappings is a block of the heap. \<^verbatim>\<open>paging_map\<close> does nothing, so the pages of a break
  are taken from the page allocator and the memory at the addresses of the break is cleared.
\<close>

section \<open>Operations\<close>

definition LX_MMAP_MAX :: nat where "LX_MMAP_MAX = 32"
definition MAP_ANONYMOUS :: u32 where "MAP_ANONYMOUS = 0x20"
definition EINVAL :: int where "EINVAL = 22"
definition ENOSYS :: int where "ENOSYS = 38"

record lxm =
  lx_heap :: heap
  lx_pmm :: pmm
  mmap_regions :: addr
  brk_start :: u64
  brk_current :: u64

definition region_addr :: "mem \<Rightarrow> addr \<Rightarrow> nat \<Rightarrow> u32" where "region_addr m r i = load32 m (r + 8 * i)"
definition region_length :: "mem \<Rightarrow> addr \<Rightarrow> nat \<Rightarrow> u32" where "region_length m r i = load32 m (r + 8 * i + 4)"

definition set_region :: "addr \<Rightarrow> nat \<Rightarrow> u32 \<Rightarrow> u32 \<Rightarrow> lxm \<Rightarrow> lxm" where
  "set_region r i a l s = s\<lparr>lx_heap := (lx_heap s)\<lparr>hmem := store32 (store32 (hmem (lx_heap s)) (r + 8 * i) a) (r + 8 * i + 4) l\<rparr>\<rparr>"

definition get_regions :: "system_limits \<Rightarrow> lxm \<Rightarrow> (addr \<times> lxm) option" where
  "get_regions lim s =
     (if mmap_regions s \<noteq> 0 then Some (mmap_regions s, s)
      else case kmalloc lim (of_nat (8 * LX_MMAP_MAX)) (lx_heap s) of None \<Rightarrow> None
        | Some (r, h) \<Rightarrow>
            let h1 = (if r \<noteq> 0 then h\<lparr>hmem := memset r 0 (8 * LX_MMAP_MAX) (hmem h)\<rparr> else h)
            in Some (r, s\<lparr>lx_heap := h1, mmap_regions := r\<rparr>))"

definition region_find :: "u32 \<Rightarrow> addr \<Rightarrow> lxm \<Rightarrow> nat option" where
  "region_find a r s = List.find (\<lambda>i. region_addr (hmem (lx_heap s)) r i = a) [0..<LX_MMAP_MAX]"

definition region_add :: "system_limits \<Rightarrow> u32 \<Rightarrow> u32 \<Rightarrow> lxm \<Rightarrow> lxm option" where
  "region_add lim a l s =
     (case get_regions lim s of None \<Rightarrow> None
      | Some (r, s1) \<Rightarrow>
          Some (if r = 0 then s1
                else case region_find 0 r s1 of None \<Rightarrow> s1 | Some i \<Rightarrow> set_region r i a l s1))"

definition region_remove :: "system_limits \<Rightarrow> u32 \<Rightarrow> lxm \<Rightarrow> (int \<times> lxm) option" where
  "region_remove lim a s =
     (case get_regions lim s of None \<Rightarrow> None
      | Some (r, s1) \<Rightarrow>
          if r = 0 then Some (- 1, s1)
          else (case region_find a r s1 of None \<Rightarrow> Some (- 1, s1)
                | Some i \<Rightarrow>
                    (case kfree (unat (region_addr (hmem (lx_heap s1)) r i)) (lx_heap s1) of None \<Rightarrow> None
                     | Some h \<Rightarrow> Some (0, set_region r i 0 0 (s1\<lparr>lx_heap := h\<rparr>)))))"

text \<open>The requested address, the protection, the descriptor and the offset have no effect on memory.\<close>

definition lx_mmap :: "system_limits \<Rightarrow> u32 \<Rightarrow> u32 \<Rightarrow> lxm \<Rightarrow> (u32 \<times> lxm) option" where
  "lx_mmap lim len flags s =
     (if flags AND MAP_ANONYMOUS = 0 then Some (of_int (- ENOSYS), s)
      else if len = 0 then Some (of_int (- EINVAL), s)
      else let npages = (len + 4096 - 1) div 4096; alloc_size = npages * 4096
           in case kmalloc lim (ucast alloc_size) (lx_heap s) of None \<Rightarrow> None
              | Some (mem, h) \<Rightarrow>
                  if mem = 0 then Some (of_int (- ENOMEM), s\<lparr>lx_heap := h\<rparr>)
                  else let vaddr = of_nat mem :: u32;
                           h1 = h\<lparr>hmem := memset mem 0 (unat alloc_size) (hmem h)\<rparr>
                       in map_option (\<lambda>s1. (vaddr, s1)) (region_add lim vaddr alloc_size (s\<lparr>lx_heap := h1\<rparr>)))"

definition lx_munmap :: "system_limits \<Rightarrow> u32 \<Rightarrow> lxm \<Rightarrow> (int \<times> lxm) option" where
  "lx_munmap lim a s =
     (if a = 0 then Some (- EINVAL, s)
      else map_option (\<lambda>(r, s1). (0, s1)) (region_remove lim a s))"

text \<open>The loop clears only the address of an entry.\<close>

fun free_regions :: "addr \<Rightarrow> nat list \<Rightarrow> heap \<Rightarrow> heap option" where
  "free_regions r [] h = Some h"
| "free_regions r (i # is) h =
     (let a = region_addr (hmem h) r i
      in if a = 0 then free_regions r is h
         else case kfree (unat a) h of None \<Rightarrow> None
           | Some h1 \<Rightarrow> free_regions r is (h1\<lparr>hmem := store32 (hmem h1) (r + 8 * i) 0\<rparr>))"

definition lx_munmap_all :: "lxm \<Rightarrow> lxm option" where
  "lx_munmap_all s =
     (let r = mmap_regions s
      in if r = 0 then Some s
         else case free_regions r [0..<LX_MMAP_MAX] (lx_heap s) of None \<Rightarrow> None
           | Some h \<Rightarrow> (case kfree r h of None \<Rightarrow> None | Some h1 \<Rightarrow> Some (s\<lparr>lx_heap := h1, mmap_regions := 0\<rparr>)))"

text \<open>The pages from the old to the new break, both rounded up in 32 bits.\<close>

definition page_up :: "u32 \<Rightarrow> u32" where "page_up x = (x + 4096 - 1) AND NOT (mask 12)"

definition brk_range :: "u32 \<Rightarrow> u32 \<Rightarrow> u32 list" where
  "brk_range old new = map (\<lambda>k. page_up old + of_nat (4096 * k)) [0..<(unat (page_up new) - unat (page_up old)) div 4096]"

fun brk_pages :: "u32 list \<Rightarrow> lxm \<Rightarrow> bool \<times> lxm" where
  "brk_pages [] s = (True, s)"
| "brk_pages (pa # pas) s =
     (let (phys, p) = pmm_alloc (lx_pmm s); s1 = s\<lparr>lx_pmm := p\<rparr>
      in if (ucast phys :: u32) = 0 then (False, s1)
         else brk_pages pas (s1\<lparr>lx_heap := (lx_heap s1)\<lparr>hmem := memset (unat pa) 0 PAGE_SIZE (hmem (lx_heap s1))\<rparr>\<rparr>))"

definition lx_brk :: "u32 \<Rightarrow> lxm \<Rightarrow> u32 \<times> lxm" where
  "lx_brk new_brk s =
     (let s0 = (if brk_start s = 0 then s\<lparr>brk_start := 0x600000, brk_current := 0x600000\<rparr> else s)
      in if new_brk = 0 then (ucast (brk_current s0), s0)
         else if ucast new_brk < brk_start s0 then (ucast (brk_current s0), s0)
         else if brk_current s0 < ucast new_brk
         then (case brk_pages (brk_range (ucast (brk_current s0)) new_brk) s0 of
                 (False, s1) \<Rightarrow> (ucast (brk_current s1), s1)
               | (True, s1) \<Rightarrow> (page_up new_brk, s1\<lparr>brk_current := ucast (page_up new_brk)\<rparr>))
         else (ucast (brk_current s0), s0))"

section \<open>The table of mappings\<close>

text \<open>The address and the length of entry \<open>i\<close>.\<close>

definition tbl :: "mem \<Rightarrow> addr \<Rightarrow> nat \<Rightarrow> nat \<times> nat" where
  "tbl m r i = (unat (region_addr m r i), unat (region_length m r i))"

text \<open>A task that owns the table \<open>r\<close> and the blocks in it, beside \<open>ow0\<close>.\<close>

definition holds :: "owned \<Rightarrow> addr \<Rightarrow> (nat \<Rightarrow> nat \<times> nat) \<Rightarrow> owned \<Rightarrow> bool" where
  "holds ow0 r T ow \<longleftrightarrow> r \<noteq> 0 \<and> ow0 r = None
     \<and> (\<forall>i < 32. fst (T i) \<noteq> 0 \<longrightarrow> fst (T i) \<noteq> r \<and> ow0 (fst (T i)) = None)
     \<and> (\<forall>i < 32. \<forall>j < 32. i \<noteq> j \<and> fst (T i) \<noteq> 0 \<longrightarrow> fst (T i) \<noteq> fst (T j))
     \<and> (\<forall>p n. ow p = Some n \<longleftrightarrow> ow0 p = Some n \<or> p = r \<and> n = 256 \<or> p \<noteq> 0 \<and> (\<exists>i < 32. T i = (p, n)))"

lemma holds_cong: "(\<And>i. i < 32 \<Longrightarrow> T i = T' i) \<Longrightarrow> holds ow0 r T ow = holds ow0 r T' ow"
  unfolding holds_def by (intro arg_cong2[where f = "(\<and>)"] refl) (auto; metis)+

lemma holds_iff: "holds ow0 r T ow \<Longrightarrow> ow p = Some n \<longleftrightarrow> ow0 p = Some n \<or> p = r \<and> n = 256 \<or> p \<noteq> 0 \<and> (\<exists>i < 32. T i = (p, n))"
  unfolding holds_def by blast

lemma map_eqI: "(\<And>p n. f p = Some n \<longleftrightarrow> g p = Some n) \<Longrightarrow> f = g" for f g :: "'a \<rightharpoonup> 'b"
  by (rule ext) (metis not_None_eq)

lemma holdsD:
  assumes "holds ow0 r T ow"
  shows "r \<noteq> 0" "ow r = Some 256" "ow0 r = None" "ow0 \<subseteq>\<^sub>m ow"
    and "i < 32 \<Longrightarrow> fst (T i) \<noteq> 0 \<Longrightarrow> ow (fst (T i)) = Some (snd (T i)) \<and> fst (T i) \<noteq> r \<and> ow0 (fst (T i)) = None"
    and "ow p = None \<Longrightarrow> ow0 p = None \<and> p \<noteq> r \<and> (p \<noteq> 0 \<longrightarrow> (\<forall>i < 32. fst (T i) \<noteq> p))"
proof -
  note iff = holds_iff[OF assms]
  show "r \<noteq> 0" "ow0 r = None" using assms by (auto simp: holds_def)
  show "ow r = Some 256" using iff by blast
  show "ow0 \<subseteq>\<^sub>m ow" unfolding map_le_def using iff by (metis domIff not_None_eq)
  show "i < 32 \<Longrightarrow> fst (T i) \<noteq> 0 \<Longrightarrow> ow (fst (T i)) = Some (snd (T i)) \<and> fst (T i) \<noteq> r \<and> ow0 (fst (T i)) = None"
    using assms iff[of "fst (T i)" "snd (T i)"] unfolding holds_def by (metis prod.collapse)
  show "ow p = None \<Longrightarrow> ow0 p = None \<and> p \<noteq> r \<and> (p \<noteq> 0 \<longrightarrow> (\<forall>i < 32. fst (T i) \<noteq> p))"
    using iff[of p] by (metis not_None_eq prod.collapse)
qed

lemma holds_add:
  assumes h: "holds ow0 r T ow" and i: "i < 32" "fst (T i) = 0" and a: "ow a = None" "a \<noteq> 0"
  shows "holds ow0 r (T(i := (a, l))) (ow(a \<mapsto> l))"
proof -
  note D = holdsD(6)[OF h a(1)]
  have "(ow(a \<mapsto> l)) p = Some n \<longleftrightarrow> ow0 p = Some n \<or> p = r \<and> n = 256 \<or> p \<noteq> 0 \<and> (\<exists>j < 32. (T(i := (a, l))) j = (p, n))" for p n
  proof (cases "p = a")
    case True
    then show ?thesis using D a i(1) by (auto; metis fst_conv)
  next
    case False
    have "(\<exists>j < 32. (T(i := (a, l))) j = (p, n)) = (\<exists>j < 32. T j = (p, n))" if "p \<noteq> 0" using that False i by (metis Pair_inject fst_conv fun_upd_apply)
    moreover have "(ow(a \<mapsto> l)) p = ow p" using False by simp
    ultimately show ?thesis using holds_iff[OF h, of p n] by metis
  qed
  moreover have "fst ((T(i := (a, l))) j) \<noteq> r \<and> ow0 (fst ((T(i := (a, l))) j)) = None" if "j < 32" "fst ((T(i := (a, l))) j) \<noteq> 0" for j
    using that D holdsD(5)[OF h, of j] by (cases "j = i") auto
  moreover have "fst ((T(i := (a, l))) j) \<noteq> fst ((T(i := (a, l))) k)" if "j < 32" "k < 32" "j \<noteq> k" "fst ((T(i := (a, l))) j) \<noteq> 0" for j k
    using that D a(2) h unfolding holds_def by (cases "j = i"; cases "k = i") auto
  ultimately show ?thesis using holdsD(1,3)[OF h] unfolding holds_def by blast
qed

lemma holds_remove:
  assumes h: "holds ow0 r T ow" and i: "i < 32" "fst (T i) \<noteq> 0"
  shows "holds ow0 r (T(i := (0, l))) (ow(fst (T i) := None))"
proof -
  note D = holdsD(5)[OF h i]
  have other: "fst (T j) \<noteq> fst (T i)" if "j < 32" "j \<noteq> i" for j using h i that unfolding holds_def by metis
  have "(ow(fst (T i) := None)) p = Some n \<longleftrightarrow> ow0 p = Some n \<or> p = r \<and> n = 256 \<or> p \<noteq> 0 \<and> (\<exists>j < 32. (T(i := (0, l))) j = (p, n))" for p n
  proof (cases "p = fst (T i)")
    case True
    then show ?thesis using D other by (auto split: if_splits; metis fst_conv)
  next
    case False
    have "(\<exists>j < 32. (T(i := (0, l))) j = (p, n)) = (\<exists>j < 32. T j = (p, n))" if "p \<noteq> 0" using that False by (metis Pair_inject fst_conv fun_upd_apply)
    moreover have "(ow(fst (T i) := None)) p = ow p" using False by simp
    ultimately show ?thesis using holds_iff[OF h, of p n] by metis
  qed
  moreover have "fst ((T(i := (0, l))) j) \<noteq> r \<and> ow0 (fst ((T(i := (0, l))) j)) = None" if "j < 32" "fst ((T(i := (0, l))) j) \<noteq> 0" for j
    using that holdsD(5)[OF h, of j] by (cases "j = i") auto
  moreover have "fst ((T(i := (0, l))) j) \<noteq> fst ((T(i := (0, l))) k)" if "j < 32" "k < 32" "j \<noteq> k" "fst ((T(i := (0, l))) j) \<noteq> 0" for j k
    using that h unfolding holds_def by (cases "j = i"; cases "k = i") auto
  ultimately show ?thesis using holdsD(1,3)[OF h] unfolding holds_def by blast
qed

lemma holds_empty: "r \<noteq> 0 \<Longrightarrow> ow0 r = None \<Longrightarrow> (\<And>i. i < 32 \<Longrightarrow> fst (T i) = 0) \<Longrightarrow> holds ow0 r T ow \<longleftrightarrow> ow = ow0(r \<mapsto> 256)"
proof -
  assume a: "r \<noteq> 0" "ow0 r = None" "\<And>i. i < 32 \<Longrightarrow> fst (T i) = 0"
  have none: "(p \<noteq> 0 \<and> (\<exists>i < 32. T i = (p, n))) = False" for p n using a(3) by (metis fst_conv)
  have g: "(ow0(r \<mapsto> 256)) p = Some n \<longleftrightarrow> ow0 p = Some n \<or> p = r \<and> n = 256" for p n using a(2) by auto
  have "(\<forall>p n. ow p = Some n \<longleftrightarrow> ow0 p = Some n \<or> p = r \<and> n = 256) \<longleftrightarrow> ow = ow0(r \<mapsto> 256)"
    unfolding g[symmetric] using map_eqI[of ow "ow0(r \<mapsto> 256)"] by blast
  then show ?thesis using a unfolding holds_def none by simp
qed

section \<open>Each call keeps the books\<close>

lemma tbl_store:
  assumes "i < 32" "j < 32"
  shows "tbl (store32 (store32 m (r + 8 * i) a) (r + 8 * i + 4) l) r j = (if j = i then (unat a, unat l) else tbl m r j)"
proof (cases "j = i")
  case True
  then show ?thesis by (simp add: tbl_def region_addr_def region_length_def load32_store32_other)
next
  case False
  then consider "j < i" | "i < j" by linarith
  then show ?thesis by cases (simp_all add: tbl_def region_addr_def region_length_def load32_store32_other)
qed

lemma tbl_store_addr:
  assumes "i < 32" "j < 32"
  shows "tbl (store32 m (r + 8 * i) a) r j = (if j = i then (unat a, snd (tbl m r i)) else tbl m r j)"
proof (cases "j = i")
  case True
  then show ?thesis by (simp add: tbl_def region_addr_def region_length_def load32_store32_other)
next
  case False
  then consider "j < i" | "i < j" by linarith
  then show ?thesis by cases (simp_all add: tbl_def region_addr_def region_length_def load32_store32_other)
qed

lemma tbl_cong: "(\<And>y. r \<le> y \<Longrightarrow> y < r + 256 \<Longrightarrow> m y = m' y) \<Longrightarrow> i < 32 \<Longrightarrow> tbl m r i = tbl m' r i"
  unfolding tbl_def region_addr_def region_length_def
  by (intro arg_cong2[where f = Pair] arg_cong[where f = unat] load32_cong) auto

text \<open>The books of a task: the heap is consistent, the task owns its table and what is in it beside \<open>ow0\<close>, whose blocks
  still hold the bytes of \<open>h0\<close>.\<close>

definition owner :: "owned \<Rightarrow> addr \<Rightarrow> mem \<Rightarrow> owned \<Rightarrow> bool" where
  "owner ow0 r m ow \<longleftrightarrow> (if r = 0 then ow = ow0 else holds ow0 r (tbl m r) ow)"

definition books :: "heap \<Rightarrow> owned \<Rightarrow> addr \<Rightarrow> heap \<Rightarrow> bool" where
  "books h0 ow0 r h \<longleftrightarrow> (\<exists>ow. heap_inv h ow \<and> owner ow0 r (hmem h) ow) \<and> same_data hmem h0 h ow0
     \<and> heap_start h = heap_start h0 \<and> heap_end h = heap_end h0"

lemma owner_le: "owner ow0 r m ow \<Longrightarrow> ow0 \<subseteq>\<^sub>m ow"
  by (auto simp: owner_def split: if_splits intro: holdsD(4))

text \<open>A step of the heap that keeps the bytes of all blocks the task owns.\<close>

lemma owner_same:
  assumes "owner ow0 r (hmem h) ow" "same_data hmem h h' ow"
  shows "owner ow0 r (hmem h') ow"
proof (cases "r = 0")
  case False
  then have h: "holds ow0 r (tbl (hmem h) r) ow" using assms(1) by (simp add: owner_def)
  have "tbl (hmem h) r i = tbl (hmem h') r i" if "i < 32" for i
    by (rule tbl_cong[OF _ that]) (use assms(2) holdsD(2)[OF h] in \<open>auto simp: same_data_def\<close>)
  then show ?thesis using h False holds_cong[of "tbl (hmem h) r" "tbl (hmem h') r"] by (simp add: owner_def)
qed (use assms in \<open>simp add: owner_def\<close>)

text \<open>The table is there, or it is made, all zero, from a fresh block.\<close>

lemma get_regions_cases:
  assumes "heap_inv (lx_heap s) ow"
  obtains "mmap_regions s \<noteq> 0" "get_regions lim s = Some (mmap_regions s, s)"
  | h where "mmap_regions s = 0" "get_regions lim s = Some (0, s\<lparr>lx_heap := h, mmap_regions := 0\<rparr>)" "heap_inv h ow"
      "same_data hmem (lx_heap s) h ow" "heap_start h = heap_start (lx_heap s)" "heap_end h = heap_end (lx_heap s)"
  | r h where "mmap_regions s = 0" "get_regions lim s = Some (r, s\<lparr>lx_heap := h, mmap_regions := r\<rparr>)" "r \<noteq> 0" "ow r = None"
      "heap_inv h (ow(r \<mapsto> 256))" "same_data hmem (lx_heap s) h ow" "\<forall>i < 32. tbl (hmem h) r i = (0, 0)"
      "heap_start h = heap_start (lx_heap s)" "heap_end h = heap_end (lx_heap s)"
proof (cases "mmap_regions s = 0")
  case False
  then show thesis using that(1) by (simp add: get_regions_def)
next
  case True
  have sz: "8 * LX_MMAP_MAX \<le> 2 ^ 31" "8 * LX_MMAP_MAX = 256" by (simp_all add: LX_MMAP_MAX_def)
  show thesis
  proof (cases rule: malloc_cases[OF assms sz(1), of lim])
    case (1 h)
    note fr = malloc_frame[OF assms sz(1) 1(1)]
    show thesis by (rule that(2)[OF True _ 1(2,3) fr]) (use True 1(1) in \<open>simp add: get_regions_def\<close>)
  next
    case (2 r h)
    let ?h = "h\<lparr>hmem := fill (hmem h) r 256 0\<rparr>"
    note cl = clear_block[OF 2(4)[unfolded sz(2)] 2(3)] and fr = malloc_frame[OF assms sz(1) 2(1)]
    have z: "load32 (fill (hmem h) r 256 0) (r + k) = 0" if "k + 4 \<le> 256" for k
    proof -
      have "load_bytes (fill (hmem h) r 256 0) (r + k) 4 = [0, 0, 0, 0]"
        using that by (simp add: load_bytes_def fill_def upt_rec)
      then show ?thesis by (simp add: load32_def)
    qed
    have "\<forall>i < 32. tbl (hmem ?h) r i = (0, 0)"
      using z[of "8 * i" for i] z[of "8 * i + 4" for i] by (simp add: tbl_def region_addr_def region_length_def add.assoc)
    moreover have "get_regions lim s = Some (r, s\<lparr>lx_heap := ?h, mmap_regions := r\<rparr>)"
      using True 2(1,2) by (simp add: get_regions_def memset_fill sz(2) Let_def)
    moreover have "same_data hmem (lx_heap s) ?h ow" by (rule same_data_trans[OF 2(5) cl(2)]) simp
    ultimately show thesis using that(3)[OF True, of r ?h] 2(2,3) cl(1) fr by simp
  qed
qed

lemma find_region:
  assumes "region_find a r s = Some i"
  shows "i < 32" "fst (tbl (hmem (lx_heap s)) r i) = unat a"
  using assms by (auto simp: region_find_def find_Some_iff tbl_def LX_MMAP_MAX_def)

text \<open>Writing an entry of the table.\<close>

lemma write_entry:
  assumes inv: "heap_inv h ow1" and r: "ow1 r = Some 256" "ow0 r = None" and sub: "ow0 \<subseteq>\<^sub>m ow1" and i: "i < 32"
    and same: "same_data hmem h0 h ow0" and m': "\<And>y. y < r + 8 * i \<or> r + 8 * i + 8 \<le> y \<Longrightarrow> m' y = hmem h y"
  shows "heap_inv (h\<lparr>hmem := m'\<rparr>) ow1" "same_data hmem h0 (h\<lparr>hmem := m'\<rparr>) ow0"
proof -
  show "heap_inv (h\<lparr>hmem := m'\<rparr>) ow1" by (rule heap_inv_write[OF inv r(1)], rule m') (use i in auto)
  show "same_data hmem h0 (h\<lparr>hmem := m'\<rparr>) ow0" unfolding same_data_def
  proof (intro allI impI, elim conjE)
    fix p n y assume p: "ow0 p = Some n" "p \<le> y" "y < p + n"
    then have "ow1 p = Some n" "p \<noteq> r" using sub r(2) by (auto simp: map_le_def dom_def) 
    then have "p + n \<le> r \<or> r + 256 \<le> p" using heap_inv_disjoint[OF inv _ r(1)] by blast
    then have "m' y = hmem h y" using p i by (intro m') auto
    then show "hmem (h\<lparr>hmem := m'\<rparr>) y = hmem h0 y" using same p by (auto simp: same_data_def)
  qed
qed

lemma record_entry:
  assumes inv: "heap_inv (lx_heap s) (ow(p \<mapsto> n))" "ow p = None" "owner ow0 r (hmem (lx_heap s)) ow" "r \<noteq> 0"
    and same: "same_data hmem h0 (lx_heap s) ow0" and fr: "heap_start (lx_heap s) = heap_start h0" "heap_end (lx_heap s) = heap_end h0"
    and i: "region_find 0 r s = Some i" and v: "unat v = p" "unat l = n"
  shows "books h0 ow0 r (lx_heap (set_region r i v l s))"
proof -
  note i = find_region[OF i]
  let ?m = "hmem (lx_heap s)" and ?m' = "store32 (store32 (hmem (lx_heap s)) (r + 8 * i) v) (r + 8 * i + 4) l"
  have h: "holds ow0 r (tbl ?m r) ow" using inv(3,4) by (simp add: owner_def)
  have "p \<noteq> 0" using heap_inv_bounds[OF inv(1), of p n] by simp
  then have "holds ow0 r ((tbl ?m r)(i := (p, n))) (ow(p \<mapsto> n))" using holds_add[OF h i(1) _ inv(2)] i(2) by simp
  moreover have "tbl ?m' r j = ((tbl ?m r)(i := (p, n))) j" if "j < 32" for j using tbl_store[OF i(1) that] v by simp
  ultimately have "holds ow0 r (tbl ?m' r) (ow(p \<mapsto> n))"
    using holds_cong[of "tbl ?m' r" "(tbl ?m r)(i := (p, n))" ow0 r] by blast
  then have own: "owner ow0 r ?m' (ow(p \<mapsto> n))" using inv(4) by (simp add: owner_def)
  have le: "ow0 \<subseteq>\<^sub>m ow(p \<mapsto> n)" by (rule map_le_trans[OF holdsD(4)[OF h] fresh_map_le]) (rule inv(2))
  have r: "(ow(p \<mapsto> n)) r = Some 256" using holdsD(2)[OF h] inv(2) by auto
  have out: "?m' y = ?m y" if "y < r + 8 * i \<or> r + 8 * i + 8 \<le> y" for y using that by (auto simp: store32_other)
  note w = write_entry[OF inv(1) r holdsD(3)[OF h] le i(1) same out]
  show ?thesis unfolding books_def set_region_def using w own fr by auto
qed

section \<open>The calls\<close>

text \<open>The result of a mapping is an error, or it is in the table.\<close>

definition kept :: "u32 \<Rightarrow> lxm \<Rightarrow> bool" where
  "kept v s \<longleftrightarrow> v = of_int (- ENOSYS) \<or> v = of_int (- EINVAL) \<or> v = of_int (- ENOMEM)
     \<or> mmap_regions s \<noteq> 0 \<and> region_find v (mmap_regions s) s \<noteq> None"

lemma fresh_not_found:
  assumes "owner ow0 r (hmem (lx_heap s)) ow" "ow p = None" "p \<noteq> 0" "unat v = p" "r \<noteq> 0"
  shows "region_find v r s = None"
proof (rule ccontr)
  assume "region_find v r s \<noteq> None"
  then obtain i where "region_find v r s = Some i" by blast
  note i = find_region[OF this]
  have "holds ow0 r (tbl (hmem (lx_heap s)) r) ow" using assms(1,5) by (simp add: owner_def)
  from holdsD(6)[OF this assms(2)] i assms(3,4) show False by auto
qed

lemma region_add_books:
  assumes inv: "heap_inv (lx_heap s) (ow(p \<mapsto> n))" "ow p = None" "owner ow0 (mmap_regions s) (hmem (lx_heap s)) ow"
    and same: "same_data hmem h0 (lx_heap s) ow0" and fr: "heap_start (lx_heap s) = heap_start h0" "heap_end (lx_heap s) = heap_end h0"
    and v: "unat v = p" "unat l = n"
  shows "\<exists>s'. region_add lim v l s = Some s'
    \<and> (mmap_regions s' \<noteq> 0 \<and> region_find v (mmap_regions s') s' \<noteq> None \<longrightarrow> books h0 ow0 (mmap_regions s') (lx_heap s'))"
proof (cases rule: get_regions_cases[OF inv(1), of lim])
  case 1
  have p: "p \<noteq> 0" using heap_inv_bounds[OF inv(1), of p n] by simp
  show ?thesis
  proof (cases "region_find 0 (mmap_regions s) s")
    case None
    then show ?thesis using 1 fresh_not_found[OF inv(3,2) p v(1) 1(1)] by (simp add: region_add_def)
  next
    case (Some i)
    have "mmap_regions (set_region (mmap_regions s) i v l s) = mmap_regions s" by (simp add: set_region_def)
    then show ?thesis using 1 Some record_entry[OF inv 1(1) same fr Some v] by (simp add: region_add_def)
  qed
next
  case (2 h)
  then show ?thesis by (simp add: region_add_def)
next
  case (3 r h)
  let ?s = "s\<lparr>lx_heap := h, mmap_regions := r\<rparr>"
  have ow: "ow = ow0" using inv(3) 3(1) by (simp add: owner_def)
  have ne: "r \<noteq> p" "ow r = None" using 3(4) by (auto split: if_splits)
  have tw: "(ow(p \<mapsto> n, r \<mapsto> 256)) = (ow(r \<mapsto> 256))(p \<mapsto> n)" using ne(1) by (auto simp: fun_eq_iff)
  have hi: "heap_inv (lx_heap ?s) ((ow(r \<mapsto> 256))(p \<mapsto> n))" using 3(5) tw by simp
  have pn: "(ow(r \<mapsto> 256)) p = None" using inv(2) ne(1) by simp
  have ho: "holds ow0 r (tbl (hmem h) r) (ow(r \<mapsto> 256))" using holds_empty[OF 3(3), of ow0 "tbl (hmem h) r"] 3(7) ne(2) ow by simp
  have ho': "owner ow0 r (hmem (lx_heap ?s)) (ow(r \<mapsto> 256))" using ho 3(3) by (simp add: owner_def)
  have sd: "same_data hmem h0 (lx_heap ?s) ow0"
    using same_data_trans[OF same 3(6)] fresh_map_le[of ow p n] inv(2) ow by simp
  have "region_find 0 r ?s \<noteq> None" using 3(7) by (auto simp: region_find_def find_None_iff tbl_def LX_MMAP_MAX_def unat_eq_zero intro!: exI[of _ 0])
  then obtain i where i: "region_find 0 r ?s = Some i" by blast
  have "books h0 ow0 r (lx_heap (set_region r i v l ?s))"
    by (rule record_entry[OF hi pn ho' 3(3) sd _ _ i v]) (use 3(8,9) fr in simp_all)
  then show ?thesis using 3(2,3) i by (simp add: region_add_def set_region_def)
qed

lemma alloc_size_bound:
  fixes len :: u32
  assumes "unat len \<le> 2 ^ 31"
  shows "unat ((len + 4096 - 1) div 4096 * 4096) \<le> 2 ^ 31"
proof -
  have "unat (len + 4096 - 1) = unat len + 4095" using assms by (simp add: add_diff_eq[symmetric] unat_word_ariths)
  then have d: "unat ((len + 4096 - 1) div 4096) = (unat len + 4095) div 4096" by (simp add: unat_div_distrib)
  have "(unat len + 4095) div 4096 \<le> (2 ^ 31 + 4095) div 4096" using assms by (intro div_le_mono) simp
  then have le: "(unat len + 4095) div 4096 * 4096 \<le> 2 ^ 31" by simp
  have mul: "unat (x * 4096) = unat x * 4096 mod 2 ^ 32" for x :: u32 by (simp add: unat_word_ariths)
  show ?thesis unfolding mul d using le by simp
qed

lemma mmap_books:
  assumes bk: "books h0 ow0 (mmap_regions s) (lx_heap s)" and len: "unat len \<le> 2 ^ 31" and top: "heap_end h0 \<le> 0xFFFF0000"
  shows "\<exists>v s'. lx_mmap lim len flags s = Some (v, s') \<and> (kept v s' \<longrightarrow> books h0 ow0 (mmap_regions s') (lx_heap s'))"
proof (cases "flags AND MAP_ANONYMOUS = 0 \<or> len = 0")
  case True
  then show ?thesis using bk by (auto simp: lx_mmap_def)
next
  case False
  define sz where "sz = (len + 4096 - 1) div 4096 * (4096 :: u32)"
  have n: "unat sz \<le> 2 ^ 31" unfolding sz_def by (rule alloc_size_bound[OF len])
  obtain ow where inv: "heap_inv (lx_heap s) ow" and own: "owner ow0 (mmap_regions s) (hmem (lx_heap s)) ow"
    and sd: "same_data hmem h0 (lx_heap s) ow0" and fr: "heap_start (lx_heap s) = heap_start h0" "heap_end (lx_heap s) = heap_end h0"
    using bk by (auto simp: books_def)
  have uc: "(ucast sz :: u64) = of_nat (unat sz)" by simp
  have run: "lx_mmap lim len flags s = (case kmalloc lim (of_nat (unat sz)) (lx_heap s) of None \<Rightarrow> None
      | Some (mem, h) \<Rightarrow> if mem = 0 then Some (of_int (- ENOMEM), s\<lparr>lx_heap := h\<rparr>)
          else map_option (\<lambda>s1. (of_nat mem, s1)) (region_add lim (of_nat mem) sz
                 (s\<lparr>lx_heap := h\<lparr>hmem := fill (hmem h) mem (unat sz) 0\<rparr>\<rparr>)))"
    using False unfolding lx_mmap_def Let_def sz_def[symmetric] memset_fill uc by simp
  show ?thesis
  proof (cases rule: malloc_cases[OF inv n, of lim])
    case (1 h)
    have "books h0 ow0 (mmap_regions s) h"
      unfolding books_def using 1(2) owner_same[OF own 1(3)] same_data_trans[OF sd 1(3) owner_le[OF own]] malloc_frame[OF inv n 1(1)] fr by auto
    then show ?thesis using 1(1) by (simp add: run)
  next
    case (2 p h)
    let ?h = "h\<lparr>hmem := fill (hmem h) p (unat sz) 0\<rparr>" and ?v = "of_nat p :: u32"
    note cl = clear_block[OF 2(4,3)] and mf = malloc_frame[OF inv n 2(1)]
    have hp: "p + unat sz \<le> 0xFFFF0000" "16 dvd p" using heap_inv_bounds[OF 2(4), of p] mf fr top by auto
    then have v: "unat ?v = p" by (intro unat_of_nat32) simp
    have ne: "?v \<noteq> of_int (- ENOSYS)" "?v \<noteq> of_int (- EINVAL)" "?v \<noteq> of_int (- ENOMEM)"
      using v hp(1) by (auto simp: ENOSYS_def EINVAL_def ENOMEM_def)
    have "same_data hmem (lx_heap s) ?h ow" by (rule same_data_trans[OF 2(5) cl(2)]) simp
    note sd1 = this
    have "\<exists>s'. region_add lim ?v sz (s\<lparr>lx_heap := ?h\<rparr>) = Some s'
      \<and> (mmap_regions s' \<noteq> 0 \<and> region_find ?v (mmap_regions s') s' \<noteq> None \<longrightarrow> books h0 ow0 (mmap_regions s') (lx_heap s'))"
      by (rule region_add_books[where ow = ow and p = p and n = "unat sz"])
         (use cl(1) 2(3) owner_same[OF own sd1] same_data_trans[OF sd sd1 owner_le[OF own]] mf fr v in simp_all)
    then show ?thesis using 2(1,2) ne by (auto simp: run kept_def)
  qed
qed

lemma munmap_books:
  assumes bk: "books h0 ow0 (mmap_regions s) (lx_heap s)"
  shows "\<exists>v s'. lx_munmap lim a s = Some (v, s') \<and> books h0 ow0 (mmap_regions s') (lx_heap s')"
proof (cases "a = 0")
  case True
  then show ?thesis using bk by (simp add: lx_munmap_def)
next
  case False
  obtain ow where inv: "heap_inv (lx_heap s) ow" and own: "owner ow0 (mmap_regions s) (hmem (lx_heap s)) ow"
    and sd: "same_data hmem h0 (lx_heap s) ow0" and fr: "heap_start (lx_heap s) = heap_start h0" "heap_end (lx_heap s) = heap_end h0"
    using bk by (auto simp: books_def)
  show ?thesis
  proof (cases rule: get_regions_cases[OF inv, of lim])
    case (2 h)
    have "ow = ow0" using own 2(1) by (simp add: owner_def)
    then have "books h0 ow0 0 h" unfolding books_def using 2 same_data_trans[OF sd 2(4)] fr by (auto simp: owner_def)
    then show ?thesis using 2(2) False by (simp add: lx_munmap_def region_remove_def)
  next
    case (3 r h)
    have ow: "ow = ow0" using own 3(1) by (simp add: owner_def)
    have "holds ow0 r (tbl (hmem h) r) (ow(r \<mapsto> 256))" using holds_empty[OF 3(3), of ow0 "tbl (hmem h) r"] 3(4,7) ow by simp
    then have "books h0 ow0 r h" unfolding books_def using 3 same_data_trans[OF sd 3(6)] fr ow by (auto simp: owner_def)
    moreover have "region_find a r (s\<lparr>lx_heap := h, mmap_regions := r\<rparr>) = None"
      using 3(7) False by (auto simp: region_find_def find_None_iff tbl_def LX_MMAP_MAX_def unat_eq_zero)
    ultimately show ?thesis using 3(2,3) False by (simp add: lx_munmap_def region_remove_def)
  next
    case 1
    let ?r = "mmap_regions s" and ?m = "hmem (lx_heap s)"
    have h: "holds ow0 ?r (tbl ?m ?r) ow" using own 1(1) by (simp add: owner_def)
    show ?thesis
    proof (cases "region_find a ?r s")
      case None
      then show ?thesis using 1 bk False by (simp add: lx_munmap_def region_remove_def)
    next
      case (Some i)
      note i = find_region[OF Some]
      have nz: "fst (tbl ?m ?r i) \<noteq> 0" using i(2) False by (simp add: unat_eq_zero)
      note D = holdsD(5)[OF h i(1) nz]
      obtain h1 where f: "kfree (unat a) (lx_heap s) = Some h1" "heap_inv h1 (ow(unat a := None))" "same_data hmem (lx_heap s) h1 (ow(unat a := None))"
        using heap_inv_free[OF inv, of "unat a" "snd (tbl ?m ?r i)"] D i(2) by auto
      let ?o = "ow(unat a := None)" and ?m1 = "store32 (store32 (hmem h1) (?r + 8 * i) 0) (?r + 8 * i + 4) 0"
      have r: "?o ?r = Some 256" using holdsD(2)[OF h] D i(2) by auto
      have tb: "tbl (hmem h1) ?r j = tbl ?m ?r j" if "j < 32" for j
        by (rule tbl_cong[OF _ that]) (use f(3) r in \<open>auto simp: same_data_def\<close>)
      have hr: "holds ow0 ?r ((tbl ?m ?r)(i := (0, 0))) ?o" using holds_remove[OF h i(1) nz, of 0] i(2) by simp
      have "tbl ?m1 ?r j = ((tbl ?m ?r)(i := (0, 0))) j" if "j < 32" for j using tbl_store[OF i(1) that, of "hmem h1" ?r 0 0] tb[OF that] by simp
      then have own1: "owner ow0 ?r ?m1 ?o" using hr 1(1) holds_cong[of "tbl ?m1 ?r" "(tbl ?m ?r)(i := (0, 0))" ow0 ?r ?o] by (simp add: owner_def)
      have out: "?m1 y = hmem h1 y" if "y < ?r + 8 * i \<or> ?r + 8 * i + 8 \<le> y" for y using that by (auto simp: store32_other)
      note w = write_entry[OF f(2) r holdsD(3)[OF h] holdsD(4)[OF hr] i(1) same_data_trans[OF sd f(3) holdsD(4)[OF hr]] out]
      have "ow (unat a) = Some (snd (tbl ?m ?r i))" using D i(2) by simp
      note ff = free_frame[OF inv this f(1)]
      have "region_addr ?m ?r i = a" using i(2) by (simp add: tbl_def word_unat_eq_iff)
      then have "lx_munmap lim a s = Some (0, set_region ?r i 0 0 (s\<lparr>lx_heap := h1\<rparr>))"
        using 1 Some f(1) False by (simp add: lx_munmap_def region_remove_def)
      moreover have "books h0 ow0 ?r (h1\<lparr>hmem := ?m1\<rparr>)" unfolding books_def using w own1 ff fr by auto
      ultimately show ?thesis by (simp add: set_region_def)
    qed
  qed
qed

text \<open>A break below the heap.\<close>

lemma unat_page_up: "unat x + 4095 < 2 ^ 32 \<Longrightarrow> unat (page_up x) = (unat x + 4095) div 4096 * 4096"
proof -
  assume a: "unat x + 4095 < 2 ^ 32"
  have "unat (x + 4096 - 1) = unat x + 4095" using a by (simp add: add_diff_eq[symmetric] unat_word_ariths)
  then show ?thesis by (simp add: page_up_def unat_and_not_mask minus_mod_eq_div_mult)
qed

lemma brk_range_below:
  assumes "pa \<in> set (brk_range old new)"
  shows "unat pa + 4096 \<le> unat (page_up new)"
proof -
  let ?n = "unat (page_up new)" and ?o = "unat (page_up old)"
  obtain k where k: "pa = page_up old + of_nat (4096 * k)" "k < (?n - ?o) div 4096" using assms by (auto simp: brk_range_def)
  have "4096 * (k + 1) \<le> ?n - ?o" using k(2) by (simp add: less_eq_div_iff_mult_less_eq Suc_leI mult.commute)
  moreover have "?o < ?n" by (rule ccontr) (use k(2) in simp)
  ultimately have le: "?o + 4096 * k + 4096 \<le> ?n" by simp
  have "?n < 2 ^ 32" using unsigned_less[of "page_up new"] by simp
  then have sm: "?o + 4096 * k < 2 ^ 32" using le by linarith
  then have u: "unat (of_nat (4096 * k) :: u32) = 4096 * k" by (intro unat_of_nat32) linarith
  have "unat pa = ?o + 4096 * k" unfolding k(1) using sm by (subst unat_add32_no_wrap) (simp_all only: u)
  then show ?thesis using le by simp
qed

lemma brk_pages_books:
  assumes "books h0 ow0 (mmap_regions s) (lx_heap s)" "\<forall>pa \<in> set pas. unat pa + 4096 \<le> heap_start h0"
  shows "books h0 ow0 (mmap_regions (snd (brk_pages pas s))) (lx_heap (snd (brk_pages pas s)))"
  using assms
proof (induction pas arbitrary: s)
  case (Cons pa pas)
  obtain phys p where al: "pmm_alloc (lx_pmm s) = (phys, p)" by fastforce
  obtain ow where inv: "heap_inv (lx_heap s) ow" and own: "owner ow0 (mmap_regions s) (hmem (lx_heap s)) ow"
    and sd: "same_data hmem h0 (lx_heap s) ow0" and fr: "heap_start (lx_heap s) = heap_start h0" "heap_end (lx_heap s) = heap_end h0"
    using Cons.prems(1) by (auto simp: books_def)
  let ?m = "fill (hmem (lx_heap s)) (unat pa) PAGE_SIZE 0"
  have out: "?m y = hmem (lx_heap s) y" if "heap_start (lx_heap s) \<le> y" for y
    using that fr(1) Cons.prems(2) by (intro fill_other) (auto simp: PAGE_SIZE_def)
  have inv': "heap_inv ((lx_heap s)\<lparr>hmem := ?m\<rparr>) ow" by (rule heap_inv_outside[OF inv out])
  have sd1: "same_data hmem (lx_heap s) ((lx_heap s)\<lparr>hmem := ?m\<rparr>) ow"
    using out heap_inv_bounds[OF inv] by (fastforce simp: same_data_def)
  have "books h0 ow0 (mmap_regions s) ((lx_heap s)\<lparr>hmem := ?m\<rparr>)"
    unfolding books_def using inv' owner_same[OF own sd1] same_data_trans[OF sd sd1 owner_le[OF own]] fr by auto
  then have "books h0 ow0 (mmap_regions (snd (brk_pages pas (s\<lparr>lx_pmm := p, lx_heap := (lx_heap s)\<lparr>hmem := ?m\<rparr>\<rparr>))))
      (lx_heap (snd (brk_pages pas (s\<lparr>lx_pmm := p, lx_heap := (lx_heap s)\<lparr>hmem := ?m\<rparr>\<rparr>))))"
    using Cons.IH[of "s\<lparr>lx_pmm := p, lx_heap := (lx_heap s)\<lparr>hmem := ?m\<rparr>\<rparr>"] Cons.prems(2) by simp
  then show ?case using al Cons.prems(1) by (simp add: memset_fill Let_def)
qed simp

lemma brk_books:
  assumes "books h0 ow0 (mmap_regions s) (lx_heap s)" "unat n + 4095 \<le> heap_start h0" "heap_end h0 \<le> 0xFFFF0000"
  shows "books h0 ow0 (mmap_regions (snd (lx_brk n s))) (lx_heap (snd (lx_brk n s)))"
proof -
  define s0 where "s0 = (if brk_start s = 0 then s\<lparr>brk_start := 0x600000, brk_current := 0x600000\<rparr> else s)"
  have b0: "books h0 ow0 (mmap_regions s0) (lx_heap s0)" using assms(1) by (simp add: s0_def)
  have "heap_end h0 = heap_start h0 + 33554432" using assms(1) heap_size by (fastforce simp: books_def)
  then have "unat n + 4095 < 2 ^ 32" using assms(2,3) by simp
  then have "unat (page_up n) \<le> heap_start h0" using assms(2) unat_page_up[of n] by (simp add: div_times_less_eq_dividend order_trans[OF div_times_less_eq_dividend])
  then have "\<forall>pa \<in> set (brk_range (ucast (brk_current s0)) n). unat pa + 4096 \<le> heap_start h0" using brk_range_below order_trans by blast
  then have "books h0 ow0 (mmap_regions (snd (brk_pages (brk_range (ucast (brk_current s0)) n) s0)))
      (lx_heap (snd (brk_pages (brk_range (ucast (brk_current s0)) n) s0)))" by (rule brk_pages_books[OF b0])
  then obtain ok s1 where
    "brk_pages (brk_range (ucast (brk_current s0)) n) s0 = (ok, s1)" "books h0 ow0 (mmap_regions s1) (lx_heap s1)"
    by (cases "brk_pages (brk_range (ucast (brk_current s0)) n) s0") simp
  then show ?thesis using b0 unfolding lx_brk_def s0_def[symmetric] Let_def by (cases ok) (simp_all split: if_split)
qed

text \<open>Releasing everything.\<close>

lemma free_regions_all:
  assumes "heap_inv h ow" "holds ow0 r (tbl (hmem h) r) ow" "same_data hmem h0 h ow0" "set is \<subseteq> {..<32}"
    and "\<forall>j < 32. j \<notin> set is \<longrightarrow> fst (tbl (hmem h) r j) = 0"
  shows "\<exists>h'. free_regions r is h = Some h' \<and> heap_inv h' (ow0(r \<mapsto> 256)) \<and> same_data hmem h0 h' ow0 \<and> heap_start h' = heap_start h \<and> heap_end h' = heap_end h"
  using assms
proof (induction "is" arbitrary: h ow)
  case Nil
  then have "ow = ow0(r \<mapsto> 256)" using holds_empty[of r ow0 "tbl (hmem h) r" ow] holdsD(1,3)[OF Nil.prems(2)] by simp
  then show ?case using Nil by simp
next
  case (Cons i "is")
  note hold = Cons.prems(2)
  have i: "i < 32" using Cons.prems(4) by simp
  show ?case
  proof (cases "region_addr (hmem h) r i = 0")
    case True
    then have "\<forall>j < 32. j \<notin> set is \<longrightarrow> fst (tbl (hmem h) r j) = 0" using Cons.prems(5) by (auto simp: tbl_def)
    then show ?thesis using Cons.IH[OF Cons.prems(1-3)] Cons.prems(4) True by simp
  next
    case False
    let ?a = "fst (tbl (hmem h) r i)"
    have a: "?a = unat (region_addr (hmem h) r i)" "?a \<noteq> 0" using False by (auto simp: tbl_def unat_eq_zero)
    note D = holdsD(5)[OF hold i a(2)]
    let ?o = "ow(?a := None)"
    obtain h1 where f: "kfree ?a h = Some h1" "heap_inv h1 ?o" "same_data hmem h h1 ?o"
      using heap_inv_free[OF Cons.prems(1), of ?a "snd (tbl (hmem h) r i)"] D by auto
    have r: "?o r = Some 256" using holdsD(2)[OF hold] D by auto
    have tb: "tbl (hmem h1) r j = tbl (hmem h) r j" if "j < 32" for j
      by (rule tbl_cong[OF _ that]) (use f(3) r in \<open>auto simp: same_data_def\<close>)
    let ?m1 = "store32 (hmem h1) (r + 8 * i) 0" and ?T = "(tbl (hmem h) r)(i := (0, snd (tbl (hmem h) r i)))"
    have T: "tbl ?m1 r j = ?T j" if "j < 32" for j using tbl_store_addr[OF i that, of "hmem h1" r 0] tb[OF that] tb[OF i] by simp
    have hr: "holds ow0 r ?T ?o" by (rule holds_remove[OF hold i a(2)])
    then have hr1: "holds ow0 r (tbl ?m1 r) ?o" using holds_cong[of "tbl ?m1 r" ?T ow0 r ?o] T by blast
    have out: "?m1 y = hmem h1 y" if "y < r + 8 * i \<or> r + 8 * i + 8 \<le> y" for y using that by (auto simp: store32_other)
    note w = write_entry[OF f(2) r holdsD(3)[OF hold] holdsD(4)[OF hr] i same_data_trans[OF Cons.prems(3) f(3) holdsD(4)[OF hr]] out]
    have ff: "heap_start h1 = heap_start h" "heap_end h1 = heap_end h" using free_frame[OF Cons.prems(1) _ f(1)] D by auto
    have "\<exists>h'. free_regions r is (h1\<lparr>hmem := ?m1\<rparr>) = Some h' \<and> heap_inv h' (ow0(r \<mapsto> 256)) \<and> same_data hmem h0 h' ow0
        \<and> heap_start h' = heap_start (h1\<lparr>hmem := ?m1\<rparr>) \<and> heap_end h' = heap_end (h1\<lparr>hmem := ?m1\<rparr>)"
    proof (rule Cons.IH[OF w(1) _ w(2)])
      show "holds ow0 r (tbl (hmem (h1\<lparr>hmem := ?m1\<rparr>)) r) ?o" using hr1 by (simp del: fun_upd_apply)
    qed (use Cons.prems(4,5) T in auto)
    then show ?thesis using False f(1) a(1) ff by (simp del: fun_upd_apply)
  qed
qed

lemma munmap_all_books:
  assumes "books h0 ow0 (mmap_regions s) (lx_heap s)"
  shows "\<exists>s'. lx_munmap_all s = Some s' \<and> mmap_regions s' = 0 \<and> heap_inv (lx_heap s') ow0 \<and> same_data hmem h0 (lx_heap s') ow0
    \<and> lx_pmm s' = lx_pmm s"
proof (cases "mmap_regions s = 0")
  case True
  then show ?thesis using assms by (auto simp: lx_munmap_all_def books_def owner_def)
next
  case False
  let ?r = "mmap_regions s"
  obtain ow where inv: "heap_inv (lx_heap s) ow" and h: "holds ow0 ?r (tbl (hmem (lx_heap s)) ?r) ow" and sd: "same_data hmem h0 (lx_heap s) ow0"
    using assms False by (auto simp: books_def owner_def)
  have "set [0..<LX_MMAP_MAX] \<subseteq> {..<32}" by (auto simp: LX_MMAP_MAX_def)
  from free_regions_all[OF inv h sd this] obtain h1 where
    f: "free_regions ?r [0..<LX_MMAP_MAX] (lx_heap s) = Some h1" "heap_inv h1 (ow0(?r \<mapsto> 256))" "same_data hmem h0 h1 ow0"
    by (auto simp: LX_MMAP_MAX_def)
  obtain h2 where g: "kfree ?r h1 = Some h2" "heap_inv h2 ow0" "same_data hmem h1 h2 ow0"
    by (rule free_last[OF f(2) holdsD(3)[OF h]])
  show ?thesis using False f(1) g same_data_trans[OF f(3) g(3)] by (simp add: lx_munmap_all_def Let_def)
qed

section \<open>Every program gives its mappings back\<close>

datatype lx_op = Mmap u32 u32 | Munmap u32 | Brk u32

definition lx_do :: "system_limits \<Rightarrow> lx_op \<Rightarrow> lxm \<Rightarrow> (u32 \<times> lxm) option" where
  "lx_do lim c s = (case c of Mmap len flags \<Rightarrow> lx_mmap lim len flags s
     | Munmap a \<Rightarrow> map_option (\<lambda>(r, s1). (of_int r, s1)) (lx_munmap lim a s) | Brk n \<Rightarrow> Some (lx_brk n s))"

fun lx_runs :: "system_limits \<Rightarrow> lx_op list \<Rightarrow> lxm \<Rightarrow> lxm option" where
  "lx_runs lim [] s = Some s"
| "lx_runs lim (c # cs) s = (case lx_do lim c s of None \<Rightarrow> None | Some (v, s1) \<Rightarrow> lx_runs lim cs s1)"

text \<open>Requests of at most 2 GB that find a place in the table, and breaks that stay below the heap.\<close>

fun lx_good :: "system_limits \<Rightarrow> lx_op list \<Rightarrow> lxm \<Rightarrow> bool" where
  "lx_good lim [] s = True"
| "lx_good lim (c # cs) s =
     ((case c of Mmap len flags \<Rightarrow> unat len \<le> 2 ^ 31 | Munmap a \<Rightarrow> True | Brk n \<Rightarrow> unat n + 4095 \<le> heap_start (lx_heap s))
      \<and> (case lx_do lim c s of None \<Rightarrow> True
          | Some (v, s1) \<Rightarrow> (case c of Mmap len flags \<Rightarrow> kept v s1 | _ \<Rightarrow> True) \<and> lx_good lim cs s1))"

lemma lx_do_books:
  assumes "books h0 ow0 (mmap_regions s) (lx_heap s)" "lx_good lim (c # cs) s" "heap_end h0 \<le> 0xFFFF0000"
  shows "\<exists>v s1. lx_do lim c s = Some (v, s1) \<and> books h0 ow0 (mmap_regions s1) (lx_heap s1) \<and> lx_good lim cs s1"
proof (cases c)
  case (Mmap len flags)
  then show ?thesis using mmap_books[OF assms(1) _ assms(3), of len lim flags] assms(2) by (auto simp: lx_do_def)
next
  case (Munmap a)
  then show ?thesis using munmap_books[OF assms(1), of lim a] assms(2) by (auto simp: lx_do_def)
next
  case (Brk n)
  have "unat n + 4095 \<le> heap_start h0" using assms(1,2) Brk by (simp add: books_def)
  from brk_books[OF assms(1) this assms(3)] show ?thesis using assms(2) Brk by (cases "lx_brk n s") (simp add: lx_do_def)
qed

lemma lx_runs_books:
  assumes "books h0 ow0 (mmap_regions s) (lx_heap s)" "lx_good lim cs s" "heap_end h0 \<le> 0xFFFF0000"
  shows "\<exists>s'. lx_runs lim cs s = Some s' \<and> books h0 ow0 (mmap_regions s') (lx_heap s')"
  using assms(1,2)
proof (induction cs arbitrary: s)
  case (Cons c cs)
  from lx_do_books[OF Cons.prems assms(3)] obtain v s1 where
    "lx_do lim c s = Some (v, s1)" "books h0 ow0 (mmap_regions s1) (lx_heap s1)" "lx_good lim cs s1" by blast
  then show ?case using Cons.IH[of s1] by simp
qed simp

text \<open>
  C4. The mappings of a Linux program. Take any sequence of \<^verbatim>\<open>mmap\<close>, \<^verbatim>\<open>munmap\<close> and \<^verbatim>\<open>brk\<close> calls with any addresses and
  flags, in which every mapping asks for at most 2 GB and, if it succeeds, finds a place in the table of 32 entries, and
  every break stays a page below the kernel heap, which itself ends below 4 GB. All calls return; after \<^verbatim>\<open>lx_munmap_all\<close> the
  table is gone, the heap blocks in use are exactly those from before the program, and their bytes are the same. The pages
  that \<^verbatim>\<open>brk\<close> took from the page allocator are not part of this: \<^verbatim>\<open>lx_munmap_all\<close> leaves the page allocator as it is, so
  they stay taken.
\<close>

theorem linux_memory_released:
  assumes "heap_inv (lx_heap s) ow" "mmap_regions s = 0" "heap_end (lx_heap s) \<le> 0xFFFF0000" "lx_good lim cs s"
  shows "\<exists>s1 s2. lx_runs lim cs s = Some s1 \<and> lx_munmap_all s1 = Some s2 \<and> mmap_regions s2 = 0
    \<and> heap_inv (lx_heap s2) ow \<and> same_data hmem (lx_heap s) (lx_heap s2) ow \<and> lx_pmm s2 = lx_pmm s1"
proof -
  have "books (lx_heap s) ow (mmap_regions s) (lx_heap s)" using assms(1,2) by (auto simp: books_def owner_def)
  from lx_runs_books[OF this assms(4,3)] obtain s1 where r: "lx_runs lim cs s = Some s1"
    "books (lx_heap s) ow (mmap_regions s1) (lx_heap s1)" by blast
  from munmap_all_books[OF this(2)] r(1) show ?thesis by blast
qed

text \<open>A mapping on the heap of a kernel that ends at 9 MB.\<close>

definition high_lxm :: lxm where
  "high_lxm = \<lparr>lx_heap = high_heap, lx_pmm = pmm_zero, mmap_regions = 0, brk_start = 0, brk_current = 0\<rparr>"

lemma high_mmap: "lx_good open_limits [Mmap 5000 0x22, Munmap 0x900020] high_lxm"
proof -
  obtain h1 fl1 where k1: "kmalloc open_limits (of_nat 8192) high_heap = Some (0x900020, h1)"
    "heap_ok h1 [(0x900000, 8240, False), (0x902030, 33546192, True)] fl1"
    using kmalloc_succeeds[OF high_heap_ok(1), of "0x900000" 33554432 8192] by (auto simp: blk_need_def)
  let ?h = "h1\<lparr>hmem := fill (hmem h1) 0x900020 8192 0\<rparr>"
  have "heap_ok ?h [(0x900000, 8240, False), (0x902030, 33546192, True)] fl1"
    by (rule heap_ok_write[OF k1(2), of "0x900000" 8240]) (auto simp: live_def intro!: fill_other)
  from kmalloc_succeeds[OF this, of "0x902030" 33546192 256] obtain r h2 where
    k2: "kmalloc open_limits (of_nat 256) ?h = Some (r, h2)" "r \<noteq> 0" by (auto simp: blk_need_def)
  let ?s = "high_lxm\<lparr>lx_heap := h2\<lparr>hmem := fill (hmem h2) r 256 0\<rparr>, mmap_regions := r\<rparr>"
  have "region_addr (fill (hmem h2) r 256 0) r 0 = 0"
  proof -
    have "load_bytes (fill (hmem h2) r 256 0) r 4 = [0, 0, 0, 0]" by (simp add: load_bytes_def fill_def upt_rec)
    then show ?thesis by (simp add: region_addr_def load32_def)
  qed
  then have f: "region_find 0 r ?s = Some 0" by (simp add: region_find_def LX_MMAP_MAX_def upt_rec)
  have "get_regions open_limits (high_lxm\<lparr>lx_heap := ?h\<rparr>) = Some (r, ?s)"
    using k2 by (simp add: get_regions_def high_lxm_def LX_MMAP_MAX_def memset_fill Let_def)
  then have add: "region_add open_limits 0x900020 8192 (high_lxm\<lparr>lx_heap := ?h\<rparr>) = Some (set_region r 0 0x900020 8192 ?s)"
    using f k2(2) by (simp add: region_add_def)
  have m: "lx_mmap open_limits 5000 0x22 high_lxm = Some (0x900020, set_region r 0 0x900020 8192 ?s)"
    using k1(1) add by (simp add: lx_mmap_def MAP_ANONYMOUS_def Let_def memset_fill high_lxm_def)
  have "region_find 0x900020 r (set_region r 0 0x900020 8192 ?s) = Some 0"
    by (simp add: region_find_def set_region_def region_addr_def LX_MMAP_MAX_def upt_rec load32_store32_other)
  then have "kept 0x900020 (set_region r 0 0x900020 8192 ?s)" using k2(2) by (simp add: kept_def set_region_def)
  then show ?thesis using m by (auto simp: lx_do_def split: option.splits)
qed

theorem linux_memory_released_witness:
  "\<exists>s1 s2. lx_runs open_limits [Mmap 5000 0x22, Munmap 0x900020] high_lxm = Some s1 \<and> lx_munmap_all s1 = Some s2
     \<and> mmap_regions s2 = 0 \<and> heap_inv (lx_heap s2) Map.empty"
proof -
  have "heap_inv (lx_heap high_lxm) Map.empty" by (simp add: high_lxm_def) (rule heap_invI[OF high_heap_ok(1)], simp add: owns_def)
  moreover from heap_size[OF this] have "heap_end (lx_heap high_lxm) \<le> 0xFFFF0000" using high_heap_ok(2) by (simp add: high_lxm_def)
  ultimately show ?thesis using linux_memory_released[of high_lxm Map.empty open_limits] high_mmap by (fastforce simp: high_lxm_def)
qed

end
