(* ===== verification/Framebuffer.thy ===== *)
theory Framebuffer
  imports Heap_Client Klibc_Props
begin

unbundle bit_operations_syntax

text \<open>
  The frame buffer driver of \<^verbatim>\<open>kernel/drivers/vga/fb.c\<close>: the mode found in the boot information, the shadow
  buffer in the heap, the drawing primitives, the font and the text console. Pixels live in the memory of the
  kernel heap model; a pointer is an address, and 0 is the null pointer. Offsets are computed in 32 bits as in the
  code. A strip of a rounded rectangle whose radius makes a product exceed a signed 32-bit number is undefined in
  C and gives \<^const>\<open>None\<close>.
\<close>

section \<open>State\<close>

record fb_info =
  fb_addr :: u64
  fb_pitch :: u32
  fb_width :: u32
  fb_height :: u32
  fb_bpp :: u8
  fb_type :: u8
  fb_available :: u8

record screen =
  fb :: fb_info
  fb_shadow :: addr
  fb_use_shadow :: bool
  kcon_locked :: int
  kcon_batch :: bool
  kcon_row :: u32
  kcon_col :: u32
  scr_heap :: heap

abbreviation smem :: "screen \<Rightarrow> mem" where "smem s \<equiv> hmem (scr_heap s)"

definition on_mem :: "(mem \<Rightarrow> mem) \<Rightarrow> screen \<Rightarrow> screen" where
  "on_mem f s = s\<lparr>scr_heap := (scr_heap s)\<lparr>hmem := f (smem s)\<rparr>\<rparr>"

definition fb_enable_shadow :: "screen \<Rightarrow> screen" where "fb_enable_shadow s = s\<lparr>fb_use_shadow := True\<rparr>"
definition fb_disable_shadow :: "screen \<Rightarrow> screen" where "fb_disable_shadow s = s\<lparr>fb_use_shadow := False\<rparr>"
definition fb_shadow_ptr :: "screen \<Rightarrow> addr" where "fb_shadow_ptr s = fb_shadow s"

definition fb_flip :: "screen \<Rightarrow> screen" where
  "fb_flip s =
     (if fb_available (fb s) = 0 \<or> fb_shadow s = 0 then s
      else on_mem (memcpy (unat (fb_addr (fb s))) (fb_shadow s) (unat (fb_height (fb s) * fb_pitch (fb s)))) s)"

definition off_screen :: "u32 \<Rightarrow> u32 \<Rightarrow> screen \<Rightarrow> bool" where
  "off_screen x y s \<longleftrightarrow> fb_available (fb s) = 0 \<or> fb_width (fb s) \<le> x \<or> fb_height (fb s) \<le> y"

definition shadow_addr :: "u32 \<Rightarrow> u32 \<Rightarrow> screen \<Rightarrow> addr" where
  "shadow_addr x y s = fb_shadow s + 4 * unat (y * drop_bit 2 (fb_pitch (fb s)) + x)"

definition fb_read_pixel :: "u32 \<Rightarrow> u32 \<Rightarrow> screen \<Rightarrow> u32" where
  "fb_read_pixel x y s =
     (if off_screen x y s then 0
      else if fb_shadow s \<noteq> 0 then load32 (smem s) (shadow_addr x y s)
      else load32 (smem s) (unat (fb_addr (fb s)) + unat (y * fb_pitch (fb s)) + unat (x * 4)))"

section \<open>The font\<close>

definition vga_font_8x16 :: "u8 list list" where
  "vga_font_8x16 =
   [[0, 0, 0, 0, 0, 0, 0, 0, 0, 0, 0, 0, 0, 0, 0, 0],
    [0, 0, 0x7E, 0xC3, 0x99, 0xBD, 0xBD, 0x99, 0xC3, 0x7E, 0, 0, 0, 0, 0, 0],
    [0, 0, 0x7E, 0xFF, 0xDB, 0x81, 0x81, 0xDB, 0xFF, 0x7E, 0, 0, 0, 0, 0, 0],
    [0, 0, 0, 0x6C, 0xFE, 0xFE, 0x7C, 0x38, 0x10, 0, 0, 0, 0, 0, 0, 0],
    [0, 0, 0, 0x10, 0x38, 0x7C, 0xFE, 0x7C, 0x38, 0x10, 0, 0, 0, 0, 0, 0],
    [0, 0, 0x18, 0x3C, 0x3C, 0xE7, 0xE7, 0xE7, 0x18, 0x3C, 0, 0, 0, 0, 0, 0],
    [0, 0, 0, 0x18, 0x3C, 0x7E, 0xFF, 0x7E, 0x18, 0x3C, 0, 0, 0, 0, 0, 0],
    [0, 0, 0, 0, 0, 0x18, 0x3C, 0x18, 0, 0, 0, 0, 0, 0, 0, 0],
    [0xFF, 0xFF, 0xFF, 0xFF, 0xFF, 0xE7, 0xC3, 0xE7, 0xFF, 0xFF, 0xFF, 0xFF, 0xFF, 0xFF, 0xFF, 0xFF],
    [0, 0, 0, 0x3C, 0x66, 0x42, 0x42, 0x66, 0x3C, 0, 0, 0, 0, 0, 0, 0],
    [0xFF, 0xFF, 0xFF, 0xC3, 0x99, 0xBD, 0xBD, 0x99, 0xC3, 0xFF, 0xFF, 0xFF, 0xFF, 0xFF, 0xFF, 0xFF],
    [0, 0, 0x1E, 0xE, 0x1A, 0x32, 0x78, 0xCC, 0xCC, 0x78, 0, 0, 0, 0, 0, 0],
    [0, 0, 0x3C, 0x66, 0x66, 0x66, 0x3C, 0x18, 0x7E, 0x18, 0, 0, 0, 0, 0, 0],
    [0, 0, 0x3F, 0x33, 0x3F, 0x30, 0x30, 0x70, 0xF0, 0xE0, 0, 0, 0, 0, 0, 0],
    [0, 0, 0x7F, 0x63, 0x7F, 0x63, 0x63, 0x67, 0xE6, 0xC0, 0, 0, 0, 0, 0, 0],
    [0, 0, 0, 0x18, 0xDB, 0x3C, 0xE7, 0x3C, 0xDB, 0x18, 0, 0, 0, 0, 0, 0],
    [0, 0, 0, 0, 0, 0, 0, 0, 0, 0, 0, 0, 0, 0, 0, 0],
    [0, 0, 0, 0, 0, 0, 0, 0, 0, 0, 0, 0, 0, 0, 0, 0],
    [0, 0, 0, 0, 0, 0, 0, 0, 0, 0, 0, 0, 0, 0, 0, 0],
    [0, 0, 0, 0, 0, 0, 0, 0, 0, 0, 0, 0, 0, 0, 0, 0],
    [0, 0, 0, 0, 0, 0, 0, 0, 0, 0, 0, 0, 0, 0, 0, 0],
    [0, 0, 0, 0, 0, 0, 0, 0, 0, 0, 0, 0, 0, 0, 0, 0],
    [0, 0, 0, 0, 0, 0, 0, 0, 0, 0, 0, 0, 0, 0, 0, 0],
    [0, 0, 0, 0, 0, 0, 0, 0, 0, 0, 0, 0, 0, 0, 0, 0],
    [0, 0, 0, 0, 0, 0, 0, 0, 0, 0, 0, 0, 0, 0, 0, 0],
    [0, 0, 0, 0, 0, 0, 0, 0, 0, 0, 0, 0, 0, 0, 0, 0],
    [0, 0, 0, 0, 0, 0, 0, 0, 0, 0, 0, 0, 0, 0, 0, 0],
    [0, 0, 0, 0, 0, 0, 0, 0, 0, 0, 0, 0, 0, 0, 0, 0],
    [0, 0, 0, 0, 0, 0, 0, 0, 0, 0, 0, 0, 0, 0, 0, 0],
    [0, 0, 0, 0, 0, 0, 0, 0, 0, 0, 0, 0, 0, 0, 0, 0],
    [0, 0, 0, 0, 0, 0, 0, 0, 0, 0, 0, 0, 0, 0, 0, 0],
    [0, 0, 0, 0, 0, 0, 0, 0, 0, 0, 0, 0, 0, 0, 0, 0],
    [0, 0, 0, 0, 0, 0, 0, 0, 0, 0, 0, 0, 0, 0, 0, 0],
    [0, 0, 0x18, 0x3C, 0x3C, 0x18, 0x18, 0, 0x18, 0, 0, 0, 0, 0, 0, 0],
    [0, 0x66, 0x66, 0x24, 0, 0, 0, 0, 0, 0, 0, 0, 0, 0, 0, 0],
    [0, 0, 0x6C, 0x6C, 0xFE, 0x6C, 0xFE, 0x6C, 0x6C, 0, 0, 0, 0, 0, 0, 0],
    [0x18, 0x18, 0x7C, 0xC0, 0x70, 0x1C, 0xFE, 0x18, 0x18, 0, 0, 0, 0, 0, 0, 0],
    [0, 0x60, 0xC4, 0x6C, 0x18, 0x36, 0x4C, 6, 0, 0, 0, 0, 0, 0, 0, 0],
    [0, 0, 0x38, 0x6C, 0x6C, 0x38, 0x76, 0xDC, 0xCC, 0x76, 0, 0, 0, 0, 0, 0],
    [0, 0x18, 0x18, 0x10, 0, 0, 0, 0, 0, 0, 0, 0, 0, 0, 0, 0],
    [0, 0, 0xE, 0x1C, 0x38, 0x38, 0x38, 0x1C, 0xE, 0, 0, 0, 0, 0, 0, 0],
    [0, 0, 0x70, 0x38, 0x1C, 0x1C, 0x1C, 0x38, 0x70, 0, 0, 0, 0, 0, 0, 0],
    [0, 0, 0, 0x6C, 0x38, 0xFE, 0x38, 0x6C, 0, 0, 0, 0, 0, 0, 0, 0],
    [0, 0, 0, 0x18, 0x18, 0x7E, 0x18, 0x18, 0, 0, 0, 0, 0, 0, 0, 0],
    [0, 0, 0, 0, 0, 0, 0, 0x18, 0x18, 0x30, 0, 0, 0, 0, 0, 0],
    [0, 0, 0, 0, 0, 0x7E, 0, 0, 0, 0, 0, 0, 0, 0, 0, 0],
    [0, 0, 0, 0, 0, 0, 0, 0, 0x18, 0, 0, 0, 0, 0, 0, 0],
    [0, 0, 6, 6, 0xC, 0x18, 0x30, 0x60, 0x60, 0, 0, 0, 0, 0, 0, 0],
    [0, 0, 0x7C, 0xCE, 0xDE, 0xF6, 0xE6, 0x7C, 0, 0, 0, 0, 0, 0, 0, 0],
    [0, 0, 0x18, 0x38, 0x18, 0x18, 0x18, 0x7E, 0, 0, 0, 0, 0, 0, 0, 0],
    [0, 0, 0x7C, 0xC6, 6, 0x3C, 0x60, 0xFE, 0, 0, 0, 0, 0, 0, 0, 0],
    [0, 0, 0xFC, 6, 0x7C, 6, 6, 0xFC, 0, 0, 0, 0, 0, 0, 0, 0],
    [0, 0, 0xE, 0x1E, 0x36, 0x66, 0xFF, 6, 0, 0, 0, 0, 0, 0, 0, 0],
    [0, 0, 0xFE, 0xC0, 0xFC, 6, 0xC6, 0x7C, 0, 0, 0, 0, 0, 0, 0, 0],
    [0, 0, 0x3C, 0x60, 0xFC, 0xC6, 0xC6, 0x7C, 0, 0, 0, 0, 0, 0, 0, 0],
    [0, 0, 0xFF, 6, 0xC, 0x18, 0x30, 0x30, 0, 0, 0, 0, 0, 0, 0, 0],
    [0, 0, 0x7C, 0xC6, 0x7C, 0xC6, 0xC6, 0x7C, 0, 0, 0, 0, 0, 0, 0, 0],
    [0, 0, 0x7C, 0xC6, 0xC6, 0x7E, 6, 0x7C, 0, 0, 0, 0, 0, 0, 0, 0],
    [0, 0, 0, 0, 0x18, 0, 0, 0x18, 0, 0, 0, 0, 0, 0, 0, 0],
    [0, 0, 0, 0, 0x18, 0, 0, 0x18, 0x18, 0x30, 0, 0, 0, 0, 0, 0],
    [0, 0, 0, 0xE, 0x1C, 0x38, 0x1C, 0xE, 0, 0, 0, 0, 0, 0, 0, 0],
    [0, 0, 0, 0, 0x7E, 0, 0x7E, 0, 0, 0, 0, 0, 0, 0, 0, 0],
    [0, 0, 0, 0x70, 0x38, 0x1C, 0x38, 0x70, 0, 0, 0, 0, 0, 0, 0, 0],
    [0, 0, 0x7C, 0xC6, 0xC, 0x18, 0, 0x18, 0, 0, 0, 0, 0, 0, 0, 0],
    [0, 0, 0x7C, 0xC2, 0x9E, 0xA6, 0x9E, 0x80, 0x7C, 0, 0, 0, 0, 0, 0, 0],
    [0, 0, 0x38, 0x6C, 0xC6, 0xFE, 0xC6, 0xC6, 0, 0, 0, 0, 0, 0, 0, 0],
    [0, 0, 0xFC, 0xC6, 0xFC, 0xC6, 0xC6, 0xFC, 0, 0, 0, 0, 0, 0, 0, 0],
    [0, 0, 0x7C, 0xC6, 0xC0, 0xC0, 0xC6, 0x7C, 0, 0, 0, 0, 0, 0, 0, 0],
    [0, 0, 0xF8, 0xCC, 0xC6, 0xC6, 0xCC, 0xF8, 0, 0, 0, 0, 0, 0, 0, 0],
    [0, 0, 0xFE, 0xC0, 0xFC, 0xC0, 0xC0, 0xFE, 0, 0, 0, 0, 0, 0, 0, 0],
    [0, 0, 0xFE, 0xC0, 0xFC, 0xC0, 0xC0, 0xC0, 0, 0, 0, 0, 0, 0, 0, 0],
    [0, 0, 0x7C, 0xC6, 0xC0, 0xCE, 0xC6, 0x7E, 0, 0, 0, 0, 0, 0, 0, 0],
    [0, 0, 0xC6, 0xC6, 0xFE, 0xC6, 0xC6, 0xC6, 0, 0, 0, 0, 0, 0, 0, 0],
    [0, 0, 0x7E, 0x18, 0x18, 0x18, 0x18, 0x7E, 0, 0, 0, 0, 0, 0, 0, 0],
    [0, 0, 0x1E, 6, 6, 6, 0xC6, 0x7C, 0, 0, 0, 0, 0, 0, 0, 0],
    [0, 0, 0xC6, 0xCC, 0xF8, 0xCC, 0xC6, 0xC6, 0, 0, 0, 0, 0, 0, 0, 0],
    [0, 0, 0xC0, 0xC0, 0xC0, 0xC0, 0xC0, 0xFE, 0, 0, 0, 0, 0, 0, 0, 0],
    [0, 0, 0xC6, 0xEE, 0xFE, 0xD6, 0xC6, 0xC6, 0, 0, 0, 0, 0, 0, 0, 0],
    [0, 0, 0xC6, 0xE6, 0xF6, 0xDE, 0xCE, 0xC6, 0, 0, 0, 0, 0, 0, 0, 0],
    [0, 0, 0x7C, 0xC6, 0xC6, 0xC6, 0xC6, 0x7C, 0, 0, 0, 0, 0, 0, 0, 0],
    [0, 0, 0xFC, 0xC6, 0xFC, 0xC0, 0xC0, 0xC0, 0, 0, 0, 0, 0, 0, 0, 0],
    [0, 0, 0x7C, 0xC6, 0xC6, 0xCE, 0xDE, 0x7C, 6, 0, 0, 0, 0, 0, 0, 0],
    [0, 0, 0xFC, 0xC6, 0xFC, 0xD8, 0xCC, 0xC6, 0, 0, 0, 0, 0, 0, 0, 0],
    [0, 0, 0x7C, 0xC0, 0x7C, 6, 6, 0xFC, 0, 0, 0, 0, 0, 0, 0, 0],
    [0, 0, 0x7E, 0x18, 0x18, 0x18, 0x18, 0x18, 0, 0, 0, 0, 0, 0, 0, 0],
    [0, 0, 0xC6, 0xC6, 0xC6, 0xC6, 0xC6, 0x7C, 0, 0, 0, 0, 0, 0, 0, 0],
    [0, 0, 0xC6, 0xC6, 0xC6, 0x6C, 0x38, 0x10, 0, 0, 0, 0, 0, 0, 0, 0],
    [0, 0, 0xC6, 0xC6, 0xD6, 0xFE, 0xEE, 0xC6, 0, 0, 0, 0, 0, 0, 0, 0],
    [0, 0, 0xC6, 0x6C, 0x38, 0x38, 0x6C, 0xC6, 0, 0, 0, 0, 0, 0, 0, 0],
    [0, 0, 0x66, 0x66, 0x3C, 0x18, 0x18, 0x18, 0, 0, 0, 0, 0, 0, 0, 0],
    [0, 0, 0xFE, 0xC, 0x18, 0x30, 0x60, 0xFE, 0, 0, 0, 0, 0, 0, 0, 0],
    [0, 0, 0x3C, 0x30, 0x30, 0x30, 0x30, 0x3C, 0, 0, 0, 0, 0, 0, 0, 0],
    [0, 0, 0x60, 0x60, 0x30, 0x18, 0xC, 6, 0, 0, 0, 0, 0, 0, 0, 0],
    [0, 0, 0x3C, 0xC, 0xC, 0xC, 0xC, 0x3C, 0, 0, 0, 0, 0, 0, 0, 0],
    [0, 0x18, 0x3C, 0x66, 0, 0, 0, 0, 0, 0, 0, 0, 0, 0, 0, 0],
    [0, 0, 0, 0, 0, 0, 0, 0, 0, 0xFF, 0, 0, 0, 0, 0, 0],
    [0, 0x18, 0x18, 0xC, 0, 0, 0, 0, 0, 0, 0, 0, 0, 0, 0, 0],
    [0, 0, 0, 0x7C, 6, 0x7E, 0xC6, 0x7E, 0, 0, 0, 0, 0, 0, 0, 0],
    [0, 0, 0xC0, 0xFC, 0xC6, 0xC6, 0xC6, 0xFC, 0, 0, 0, 0, 0, 0, 0, 0],
    [0, 0, 0, 0x7C, 0xC0, 0xC0, 0xC0, 0x7C, 0, 0, 0, 0, 0, 0, 0, 0],
    [0, 0, 6, 0x7E, 0xC6, 0xC6, 0xC6, 0x7E, 0, 0, 0, 0, 0, 0, 0, 0],
    [0, 0, 0, 0x7C, 0xC6, 0xFE, 0xC0, 0x7C, 0, 0, 0, 0, 0, 0, 0, 0],
    [0, 0, 0x1E, 0x30, 0x7C, 0x30, 0x30, 0x30, 0, 0, 0, 0, 0, 0, 0, 0],
    [0, 0, 0, 0x7E, 0xC6, 0xC6, 0x7E, 6, 0xFC, 0, 0, 0, 0, 0, 0, 0],
    [0, 0, 0xC0, 0xFC, 0xC6, 0xC6, 0xC6, 0xC6, 0, 0, 0, 0, 0, 0, 0, 0],
    [0, 0, 0x18, 0, 0x38, 0x18, 0x18, 0x7E, 0, 0, 0, 0, 0, 0, 0, 0],
    [0, 0, 6, 0, 0xE, 6, 6, 0xC6, 0x7C, 0, 0, 0, 0, 0, 0, 0],
    [0, 0, 0xC0, 0xC6, 0xCC, 0xF8, 0xCC, 0xC6, 0, 0, 0, 0, 0, 0, 0, 0],
    [0, 0, 0x38, 0x18, 0x18, 0x18, 0x18, 0x7E, 0, 0, 0, 0, 0, 0, 0, 0],
    [0, 0, 0, 0xEC, 0xFE, 0xD6, 0xC6, 0xC6, 0, 0, 0, 0, 0, 0, 0, 0],
    [0, 0, 0, 0xDC, 0xE6, 0xC6, 0xC6, 0xC6, 0, 0, 0, 0, 0, 0, 0, 0],
    [0, 0, 0, 0x7C, 0xC6, 0xC6, 0xC6, 0x7C, 0, 0, 0, 0, 0, 0, 0, 0],
    [0, 0, 0, 0xFC, 0xC6, 0xC6, 0xFC, 0xC0, 0xC0, 0, 0, 0, 0, 0, 0, 0],
    [0, 0, 0, 0x7E, 0xC6, 0xC6, 0x7E, 6, 7, 0, 0, 0, 0, 0, 0, 0],
    [0, 0, 0, 0xDC, 0xE0, 0xC0, 0xC0, 0xC0, 0, 0, 0, 0, 0, 0, 0, 0],
    [0, 0, 0, 0x78, 0xC0, 0x7C, 6, 0xFC, 0, 0, 0, 0, 0, 0, 0, 0],
    [0, 0, 0x30, 0x7C, 0x30, 0x30, 0x30, 0x1E, 0, 0, 0, 0, 0, 0, 0, 0],
    [0, 0, 0, 0xC6, 0xC6, 0xC6, 0xC6, 0x7E, 0, 0, 0, 0, 0, 0, 0, 0],
    [0, 0, 0, 0xC6, 0xC6, 0x6C, 0x38, 0x10, 0, 0, 0, 0, 0, 0, 0, 0],
    [0, 0, 0, 0xC6, 0xC6, 0xD6, 0xFE, 0x6C, 0, 0, 0, 0, 0, 0, 0, 0],
    [0, 0, 0, 0xC6, 0x6C, 0x38, 0x6C, 0xC6, 0, 0, 0, 0, 0, 0, 0, 0],
    [0, 0, 0, 0xC6, 0xC6, 0x7E, 6, 0x7C, 0, 0, 0, 0, 0, 0, 0, 0],
    [0, 0, 0, 0xFE, 0xC, 0x38, 0x60, 0xFE, 0, 0, 0, 0, 0, 0, 0, 0],
    [0, 0, 0xE, 0x18, 0x18, 0x70, 0x18, 0x18, 0xE, 0, 0, 0, 0, 0, 0, 0],
    [0, 0, 0x18, 0x18, 0x18, 0, 0x18, 0x18, 0x18, 0, 0, 0, 0, 0, 0, 0],
    [0, 0, 0x70, 0x18, 0x18, 0xE, 0x18, 0x18, 0x70, 0, 0, 0, 0, 0, 0, 0],
    [0, 0, 0x76, 0xDC, 0, 0, 0, 0, 0, 0, 0, 0, 0, 0, 0, 0],
    [0, 0, 0, 0, 0, 0, 0, 0, 0, 0, 0, 0, 0, 0, 0, 0]]"

section \<open>Start\<close>

text \<open>The tag walk: the fields of the first frame buffer tag, whether it is usable or not.\<close>

definition fb_tag :: "mem \<Rightarrow> addr \<Rightarrow> fb_info \<Rightarrow> fb_info" where
  "fb_tag m p f =
     (let f1 = f\<lparr>fb_pitch := load32 m (p + 16), fb_width := load32 m (p + 20), fb_height := load32 m (p + 24),
                 fb_bpp := m (p + 28), fb_type := m (p + 29), fb_addr := load64 m (p + 8)\<rparr>
      in if fb_type f1 \<noteq> 1 \<or> fb_width f1 < 640 \<or> fb_bpp f1 < 15 \<or> fb_addr f1 < 0x1000 then f1
         else f1\<lparr>fb_available := 1\<rparr>)"

definition tag_step :: "u32 \<Rightarrow> nat" where
  "tag_step sz = (let next_off = (sz + 7) AND NOT 7 in if next_off = 0 then 8 else unat next_off)"

lemma tag_step_pos: "0 < tag_step sz"
  by (auto simp: tag_step_def Let_def unat_gt_0)

function fb_tags :: "mem \<Rightarrow> addr \<Rightarrow> addr \<Rightarrow> fb_info \<Rightarrow> fb_info" where
  "fb_tags m p e f =
     (if e \<le> p then f
      else let t = load32 m p; sz = load32 m (p + 4)
           in if sz < 8 \<or> t = 0 then f
              else if t = 8 then fb_tag m p f
              else fb_tags m (p + tag_step sz) e f)"
  by pat_completeness auto
termination
  by (relation "measure (\<lambda>(m, p, e, f). e - p)") (auto intro!: diff_less_mono2 simp: tag_step_pos)

definition fb_init :: "system_limits \<Rightarrow> u64 \<Rightarrow> screen \<Rightarrow> screen option" where
  "fb_init lim mbi_addr s =
     (let s0 = s\<lparr>fb := (fb s)\<lparr>fb_available := 0\<rparr>\<rparr>
      in if mbi_addr = 0 then Some s0
         else let m = smem s; p = unat mbi_addr;
                  f = fb_tags m (unat (mbi_addr + 8)) (p + unat (load32 m p)) (fb s0);
                  s1 = s0\<lparr>fb := f\<rparr>
              in if fb_available f \<noteq> 0 \<and> 0 < fb_pitch f \<and> 0 < fb_height f
                 then let n = unat (fb_pitch f) * unat (fb_height f)
                      in case kmalloc lim (of_nat n) (scr_heap s1) of None \<Rightarrow> None
                         | Some (q, h) \<Rightarrow>
                             let s2 = s1\<lparr>scr_heap := h, fb_shadow := q\<rparr>
                             in Some (if q \<noteq> 0 then (on_mem (memset q 0 n) s2)\<lparr>fb_use_shadow := True\<rparr> else s2)
                 else Some s1)"

section \<open>Drawing primitives\<close>

definition fb_color :: "u8 \<Rightarrow> u8 \<Rightarrow> u8 \<Rightarrow> screen \<Rightarrow> u32" where
  "fb_color r g b s =
     (if fb_bpp (fb s) = 32 \<or> fb_bpp (fb s) = 24 then push_bit 16 (ucast r) OR push_bit 8 (ucast g) OR ucast b
      else if fb_bpp (fb s) = 16
      then push_bit 11 (drop_bit 3 (ucast r)) OR push_bit 5 (drop_bit 2 (ucast g)) OR ucast (drop_bit 3 b)
      else 0)"

definition vram_addr :: "u32 \<Rightarrow> u32 \<Rightarrow> screen \<Rightarrow> addr" where
  "vram_addr x y s = unat (fb_addr (fb s)) + unat (y * fb_pitch (fb s)) + unat (x * ucast (fb_bpp (fb s) div 8))"

definition store_color :: "u8 \<Rightarrow> addr \<Rightarrow> u32 \<Rightarrow> mem \<Rightarrow> mem" where
  "store_color bpp a c m =
     (if bpp = 32 then store32 m a c
      else if bpp = 24 then m(a := ucast c, a + 1 := ucast (drop_bit 8 c), a + 2 := ucast (drop_bit 16 c))
      else if bpp = 16 then m(a := ucast c, a + 1 := ucast (drop_bit 8 c))
      else m)"

definition fb_put_pixel_vram :: "u32 \<Rightarrow> u32 \<Rightarrow> u32 \<Rightarrow> screen \<Rightarrow> screen" where
  "fb_put_pixel_vram x y c s =
     (if off_screen x y s then s else on_mem (store_color (fb_bpp (fb s)) (vram_addr x y s) c) s)"

definition fb_put_pixel :: "u32 \<Rightarrow> u32 \<Rightarrow> u32 \<Rightarrow> screen \<Rightarrow> screen" where
  "fb_put_pixel x y c s =
     (if off_screen x y s then s
      else if fb_use_shadow s \<and> fb_shadow s \<noteq> 0 then on_mem (\<lambda>m. store32 m (shadow_addr x y s) c) s
      else on_mem (store_color (fb_bpp (fb s)) (vram_addr x y s) c) s)"

definition fb_read_pixel_vram :: "u32 \<Rightarrow> u32 \<Rightarrow> screen \<Rightarrow> u32" where
  "fb_read_pixel_vram x y s =
     (if off_screen x y s then 0
      else let a = vram_addr x y s; m = smem s
           in if fb_bpp (fb s) = 32 then load32 m a
              else if fb_bpp (fb s) = 24 then ucast (m a) OR push_bit 8 (ucast (m (a + 1))) OR push_bit 16 (ucast (m (a + 2)))
              else if fb_bpp (fb s) = 16 then ucast (m a) OR push_bit 8 (ucast (m (a + 1)))
              else 0)"

definition fb_blend :: "u32 \<Rightarrow> u32 \<Rightarrow> u8 \<Rightarrow> u32" where
  "fb_blend src dst a =
     (let rb = drop_bit 8 ((src AND 0xFF00FF) * ucast a + (dst AND 0xFF00FF) * (255 - ucast a));
          g = drop_bit 8 ((src AND 0x00FF00) * ucast a + (dst AND 0x00FF00) * (255 - ucast a))
      in (rb AND 0xFF00FF) OR (g AND 0x00FF00))"

definition u32_range :: "u32 \<Rightarrow> u32 \<Rightarrow> u32 list" where
  "u32_range a b = map of_nat [unat a..<unat b]"

definition fb_fill_rect :: "u32 \<Rightarrow> u32 \<Rightarrow> u32 \<Rightarrow> u32 \<Rightarrow> u32 \<Rightarrow> screen \<Rightarrow> screen" where
  "fb_fill_rect x y w h c s =
     (if fb_available (fb s) = 0 then s
      else let y_end = (if fb_height (fb s) - y < h then fb_height (fb s) else y + h);
               x_end = (if fb_width (fb s) - x < w then fb_width (fb s) else x + w)
           in fold (\<lambda>row. fold (\<lambda>col. fb_put_pixel col row c) (u32_range x x_end)) (u32_range y y_end) s)"

definition fb_clear :: "u32 \<Rightarrow> screen \<Rightarrow> screen" where
  "fb_clear c s = fb_fill_rect 0 0 (fb_width (fb s)) (fb_height (fb s)) c s"

definition glyph_bit :: "u8 \<Rightarrow> nat \<Rightarrow> nat \<Rightarrow> bool" where
  "glyph_bit ch row col \<longleftrightarrow>
     (vga_font_8x16 ! (if 128 \<le> ch then 63 else unat ch) ! row) AND drop_bit col 0x80 \<noteq> 0"

definition fb_putchar :: "u32 \<Rightarrow> u32 \<Rightarrow> u8 \<Rightarrow> u32 \<Rightarrow> u32 \<Rightarrow> screen \<Rightarrow> screen" where
  "fb_putchar x y ch fg bg s =
     (if fb_available (fb s) = 0 then s
      else fold (\<lambda>row. fold (\<lambda>col. fb_put_pixel (x + of_nat col) (y + of_nat row) (if glyph_bit ch row col then fg else bg))
             [0..<8]) [0..<16] s)"

text \<open>\<^verbatim>\<open>fb_print\<close>: the column and the line are state of the loop.\<close>

fun print_loop :: "u32 \<Rightarrow> u32 \<Rightarrow> u32 \<Rightarrow> u8 list \<Rightarrow> u32 \<Rightarrow> u32 \<Rightarrow> screen \<Rightarrow> screen" where
  "print_loop x cx y [] fg bg s = s"
| "print_loop x cx y (c # cs) fg bg s =
     (let (cx1, y1, s1) = (if c = 10 then (x, y + 16, s) else (cx + 8, y, fb_putchar cx y c fg bg s))
      in if fb_width (fb s) < cx1 + 8 then print_loop x x (y1 + 16) cs fg bg s1
         else print_loop x cx1 y1 cs fg bg s1)"

definition fb_print :: "u32 \<Rightarrow> u32 \<Rightarrow> u8 list \<Rightarrow> u32 \<Rightarrow> u32 \<Rightarrow> screen \<Rightarrow> screen" where
  "fb_print x y str fg bg s = print_loop x x y str fg bg s"

definition fb_blit :: "u32 \<Rightarrow> u32 \<Rightarrow> u32 \<Rightarrow> u32 \<Rightarrow> addr \<Rightarrow> screen \<Rightarrow> screen" where
  "fb_blit x y w h pixels s =
     fold (\<lambda>row. fold (\<lambda>col s. fb_put_pixel (x + col) (y + row) (load32 (smem s) (pixels + 4 * unat (row * w + col))) s)
       (u32_range 0 w)) (u32_range 0 h) s"

section \<open>Rounded rectangles\<close>

definition clamp_radius :: "u32 \<Rightarrow> u32 \<Rightarrow> u32 \<Rightarrow> u32" where
  "clamp_radius r w h =
     (let r1 = (if w div 2 < r then w div 2 else r) in if h div 2 < r1 then h div 2 else r1)"

lemma int_le_square: "(z :: int) \<le> z * z"
proof (cases "1 \<le> z")
  case True
  then show ?thesis using mult_left_mono[of 1 z z] by simp
next
  case False
  then show ?thesis using zero_le_square[of z] by linarith
qed

text \<open>The loop that widens a row of the corner; every product is a signed 32-bit number.\<close>

function arc_dx :: "int \<Rightarrow> int \<Rightarrow> int \<Rightarrow> int option" where
  "arc_dx ir k dx =
     (if 2 ^ 31 \<le> ir * ir \<or> 2 ^ 31 \<le> (dx + 1) * (dx + 1) + k * k then None
      else if (dx + 1) * (dx + 1) + k * k \<le> ir * ir then arc_dx ir k (dx + 1)
      else Some dx)"
  by pat_completeness auto
termination
proof (relation "measure (\<lambda>(ir, k, dx). nat (2 ^ 31 - dx))")
  fix ir k dx :: int
  assume "\<not> (2 ^ 31 \<le> ir * ir \<or> 2 ^ 31 \<le> (dx + 1) * (dx + 1) + k * k)"
  then have "(dx + 1) * (dx + 1) < 2 ^ 31" using zero_le_square[of k] by linarith
  then have "dx < 2 ^ 31" using int_le_square[of "dx + 1"] by linarith
  then show "((ir, k, dx + 1), ir, k, dx) \<in> measure (\<lambda>(ir, k, dx). nat (2 ^ 31 - dx))" by simp
qed simp

fun rect_corners :: "nat list \<Rightarrow> u32 \<Rightarrow> u32 \<Rightarrow> u32 \<Rightarrow> u32 \<Rightarrow> u32 \<Rightarrow> u32 \<Rightarrow> screen \<Rightarrow> screen option" where
  "rect_corners [] x y w h r c s = Some s"
| "rect_corners (dy # dys) x y w h r c s =
     (case arc_dx (sint r) (sint r - 1 - int dy) 0 of None \<Rightarrow> None
      | Some dx \<Rightarrow>
          let row_w = of_int dx; row_x_l = x + r - row_w; row_x_r = x + w - r;
              s1 = fb_fill_rect row_x_l (y + of_nat dy) row_w 1 c s;
              s2 = fb_fill_rect row_x_r (y + of_nat dy) row_w 1 c s1;
              s3 = fb_fill_rect row_x_l (y + h - 1 - of_nat dy) row_w 1 c s2;
              s4 = fb_fill_rect row_x_r (y + h - 1 - of_nat dy) row_w 1 c s3
          in rect_corners dys x y w h r c s4)"

definition fb_rounded_rect :: "u32 \<Rightarrow> u32 \<Rightarrow> u32 \<Rightarrow> u32 \<Rightarrow> u32 \<Rightarrow> u32 \<Rightarrow> screen \<Rightarrow> screen option" where
  "fb_rounded_rect x y w h r0 c s =
     (if fb_available (fb s) = 0 then Some s
      else let r = clamp_radius r0 w h;
               s1 = (if 2 * r < w then fb_fill_rect (x + r) y (w - 2 * r) h c s else s);
               s2 = (if 2 * r < h then fb_fill_rect (x + w - r) (y + r) r (h - 2 * r) c
                                         (fb_fill_rect x (y + r) r (h - 2 * r) c s1) else s1)
           in rect_corners [0..<nat (sint r)] x y w h r c s2)"

fun outline_corners :: "nat list \<Rightarrow> u32 \<Rightarrow> u32 \<Rightarrow> u32 \<Rightarrow> u32 \<Rightarrow> u32 \<Rightarrow> u32 \<Rightarrow> screen \<Rightarrow> screen option" where
  "outline_corners [] x y w h r c s = Some s"
| "outline_corners (dy # dys) x y w h r c s =
     (case arc_dx (sint r) (sint r - 1 - int dy) 0 of None \<Rightarrow> None
      | Some dx \<Rightarrow>
          let s1 = fb_put_pixel (x + r - 1 - of_int dx) (y + of_nat dy) c s;
              s2 = fb_put_pixel (x + w - r + of_int dx) (y + of_nat dy) c s1;
              s3 = fb_put_pixel (x + r - 1 - of_int dx) (y + h - 1 - of_nat dy) c s2;
              s4 = fb_put_pixel (x + w - r + of_int dx) (y + h - 1 - of_nat dy) c s3
          in outline_corners dys x y w h r c s4)"

definition fb_rounded_outline :: "u32 \<Rightarrow> u32 \<Rightarrow> u32 \<Rightarrow> u32 \<Rightarrow> u32 \<Rightarrow> u32 \<Rightarrow> screen \<Rightarrow> screen option" where
  "fb_rounded_outline x y w h r0 c s =
     (if fb_available (fb s) = 0 \<or> w = 0 \<or> h = 0 then Some s
      else let r = clamp_radius r0 w h;
               s1 = (if 2 * r < w then fb_fill_rect (x + r) (y + h - 1) (w - 2 * r) 1 c
                                         (fb_fill_rect (x + r) y (w - 2 * r) 1 c s) else s);
               s2 = (if 2 * r < h then fb_fill_rect (x + w - 1) (y + r) 1 (h - 2 * r) c
                                         (fb_fill_rect x (y + r) 1 (h - 2 * r) c s1) else s1)
           in outline_corners [0..<nat (sint r)] x y w h r c s2)"

section \<open>Scaled text\<close>

definition fb_putchar_s :: "u32 \<Rightarrow> u32 \<Rightarrow> u8 \<Rightarrow> u32 \<Rightarrow> u32 \<Rightarrow> u32 \<Rightarrow> screen \<Rightarrow> screen" where
  "fb_putchar_s x y ch fg bg scale0 s =
     (if fb_available (fb s) = 0 then s
      else let scale = (if scale0 < 1 then 1 else scale0)
           in fold (\<lambda>row. fold (\<lambda>col s.
                let on = glyph_bit ch row col; color = (if on then fg else bg)
                in if color = 0 \<and> \<not> on then s
                   else fb_fill_rect (x + of_nat col * scale) (y + of_nat row * scale) scale scale color s)
                [0..<8]) [0..<16] s)"

fun print_s_loop :: "u32 \<Rightarrow> u32 \<Rightarrow> u32 \<Rightarrow> u8 list \<Rightarrow> u32 \<Rightarrow> u32 \<Rightarrow> u32 \<Rightarrow> screen \<Rightarrow> screen" where
  "print_s_loop x cx y [] fg bg scale s = s"
| "print_s_loop x cx y (c # cs) fg bg scale s =
     (if c = 10 then print_s_loop x x (y + 16 * scale) cs fg bg scale s
      else print_s_loop x (cx + 8 * scale) y cs fg bg scale (fb_putchar_s cx y c fg bg scale s))"

definition fb_print_s :: "u32 \<Rightarrow> u32 \<Rightarrow> u8 list \<Rightarrow> u32 \<Rightarrow> u32 \<Rightarrow> u32 \<Rightarrow> screen \<Rightarrow> screen" where
  "fb_print_s x y str fg bg scale s =
     (if fb_available (fb s) = 0 then s else print_s_loop x x y str fg bg scale s)"

section \<open>Text console\<close>

definition fb_console_lock :: "int \<Rightarrow> screen \<Rightarrow> screen" where "fb_console_lock l s = s\<lparr>kcon_locked := l\<rparr>"
definition fb_console_is_locked :: "screen \<Rightarrow> int" where "fb_console_is_locked s = kcon_locked s"
definition fb_console_begin_batch :: "screen \<Rightarrow> screen" where "fb_console_begin_batch s = s\<lparr>kcon_batch := True\<rparr>"

definition shadow_flip :: "screen \<Rightarrow> screen" where
  "shadow_flip s = (if fb_use_shadow s \<and> fb_shadow s \<noteq> 0 then fb_flip s else s)"

definition fb_console_end_batch :: "screen \<Rightarrow> screen" where
  "fb_console_end_batch s = shadow_flip (s\<lparr>kcon_batch := False\<rparr>)"

definition KCON_COLS :: "screen \<Rightarrow> u32" where "KCON_COLS s = fb_width (fb s) div 8"
definition KCON_ROWS :: "screen \<Rightarrow> u32" where "KCON_ROWS s = fb_height (fb s) div 16"
definition KCON_FG :: u32 where "KCON_FG = 0xCCCCCC"
definition KCON_BG :: u32 where "KCON_BG = 0x0A0A0F"

definition header_bar :: "screen \<Rightarrow> screen" where
  "header_bar s =
     fb_print 4 1 (map of_char ''DracolaxOS Terminal'') 0x7EB8FF 0x1A1A2E
       (fb_fill_rect 0 0 (fb_width (fb s)) 18 0x1A1A2E s)"

definition fb_console_init :: "screen \<Rightarrow> screen" where
  "fb_console_init s =
     (if fb_available (fb s) = 0 then s
      else fb_flip (header_bar ((fb_clear KCON_BG s)\<lparr>kcon_row := 0, kcon_col := 0\<rparr>)))"

definition fb_console_clear :: "screen \<Rightarrow> screen" where
  "fb_console_clear s =
     (if fb_available (fb s) = 0 then s
      else header_bar ((fb_clear KCON_BG s)\<lparr>kcon_row := 1, kcon_col := 0\<rparr>))"

definition move_line :: "addr \<Rightarrow> nat \<Rightarrow> u32 \<Rightarrow> mem \<Rightarrow> mem" where
  "move_line base n r m =
     (let dst = base + unat (r * of_nat n); src = base + unat ((r + 1) * of_nat n)
      in fold (\<lambda>b m. m(dst + b := m (src + b))) [0..<n] m)"

definition kcon_scroll :: "screen \<Rightarrow> screen" where
  "kcon_scroll s =
     (if fb_available (fb s) = 0 then s
      else let rows = KCON_ROWS s - 2; bytes_per_line = fb_pitch (fb s) * 16;
               base = (if fb_use_shadow s \<and> fb_shadow s \<noteq> 0 then fb_shadow s else unat (fb_addr (fb s)))
                      + unat (20 * fb_pitch (fb s));
               s1 = on_mem (fold (move_line base (unat bytes_per_line)) (filter (\<lambda>r. r + 1 < rows) (u32_range 0 rows))) s;
               s2 = fb_fill_rect 0 (20 + (rows - 1) * 16) (fb_width (fb s)) 16 KCON_BG s1
           in (header_bar s2)\<lparr>kcon_row := rows - 1\<rparr>)"

definition console_char :: "u32 \<Rightarrow> u8 \<Rightarrow> screen \<Rightarrow> screen" where
  "console_char fg c s =
     (if c = 8 then
        (if 0 < kcon_col s
         then fb_putchar ((kcon_col s - 1) * 8) (20 + kcon_row s * 16) 32 KCON_FG KCON_BG (s\<lparr>kcon_col := kcon_col s - 1\<rparr>)
         else s)
      else let s1 = (if c = 10 \<or> KCON_COLS s \<le> kcon_col s
                     then let s0 = s\<lparr>kcon_col := 0, kcon_row := kcon_row s + 1\<rparr>
                          in if KCON_ROWS s - 2 \<le> kcon_row s0 then kcon_scroll s0 else s0
                     else s)
           in if c \<noteq> 10 \<and> c \<noteq> 13
              then (let s2 = fb_putchar (kcon_col s1 * 8) (20 + kcon_row s1 * 16) c fg KCON_BG s1
                    in s2\<lparr>kcon_col := kcon_col s2 + 1\<rparr>)
              else s1)"

definition fb_console_print :: "u8 list \<Rightarrow> u32 \<Rightarrow> screen \<Rightarrow> screen" where
  "fb_console_print str fg s =
     (if fb_available (fb s) = 0 \<or> kcon_locked s \<noteq> 0 then s
      else let s1 = fold (console_char (if fg = 0 then KCON_FG else fg)) str s
           in if \<not> kcon_batch s1 then shadow_flip s1 else s1)"

end
