(* ===== verification/Framebuffer_Props.thy ===== *)
theory Framebuffer_Props
  imports Framebuffer
begin

unbundle bit_operations_syntax

text \<open>
  What drawing does to the shadow buffer. A drawing step \<open>paints\<close> a partial map from pixels to colours when it
  changes exactly these pixels and no byte outside the shadow buffer; sequences of steps paint the sum of the maps.
  The loops of the code become unions of pixel sets of one colour.
\<close>

section \<open>Geometry\<close>

definition shadow_size :: "screen \<Rightarrow> nat" where "shadow_size s = unat (fb_pitch (fb s)) * unat (fb_height (fb s))"

definition screen_ok :: "screen \<Rightarrow> bool" where
  "screen_ok s \<longleftrightarrow> fb_available (fb s) \<noteq> 0 \<and> fb_use_shadow s \<and> fb_shadow s \<noteq> 0
     \<and> 4 * unat (fb_width (fb s)) \<le> unat (fb_pitch (fb s)) \<and> shadow_size s < 2 ^ 31"

definition on_screen :: "screen \<Rightarrow> nat \<times> nat \<Rightarrow> bool" where
  "on_screen s p \<longleftrightarrow> fst p < unat (fb_width (fb s)) \<and> snd p < unat (fb_height (fb s))"

lemma lt_u32: "n < unat (x :: u32) \<Longrightarrow> n < 2 ^ 32" and le_u32: "n \<le> unat (x :: u32) \<Longrightarrow> n < 2 ^ 32"
  using unat_less32[of x] by (simp_all del: unat_less32)

lemma off_screen_iff: "screen_ok s \<Longrightarrow> off_screen x y s \<longleftrightarrow> \<not> on_screen s (unat x, unat y)"
  by (auto simp: off_screen_def screen_ok_def on_screen_def word_le_nat_alt not_less)

lemma shadow_addr_nat:
  assumes "screen_ok s" "on_screen s (unat x, unat y)"
  shows "shadow_addr x y s = fb_shadow s + 4 * (unat y * (unat (fb_pitch (fb s)) div 4) + unat x)"
    and "4 * (unat y * (unat (fb_pitch (fb s)) div 4) + unat x) + 4 \<le> shadow_size s"
proof -
  let ?p = "unat (fb_pitch (fb s))" and ?h = "unat (fb_height (fb s))" and ?i = "unat y * (unat (fb_pitch (fb s)) div 4) + unat x"
  have x: "unat x + 1 \<le> ?p div 4" and y: "unat y + 1 \<le> ?h" using assms by (auto simp: screen_ok_def on_screen_def)
  have "?i + 1 \<le> (unat y + 1) * (?p div 4)" using x by simp
  also have "\<dots> \<le> ?h * (?p div 4)" using y by (rule mult_le_mono1)
  finally have "4 * ?i + 4 \<le> ?h * (4 * (?p div 4))" by simp
  also have "\<dots> \<le> ?h * ?p" by (intro mult_le_mono2) simp
  finally show le: "4 * ?i + 4 \<le> shadow_size s" by (simp add: shadow_size_def mult.commute)
  have d: "unat (drop_bit 2 (fb_pitch (fb s))) = ?p div 4" by (subst unat_drop_bit_eq) (simp add: drop_bit_eq_div)
  have small: "?i < 2 ^ 32" using le assms(1) by (simp add: screen_ok_def)
  then have "unat (y * drop_bit 2 (fb_pitch (fb s))) = unat y * (?p div 4)"
    by (subst unat_mult_lem[THEN iffD1]) (simp_all add: d)
  then have "unat (y * drop_bit 2 (fb_pitch (fb s)) + x) = ?i"
    using small by (subst unat_add_lem[THEN iffD1]) simp_all
  then show "shadow_addr x y s = fb_shadow s + 4 * ?i" by (simp only: shadow_addr_def)
qed

lemma shadow_addr_apart:
  assumes "screen_ok s" "on_screen s (unat x, unat y)" "on_screen s (unat x', unat y')" "(x, y) \<noteq> (x', y')"
  shows "shadow_addr x y s + 4 \<le> shadow_addr x' y' s \<or> shadow_addr x' y' s + 4 \<le> shadow_addr x y s"
proof -
  let ?q = "unat (fb_pitch (fb s)) div 4"
  have x: "unat x < ?q" "unat x' < ?q" using assms(1-3) by (auto simp: screen_ok_def on_screen_def)
  have ne: "unat y * ?q + unat x \<noteq> unat y' * ?q + unat x'"
  proof
    assume e: "unat y * ?q + unat x = unat y' * ?q + unat x'"
    have "(unat y * ?q + unat x) div ?q = unat y" "(unat y' * ?q + unat x') div ?q = unat y'" using x by auto
    then have "unat y = unat y'" using e by simp
    then show False using e assms(4) by (simp add: unat_arith_simps)
  qed
  have apart: "a + 4 * i + 4 \<le> a + 4 * j \<or> a + 4 * j + 4 \<le> a + 4 * i" if "i \<noteq> j" for a i j :: nat
    using that by linarith
  show ?thesis unfolding shadow_addr_nat[OF assms(1,2)] shadow_addr_nat[OF assms(1,3)] by (rule apart[OF ne])
qed

section \<open>Painting\<close>

definition outside_same :: "screen \<Rightarrow> mem \<Rightarrow> bool" where
  "outside_same s m \<longleftrightarrow> (\<forall>a. a < fb_shadow s \<or> fb_shadow s + shadow_size s \<le> a \<longrightarrow> m a = smem s a)"

definition paints :: "(nat \<times> nat \<rightharpoonup> u32) \<Rightarrow> screen \<Rightarrow> screen \<Rightarrow> bool" where
  "paints f s s' \<longleftrightarrow> s' = on_mem (\<lambda>_. smem s') s \<and> outside_same s (smem s')
     \<and> (\<forall>x y. on_screen s (unat x, unat y) \<longrightarrow>
          fb_read_pixel x y s' = (case f (unat x, unat y) of None \<Rightarrow> fb_read_pixel x y s | Some c \<Rightarrow> c))"

lemma on_mem_simps [simp]:
  "fb (on_mem g s) = fb s" "fb_shadow (on_mem g s) = fb_shadow s" "fb_use_shadow (on_mem g s) = fb_use_shadow s"
  "kcon_row (on_mem g s) = kcon_row s" "kcon_col (on_mem g s) = kcon_col s" "kcon_locked (on_mem g s) = kcon_locked s"
  "kcon_batch (on_mem g s) = kcon_batch s" "smem (on_mem g s) = g (smem s)"
  "scr_heap (on_mem g s) = (scr_heap s)\<lparr>hmem := g (smem s)\<rparr>"
  "shadow_size (on_mem g s) = shadow_size s" "screen_ok (on_mem g s) = screen_ok s" "on_screen (on_mem g s) = on_screen s"
  "off_screen x y (on_mem g s) = off_screen x y s" "shadow_addr x y (on_mem g s) = shadow_addr x y s"
  "on_mem k (on_mem g s) = on_mem (k \<circ> g) s"
  by (auto simp: on_mem_def shadow_size_def screen_ok_def on_screen_def off_screen_def shadow_addr_def fun_eq_iff)

lemma on_mem_id [simp]: "on_mem (\<lambda>_. smem s) s = s"
  by (simp add: on_mem_def)

lemma paintsD:
  assumes "paints f s s'"
  shows "fb s' = fb s" "fb_shadow s' = fb_shadow s" "fb_use_shadow s' = fb_use_shadow s" "kcon_row s' = kcon_row s"
    "kcon_col s' = kcon_col s" "kcon_locked s' = kcon_locked s" "kcon_batch s' = kcon_batch s"
    "scr_heap s' = (scr_heap s)\<lparr>hmem := smem s'\<rparr>" "screen_ok s' = screen_ok s" "on_screen s' = on_screen s"
    "shadow_size s' = shadow_size s"
proof -
  obtain m where "s' = on_mem (\<lambda>_. m) s" using assms unfolding paints_def by blast
  then show "fb s' = fb s" "fb_shadow s' = fb_shadow s" "fb_use_shadow s' = fb_use_shadow s" "kcon_row s' = kcon_row s"
    "kcon_col s' = kcon_col s" "kcon_locked s' = kcon_locked s" "kcon_batch s' = kcon_batch s"
    "scr_heap s' = (scr_heap s)\<lparr>hmem := smem s'\<rparr>" "screen_ok s' = screen_ok s" "on_screen s' = on_screen s"
    "shadow_size s' = shadow_size s"
    by simp_all
qed

lemma paints_refl: "paints Map.empty s s"
  by (simp add: paints_def outside_same_def)

lemma paints_trans:
  assumes "paints f s s1" "paints g s1 s2"
  shows "paints (f ++ g) s s2"
proof -
  note d = paintsD[OF assms(1)]
  have "s2 = on_mem (\<lambda>_. smem s2) (on_mem (\<lambda>_. smem s1) s)" using assms unfolding paints_def by metis
  then have "s2 = on_mem (\<lambda>_. smem s2) s" by (simp add: comp_def)
  moreover have "outside_same s (smem s2)" using assms d(2,11) by (simp add: paints_def outside_same_def)
  ultimately show ?thesis using assms d(10) by (auto simp: paints_def map_add_def split: option.splits)
qed

lemma paints_cong:
  assumes "paints f s s'" "\<And>p. on_screen s p \<Longrightarrow> g p = f p"
  shows "paints g s s'"
  using assms unfolding paints_def by auto

lemma put_pixel_paints:
  assumes "screen_ok s"
  shows "paints [(unat x, unat y) \<mapsto> c] s (fb_put_pixel x y c s)"
proof (cases "on_screen s (unat x, unat y)")
  case False
  then have "fb_put_pixel x y c s = s" using off_screen_iff[OF assms] by (simp add: fb_put_pixel_def)
  moreover have "paints [(unat x, unat y) \<mapsto> c] s s" by (rule paints_cong[OF paints_refl]) (use False in auto)
  ultimately show ?thesis by simp
next
  case True
  let ?a = "shadow_addr x y s" and ?m = "store32 (smem s) (shadow_addr x y s) c"
  have put: "fb_put_pixel x y c s = on_mem (\<lambda>_. ?m) s"
    using True off_screen_iff[OF assms] assms by (simp add: fb_put_pixel_def screen_ok_def on_mem_def)
  have out: "outside_same s ?m"
    using shadow_addr_nat[OF assms True] by (auto simp: outside_same_def intro!: store32_other)
  have read: "fb_read_pixel x' y' (on_mem (\<lambda>_. ?m) s) = (if x' = x \<and> y' = y then c else fb_read_pixel x' y' s)"
    if "on_screen s (unat x', unat y')" for x' y'
  proof (cases "x' = x \<and> y' = y")
    case True
    then show ?thesis using that off_screen_iff[OF assms] assms by (simp add: fb_read_pixel_def screen_ok_def)
  next
    case False
    then have "load32 ?m (shadow_addr x' y' s) = load32 (smem s) (shadow_addr x' y' s)"
      using shadow_addr_apart[OF assms True that] by (intro load32_store32_other) auto
    then show ?thesis using False assms by (auto simp: fb_read_pixel_def screen_ok_def)
  qed
  show ?thesis unfolding put paints_def using out read by (auto simp: word_unat_eq_iff)
qed

section \<open>Areas of one colour\<close>

definition dye :: "(nat \<times> nat) set \<Rightarrow> u32 \<Rightarrow> nat \<times> nat \<rightharpoonup> u32" where
  "dye A c p = (if p \<in> A then Some c else None)"

lemma dye_simps [simp]: "dye A c ++ dye B c = dye (A \<union> B) c" "dye {} c = Map.empty" "[p \<mapsto> c] = dye {p} c"
  by (auto simp: dye_def map_add_def fun_eq_iff)

lemma dye_cong:
  assumes "paints (dye A c) s s'" "\<And>p. on_screen s p \<Longrightarrow> p \<in> B \<longleftrightarrow> p \<in> A"
  shows "paints (dye B c) s s'"
  using assms(1) by (rule paints_cong) (simp add: dye_def assms(2))

lemma fold_paints:
  assumes "screen_ok s" "\<And>i t. i \<in> set xs \<Longrightarrow> fb t = fb s \<Longrightarrow> screen_ok t \<Longrightarrow> paints (dye (A i) c) t (g i t)"
  shows "paints (dye (\<Union>i\<in>set xs. A i) c) s (fold g xs s)"
  using assms
proof (induction xs arbitrary: s)
  case Nil
  then show ?case by (simp add: paints_refl)
next
  case (Cons i xs)
  have p: "paints (dye (A i) c) s (g i s)" using Cons.prems by simp
  have "paints (dye (\<Union>i\<in>set xs. A i) c) (g i s) (fold g xs (g i s))"
    using Cons.prems paintsD(1,9)[OF p] by (intro Cons.IH) simp_all
  from paints_trans[OF p this] show ?case by simp
qed

lemma set_u32_range: "set (u32_range a b) = {z. unat a \<le> unat z \<and> unat z < unat b}"
proof -
  have "z \<in> set (u32_range a b)" if "unat a \<le> unat z" "unat z < unat b" for z
    using that by (auto simp: u32_range_def image_iff intro!: bexI[of _ "unat z"])
  moreover have "unat a \<le> unat z \<and> unat z < unat b" if "z \<in> set (u32_range a b)" for z
  proof -
    obtain n where "z = of_nat n" "unat a \<le> n" "n < unat b" using \<open>z \<in> _\<close> by (auto simp: u32_range_def)
    moreover from this have "unat z = n" using lt_u32[of n b] by (simp add: unat_of_nat32)
    ultimately show ?thesis by simp
  qed
  ultimately show ?thesis by blast
qed

definition box :: "nat \<Rightarrow> nat \<Rightarrow> nat \<Rightarrow> nat \<Rightarrow> (nat \<times> nat) set" where
  "box x y w h = {x..<x + w} \<times> {y..<y + h}"

text \<open>Clipping: on the screen the range of the loop is the requested one.\<close>

lemma clip_end:
  fixes a n lim v :: u32
  assumes "unat v < unat lim"
  shows "unat a \<le> unat v \<and> unat v < unat (if lim - a < n then lim else a + n) \<longleftrightarrow> unat a \<le> unat v \<and> unat v < unat a + unat n"
proof (cases "a \<le> lim")
  case True
  then have s: "unat (lim - a) = unat lim - unat a" by (rule unat_sub)
  show ?thesis
  proof (cases "lim - a < n")
    case True
    then show ?thesis using assms s \<open>a \<le> lim\<close> by (auto simp: word_less_nat_alt word_le_nat_alt)
  next
    case False
    then have "unat a + unat n \<le> unat lim" using s True by (simp add: word_less_nat_alt word_le_nat_alt)
    then have "unat (a + n) = unat a + unat n" using le_u32 by (subst unat_add_lem[THEN iffD1]) auto
    then show ?thesis using False by simp
  qed
next
  case False
  then show ?thesis using assms by (auto simp: word_le_nat_alt)
qed

lemma fill_rect_paints:
  assumes ok: "screen_ok s"
  shows "paints (dye (box (unat x) (unat y) (unat w) (unat h)) c) s (fb_fill_rect x y w h c s)"
proof -
  let ?xe = "if fb_width (fb s) - x < w then fb_width (fb s) else x + w"
  let ?ye = "if fb_height (fb s) - y < h then fb_height (fb s) else y + h"
  have row: "paints (dye (\<Union>col\<in>set (u32_range x ?xe). {(unat col, unat row)}) c) t
      (fold (\<lambda>col. fb_put_pixel col row c) (u32_range x ?xe) t)" if "screen_ok t" for t row
    using that by (intro fold_paints) (simp_all add: put_pixel_paints[simplified])
  have "paints (dye (\<Union>row\<in>set (u32_range y ?ye). \<Union>col\<in>set (u32_range x ?xe). {(unat col, unat row)}) c) s (fb_fill_rect x y w h c s)"
    unfolding fb_fill_rect_def using ok row
    by (simp only: screen_ok_def[of s] simp_thms if_False Let_def) (intro fold_paints[OF ok] row)
  then show ?thesis
  proof (rule dye_cong)
    fix p assume on: "on_screen s p"
    obtain px py where p: "p = (unat (px :: u32), unat (py :: u32))"
    proof -
      have "fst p < 2 ^ 32" "snd p < 2 ^ 32" using on lt_u32 unfolding on_screen_def by blast+
      then show thesis using that[of "of_nat (fst p)" "of_nat (snd p)"] by (simp add: unat_of_nat32)
    qed
    have "unat x \<le> unat px \<and> unat px < unat ?xe \<longleftrightarrow> unat x \<le> unat px \<and> unat px < unat x + unat w"
      "unat y \<le> unat py \<and> unat py < unat ?ye \<longleftrightarrow> unat y \<le> unat py \<and> unat py < unat y + unat h"
      using on p by (intro clip_end; simp add: on_screen_def)+
    then show "p \<in> box (unat x) (unat y) (unat w) (unat h) \<longleftrightarrow> p \<in> (\<Union>row\<in>set (u32_range y ?ye). \<Union>col\<in>set (u32_range x ?xe). {(unat col, unat row)})"
      unfolding p box_def set_u32_range by (auto simp: word_unat_eq_iff)
  qed
qed

section \<open>Rounded rectangles\<close>

declare arc_dx.simps [simp del]

lemma square_le_iff: "0 \<le> (a :: int) \<Longrightarrow> 0 \<le> b \<Longrightarrow> a * a \<le> b * b \<longleftrightarrow> a \<le> b"
  using mult_mono[of a b a b] mult_strict_mono[of b a b a] by (cases "a \<le> b") auto

lemma square_le_nat: "(a :: nat) * a \<le> b * b \<longleftrightarrow> a \<le> b"
  using square_le_iff[of "int a" "int b"] by (simp flip: of_nat_mult)

text \<open>The loop finds the widest row that fits into the circle; for radii up to 46339 no product overflows.\<close>

lemma arc_dx_spec:
  assumes "0 \<le> k" "k < ir" "ir \<le> 46339" "0 \<le> dx" "dx * dx + k * k \<le> ir * ir"
  shows "\<exists>d\<ge>dx. arc_dx ir k dx = Some d \<and> d * d + k * k \<le> ir * ir \<and> ir * ir < (d + 1) * (d + 1) + k * k"
  using assms
proof (induction ir k dx rule: arc_dx.induct)
  case (1 ir k dx)
  have "dx * dx \<le> ir * ir" using 1(6) zero_le_square[of k] by linarith
  then have dx: "dx \<le> ir" using square_le_iff[of dx ir] 1(2-6) by simp
  have sq: "ir * ir \<le> 46339 * 46339" using mult_mono[of ir 46339 ir 46339] 1(2-4) by simp
  have e: "(dx + 1) * (dx + 1) = dx * dx + 2 * dx + 1" by (simp add: algebra_simps)
  then have small: "\<not> (2 ^ 31 \<le> ir * ir \<or> 2 ^ 31 \<le> (dx + 1) * (dx + 1) + k * k)" using sq dx 1(4,6) by simp
  show ?case
  proof (cases "(dx + 1) * (dx + 1) + k * k \<le> ir * ir")
    case True
    from 1(1)[OF small True 1(2-4) _ True] 1(5) obtain d where "dx + 1 \<le> d" "arc_dx ir k (dx + 1) = Some d"
      "d * d + k * k \<le> ir * ir" "ir * ir < (d + 1) * (d + 1) + k * k" by auto
    then show ?thesis using small True by (intro exI[of _ d]) (simp add: arc_dx.simps[of ir k dx])
  next
    case False
    then show ?thesis using small 1(6) by (intro exI[of _ dx]) (simp add: arc_dx.simps[of ir k dx])
  qed
qed

lemma arc_row:
  assumes "k < r" "r \<le> 46339"
  obtains d where "arc_dx (int r) (int k) 0 = Some (int d)" "d \<le> r" "\<forall>e. e \<le> d \<longleftrightarrow> e * e + k * k \<le> r * r"
proof -
  have kr: "int k * int k \<le> int r * int r" using assms(1) square_le_iff[of "int k" "int r"] by simp
  then obtain i where i: "0 \<le> i" "arc_dx (int r) (int k) 0 = Some i" "i * i + int k * int k \<le> int r * int r"
    "int r * int r < (i + 1) * (i + 1) + int k * int k"
    using arc_dx_spec[of "int k" "int r" 0] assms by auto
  obtain n where n: "i = int n" using i(1) nonneg_int_cases by blast
  have a: "n * n + k * k \<le> r * r" using i(3) unfolding n by (simp flip: of_nat_mult of_nat_add)
  have "int r * int r < int (n + 1) * int (n + 1) + int k * int k" using i(4) unfolding n by (simp add: add.commute)
  then have b: "r * r < (n + 1) * (n + 1) + k * k" by (simp only: of_nat_mult[symmetric] of_nat_add[symmetric] of_nat_less_iff)
  have iff: "e \<le> n \<longleftrightarrow> e * e + k * k \<le> r * r" for e
  proof (cases "e \<le> n")
    case True
    then have "e * e \<le> n * n" by (simp add: square_le_nat)
    then show ?thesis using True a by simp
  next
    case False
    then have "(n + 1) * (n + 1) \<le> e * e" unfolding square_le_nat by simp
    then show ?thesis using False b by simp
  qed
  have "n * n \<le> r * r" using a by simp
  then have "n \<le> r" by (simp only: square_le_nat)
  then show thesis using i(2) iff n by (intro that[of "n"]) simp_all
qed

definition corner_gap :: "nat \<Rightarrow> nat \<Rightarrow> nat \<Rightarrow> nat \<Rightarrow> nat" where
  "corner_gap a n r p = (if p < a + r then a + r - p else if a + n \<le> p + r then p + r + 1 - (a + n) else 0)"

text \<open>
  The pixels of a rectangle with rounded corners: the horizontal distance to the straight part, counted from 1, and the
  vertical one, counted from 0, are the sides of a triangle that fits into the circle.
\<close>

definition rounded :: "nat \<Rightarrow> nat \<Rightarrow> nat \<Rightarrow> nat \<Rightarrow> nat \<Rightarrow> (nat \<times> nat) set" where
  "rounded x y w h r = {(px, py) \<in> box x y w h.
     corner_gap x w r px * corner_gap x w r px + (corner_gap y h r py - 1) * (corner_gap y h r py - 1) \<le> r * r}"

lemma mem_rounded: "(px, py) \<in> rounded x y w h r \<longleftrightarrow> (px, py) \<in> box x y w h
    \<and> corner_gap x w r px * corner_gap x w r px + (corner_gap y h r py - 1) * (corner_gap y h r py - 1) \<le> r * r"
  by (simp add: rounded_def)

definition corner_rows :: "nat \<Rightarrow> nat \<Rightarrow> nat \<Rightarrow> nat \<Rightarrow> nat \<Rightarrow> nat \<Rightarrow> (nat \<times> nat) set" where
  "corner_rows x y w h r dy = {(px, py). (py = y + dy \<or> py = y + h - 1 - dy)
     \<and> (x \<le> px \<and> px < x + r \<or> x + w - r \<le> px \<and> px < x + w)
     \<and> corner_gap x w r px * corner_gap x w r px + (r - 1 - dy) * (r - 1 - dy) \<le> r * r}"

lemma corner_rows_boxes:
  assumes "2 * r \<le> w" "d \<le> r" "\<And>e. e \<le> d \<longleftrightarrow> e * e + (r - 1 - dy) * (r - 1 - dy) \<le> r * r"
  shows "corner_rows x y w h r dy = box (x + r - d) (y + dy) d 1 \<union> box (x + w - r) (y + dy) d 1
    \<union> box (x + r - d) (y + h - 1 - dy) d 1 \<union> box (x + w - r) (y + h - 1 - dy) d 1"
proof -
  have "x \<le> px \<and> px < x + r \<and> corner_gap x w r px \<le> d \<longleftrightarrow> x + r - d \<le> px \<and> px < x + r" for px
    using assms(2) by (auto simp: corner_gap_def)
  moreover have "x + w - r \<le> px \<and> px < x + w \<and> corner_gap x w r px \<le> d \<longleftrightarrow> x + w - r \<le> px \<and> px < x + w - r + d" for px
    using assms(1,2) by (auto simp: corner_gap_def)
  ultimately have "(x \<le> px \<and> px < x + r \<or> x + w - r \<le> px \<and> px < x + w) \<and> corner_gap x w r px \<le> d
    \<longleftrightarrow> x + r - d \<le> px \<and> px < x + r \<or> x + w - r \<le> px \<and> px < x + w - r + d" for px by blast
  then have "(px, py) \<in> corner_rows x y w h r dy \<longleftrightarrow> (py = y + dy \<or> py = y + h - 1 - dy)
    \<and> (x + r - d \<le> px \<and> px < x + r \<or> x + w - r \<le> px \<and> px < x + w - r + d)" for px py
    unfolding corner_rows_def assms(3)[symmetric] mem_Collect_eq case_prod_conv by metis
  moreover have "x + r - d + d = x + r" using assms(2) by simp
  moreover have "(px, py) \<in> box a b n 1 \<longleftrightarrow> py = b \<and> a \<le> px \<and> px < a + n" for px py a b n by (auto simp: box_def)
  ultimately show ?thesis by (simp only: set_eq_iff split_paired_All Un_iff) blast
qed

lemma rounded_split:
  assumes "2 * r \<le> w" "2 * r \<le> h"
  shows "rounded x y w h r = box (x + r) y (w - 2 * r) h \<union> box x (y + r) r (h - 2 * r) \<union> box (x + w - r) (y + r) r (h - 2 * r)
    \<union> (\<Union>dy<r. corner_rows x y w h r dy)"
proof (intro set_eqI)
  fix p :: "nat \<times> nat"
  obtain px py where p: "p = (px, py)" by (cases p)
  let ?u = "corner_gap x w r px" and ?v = "corner_gap y h r py - 1"
  have v: "?v * ?v \<le> r * r" if "y \<le> py" "py < y + h" using that assms by (auto simp: square_le_nat corner_gap_def)
  have u: "?u * ?u \<le> r * r" if "x \<le> px" "px < x + w" using that assms by (auto simp: square_le_nat corner_gap_def)
  consider "\<not> (x \<le> px \<and> px < x + w \<and> y \<le> py \<and> py < y + h)"
    | "x + r \<le> px" "px < x + w - r" "y \<le> py" "py < y + h"
    | "x \<le> px" "px < x + w" "\<not> (x + r \<le> px \<and> px < x + w - r)" "y + r \<le> py" "py < y + h - r"
    | "x \<le> px" "px < x + w" "\<not> (x + r \<le> px \<and> px < x + w - r)" "y \<le> py" "py < y + r"
    | "x \<le> px" "px < x + w" "\<not> (x + r \<le> px \<and> px < x + w - r)" "y + h - r \<le> py" "py < y + h"
    by linarith
  then show "p \<in> rounded x y w h r \<longleftrightarrow> p \<in> box (x + r) y (w - 2 * r) h \<union> box x (y + r) r (h - 2 * r)
    \<union> box (x + w - r) (y + r) r (h - 2 * r) \<union> (\<Union>dy<r. corner_rows x y w h r dy)"
  proof cases
    case 1
    then show ?thesis using assms by (auto simp: p rounded_def box_def corner_rows_def)
  next
    case 2
    then have "?u = 0" by (simp add: corner_gap_def)
    then show ?thesis using 2 v assms by (auto simp: p rounded_def box_def)
  next
    case 3
    then have "?v = 0" by (simp add: corner_gap_def)
    then show ?thesis using 3 u assms by (auto simp: p rounded_def box_def)
  next
    case 4
    then have box: "(px, py) \<in> box x y w h" using assms by (auto simp: box_def)
    have v: "?v = r - 1 - (py - y)" using 4 by (simp add: corner_gap_def)
    have "py = y + dy \<or> py = y + h - 1 - dy \<longleftrightarrow> dy = py - y" if "dy < r" for dy using 4 that assms by auto
    moreover have "x \<le> px \<and> px < x + r \<or> x + w - r \<le> px \<and> px < x + w" using 4 by auto
    ultimately have "p \<in> corner_rows x y w h r dy \<longleftrightarrow> dy = py - y \<and> p \<in> rounded x y w h r" if "dy < r" for dy
      using 4 that box unfolding p corner_rows_def mem_rounded v by auto
    then show ?thesis using 4 assms by (auto simp: p box_def)
  next
    case 5
    then have box: "(px, py) \<in> box x y w h" using assms by (auto simp: box_def)
    have v: "?v = r - 1 - (y + h - 1 - py)" using 5 assms by (auto simp: corner_gap_def)
    have "py = y + dy \<or> py = y + h - 1 - dy \<longleftrightarrow> dy = y + h - 1 - py" if "dy < r" for dy using 5 that assms by auto
    moreover have "x \<le> px \<and> px < x + r \<or> x + w - r \<le> px \<and> px < x + w" using 5 by auto
    ultimately have "p \<in> corner_rows x y w h r dy \<longleftrightarrow> dy = y + h - 1 - py \<and> p \<in> rounded x y w h r" if "dy < r" for dy
      using 5 that box unfolding p corner_rows_def mem_rounded v by auto
    then show ?thesis using 5 assms by (auto simp: p box_def)
  qed
qed

lemma unat_ofI: "x = (of_nat n :: u32) \<Longrightarrow> n < 2 ^ 32 \<Longrightarrow> unat x = n"
  by (simp add: unat_of_nat32)

lemma of_nat_unat32 [simp]: "of_nat (unat (x :: u32)) = x"
  by simp

lemma rect_corners_paints:
  assumes "screen_ok s" and b: "2 * unat r \<le> unat w" "2 * unat r \<le> unat h" "unat x + unat w < 2 ^ 32" "unat y + unat h < 2 ^ 32"
    and r: "unat r \<le> 46339" and dys: "\<forall>dy\<in>set dys. dy < unat r"
  shows "\<exists>s'. rect_corners dys x y w h r c s = Some s'
    \<and> paints (dye (\<Union>dy\<in>set dys. corner_rows (unat x) (unat y) (unat w) (unat h) (unat r) dy) c) s s'"
  using assms(1) dys
proof (induction dys arbitrary: s)
  case Nil
  then show ?case by (simp add: paints_refl)
next
  case (Cons dy dys)
  let ?k = "unat r - 1 - dy"
  have dy: "dy < unat r" using Cons.prems(2) by simp
  then have k: "?k < unat r" by simp
  obtain d where d: "arc_dx (int (unat r)) (int ?k) 0 = Some (int d)" "d \<le> unat r"
    "\<forall>e. e \<le> d \<longleftrightarrow> e * e + ?k * ?k \<le> unat r * unat r"
    by (rule arc_row[OF k r])
  have sr: "sint r = int (unat r)" using r by (intro sint_small32) simp
  then have arc: "arc_dx (sint r) (sint r - 1 - int dy) 0 = Some (int d)" using d(1) dy by (simp add: of_nat_diff diff_diff_eq)
  have l: "unat (x + r - of_nat d) = unat x + unat r - d"
    using b d(2) by (intro unat_ofI) (simp_all add: of_nat_diff)
  have rr: "unat (x + w - r) = unat x + unat w - unat r" using b by (intro unat_ofI) (simp_all add: of_nat_diff)
  have t: "unat (y + of_nat dy) = unat y + dy" using b dy by (intro unat_ofI) simp_all
  have bo: "unat (y + h - 1 - of_nat dy) = unat y + unat h - 1 - dy" using b dy by (intro unat_ofI) (simp_all add: of_nat_diff)
  have n: "unat (of_nat d :: u32) = d" using d(2) r by (simp add: unat_of_nat32)
  let ?f = "\<lambda>a b. fb_fill_rect a b (of_nat d) 1 c"
  let ?s1 = "?f (x + r - of_nat d) (y + of_nat dy) s"
  let ?s2 = "?f (x + w - r) (y + of_nat dy) ?s1"
  let ?s3 = "?f (x + r - of_nat d) (y + h - 1 - of_nat dy) ?s2"
  let ?s4 = "?f (x + w - r) (y + h - 1 - of_nat dy) ?s3"
  note f = fill_rect_paints[where w = "of_nat d" and h = 1 and c = c, unfolded n unat_1]
  have p1: "paints (dye (box (unat x + unat r - d) (unat y + dy) d 1) c) s ?s1"
    using f[OF Cons.prems(1), of "x + r - of_nat d" "y + of_nat dy"] by (simp only: l t)
  have p2: "paints (dye (box (unat x + unat w - unat r) (unat y + dy) d 1) c) ?s1 ?s2"
    using f[of ?s1 "x + w - r" "y + of_nat dy"] paintsD(9)[OF p1] Cons.prems(1) by (simp only: rr t)
  note p12 = paints_trans[OF p1 p2]
  have p3: "paints (dye (box (unat x + unat r - d) (unat y + unat h - 1 - dy) d 1) c) ?s2 ?s3"
    using f[of ?s2 "x + r - of_nat d" "y + h - 1 - of_nat dy"] paintsD(9)[OF p12] Cons.prems(1) by (simp only: l bo)
  note p13 = paints_trans[OF p12 p3]
  have p4: "paints (dye (box (unat x + unat w - unat r) (unat y + unat h - 1 - dy) d 1) c) ?s3 ?s4"
    using f[of ?s3 "x + w - r" "y + h - 1 - of_nat dy"] paintsD(9)[OF p13] Cons.prems(1) by (simp only: rr bo)
  have p: "paints (dye (corner_rows (unat x) (unat y) (unat w) (unat h) (unat r) dy) c) s ?s4"
    using paints_trans[OF p13 p4] unfolding corner_rows_boxes[OF b(1) d(2) d(3)[rule_format]] dye_simps .
  from Cons.IH[of ?s4] Cons.prems paintsD(9)[OF p] obtain s' where s': "rect_corners dys x y w h r c ?s4 = Some s'"
    "paints (dye (\<Union>dy\<in>set dys. corner_rows (unat x) (unat y) (unat w) (unat h) (unat r) dy) c) ?s4 s'" by auto
  have "rect_corners (dy # dys) x y w h r c s = Some s'" using arc s'(1) by (simp add: Let_def)
  then show ?case using paints_trans[OF p s'(2)] by simp
qed

lemma unat_clamp: "unat (clamp_radius r w h) = min (unat r) (min (unat w div 2) (unat h div 2))"
  by (auto simp: clamp_radius_def Let_def word_less_nat_alt unat_div min_def)

lemma rounded_rect_paints:
  assumes ok: "screen_ok s" and b: "unat x + unat w < 2 ^ 32" "unat y + unat h < 2 ^ 32"
    and r: "min (unat r) (min (unat w div 2) (unat h div 2)) \<le> 46339"
  shows "\<exists>s'. fb_rounded_rect x y w h r c s = Some s'
    \<and> paints (dye (rounded (unat x) (unat y) (unat w) (unat h) (min (unat r) (min (unat w div 2) (unat h div 2)))) c) s s'"
proof -
  define q where "q = clamp_radius r w h"
  have q: "unat q = min (unat r) (min (unat w div 2) (unat h div 2))" unfolding q_def by (rule unat_clamp)
  have qr: "unat q \<le> 46339" "2 * unat q \<le> unat w" "2 * unat q \<le> unat h" using r unfolding q by auto
  have u: "unat (2 * q) = 2 * unat q" using qr(2) unat_less32[of w] by (intro unat_ofI) (simp_all del: unat_less32)
  have wq: "unat (w - 2 * q) = unat w - 2 * unat q" "unat (h - 2 * q) = unat h - 2 * unat q"
    using qr u by (subst unat_sub; simp add: word_le_nat_alt)+
  have xq: "unat (x + q) = unat x + unat q" "unat (y + q) = unat y + unat q" "unat (x + w - q) = unat x + unat w - unat q"
    using b qr by (intro unat_ofI; simp add: of_nat_diff)+
  define s1 where "s1 = (if 2 * q < w then fb_fill_rect (x + q) y (w - 2 * q) h c s else s)"
  define s2 where "s2 = (if 2 * q < h then fb_fill_rect (x + w - q) (y + q) q (h - 2 * q) c (fb_fill_rect x (y + q) q (h - 2 * q) c s1) else s1)"
  have p1: "paints (dye (box (unat x + unat q) (unat y) (unat w - 2 * unat q) (unat h)) c) s s1"
  proof (cases "2 * q < w")
    case True
    then show ?thesis using fill_rect_paints[OF ok, of "x + q" y "w - 2 * q" h c] by (simp add: s1_def wq xq)
  next
    case False
    then have "unat w - 2 * unat q = 0" using u by (simp add: word_less_nat_alt)
    then show ?thesis using False by (simp add: s1_def box_def paints_refl)
  qed
  have ok1: "screen_ok s1" using paintsD(9)[OF p1] ok by simp
  have p2: "paints (dye (box (unat x) (unat y + unat q) (unat q) (unat h - 2 * unat q)
      \<union> box (unat x + unat w - unat q) (unat y + unat q) (unat q) (unat h - 2 * unat q)) c) s1 s2"
  proof (cases "2 * q < h")
    case True
    have a: "paints (dye (box (unat x) (unat y + unat q) (unat q) (unat h - 2 * unat q)) c) s1 (fb_fill_rect x (y + q) q (h - 2 * q) c s1)"
      using fill_rect_paints[OF ok1, of x "y + q" q "h - 2 * q" c] by (simp add: wq xq)
    have "paints (dye (box (unat x + unat w - unat q) (unat y + unat q) (unat q) (unat h - 2 * unat q)) c)
        (fb_fill_rect x (y + q) q (h - 2 * q) c s1) s2"
      using fill_rect_paints[of "fb_fill_rect x (y + q) q (h - 2 * q) c s1" "x + w - q" "y + q" q "h - 2 * q" c]
        paintsD(9)[OF a] ok1 True by (simp add: s2_def wq xq)
    from paints_trans[OF a this] show ?thesis by simp
  next
    case False
    then have "unat h - 2 * unat q = 0" using u by (simp add: word_less_nat_alt)
    then show ?thesis using False by (simp add: s2_def box_def paints_refl)
  qed
  have ok2: "screen_ok s2" using paintsD(9)[OF p2] ok1 by simp
  have sq: "nat (sint q) = unat q" using qr(1) by (subst sint_small32) simp_all
  obtain s' where s': "rect_corners [0..<nat (sint q)] x y w h q c s2 = Some s'"
    "paints (dye (\<Union>dy<unat q. corner_rows (unat x) (unat y) (unat w) (unat h) (unat q) dy) c) s2 s'"
    using rect_corners_paints[OF ok2 qr(2,3) b qr(1), of "[0..<unat q]" c] unfolding sq by (auto simp: lessThan_atLeast0)
  have "fb_rounded_rect x y w h r c s = Some s'"
    using s'(1) ok unfolding fb_rounded_rect_def Let_def q_def[symmetric] s1_def[symmetric] s2_def[symmetric]
    by (simp add: screen_ok_def)
  moreover have "paints (dye (rounded (unat x) (unat y) (unat w) (unat h) (unat q)) c) s s'"
    using paints_trans[OF paints_trans[OF p1 p2] s'(2)] unfolding rounded_split[OF qr(2,3)] dye_simps by (simp add: Un_assoc)
  ultimately show ?thesis unfolding q by blast
qed

end
