(* ===== verification/Framebuffer_Safe.thy ===== *)
theory Framebuffer_Safe
  imports Framebuffer_Props Heap_Props Heap_Frame
begin

unbundle bit_operations_syntax

text \<open>
  Safety of the frame buffer driver: every primitive and the console change only bytes of the shadow buffer, a flip
  and the direct pixel writes only bytes of the video memory, and the cursor of the console stays on the screen.
\<close>

section \<open>Every primitive stays in the shadow buffer\<close>

definition painted :: "screen \<Rightarrow> screen \<Rightarrow> bool" where
  "painted s s' \<longleftrightarrow> s' = on_mem (\<lambda>_. smem s') s \<and> outside_same s (smem s')"

lemma paints_painted: "paints f s s' \<Longrightarrow> painted s s'"
  by (simp add: paints_def painted_def)

lemma painted_refl [simp]: "painted s s"
  by (simp add: painted_def outside_same_def)

lemma paintedD:
  assumes "painted s s'"
  shows "fb s' = fb s" "fb_shadow s' = fb_shadow s" "fb_use_shadow s' = fb_use_shadow s" "kcon_row s' = kcon_row s"
    "kcon_col s' = kcon_col s" "kcon_locked s' = kcon_locked s" "kcon_batch s' = kcon_batch s"
    "scr_heap s' = (scr_heap s)\<lparr>hmem := smem s'\<rparr>" "screen_ok s' = screen_ok s" "shadow_size s' = shadow_size s"
proof -
  obtain m where "s' = on_mem (\<lambda>_. m) s" using assms unfolding painted_def by blast
  then show "fb s' = fb s" "fb_shadow s' = fb_shadow s" "fb_use_shadow s' = fb_use_shadow s" "kcon_row s' = kcon_row s"
    "kcon_col s' = kcon_col s" "kcon_locked s' = kcon_locked s" "kcon_batch s' = kcon_batch s"
    "scr_heap s' = (scr_heap s)\<lparr>hmem := smem s'\<rparr>" "screen_ok s' = screen_ok s" "shadow_size s' = shadow_size s"
    by simp_all
qed

lemma painted_trans:
  assumes "painted s s1" "painted s1 s2"
  shows "painted s s2"
proof -
  have "s2 = on_mem (\<lambda>_. smem s2) (on_mem (\<lambda>_. smem s1) s)" using assms unfolding painted_def by metis
  then have "s2 = on_mem (\<lambda>_. smem s2) s" by (simp add: comp_def)
  then show ?thesis using assms paintedD(2,10)[OF assms(1)] by (simp add: painted_def outside_same_def)
qed

lemma painted_fold:
  assumes "screen_ok s" "\<And>i t. i \<in> set xs \<Longrightarrow> screen_ok t \<Longrightarrow> painted t (g i t)"
  shows "painted s (fold g xs s)"
  using assms
proof (induction xs arbitrary: s)
  case (Cons i xs)
  have p: "painted s (g i s)" using Cons.prems by simp
  then show ?case using Cons.IH[of "g i s"] Cons.prems paintedD(9)[OF p] painted_trans[OF p] by simp
qed simp

lemma put_pixel_painted [simp]: "screen_ok s \<Longrightarrow> painted s (fb_put_pixel x y c s)"
  by (rule paints_painted[OF put_pixel_paints])

lemma fill_rect_painted [simp]: "screen_ok s \<Longrightarrow> painted s (fb_fill_rect x y w h c s)"
  by (rule paints_painted[OF fill_rect_paints])

lemma painted_then: "screen_ok s \<Longrightarrow> painted s s1 \<Longrightarrow> (screen_ok s1 \<Longrightarrow> painted s1 s2) \<Longrightarrow> painted s s2"
  using paintedD(9) painted_trans by blast

lemma painted_unless: "painted s s1 \<Longrightarrow> painted s (if b then s else s1)"
  by simp

lemma putchar_painted [simp]: "screen_ok s \<Longrightarrow> painted s (fb_putchar x y ch fg bg s)"
  unfolding fb_putchar_def by (rule painted_unless, rule painted_fold, assumption, rule painted_fold) simp_all

lemma print_painted [simp]: "screen_ok s \<Longrightarrow> painted s (fb_print x y str fg bg s)"
proof -
  have "screen_ok s \<Longrightarrow> painted s (print_loop x cx y str fg bg s)" for cx
  proof (induction str arbitrary: cx y s)
    case (Cons c cs)
    let ?s1 = "if c = 10 then s else fb_putchar cx y c fg bg s"
    have p: "painted s ?s1" using Cons.prems by simp
    obtain cx' y' where "print_loop x cx y (c # cs) fg bg s = print_loop x cx' y' cs fg bg ?s1"
      by (cases "c = 10"; simp) (metis+)
    then show ?case using Cons.IH[of ?s1 cx' y'] Cons.prems paintedD(9)[OF p] painted_trans[OF p] by (simp del: print_loop.simps)
  qed simp
  then show "screen_ok s \<Longrightarrow> ?thesis" by (simp add: fb_print_def)
qed

lemma blit_painted: "screen_ok s \<Longrightarrow> painted s (fb_blit x y w h pixels s)"
  unfolding fb_blit_def by (intro painted_fold) simp_all

lemma putchar_s_painted [simp]: "screen_ok s \<Longrightarrow> painted s (fb_putchar_s x y ch fg bg scale s)"
  unfolding fb_putchar_s_def Let_def
  by (rule painted_unless, rule painted_fold, assumption, rule painted_fold) simp_all

lemma print_s_painted: "screen_ok s \<Longrightarrow> painted s (fb_print_s x y str fg bg scale s)"
proof -
  have "screen_ok s \<Longrightarrow> painted s (print_s_loop x cx y str fg bg scale s)" for cx
  proof (induction x cx y str fg bg scale s rule: print_s_loop.induct)
    case (2 x cx y c cs fg bg scale s)
    have p: "painted s (fb_putchar_s cx y c fg bg scale s)" using 2(3) by simp
    then show ?case using 2 paintedD(9)[OF p] painted_trans[OF p] by simp
  qed simp
  then show "screen_ok s \<Longrightarrow> ?thesis" by (simp add: fb_print_s_def)
qed

lemma arc_some: "dy < unat (r :: u32) \<Longrightarrow> unat r \<le> 46339 \<Longrightarrow> \<exists>dx. arc_dx (sint r) (sint r - 1 - int dy) 0 = Some dx"
proof -
  assume d: "dy < unat r" and r: "unat r \<le> 46339"
  then have "unat r - 1 - dy < unat r" by simp
  then obtain dx where "arc_dx (int (unat r)) (int (unat r - 1 - dy)) 0 = Some (int dx)" by (rule arc_row[OF _ r])
  moreover have "sint r = int (unat r)" using r by (intro sint_small32) simp
  ultimately show ?thesis using d by (simp add: of_nat_diff diff_diff_eq)
qed

lemma fill_rect_step: "screen_ok s \<Longrightarrow> painted s t \<Longrightarrow> painted s (fb_fill_rect x y w h c t)"
  using fill_rect_painted paintedD(9) painted_trans by blast

lemma put_pixel_step: "screen_ok s \<Longrightarrow> painted s t \<Longrightarrow> painted s (fb_put_pixel x y c t)"
  using put_pixel_painted paintedD(9) painted_trans by blast

lemma rect_corners_painted:
  assumes "screen_ok s" "unat r \<le> 46339" "\<forall>dy\<in>set dys. dy < unat r"
  shows "\<exists>s'. rect_corners dys x y w h r c s = Some s' \<and> painted s s'"
  using assms
proof (induction dys arbitrary: s)
  case (Cons dy dys)
  then obtain dx where dx: "arc_dx (sint r) (sint r - 1 - int dy) 0 = Some dx" using arc_some by force
  let ?f = "\<lambda>a b. fb_fill_rect a b (of_int dx) 1 c"
  let ?s4 = "?f (x + w - r) (y + h - 1 - of_nat dy) (?f (x + r - of_int dx) (y + h - 1 - of_nat dy)
     (?f (x + w - r) (y + of_nat dy) (?f (x + r - of_int dx) (y + of_nat dy) s)))"
  have p: "painted s ?s4" by (intro fill_rect_step painted_refl Cons.prems(1))
  then obtain s' where s': "rect_corners dys x y w h r c ?s4 = Some s'" "painted ?s4 s'"
    using Cons.IH[of ?s4] Cons.prems paintedD(9)[OF p] by (meson list.set_intros(2))
  have "rect_corners (dy # dys) x y w h r c s = Some s'" using dx s'(1) by (simp add: Let_def)
  then show ?case using painted_trans[OF p s'(2)] by blast
qed simp

lemma outline_corners_painted:
  assumes "screen_ok s" "unat r \<le> 46339" "\<forall>dy\<in>set dys. dy < unat r"
  shows "\<exists>s'. outline_corners dys x y w h r c s = Some s' \<and> painted s s'"
  using assms
proof (induction dys arbitrary: s)
  case (Cons dy dys)
  then obtain dx where dx: "arc_dx (sint r) (sint r - 1 - int dy) 0 = Some dx" using arc_some by force
  let ?s4 = "fb_put_pixel (x + w - r + of_int dx) (y + h - 1 - of_nat dy) c (fb_put_pixel (x + r - 1 - of_int dx) (y + h - 1 - of_nat dy) c
     (fb_put_pixel (x + w - r + of_int dx) (y + of_nat dy) c (fb_put_pixel (x + r - 1 - of_int dx) (y + of_nat dy) c s)))"
  have p: "painted s ?s4" by (intro put_pixel_step painted_refl Cons.prems(1))
  then obtain s' where s': "outline_corners dys x y w h r c ?s4 = Some s'" "painted ?s4 s'"
    using Cons.IH[of ?s4] Cons.prems paintedD(9)[OF p] by (meson list.set_intros(2))
  have "outline_corners (dy # dys) x y w h r c s = Some s'" using dx s'(1) by (simp add: Let_def)
  then show ?case using painted_trans[OF p s'(2)] by blast
qed simp

lemma painted_if: "(b \<Longrightarrow> painted s s1) \<Longrightarrow> painted s (if b then s1 else s)"
  by simp

lemma corner_range: "unat r \<le> 46339 \<Longrightarrow> \<forall>dy\<in>set [0..<nat (sint r)]. dy < unat (r :: u32)"
  by (subst sint_small32) auto

lemma rounded_rect_painted:
  assumes ok: "screen_ok s" and r: "unat (clamp_radius r w h) \<le> 46339"
  shows "\<exists>s'. fb_rounded_rect x y w h r c s = Some s' \<and> painted s s'"
proof -
  define q where "q = clamp_radius r w h"
  define s1 where "s1 = (if 2 * q < w then fb_fill_rect (x + q) y (w - 2 * q) h c s else s)"
  define s2 where "s2 = (if 2 * q < h then fb_fill_rect (x + w - q) (y + q) q (h - 2 * q) c (fb_fill_rect x (y + q) q (h - 2 * q) c s1) else s1)"
  have p1: "painted s s1" unfolding s1_def by (intro painted_if fill_rect_painted ok)
  have ok1: "screen_ok s1" using paintedD(9)[OF p1] ok by simp
  have p2: "painted s1 s2" unfolding s2_def by (intro painted_if fill_rect_step painted_refl ok1)
  have ok2: "screen_ok s2" using paintedD(9)[OF p2] ok1 by simp
  obtain s' where s': "rect_corners [0..<nat (sint q)] x y w h q c s2 = Some s'" "painted s2 s'"
    using rect_corners_painted[OF ok2 _ corner_range] r unfolding q_def by blast
  have "fb_rounded_rect x y w h r c s = Some s'"
    using s'(1) ok unfolding fb_rounded_rect_def Let_def q_def[symmetric] s1_def[symmetric] s2_def[symmetric] by (simp add: screen_ok_def)
  then show ?thesis using painted_trans[OF painted_trans[OF p1 p2] s'(2)] by blast
qed

lemma rounded_outline_painted:
  assumes ok: "screen_ok s" and r: "unat (clamp_radius r w h) \<le> 46339"
  shows "\<exists>s'. fb_rounded_outline x y w h r c s = Some s' \<and> painted s s'"
proof (cases "w = 0 \<or> h = 0")
  case False
  define q where "q = clamp_radius r w h"
  define s1 where "s1 = (if 2 * q < w then fb_fill_rect (x + q) (y + h - 1) (w - 2 * q) 1 c (fb_fill_rect (x + q) y (w - 2 * q) 1 c s) else s)"
  define s2 where "s2 = (if 2 * q < h then fb_fill_rect (x + w - 1) (y + q) 1 (h - 2 * q) c (fb_fill_rect x (y + q) 1 (h - 2 * q) c s1) else s1)"
  have p1: "painted s s1" unfolding s1_def by (intro painted_if fill_rect_step painted_refl ok)
  have ok1: "screen_ok s1" using paintedD(9)[OF p1] ok by simp
  have p2: "painted s1 s2" unfolding s2_def by (intro painted_if fill_rect_step painted_refl ok1)
  have ok2: "screen_ok s2" using paintedD(9)[OF p2] ok1 by simp
  obtain s' where s': "outline_corners [0..<nat (sint q)] x y w h q c s2 = Some s'" "painted s2 s'"
    using outline_corners_painted[OF ok2 _ corner_range] r unfolding q_def by blast
  have "fb_rounded_outline x y w h r c s = Some s'"
    using s'(1) ok False unfolding fb_rounded_outline_def Let_def q_def[symmetric] s1_def[symmetric] s2_def[symmetric] by (simp add: screen_ok_def)
  then show ?thesis using painted_trans[OF painted_trans[OF p1 p2] s'(2)] by blast
qed (auto simp: fb_rounded_outline_def)

section \<open>Video memory and the console\<close>

definition in_region :: "addr \<Rightarrow> nat \<Rightarrow> addr \<Rightarrow> bool" where "in_region p n a \<longleftrightarrow> p \<le> a \<and> a < p + n"

definition draws :: "screen \<Rightarrow> screen \<Rightarrow> bool" where
  "draws s s' \<longleftrightarrow> fb s' = fb s \<and> fb_shadow s' = fb_shadow s \<and> fb_use_shadow s' = fb_use_shadow s
     \<and> (\<exists>m. scr_heap s' = (scr_heap s)\<lparr>hmem := m\<rparr>)
     \<and> (\<forall>a. \<not> in_region (fb_shadow s) (shadow_size s) a \<and> \<not> in_region (unat (fb_addr (fb s))) (shadow_size s) a \<longrightarrow> smem s' a = smem s a)"

definition console_inv :: "screen \<Rightarrow> bool" where
  "console_inv s \<longleftrightarrow> 64 \<le> unat (fb_height (fb s)) \<and> 8 \<le> unat (fb_width (fb s))
     \<and> unat (kcon_row s) < unat (fb_height (fb s)) div 16 - 2 \<and> unat (kcon_col s) \<le> unat (fb_width (fb s)) div 8"

definition frame_ok :: "screen \<Rightarrow> bool" where
  "frame_ok s \<longleftrightarrow> screen_ok s \<and> console_inv s \<and> fb_bpp (fb s) = 32"

lemma shadow_size_cong: "fb s' = fb s \<Longrightarrow> shadow_size s' = shadow_size s"
  by (simp add: shadow_size_def)

lemma draws_trans: "draws s s1 \<Longrightarrow> draws s1 s2 \<Longrightarrow> draws s s2"
  unfolding draws_def using shadow_size_cong[of s1 s] by auto

lemma painted_draws: "painted s s' \<Longrightarrow> draws s s'"
  using paintedD(1-3)[of s s'] paintedD(8)[of s s'] unfolding draws_def painted_def outside_same_def in_region_def by (metis not_le)

lemma draws_kcon [simp]:
  "draws s (s'\<lparr>kcon_row := r\<rparr>) = draws s s'" "draws s (s'\<lparr>kcon_col := r\<rparr>) = draws s s'"
  "draws s (s'\<lparr>kcon_locked := l\<rparr>) = draws s s'" "draws s (s'\<lparr>kcon_batch := b\<rparr>) = draws s s'"
  "draws (s\<lparr>kcon_row := r\<rparr>) s' = draws s s'" "draws (s\<lparr>kcon_col := r\<rparr>) s' = draws s s'"
  "draws (s\<lparr>kcon_locked := l\<rparr>) s' = draws s s'" "draws (s\<lparr>kcon_batch := b\<rparr>) s' = draws s s'"
  by (simp_all add: draws_def shadow_size_def)

lemma screen_ok_kcon [simp]:
  "screen_ok (s\<lparr>kcon_row := r\<rparr>) = screen_ok s" "screen_ok (s\<lparr>kcon_col := r\<rparr>) = screen_ok s"
  "screen_ok (s\<lparr>kcon_locked := l\<rparr>) = screen_ok s" "screen_ok (s\<lparr>kcon_batch := b\<rparr>) = screen_ok s"
  by (simp_all add: screen_ok_def shadow_size_def)

lemma frame_ok_painted: "painted s s' \<Longrightarrow> frame_ok s \<Longrightarrow> frame_ok s'"
  using paintedD[of s s'] by (simp add: frame_ok_def console_inv_def)

lemma own_memory [simp]: "\<exists>m. h = h\<lparr>hmem := m\<rparr>"
  by (rule exI[of _ "hmem h"]) simp

lemma draws_refl [simp]: "draws s s"
  by (simp add: draws_def)

lemma vram_addr_on_mem [simp]: "vram_addr x y (on_mem g s) = vram_addr x y s"
  by (simp add: vram_addr_def)

lemma memcpy_other: "x < d \<or> d + n \<le> x \<Longrightarrow> memcpy d a n m x = m x"
  by (induction n arbitrary: d a m) auto

lemma flip_size: "screen_ok s \<Longrightarrow> unat (fb_height (fb s) * fb_pitch (fb s)) = shadow_size s"
  unfolding screen_ok_def shadow_size_def by (subst unat_mult_lem[THEN iffD1]) (simp_all add: mult.commute)

lemma flip_draws: "screen_ok s \<Longrightarrow> draws s (fb_flip s)"
  using flip_size[of s] by (auto simp: fb_flip_def draws_def in_region_def memcpy_other not_le)

lemma flip_frame: "frame_ok s \<Longrightarrow> frame_ok (fb_flip s)"
  by (simp add: fb_flip_def frame_ok_def console_inv_def)

lemma vram_addr_nat:
  assumes ok: "screen_ok s" and bpp: "fb_bpp (fb s) = 32" and on: "on_screen s (unat x, unat y)"
  shows "vram_addr x y s = unat (fb_addr (fb s)) + (unat y * unat (fb_pitch (fb s)) + 4 * unat x)"
    and "unat y * unat (fb_pitch (fb s)) + 4 * unat x + 4 \<le> shadow_size s"
proof -
  let ?p = "unat (fb_pitch (fb s))"
  have x: "4 * unat x + 4 \<le> ?p" and y: "unat y + 1 \<le> unat (fb_height (fb s))" using ok on by (auto simp: screen_ok_def on_screen_def)
  have "unat y * ?p + 4 * unat x + 4 \<le> (unat y + 1) * ?p" using x by simp
  also have "\<dots> \<le> unat (fb_height (fb s)) * ?p" using y by (rule mult_le_mono1)
  finally show le: "unat y * ?p + 4 * unat x + 4 \<le> shadow_size s" by (simp add: shadow_size_def mult.commute)
  then have small: "unat y * ?p + 4 * unat x < 2 ^ 32" using ok by (simp add: screen_ok_def)
  have "unat (y * fb_pitch (fb s)) = unat y * ?p" "unat (x * 4) = unat x * 4"
    using small by (subst unat_mult_lem[THEN iffD1]; simp)+
  then show "vram_addr x y s = unat (fb_addr (fb s)) + (unat y * ?p + 4 * unat x)" by (simp add: vram_addr_def bpp)
qed

lemma put_vram_draws:
  assumes "frame_ok s"
  shows "draws s (fb_put_pixel_vram x y c s)" "frame_ok (fb_put_pixel_vram x y c s)"
proof -
  have ok: "screen_ok s" and bpp: "fb_bpp (fb s) = 32" using assms by (auto simp: frame_ok_def)
  show "frame_ok (fb_put_pixel_vram x y c s)" using assms by (simp add: fb_put_pixel_vram_def frame_ok_def console_inv_def)
  have "smem (fb_put_pixel_vram x y c s) a = smem s a" if "\<not> in_region (unat (fb_addr (fb s))) (shadow_size s) a" for a
  proof (cases "on_screen s (unat x, unat y)")
    case True
    then show ?thesis using that vram_addr_nat[OF ok bpp True] off_screen_iff[OF ok]
      by (auto simp: fb_put_pixel_vram_def store_color_def bpp in_region_def intro!: store32_other)
  qed (use off_screen_iff[OF ok] in \<open>simp add: fb_put_pixel_vram_def\<close>)
  then show "draws s (fb_put_pixel_vram x y c s)" by (auto simp: draws_def fb_put_pixel_vram_def)
qed

text \<open>After a flip the video memory shows the shadow buffer.\<close>

lemma flip_shows:
  assumes "frame_ok s" and pitch: "4 dvd unat (fb_pitch (fb s))"
    and apart: "unat (fb_addr (fb s)) + shadow_size s \<le> fb_shadow s \<or> fb_shadow s + shadow_size s \<le> unat (fb_addr (fb s))"
  shows "fb_read_pixel_vram x y (fb_flip s) = fb_read_pixel x y s"
proof (cases "on_screen s (unat x, unat y)")
  case False
  then show ?thesis using assms(1) off_screen_iff[of s x y]
    by (simp add: frame_ok_def fb_read_pixel_vram_def fb_read_pixel_def fb_flip_def)
next
  case True
  have ok: "screen_ok s" and bpp: "fb_bpp (fb s) = 32" using assms(1) by (auto simp: frame_ok_def)
  let ?i = "unat y * unat (fb_pitch (fb s)) + 4 * unat x"
  note va = vram_addr_nat[OF ok bpp True]
  have sa: "shadow_addr x y s = fb_shadow s + ?i"
    using shadow_addr_nat(1)[OF ok True] pitch by (auto simp: algebra_simps)
  have fl: "fb_flip s = on_mem (memcpy (unat (fb_addr (fb s))) (fb_shadow s) (shadow_size s)) s"
    using ok flip_size[OF ok] by (simp add: fb_flip_def screen_ok_def)
  have "memcpy (unat (fb_addr (fb s))) (fb_shadow s) (shadow_size s) (smem s) (unat (fb_addr (fb s)) + ?i + j) = smem s (fb_shadow s + ?i + j)"
    if "j < 4" for j
    using that va(2) apart by (subst memcpy_byte) (auto simp: add.assoc)
  then have "load32 (memcpy (unat (fb_addr (fb s))) (fb_shadow s) (shadow_size s) (smem s)) (unat (fb_addr (fb s)) + ?i)
      = load32 (smem s) (fb_shadow s + ?i)"
    unfolding load32_def load_bytes_def by (intro arg_cong[where f = le_word] map_cong) auto
  then show ?thesis using off_screen_iff[OF ok] True ok
    by (simp add: fb_read_pixel_vram_def fb_read_pixel_def fl bpp sa screen_ok_def va(1) Let_def)
qed

lemma header_bar_painted: "screen_ok s \<Longrightarrow> painted s (header_bar s)"
  unfolding header_bar_def by (rule painted_then[OF _ fill_rect_painted print_painted])

lemma clear_painted: "screen_ok s \<Longrightarrow> painted s (fb_clear c s)"
  by (simp add: fb_clear_def)

lemma fold_copy_other:
  "set bs \<subseteq> {..<n} \<Longrightarrow> a < d \<or> d + n \<le> a \<Longrightarrow> fold (\<lambda>b m. m(d + b := m (src + b))) bs (m :: mem) a = m a"
proof (induction bs arbitrary: m)
  case (Cons b bs)
  from Cons.prems have "b < n" "a < d \<or> d + n \<le> a" by auto
  then have "a \<noteq> d + b" by linarith
  then show ?case using Cons by simp
qed simp

text \<open>Moving a line up.\<close>

lemma move_line_other:
  assumes "unat (r * of_nat n) = unat r * n" "a < base + unat r * n \<or> base + unat r * n + n \<le> a"
  shows "move_line base n r m a = m a"
  unfolding move_line_def Let_def using assms by (intro fold_copy_other[where n = n]) auto

lemma fold_move_other:
  assumes "\<forall>r\<in>set rs. unat (r * of_nat n) = unat r * n \<and> base + unat r * n + n \<le> e" "a < base \<or> e \<le> a"
  shows "fold (move_line base n) rs m a = m a"
  using assms(1)
proof (induction rs arbitrary: m)
  case (Cons r rs)
  have "move_line base n r m a = m a" using Cons.prems assms(2) by (intro move_line_other) auto
  then show ?case using Cons by simp
qed simp

lemma console_rows:
  assumes "64 \<le> unat (fb_height (fb s))"
  shows "unat (KCON_ROWS s - 2) = unat (fb_height (fb s)) div 16 - 2" "unat (KCON_COLS s) = unat (fb_width (fb s)) div 8"
  using assms by (simp_all add: KCON_ROWS_def KCON_COLS_def unat_sub word_le_nat_alt unat_div)

lemma scroll_lines_painted:
  assumes ok: "screen_ok s" and h: "64 \<le> unat (fb_height (fb s))"
  shows "painted s (on_mem (fold (move_line (fb_shadow s + unat (20 * fb_pitch (fb s))) (unat (fb_pitch (fb s) * 16)))
     (filter (\<lambda>r. r + 1 < KCON_ROWS s - 2) (u32_range 0 (KCON_ROWS s - 2)))) s)"
proof -
  let ?p = "unat (fb_pitch (fb s))" and ?h = "unat (fb_height (fb s))"
  have size: "?p * ?h < 2 ^ 31" using ok by (simp add: screen_ok_def shadow_size_def)
  have "?p * 64 \<le> ?p * ?h" using h by (rule mult_le_mono2)
  then have small: "?p * 64 < 2 ^ 31" using size by linarith
  have n: "unat (fb_pitch (fb s) * 16) = ?p * 16" "unat (20 * fb_pitch (fb s)) = 20 * ?p"
    using small by (subst unat_mult_lem[THEN iffD1]; simp)+
  have r: "unat (r * of_nat (?p * 16)) = unat r * (?p * 16) \<and> fb_shadow s + 20 * ?p + unat r * (?p * 16) + ?p * 16 \<le> fb_shadow s + shadow_size s"
    if "unat r < ?h div 16 - 2" for r :: u32
  proof -
    have "16 * unat r + 36 \<le> ?h" using that by linarith
    then have le: "?p * (16 * unat r + 36) \<le> ?p * ?h" by (rule mult_le_mono2)
    have e: "?p * (16 * unat r + 36) = unat r * (?p * 16) + 36 * ?p" by (simp add: algebra_simps)
    then have "unat r * (?p * 16) < 2 ^ 31" using le size by linarith
    then have "unat r * (?p * 16) < 2 ^ 32" by simp
    moreover have "unat (of_nat (?p * 16) :: u32) = ?p * 16" using small by (intro unat_of_nat32) simp
    ultimately have "unat (r * of_nat (?p * 16)) = unat r * (?p * 16)" by (subst unat_mult_lem[THEN iffD1]) simp_all
    then show ?thesis using le e by (simp add: shadow_size_def)
  qed
  have rs: "unat r < ?h div 16 - 2" if "r \<in> set (filter (\<lambda>r. r + 1 < KCON_ROWS s - 2) (u32_range 0 (KCON_ROWS s - 2)))" for r
    using that console_rows(1)[OF h] by (simp add: set_u32_range)
  show ?thesis unfolding painted_def outside_same_def n
  proof (intro conjI allI impI)
    fix a assume a: "a < fb_shadow s \<or> fb_shadow s + shadow_size s \<le> a"
    show "smem (on_mem (fold (move_line (fb_shadow s + 20 * ?p) (?p * 16))
        (filter (\<lambda>r. r + 1 < KCON_ROWS s - 2) (u32_range 0 (KCON_ROWS s - 2)))) s) a = smem s a"
      by (subst on_mem_simps(8), rule fold_move_other[where e = "fb_shadow s + shadow_size s"]) (use rs r a in auto)
  qed (simp add: on_mem_def)
qed

lemma scroll_draws:
  assumes ok: "screen_ok s" and h: "64 \<le> unat (fb_height (fb s))"
  shows "\<exists>t. painted s t \<and> kcon_scroll s = t\<lparr>kcon_row := KCON_ROWS s - 2 - 1\<rparr>"
proof -
  define s1 where "s1 = on_mem (fold (move_line (fb_shadow s + unat (20 * fb_pitch (fb s))) (unat (fb_pitch (fb s) * 16)))
     (filter (\<lambda>r. r + 1 < KCON_ROWS s - 2) (u32_range 0 (KCON_ROWS s - 2)))) s"
  let ?s2 = "fb_fill_rect 0 (20 + (KCON_ROWS s - 2 - 1) * 16) (fb_width (fb s)) 16 KCON_BG s1"
  have p1: "painted s s1" unfolding s1_def by (rule scroll_lines_painted[OF ok h])
  have p2: "painted s ?s2" using ok p1 by (rule fill_rect_step)
  have "screen_ok ?s2" using paintedD(9)[OF p2] ok by simp
  then have "painted s (header_bar ?s2)" using painted_trans[OF p2] header_bar_painted by blast
  moreover have "kcon_scroll s = (header_bar ?s2)\<lparr>kcon_row := KCON_ROWS s - 2 - 1\<rparr>"
    using ok unfolding kcon_scroll_def Let_def s1_def by (simp add: screen_ok_def)
  ultimately show ?thesis by blast
qed

definition steps_to :: "screen \<Rightarrow> screen \<Rightarrow> bool" where "steps_to s s' \<longleftrightarrow> draws s s' \<and> frame_ok s'"

lemma steps_to_trans: "steps_to s s1 \<Longrightarrow> steps_to s1 s2 \<Longrightarrow> steps_to s s2"
  using draws_trans by (auto simp: steps_to_def)

lemma painted_steps: "frame_ok s \<Longrightarrow> painted s s' \<Longrightarrow> steps_to s s'"
  using painted_draws frame_ok_painted by (auto simp: steps_to_def)

lemma newline_steps:
  assumes "frame_ok s"
  shows "\<exists>t. steps_to s t \<and> kcon_col t = 0
    \<and> (let s0 = s\<lparr>kcon_col := 0, kcon_row := kcon_row s + 1\<rparr> in if KCON_ROWS s - 2 \<le> kcon_row s0 then kcon_scroll s0 else s0) = t"
proof -
  let ?s0 = "s\<lparr>kcon_col := 0, kcon_row := kcon_row s + 1\<rparr>"
  have ok: "screen_ok ?s0" and h: "64 \<le> unat (fb_height (fb ?s0))" and inv: "console_inv s" and bpp: "fb_bpp (fb s) = 32"
    using assms by (auto simp: frame_ok_def console_inv_def)
  note k = console_rows[OF h]
  have row: "unat (kcon_row s + 1) = unat (kcon_row s) + 1"
  proof (rule unat_inc32)
    have "unat (kcon_row s) + 1 < unat (fb_height (fb s))" using inv unfolding console_inv_def by linarith
    then show "unat (kcon_row s) + 1 < 2 ^ 32" by (rule lt_u32)
  qed
  show ?thesis
  proof (cases "KCON_ROWS s - 2 \<le> kcon_row s + 1")
    case True
    obtain t where t: "painted ?s0 t" "kcon_scroll ?s0 = t\<lparr>kcon_row := KCON_ROWS s - 2 - 1\<rparr>"
      using scroll_draws[OF ok h] by (auto simp: KCON_ROWS_def)
    have "unat (KCON_ROWS s - 2 - 1) = unat (fb_height (fb s)) div 16 - 2 - 1"
    proof -
      have "unat (KCON_ROWS s - 2) \<noteq> 0" using k(1) h by (simp add: KCON_ROWS_def)
      then have "KCON_ROWS s - 2 \<noteq> 0" by (metis unat_0)
      moreover have "unat (KCON_ROWS s - 2) = unat (fb_height (fb s)) div 16 - 2" using k(1) by (simp add: KCON_ROWS_def)
      ultimately show ?thesis using unat_dec32[of "KCON_ROWS s - 2"] by presburger
    qed
    moreover have "unat (fb_height (fb s)) div 16 - 2 - 1 < unat (fb_height (fb s)) div 16 - 2"
      using inv unfolding console_inv_def by linarith
    ultimately have "unat (KCON_ROWS s - 2 - 1) < unat (fb_height (fb s)) div 16 - 2" by presburger
    then have "steps_to s (t\<lparr>kcon_row := KCON_ROWS s - 2 - 1\<rparr>)"
      using painted_draws[OF t(1)] paintedD[OF t(1)] ok inv h bpp by (simp add: steps_to_def frame_ok_def console_inv_def)
    then show ?thesis using True t paintedD(5)[OF t(1)] by (simp add: Let_def)
  next
    case False
    then have "steps_to s ?s0" using row k(1) ok inv h bpp
      by (simp add: steps_to_def frame_ok_def console_inv_def KCON_ROWS_def word_le_nat_alt)
    then show ?thesis using False by (simp add: Let_def)
  qed
qed

lemma console_char_steps:
  assumes "frame_ok s"
  shows "steps_to s (console_char fg c s)"
proof (cases "c = 8")
  case True
  show ?thesis
  proof (cases "0 < kcon_col s")
    case col: True
    let ?s0 = "s\<lparr>kcon_col := kcon_col s - 1\<rparr>"
    have "unat (kcon_col s - 1) = unat (kcon_col s) - 1" using col by (intro unat_dec32) auto
    then have f: "frame_ok ?s0" using assms by (auto simp: frame_ok_def console_inv_def)
    have "steps_to ?s0 (fb_putchar ((kcon_col s - 1) * 8) (20 + kcon_row s * 16) 32 KCON_FG KCON_BG ?s0)"
      using f by (intro painted_steps putchar_painted) (simp_all add: frame_ok_def)
    then show ?thesis using True col by (simp add: console_char_def steps_to_def)
  qed (use True assms in \<open>simp add: console_char_def steps_to_def\<close>)
next
  case False
  define s1 where "s1 = (if c = 10 \<or> KCON_COLS s \<le> kcon_col s
     then let s0 = s\<lparr>kcon_col := 0, kcon_row := kcon_row s + 1\<rparr> in if KCON_ROWS s - 2 \<le> kcon_row s0 then kcon_scroll s0 else s0 else s)"
  have s1: "steps_to s s1 \<and> (c \<noteq> 10 \<longrightarrow> unat (kcon_col s1) < unat (fb_width (fb s)) div 8)"
  proof (cases "c = 10 \<or> KCON_COLS s \<le> kcon_col s")
    case True
    obtain t where t: "steps_to s t" "kcon_col t = 0" "s1 = t" using newline_steps[OF assms] True by (auto simp: s1_def)
    have "0 < unat (fb_width (fb s)) div 8" using assms unfolding frame_ok_def console_inv_def by linarith
    then show ?thesis using t by simp
  next
    case col: False
    then show ?thesis using assms console_rows(2)[of s]
      by (simp add: s1_def steps_to_def word_le_nat_alt frame_ok_def console_inv_def)
  qed
  show ?thesis
  proof (cases "c \<noteq> 10 \<and> c \<noteq> 13")
    case True
    let ?s2 = "fb_putchar (kcon_col s1 * 8) (20 + kcon_row s1 * 16) c fg KCON_BG s1"
    have f1: "frame_ok s1" and w: "fb s1 = fb s" using s1 by (auto simp: steps_to_def draws_def)
    then have p: "painted s1 ?s2" by (simp add: frame_ok_def)
    have lt: "unat (kcon_col s1) < unat (fb_width (fb s)) div 8" using s1 True by simp
    then have "unat (kcon_col s1) + 1 < unat (fb_width (fb s))" by linarith
    then have "unat (kcon_col s1 + 1) = unat (kcon_col s1) + 1" using lt_u32 by (intro unat_inc32) blast
    then have "frame_ok (?s2\<lparr>kcon_col := kcon_col ?s2 + 1\<rparr>)"
      using lt w frame_ok_painted[OF p f1] paintedD(1,5)[OF p] by (simp add: frame_ok_def console_inv_def)
    then have "steps_to s (?s2\<lparr>kcon_col := kcon_col ?s2 + 1\<rparr>)"
      using s1 draws_trans[OF _ painted_draws[OF p]] by (auto simp: steps_to_def)
    moreover have "console_char fg c s = ?s2\<lparr>kcon_col := kcon_col ?s2 + 1\<rparr>"
      using False True by (simp add: console_char_def s1_def Let_def)
    ultimately show ?thesis by simp
  next
    case nl: False
    then have "console_char fg c s = s1" using False by (auto simp: console_char_def s1_def Let_def)
    then show ?thesis using s1 by simp
  qed
qed

lemma fold_steps:
  assumes "frame_ok s" "\<And>i t. frame_ok t \<Longrightarrow> steps_to t (g i t)"
  shows "steps_to s (fold g xs s)"
  using assms(1)
proof (induction xs arbitrary: s)
  case Nil
  then show ?case by (simp add: steps_to_def)
next
  case (Cons i xs)
  have a: "steps_to s (g i s)" using Cons.prems by (rule assms(2))
  then have "steps_to (g i s) (fold g xs (g i s))" by (intro Cons.IH) (simp add: steps_to_def)
  with a show ?case unfolding fold_Cons comp_def by (rule steps_to_trans)
qed

lemma flip_steps: "frame_ok s \<Longrightarrow> steps_to s (fb_flip s)"
  using flip_draws flip_frame by (auto simp: steps_to_def frame_ok_def)

lemma shadow_flip_steps: "frame_ok s \<Longrightarrow> steps_to s (shadow_flip s)"
  using flip_steps by (simp add: shadow_flip_def steps_to_def)

lemma console_print_steps:
  assumes "frame_ok s"
  shows "steps_to s (fb_console_print str fg s)"
proof -
  let ?s1 = "fold (console_char (if fg = 0 then KCON_FG else fg)) str s"
  have "steps_to s ?s1" using assms console_char_steps by (rule fold_steps)
  moreover from this have "steps_to ?s1 (shadow_flip ?s1)" by (intro shadow_flip_steps) (simp add: steps_to_def)
  ultimately have "steps_to s (shadow_flip ?s1)" by (rule steps_to_trans)
  moreover have "steps_to s s" using assms by (simp add: steps_to_def)
  ultimately show ?thesis using \<open>steps_to s ?s1\<close> unfolding fb_console_print_def Let_def by presburger
qed

lemma console_home_steps:
  assumes "frame_ok s" "unat r \<le> 1"
  shows "steps_to s (header_bar ((fb_clear KCON_BG s)\<lparr>kcon_row := r, kcon_col := 0\<rparr>))"
proof -
  let ?s1 = "fb_clear KCON_BG s" and ?s2 = "(fb_clear KCON_BG s)\<lparr>kcon_row := r, kcon_col := 0\<rparr>"
  have "painted s ?s1" using assms(1) by (intro clear_painted) (simp add: frame_ok_def)
  then have a: "steps_to s ?s1" using assms(1) painted_steps by blast
  then have b: "steps_to s ?s2" using assms(2) by (auto simp: steps_to_def frame_ok_def console_inv_def)
  then have "steps_to ?s2 (header_bar ?s2)" by (intro painted_steps header_bar_painted) (auto simp: steps_to_def frame_ok_def)
  then show ?thesis using b steps_to_trans by blast
qed

section \<open>Sequences of drawing calls\<close>

text \<open>The calls of the driver while the shadow buffer is in use.\<close>

datatype draw_op =
  Put_pixel u32 u32 u32
  | Put_pixel_vram u32 u32 u32
  | Fill_rect u32 u32 u32 u32 u32
  | Clear u32
  | Putchar u32 u32 u8 u32 u32
  | Print u32 u32 "u8 list" u32 u32
  | Blit u32 u32 u32 u32 addr
  | Rounded_rect u32 u32 u32 u32 u32 u32
  | Rounded_outline u32 u32 u32 u32 u32 u32
  | Putchar_s u32 u32 u8 u32 u32 u32
  | Print_s u32 u32 "u8 list" u32 u32 u32
  | Console_init
  | Console_clear
  | Console_print "u8 list" u32
  | Console_lock int
  | Begin_batch
  | End_batch
  | Flip

fun do_draw :: "draw_op \<Rightarrow> screen \<Rightarrow> screen option" where
  "do_draw (Put_pixel x y c) s = Some (fb_put_pixel x y c s)"
| "do_draw (Put_pixel_vram x y c) s = Some (fb_put_pixel_vram x y c s)"
| "do_draw (Fill_rect x y w h c) s = Some (fb_fill_rect x y w h c s)"
| "do_draw (Clear c) s = Some (fb_clear c s)"
| "do_draw (Putchar x y ch fg bg) s = Some (fb_putchar x y ch fg bg s)"
| "do_draw (Print x y str fg bg) s = Some (fb_print x y str fg bg s)"
| "do_draw (Blit x y w h p) s = Some (fb_blit x y w h p s)"
| "do_draw (Rounded_rect x y w h r c) s = fb_rounded_rect x y w h r c s"
| "do_draw (Rounded_outline x y w h r c) s = fb_rounded_outline x y w h r c s"
| "do_draw (Putchar_s x y ch fg bg sc) s = Some (fb_putchar_s x y ch fg bg sc s)"
| "do_draw (Print_s x y str fg bg sc) s = Some (fb_print_s x y str fg bg sc s)"
| "do_draw Console_init s = Some (fb_console_init s)"
| "do_draw Console_clear s = Some (fb_console_clear s)"
| "do_draw (Console_print str fg) s = Some (fb_console_print str fg s)"
| "do_draw (Console_lock l) s = Some (fb_console_lock l s)"
| "do_draw Begin_batch s = Some (fb_console_begin_batch s)"
| "do_draw End_batch s = Some (fb_console_end_batch s)"
| "do_draw Flip s = Some (fb_flip s)"

fun draw_all :: "draw_op list \<Rightarrow> screen \<Rightarrow> screen option" where
  "draw_all [] s = Some s"
| "draw_all (d # ds) s = (case do_draw d s of None \<Rightarrow> None | Some s1 \<Rightarrow> draw_all ds s1)"

text \<open>Radii for which the products of the corner loops fit into a C integer.\<close>

fun small_radius :: "draw_op \<Rightarrow> bool" where
  "small_radius (Rounded_rect x y w h r c) \<longleftrightarrow> unat (clamp_radius r w h) \<le> 46339"
| "small_radius (Rounded_outline x y w h r c) \<longleftrightarrow> unat (clamp_radius r w h) \<le> 46339"
| "small_radius _ \<longleftrightarrow> True"

lemma do_draw_steps:
  assumes f: "frame_ok s" and r: "small_radius d"
  shows "\<exists>s'. do_draw d s = Some s' \<and> steps_to s s'"
proof -
  have ok: "screen_ok s" using f by (simp add: frame_ok_def)
  then have av: "fb_available (fb s) \<noteq> 0" by (simp add: screen_ok_def)
  note paint = painted_steps[OF f]
  have con: "steps_to s (fb_console_init s)" "steps_to s (fb_console_clear s)"
  proof -
    note h = console_home_steps[OF f]
    have "steps_to (header_bar ((fb_clear KCON_BG s)\<lparr>kcon_row := 0, kcon_col := 0\<rparr>)) (fb_flip (header_bar ((fb_clear KCON_BG s)\<lparr>kcon_row := 0, kcon_col := 0\<rparr>)))"
      using h[of 0] by (intro flip_steps) (simp add: steps_to_def)
    with h[of 0] have "steps_to s (fb_flip (header_bar ((fb_clear KCON_BG s)\<lparr>kcon_row := 0, kcon_col := 0\<rparr>)))"
      using steps_to_trans by simp
    then show "steps_to s (fb_console_init s)" using av by (simp add: fb_console_init_def)
    show "steps_to s (fb_console_clear s)" using h[of 1] av by (simp add: fb_console_clear_def)
  qed
  have flags: "steps_to s (s\<lparr>kcon_locked := l\<rparr>)" "steps_to s (s\<lparr>kcon_batch := b\<rparr>)" for l b
    using f by (simp_all add: steps_to_def frame_ok_def console_inv_def)
  have eb: "steps_to s (fb_console_end_batch s)"
    using steps_to_trans[OF flags(2) shadow_flip_steps] flags(2)[of False] by (simp add: fb_console_end_batch_def steps_to_def)
  show ?thesis
  proof (cases d)
    case (Rounded_rect x y w h q c)
    then show ?thesis using rounded_rect_painted[OF ok] r paint by fastforce
  next
    case (Rounded_outline x y w h q c)
    then show ?thesis using rounded_outline_painted[OF ok] r paint by fastforce
  next
    case (Put_pixel_vram x y c)
    then show ?thesis using put_vram_draws[OF f] by (simp add: steps_to_def)
  next
    case (Console_lock l)
    then show ?thesis using flags by (simp add: fb_console_lock_def)
  next
    case Begin_batch
    then show ?thesis using flags by (simp add: fb_console_begin_batch_def)
  qed (simp_all add: paint ok clear_painted blit_painted print_s_painted con eb flip_steps[OF f] console_print_steps[OF f])
qed

lemma draw_all_steps: "frame_ok s \<Longrightarrow> \<forall>d\<in>set ds. small_radius d \<Longrightarrow> \<exists>s'. draw_all ds s = Some s' \<and> steps_to s s'"
proof (induction ds arbitrary: s)
  case Nil
  then show ?case by (simp add: steps_to_def)
next
  case (Cons d ds)
  obtain s1 where s1: "do_draw d s = Some s1" "steps_to s s1" using do_draw_steps[OF Cons.prems(1), of d] Cons.prems(2) by auto
  then obtain s' where "draw_all ds s1 = Some s'" "steps_to s1 s'" using Cons.IH[of s1] Cons.prems(2) by (auto simp: steps_to_def)
  then show ?case using s1 steps_to_trans by auto
qed

lemma draws_heap:
  assumes d: "draws s s'" and inv: "heap_inv (scr_heap s) ow" and sh: "ow (fb_shadow s) = Some (shadow_size s)"
    and vram: "heap_end (scr_heap s) \<le> unat (fb_addr (fb s)) \<or> unat (fb_addr (fb s)) + shadow_size s \<le> heap_start (scr_heap s)"
  shows "heap_inv (scr_heap s') ow" "same_data hmem (scr_heap s) (scr_heap s') (ow(fb_shadow s := None))"
proof -
  let ?in = "in_region (fb_shadow s) (shadow_size s)"
  obtain m' where h': "scr_heap s' = (scr_heap s)\<lparr>hmem := m'\<rparr>" using d by (auto simp: draws_def)
  have same: "m' a = smem s a" if "heap_start (scr_heap s) \<le> a" "a < heap_end (scr_heap s)" "\<not> ?in a" for a
    using d that vram unfolding draws_def h' by (auto simp: in_region_def)
  let ?m1 = "\<lambda>a. if ?in a then m' a else smem s a"
  have "heap_inv ((scr_heap s)\<lparr>hmem := ?m1\<rparr>) ow" by (rule heap_inv_write[OF inv sh]) (auto simp: in_region_def)
  from heap_inv_off_heap[OF this, of m'] show "heap_inv (scr_heap s') ow" using same by (simp add: h')
  show "same_data hmem (scr_heap s) (scr_heap s') (ow(fb_shadow s := None))"
    unfolding same_data_def h'
  proof (intro allI impI)
    fix p n y assume a: "(ow(fb_shadow s := None)) p = Some n \<and> p \<le> y \<and> y < p + n"
    then have y: "p \<le> y" "y < p + n" and o: "ow p = Some n" "p \<noteq> fb_shadow s" by (auto split: if_splits)
    have "\<not> ?in y" using heap_inv_disjoint[OF inv o(1) sh o(2)] y by (auto simp: in_region_def)
    then show "hmem ((scr_heap s)\<lparr>hmem := m'\<rparr>) y = smem s y" using same heap_inv_bounds[OF inv o(1)] y by auto
  qed
qed

text \<open>
  C12. Drawing is confined to the screen. Take a screen of 32 bits per pixel, at least 64 lines and 8 columns, with rows of
  a multiple of four bytes, less than 2 GB, whose shadow buffer is a heap block and whose video memory lies outside the
  heap. Every sequence of drawing calls with any coordinates and of console output returns, where corner radii (cut to half
  of the sides) are at most 46339. Every byte of memory outside the shadow buffer and the video memory keeps its value, the
  heap stays consistent, no byte of another block changes, the cursor of the console stays in the visible area, and after
  a flip the video memory shows the frame.
\<close>

theorem drawing_confined:
  assumes "frame_ok s" "heap_inv (scr_heap s) ow" "ow (fb_shadow s) = Some (shadow_size s)"
    "heap_end (scr_heap s) \<le> unat (fb_addr (fb s)) \<or> unat (fb_addr (fb s)) + shadow_size s \<le> heap_start (scr_heap s)"
    "4 dvd unat (fb_pitch (fb s))" "\<forall>d\<in>set ds. small_radius d"
  shows "\<exists>s'. draw_all ds s = Some s' \<and> heap_inv (scr_heap s') ow
    \<and> same_data hmem (scr_heap s) (scr_heap s') (ow(fb_shadow s := None))
    \<and> (\<forall>a. \<not> (fb_shadow s \<le> a \<and> a < fb_shadow s + shadow_size s)
           \<and> \<not> (unat (fb_addr (fb s)) \<le> a \<and> a < unat (fb_addr (fb s)) + shadow_size s) \<longrightarrow> smem s' a = smem s a)
    \<and> unat (kcon_row s') < unat (fb_height (fb s)) div 16 - 2 \<and> unat (kcon_col s') \<le> unat (fb_width (fb s)) div 8
    \<and> (\<forall>x y. fb_read_pixel_vram x y (fb_flip s') = fb_read_pixel x y s')"
proof -
  obtain s' where s': "draw_all ds s = Some s'" "draws s s'" "frame_ok s'"
    using draw_all_steps[OF assms(1,6)] unfolding steps_to_def by blast
  have geo: "fb s' = fb s" "fb_shadow s' = fb_shadow s" using s'(2) unfolding draws_def by blast+
  then have size: "shadow_size s' = shadow_size s" by (intro shadow_size_cong)
  have "unat (fb_addr (fb s')) + shadow_size s' \<le> fb_shadow s' \<or> fb_shadow s' + shadow_size s' \<le> unat (fb_addr (fb s'))"
    using assms(4) heap_inv_bounds[OF assms(2,3)] unfolding geo size by linarith
  then have flip: "\<forall>x y. fb_read_pixel_vram x y (fb_flip s') = fb_read_pixel x y s'"
    using flip_shows[OF s'(3)] assms(5) unfolding geo size by blast
  have con: "unat (kcon_row s') < unat (fb_height (fb s)) div 16 - 2" "unat (kcon_col s') \<le> unat (fb_width (fb s)) div 8"
    using s'(3) unfolding frame_ok_def console_inv_def geo by blast+
  have out: "\<forall>a. \<not> (fb_shadow s \<le> a \<and> a < fb_shadow s + shadow_size s)
      \<and> \<not> (unat (fb_addr (fb s)) \<le> a \<and> a < unat (fb_addr (fb s)) + shadow_size s) \<longrightarrow> smem s' a = smem s a"
    using s'(2) unfolding draws_def in_region_def by blast
  show ?thesis by (intro exI[of _ s'] conjI) (rule s'(1) draws_heap[OF s'(2) assms(2-4)] out con flip)+
qed

text \<open>A small screen whose shadow buffer is the first block of the heap.\<close>

definition small_screen :: "heap \<Rightarrow> screen" where
  "small_screen h = \<lparr>fb = \<lparr>fb_addr = 0xE0000000, fb_pitch = 32, fb_width = 8, fb_height = 64, fb_bpp = 32, fb_type = 1, fb_available = 1\<rparr>,
     fb_shadow = 0x200020, fb_use_shadow = True, kcon_locked = 0, kcon_batch = False, kcon_row = 0, kcon_col = 0, scr_heap = h\<rparr>"

lemma small_screen_ok: "frame_ok (small_screen h)" "shadow_size (small_screen h) = 2048"
  by (simp_all add: small_screen_def frame_ok_def screen_ok_def console_inv_def shadow_size_def)

lemma boot_shadow:
  obtains h where "kmalloc open_limits (of_nat 2048) boot_heap = Some (0x200020, h)" "heap_inv h [0x200020 \<mapsto> 2048]" "heap_end h \<le> 0xE0000000"
proof -
  obtain h fl where k: "kmalloc open_limits (of_nat 2048) boot_heap = Some (0x200020, h)"
    "heap_ok h [(0x200000, 2096, False), (0x200830, 33552336, True)] fl"
    using kmalloc_succeeds[OF boot_heap_ok, of "0x200000" 33554432 2048] by (auto simp: blk_need_def)
  have "heap_inv boot_heap Map.empty" by (rule heap_invI[OF boot_heap_ok]) (simp add: owns_def)
  from heap_inv_alloc[OF this, of 2048 open_limits] k(1) have "heap_inv h [0x200020 \<mapsto> 2048]" by (simp add: ok_request_def)
  moreover have "heap_end h \<le> 0xE0000000"
    using k(2) by (auto simp: heap_ok_def heap_rep_def core_def heap_bounds_def HEAP_SIZE_def)
  ultimately show thesis using that k(1) by blast
qed

theorem drawing_confined_witness:
  "\<exists>h s'. kmalloc open_limits 2048 boot_heap = Some (0x200020, h)
     \<and> draw_all [Fill_rect 4294967290 0 20 5 7, Rounded_rect 1 1 6 6 3 9, Console_print [65, 10, 66] 5] (small_screen h) = Some s'
     \<and> heap_inv (scr_heap s') [0x200020 \<mapsto> 2048]"
proof -
  obtain h where h: "kmalloc open_limits (of_nat 2048) boot_heap = Some (0x200020, h)" "heap_inv h [0x200020 \<mapsto> 2048]" "heap_end h \<le> 0xE0000000"
    by (rule boot_shadow)
  let ?ds = "[Fill_rect 4294967290 0 20 5 7, Rounded_rect 1 1 6 6 3 9, Console_print [65, 10, 66] 5]"
  have "\<forall>d\<in>set ?ds. small_radius d" by (simp add: clamp_radius_def)
  then have "\<exists>s'. draw_all ?ds (small_screen h) = Some s' \<and> heap_inv (scr_heap s') [0x200020 \<mapsto> 2048]"
    using drawing_confined[OF small_screen_ok(1), of h "[0x200020 \<mapsto> 2048]" ?ds] h(2,3) by (simp only: small_screen_ok(2)) (auto simp: small_screen_def simp del: draw_all.simps)
  then show ?thesis using h(1) by auto
qed

section \<open>The shape of a rounded rectangle\<close>

text \<open>
  C3. A rounded rectangle paints exactly the pixels of the rectangle whose distances to the straight parts fit into
  the circle of the radius, clipped to the screen; every other pixel keeps its colour. The right and lower edges
  must not wrap around 32 bits. Radii are cut to half of the sides; up to 46339 the loop of the code computes without
  overflow.
\<close>

theorem rounded_rect_exact:
  assumes "screen_ok s" "unat x + unat w < 2 ^ 32" "unat y + unat h < 2 ^ 32"
    "min (unat r) (min (unat w div 2) (unat h div 2)) \<le> 46339"
  shows "\<exists>s'. fb_rounded_rect x y w h r c s = Some s'
    \<and> (\<forall>px py. unat px < unat (fb_width (fb s)) \<and> unat py < unat (fb_height (fb s)) \<longrightarrow>
         fb_read_pixel px py s' =
           (if (unat px, unat py) \<in> rounded (unat x) (unat y) (unat w) (unat h) (min (unat r) (min (unat w div 2) (unat h div 2)))
            then c else fb_read_pixel px py s))"
proof -
  obtain s' where "fb_rounded_rect x y w h r c s = Some s'"
    "paints (dye (rounded (unat x) (unat y) (unat w) (unat h) (min (unat r) (min (unat w div 2) (unat h div 2)))) c) s s'"
    using rounded_rect_paints[OF assms] by blast
  then show ?thesis by (intro exI[of _ s']) (simp add: paints_def on_screen_def dye_def)
qed

theorem rounded_rect_exact_witness:
  "\<exists>s'. fb_rounded_rect 1 1 6 6 3 9 (small_screen boot_heap) = Some s'
     \<and> fb_read_pixel 3 3 s' = 9 \<and> fb_read_pixel 1 1 s' = fb_read_pixel 1 1 (small_screen boot_heap)"
proof -
  have ok: "screen_ok (small_screen boot_heap)" using small_screen_ok(1) by (simp add: frame_ok_def)
  have geo: "fb_width (fb (small_screen boot_heap)) = 8" "fb_height (fb (small_screen boot_heap)) = 64" by (simp_all add: small_screen_def)
  have "(3, 3) \<in> rounded 1 1 6 6 3" "(1, 1) \<notin> rounded 1 1 6 6 3" by (simp_all add: rounded_def box_def corner_gap_def)
  then show ?thesis using rounded_rect_exact[OF ok, of 1 6 1 6 3 9] unfolding geo by fastforce
qed

text \<open>
  The shadow buffer has the size of the video memory but four bytes per pixel: in a 16-bit mode, which \<^verbatim>\<open>fb_init\<close> accepts,
  the pixels of the last rows lie behind its end.
\<close>

lemma shadow_too_small:
  assumes "fb_pitch (fb s) = 2 * fb_width (fb s)" "unat (fb_width (fb s)) = 2 * k" "0 < k" "0 < unat (fb_height (fb s))"
    "2 * k * unat (fb_height (fb s)) < 2 ^ 31"
  shows "fb_shadow s + shadow_size s \<le> shadow_addr (fb_width (fb s) - 1) (fb_height (fb s) - 1) s"
proof -
  let ?h = "unat (fb_height (fb s))"
  have "k * 1 \<le> k * ?h" using assms(4) by (intro mult_le_mono2) simp
  moreover have "2 * (k * ?h) < 2 ^ 31" using assms(5) by (simp add: mult.assoc)
  ultimately have kh: "2 * k < 2 ^ 31" by linarith
  have "fb_width (fb s) = of_nat (2 * k)" using assms(2) of_nat_unat32[of "fb_width (fb s)"] by metis
  then have p: "unat (fb_pitch (fb s)) = 4 * k" unfolding assms(1) using kh by (intro unat_ofI) simp_all
  have d: "unat (drop_bit 2 (fb_pitch (fb s))) = k" by (subst unat_drop_bit_eq) (simp add: drop_bit_eq_div p)
  have w: "unat (fb_width (fb s) - 1) = 2 * k - 1" "unat (fb_height (fb s) - 1) = ?h - 1"
    using assms(2-4) by (subst unat_dec32; force)+
  have i: "(?h - 1) * k + (2 * k - 1) = k * ?h + (k - 1)" using assms(3,4) by (cases ?h) (auto simp: algebra_simps)
  have small: "(?h - 1) * k + (2 * k - 1) < 2 ^ 32" unfolding i using assms(5) kh by simp
  have "unat ((fb_height (fb s) - 1) * drop_bit 2 (fb_pitch (fb s))) = (?h - 1) * k"
    using small by (subst unat_mult_lem[THEN iffD1]) (simp_all add: d w)
  then have "unat ((fb_height (fb s) - 1) * drop_bit 2 (fb_pitch (fb s)) + (fb_width (fb s) - 1)) = k * ?h + (k - 1)"
    using small i by (subst unat_add_lem[THEN iffD1]) (simp_all add: w)
  then show ?thesis by (simp add: shadow_addr_def shadow_size_def p)
qed

section \<open>After the start\<close>

text \<open>
  What \<^verbatim>\<open>fb_init\<close> leaves behind for a mode with four bytes per pixel: either there was no memory for the shadow buffer, or
  the driver is in the state that the properties above start from.
\<close>

lemma fb_init_ready:
  fixes s mbi
  defines "f \<equiv> fb_tags (smem s) (unat (mbi + 8)) (unat mbi + unat (load32 (smem s) (unat mbi))) ((fb s)\<lparr>fb_available := 0\<rparr>)"
  assumes inv: "heap_inv (scr_heap s) ow" and mbi: "mbi \<noteq> 0" and av: "fb_available f \<noteq> 0" "0 < unat (fb_width f)" "0 < unat (fb_height f)"
    and geo: "4 * unat (fb_width f) \<le> unat (fb_pitch f)" "unat (fb_pitch f) * unat (fb_height f) < 2 ^ 31"
  shows "\<exists>s'. fb_init lim mbi s = Some s' \<and> fb s' = f \<and> (fb_shadow s' = 0 \<and> heap_inv (scr_heap s') ow
    \<or> screen_ok s' \<and> ow (fb_shadow s') = None \<and> heap_inv (scr_heap s') (ow(fb_shadow s' \<mapsto> shadow_size s')))"
proof -
  let ?n = "unat (fb_pitch f) * unat (fb_height f)"
  let ?s1 = "s\<lparr>fb := f\<rparr>"
  have pos: "0 < fb_pitch f" "0 < fb_height f" using av(2,3) geo(1) unfolding word_less_nat_alt unat_0 by linarith+
  have run: "fb_init lim mbi s = (case kmalloc lim (of_nat ?n) (scr_heap s) of None \<Rightarrow> None
      | Some (q, h) \<Rightarrow> Some (if q \<noteq> 0 then (on_mem (memset q 0 ?n) (?s1\<lparr>scr_heap := h, fb_shadow := q\<rparr>))\<lparr>fb_use_shadow := True\<rparr>
                             else ?s1\<lparr>scr_heap := h, fb_shadow := q\<rparr>))"
    using mbi av(1) pos by (simp add: fb_init_def Let_def flip: f_def del: fb_tags.simps split: option.split)
  have le: "?n \<le> 2 ^ 31" using geo(2) by simp
  show ?thesis
  proof (rule malloc_cases[OF inv le, where lim = lim])
    fix h assume "kmalloc lim (of_nat ?n) (scr_heap s) = Some (0, h)" "heap_inv h ow"
    then show ?thesis by (simp add: run)
  next
    fix q h assume k: "kmalloc lim (of_nat ?n) (scr_heap s) = Some (q, h)" "q \<noteq> 0" "ow q = None" "heap_inv h (ow(q \<mapsto> ?n))"
    have "heap_inv (h\<lparr>hmem := memset q 0 ?n (hmem h)\<rparr>) (ow(q \<mapsto> ?n))"
      by (rule heap_inv_write[OF k(4), of q ?n]) (auto simp: memset_fill intro!: fill_other)
    then show ?thesis using k(1-3) av(1) geo by (simp add: run on_mem_def screen_ok_def shadow_size_def)
  qed
qed

end
