(* ===== verification/Pointer.thy ===== *)
theory Pointer
  imports Framebuffer_Safe "HOL-Library.Signed_Division"
begin

unbundle bit_operations_syntax

text \<open>
  The pointer: the interrupt handler of the PS/2 mouse (\<^verbatim>\<open>kernel/drivers/ps2/mouse.c\<close>), the absolute pointer of virtual
  machines (\<^verbatim>\<open>kernel/drivers/ps2/vmmouse.c\<close>) and the cursor image (\<^verbatim>\<open>kernel/drivers/vga/cursor.c\<close>). Bytes read from ports,
  the tick counter and the answers of the virtual machine are arguments; the device set-up of \<^verbatim>\<open>mouse_init\<close> is port traffic
  and only its effect on the position is modelled.
\<close>

section \<open>PS/2 mouse\<close>

record mouse =
  irq12_count :: u32
  mx :: int
  my :: int
  mbuttons :: u8
  mbuttons_prev :: u8
  pkt :: "u8 list"
  pkt_idx :: nat
  pkt_timeout :: u32

definition mouse_zero :: mouse where
  "mouse_zero = \<lparr>irq12_count = 0, mx = 0, my = 0, mbuttons = 0, mbuttons_prev = 0, pkt = [0, 0, 0], pkt_idx = 0, pkt_timeout = 0\<rparr>"

definition clamp_to :: "int \<Rightarrow> int \<Rightarrow> int" where
  "clamp_to m v = (let v1 = (if v < 0 then 0 else v) in if m < v1 then m else v1)"

text \<open>The part of \<^verbatim>\<open>mouse_handler\<close> that acts on a complete packet.\<close>

definition mouse_packet :: "fb_info \<Rightarrow> mouse \<Rightarrow> mouse" where
  "mouse_packet f m =
     (let flags = pkt m ! 0
      in if flags AND 0xC0 \<noteq> 0 then m
         else let dx = sint (pkt m ! 1); dy = - sint (pkt m ! 2)
              in m\<lparr>mx := clamp_to (sint (fb_width f) - 1) (mx m + dx), my := clamp_to (sint (fb_height f) - 1) (my m + dy),
                   mbuttons := flags AND 7\<rparr>)"

definition mouse_handler :: "u8 \<Rightarrow> u8 \<Rightarrow> u32 \<Rightarrow> fb_info \<Rightarrow> mouse \<Rightarrow> mouse" where
  "mouse_handler st byte now f m0 =
     (let m = m0\<lparr>irq12_count := irq12_count m0 + 1\<rparr>
      in if st AND 1 = 0 then m
         else if st AND 0x20 = 0 then m
         else let m1 = (if 0 < pkt_idx m \<and> 50 < now - pkt_timeout m then m\<lparr>pkt_idx := 0\<rparr> else m);
                  m2 = m1\<lparr>pkt_timeout := now\<rparr>
              in if pkt_idx m2 = 0 \<and> byte AND 8 = 0 then m2
                 else let m3 = m2\<lparr>pkt := (pkt m2)[pkt_idx m2 := byte], pkt_idx := pkt_idx m2 + 1\<rparr>
                      in if pkt_idx m3 < 3 then m3 else mouse_packet f (m3\<lparr>pkt_idx := 0\<rparr>))"

definition mouse_init :: "fb_info \<Rightarrow> mouse \<Rightarrow> mouse" where
  "mouse_init f m = m\<lparr>mx := sint (fb_width f) sdiv 2, my := sint (fb_height f) sdiv 2\<rparr>"

definition mouse_set_pos :: "int \<Rightarrow> int \<Rightarrow> fb_info \<Rightarrow> mouse \<Rightarrow> mouse" where
  "mouse_set_pos x y f m =
     (let x1 = (if x < 0 then 0 else x); y1 = (if y < 0 then 0 else y)
      in if fb_available f \<noteq> 0
         then m\<lparr>mx := (if sint (fb_width f) - 1 < x1 then sint (fb_width f) - 1 else x1),
                my := (if sint (fb_height f) - 1 < y1 then sint (fb_height f) - 1 else y1)\<rparr>
         else m\<lparr>mx := x1, my := y1\<rparr>)"

definition mouse_set_buttons :: "u8 \<Rightarrow> mouse \<Rightarrow> mouse" where "mouse_set_buttons b m = m\<lparr>mbuttons := b\<rparr>"
definition mouse_update_edges :: "mouse \<Rightarrow> mouse" where "mouse_update_edges m = m\<lparr>mbuttons_prev := mbuttons m\<rparr>"

definition mouse_btn_pressed :: "u8 \<Rightarrow> mouse \<Rightarrow> bool" where
  "mouse_btn_pressed k m \<longleftrightarrow> mbuttons m AND k \<noteq> 0 \<and> mbuttons_prev m AND k = 0"
definition mouse_btn_released :: "u8 \<Rightarrow> mouse \<Rightarrow> bool" where
  "mouse_btn_released k m \<longleftrightarrow> mbuttons m AND k = 0 \<and> mbuttons_prev m AND k \<noteq> 0"
definition mouse_btn_held :: "u8 \<Rightarrow> mouse \<Rightarrow> bool" where
  "mouse_btn_held k m \<longleftrightarrow> mbuttons m AND k \<noteq> 0"

section \<open>Absolute pointer\<close>

record vmmouse =
  vm_active :: bool
  vm_pressed_latch :: u8
  vm_released_latch :: u8

definition VMWARE_MAGIC :: u32 where "VMWARE_MAGIC = 0x564D5868"

definition detect_hypervisor :: "u32 \<Rightarrow> u32 \<Rightarrow> u32 \<Rightarrow> bool" where
  "detect_hypervisor ebx ecx edx \<longleftrightarrow>
     ebx = 0x61774D56 \<and> ecx = 0x4D566572 \<and> edx = 0x65726177
     \<or> ebx = 0x786F4256 \<and> ecx = 0x786F4256 \<and> edx = 0x786F4256
     \<or> ebx = 0x4D564B4B \<and> ecx = 0x4B4D564B \<and> edx = 0x0000004D
     \<or> ebx = 0x54474354"

definition vmmouse_init :: "u32 \<times> u32 \<times> u32 \<Rightarrow> u32 \<Rightarrow> vmmouse \<Rightarrow> vmmouse" where
  "vmmouse_init cpuid getver_eax v =
     v\<lparr>vm_active := (case cpuid of (ebx, ecx, edx) \<Rightarrow> detect_hypervisor ebx ecx edx) \<and> getver_eax = VMWARE_MAGIC\<rparr>"

text \<open>The signature of KVM is not among the accepted ones: its bytes are in another order.\<close>

lemma kvm_not_detected: "\<not> detect_hypervisor 0x4B4D564B 0x564B4D56 0x4D"
  by (simp add: detect_hypervisor_def)

definition vmmouse_get_pressed :: "vmmouse \<Rightarrow> u8 \<times> vmmouse" where
  "vmmouse_get_pressed v = (vm_pressed_latch v, v\<lparr>vm_pressed_latch := 0\<rparr>)"
definition vmmouse_get_released :: "vmmouse \<Rightarrow> u8 \<times> vmmouse" where
  "vmmouse_get_released v = (vm_released_latch v, v\<lparr>vm_released_latch := 0\<rparr>)"

text \<open>The loop of \<^verbatim>\<open>vmmouse_poll\<close> over the answers \<open>(ebx, ecx)\<close> of the virtual machine: last position, buttons, latches.\<close>

fun vm_drain :: "(u32 \<times> u32) list \<Rightarrow> fb_info \<Rightarrow> int \<times> int \<times> u8 \<Rightarrow> vmmouse \<Rightarrow> (int \<times> int \<times> u8) \<times> vmmouse" where
  "vm_drain [] f r v = (r, v)"
| "vm_drain ((ebx, ecx) # ps) f (sx, sy, prev) v =
     (let abs_x = ebx AND 0xFFFF; abs_y = drop_bit 16 ebx AND 0xFFFF; btns = ucast (ecx AND 7) :: u8
      in vm_drain ps f (sint (abs_x * (fb_width f - 1) div 0xFFFF), sint (abs_y * (fb_height f - 1) div 0xFFFF), btns)
           (v\<lparr>vm_pressed_latch := vm_pressed_latch v OR (btns AND NOT prev),
              vm_released_latch := vm_released_latch v OR (NOT btns AND prev)\<rparr>))"

definition vmmouse_poll :: "u32 \<Rightarrow> (nat \<Rightarrow> u32 \<times> u32) \<Rightarrow> fb_info \<Rightarrow> mouse \<Rightarrow> vmmouse \<Rightarrow> mouse \<times> vmmouse" where
  "vmmouse_poll count0 answers f m v =
     (if \<not> vm_active v \<or> fb_available f = 0 \<or> count0 = 0 then (m, v)
      else let count = (if 32 < count0 then 32 else count0);
               ((sx, sy, btns), v1) = vm_drain (map answers [0..<unat count]) f (- 1, - 1, mbuttons m) v
           in if 0 \<le> sx then (mouse_set_buttons btns (mouse_set_pos sx sy f m), v1) else (m, v1))"

section \<open>Cursor\<close>

text \<open>The colours of the bitmaps: transparent, black, white and cyan.\<close>

definition ink :: "char \<Rightarrow> u32" where
  "ink ch = (if ch = CHR ''B'' then 0xFF000000 else if ch = CHR ''W'' then 0xFFFFFFFF
             else if ch = CHR ''C'' then 0xFF00C2FF else 0)"

definition cursor_arrow_data :: "u32 list" where
  "cursor_arrow_data = map ink (concat
    [''BTTTTTTTTTTTTTTTTTTTTTTTTTTTTTTT'',
     ''BBTTTTTTTTTTTTTTTTTTTTTTTTTTTTTT'',
     ''BWBTTTTTTTTTTTTTTTTTTTTTTTTTTTTT'',
     ''BWWBTTTTTTTTTTTTTTTTTTTTTTTTTTTT'',
     ''BWWWBTTTTTTTTTTTTTTTTTTTTTTTTTTT'',
     ''BWWWWBTTTTTTTTTTTTTTTTTTTTTTTTTT'',
     ''BWWWWWBTTTTTTTTTTTTTTTTTTTTTTTTT'',
     ''BWWWWWWBTTTTTTTTTTTTTTTTTTTTTTTT'',
     ''BWWWWWWWBTTTTTTTTTTTTTTTTTTTTTTT'',
     ''BWWWWWWWWBTTTTTTTTTTTTTTTTTTTTTT'',
     ''BWWWWWWWWWBTTTTTTTTTTTTTTTTTTTTT'',
     ''BWWWWWWWWWWBTTTTTTTTTTTTTTTTTTTT'',
     ''BWWWWWWWWWWWBTTTTTTTTTTTTTTTTTTT'',
     ''BWWWWWWWWWWWWBTTTTTTTTTTTTTTTTTT'',
     ''BWWWWWWWWWWWWWBTTTTTTTTTTTTTTTTT'',
     ''BWWWWWWWWWBBBBBBTTTTTTTTTTTTTTTT'',
     ''BWWWWWWBTTTTTTTTTTTTTTTTTTTTTTTT'',
     ''BWWWBWWBTTTTTTTTTTTTTTTTTTTTTTTT'',
     ''BWWBTBWWBTTTTTTTTTTTTTTTTTTTTTTT'',
     ''BWBTTTBWWBTTTTTTTTTTTTTTTTTTTTTT'',
     ''BBTTTTTBWWBTTTTTTTTTTTTTTTTTTTTT'',
     ''TTTTTTTTBWWBTTTTTTTTTTTTTTTTTTTT'',
     ''TTTTTTTTTBBTTTTTTTTTTTTTTTTTTTTT'',
     ''TTTTTTTTTTTTTTTTTTTTTTTTTTTTTTTT'',
     ''TTTTTTTTTTTTTTTTTTTTTTTTTTTTTTTT'',
     ''TTTTTTTTTTTTTTTTTTTTTTTTTTTTTTTT'',
     ''TTTTTTTTTTTTTTTTTTTTTTTTTTTTTTTT'',
     ''TTTTTTTTTTTTTTTTTTTTTTTTTTTTTTTT'',
     ''TTTTTTTTTTTTTTTTTTTTTTTTTTTTTTTT'',
     ''TTTTTTTTTTTTTTTTTTTTTTTTTTTTTTTT'',
     ''TTTTTTTTTTTTTTTTTTTTTTTTTTTTTTTT'',
     ''TTTTTTTTTTTTTTTTTTTTTTTTTTTTTTTT''])"

definition cursor_hand_data :: "u32 list" where
  "cursor_hand_data = map ink (concat
    [''TTTBBTTTTTTTTTTTTTTTTTTTTTTTTTTT'',
     ''TTBWWBTBBTTBBTTTTTTTTTTTTTTTTTTT'',
     ''TTBWWBBWWBBWWBBTTTTTTTTTTTTTTTTT'',
     ''TTBWWWWWWWWWWWWBTTTTTTTTTTTTTTTT'',
     ''TTTBWWWWWWWWWWWWBTTTTTTTTTTTTTTT'',
     ''TTTBWWWWWWWWWWWWWBTTTTTTTTTTTTTT'',
     ''TTTBWWWWWWWWWWWWWWBTTTTTTTTTTTTT'',
     ''TTTTBWWWWWWWWWWWWWWBTTTTTTTTTTTT'',
     ''TTTTBWWWWWWWWWWWWWWBTTTTTTTTTTTT'',
     ''TTTTBWWWWWWWWWWWWWBTTTTTTTTTTTTT'',
     ''TTTTTBWWWWWWWWWWWBTTTTTTTTTTTTTT'',
     ''TTTTTTBWWWWWWWWWBTTTTTTTTTTTTTTT'',
     ''TTTTTTTBWWWWWWWBTTTTTTTTTTTTTTTT'',
     ''TTTTTTTTBBBBBBBTTTTTTTTTTTTTTTTT'',
     ''TTTTTTTTTTTTTTTTTTTTTTTTTTTTTTTT'',
     ''TTTTTTTTTTTTTTTTTTTTTTTTTTTTTTTT'',
     ''TTTTTTTTTTTTTTTTTTTTTTTTTTTTTTTT'',
     ''TTTTTTTTTTTTTTTTTTTTTTTTTTTTTTTT'',
     ''TTTTTTTTTTTTTTTTTTTTTTTTTTTTTTTT'',
     ''TTTTTTTTTTTTTTTTTTTTTTTTTTTTTTTT'',
     ''TTTTTTTTTTTTTTTTTTTTTTTTTTTTTTTT'',
     ''TTTTTTTTTTTTTTTTTTTTTTTTTTTTTTTT'',
     ''TTTTTTTTTTTTTTTTTTTTTTTTTTTTTTTT'',
     ''TTTTTTTTTTTTTTTTTTTTTTTTTTTTTTTT'',
     ''TTTTTTTTTTTTTTTTTTTTTTTTTTTTTTTT'',
     ''TTTTTTTTTTTTTTTTTTTTTTTTTTTTTTTT'',
     ''TTTTTTTTTTTTTTTTTTTTTTTTTTTTTTTT'',
     ''TTTTTTTTTTTTTTTTTTTTTTTTTTTTTTTT'',
     ''TTTTTTTTTTTTTTTTTTTTTTTTTTTTTTTT'',
     ''TTTTTTTTTTTTTTTTTTTTTTTTTTTTTTTT'',
     ''TTTTTTTTTTTTTTTTTTTTTTTTTTTTTTTT'',
     ''TTTTTTTTTTTTTTTTTTTTTTTTTTTTTTTT''])"

definition cursor_text_data :: "u32 list" where
  "cursor_text_data = map ink (concat
    [''TTBBBBBTTTTTTTTTTTTTTTTTTTTTTTTT'',
     ''TTBWWWBTTTTTTTTTTTTTTTTTTTTTTTTT'',
     ''TTTTBTTTTTTTTTTTTTTTTTTTTTTTTTTT'',
     ''TTTTBTTTTTTTTTTTTTTTTTTTTTTTTTTT'',
     ''TTTTBTTTTTTTTTTTTTTTTTTTTTTTTTTT'',
     ''TTTTBTTTTTTTTTTTTTTTTTTTTTTTTTTT'',
     ''TTTTBTTTTTTTTTTTTTTTTTTTTTTTTTTT'',
     ''TTTTBTTTTTTTTTTTTTTTTTTTTTTTTTTT'',
     ''TTTTBTTTTTTTTTTTTTTTTTTTTTTTTTTT'',
     ''TTTTBTTTTTTTTTTTTTTTTTTTTTTTTTTT'',
     ''TTTTBTTTTTTTTTTTTTTTTTTTTTTTTTTT'',
     ''TTTTBTTTTTTTTTTTTTTTTTTTTTTTTTTT'',
     ''TTTTBTTTTTTTTTTTTTTTTTTTTTTTTTTT'',
     ''TTTTBTTTTTTTTTTTTTTTTTTTTTTTTTTT'',
     ''TTTTBTTTTTTTTTTTTTTTTTTTTTTTTTTT'',
     ''TTTTBTTTTTTTTTTTTTTTTTTTTTTTTTTT'',
     ''TTTTBTTTTTTTTTTTTTTTTTTTTTTTTTTT'',
     ''TTTTBTTTTTTTTTTTTTTTTTTTTTTTTTTT'',
     ''TTTTBTTTTTTTTTTTTTTTTTTTTTTTTTTT'',
     ''TTTTBTTTTTTTTTTTTTTTTTTTTTTTTTTT'',
     ''TTTTBTTTTTTTTTTTTTTTTTTTTTTTTTTT'',
     ''TTTTBTTTTTTTTTTTTTTTTTTTTTTTTTTT'',
     ''TTTTBTTTTTTTTTTTTTTTTTTTTTTTTTTT'',
     ''TTTTBTTTTTTTTTTTTTTTTTTTTTTTTTTT'',
     ''TTTTBTTTTTTTTTTTTTTTTTTTTTTTTTTT'',
     ''TTTTBTTTTTTTTTTTTTTTTTTTTTTTTTTT'',
     ''TTTTBTTTTTTTTTTTTTTTTTTTTTTTTTTT'',
     ''TTTTBTTTTTTTTTTTTTTTTTTTTTTTTTTT'',
     ''TTTTBTTTTTTTTTTTTTTTTTTTTTTTTTTT'',
     ''TTTTBTTTTTTTTTTTTTTTTTTTTTTTTTTT'',
     ''TTBWWWBTTTTTTTTTTTTTTTTTTTTTTTTT'',
     ''TTBBBBBTTTTTTTTTTTTTTTTTTTTTTTTT''])"

definition cursor_crosshair_data :: "u32 list" where
  "cursor_crosshair_data = map ink (concat
    [''TTTTTTTTTTTTTTTTBTTTTTTTTTTTTTTT'',
     ''TTTTTTTTTTTTTTTTBTTTTTTTTTTTTTTT'',
     ''TTTTTTTTTTTTTTTTBTTTTTTTTTTTTTTT'',
     ''TTTTTTTTTTTTTTTTBTTTTTTTTTTTTTTT'',
     ''TTTTTTTTTTTTTTTTBTTTTTTTTTTTTTTT'',
     ''TTTTTTTTTTTTTTTTWTTTTTTTTTTTTTTT'',
     ''TTTTTTTTTTTTTTTTWTTTTTTTTTTTTTTT'',
     ''TTTTTTTTTTTTTTTTWTTTTTTTTTTTTTTT'',
     ''TTTTTTTTTTTTTTTTWTTTTTTTTTTTTTTT'',
     ''TTTTTTTTTTTTTTTTWTTTTTTTTTTTTTTT'',
     ''TTTTTTTTTTTTTTTTWTTTTTTTTTTTTTTT'',
     ''TTTTTTTTTTTTTTTTWTTTTTTTTTTTTTTT'',
     ''TTTTTTTTTTTTTTTTWTTTTTTTTTTTTTTT'',
     ''BBBBBWWWWWWWWWWTTTWWWWWWWWWWBBBB'',
     ''BWWWWWWWWWWWWWWTTTWWWWWWWWWWWWWB'',
     ''TTTTTTTTTTTTTTTTTTTTTTTTTTTTTTTT'',
     ''TTTTTTTTTTTTTTTTTTTTTTTTTTTTTTTT'',
     ''TTTTTTTTTTTTTTTTTTTTTTTTTTTTTTTT'',
     ''BWWWWWWWWWWWWWWTTTWWWWWWWWWWWWWB'',
     ''BBBBBWWWWWWWWWWTTTWWWWWWWWWWBBBB'',
     ''TTTTTTTTTTTTTTTTWTTTTTTTTTTTTTTT'',
     ''TTTTTTTTTTTTTTTTWTTTTTTTTTTTTTTT'',
     ''TTTTTTTTTTTTTTTTWTTTTTTTTTTTTTTT'',
     ''TTTTTTTTTTTTTTTTWTTTTTTTTTTTTTTT'',
     ''TTTTTTTTTTTTTTTTWTTTTTTTTTTTTTTT'',
     ''TTTTTTTTTTTTTTTTWTTTTTTTTTTTTTTT'',
     ''TTTTTTTTTTTTTTTTWTTTTTTTTTTTTTTT'',
     ''TTTTTTTTTTTTTTTTBTTTTTTTTTTTTTTT'',
     ''TTTTTTTTTTTTTTTTBTTTTTTTTTTTTTTT'',
     ''TTTTTTTTTTTTTTTTBTTTTTTTTTTTTTTT'',
     ''TTTTTTTTTTTTTTTTBTTTTTTTTTTTTTTT'',
     ''TTTTTTTTTTTTTTTTBTTTTTTTTTTTTTTT''])"

definition cursor_busy_data :: "u32 list" where
  "cursor_busy_data = map ink (concat
    [''TTTTTTBBBBBBBBBBTTTTTTTTTTTTTTTT'',
     ''TTTTTTBCCCCCCCCBTTTTTTTTTTTTTTTT'',
     ''TTTTTTBWCCCCCCWBTTTTTTTTTTTTTTTT'',
     ''TTTTTTTBCCCCCCBTTTTTTTTTTTTTTTTT'',
     ''TTTTTTTTBCCCCBTTTTTTTTTTTTTTTTTT'',
     ''TTTTTTTTTBCCBTTTTTTTTTTTTTTTTTTT'',
     ''TTTTTTTTTTBCBTTTTTTTTTTTTTTTTTTT'',
     ''TTTTTTTTTTBBBTTTTTTTTTTTTTTTTTTT'',
     ''TTTTTTTTTTBWBTTTTTTTTTTTTTTTTTTT'',
     ''TTTTTTTTTBWWWBTTTTTTTTTTTTTTTTTT'',
     ''TTTTTTTTBWWWWWBTTTTTTTTTTTTTTTTT'',
     ''TTTTTTTBWWWWWWWBTTTTTTTTTTTTTTTT'',
     ''TTTTTTBWWWWWWWWWBTTTTTTTTTTTTTTT'',
     ''TTTTTTBBBBBBBBBBBTTTTTTTTTTTTTTT'',
     ''TTTTTTTTTTTTTTTTTTTTTTTTTTTTTTTT'',
     ''TTTTTTTTTTTTTTTTTTTTTTTTTTTTTTTT'',
     ''TTTTTTTTTTTTTTTTTTTTTTTTTTTTTTTT'',
     ''TTTTTTTTTTTTTTTTTTTTTTTTTTTTTTTT'',
     ''TTTTTTTTTTTTTTTTTTTTTTTTTTTTTTTT'',
     ''TTTTTTTTTTTTTTTTTTTTTTTTTTTTTTTT'',
     ''TTTTTTTTTTTTTTTTTTTTTTTTTTTTTTTT'',
     ''TTTTTTTTTTTTTTTTTTTTTTTTTTTTTTTT'',
     ''TTTTTTTTTTTTTTTTTTTTTTTTTTTTTTTT'',
     ''TTTTTTTTTTTTTTTTTTTTTTTTTTTTTTTT'',
     ''TTTTTTTTTTTTTTTTTTTTTTTTTTTTTTTT'',
     ''TTTTTTTTTTTTTTTTTTTTTTTTTTTTTTTT'',
     ''TTTTTTTTTTTTTTTTTTTTTTTTTTTTTTTT'',
     ''TTTTTTTTTTTTTTTTTTTTTTTTTTTTTTTT'',
     ''TTTTTTTTTTTTTTTTTTTTTTTTTTTTTTTT'',
     ''TTTTTTTTTTTTTTTTTTTTTTTTTTTTTTTT'',
     ''TTTTTTTTTTTTTTTTTTTTTTTTTTTTTTTT'',
     ''TTTTTTTTTTTTTTTTTTTTTTTTTTTTTTTT''])"

definition cursor_resize_h_data :: "u32 list" where
  "cursor_resize_h_data = map ink (concat
    [''TTTTTTTTTTTTTTTTTTTTTTTTTTTTTTTT'',
     ''TTTTTTTTTTTTTTTTTTTTTTTTTTTTTTTT'',
     ''TTTTTTTTTTTTTTTTTTTTTTTTTTTTTTTT'',
     ''TTTTTTTTTTTTTTTTTTTTTTTTTTTTTTTT'',
     ''TTTTBTTTTTTTTTTTTTTTTTTTTTTBTTTT'',
     ''TTTBBBTTTTTTTTTTTTTTTTTTTTBBBTTT'',
     ''TTBWWWBBBBBBBBBBBBBBBBBBBBWWWBTT'',
     ''TBWWWWWWWWWWWWWWWWWWWWWWWWWWWWBT'',
     ''TTBWWWBBBBBBBBBBBBBBBBBBBBWWWBTT'',
     ''TTTBBBTTTTTTTTTTTTTTTTTTTTBBBTTT'',
     ''TTTTBTTTTTTTTTTTTTTTTTTTTTTBTTTT'',
     ''TTTTTTTTTTTTTTTTTTTTTTTTTTTTTTTT'',
     ''TTTTTTTTTTTTTTTTTTTTTTTTTTTTTTTT'',
     ''TTTTTTTTTTTTTTTTTTTTTTTTTTTTTTTT'',
     ''TTTTTTTTTTTTTTTTTTTTTTTTTTTTTTTT'',
     ''TTTTTTTTTTTTTTTTTTTTTTTTTTTTTTTT'',
     ''TTTTTTTTTTTTTTTTTTTTTTTTTTTTTTTT'',
     ''TTTTTTTTTTTTTTTTTTTTTTTTTTTTTTTT'',
     ''TTTTTTTTTTTTTTTTTTTTTTTTTTTTTTTT'',
     ''TTTTTTTTTTTTTTTTTTTTTTTTTTTTTTTT'',
     ''TTTTTTTTTTTTTTTTTTTTTTTTTTTTTTTT'',
     ''TTTTTTTTTTTTTTTTTTTTTTTTTTTTTTTT'',
     ''TTTTTTTTTTTTTTTTTTTTTTTTTTTTTTTT'',
     ''TTTTTTTTTTTTTTTTTTTTTTTTTTTTTTTT'',
     ''TTTTTTTTTTTTTTTTTTTTTTTTTTTTTTTT'',
     ''TTTTTTTTTTTTTTTTTTTTTTTTTTTTTTTT'',
     ''TTTTTTTTTTTTTTTTTTTTTTTTTTTTTTTT'',
     ''TTTTTTTTTTTTTTTTTTTTTTTTTTTTTTTT'',
     ''TTTTTTTTTTTTTTTTTTTTTTTTTTTTTTTT'',
     ''TTTTTTTTTTTTTTTTTTTTTTTTTTTTTTTT'',
     ''TTTTTTTTTTTTTTTTTTTTTTTTTTTTTTTT'',
     ''TTTTTTTTTTTTTTTTTTTTTTTTTTTTTTTT''])"

definition cursor_resize_v_data :: "u32 list" where
  "cursor_resize_v_data = map ink (concat
    [''TTTTTTTTTTTTTTTTTTTTTTTTTTTTTTTT'',
     ''TTTTTTTBTTTTTTTTTTTTTTTTTTTTTTTT'',
     ''TTTTTTBBBTTTTTTTTTTTTTTTTTTTTTTT'',
     ''TTTTTBWWWBTTTTTTTTTTTTTTTTTTTTTT'',
     ''TTTTBWWWWWBTTTTTTTTTTTTTTTTTTTTT'',
     ''TTTBBBWWWBBBTTTTTTTTTTTTTTTTTTTT'',
     ''TTTTTTBWBTTTTTTTTTTTTTTTTTTTTTTT'',
     ''TTTTTTBWBTTTTTTTTTTTTTTTTTTTTTTT'',
     ''TTTTTTBWBTTTTTTTTTTTTTTTTTTTTTTT'',
     ''TTTTTTBWBTTTTTTTTTTTTTTTTTTTTTTT'',
     ''TTTTTTBWBTTTTTTTTTTTTTTTTTTTTTTT'',
     ''TTTTTTBWBTTTTTTTTTTTTTTTTTTTTTTT'',
     ''TTTTTTBWBTTTTTTTTTTTTTTTTTTTTTTT'',
     ''TTTTTTBWBTTTTTTTTTTTTTTTTTTTTTTT'',
     ''TTTTTTBWBTTTTTTTTTTTTTTTTTTTTTTT'',
     ''TTTTTTBWBTTTTTTTTTTTTTTTTTTTTTTT'',
     ''TTTTTTBWBTTTTTTTTTTTTTTTTTTTTTTT'',
     ''TTTTTTBWBTTTTTTTTTTTTTTTTTTTTTTT'',
     ''TTTTTTBWBTTTTTTTTTTTTTTTTTTTTTTT'',
     ''TTTTTTBWBTTTTTTTTTTTTTTTTTTTTTTT'',
     ''TTTTTTBWBTTTTTTTTTTTTTTTTTTTTTTT'',
     ''TTTTTTBWBTTTTTTTTTTTTTTTTTTTTTTT'',
     ''TTTTTTBWBTTTTTTTTTTTTTTTTTTTTTTT'',
     ''TTTTTTBWBTTTTTTTTTTTTTTTTTTTTTTT'',
     ''TTTTTTBWBTTTTTTTTTTTTTTTTTTTTTTT'',
     ''TTTTTTBWBTTTTTTTTTTTTTTTTTTTTTTT'',
     ''TTTTTBBBWBBBTTTTTTTTTTTTTTTTTTTT'',
     ''TTTTBWWWWWBTTTTTTTTTTTTTTTTTTTTT'',
     ''TTTTTBWWWBTTTTTTTTTTTTTTTTTTTTTT'',
     ''TTTTTTBBBTTTTTTTTTTTTTTTTTTTTTTT'',
     ''TTTTTTTBTTTTTTTTTTTTTTTTTTTTTTTT'',
     ''TTTTTTTTTTTTTTTTTTTTTTTTTTTTTTTT''])"

definition cursor_grab_data :: "u32 list" where
  "cursor_grab_data = map ink (concat
    [''TTTTTTTTTTTTTTTTTTTTTTTTTTTTTTTT'',
     ''TTTTTTTTTTTTTTTTTTTTTTTTTTTTTTTT'',
     ''TTBBTBBTTBBTBBTTTTTTTTTTTTTTTTTT'',
     ''TBWWBWWBBWWBWWBTTTTTTTTTTTTTTTTT'',
     ''TBWWWWWWWWWWWWBTTTTTTTTTTTTTTTTT'',
     ''BWWWWWWWWWWWWWWBTTTTTTTTTTTTTTTT'',
     ''BWWWWWWWWWWWWWWBTTTTTTTTTTTTTTTT'',
     ''BWWWWWWWWWWWWWWBTTTTTTTTTTTTTTTT'',
     ''BWWWWWWWWWWWWWWBTTTTTTTTTTTTTTTT'',
     ''BWWWWWWWWWWWWWWBTTTTTTTTTTTTTTTT'',
     ''BWWWWWWWWWWWWWWBTTTTTTTTTTTTTTTT'',
     ''TBWWWWWWWWWWWWBTTTTTTTTTTTTTTTTT'',
     ''TBWWWWWWWWWWWWBTTTTTTTTTTTTTTTTT'',
     ''TTBWWWWWWWWWWBTTTTTTTTTTTTTTTTTT'',
     ''TTTBBBBBBBBBBTTTTTTTTTTTTTTTTTTT'',
     ''TTTTTTTTTTTTTTTTTTTTTTTTTTTTTTTT'',
     ''TTTTTTTTTTTTTTTTTTTTTTTTTTTTTTTT'',
     ''TTTTTTTTTTTTTTTTTTTTTTTTTTTTTTTT'',
     ''TTTTTTTTTTTTTTTTTTTTTTTTTTTTTTTT'',
     ''TTTTTTTTTTTTTTTTTTTTTTTTTTTTTTTT'',
     ''TTTTTTTTTTTTTTTTTTTTTTTTTTTTTTTT'',
     ''TTTTTTTTTTTTTTTTTTTTTTTTTTTTTTTT'',
     ''TTTTTTTTTTTTTTTTTTTTTTTTTTTTTTTT'',
     ''TTTTTTTTTTTTTTTTTTTTTTTTTTTTTTTT'',
     ''TTTTTTTTTTTTTTTTTTTTTTTTTTTTTTTT'',
     ''TTTTTTTTTTTTTTTTTTTTTTTTTTTTTTTT'',
     ''TTTTTTTTTTTTTTTTTTTTTTTTTTTTTTTT'',
     ''TTTTTTTTTTTTTTTTTTTTTTTTTTTTTTTT'',
     ''TTTTTTTTTTTTTTTTTTTTTTTTTTTTTTTT'',
     ''TTTTTTTTTTTTTTTTTTTTTTTTTTTTTTTT'',
     ''TTTTTTTTTTTTTTTTTTTTTTTTTTTTTTTT'',
     ''TTTTTTTTTTTTTTTTTTTTTTTTTTTTTTTT''])"

record cursor_def =
  cwidth :: nat
  cheight :: nat
  hotspot_x :: u32
  hotspot_y :: u32
  pixels :: "u32 list"

definition cursor_defs :: "cursor_def list" where
  "cursor_defs =
     [\<lparr>cwidth = 32, cheight = 32, hotspot_x = 0, hotspot_y = 0, pixels = cursor_arrow_data\<rparr>,
      \<lparr>cwidth = 32, cheight = 32, hotspot_x = 8, hotspot_y = 2, pixels = cursor_hand_data\<rparr>,
      \<lparr>cwidth = 32, cheight = 32, hotspot_x = 4, hotspot_y = 16, pixels = cursor_text_data\<rparr>,
      \<lparr>cwidth = 32, cheight = 32, hotspot_x = 16, hotspot_y = 16, pixels = cursor_crosshair_data\<rparr>,
      \<lparr>cwidth = 32, cheight = 32, hotspot_x = 8, hotspot_y = 8, pixels = cursor_busy_data\<rparr>,
      \<lparr>cwidth = 32, cheight = 32, hotspot_x = 16, hotspot_y = 7, pixels = cursor_resize_h_data\<rparr>,
      \<lparr>cwidth = 32, cheight = 32, hotspot_x = 7, hotspot_y = 16, pixels = cursor_resize_v_data\<rparr>,
      \<lparr>cwidth = 32, cheight = 32, hotspot_x = 8, hotspot_y = 2, pixels = cursor_grab_data\<rparr>]"

record cursor =
  cur_x :: u32
  cur_y :: u32
  cur_visible :: bool
  cur_type :: nat

definition stamp_pixel :: "cursor_def \<Rightarrow> u32 \<Rightarrow> u32 \<Rightarrow> nat \<Rightarrow> nat \<Rightarrow> screen \<Rightarrow> screen" where
  "stamp_pixel d draw_x draw_y row col s =
     (let pixel = pixels d ! (row * cwidth d + col); alpha = ucast (drop_bit 24 pixel) :: u8;
          px = draw_x + of_nat col; py = draw_y + of_nat row
      in if alpha = 0 then s
         else if fb_width (fb s) \<le> px \<or> fb_height (fb s) \<le> py then s
         else let color = pixel AND 0x00FFFFFF
              in fb_put_pixel_vram px py (if alpha < 255 then fb_blend color (fb_read_pixel_vram px py s) alpha else color) s)"

definition stamp_cursor :: "u32 \<Rightarrow> u32 \<Rightarrow> cursor \<Rightarrow> screen \<Rightarrow> screen" where
  "stamp_cursor x y c s =
     (if fb_available (fb s) = 0 then s
      else let d = cursor_defs ! (if cur_type c < length cursor_defs then cur_type c else 0);
               draw_x = (if hotspot_x d \<le> x then x - hotspot_x d else 0);
               draw_y = (if hotspot_y d \<le> y then y - hotspot_y d else 0)
           in fold (\<lambda>row. fold (\<lambda>col. stamp_pixel d draw_x draw_y row col) [0..<cwidth d]) [0..<cheight d] s)"

definition cursor_init :: "screen \<Rightarrow> cursor \<Rightarrow> cursor" where
  "cursor_init s c =
     (if fb_available (fb s) = 0 then c
      else c\<lparr>cur_x := fb_width (fb s) div 2, cur_y := fb_height (fb s) div 2, cur_type := 0, cur_visible := True\<rparr>)"

definition cursor_set_type :: "nat \<Rightarrow> cursor \<Rightarrow> cursor" where
  "cursor_set_type t c = (if t < length cursor_defs then c\<lparr>cur_type := t\<rparr> else c)"

definition cursor_move :: "u32 \<Rightarrow> u32 \<Rightarrow> cursor \<Rightarrow> screen \<Rightarrow> cursor \<times> screen" where
  "cursor_move x y c s =
     (if fb_available (fb s) = 0 \<or> \<not> cur_visible c then (c\<lparr>cur_x := x, cur_y := y\<rparr>, s)
      else let x1 = (if fb_width (fb s) \<le> x then fb_width (fb s) - 1 else x);
               y1 = (if fb_height (fb s) \<le> y then fb_height (fb s) - 1 else y);
               c1 = c\<lparr>cur_x := x1, cur_y := y1\<rparr>
           in (c1, stamp_cursor x1 y1 c1 s))"

definition cursor_show :: "cursor \<Rightarrow> cursor" where "cursor_show c = c\<lparr>cur_visible := True\<rparr>"
definition cursor_hide :: "cursor \<Rightarrow> cursor" where "cursor_hide c = c\<lparr>cur_visible := False\<rparr>"

definition cursor_redraw :: "cursor \<Rightarrow> screen \<Rightarrow> screen" where
  "cursor_redraw c s =
     (if fb_available (fb s) = 0 \<or> \<not> cur_visible c then s else stamp_cursor (cur_x c) (cur_y c) c s)"

section \<open>The position stays on the screen\<close>

definition pointer_ok :: "fb_info \<Rightarrow> mouse \<Rightarrow> bool" where
  "pointer_ok f m \<longleftrightarrow> 0 \<le> mx m \<and> mx m < sint (fb_width f) \<and> 0 \<le> my m \<and> my m < sint (fb_height f)
     \<and> length (pkt m) = 3 \<and> pkt_idx m < 3"

lemma clamp_to_bounds: "0 \<le> m \<Longrightarrow> 0 \<le> clamp_to m v \<and> clamp_to m v \<le> m"
  by (simp add: clamp_to_def Let_def)

lemma clamp_to_spec: "0 \<le> m \<Longrightarrow> clamp_to m v = max 0 (min m v)"
  by (simp add: clamp_to_def Let_def)

lemma mouse_packet_ok:
  assumes "pointer_ok f m"
  shows "pointer_ok f (mouse_packet f m)"
proof -
  have "0 \<le> sint (fb_width f) - 1" "0 \<le> sint (fb_height f) - 1" using assms by (auto simp: pointer_ok_def)
  from this[THEN clamp_to_bounds] show ?thesis using assms by (auto simp: pointer_ok_def mouse_packet_def Let_def)
qed

lemma mouse_handler_ok:
  assumes "pointer_ok f m"
  shows "pointer_ok f (mouse_handler st b now f m)"
proof -
  have "pointer_ok f (mouse_packet f m')" if "pointer_ok f m'" for m' using that by (rule mouse_packet_ok)
  then show ?thesis using assms unfolding mouse_handler_def Let_def by (auto simp: pointer_ok_def)
qed

lemma set_pos_ok: "pointer_ok f m \<Longrightarrow> fb_available f \<noteq> 0 \<Longrightarrow> pointer_ok f (mouse_set_buttons b (mouse_set_pos x y f m))"
  by (auto simp: pointer_ok_def mouse_set_pos_def mouse_set_buttons_def Let_def)

lemma poll_ok: "pointer_ok f m \<Longrightarrow> pointer_ok f (fst (vmmouse_poll n answers f m v))"
  by (auto simp: vmmouse_poll_def Let_def set_pos_ok split: prod.splits)

lemma mouse_init_ok:
  assumes "0 < sint (fb_width f)" "0 < sint (fb_height f)"
  shows "pointer_ok f (mouse_init f mouse_zero)"
proof -
  have "0 \<le> z sdiv 2 \<and> z sdiv 2 < z" if "0 < z" for z :: int
    using that by (simp add: signed_divide_int_def sgn_if)
  from this[OF assms(1)] this[OF assms(2)] show ?thesis by (simp add: pointer_ok_def mouse_init_def mouse_zero_def)
qed

text \<open>Interrupts of the mouse and rounds of the poll, in any order.\<close>

datatype pointer_event = Irq12 u8 u8 u32 | Poll u32 "nat \<Rightarrow> u32 \<times> u32"

fun pointer_step :: "fb_info \<Rightarrow> pointer_event \<Rightarrow> mouse \<times> vmmouse \<Rightarrow> mouse \<times> vmmouse" where
  "pointer_step f (Irq12 st b now) (m, v) = (mouse_handler st b now f m, v)"
| "pointer_step f (Poll n answers) (m, v) = vmmouse_poll n answers f m v"

lemma pointer_steps_ok: "pointer_ok f (fst mv) \<Longrightarrow> pointer_ok f (fst (fold (pointer_step f) evs mv))"
proof (induction evs arbitrary: mv)
  case (Cons e evs)
  obtain m v where mv: "mv = (m, v)" by (cases mv)
  have "pointer_ok f (fst (pointer_step f e mv))"
    using Cons.prems mouse_handler_ok poll_ok by (cases e) (auto simp: mv)
  from Cons.IH[OF this] show ?case by simp
qed simp

text \<open>The three bytes of a packet after a pause, or when the handler waits for a packet.\<close>

lemma first_byte:
  assumes "length (pkt m) = 3" "pkt_idx m = 0 \<or> 50 < now - pkt_timeout m" "b AND 8 \<noteq> 0"
  shows "mouse_handler 0x21 b now f m = m\<lparr>irq12_count := irq12_count m + 1, pkt_timeout := now, pkt := (pkt m)[0 := b], pkt_idx := 1\<rparr>"
proof -
  have i: "0 < pkt_idx m \<and> 50 < now - pkt_timeout m \<or> pkt_idx m = 0" using assms(2) by auto
  show ?thesis unfolding mouse_handler_def Let_def using i assms(3) by (elim disjE) simp_all
qed

lemma second_byte:
  assumes "pkt_idx m = 1" "now - pkt_timeout m \<le> 50"
  shows "mouse_handler 0x21 b now f m = m\<lparr>irq12_count := irq12_count m + 1, pkt_timeout := now, pkt := (pkt m)[1 := b], pkt_idx := 2\<rparr>"
  using assms by (simp add: mouse_handler_def Let_def leD)

lemma third_byte:
  assumes "pkt_idx m = 2" "now - pkt_timeout m \<le> 50"
  shows "mouse_handler 0x21 b now f m = mouse_packet f (m\<lparr>irq12_count := irq12_count m + 1, pkt_timeout := now, pkt := (pkt m)[2 := b], pkt_idx := 0\<rparr>)"
  using assms by (simp add: mouse_handler_def Let_def leD)

lemma packet_decodes:
  fixes b0 b1 b2 :: u8
  assumes m: "pointer_ok f m" "pkt_idx m = 0 \<or> 50 < t0 - pkt_timeout m" and t: "t1 - t0 \<le> 50" "t2 - t1 \<le> 50"
    and b0: "b0 AND 8 \<noteq> 0" "b0 AND 0xC0 = 0"
  defines "m' \<equiv> mouse_handler 0x21 b2 t2 f (mouse_handler 0x21 b1 t1 f (mouse_handler 0x21 b0 t0 f m))"
  shows "mx m' = max 0 (min (sint (fb_width f) - 1) (mx m + sint b1))" "my m' = max 0 (min (sint (fb_height f) - 1) (my m - sint b2))"
    "mbuttons m' = b0 AND 7"
proof -
  have l: "length (pkt m) = 3" using m(1) by (simp add: pointer_ok_def)
  let ?m1 = "m\<lparr>irq12_count := irq12_count m + 1, pkt_timeout := t0, pkt := (pkt m)[0 := b0], pkt_idx := 1\<rparr>"
  let ?m2 = "?m1\<lparr>irq12_count := irq12_count ?m1 + 1, pkt_timeout := t1, pkt := (pkt ?m1)[1 := b1], pkt_idx := 2\<rparr>"
  have h1: "mouse_handler 0x21 b0 t0 f m = ?m1" using l m(2) b0(1) by (rule first_byte)
  have h2: "mouse_handler 0x21 b1 t1 f ?m1 = ?m2" by (rule second_byte) (simp_all add: t)
  have h3: "m' = mouse_packet f (?m2\<lparr>irq12_count := irq12_count ?m2 + 1, pkt_timeout := t2, pkt := (pkt ?m2)[2 := b2], pkt_idx := 0\<rparr>)"
    unfolding m'_def h1 h2 by (rule third_byte) (simp_all add: t)
  have c: "0 \<le> sint (fb_width f) - 1" "0 \<le> sint (fb_height f) - 1" using m(1) by (auto simp: pointer_ok_def)
  show "mx m' = max 0 (min (sint (fb_width f) - 1) (mx m + sint b1))" "my m' = max 0 (min (sint (fb_height f) - 1) (my m - sint b2))"
    "mbuttons m' = b0 AND 7"
    unfolding h3 mouse_packet_def Let_def clamp_to_spec[OF c(1)] clamp_to_spec[OF c(2)] using b0(2) l by simp_all
qed

text \<open>
  The delta of a packet as the comments describe it: nine bits, the byte with the sign bit from the flags. For a delta
  that fits into eight bits it is the signed byte; the driver reads larger ones with the wrong sign.
\<close>

definition ps2_delta :: "bool \<Rightarrow> u8 \<Rightarrow> int" where
  "ps2_delta neg b = uint b - (if neg then 256 else 0)"

lemma ps2_delta_byte:
  assumes "- 128 \<le> ps2_delta neg b" "ps2_delta neg b \<le> 127"
  shows "sint b = ps2_delta neg b"
proof -
  have "uint b < 256" using uint_lt2p[of b] by simp
  then have "ps2_delta neg b = (if uint b < 128 then uint b else uint b - 256)" using assms by (auto simp: ps2_delta_def split: if_splits)
  also have "\<dots> = sint b"
    using \<open>uint b < 256\<close> mod_add_self2[of "uint b - 128" 256] mod_pos_pos_trivial[of "uint b - 128" 256]
    by (auto simp: sint_uint signed_take_bit_eq_take_bit_shift take_bit_eq_mod add.commute)
  finally show ?thesis by simp
qed

text \<open>
  C6. The pointer never leaves the screen, whatever bytes the mouse port delivers and whatever packets a virtual machine
  returns, in any order. Whatever bytes came before, after a pause of more than 50 ticks a packet is decoded from its first
  byte: when the two nine-bit deltas (byte and sign flag) lie between -128 and 127, the position moves by them up to the
  edges of the screen, with the vertical axis turned round, and the buttons are the low bits of the flags.
\<close>

theorem pointer_recovers:
  assumes "0 < sint (fb_width f)" "0 < sint (fb_height f)" "(m, v) = fold (pointer_step f) evs (mouse_init f mouse_zero, v0)"
  shows "0 \<le> mx m \<and> mx m < sint (fb_width f) \<and> 0 \<le> my m \<and> my m < sint (fb_height f)
    \<and> (\<forall>b0 b1 b2 t0 t1 t2. 50 < t0 - pkt_timeout m \<and> t1 - t0 \<le> 50 \<and> t2 - t1 \<le> 50 \<and> b0 AND 8 \<noteq> 0 \<and> b0 AND 0xC0 = 0
         \<and> ps2_delta (b0 AND 0x10 \<noteq> 0) b1 \<in> {-128..127} \<and> ps2_delta (b0 AND 0x20 \<noteq> 0) b2 \<in> {-128..127} \<longrightarrow>
         (let m' = mouse_handler 0x21 b2 t2 f (mouse_handler 0x21 b1 t1 f (mouse_handler 0x21 b0 t0 f m))
          in mx m' = max 0 (min (sint (fb_width f) - 1) (mx m + ps2_delta (b0 AND 0x10 \<noteq> 0) b1))
             \<and> my m' = max 0 (min (sint (fb_height f) - 1) (my m - ps2_delta (b0 AND 0x20 \<noteq> 0) b2)) \<and> mbuttons m' = b0 AND 7))"
proof -
  have ok: "pointer_ok f m"
    using pointer_steps_ok[of f "(mouse_init f mouse_zero, v0)" evs] mouse_init_ok[OF assms(1,2)] by (simp flip: assms(3))
  then have "0 \<le> mx m \<and> mx m < sint (fb_width f) \<and> 0 \<le> my m \<and> my m < sint (fb_height f)" by (auto simp: pointer_ok_def)
  moreover have "let m' = mouse_handler 0x21 b2 t2 f (mouse_handler 0x21 b1 t1 f (mouse_handler 0x21 b0 t0 f m))
          in mx m' = max 0 (min (sint (fb_width f) - 1) (mx m + ps2_delta (b0 AND 0x10 \<noteq> 0) b1))
             \<and> my m' = max 0 (min (sint (fb_height f) - 1) (my m - ps2_delta (b0 AND 0x20 \<noteq> 0) b2)) \<and> mbuttons m' = b0 AND 7"
    if "50 < t0 - pkt_timeout m" "t1 - t0 \<le> 50" "t2 - t1 \<le> 50" "b0 AND 8 \<noteq> 0" "b0 AND 0xC0 = 0"
      "ps2_delta (b0 AND 0x10 \<noteq> 0) b1 \<in> {-128..127}" "ps2_delta (b0 AND 0x20 \<noteq> 0) b2 \<in> {-128..127}" for b0 b1 b2 :: u8 and t0 t1 t2
  proof -
    have d: "sint b1 = ps2_delta (b0 AND 0x10 \<noteq> 0) b1" "sint b2 = ps2_delta (b0 AND 0x20 \<noteq> 0) b2"
      using that(6,7) by (auto intro!: ps2_delta_byte)
    show ?thesis unfolding Let_def using packet_decodes[OF ok _ that(2-5), of b2 b1] that(1) unfolding d by blast
  qed
  ultimately show ?thesis by blast
qed

theorem pointer_recovers_witness:
  "\<exists>m v. (m, v) = fold (pointer_step (fb (small_screen boot_heap))) [Irq12 0x21 0x09 5]
       (mouse_init (fb (small_screen boot_heap)) mouse_zero, \<lparr>vm_active = False, vm_pressed_latch = 0, vm_released_latch = 0\<rparr>)
     \<and> mx (mouse_handler 0x21 0 102 (fb (small_screen boot_heap)) (mouse_handler 0x21 0xFD 101 (fb (small_screen boot_heap))
            (mouse_handler 0x21 0x18 100 (fb (small_screen boot_heap)) m))) = 1"
proof -
  let ?f = "fb (small_screen boot_heap)" and ?v = "\<lparr>vm_active = False, vm_pressed_latch = 0, vm_released_latch = 0\<rparr>"
  have f: "0 < sint (fb_width ?f)" "0 < sint (fb_height ?f)" by (simp_all add: small_screen_def)
  obtain m v where mv: "(m, v) = fold (pointer_step ?f) [Irq12 0x21 0x09 5] (mouse_init ?f mouse_zero, ?v)" by (metis surj_pair)
  have m: "pkt_timeout m = 5" "mx m = 4" "fb_width ?f = 8"
    using mv by (simp_all add: mouse_handler_def mouse_init_def mouse_zero_def Let_def small_screen_def signed_divide_int_def sgn_if)
  then have "mx (mouse_handler 0x21 0 102 ?f (mouse_handler 0x21 0xFD 101 ?f (mouse_handler 0x21 0x18 100 ?f m))) = 1"
    using pointer_recovers[OF f mv] by (simp add: Let_def ps2_delta_def)
  then show ?thesis using mv by blast
qed

section \<open>The cursor image\<close>

lemma cursor_bitmaps: "d \<in> set cursor_defs \<Longrightarrow> length (pixels d) = cwidth d * cheight d"
  by (auto simp: cursor_defs_def cursor_arrow_data_def cursor_hand_data_def cursor_text_data_def cursor_crosshair_data_def
      cursor_busy_data_def cursor_resize_h_data_def cursor_resize_v_data_def cursor_grab_data_def)

lemma stamp_cursor_steps:
  assumes "frame_ok s"
  shows "steps_to s (stamp_cursor x y c s)"
proof -
  have step: "steps_to t (stamp_pixel d dx dy row col t)" if "frame_ok t" for t d dx dy row col
    using put_vram_draws[OF that] that by (simp add: stamp_pixel_def Let_def steps_to_def)
  then have "steps_to s (fold (\<lambda>row. fold (\<lambda>col. stamp_pixel d dx dy row col) cs) rs s)" for d dx dy cs rs
    using assms by (intro fold_steps) auto
  moreover have "steps_to s s" using assms by (simp add: steps_to_def)
  ultimately show ?thesis unfolding stamp_cursor_def Let_def by presburger
qed

text \<open>Moving the cursor to the pointer changes video memory only, and the cursor is where the pointer is.\<close>

lemma cursor_follows_pointer:
  assumes "frame_ok s" "pointer_ok (fb s) m" "cur_visible c"
  shows "\<exists>c' s'. cursor_move (of_int (mx m)) (of_int (my m)) c s = (c', s') \<and> steps_to s s'
    \<and> cur_x c' = of_int (mx m) \<and> cur_y c' = of_int (my m)"
proof -
  have av: "fb_available (fb s) \<noteq> 0" using assms(1) by (simp add: frame_ok_def screen_ok_def)
  have lt: "of_int z < w" if "0 \<le> z" "z < sint w" for z and w :: u32
  proof -
    have "sint w < 2 ^ 31" using sint_lt[of w] by simp
    then have "uint (of_int z :: u32) = z" "uint w = sint w"
      using that uint_word_of_int[of "sint w", where ?'a = 32] by (simp_all add: uint_word_of_int)
    then show ?thesis using that by (simp add: word_less_alt)
  qed
  show ?thesis
    using assms(2,3) av lt[of "mx m" "fb_width (fb s)"] lt[of "my m" "fb_height (fb s)"] stamp_cursor_steps[OF assms(1)]
    by (auto simp: cursor_move_def pointer_ok_def Let_def not_le)
qed

end
