(* ===== verification/Spec2Isabelle.thy ===== *)
theory Spec2Isabelle
  imports Pressure Sched_Signals Klibc_Format Ramfs_Props Lxs_Compile Keyboard Firewall Security Wm Lxs_Kernel Services Linux_Memory Pointer
begin

text \<open>
  \<^bold>\<open>A verification development for the DracolaxOS kernel.\<close>

  DracolaxOS is a 64-bit hobby kernel in C with a graphical desktop. This library models the parts
  of it that carry state and decisions: the memory managers with their limits, the scheduler and its
  signals, keyboard input, the C library of the kernel, the file system layer, the packet filter,
  accounts and screen lock, the window manager, services, the loader of programs, and the whole pipeline
  of the script language LXScript from its lexer to its virtual machine. Paths below are relative to the root of the
  repository. Every theory names the functions it models; definitions keep the names of the code.

  \<^bold>\<open>How the parts fit together.\<close> The page allocator hands out physical pages and gives the
  heap its area at boot. The heap serves all other parts; the limits gate refuses requests when the
  heap is nearly full. The scheduler keeps its stacks in the heap, the RAM file system its file
  buffers, the window manager its back buffers, and script execution its arena and machine. The
  keyboard handler feeds a ring and, through the input router, one ring per task. The packet filter
  stores its rules in a file of the RAM file system. The licence mixes the free page count of the
  page allocator into the device identifier, and the screen lock depends on licence and accounts.
  Services and applications are tasks of the scheduler, and a launched application gets the keyboard of
  the input router. The loader reads a file, takes pages and heap blocks and writes to memory directly.
  Shared representations are in \<open>Prelude\<close>: machine words, memory as a function from addresses to
  bytes with little-endian access, and lemmas on words and lists.

  \<^bold>\<open>Memory.\<close>
  \<^item> \<open>Pmm\<close> (kernel/mm/pmm.c): bitmap, counters, the walk over the Multiboot2 memory map, first-fit
    allocation. C1, C2: exact effect of allocation and of initialisation.
  \<^item> \<open>Heap\<close> (kernel/mm/vmm.c) models headers and links byte by byte. \<open>Heap_Rep\<close>, \<open>Heap_Walk\<close>, \<open>Heap_Ops\<close>,
    \<open>Heap_Steps\<close>, \<open>Heap_Correct\<close> relate memory to a list of blocks and show that each step of the code
    refines an operation on that list; \<open>Heap_Client\<close> states the contract as the locale \<open>allocator\<close>,
    interpreted on \<open>kmalloc\<close> and \<open>kfree\<close>; \<open>Heap_Frame\<close> shows that a call leaves the bounds of the heap and every byte
    outside it alone; \<open>Heap_Realloc\<close> and \<open>Heap_Props\<close> hold the rest. C5 and C7: refinement; C8: a second free of a
    freed block is recognised; C9: a program that frees all it took leaves one block of 32 MB; C10: safety of every
    well-behaved client; C11: canaries; C13: reallocation. Requests have at most 2 GB; a lemma shows the wrap-around of
    requests near 4 GB.
  \<^item> \<open>Limits\<close> and \<open>Pressure\<close> (kernel/limits.c): the gate and its periodic update. C15: the gate in the cases where it
    agrees with the rule of the header; the code ignores the size of a request and lets 64 bytes through always.

  \<^bold>\<open>Tasks and input.\<close>
  \<^item> \<open>Input_Router\<close> (kernel/drivers/ps2/input_router.c): each ring refines a bounded queue (locale and
    interpretation), and the blocking read returns. C16, C17.
  \<^item> \<open>Signal\<close>, \<open>Sched\<close>, \<open>Sched_Select\<close>, \<open>Sched_Inv\<close>, \<open>Sched_Props\<close>, \<open>Sched_Signals\<close> (kernel/ipc/signal.c,
    kernel/sched/sched.c): task table, stacks in the heap, selection with priorities and aging,
    watchdog, signal delivery, as a step relation with an invariant. C18 to C23: safety of every
    reachable state, choice of the next task (but for a real-time task with a used-up slice, where code and comment
    disagree), no starvation, start of a new task, watchdog, and SIGKILL, which no mask or handler set before holds
    back. Signals are delivered lowest first, so C23 is about tasks without a lower pending signal that is caught or ignored.
  \<^item> \<open>Keyboard\<close> (kernel/drivers/ps2/keyboard.c): scan codes to characters. C35: the scan codes of a typed text append
    this text to the queue of the focused task.

  \<^item> \<open>Services\<close> (services/service_manager.c, services/notification_daemon.c, kernel/klog.c,
    kernel/appman/appman.c): the two rings are interpretations of the queue of \<open>Input_Router\<close>; lemmas show that
    the newest notification is displayed, a panic prints the pending lines in order, starting services
    keeps the kernel consistent, and a launched application has the focus.
  \<^item> \<open>Elf_Loader\<close>, \<open>Elf_Props\<close> (kernel/loader/elf_loader.c): validation, segments, the initial stack and
    \<^verbatim>\<open>elf_exec\<close>. C14: the layout of the initial stack; lemmas give the image of a segment and what
    validation guarantees.
  \<^item> \<open>Linux_Memory\<close> (kernel/linux/linux_memory.c): \<^verbatim>\<open>mmap\<close>, \<^verbatim>\<open>munmap\<close> and \<^verbatim>\<open>brk\<close> of a program, with the
    table of mappings kept in a heap block. C4: releasing the mappings gives back the heap blocks
    they took, for mappings of at most 2 GB and breaks below the heap; the pages taken by \<^verbatim>\<open>brk\<close> are never given back.

  \<^bold>\<open>Library and files.\<close>
  \<^item> \<open>Klibc\<close>, \<open>Klibc_Props\<close>, \<open>Klibc_Format\<close> (kernel/klibc.c): memory and string functions, numbers,
    formatted output. C24 to C27, with a reference formatter that leaves out \<^verbatim>\<open>%p\<close> and the single prefix \<^verbatim>\<open>l\<close>.
  \<^item> \<open>Vfs\<close> (kernel/fs/vfs.c): path sanitising and mount resolution. C28, C29. \<open>Ramfs\<close>, \<open>Ramfs_Props\<close>
    (kernel/fs/ramfs.c): files as byte lists in heap blocks. C30, C31.

  \<^bold>\<open>Security and windows.\<close>
  \<^item> \<open>Firewall\<close> (kernel/security/draco-shield/): rules, evaluation, persistence, the shell command. C36.
  \<^item> \<open>Security\<close> (kernel/security/dracoauth.c, dracolock.c, dracolicence.c): C37, over every sequence of
    operations.
  \<^item> \<open>Wm\<close> (gui/wm/wm.c): windows, focus, switcher, and frames as lists of drawing commands. C38.
  \<^item> \<open>Framebuffer\<close> (kernel/drivers/vga/fb.c): the mode, the shadow buffer in the heap, the primitives, the font and the text
    console. \<open>Framebuffer_Props\<close>: drawing steps as partial maps from pixels to colours; \<open>Framebuffer_Safe\<close>: C3, the exact
    shape of rounded rectangles, and C12, no byte outside the shadow buffer and the video memory changes (32 bits per pixel, at least 64 lines, rows
    of a multiple of four bytes, radii up to 46339). Lemmas link
    them to the state \<^verbatim>\<open>fb_init\<close> leaves and show that the buffer is too small in 16-bit modes.
  \<^item> \<open>Pointer\<close> (kernel/drivers/ps2/mouse.c, vmmouse.c, kernel/drivers/vga/cursor.c): the decoder of mouse packets, the absolute
    pointer and the cursor image. C6: the pointer stays on the screen and the decoder recovers after a pause, for
    deltas between -128 and 127, where the code and the nine-bit format agree.

  \<^bold>\<open>Scripts.\<close>
  \<^item> \<open>Lxs_Lexer\<close> (lxscript/lexer/): C32. \<open>Lxs_Parser\<close>, \<open>Lxs_Parse_Props\<close> (lxscript/parser/): C39.
  \<^item> \<open>Lxs_Vm\<close> (lxscript/vm/), \<open>Lxs_Codegen\<close> (lxscript/codegen/), \<open>Lxs_Code\<close>, \<open>Lxs_Safe\<close>, \<open>Lxs_Run\<close>: the shape
    of compiled code and C33, the machine never leaves its code, stack and variables; \<open>Lxs_Compile\<close>:
    C34, compiled programs return the value of their meaning, for literals other than strings, the operators but
    % <= >= and native calls with at most 16 arguments. Both are about programs of fewer than 65535 bytes.
  \<^item> \<open>Lxs_Kernel\<close> (kernel/lxs_kernel.c): parsing, compiling and running on heap blocks, with the ways a script can end.
    C40: whenever running a script file returns, nothing has leaked, and the only ends without return are a null
    pointer of a full arena, the division trap, a program of 65535 bytes and a script that runs forever.

  \<^bold>\<open>Conventions, fuel and bounds.\<close> Integers of the code are words of their width; a C \<open>int\<close> that the
  code keeps small and non-negative is a natural number. Pointers are addresses, or indices where they
  point into one table, or options where null is tested. Loops that need a terminator or a linked list
  in memory are partial functions with value \<^const>\<open>None\<close> when they do not return, and the properties
  show when they do. The parser carries fuel: one unit per call or loop round; 16 units per
  character and 32 more always suffice (C39). Code that masks interrupts is one step; code that can
  be interrupted is covered by step relations and sequences of operations.

  \<^bold>\<open>Not modelled.\<close> Log output, port traffic, inline assembly and page tables; the compositor, desktop, widgets and
  applications, which draw with the primitives above; the shell and the other services, which call the parts above and
  print; the renderer over floating point numbers; stubs; host tools and tests; generated image data. Of the Linux layer
  only the memory calls are modelled; its file and process calls, the process file system, the icon loader and the
  rotation of log files hold state of their own that a model can reach from these theories.
\<close>

end
